(* ===== verification/Event_Scheduler.thy ===== *)
theory Event_Scheduler
  imports Sim_Prelude
begin

text \<open>
  The scheduler interface of the simulation core (\<^verbatim>\<open>src/core/model/scheduler.h\<close>): event
  keys and their order, events, the virtual functions of \<^verbatim>\<open>Scheduler\<close> as a record of
  operations, and the contracts those operations promise, as two locales. The concrete
  schedulers of the sources interpret them; the simulator engine is a client of them.
\<close>

section \<open>Events and their keys\<close>

record event_key =
  ek_ts :: u64
  ek_uid :: u32
  ek_context :: u32

record event =
  ev_impl :: ptr
  ev_key :: event_key

definition key_eq :: "event_key \<Rightarrow> event_key \<Rightarrow> bool" where
  "key_eq a b \<longleftrightarrow> ek_uid a = ek_uid b"

definition key_less :: "event_key \<Rightarrow> event_key \<Rightarrow> bool" where
  "key_less a b \<longleftrightarrow>
     (if ek_ts a < ek_ts b then True
      else if ek_ts a = ek_ts b \<and> ek_uid a < ek_uid b then True
      else False)"

definition key_greater :: "event_key \<Rightarrow> event_key \<Rightarrow> bool" where
  "key_greater a b \<longleftrightarrow>
     (if ek_ts a > ek_ts b then True
      else if ek_ts a = ek_ts b \<and> ek_uid a > ek_uid b then True
      else False)"

definition event_eq :: "event \<Rightarrow> event \<Rightarrow> bool" where
  "event_eq a b \<longleftrightarrow> key_eq (ev_key a) (ev_key b)"

definition event_less :: "event \<Rightarrow> event \<Rightarrow> bool" where
  "event_less a b \<longleftrightarrow> key_less (ev_key a) (ev_key b)"

definition event_greater :: "event \<Rightarrow> event \<Rightarrow> bool" where
  "event_greater a b \<longleftrightarrow> key_greater (ev_key a) (ev_key b)"

text \<open>The virtual functions of the abstract class \<^verbatim>\<open>Scheduler\<close>. \<^term>\<open>None\<close> stands for a failed
  \<^verbatim>\<open>NS_ASSERT\<close> or an access to an empty container.\<close>

record 's scheduler =
  op_Insert :: "event \<Rightarrow> 's \<Rightarrow> 's option"
  op_IsEmpty :: "'s \<Rightarrow> bool"
  op_PeekNext :: "'s \<Rightarrow> event option"
  op_RemoveNext :: "'s \<Rightarrow> (event \<times> 's) option"
  op_Remove :: "event \<Rightarrow> 's \<Rightarrow> 's option"

section \<open>Ranks\<close>

text \<open>The key order is the lexicographic order on (time stamp, uid): the rank of an event. The
  linear order on pairs then carries all ordering arguments.\<close>

definition key_rank :: "event_key \<Rightarrow> u64 \<times> u32" where
  "key_rank k = (ek_ts k, ek_uid k)"

abbreviation rank :: "event \<Rightarrow> u64 \<times> u32" where
  "rank e \<equiv> key_rank (ev_key e)"

abbreviation uid :: "event \<Rightarrow> u32" where
  "uid e \<equiv> ek_uid (ev_key e)"

abbreviation ts :: "event \<Rightarrow> u64" where
  "ts e \<equiv> ek_ts (ev_key e)"

lemma key_less_rank [sim_simps]: "key_less a b \<longleftrightarrow> key_rank a < key_rank b"
  by (auto simp: key_less_def key_rank_def less_prod_def)

lemma key_greater_rank [sim_simps]: "key_greater a b \<longleftrightarrow> key_rank b < key_rank a"
  by (auto simp: key_greater_def key_rank_def less_prod_def)

lemma event_less_rank [sim_simps]: "event_less a b \<longleftrightarrow> rank a < rank b"
  by (simp add: event_less_def sim_simps)

lemma event_greater_rank [sim_simps]: "event_greater a b \<longleftrightarrow> rank b < rank a"
  by (simp add: event_greater_def sim_simps)

lemma rank_eq_iff: "rank a = rank b \<longleftrightarrow> ts a = ts b \<and> uid a = uid b"
  by (simp add: key_rank_def)

lemma rank_le_ts: "rank a \<le> rank b \<Longrightarrow> ts a \<le> ts b"
  by (auto simp: key_rank_def less_eq_prod_def)

definition uids_distinct :: "event multiset \<Rightarrow> bool" where
  "uids_distinct M \<longleftrightarrow> (\<forall>u. size {#e \<in># M. uid e = u#} \<le> 1)"

lemma uids_distinct_unique:
  assumes "uids_distinct M" and "a \<in># M" and "b \<in># M" and "uid a = uid b"
  shows "a = b"
proof (rule ccontr)
  assume "a \<noteq> b"
  with assms have "{#a, b#} \<subseteq># {#e \<in># M. uid e = uid a#}"
    by (simp add: insert_subset_eq_iff in_diff_count)
  then have "size {#a, b#} \<le> size {#e \<in># M. uid e = uid a#}"
    by (rule size_mset_mono)
  with assms(1) show False by (auto simp: uids_distinct_def dest: spec [of _ "uid a"])
qed

lemma uids_distinct_empty [simp]: "uids_distinct {#}"
  by (simp add: uids_distinct_def)

lemma uids_distinct_add:
  assumes "uids_distinct M" and "\<forall>e \<in># M. uid e \<noteq> uid ev"
  shows "uids_distinct (add_mset ev M)"
  using assms by (auto simp: uids_distinct_def)

lemma uids_distinct_diff: "uids_distinct M \<Longrightarrow> uids_distinct (M - N)"
  unfolding uids_distinct_def
  by (metis (no_types, lifting) diff_subset_eq_self dual_order.trans multiset_filter_mono
      size_mset_mono)

lemma uids_distinct_mset: "uids_distinct (mset xs) \<longleftrightarrow> distinct (map uid xs)"
proof (induction xs)
  case (Cons x xs)
  have "uids_distinct (mset (x # xs)) \<longleftrightarrow>
      uids_distinct (mset xs) \<and> (\<forall>e \<in> set xs. uid e \<noteq> uid x)" (is "?L \<longleftrightarrow> ?R")
  proof
    assume L: ?L
    have "uids_distinct (mset xs)"
      using uids_distinct_diff [OF L, of "{#x#}"] by simp
    moreover have "size {#e \<in># mset xs. uid e = uid x#} = 0"
      using L by (auto simp: uids_distinct_def dest: spec [of _ "uid x"])
    then have "\<forall>e \<in> set xs. uid e \<noteq> uid x"
      by auto
    ultimately show ?R by blast
  qed (auto intro: uids_distinct_add)
  with Cons.IH show ?case by (auto simp: image_iff)
qed simp

section \<open>The contracts\<close>

text \<open>A priority queue of events: insertion of a fresh event succeeds, and \<^verbatim>\<open>RemoveNext\<close> takes out
  an event that no other pending event precedes.\<close>

locale event_queue =
  fixes ops :: "'s scheduler"
    and init :: 's
    and invar :: "'s \<Rightarrow> bool"
    and events :: "'s \<Rightarrow> event multiset"
  assumes init_invar: "invar init"
    and init_events: "events init = {#}"
    and is_empty: "invar s \<Longrightarrow> op_IsEmpty ops s \<longleftrightarrow> events s = {#}"
    and insert_ok: "invar s \<Longrightarrow> \<forall>e \<in># events s. uid e \<noteq> uid ev \<Longrightarrow>
      \<exists>s'. op_Insert ops ev s = Some s' \<and> invar s' \<and> events s' = add_mset ev (events s)"
    and remove_next_ok: "invar s \<Longrightarrow> events s \<noteq> {#} \<Longrightarrow>
      \<exists>ev s'. op_RemoveNext ops s = Some (ev, s') \<and> invar s' \<and> ev \<in># events s \<and>
        (\<forall>e \<in># events s. rank ev \<le> rank e) \<and> events s' = events s - {#ev#}"
    and peek_next: "invar s \<Longrightarrow> events s \<noteq> {#} \<Longrightarrow>
      op_PeekNext ops s = map_option fst (op_RemoveNext ops s)"
begin

lemma remove_nextE:
  assumes "invar s" and "events s \<noteq> {#}"
  obtains ev s' where "op_RemoveNext ops s = Some (ev, s')" and "invar s'"
    and "events s = add_mset ev (events s')" and "\<forall>e \<in># events s'. rank ev \<le> rank e"
proof -
  from remove_next_ok [OF assms] obtain ev s' where
    "op_RemoveNext ops s = Some (ev, s')" "invar s'" "ev \<in># events s"
    "\<forall>e \<in># events s. rank ev \<le> rank e" "events s' = events s - {#ev#}" by blast
  then show thesis by (intro that [of ev s']) (auto dest: in_diffD)
qed

lemma insertE:
  assumes "invar s" and "\<forall>e \<in># events s. uid e \<noteq> uid ev"
  obtains s' where "op_Insert ops ev s = Some s'" and "invar s'"
    and "events s' = add_mset ev (events s)"
  using insert_ok [OF assms] by blast

lemma peek_is_next:
  assumes "invar s" and "events s \<noteq> {#}"
  shows "\<exists>ev. op_PeekNext ops s = Some ev \<and> ev \<in># events s \<and> (\<forall>e \<in># events s. rank ev \<le> rank e)"
  using remove_next_ok [OF assms] peek_next [OF assms] by auto

end

text \<open>A scheduler also takes out a given pending event. Events carry distinct uids, which is how
  the sources find them.\<close>

locale event_scheduler = event_queue +
  assumes remove_ok: "invar s \<Longrightarrow> uids_distinct (events s) \<Longrightarrow> ev \<in># events s \<Longrightarrow>
      \<exists>s'. op_Remove ops ev s = Some s' \<and> invar s' \<and> events s' = events s - {#ev#}"
begin

lemma removeE:
  assumes "invar s" and "uids_distinct (events s)" and "ev \<in># events s"
  obtains s' where "op_Remove ops ev s = Some s'" and "invar s'"
    and "events s' = events s - {#ev#}"
  using remove_ok [OF assms] by blast

end

end
