(* ===== verification/List_Scheduler.thy ===== *)
theory List_Scheduler
  imports Event_Scheduler
begin

text \<open>
  \<^verbatim>\<open>ListScheduler\<close> (\<^verbatim>\<open>src/core/model/list-scheduler.cc\<close>) keeps the events in a list sorted by
  key; \<^verbatim>\<open>MapScheduler\<close> (\<^verbatim>\<open>map-scheduler.cc\<close>, the default) keeps them in a \<^verbatim>\<open>std::map\<close>, modelled by
  the list of its bindings in key order. Both interpret the scheduler contract.
\<close>

section \<open>ListScheduler\<close>

type_synonym list_events = "event list"

fun list_Insert :: "event \<Rightarrow> list_events \<Rightarrow> list_events" where
  "list_Insert ev [] = [ev]"
| "list_Insert ev (i # rest) =
     (if key_less (ev_key ev) (ev_key i) then ev # i # rest else i # list_Insert ev rest)"

definition list_IsEmpty :: "list_events \<Rightarrow> bool" where
  "list_IsEmpty m_events \<longleftrightarrow> m_events = []"

definition list_PeekNext :: "list_events \<Rightarrow> event option" where
  "list_PeekNext m_events = (case m_events of [] \<Rightarrow> None | e # _ \<Rightarrow> Some e)"

definition list_RemoveNext :: "list_events \<Rightarrow> (event \<times> list_events) option" where
  "list_RemoveNext m_events = (case m_events of [] \<Rightarrow> None | e # rest \<Rightarrow> Some (e, rest))"

fun list_Remove :: "event \<Rightarrow> list_events \<Rightarrow> list_events option" where
  "list_Remove ev [] = None"
| "list_Remove ev (i # rest) =
     (if ek_uid (ev_key i) = ek_uid (ev_key ev)
      then (if ev_impl ev = ev_impl i then Some rest else None)
      else map_option ((#) i) (list_Remove ev rest))"

definition ListScheduler :: "list_events scheduler" where
  "ListScheduler = \<lparr>op_Insert = (\<lambda>ev s. Some (list_Insert ev s)), op_IsEmpty = list_IsEmpty,
     op_PeekNext = list_PeekNext, op_RemoveNext = list_RemoveNext, op_Remove = list_Remove\<rparr>"

section \<open>MapScheduler\<close>

type_synonym event_map = "(event_key \<times> ptr) list"

text \<open>\<^verbatim>\<open>std::map::insert\<close> and \<^verbatim>\<open>std::map::find\<close> for the comparison \<^verbatim>\<open>operator<\<close> on keys: two keys are
  the same binding when neither is less than the other.\<close>

fun map_insert :: "event_key \<Rightarrow> ptr \<Rightarrow> event_map \<Rightarrow> event_map \<times> bool" where
  "map_insert k v [] = ([(k, v)], True)"
| "map_insert k v ((k', v') # m) =
     (if key_less k k' then ((k, v) # (k', v') # m, True)
      else if key_less k' k then (let (m', r) = map_insert k v m in ((k', v') # m', r))
      else ((k', v') # m, False))"

definition map_Insert :: "event \<Rightarrow> event_map \<Rightarrow> event_map option" where
  "map_Insert ev m_list =
     (let (m', ok) = map_insert (ev_key ev) (ev_impl ev) m_list in if ok then Some m' else None)"

definition map_IsEmpty :: "event_map \<Rightarrow> bool" where
  "map_IsEmpty m_list \<longleftrightarrow> m_list = []"

definition map_PeekNext :: "event_map \<Rightarrow> event option" where
  "map_PeekNext m_list =
     (case m_list of [] \<Rightarrow> None | (k, v) # _ \<Rightarrow> Some \<lparr>ev_impl = v, ev_key = k\<rparr>)"

definition map_RemoveNext :: "event_map \<Rightarrow> (event \<times> event_map) option" where
  "map_RemoveNext m_list =
     (case m_list of [] \<Rightarrow> None | (k, v) # m \<Rightarrow> Some (\<lparr>ev_impl = v, ev_key = k\<rparr>, m))"

fun map_Remove :: "event \<Rightarrow> event_map \<Rightarrow> event_map option" where
  "map_Remove ev [] = None"
| "map_Remove ev ((k, v) # m) =
     (if \<not> key_less (ev_key ev) k \<and> \<not> key_less k (ev_key ev)
      then (if v = ev_impl ev then Some m else None)
      else map_option ((#) (k, v)) (map_Remove ev m))"

definition MapScheduler :: "event_map scheduler" where
  "MapScheduler = \<lparr>op_Insert = map_Insert, op_IsEmpty = map_IsEmpty,
     op_PeekNext = map_PeekNext, op_RemoveNext = map_RemoveNext, op_Remove = map_Remove\<rparr>"

section \<open>The list scheduler meets the contract\<close>

abbreviation list_sorted :: "list_events \<Rightarrow> bool" where
  "list_sorted es \<equiv> sorted (map rank es)"

lemma mset_list_Insert [simp]: "mset (list_Insert ev es) = add_mset ev (mset es)"
  by (induction es) auto

lemma set_list_Insert [simp]: "set (list_Insert ev es) = insert ev (set es)"
  by (induction es) auto

lemma sorted_list_Insert: "list_sorted es \<Longrightarrow> list_sorted (list_Insert ev es)"
  by (induction es) (auto simp: sim_simps)

text \<open>Insertion is stable: an event goes behind every event of the same rank already there.\<close>

lemma list_Insert_stable:
  "list_sorted es \<Longrightarrow> list_Insert ev es =
     takeWhile (\<lambda>e. rank e \<le> rank ev) es @ ev # dropWhile (\<lambda>e. rank e \<le> rank ev) es"
  by (induction es) (auto simp: sim_simps)

lemma list_Remove_present:
  assumes "distinct (map uid es)" and "ev \<in> set es"
  shows "list_Remove ev es = Some (remove1 ev es)"
  using assms
proof (induction es)
  case (Cons i es)
  show ?case
  proof (cases "i = ev")
    case False
    with Cons.prems have "uid i \<noteq> uid ev" and "ev \<in> set es" by (auto simp: image_iff)
    with Cons False show ?thesis by auto
  qed simp
qed simp

lemma sorted_remove1_map: "list_sorted es \<Longrightarrow> list_sorted (remove1 ev es)"
  by (induction es) (auto dest: subsetD [OF set_remove1_subset])

interpretation listq: event_scheduler ListScheduler "[]" list_sorted mset
proof
  fix s :: list_events
  assume s: "list_sorted s" "mset s \<noteq> {#}"
  then obtain e es where es: "s = e # es" by (cases s) auto
  from s es show "\<exists>ev s'. op_RemoveNext ListScheduler s = Some (ev, s') \<and> list_sorted s' \<and>
      ev \<in># mset s \<and> (\<forall>e \<in># mset s. rank ev \<le> rank e) \<and> mset s' = mset s - {#ev#}"
    by (auto simp: ListScheduler_def list_RemoveNext_def)
  from es show "op_PeekNext ListScheduler s = map_option fst (op_RemoveNext ListScheduler s)"
    by (simp add: ListScheduler_def list_RemoveNext_def list_PeekNext_def)
next
  fix s :: list_events and ev
  assume "list_sorted s" and "uids_distinct (mset s)" and "ev \<in># mset s"
  then show "\<exists>s'. op_Remove ListScheduler ev s = Some s' \<and> list_sorted s' \<and>
      mset s' = mset s - {#ev#}"
    by (simp add: ListScheduler_def uids_distinct_mset list_Remove_present sorted_remove1_map)
qed (simp_all add: ListScheduler_def list_IsEmpty_def sorted_list_Insert)

section \<open>The map scheduler meets the contract\<close>

definition map_events :: "event_map \<Rightarrow> event list" where
  "map_events m = map (\<lambda>(k, v). \<lparr>ev_impl = v, ev_key = k\<rparr>) m"

lemma map_events_simps [simp]:
  "map_events [] = []"
  "map_events ((k, v) # m) = \<lparr>ev_impl = v, ev_key = k\<rparr> # map_events m"
  by (simp_all add: map_events_def)

lemma map_events_eq_Nil [simp]: "map_events m = [] \<longleftrightarrow> m = []"
  by (simp add: map_events_def)

text \<open>On fresh keys the map does exactly what the list scheduler does on the list of its events.\<close>

lemma map_insert_list_Insert:
  assumes "rank ev \<notin> rank ` set (map_events m)"
  shows "snd (map_insert (ev_key ev) (ev_impl ev) m) \<and>
    map_events (fst (map_insert (ev_key ev) (ev_impl ev) m)) = list_Insert ev (map_events m)"
  using assms
proof (induction m)
  case (Cons kv m)
  then show ?case
    by (cases kv; cases "map_insert (ev_key ev) (ev_impl ev) m") (auto simp: sim_simps)
qed simp

lemma map_Remove_present:
  assumes "distinct (map rank (map_events m))" and "ev \<in> set (map_events m)"
  shows "\<exists>m'. map_Remove ev m = Some m' \<and> map_events m' = remove1 ev (map_events m)"
  using assms
proof (induction m)
  case (Cons kv m)
  obtain k v where kv: "kv = (k, v)" by (cases kv)
  show ?case
  proof (cases "\<lparr>ev_impl = v, ev_key = k\<rparr> = ev")
    case True
    then have "ev_key ev = k" and "ev_impl ev = v" by auto
    with True kv show ?thesis by (simp add: sim_simps)
  next
    case False
    with Cons.prems kv have "ev \<in> set (map_events m)" and "key_rank k \<noteq> rank ev"
      by (auto simp: image_iff)
    moreover obtain m' where "map_Remove ev m = Some m'"
      "map_events m' = remove1 ev (map_events m)"
      using Cons kv \<open>ev \<in> set (map_events m)\<close> by auto
    ultimately show ?thesis using kv False
      by (auto simp: sim_simps not_less antisym)
  qed
qed simp

lemma list_Insert_distinct_rank:
  assumes "distinct (map rank es)" and "rank ev \<notin> rank ` set es"
  shows "distinct (map rank (list_Insert ev es))"
  using assms by (induction es) (auto simp: image_iff)

lemma distinct_map_remove1: "distinct (map f xs) \<Longrightarrow> distinct (map f (remove1 x xs))"
  by (induction xs) (auto dest!: subsetD [OF set_remove1_subset])

definition map_invar :: "event_map \<Rightarrow> bool" where
  "map_invar m \<longleftrightarrow> list_sorted (map_events m) \<and> distinct (map rank (map_events m))"

interpretation mapq: event_scheduler MapScheduler "[]" map_invar "\<lambda>m. mset (map_events m)"
proof
  fix s :: event_map and ev
  assume inv: "map_invar s" and fresh: "\<forall>e \<in># mset (map_events s). uid e \<noteq> uid ev"
  then have nr: "rank ev \<notin> rank ` set (map_events s)"
    by (auto simp: key_rank_def)
  obtain m' ok where ins: "map_insert (ev_key ev) (ev_impl ev) s = (m', ok)" by force
  with map_insert_list_Insert [OF nr]
  have "ok" and eq: "map_events m' = list_Insert ev (map_events s)" by auto
  with ins inv nr show "\<exists>s'. op_Insert MapScheduler ev s = Some s' \<and> map_invar s' \<and>
      mset (map_events s') = add_mset ev (mset (map_events s))"
    by (auto simp: MapScheduler_def map_Insert_def map_invar_def sorted_list_Insert
        list_Insert_distinct_rank)
next
  fix s :: event_map
  assume s: "map_invar s" "mset (map_events s) \<noteq> {#}"
  then obtain k v m where m: "s = (k, v) # m" by (cases s) auto
  from s m show "\<exists>ev s'. op_RemoveNext MapScheduler s = Some (ev, s') \<and> map_invar s' \<and>
      ev \<in># mset (map_events s) \<and> (\<forall>e \<in># mset (map_events s). rank ev \<le> rank e) \<and>
      mset (map_events s') = mset (map_events s) - {#ev#}"
    by (auto simp: MapScheduler_def map_RemoveNext_def map_invar_def)
  from m show "op_PeekNext MapScheduler s = map_option fst (op_RemoveNext MapScheduler s)"
    by (simp add: MapScheduler_def map_RemoveNext_def map_PeekNext_def)
next
  fix s :: event_map and ev
  assume inv: "map_invar s" and ev: "ev \<in># mset (map_events s)"
  with map_Remove_present [of s ev] obtain m' where
    "map_Remove ev s = Some m'" "map_events m' = remove1 ev (map_events s)"
    by (auto simp: map_invar_def)
  with inv show "\<exists>s'. op_Remove MapScheduler ev s = Some s' \<and> map_invar s' \<and>
      mset (map_events s') = mset (map_events s) - {#ev#}"
    by (auto simp: MapScheduler_def map_invar_def sorted_remove1_map distinct_map_remove1)
qed (simp_all add: MapScheduler_def map_IsEmpty_def map_invar_def)

end
