(* ===== verification/Heap_Scheduler.thy ===== *)
theory Heap_Scheduler
  imports Event_Scheduler
begin

text \<open>
  \<^verbatim>\<open>HeapScheduler\<close> (\<^verbatim>\<open>src/core/model/heap-scheduler.cc\<close>): a binary heap in a vector whose first
  slot is wasted so that indices start at one. \<^verbatim>\<open>NS_ASSERT\<close> failures, accesses outside the vector
  and loops that do not end are \<^term>\<open>None\<close>. The heap meets the priority-queue contract; its
  \<^verbatim>\<open>Remove\<close> takes out the right event but may break the heap order (a finding, with a run that
  shows it).
\<close>

section \<open>Index arithmetic and exchanges\<close>

type_synonym heap = "event list"

definition heap_Parent :: "nat \<Rightarrow> nat" where
  "heap_Parent i = i div 2"

definition heap_Sibling :: "nat \<Rightarrow> nat" where
  "heap_Sibling i = i + 1"

definition heap_LeftChild :: "nat \<Rightarrow> nat" where
  "heap_LeftChild i = i * 2"

definition heap_RightChild :: "nat \<Rightarrow> nat" where
  "heap_RightChild i = i * 2 + 1"

definition heap_Root :: nat where
  "heap_Root = 1"

definition heap_IsRoot :: "nat \<Rightarrow> bool" where
  "heap_IsRoot i \<longleftrightarrow> i = heap_Root"

definition heap_Last :: "heap \<Rightarrow> nat" where
  "heap_Last m_heap = length m_heap - 1"

definition heap_IsBottom :: "heap \<Rightarrow> nat \<Rightarrow> bool" where
  "heap_IsBottom m_heap i \<longleftrightarrow> i \<ge> length m_heap"

definition heap_Exch :: "nat \<Rightarrow> nat \<Rightarrow> heap \<Rightarrow> heap option" where
  "heap_Exch a b m_heap =
     (if b < length m_heap \<and> a < length m_heap
      then (let tmp = m_heap ! a in Some ((m_heap[a := m_heap ! b])[b := tmp]))
      else None)"

definition heap_IsLessStrictly :: "heap \<Rightarrow> nat \<Rightarrow> nat \<Rightarrow> bool" where
  "heap_IsLessStrictly m_heap a b \<longleftrightarrow> event_less (m_heap ! a) (m_heap ! b)"

definition heap_Smallest :: "heap \<Rightarrow> nat \<Rightarrow> nat \<Rightarrow> nat" where
  "heap_Smallest m_heap a b = (if heap_IsLessStrictly m_heap a b then a else b)"

definition heap_IsEmpty :: "heap \<Rightarrow> bool" where
  "heap_IsEmpty m_heap \<longleftrightarrow> length m_heap = 1"

definition heap_empty :: heap where
  "heap_empty = [\<lparr>ev_impl = nullptr, ev_key = \<lparr>ek_ts = 0, ek_uid = 0, ek_context = 0\<rparr>\<rparr>]"

section \<open>Sifting and the scheduler operations\<close>

partial_function (option) heap_BottomUp_loop :: "nat \<Rightarrow> heap \<Rightarrow> heap option" where
  "heap_BottomUp_loop index m_heap =
     (if \<not> heap_IsRoot index \<and> heap_IsLessStrictly m_heap index (heap_Parent index)
      then Option.bind (heap_Exch index (heap_Parent index) m_heap)
             (\<lambda>h. heap_BottomUp_loop (heap_Parent index) h)
      else Some m_heap)"

definition heap_BottomUp :: "heap \<Rightarrow> heap option" where
  "heap_BottomUp m_heap = heap_BottomUp_loop (heap_Last m_heap) m_heap"

definition heap_TopDown_tail :: "nat \<Rightarrow> heap \<Rightarrow> heap option" where
  "heap_TopDown_tail index m_heap =
     (if heap_IsBottom m_heap index then Some m_heap
      else let left = heap_LeftChild index in
        if heap_IsBottom m_heap left then Some m_heap
        else if heap_IsLessStrictly m_heap index left then Some m_heap
        else heap_Exch index left m_heap)"

partial_function (option) heap_TopDown :: "nat \<Rightarrow> heap \<Rightarrow> heap option" where
  "heap_TopDown index m_heap =
     (if \<not> heap_IsBottom m_heap (heap_RightChild index)
      then (let left = heap_LeftChild index;
                tmp = heap_Smallest m_heap left (heap_RightChild index)
            in if heap_IsLessStrictly m_heap index tmp then Some m_heap
               else Option.bind (heap_Exch index tmp m_heap) (\<lambda>h. heap_TopDown tmp h))
      else heap_TopDown_tail index m_heap)"

definition heap_Insert :: "event \<Rightarrow> heap \<Rightarrow> heap option" where
  "heap_Insert ev m_heap = heap_BottomUp (m_heap @ [ev])"

definition heap_PeekNext :: "heap \<Rightarrow> event option" where
  "heap_PeekNext m_heap =
     (if heap_Root < length m_heap then Some (m_heap ! heap_Root) else None)"

definition heap_RemoveNext :: "heap \<Rightarrow> (event \<times> heap) option" where
  "heap_RemoveNext m_heap =
     Option.bind (heap_PeekNext m_heap) (\<lambda>next.
     Option.bind (heap_Exch heap_Root (heap_Last m_heap) m_heap) (\<lambda>h.
     Option.bind (heap_TopDown heap_Root (butlast h)) (\<lambda>h'.
     Some (next, h'))))"

fun heap_find :: "u32 \<Rightarrow> nat \<Rightarrow> heap \<Rightarrow> nat option" where
  "heap_find u i [] = None"
| "heap_find u i (e # es) = (if u = ek_uid (ev_key e) then Some i else heap_find u (Suc i) es)"

definition heap_Remove :: "event \<Rightarrow> heap \<Rightarrow> heap option" where
  "heap_Remove ev m_heap =
     (case heap_find (ek_uid (ev_key ev)) 1 (drop 1 m_heap) of
        None \<Rightarrow> None
      | Some i \<Rightarrow>
          if ev_impl (m_heap ! i) = ev_impl ev
          then Option.bind (heap_Exch i (heap_Last m_heap) m_heap)
                 (\<lambda>h. heap_TopDown i (butlast h))
          else None)"

definition HeapScheduler :: "heap scheduler" where
  "HeapScheduler = \<lparr>op_Insert = heap_Insert, op_IsEmpty = heap_IsEmpty,
     op_PeekNext = heap_PeekNext, op_RemoveNext = heap_RemoveNext, op_Remove = heap_Remove\<rparr>"

declare heap_BottomUp_loop.simps [code] heap_TopDown.simps [code]

section \<open>Heap order\<close>

lemmas heap_index_defs = heap_Parent_def heap_LeftChild_def heap_RightChild_def heap_Root_def
  heap_IsRoot_def heap_Last_def heap_IsBottom_def

definition heap_ordered :: "heap \<Rightarrow> bool" where
  "heap_ordered h \<longleftrightarrow> (\<forall>i. 2 \<le> i \<and> i < length h \<longrightarrow> rank (h ! (i div 2)) \<le> rank (h ! i))"

definition heap_invar :: "heap \<Rightarrow> bool" where
  "heap_invar h \<longleftrightarrow> 1 \<le> length h \<and> heap_ordered h"

abbreviation heap_events :: "heap \<Rightarrow> event multiset" where
  "heap_events h \<equiv> mset (tl h)"

text \<open>The order holds except between \<^term>\<open>k\<close> and its parent (while sifting up), or between \<^term>\<open>k\<close>
  and its children (while sifting down); the grandparent relation around \<^term>\<open>k\<close> is kept.\<close>

definition grand_ordered :: "nat \<Rightarrow> heap \<Rightarrow> bool" where
  "grand_ordered k h \<longleftrightarrow>
     (\<forall>j. 2 \<le> k \<and> j < length h \<and> j div 2 = k \<longrightarrow> rank (h ! (k div 2)) \<le> rank (h ! j))"

definition up_ordered :: "nat \<Rightarrow> heap \<Rightarrow> bool" where
  "up_ordered k h \<longleftrightarrow>
     (\<forall>i. 2 \<le> i \<and> i < length h \<and> i \<noteq> k \<longrightarrow> rank (h ! (i div 2)) \<le> rank (h ! i)) \<and> grand_ordered k h"

definition down_ordered :: "nat \<Rightarrow> heap \<Rightarrow> bool" where
  "down_ordered k h \<longleftrightarrow>
     (\<forall>i. 2 \<le> i \<and> i < length h \<and> i div 2 \<noteq> k \<longrightarrow> rank (h ! (i div 2)) \<le> rank (h ! i)) \<and>
     grand_ordered k h"

lemma heap_Exch_Some:
  assumes "1 \<le> a" and "1 \<le> b" and "a < length h" and "b < length h"
  shows "\<exists>h'. heap_Exch a b h = Some h' \<and> length h' = length h \<and> heap_events h' = heap_events h \<and>
    h' = h[a := h ! b, b := h ! a] \<and>
    (\<forall>i < length h. h' ! i = (if i = b then h ! a else if i = a then h ! b else h ! i))"
proof -
  have "mset (h[a := h ! b, b := h ! a]) = mset h"
    using assms mset_swap [of b h a] by simp
  moreover obtain x xs where "h = x # xs" using assms by (cases h) auto
  ultimately have "mset (tl (h[a := h ! b, b := h ! a])) = mset (tl h)"
    using assms by (cases a; cases b) auto
  then show ?thesis using assms by (simp add: heap_Exch_def nth_list_update Let_def)
qed

text \<open>The root of an ordered heap is least.\<close>

lemma heap_ordered_root_le:
  assumes "heap_ordered h" and "1 \<le> i" and "i < length h"
  shows "rank (h ! 1) \<le> rank (h ! i)"
  using assms(2,3)
proof (induction i rule: less_induct)
  case (less i)
  show ?case
  proof (cases "i = 1")
    case False
    with less have "rank (h ! 1) \<le> rank (h ! (i div 2))" by simp
    also have "\<dots> \<le> rank (h ! i)"
      using assms(1) less.prems False by (simp add: heap_ordered_def)
    finally show ?thesis .
  qed simp
qed

section \<open>Sifting up\<close>

lemma up_ordered_step:
  assumes up: "up_ordered k h" and k: "2 \<le> k" "k < length h"
    and less: "rank (h ! k) < rank (h ! (k div 2))"
    and h1: "length h1 = length h"
      "\<forall>i < length h. h1 ! i = (if i = k div 2 then h ! k else if i = k then h ! (k div 2) else h ! i)"
  shows "up_ordered (k div 2) h1"
proof -
  have ord: "rank (h ! (i div 2)) \<le> rank (h ! i)" if "2 \<le> i" "i < length h" "i \<noteq> k" for i
    using up that by (simp add: up_ordered_def)
  have grand: "rank (h ! (k div 2)) \<le> rank (h ! j)" if "j < length h" "j div 2 = k" for j
    using up that k by (simp add: up_ordered_def grand_ordered_def)
  have nth: "h1 ! i = (if i = k div 2 then h ! k else if i = k then h ! (k div 2) else h ! i)"
    if "i < length h" for i using h1 that by blast
  have "rank (h1 ! (i div 2)) \<le> rank (h1 ! i)"
    if i: "2 \<le> i" "i < length h" "i \<noteq> k div 2" for i
  proof -
    have lt: "i div 2 < length h" using i by simp
    consider (self) "i = k" | (child) "i \<noteq> k" "i div 2 = k" | (sib) "i \<noteq> k" "i div 2 = k div 2"
      | (other) "i \<noteq> k" "i div 2 \<noteq> k" "i div 2 \<noteq> k div 2" by blast
    then show ?thesis
    proof cases
      case self then show ?thesis using i k less nth [OF i(2)] nth [OF lt] by auto
    next
      case child then show ?thesis using i k nth [OF i(2)] nth [OF lt] grand [OF i(2)] by auto
    next
      case sib
      then show ?thesis using i k less nth [OF i(2)] nth [OF lt] ord [OF i(1,2)] by auto
    next
      case other then show ?thesis using i nth [OF i(2)] nth [OF lt] ord [OF i(1,2)] by auto
    qed
  qed
  moreover have "rank (h1 ! (k div 2 div 2)) \<le> rank (h1 ! j)"
    if j: "2 \<le> k div 2" "j < length h" "j div 2 = k div 2" for j
  proof -
    have p: "k div 2 < length h" "k div 2 \<noteq> k" "k div 2 div 2 < length h" "k div 2 div 2 \<noteq> k"
      "k div 2 div 2 \<noteq> k div 2" "j \<noteq> k div 2" using k j by auto
    have "rank (h ! (k div 2 div 2)) \<le> rank (h ! (k div 2))" using ord j p by simp
    moreover have "j \<noteq> k \<Longrightarrow> rank (h ! (k div 2)) \<le> rank (h ! j)" using ord [of j] j by simp
    ultimately show ?thesis using nth [OF j(2)] nth [OF p(3)] p by auto
  qed
  ultimately show ?thesis using h1(1) by (simp add: up_ordered_def grand_ordered_def)
qed

lemma heap_BottomUp_loop_ok:
  assumes "up_ordered k h" and "1 \<le> k" and "k < length h"
  shows "\<exists>h'. heap_BottomUp_loop k h = Some h' \<and> heap_ordered h' \<and> length h' = length h \<and>
    heap_events h' = heap_events h"
  using assms
proof (induction k arbitrary: h rule: less_induct)
  case (less k)
  show ?case
  proof (cases "k \<noteq> 1 \<and> rank (h ! k) < rank (h ! (k div 2))")
    case True
    with less.prems have k: "2 \<le> k" "k < length h" by auto
    with heap_Exch_Some [of k "k div 2" h] obtain h1 where
      ex: "heap_Exch k (k div 2) h = Some h1" "length h1 = length h" "heap_events h1 = heap_events h"
      "\<forall>i < length h. h1 ! i = (if i = k div 2 then h ! k else if i = k then h ! (k div 2) else h ! i)"
      by auto
    have "up_ordered (k div 2) h1"
      using up_ordered_step [OF less.prems(1) k _ ex(2,4)] True by blast
    moreover have "1 \<le> k div 2" "k div 2 < length h1" "k div 2 < k" using k ex(2) by auto
    ultimately obtain h' where
      "heap_BottomUp_loop (k div 2) h1 = Some h'" "heap_ordered h'" "length h' = length h1"
      "heap_events h' = heap_events h1"
      using less.IH [of "k div 2" h1] by blast
    with True ex show ?thesis
      by (simp add: heap_BottomUp_loop.simps [of k h] heap_IsLessStrictly_def heap_index_defs sim_simps)
  next
    case False
    have "rank (h ! (i div 2)) \<le> rank (h ! i)" if "2 \<le> i" "i < length h" for i
      using less.prems(1) False that by (cases "i = k") (auto simp: up_ordered_def not_less)
    with False show ?thesis
      by (auto simp: heap_BottomUp_loop.simps [of k h] heap_IsLessStrictly_def heap_index_defs
          heap_ordered_def sim_simps)
  qed
qed

lemma heap_Insert_ok:
  assumes "heap_invar h"
  shows "\<exists>h'. heap_Insert ev h = Some h' \<and> heap_invar h' \<and> heap_events h' = add_mset ev (heap_events h)"
proof -
  from assms have len: "1 \<le> length h" and "heap_ordered h" by (auto simp: heap_invar_def)
  then have "up_ordered (length h) (h @ [ev])"
    by (auto simp: up_ordered_def grand_ordered_def heap_ordered_def nth_append)
  with heap_BottomUp_loop_ok [of "length h" "h @ [ev]"] len obtain h' where
    "heap_BottomUp_loop (length h) (h @ [ev]) = Some h'" "heap_ordered h'"
    "length h' = length (h @ [ev])" "heap_events h' = heap_events (h @ [ev])" by auto
  moreover have "heap_events (h @ [ev]) = add_mset ev (heap_events h)"
    using len by (cases h) auto
  ultimately show ?thesis
    by (simp add: heap_Insert_def heap_BottomUp_def heap_Last_def heap_invar_def)
qed

section \<open>Sifting down\<close>

lemma down_ordered_step:
  assumes down: "down_ordered k h" and k: "1 \<le> k" "c < length h" "c div 2 = k"
    and least: "\<forall>j < length h. j div 2 = k \<longrightarrow> rank (h ! c) \<le> rank (h ! j)"
    and le: "rank (h ! c) \<le> rank (h ! k)"
    and h1: "length h1 = length h"
      "\<forall>i < length h. h1 ! i = (if i = c then h ! k else if i = k then h ! c else h ! i)"
  shows "down_ordered c h1"
proof -
  have ord: "rank (h ! (i div 2)) \<le> rank (h ! i)" if "2 \<le> i" "i < length h" "i div 2 \<noteq> k" for i
    using down that by (simp add: down_ordered_def)
  have grand: "rank (h ! (k div 2)) \<le> rank (h ! j)" if "2 \<le> k" "j < length h" "j div 2 = k" for j
    using down that k by (simp add: down_ordered_def grand_ordered_def)
  have nth: "h1 ! i = (if i = c then h ! k else if i = k then h ! c else h ! i)"
    if "i < length h" for i using h1 that by blast
  have ck: "c \<noteq> k" "k < c" using k by auto
  have "rank (h1 ! (i div 2)) \<le> rank (h1 ! i)"
    if i: "2 \<le> i" "i < length h" "i div 2 \<noteq> c" for i
  proof -
    have lt: "i div 2 < length h" using i by simp
    consider (kid) "i div 2 = k" | (self) "i = k" | (other) "i \<noteq> k" "i div 2 \<noteq> k" by blast
    then show ?thesis
    proof cases
      case kid then show ?thesis using i ck le least nth [OF i(2)] nth [OF lt] by auto
    next
      case self
      then show ?thesis using i ck k grand [of c] nth [OF i(2)] nth [OF lt] by auto
    next
      case other
      then have "i \<noteq> c" using k by auto
      with other show ?thesis using i nth [OF i(2)] nth [OF lt] ord [OF i(1,2)] by auto
    qed
  qed
  moreover have "rank (h1 ! (c div 2)) \<le> rank (h1 ! j)" if j: "j < length h" "j div 2 = c" for j
  proof -
    have "j \<noteq> c" "j \<noteq> k" "2 \<le> j" "j div 2 \<noteq> k" using j ck k by auto
    then show ?thesis using nth [OF j(1)] nth [of k] ck k j ord [of j] by auto
  qed
  ultimately show ?thesis using h1(1) by (simp add: down_ordered_def grand_ordered_def)
qed

lemma children_cases:
  fixes j k :: nat
  assumes "j div 2 = k"
  shows "j = 2 * k \<or> j = 2 * k + 1"
  using assms by auto

lemma down_ordered_done:
  assumes "down_ordered k h" and "1 \<le> k"
    and "\<forall>j < length h. j div 2 = k \<longrightarrow> rank (h ! k) \<le> rank (h ! j)"
  shows "heap_ordered h"
  using assms by (auto simp: down_ordered_def heap_ordered_def)

lemma heap_TopDown_tail_ok:
  assumes down: "down_ordered k h" and k: "1 \<le> k" and bot: "length h \<le> 2 * k + 1"
  shows "\<exists>h'. heap_TopDown_tail k h = Some h' \<and> heap_ordered h' \<and> length h' = length h \<and>
    heap_events h' = heap_events h"
proof -
  have kids: "j = 2 * k" if "j < length h" "j div 2 = k" for j
    using that bot children_cases [of j k] by auto
  consider (none) "length h \<le> 2 * k" | (less) "2 * k < length h" "rank (h ! k) < rank (h ! (2 * k))"
    | (swap) "2 * k < length h" "rank (h ! (2 * k)) \<le> rank (h ! k)" by fastforce
  then show ?thesis
  proof cases
    case none
    then have "heap_ordered h" using down_ordered_done [OF down k] kids by auto
    with none show ?thesis
      by (simp add: heap_TopDown_tail_def heap_index_defs Let_def mult.commute)
  next
    case less
    then have "\<forall>j < length h. j div 2 = k \<longrightarrow> rank (h ! k) \<le> rank (h ! j)"
      by (metis kids less_imp_le)
    then have "heap_ordered h" by (rule down_ordered_done [OF down k])
    with less show ?thesis
      by (simp add: heap_TopDown_tail_def heap_index_defs Let_def mult.commute
          heap_IsLessStrictly_def sim_simps)
  next
    case swap
    with heap_Exch_Some [of k "2 * k" h] k obtain h1 where
      ex: "heap_Exch k (2 * k) h = Some h1" "length h1 = length h" "heap_events h1 = heap_events h"
      "\<forall>i < length h. h1 ! i = (if i = 2 * k then h ! k else if i = k then h ! (2 * k) else h ! i)"
      by auto
    have least: "\<forall>j < length h. j div 2 = k \<longrightarrow> rank (h ! (2 * k)) \<le> rank (h ! j)"
      by (metis kids order_refl)
    have "down_ordered (2 * k) h1"
      by (rule down_ordered_step [OF down k swap(1) _ least swap(2) ex(2,4)]) simp
    moreover have "\<not> (j < length h1 \<and> j div 2 = 2 * k)" for j using bot ex(2) k by auto
    ultimately have "heap_ordered h1"
      using k down_ordered_done [of "2 * k" h1] by (metis le_trans mult_2 le_add1)
    with swap ex k show ?thesis
      by (simp add: heap_TopDown_tail_def heap_index_defs Let_def mult.commute
          heap_IsLessStrictly_def sim_simps not_less [symmetric])
  qed
qed

lemma heap_TopDown_ok:
  assumes "down_ordered k h" and "1 \<le> k"
  shows "\<exists>h'. heap_TopDown k h = Some h' \<and> heap_ordered h' \<and> length h' = length h \<and>
    heap_events h' = heap_events h"
  using assms
proof (induction "length h - k" arbitrary: k h rule: less_induct)
  case less
  show ?case
  proof (cases "2 * k + 1 < length h")
    case bottom: False
    then show ?thesis using heap_TopDown_tail_ok [OF less.prems]
      by (simp add: heap_TopDown.simps [of k h] heap_index_defs mult.commute not_less)
  next
    case inner: True
    define c where "c = heap_Smallest h (heap_LeftChild k) (heap_RightChild k)"
    have unfold: "heap_TopDown k h = (if rank (h ! k) < rank (h ! c) then Some h
        else Option.bind (heap_Exch k c h) (heap_TopDown c))"
      using inner by (subst heap_TopDown.simps)
        (simp add: c_def Let_def heap_IsBottom_def heap_RightChild_def heap_IsLessStrictly_def
          sim_simps mult.commute)
    have c: "c < length h" "c div 2 = k" "k < c"
      using inner less.prems(2) by (auto simp: c_def heap_Smallest_def heap_LeftChild_def heap_RightChild_def)
    have least: "\<forall>j < length h. j div 2 = k \<longrightarrow> rank (h ! c) \<le> rank (h ! j)"
    proof (intro allI impI)
      fix j assume "j < length h" "j div 2 = k"
      from children_cases [OF this(2)] show "rank (h ! c) \<le> rank (h ! j)"
        unfolding c_def heap_Smallest_def heap_IsLessStrictly_def heap_LeftChild_def
          heap_RightChild_def by (auto simp: sim_simps mult.commute)
    qed
    show ?thesis
    proof (cases "rank (h ! k) < rank (h ! c)")
      case True
      then have "heap_ordered h" using down_ordered_done [OF less.prems] least by fastforce
      with True show ?thesis by (simp add: unfold)
    next
      case False
      with heap_Exch_Some [of k c h] c less.prems(2) obtain h1 where
        ex: "heap_Exch k c h = Some h1" "length h1 = length h" "heap_events h1 = heap_events h"
        "\<forall>i < length h. h1 ! i = (if i = c then h ! k else if i = k then h ! c else h ! i)"
        by auto
      have "down_ordered c h1"
        using down_ordered_step [OF less.prems c(1,2) least _ ex(2,4)] False by simp
      moreover have "length h1 - c < length h - k" "1 \<le> c" using c ex(2) less.prems(2) by arith+
      ultimately obtain h' where
        "heap_TopDown c h1 = Some h'" "heap_ordered h'" "length h' = length h1"
        "heap_events h' = heap_events h1" using less.hyps [of h1 c] by blast
      with False ex show ?thesis by (simp add: unfold)
    qed
  qed
qed

section \<open>Taking an event out\<close>

text \<open>Exchanging slot \<^term>\<open>i\<close> with the last one and dropping the last slot removes exactly the event of
  slot \<^term>\<open>i\<close>.\<close>

lemma heap_delete_at:
  assumes i: "1 \<le> i" "i < length h"
  shows "\<exists>h1. heap_Exch i (heap_Last h) h = Some h1 \<and> length (butlast h1) = length h - 1 \<and>
    heap_events (butlast h1) = heap_events h - {#h ! i#} \<and>
    (\<forall>j < length h - 1. butlast h1 ! j = (if j = i then h ! (length h - 1) else h ! j))"
proof -
  let ?l = "length h - 1"
  from heap_Exch_Some [of i ?l h] i obtain h1 where
    ex: "heap_Exch i ?l h = Some h1" "length h1 = length h" "heap_events h1 = heap_events h"
    "\<forall>j < length h. h1 ! j = (if j = ?l then h ! i else if j = i then h ! ?l else h ! j)"
    by auto
  have len: "2 \<le> length h1" using i ex by simp
  then obtain x y zs where h1: "h1 = x # y # zs"
    by (cases h1; cases "tl h1") auto
  have "h1 ! (length h1 - 1) = h ! i" using ex(2,4) i by simp
  then have "last h1 = h ! i" using len by (subst last_conv_nth) auto
  moreover have "mset (tl (butlast h1)) = mset (tl h1) - {#last h1#}"
  proof -
    have "mset (y # zs) = add_mset (last (y # zs)) (mset (butlast (y # zs)))"
      by (metis append_butlast_last_id list.distinct(1) mset.simps(2) mset_append union_mset_add_mset_right
          add.right_neutral mset.simps(1))
    then show ?thesis by (simp add: h1)
  qed
  ultimately show ?thesis using ex i by (auto simp: heap_Last_def nth_butlast)
qed

lemma heap_TopDown_after_delete:
  assumes inv: "heap_invar h" and i: "1 \<le> i" "i < length h"
    and parent: "2 \<le> i \<Longrightarrow> rank (h ! (i div 2)) \<le> rank (h ! (length h - 1))"
  shows "\<exists>h1 h'. heap_Exch i (heap_Last h) h = Some h1 \<and> heap_TopDown i (butlast h1) = Some h' \<and>
    heap_invar h' \<and> heap_events h' = heap_events h - {#h ! i#}"
proof -
  from heap_delete_at [OF i] obtain h1 where
    h1: "heap_Exch i (heap_Last h) h = Some h1" "length (butlast h1) = length h - 1"
    "heap_events (butlast h1) = heap_events h - {#h ! i#}"
    "\<forall>j < length h - 1. butlast h1 ! j = (if j = i then h ! (length h - 1) else h ! j)" by blast
  have ord: "rank (h ! (j div 2)) \<le> rank (h ! j)" if "2 \<le> j" "j < length h" for j
    using inv that by (simp add: heap_invar_def heap_ordered_def)
  have "rank (butlast h1 ! (j div 2)) \<le> rank (butlast h1 ! j)"
    if j: "2 \<le> j" "j < length h - 1" "j div 2 \<noteq> i" for j
  proof -
    have "j div 2 < length h - 1" using j by simp
    then show ?thesis using h1(4) j ord [of j] parent by auto
  qed
  moreover have "rank (butlast h1 ! (i div 2)) \<le> rank (butlast h1 ! j)"
    if j: "2 \<le> i" "j < length h - 1" "j div 2 = i" for j
  proof -
    have "i div 2 < length h - 1" "i div 2 \<noteq> i" "j \<noteq> i" "2 \<le> j" using j by auto
    moreover have "rank (h ! (i div 2)) \<le> rank (h ! i)" using ord j i by simp
    moreover have "rank (h ! i) \<le> rank (h ! j)" using ord [of j] j by simp
    ultimately show ?thesis using h1(4) j by auto
  qed
  ultimately have "down_ordered i (butlast h1)"
    using h1(2) by (simp add: down_ordered_def grand_ordered_def)
  from heap_TopDown_ok [OF this i(1)] obtain h' where
    "heap_TopDown i (butlast h1) = Some h'" "heap_ordered h'" "length h' = length (butlast h1)"
    "heap_events h' = heap_events (butlast h1)" by blast
  with h1 i show ?thesis by (auto simp: heap_invar_def)
qed

lemma heap_events_nonempty: "heap_invar h \<Longrightarrow> heap_events h \<noteq> {#} \<longleftrightarrow> 2 \<le> length h"
  by (cases h; cases "tl h") (auto simp: heap_invar_def)

lemma heap_root_least:
  assumes "heap_invar h" and "e \<in># heap_events h"
  shows "rank (h ! 1) \<le> rank e"
proof -
  from assms(2) obtain j where "j < length h - 1" "e = h ! Suc j"
    by (auto simp: in_set_conv_nth nth_tl)
  with assms(1) heap_ordered_root_le [of h "Suc j"] show ?thesis by (simp add: heap_invar_def)
qed

lemma heap_RemoveNext_ok:
  assumes inv: "heap_invar h" and ne: "heap_events h \<noteq> {#}"
  shows "\<exists>h'. heap_RemoveNext h = Some (h ! 1, h') \<and> heap_invar h' \<and>
    heap_events h' = heap_events h - {#h ! 1#}"
proof -
  have len: "1 < length h" using heap_events_nonempty [OF inv] ne by simp
  from heap_TopDown_after_delete [OF inv order_refl this] obtain h1 h' where
    "heap_Exch 1 (heap_Last h) h = Some h1" "heap_TopDown 1 (butlast h1) = Some h'"
    "heap_invar h'" "heap_events h' = heap_events h - {#h ! 1#}" by auto
  with len show ?thesis by (simp add: heap_RemoveNext_def heap_PeekNext_def heap_Root_def)
qed

interpretation heapq: event_queue HeapScheduler heap_empty heap_invar heap_events
proof
  fix h assume inv: "heap_invar h" and ne: "heap_events h \<noteq> {#}"
  then have len: "1 < length h" using heap_events_nonempty [OF inv] by simp
  then have "h ! 1 \<in># heap_events h" by (cases h) auto
  with heap_RemoveNext_ok [OF inv ne] heap_root_least [OF inv]
  show "\<exists>ev s'. op_RemoveNext HeapScheduler h = Some (ev, s') \<and> heap_invar s' \<and>
      ev \<in># heap_events h \<and> (\<forall>e \<in># heap_events h. rank ev \<le> rank e) \<and>
      heap_events s' = heap_events h - {#ev#}"
    by (auto simp: HeapScheduler_def)
  from heap_RemoveNext_ok [OF inv ne] len
  show "op_PeekNext HeapScheduler h = map_option fst (op_RemoveNext HeapScheduler h)"
    by (auto simp: HeapScheduler_def heap_PeekNext_def heap_Root_def)
next
  fix h assume "heap_invar h"
  from heap_events_nonempty [OF this] this
  show "op_IsEmpty HeapScheduler h \<longleftrightarrow> heap_events h = {#}"
    by (auto simp: HeapScheduler_def heap_IsEmpty_def heap_invar_def)
qed (use heap_Insert_ok in \<open>auto simp: HeapScheduler_def heap_empty_def heap_invar_def heap_ordered_def\<close>)

section \<open>Removing a given event\<close>

lemma heap_find_Some:
  "heap_find u i es = Some j \<Longrightarrow> i \<le> j \<and> j - i < length es \<and> uid (es ! (j - i)) = u"
proof (induction es arbitrary: i)
  case (Cons e es)
  then show ?case
    by (cases "u = uid e") (fastforce simp: nth_Cons' Suc_diff_le less_Suc_eq_le)+
qed simp

lemma heap_find_exists: "e \<in> set es \<Longrightarrow> \<exists>j. heap_find (uid e) i es = Some j"
  by (induction es arbitrary: i) auto

lemma heap_find_event:
  assumes "uids_distinct (heap_events h)" and "ev \<in># heap_events h"
  shows "\<exists>i. heap_find (uid ev) 1 (drop 1 h) = Some i \<and> 1 \<le> i \<and> i < length h \<and> h ! i = ev"
proof -
  have "ev \<in> set (drop 1 h)" using assms(2) by (simp add: drop_Suc)
  then obtain i where find: "heap_find (uid ev) 1 (drop 1 h) = Some i"
    using heap_find_exists by blast
  from heap_find_Some [OF this] have i: "1 \<le> i" "i < length h" "uid (h ! i) = uid ev" by auto
  moreover have "h ! i \<in># heap_events h" using i by (cases h; cases i) auto
  ultimately have "h ! i = ev" using uids_distinct_unique assms by blast
  with find i show ?thesis by blast
qed

lemma heap_TopDown_total:
  assumes "1 \<le> k"
  shows "\<exists>h'. heap_TopDown k h = Some h' \<and> length h' = length h \<and> heap_events h' = heap_events h"
  using assms
proof (induction "length h - k" arbitrary: k h rule: less_induct)
  case less
  show ?case
  proof (cases "heap_IsBottom h (heap_RightChild k)")
    case True
    with less.prems heap_Exch_Some [of k "2 * k" h] show ?thesis
      by (subst heap_TopDown.simps)
        (auto simp: heap_TopDown_tail_def heap_index_defs Let_def mult.commute)
  next
    case False
    define c where "c = heap_Smallest h (heap_LeftChild k) (heap_RightChild k)"
    have c: "c < length h" "k < c" using False less.prems
      by (auto simp: c_def heap_Smallest_def heap_LeftChild_def heap_RightChild_def heap_IsBottom_def)
    with heap_Exch_Some [of k c h] less.prems obtain h1 where
      ex: "heap_Exch k c h = Some h1" "length h1 = length h" "heap_events h1 = heap_events h"
      by auto
    moreover have "length h1 - c < length h - k" "1 \<le> c" using c ex(2) less.prems by arith+
    ultimately show ?thesis using less.hyps [of h1 c] False
      by (subst heap_TopDown.simps) (auto simp: Let_def simp flip: c_def)
  qed
qed

lemma heap_Remove_unfold:
  assumes "heap_find (uid ev) 1 (drop 1 h) = Some i" and "h ! i = ev"
  shows "heap_Remove ev h =
    Option.bind (heap_Exch i (heap_Last h) h) (\<lambda>h1. heap_TopDown i (butlast h1))"
  using assms by (simp add: heap_Remove_def)

text \<open>Removing a pending event that sits at slot \<^term>\<open>i\<close> always succeeds and removes exactly that event;
  the heap order survives when the last event is not smaller than the parent of slot \<^term>\<open>i\<close>.\<close>

lemma heap_Remove_events:
  assumes "uids_distinct (heap_events h)" and "ev \<in># heap_events h"
  shows "\<exists>h'. heap_Remove ev h = Some h' \<and> heap_events h' = heap_events h - {#ev#}"
proof -
  from heap_find_event [OF assms] obtain i where
    i: "heap_find (uid ev) 1 (drop 1 h) = Some i" "1 \<le> i" "i < length h" "h ! i = ev" by blast
  from heap_delete_at [OF i(2,3)] obtain h1 where
    "heap_Exch i (heap_Last h) h = Some h1" "heap_events (butlast h1) = heap_events h - {#h ! i#}"
    by blast
  with heap_TopDown_total [OF i(2), of "butlast h1"] i show ?thesis
    by (auto simp: heap_Remove_unfold)
qed

lemma heap_Remove_ordered:
  assumes inv: "heap_invar h" and ev: "uids_distinct (heap_events h)" "ev \<in># heap_events h"
    and parent: "\<And>i. i < length h \<Longrightarrow> h ! i = ev \<Longrightarrow> 2 \<le> i \<Longrightarrow>
      rank (h ! (i div 2)) \<le> rank (h ! (length h - 1))"
  shows "\<exists>h'. heap_Remove ev h = Some h' \<and> heap_invar h' \<and> heap_events h' = heap_events h - {#ev#}"
proof -
  from heap_find_event [OF ev] obtain i where
    i: "heap_find (uid ev) 1 (drop 1 h) = Some i" "1 \<le> i" "i < length h" "h ! i = ev" by blast
  with heap_TopDown_after_delete [OF inv i(2,3)] parent obtain h1 h' where
    "heap_Exch i (heap_Last h) h = Some h1" "heap_TopDown i (butlast h1) = Some h'"
    "heap_invar h'" "heap_events h' = heap_events h - {#h ! i#}" by blast
  with i show ?thesis by (simp add: heap_Remove_unfold)
qed

section \<open>A run in which Remove breaks the order\<close>

definition timed_event :: "u64 \<Rightarrow> u32 \<Rightarrow> event" where
  "timed_event t u = \<lparr>ev_impl = unat u, ev_key = \<lparr>ek_ts = t, ek_uid = u, ek_context = 0\<rparr>\<rparr>"

fun heap_Inserts :: "event list \<Rightarrow> heap \<Rightarrow> heap option" where
  "heap_Inserts [] h = Some h"
| "heap_Inserts (e # es) h = Option.bind (heap_Insert e h) (heap_Inserts es)"

fun heap_drain :: "nat \<Rightarrow> heap \<Rightarrow> (event list \<times> heap) option" where
  "heap_drain 0 h = Some ([], h)"
| "heap_drain (Suc n) h =
     Option.bind (heap_RemoveNext h) (\<lambda>(e, h'). map_option (\<lambda>(es, h''). (e # es, h'')) (heap_drain n h'))"

definition heap_example :: "event list" where
  "heap_example = [timed_event 1 4, timed_event 10 5, timed_event 2 6, timed_event 11 7,
     timed_event 12 8, timed_event 30 9, timed_event 4 10]"

definition heap_example_removed :: heap where
  "heap_example_removed = hd heap_empty # [timed_event 1 4, timed_event 10 5, timed_event 2 6,
     timed_event 4 10, timed_event 12 8, timed_event 30 9]"

lemma heap_example_Inserts:
  "heap_Inserts heap_example heap_empty = Some (hd heap_empty # heap_example)"
  by code_simp

lemma heap_example_Remove:
  "heap_Remove (timed_event 11 7) (hd heap_empty # heap_example) = Some heap_example_removed"
  by code_simp

lemma heap_example_drain:
  "map_option fst (heap_drain 4 heap_example_removed) =
     Some [timed_event 1 4, timed_event 2 6, timed_event 10 5, timed_event 4 10]"
  by code_simp

lemma heap_example_unordered: "\<not> heap_invar heap_example_removed"
proof -
  have "rank (heap_example_removed ! 4) < rank (heap_example_removed ! (4 div 2))"
    by code_simp
  then show ?thesis
    by (auto simp: heap_invar_def heap_ordered_def heap_example_removed_def not_le intro!: exI [of _ 4])
qed

lemma heap_Inserts_invar: "heap_Inserts es h = Some h' \<Longrightarrow> heap_invar h \<Longrightarrow> heap_invar h'"
proof (induction es arbitrary: h)
  case (Cons e es)
  from heap_Insert_ok [OF Cons.prems(2), of e] obtain h1 where
    "heap_Insert e h = Some h1" "heap_invar h1" by blast
  with Cons show ?case by auto
qed simp

lemma heap_Inserts_ok:
  "heap_invar h \<Longrightarrow>
     \<exists>h'. heap_Inserts es h = Some h' \<and> heap_invar h' \<and> heap_events h' = mset es + heap_events h"
proof (induction es arbitrary: h)
  case (Cons e es)
  from heap_Insert_ok [OF Cons.prems, of e] obtain h1 where
    "heap_Insert e h = Some h1" "heap_invar h1" "heap_events h1 = add_mset e (heap_events h)" by blast
  with Cons.IH [of h1] show ?case by auto
qed simp

lemma heap_drain_ok:
  "heap_invar h \<Longrightarrow> size (heap_events h) = n \<Longrightarrow>
     \<exists>es h'. heap_drain n h = Some (es, h') \<and> mset es = heap_events h \<and> sorted (map rank es) \<and>
       heap_IsEmpty h'"
proof (induction n arbitrary: h)
  case 0
  then show ?case using heapq.is_empty [of h] by (cases h) (auto simp: HeapScheduler_def)
next
  case (Suc n)
  then have "heap_events h \<noteq> {#}" by (cases h) auto
  from heapq.remove_nextE [OF Suc.prems(1) this] obtain ev h1 where
    h1: "heap_RemoveNext h = Some (ev, h1)" "heap_invar h1" "heap_events h = add_mset ev (heap_events h1)"
      "\<forall>e \<in># heap_events h1. rank ev \<le> rank e"
    by (auto simp: HeapScheduler_def)
  with Suc.IH [of h1] Suc.prems obtain es h' where
    es: "heap_drain n h1 = Some (es, h')" "mset es = heap_events h1" "sorted (map rank es)"
      "heap_IsEmpty h'" by auto
  have "\<forall>e \<in> set es. rank ev \<le> rank e" using h1(4) es(2) by (metis set_mset_mset)
  with h1 es show ?case by auto
qed

text \<open>C6: the heap scheduler sorts: inserting any sequence of events into an empty heap and removing
  as many never fails, yields exactly those events in the order of their time stamps and uids, and
  leaves the heap empty.\<close>

theorem heap_sorts:
  "\<exists>h es' h'. heap_Inserts es heap_empty = Some h \<and> heap_drain (length es) h = Some (es', h') \<and>
     mset es' = mset es \<and> sorted (map rank es') \<and> heap_IsEmpty h'"
proof -
  from heap_Inserts_ok [OF heapq.init_invar, of es] heapq.init_events obtain h where
    "heap_Inserts es heap_empty = Some h" "heap_invar h" "heap_events h = mset es" by auto
  with heap_drain_ok [of h "length es"] show ?thesis by auto
qed

text \<open>C7: removing an arbitrary event from the heap can leave the heap out of order, because
  \<^verbatim>\<open>HeapScheduler::Remove\<close> only sifts the moved event down and never up: after seven insertions and
  one removal the scheduler hands out the event of time 10 before the pending event of time 4.\<close>

theorem heap_Remove_breaks_order:
  "\<exists>h h' h''. heap_Inserts heap_example heap_empty = Some h \<and> heap_invar h \<and>
     heap_Remove (timed_event 11 7) h = Some h' \<and> \<not> heap_invar h' \<and>
     heap_drain 4 h' = Some ([timed_event 1 4, timed_event 2 6, timed_event 10 5, timed_event 4 10], h'')"
proof -
  have "heap_invar (hd heap_empty # heap_example)"
    using heap_Inserts_invar [OF heap_example_Inserts] heapq.init_invar by blast
  with heap_example_Inserts heap_example_Remove heap_example_unordered heap_example_drain
  show ?thesis by (auto simp: map_option_case split: option.splits)
qed

end
