(* ===== verification/Simulator_Engine.thy ===== *)
theory Simulator_Engine
  imports List_Scheduler Heap_Scheduler
begin

text \<open>
  The simulation engine \<^verbatim>\<open>DefaultSimulatorImpl\<close>
  (\<^verbatim>\<open>src/core/model/default-simulator-impl.cc\<close>), with \<^verbatim>\<open>EventId\<close> (\<^verbatim>\<open>event-id.cc\<close>) and
  \<^verbatim>\<open>EventImpl\<close> (\<^verbatim>\<open>event-impl.cc\<close>). The pending-event set is any scheduler, given by its record of
  operations. The code an event runs (\<^verbatim>\<open>EventImpl::Notify\<close>) belongs to the simulated models: it is
  the parameter \<^term>\<open>notify\<close>, which looks at the engine and answers with the engine calls it makes.
  Failed assertions are values of \<^verbatim>\<open>sim_error\<close>. Reference counts are not modelled.
\<close>

section \<open>State\<close>

record event_id =
  eid_impl :: ptr
  eid_ts :: u64
  eid_context :: u32
  eid_uid :: u32

abbreviation UID_INVALID :: u32 where "UID_INVALID \<equiv> 0"
abbreviation UID_DESTROY :: u32 where "UID_DESTROY \<equiv> 2"
abbreviation UID_VALID :: u32 where "UID_VALID \<equiv> 4"
abbreviation NO_CONTEXT :: u32 where "NO_CONTEXT \<equiv> 0xffffffff"

definition eid_eq :: "event_id \<Rightarrow> event_id \<Rightarrow> bool" where
  "eid_eq a b \<longleftrightarrow> eid_uid a = eid_uid b \<and> eid_context a = eid_context b \<and> eid_ts a = eid_ts b \<and>
     eid_impl a = eid_impl b"

record event_with_context =
  ewc_context :: u32
  ewc_timestamp :: u64
  ewc_event :: ptr

datatype sim_error =
    NegativeDelay       \<comment> \<open>assertion in \<^verbatim>\<open>Schedule\<close>\<close>
  | ThreadUnsafe        \<comment> \<open>a main-thread-only call from another thread\<close>
  | EventInPast         \<comment> \<open>assertion in \<^verbatim>\<open>ProcessOneEvent\<close>\<close>
  | EventsLost          \<comment> \<open>assertion at the end of \<^verbatim>\<open>Run\<close>\<close>
  | SchedulerFault      \<comment> \<open>a failed assertion inside the scheduler\<close>

record 's sim =
  m_eventsWithContext :: "event_with_context list"
  m_eventsWithContextEmpty :: bool
  m_destroyEvents :: "event_id list"
  m_stop :: bool
  m_events :: 's
  m_uid :: u32
  m_currentUid :: u32
  m_currentTs :: u64
  m_currentContext :: u32
  m_eventCount :: u64
  m_unscheduledEvents :: int
  m_cancel :: "ptr \<Rightarrow> bool"  \<comment> \<open>the flag of each \<^verbatim>\<open>EventImpl\<close>\<close>

definition DefaultSimulatorImpl :: "'s \<Rightarrow> 's sim" where
  "DefaultSimulatorImpl events = \<lparr>m_eventsWithContext = [], m_eventsWithContextEmpty = True,
     m_destroyEvents = [], m_stop = False, m_events = events, m_uid = UID_VALID,
     m_currentUid = UID_INVALID, m_currentTs = 0, m_currentContext = NO_CONTEXT, m_eventCount = 0,
     m_unscheduledEvents = 0, m_cancel = (\<lambda>_. False)\<rparr>"

section \<open>Scheduling\<close>

text \<open>The common part of the scheduling functions: build the event, take a uid, insert.\<close>

definition insert_event :: "'s scheduler \<Rightarrow> u64 \<Rightarrow> u32 \<Rightarrow> ptr \<Rightarrow> 's sim \<Rightarrow> sim_error + 's sim" where
  "insert_event ops t ctx impl s =
     (let ev = \<lparr>ev_impl = impl, ev_key = \<lparr>ek_ts = t, ek_uid = m_uid s, ek_context = ctx\<rparr>\<rparr>;
          s' = s\<lparr>m_uid := m_uid s + 1, m_unscheduledEvents := m_unscheduledEvents s + 1\<rparr>
      in case op_Insert ops ev (m_events s) of
           None \<Rightarrow> Inl SchedulerFault
         | Some evs \<Rightarrow> Inr (s'\<lparr>m_events := evs\<rparr>))"

text \<open>A \<^verbatim>\<open>Time\<close> is a signed 64-bit count: \<^term>\<open>sint\<close> reads it.\<close>

definition IsPositive :: "u64 \<Rightarrow> bool" where
  "IsPositive t \<longleftrightarrow> 0 \<le> sint t"

definition sim_Schedule ::
    "'s scheduler \<Rightarrow> bool \<Rightarrow> u64 \<Rightarrow> ptr \<Rightarrow> 's sim \<Rightarrow> sim_error + (event_id \<times> 's sim)" where
  "sim_Schedule ops main delay event s =
     (if \<not> main then Inl ThreadUnsafe
      else if \<not> IsPositive delay then Inl NegativeDelay
      else let tAbsolute = delay + m_currentTs s in
        case insert_event ops tAbsolute (m_currentContext s) event s of
          Inl e \<Rightarrow> Inl e
        | Inr s' \<Rightarrow> Inr (\<lparr>eid_impl = event, eid_ts = tAbsolute, eid_context = m_currentContext s,
                         eid_uid = m_uid s\<rparr>, s'))"

definition sim_ScheduleWithContext ::
    "'s scheduler \<Rightarrow> bool \<Rightarrow> u32 \<Rightarrow> u64 \<Rightarrow> ptr \<Rightarrow> 's sim \<Rightarrow> sim_error + 's sim" where
  "sim_ScheduleWithContext ops main context delay event s =
     (if main then insert_event ops (delay + m_currentTs s) context event s
      else Inr (s\<lparr>m_eventsWithContext := m_eventsWithContext s @
               [\<lparr>ewc_context = context, ewc_timestamp = delay, ewc_event = event\<rparr>],
             m_eventsWithContextEmpty := False\<rparr>))"

definition sim_ScheduleNow ::
    "'s scheduler \<Rightarrow> bool \<Rightarrow> ptr \<Rightarrow> 's sim \<Rightarrow> sim_error + (event_id \<times> 's sim)" where
  "sim_ScheduleNow ops main event s =
     (if \<not> main then Inl ThreadUnsafe else sim_Schedule ops main 0 event s)"

definition sim_ScheduleDestroy :: "bool \<Rightarrow> ptr \<Rightarrow> 's sim \<Rightarrow> sim_error + (event_id \<times> 's sim)" where
  "sim_ScheduleDestroy main event s =
     (if \<not> main then Inl ThreadUnsafe
      else let i = \<lparr>eid_impl = event, eid_ts = m_currentTs s, eid_context = 0xffffffff, eid_uid = 2\<rparr>
        in Inr (i, s\<lparr>m_destroyEvents := m_destroyEvents s @ [i], m_uid := m_uid s + 1\<rparr>))"

fun process_events_with_context ::
    "'s scheduler \<Rightarrow> event_with_context list \<Rightarrow> 's sim \<Rightarrow> sim_error + 's sim" where
  "process_events_with_context ops [] s = Inr s"
| "process_events_with_context ops (e # es) s =
     (case insert_event ops (m_currentTs s + ewc_timestamp e) (ewc_context e) (ewc_event e) s of
        Inl err \<Rightarrow> Inl err
      | Inr s' \<Rightarrow> process_events_with_context ops es s')"

definition sim_ProcessEventsWithContext :: "'s scheduler \<Rightarrow> 's sim \<Rightarrow> sim_error + 's sim" where
  "sim_ProcessEventsWithContext ops s =
     (if m_eventsWithContextEmpty s then Inr s
      else process_events_with_context ops (m_eventsWithContext s)
             (s\<lparr>m_eventsWithContext := [], m_eventsWithContextEmpty := True\<rparr>))"

section \<open>Event identifiers\<close>

definition IsExpired :: "'s sim \<Rightarrow> event_id \<Rightarrow> bool" where
  "IsExpired s i \<longleftrightarrow>
     (if eid_uid i = UID_DESTROY
      then (if eid_impl i = nullptr \<or> m_cancel s (eid_impl i) then True
            else \<not> (\<exists>d \<in> set (m_destroyEvents s). eid_eq d i))
      else eid_impl i = nullptr \<or> eid_ts i < m_currentTs s \<or>
        (eid_ts i = m_currentTs s \<and> eid_uid i \<le> m_currentUid s) \<or> m_cancel s (eid_impl i))"

definition EventId_IsRunning :: "'s sim \<Rightarrow> event_id \<Rightarrow> bool" where
  "EventId_IsRunning s i \<longleftrightarrow> \<not> IsExpired s i"

fun erase_first :: "('a \<Rightarrow> bool) \<Rightarrow> 'a list \<Rightarrow> 'a list" where
  "erase_first P [] = []"
| "erase_first P (x # xs) = (if P x then xs else x # erase_first P xs)"

definition event_of_id :: "event_id \<Rightarrow> event" where
  "event_of_id i = \<lparr>ev_impl = eid_impl i,
     ev_key = \<lparr>ek_ts = eid_ts i, ek_uid = eid_uid i, ek_context = eid_context i\<rparr>\<rparr>"

definition EventImpl_Cancel :: "ptr \<Rightarrow> 's sim \<Rightarrow> 's sim" where
  "EventImpl_Cancel p s = s\<lparr>m_cancel := (m_cancel s)(p := True)\<rparr>"

definition sim_Remove :: "'s scheduler \<Rightarrow> event_id \<Rightarrow> 's sim \<Rightarrow> sim_error + 's sim" where
  "sim_Remove ops i s =
     (if eid_uid i = UID_DESTROY
      then Inr (s\<lparr>m_destroyEvents := erase_first (\<lambda>d. eid_eq d i) (m_destroyEvents s)\<rparr>)
      else if IsExpired s i then Inr s
      else case op_Remove ops (event_of_id i) (m_events s) of
          None \<Rightarrow> Inl SchedulerFault
        | Some evs \<Rightarrow> Inr ((EventImpl_Cancel (eid_impl i) (s\<lparr>m_events := evs\<rparr>))
              \<lparr>m_unscheduledEvents := m_unscheduledEvents s - 1\<rparr>))"

definition sim_Cancel :: "event_id \<Rightarrow> 's sim \<Rightarrow> 's sim" where
  "sim_Cancel i s = (if \<not> IsExpired s i then EventImpl_Cancel (eid_impl i) s else s)"

definition sim_GetDelayLeft :: "'s sim \<Rightarrow> event_id \<Rightarrow> u64" where
  "sim_GetDelayLeft s i = (if IsExpired s i then 0 else eid_ts i - m_currentTs s)"

definition sim_Stop :: "'s sim \<Rightarrow> 's sim" where
  "sim_Stop s = s\<lparr>m_stop := True\<rparr>"

definition sim_IsFinished :: "'s scheduler \<Rightarrow> 's sim \<Rightarrow> bool" where
  "sim_IsFinished ops s \<longleftrightarrow> op_IsEmpty ops (m_events s) \<or> m_stop s"

section \<open>Calls made by event handlers\<close>

text \<open>\<^verbatim>\<open>CallStopAfter\<close> is \<^verbatim>\<open>Stop(delay)\<close>: it schedules an event (the given object) whose handler is
  \<^verbatim>\<open>Simulator::Stop\<close>.\<close>

datatype sim_call =
    CallSchedule u64 ptr
  | CallScheduleNow ptr
  | CallScheduleWithContext bool u32 u64 ptr
  | CallScheduleDestroy ptr
  | CallCancel event_id
  | CallRemove event_id
  | CallStop
  | CallStopAfter u64 ptr

fun sim_call_step :: "'s scheduler \<Rightarrow> sim_call \<Rightarrow> 's sim \<Rightarrow> sim_error + 's sim" where
  "sim_call_step ops (CallSchedule d p) s = map_sum (\<lambda>e. e) snd (sim_Schedule ops True d p s)"
| "sim_call_step ops (CallScheduleNow p) s = map_sum (\<lambda>e. e) snd (sim_ScheduleNow ops True p s)"
| "sim_call_step ops (CallScheduleWithContext main c d p) s =
     sim_ScheduleWithContext ops main c d p s"
| "sim_call_step ops (CallScheduleDestroy p) s = map_sum (\<lambda>e. e) snd (sim_ScheduleDestroy True p s)"
| "sim_call_step ops (CallCancel i) s = Inr (sim_Cancel i s)"
| "sim_call_step ops (CallRemove i) s = sim_Remove ops i s"
| "sim_call_step ops CallStop s = Inr (sim_Stop s)"
| "sim_call_step ops (CallStopAfter d p) s = map_sum (\<lambda>e. e) snd (sim_Schedule ops True d p s)"

fun sim_calls :: "'s scheduler \<Rightarrow> sim_call list \<Rightarrow> 's sim \<Rightarrow> sim_error + 's sim" where
  "sim_calls ops [] s = Inr s"
| "sim_calls ops (c # cs) s =
     (case sim_call_step ops c s of Inl e \<Rightarrow> Inl e | Inr s' \<Rightarrow> sim_calls ops cs s')"

text \<open>What a handler can see: everything but the scheduler's internal data.\<close>

definition sim_view :: "'s sim \<Rightarrow> unit sim" where
  "sim_view s = \<lparr>m_eventsWithContext = m_eventsWithContext s,
     m_eventsWithContextEmpty = m_eventsWithContextEmpty s, m_destroyEvents = m_destroyEvents s,
     m_stop = m_stop s, m_events = (), m_uid = m_uid s, m_currentUid = m_currentUid s,
     m_currentTs = m_currentTs s, m_currentContext = m_currentContext s,
     m_eventCount = m_eventCount s, m_unscheduledEvents = m_unscheduledEvents s,
     m_cancel = m_cancel s\<rparr>"

type_synonym handlers = "ptr \<Rightarrow> unit sim \<Rightarrow> sim_call list"

definition EventImpl_Invoke ::
    "'s scheduler \<Rightarrow> handlers \<Rightarrow> ptr \<Rightarrow> 's sim \<Rightarrow> sim_error + 's sim" where
  "EventImpl_Invoke ops notify p s =
     (if \<not> m_cancel s p then sim_calls ops (notify p (sim_view s)) s else Inr s)"

section \<open>The event loop\<close>

definition sim_advance :: "event \<Rightarrow> 's \<Rightarrow> 's sim \<Rightarrow> 's sim" where
  "sim_advance next evs s =
     s\<lparr>m_events := evs, m_unscheduledEvents := m_unscheduledEvents s - 1,
       m_eventCount := m_eventCount s + 1, m_currentTs := ek_ts (ev_key next),
       m_currentContext := ek_context (ev_key next), m_currentUid := ek_uid (ev_key next)\<rparr>"

definition sim_ProcessOneEvent :: "'s scheduler \<Rightarrow> handlers \<Rightarrow> 's sim \<Rightarrow> sim_error + 's sim" where
  "sim_ProcessOneEvent ops notify s =
     (case op_RemoveNext ops (m_events s) of
        None \<Rightarrow> Inl SchedulerFault
      | Some (next, evs) \<Rightarrow>
          if \<not> ek_ts (ev_key next) \<ge> m_currentTs s then Inl EventInPast
          else (case EventImpl_Invoke ops notify (ev_impl next) (sim_advance next evs s) of
                  Inl e \<Rightarrow> Inl e
                | Inr s' \<Rightarrow> sim_ProcessEventsWithContext ops s'))"

partial_function (option) sim_Run_loop ::
    "'s scheduler \<Rightarrow> handlers \<Rightarrow> 's sim \<Rightarrow> (sim_error + 's sim) option" where
  "sim_Run_loop ops notify s =
     (if \<not> op_IsEmpty ops (m_events s) \<and> \<not> m_stop s
      then (case sim_ProcessOneEvent ops notify s of
              Inl e \<Rightarrow> Some (Inl e)
            | Inr s' \<Rightarrow> sim_Run_loop ops notify s')
      else Some (Inr s))"

declare sim_Run_loop.simps [code]

definition sim_Run :: "'s scheduler \<Rightarrow> handlers \<Rightarrow> 's sim \<Rightarrow> (sim_error + 's sim) option" where
  "sim_Run ops notify s =
     (case sim_ProcessEventsWithContext ops s of
        Inl e \<Rightarrow> Some (Inl e)
      | Inr s1 \<Rightarrow>
          (case sim_Run_loop ops notify (s1\<lparr>m_stop := False\<rparr>) of
             None \<Rightarrow> None
           | Some (Inl e) \<Rightarrow> Some (Inl e)
           | Some (Inr s2) \<Rightarrow>
               Some (if \<not> op_IsEmpty ops (m_events s2) \<or> m_unscheduledEvents s2 = 0
                     then Inr s2 else Inl EventsLost)))"

partial_function (option) sim_Destroy ::
    "'s scheduler \<Rightarrow> handlers \<Rightarrow> 's sim \<Rightarrow> (sim_error + 's sim) option" where
  "sim_Destroy ops notify s =
     (case m_destroyEvents s of
        [] \<Rightarrow> Some (Inr s)
      | d # ds \<Rightarrow>
          (let s' = s\<lparr>m_destroyEvents := ds\<rparr> in
           if \<not> m_cancel s (eid_impl d)
           then (case EventImpl_Invoke ops notify (eid_impl d) s' of
                   Inl e \<Rightarrow> Some (Inl e)
                 | Inr s'' \<Rightarrow> sim_Destroy ops notify s'')
           else sim_Destroy ops notify s'))"

text \<open>\<^verbatim>\<open>SetScheduler\<close> moves the pending events of the old scheduler into a new one.\<close>

partial_function (option) move_events ::
    "'s scheduler \<Rightarrow> 't scheduler \<Rightarrow> 's \<Rightarrow> 't \<Rightarrow> 't option" where
  "move_events old new s t =
     (if op_IsEmpty old s then Some t
      else Option.bind (op_RemoveNext old s) (\<lambda>(next, s').
           Option.bind (op_Insert new next t) (\<lambda>t'. move_events old new s' t')))"

definition sim_SetScheduler ::
    "'s scheduler \<Rightarrow> 't scheduler \<Rightarrow> 't \<Rightarrow> 's sim \<Rightarrow> 't sim option" where
  "sim_SetScheduler old new scheduler s =
     map_option (\<lambda>evs. \<lparr>m_eventsWithContext = m_eventsWithContext s,
       m_eventsWithContextEmpty = m_eventsWithContextEmpty s, m_destroyEvents = m_destroyEvents s,
       m_stop = m_stop s, m_events = evs, m_uid = m_uid s, m_currentUid = m_currentUid s,
       m_currentTs = m_currentTs s, m_currentContext = m_currentContext s,
       m_eventCount = m_eventCount s, m_unscheduledEvents = m_unscheduledEvents s,
       m_cancel = m_cancel s\<rparr>)
     (move_events old new (m_events s) scheduler)"

declare move_events.simps [code] sim_Destroy.simps [code]

section \<open>The engine invariant and what callers must respect\<close>

definition cur_rank :: "'s sim \<Rightarrow> u64 \<times> u32" where
  "cur_rank s = (m_currentTs s, m_currentUid s)"

text \<open>Every pending event lies strictly after the event being executed, carries a uid of its own that
  was already handed out, and is counted in \<^verbatim>\<open>m_unscheduledEvents\<close>.\<close>

definition sim_inv :: "('s \<Rightarrow> bool) \<Rightarrow> ('s \<Rightarrow> event multiset) \<Rightarrow> 's sim \<Rightarrow> bool" where
  "sim_inv invar events s \<longleftrightarrow>
     invar (m_events s) \<and> uids_distinct (events (m_events s)) \<and>
     (\<forall>e \<in># events (m_events s). cur_rank s < rank e \<and> uid e < m_uid s) \<and>
     m_currentUid s < m_uid s \<and>
     m_unscheduledEvents s = int (size (events (m_events s)))"

text \<open>A delay is acceptable when it is not negative and the resulting time stays below the maximum
  simulation time, and a uid is left. \<^verbatim>\<open>Schedule\<close> checks the sign itself, \<^verbatim>\<open>ScheduleWithContext\<close>
  relies on its callers.\<close>

definition delay_ok :: "'s sim \<Rightarrow> u64 \<Rightarrow> bool" where
  "delay_ok s d \<longleftrightarrow> uint (m_currentTs s) + uint d < 2 ^ 63"

definition uid_left :: "'s sim \<Rightarrow> nat \<Rightarrow> bool" where
  "uid_left s n \<longleftrightarrow> unat (m_uid s) + n < 2 ^ 32"

fun call_ok :: "('s \<Rightarrow> event multiset) \<Rightarrow> 's sim \<Rightarrow> sim_call \<Rightarrow> bool" where
  "call_ok events s (CallSchedule d p) \<longleftrightarrow> delay_ok s d \<and> uid_left s 1"
| "call_ok events s (CallScheduleNow p) \<longleftrightarrow> uid_left s 1"
| "call_ok events s (CallScheduleWithContext main c d p) \<longleftrightarrow> (main \<longrightarrow> delay_ok s d \<and> uid_left s 1)"
| "call_ok events s (CallScheduleDestroy p) \<longleftrightarrow> uid_left s 1"
| "call_ok events s (CallCancel i) \<longleftrightarrow> True"
| "call_ok events s (CallRemove i) \<longleftrightarrow>
     eid_uid i = UID_DESTROY \<or> IsExpired s i \<or> event_of_id i \<in># events (m_events s)"
| "call_ok events s CallStop \<longleftrightarrow> True"
| "call_ok events s (CallStopAfter d p) \<longleftrightarrow> delay_ok s d \<and> uid_left s 1"

fun calls_ok :: "'s scheduler \<Rightarrow> ('s \<Rightarrow> event multiset) \<Rightarrow> sim_call list \<Rightarrow> 's sim \<Rightarrow> bool" where
  "calls_ok ops events [] s \<longleftrightarrow> True"
| "calls_ok ops events (c # cs) s \<longleftrightarrow> call_ok events s c \<and>
     (case sim_call_step ops c s of Inl e \<Rightarrow> True | Inr s' \<Rightarrow> calls_ok ops events cs s')"

definition context_ok :: "'s sim \<Rightarrow> bool" where
  "context_ok s \<longleftrightarrow> list_all (\<lambda>e. delay_ok s (ewc_timestamp e)) (m_eventsWithContext s) \<and>
     uid_left s (length (m_eventsWithContext s))"

definition handler_calls :: "handlers \<Rightarrow> ptr \<Rightarrow> 's sim \<Rightarrow> sim_call list" where
  "handler_calls notify p s = (if m_cancel s p then [] else notify p (sim_view s))"

definition process_ok ::
    "'s scheduler \<Rightarrow> ('s \<Rightarrow> event multiset) \<Rightarrow> handlers \<Rightarrow> 's sim \<Rightarrow> bool" where
  "process_ok ops events notify s \<longleftrightarrow>
     (case op_RemoveNext ops (m_events s) of
        None \<Rightarrow> True
      | Some (next, evs) \<Rightarrow>
          let s1 = sim_advance next evs s; cs = handler_calls notify (ev_impl next) s1 in
          calls_ok ops events cs s1 \<and>
          (case sim_calls ops cs s1 of Inl e \<Rightarrow> True | Inr s2 \<Rightarrow> context_ok s2))"

lemma EventImpl_Invoke_calls:
  "EventImpl_Invoke ops notify p s = sim_calls ops (handler_calls notify p s) s"
  by (simp add: EventImpl_Invoke_def handler_calls_def)

section \<open>Frames\<close>

lemma insert_event_frame:
  "insert_event ops t c p s = Inr s' \<Longrightarrow> cur_rank s' = cur_rank s \<and> m_eventCount s' = m_eventCount s \<and>
     m_stop s' = m_stop s \<and> m_cancel s' = m_cancel s \<and> m_currentContext s' = m_currentContext s \<and>
     m_destroyEvents s' = m_destroyEvents s \<and> m_eventsWithContext s' = m_eventsWithContext s"
  by (auto simp: insert_event_def cur_rank_def Let_def split: option.splits)

lemma sim_Schedule_frame:
  "sim_Schedule ops main d p s = Inr (i, s') \<Longrightarrow> cur_rank s' = cur_rank s \<and>
     m_eventCount s' = m_eventCount s"
  by (auto simp: sim_Schedule_def Let_def dest: insert_event_frame split: if_splits sum.splits)

lemma sim_call_step_frame:
  "sim_call_step ops c s = Inr s' \<Longrightarrow> cur_rank s' = cur_rank s \<and> m_eventCount s' = m_eventCount s"
  by (cases c)
    (auto simp: sim_ScheduleNow_def sim_ScheduleDestroy_def sim_ScheduleWithContext_def
      sim_Cancel_def sim_Stop_def sim_Remove_def EventImpl_Cancel_def cur_rank_def map_sum_def Let_def
      dest!: sim_Schedule_frame insert_event_frame split: if_splits sum.splits option.splits)

lemma sim_calls_frame:
  "sim_calls ops cs s = Inr s' \<Longrightarrow> cur_rank s' = cur_rank s \<and> m_eventCount s' = m_eventCount s"
  by (induction cs arbitrary: s) (auto dest!: sim_call_step_frame split: sum.splits)

lemma process_events_with_context_frame:
  "process_events_with_context ops es s = Inr s' \<Longrightarrow>
     cur_rank s' = cur_rank s \<and> m_eventCount s' = m_eventCount s"
  by (induction es arbitrary: s) (auto dest!: insert_event_frame split: sum.splits)

lemma sim_ProcessEventsWithContext_frame:
  "sim_ProcessEventsWithContext ops s = Inr s' \<Longrightarrow>
     cur_rank s' = cur_rank s \<and> m_eventCount s' = m_eventCount s"
  by (auto simp: sim_ProcessEventsWithContext_def cur_rank_def
      dest!: process_events_with_context_frame split: if_splits)

section \<open>Words that hold times\<close>

lemma delay_ok_IsPositive: "delay_ok s d \<Longrightarrow> IsPositive d"
proof -
  assume "delay_ok s d"
  then have "uint d < 2 ^ 63" using uint_ge_0 [of "m_currentTs s"] unfolding delay_ok_def by linarith
  then show ?thesis by (simp add: IsPositive_def sint_eq_uint_half)
qed

lemma delay_ok_le: "delay_ok s d \<Longrightarrow> m_currentTs s \<le> d + m_currentTs s"
  by (simp add: delay_ok_def no_olen_add' )

lemma uid_left_neq: "uid_left s n \<Longrightarrow> 0 < n \<Longrightarrow> m_uid s \<noteq> - 1"
  by (auto simp: uid_left_def unat_minus_one_word)

section \<open>Every engine operation keeps the invariant\<close>

context event_scheduler
begin

lemma insert_event_ok:
  assumes inv: "sim_inv invar events s" and t: "m_currentTs s \<le> t" and u: "m_uid s \<noteq> - 1"
  shows "\<exists>s'. insert_event ops t c p s = Inr s' \<and> sim_inv invar events s' \<and>
    m_uid s' = m_uid s + 1 \<and>
    events (m_events s') = add_mset
      \<lparr>ev_impl = p, ev_key = \<lparr>ek_ts = t, ek_uid = m_uid s, ek_context = c\<rparr>\<rparr> (events (m_events s))"
proof -
  let ?ev = "\<lparr>ev_impl = p, ev_key = \<lparr>ek_ts = t, ek_uid = m_uid s, ek_context = c\<rparr>\<rparr>"
  from inv have fresh: "\<forall>e \<in># events (m_events s). uid e \<noteq> uid ?ev" and "invar (m_events s)"
    by (auto simp: sim_inv_def)
  then obtain evs where ins: "op_Insert ops ?ev (m_events s) = Some evs" "invar evs"
    "events evs = add_mset ?ev (events (m_events s))" by (metis insertE)
  have "cur_rank s < rank ?ev"
    using inv t by (auto simp: sim_inv_def cur_rank_def key_rank_def less_prod_def)
  moreover have "uid e < m_uid s + 1" if "e \<in># events (m_events s)" for e
    using inv that less_plus_one_iff_le [OF u] by (auto simp: sim_inv_def less_imp_le)
  moreover have "uids_distinct (add_mset ?ev (events (m_events s)))"
    using inv fresh by (intro uids_distinct_add) (auto simp: sim_inv_def)
  moreover have "m_currentUid s < m_uid s + 1" "m_uid s < m_uid s + 1"
    using inv less_plus_one_iff_le [OF u] by (auto simp: sim_inv_def less_imp_le)
  ultimately show ?thesis using ins inv
    by (auto simp: insert_event_def Let_def sim_inv_def cur_rank_def)
qed

lemma sim_Schedule_ok:
  assumes inv: "sim_inv invar events s" and d: "IsPositive d" "m_currentTs s \<le> d + m_currentTs s"
    and u: "uid_left s 1"
  shows "\<exists>i s'. sim_Schedule ops True d p s = Inr (i, s') \<and> sim_inv invar events s' \<and>
    m_uid s' = m_uid s + 1 \<and> eid_impl i = p \<and> eid_ts i = d + m_currentTs s \<and> eid_uid i = m_uid s \<and>
    events (m_events s') = add_mset (event_of_id i) (events (m_events s))"
proof -
  from insert_event_ok [OF inv d(2) uid_left_neq [OF u]]
  obtain s' where "insert_event ops (d + m_currentTs s) (m_currentContext s) p s = Inr s'"
    "sim_inv invar events s'" "m_uid s' = m_uid s + 1" "events (m_events s') = add_mset
      \<lparr>ev_impl = p, ev_key = \<lparr>ek_ts = d + m_currentTs s, ek_uid = m_uid s,
        ek_context = m_currentContext s\<rparr>\<rparr> (events (m_events s))" by auto
  then show ?thesis using d(1)
    by (auto simp: sim_Schedule_def Let_def event_of_id_def)
qed

lemma sim_inv_cong:
  assumes "sim_inv invar events s" and "m_events s' = m_events s" and "cur_rank s' = cur_rank s"
    and "m_uid s' = m_uid s" and "m_unscheduledEvents s' = m_unscheduledEvents s"
  shows "sim_inv invar events s'"
  using assms by (auto simp: sim_inv_def cur_rank_def)

lemma sim_ScheduleDestroy_ok:
  assumes inv: "sim_inv invar events s" and u: "uid_left s 1"
  shows "\<exists>i s'. sim_ScheduleDestroy True p s = Inr (i, s') \<and> sim_inv invar events s'"
proof -
  have "x < m_uid s + 1" if "x < m_uid s" for x
    using less_plus_one_iff_le [OF uid_left_neq [OF u]] that by (auto simp: less_imp_le)
  with inv show ?thesis
    by (auto simp: sim_ScheduleDestroy_def Let_def sim_inv_def cur_rank_def)
qed

lemma sim_Remove_ok:
  assumes inv: "sim_inv invar events s" and c: "call_ok events s (CallRemove i)"
  shows "\<exists>s'. sim_Remove ops i s = Inr s' \<and> sim_inv invar events s' \<and>
    (eid_uid i \<noteq> UID_DESTROY \<longrightarrow> \<not> IsExpired s i \<longrightarrow>
      events (m_events s') = events (m_events s) - {#event_of_id i#})"
proof (cases "eid_uid i = UID_DESTROY \<or> IsExpired s i")
  case True
  then show ?thesis
    using inv sim_inv_cong [OF inv, of "s\<lparr>m_destroyEvents := erase_first (\<lambda>d. eid_eq d i) (m_destroyEvents s)\<rparr>"]
    by (auto simp: sim_Remove_def cur_rank_def)
next
  case False
  with c have i: "event_of_id i \<in># events (m_events s)" by simp
  with inv obtain evs where rem: "op_Remove ops (event_of_id i) (m_events s) = Some evs"
    "invar evs" "events evs = events (m_events s) - {#event_of_id i#}"
    by (metis removeE sim_inv_def)
  have "size (events evs) = size (events (m_events s)) - 1"
    using rem i by (simp add: size_Diff_singleton)
  moreover have "0 < size (events (m_events s))" using i by (cases "events (m_events s)") auto
  ultimately show ?thesis using inv rem False
    by (auto simp: sim_Remove_def EventImpl_Cancel_def sim_inv_def cur_rank_def uids_distinct_diff
        of_nat_diff dest: in_diffD)
qed

lemma sim_call_step_ok:
  assumes inv: "sim_inv invar events s" and c: "call_ok events s c"
  shows "\<exists>s'. sim_call_step ops c s = Inr s' \<and> sim_inv invar events s'"
proof (cases c)
  case (CallSchedule d p)
  with c have "IsPositive d" "m_currentTs s \<le> d + m_currentTs s" "uid_left s 1"
    by (auto intro: delay_ok_IsPositive delay_ok_le)
  from sim_Schedule_ok [OF inv this, of p] CallSchedule show ?thesis by auto
next
  case (CallScheduleNow p)
  with c have "IsPositive 0" "m_currentTs s \<le> 0 + m_currentTs s" "uid_left s 1"
    by (auto simp: IsPositive_def)
  from sim_Schedule_ok [OF inv this, of p] CallScheduleNow show ?thesis
    by (auto simp: sim_ScheduleNow_def)
next
  case (CallScheduleWithContext main ctx d p)
  with c insert_event_ok [OF inv delay_ok_le uid_left_neq, of d 1 ctx p]
    sim_inv_cong [OF inv] show ?thesis
    by (cases main) (auto simp: sim_ScheduleWithContext_def cur_rank_def)
next
  case (CallScheduleDestroy p)
  with sim_ScheduleDestroy_ok [OF inv, of p] c show ?thesis by auto
next
  case (CallCancel i)
  with sim_inv_cong [OF inv] show ?thesis
    by (auto simp: sim_Cancel_def EventImpl_Cancel_def cur_rank_def)
next
  case (CallRemove i)
  with sim_Remove_ok [OF inv, of i] c show ?thesis by auto
next
  case CallStop
  with sim_inv_cong [OF inv] show ?thesis by (auto simp: sim_Stop_def cur_rank_def)
next
  case (CallStopAfter d p)
  with c have "IsPositive d" "m_currentTs s \<le> d + m_currentTs s" "uid_left s 1"
    by (auto intro: delay_ok_IsPositive delay_ok_le)
  from sim_Schedule_ok [OF inv this, of p] CallStopAfter show ?thesis by auto
qed

lemma sim_calls_ok:
  assumes "sim_inv invar events s" and "calls_ok ops events cs s"
  shows "\<exists>s'. sim_calls ops cs s = Inr s' \<and> sim_inv invar events s'"
  using assms
proof (induction cs arbitrary: s)
  case (Cons c cs)
  from sim_call_step_ok [OF Cons.prems(1), of c] Cons.prems(2) obtain s1 where
    "sim_call_step ops c s = Inr s1" "sim_inv invar events s1" by auto
  with Cons show ?case by auto
qed simp

lemma process_events_with_context_ok:
  assumes "sim_inv invar events s" and "\<forall>e \<in> set es. delay_ok s (ewc_timestamp e)"
    and "uid_left s (length es)"
  shows "\<exists>s'. process_events_with_context ops es s = Inr s' \<and> sim_inv invar events s' \<and>
    size (events (m_events s')) = size (events (m_events s)) + length es"
  using assms
proof (induction es arbitrary: s)
  case (Cons e es)
  have t: "m_currentTs s \<le> m_currentTs s + ewc_timestamp e"
    using delay_ok_le [of s "ewc_timestamp e"] Cons.prems(2) by (simp add: add.commute)
  have u: "m_uid s \<noteq> - 1" using uid_left_neq Cons.prems(3) by fastforce
  from insert_event_ok [OF Cons.prems(1) t u, of "ewc_context e" "ewc_event e"] obtain s1 where
    s1: "insert_event ops (m_currentTs s + ewc_timestamp e) (ewc_context e) (ewc_event e) s = Inr s1"
    "sim_inv invar events s1" "m_uid s1 = m_uid s + 1"
    "size (events (m_events s1)) = Suc (size (events (m_events s)))" by auto
  have "m_currentTs s1 = m_currentTs s"
    using insert_event_frame [OF s1(1)] by (simp add: cur_rank_def)
  with Cons.prems(2,3) s1(3) unat_Suc_no_wrap [OF u]
  have "\<forall>e \<in> set es. delay_ok s1 (ewc_timestamp e)" "uid_left s1 (length es)"
    by (auto simp: delay_ok_def uid_left_def)
  from Cons.IH [OF s1(2) this] s1 show ?case by auto
qed simp

lemma sim_ProcessEventsWithContext_ok:
  assumes inv: "sim_inv invar events s" and c: "context_ok s"
  shows "\<exists>s'. sim_ProcessEventsWithContext ops s = Inr s' \<and> sim_inv invar events s'"
proof -
  let ?s = "s\<lparr>m_eventsWithContext := [], m_eventsWithContextEmpty := True\<rparr>"
  have "sim_inv invar events ?s" by (rule sim_inv_cong [OF inv]) (simp_all add: cur_rank_def)
  moreover have "\<forall>e \<in> set (m_eventsWithContext s). delay_ok ?s (ewc_timestamp e)"
    and "uid_left ?s (length (m_eventsWithContext s))"
    using c by (auto simp: context_ok_def list_all_iff delay_ok_def uid_left_def)
  ultimately show ?thesis using process_events_with_context_ok [of ?s] inv
    by (auto simp: sim_ProcessEventsWithContext_def)
qed

text \<open>Advancing to the next event re-establishes the invariant: all remaining events come later.\<close>

lemma sim_advance_ok:
  assumes inv: "sim_inv invar events s" and ne: "events (m_events s) \<noteq> {#}"
  obtains ev evs where "op_RemoveNext ops (m_events s) = Some (ev, evs)" and "m_currentTs s \<le> ts ev"
    and "cur_rank s < rank ev" and "events (m_events s) = add_mset ev (events evs)"
    and "\<forall>e \<in># events evs. rank ev < rank e"
    and "sim_inv invar events (sim_advance ev evs s)"
proof -
  from inv ne obtain ev evs where next_ev: "op_RemoveNext ops (m_events s) = Some (ev, evs)"
    "invar evs" "events (m_events s) = add_mset ev (events evs)"
    "\<forall>e \<in># events evs. rank ev \<le> rank e" by (metis remove_nextE sim_inv_def)
  have cur: "cur_rank s < rank ev" "uid ev < m_uid s" using inv next_ev by (auto simp: sim_inv_def)
  then have "m_currentTs s \<le> ts ev" by (auto simp: cur_rank_def key_rank_def less_prod_def)
  moreover have later: "\<forall>e \<in># events evs. rank ev < rank e"
  proof
    fix e assume e: "e \<in># events evs"
    have "uid e \<noteq> uid ev"
      using inv next_ev(3) e by (auto simp: sim_inv_def uids_distinct_def dest: spec [of _ "uid ev"])
    with next_ev(4) e show "rank ev < rank e" by (auto simp: le_less rank_eq_iff)
  qed
  moreover have "uids_distinct (events evs)"
    using inv next_ev(3) uids_distinct_diff [of "events (m_events s)" "{#ev#}"]
    by (simp add: sim_inv_def)
  ultimately show thesis using next_ev cur inv
    by (intro that [of ev evs]) (auto simp: sim_inv_def sim_advance_def cur_rank_def key_rank_def)
qed

lemma sim_ProcessOneEvent_ok:
  assumes inv: "sim_inv invar events s" and ne: "events (m_events s) \<noteq> {#}"
    and ok: "process_ok ops events notify s"
  shows "\<exists>s' ev. sim_ProcessOneEvent ops notify s = Inr s' \<and> sim_inv invar events s' \<and>
    ev \<in># events (m_events s) \<and> (\<forall>e \<in># events (m_events s). rank ev \<le> rank e) \<and>
    cur_rank s' = rank ev \<and> cur_rank s < cur_rank s' \<and> m_eventCount s' = m_eventCount s + 1"
proof -
  obtain ev evs where a: "op_RemoveNext ops (m_events s) = Some (ev, evs)" "m_currentTs s \<le> ts ev"
    "cur_rank s < rank ev" "events (m_events s) = add_mset ev (events evs)"
    "\<forall>e \<in># events evs. rank ev < rank e" "sim_inv invar events (sim_advance ev evs s)"
    using sim_advance_ok [OF inv ne] by metis
  let ?s1 = "sim_advance ev evs s" and ?cs = "handler_calls notify (ev_impl ev) (sim_advance ev evs s)"
  have "calls_ok ops events ?cs ?s1" using ok a(1) by (simp add: process_ok_def Let_def)
  from sim_calls_ok [OF a(6) this] obtain s2 where
    s2: "sim_calls ops ?cs ?s1 = Inr s2" "sim_inv invar events s2" by blast
  have "context_ok s2" using ok a(1) s2(1) by (simp add: process_ok_def Let_def)
  from sim_ProcessEventsWithContext_ok [OF s2(2) this] obtain s3 where
    s3: "sim_ProcessEventsWithContext ops s2 = Inr s3" "sim_inv invar events s3" by blast
  have "cur_rank ?s1 = rank ev" "m_eventCount ?s1 = m_eventCount s + 1"
    by (simp_all add: sim_advance_def cur_rank_def key_rank_def)
  with sim_calls_frame [OF s2(1)] sim_ProcessEventsWithContext_frame [OF s3(1)]
  have "cur_rank s3 = rank ev" "m_eventCount s3 = m_eventCount s + 1" by auto
  with a s2 s3 show ?thesis
    by (intro exI [of _ s3] exI [of _ ev])
      (auto simp: sim_ProcessOneEvent_def EventImpl_Invoke_calls not_le less_imp_le)
qed

end

section \<open>Runs\<close>

text \<open>One step of the engine seen from outside: a call by client code, the delivery of the events other
  threads handed in, or the processing of the next event.\<close>

inductive sim_step ::
    "'s scheduler \<Rightarrow> ('s \<Rightarrow> event multiset) \<Rightarrow> handlers \<Rightarrow> 's sim \<Rightarrow> 's sim \<Rightarrow> bool"
  for ops events notify where
  call: "call_ok events s c \<Longrightarrow> sim_call_step ops c s = Inr s' \<Longrightarrow> sim_step ops events notify s s'"
| deliver: "context_ok s \<Longrightarrow> sim_ProcessEventsWithContext ops s = Inr s' \<Longrightarrow>
     sim_step ops events notify s s'"
| process: "events (m_events s) \<noteq> {#} \<Longrightarrow> process_ok ops events notify s \<Longrightarrow>
     sim_ProcessOneEvent ops notify s = Inr s' \<Longrightarrow> sim_step ops events notify s s'"

abbreviation sim_steps ::
    "'s scheduler \<Rightarrow> ('s \<Rightarrow> event multiset) \<Rightarrow> handlers \<Rightarrow> 's sim \<Rightarrow> 's sim \<Rightarrow> bool" where
  "sim_steps ops events notify \<equiv> (sim_step ops events notify)\<^sup>*\<^sup>*"

inductive_cases sim_stepE: "sim_step ops events notify s s'"

text \<open>An identifier is genuine when, unless it is expired, its event is still pending.\<close>

definition genuine :: "('s \<Rightarrow> event multiset) \<Rightarrow> 's sim \<Rightarrow> event_id \<Rightarrow> bool" where
  "genuine events s i \<longleftrightarrow> eid_uid i \<noteq> UID_DESTROY \<and>
     (\<not> IsExpired s i \<longrightarrow> event_of_id i \<in># events (m_events s))"

definition id_rank :: "event_id \<Rightarrow> u64 \<times> u32" where
  "id_rank i = (eid_ts i, eid_uid i)"

lemma rank_event_of_id [simp]: "rank (event_of_id i) = id_rank i"
  by (simp add: event_of_id_def id_rank_def key_rank_def)

lemma IsExpired_rank:
  "eid_uid i \<noteq> UID_DESTROY \<Longrightarrow> IsExpired s i \<longleftrightarrow>
     eid_impl i = nullptr \<or> id_rank i \<le> cur_rank s \<or> m_cancel s (eid_impl i)"
  by (auto simp: IsExpired_def id_rank_def cur_rank_def less_eq_prod_def less_prod_def)

lemma genuine_mono:
  assumes "genuine events s i" and "cur_rank s' = cur_rank s"
    and "\<And>p. m_cancel s p \<Longrightarrow> m_cancel s' p"
    and "event_of_id i \<in># events (m_events s) \<Longrightarrow> \<not> IsExpired s' i \<Longrightarrow>
      event_of_id i \<in># events (m_events s')"
  shows "genuine events s' i"
  using assms by (auto simp: genuine_def IsExpired_rank)

context event_scheduler
begin

lemma insert_event_events:
  assumes "sim_inv invar events s" and "insert_event ops t c p s = Inr s'"
  shows "event_of_id i \<in># events (m_events s) \<Longrightarrow> event_of_id i \<in># events (m_events s')"
proof -
  let ?ev = "\<lparr>ev_impl = p, ev_key = \<lparr>ek_ts = t, ek_uid = m_uid s, ek_context = c\<rparr>\<rparr>"
  have "\<forall>e \<in># events (m_events s). uid e \<noteq> uid ?ev" "invar (m_events s)"
    using assms(1) by (auto simp: sim_inv_def)
  then obtain evs where "op_Insert ops ?ev (m_events s) = Some evs"
    "events evs = add_mset ?ev (events (m_events s))" by (metis insertE)
  with assms(2) show "event_of_id i \<in># events (m_events s) \<Longrightarrow> event_of_id i \<in># events (m_events s')"
    by (auto simp: insert_event_def Let_def)
qed

lemma insert_event_genuine:
  assumes "sim_inv invar events s" and "insert_event ops t c p s = Inr s'" and "genuine events s i"
  shows "genuine events s' i"
  using insert_event_frame [OF assms(2)] insert_event_events [OF assms(1,2)]
  by (intro genuine_mono [OF assms(3)]) auto

lemma sim_Schedule_genuine:
  assumes "sim_inv invar events s" and "sim_Schedule ops main d p s = Inr (j, s')"
    and "genuine events s i"
  shows "genuine events s' i"
  using assms insert_event_genuine
  by (auto simp: sim_Schedule_def Let_def split: if_splits sum.splits)

lemma sim_call_step_genuine:
  assumes inv: "sim_inv invar events s" and c: "call_ok events s c"
    and step: "sim_call_step ops c s = Inr s'" and i: "genuine events s i"
  shows "genuine events s' i"
proof (cases c)
  case (CallScheduleWithContext main ctx d p)
  with step insert_event_genuine [OF inv _ i] genuine_mono [OF i, of s'] show ?thesis
    by (cases main) (auto simp: sim_ScheduleWithContext_def cur_rank_def)
next
  case (CallRemove j)
  show ?thesis
  proof (cases "eid_uid j = UID_DESTROY \<or> IsExpired s j")
    case True
    with step CallRemove genuine_mono [OF i, of s'] show ?thesis
      by (auto simp: sim_Remove_def cur_rank_def split: if_splits)
  next
    case False
    with sim_Remove_ok [OF inv, of j] c CallRemove step
    have ev: "events (m_events s') = events (m_events s) - {#event_of_id j#}" by auto
    from False step CallRemove have cancel: "m_cancel s' = (m_cancel s)(eid_impl j := True)"
      and cur: "cur_rank s' = cur_rank s"
      by (auto simp: sim_Remove_def EventImpl_Cancel_def cur_rank_def split: option.splits)
    show ?thesis
    proof (rule genuine_mono [OF i cur])
      assume p: "event_of_id i \<in># events (m_events s)" "\<not> IsExpired s' i"
      have "eid_impl i \<noteq> eid_impl j"
        using p(2) i cancel by (auto simp: genuine_def IsExpired_rank)
      then have "event_of_id i \<noteq> event_of_id j" by (simp add: event_of_id_def)
      with p(1) ev show "event_of_id i \<in># events (m_events s')" by (simp add: in_diff_count)
    qed (simp add: cancel)
  qed
next
  case (CallCancel j)
  with step genuine_mono [OF i, of s'] show ?thesis
    by (auto simp: sim_Cancel_def EventImpl_Cancel_def cur_rank_def split: if_splits)
qed (use step sim_Schedule_genuine [OF inv _ i] genuine_mono [OF i, of s'] in
  \<open>auto simp: sim_ScheduleNow_def sim_ScheduleDestroy_def sim_Stop_def cur_rank_def map_sum_def Let_def
     split: if_splits sum.splits\<close>)

lemma sim_calls_genuine:
  assumes "sim_inv invar events s" and "calls_ok ops events cs s" and "sim_calls ops cs s = Inr s'"
    and "genuine events s i"
  shows "genuine events s' i"
  using assms
proof (induction cs arbitrary: s)
  case (Cons c cs)
  then obtain s1 where "sim_call_step ops c s = Inr s1" by (auto split: sum.splits)
  with Cons sim_call_step_ok [of s c] sim_call_step_genuine [of s c s1 i] show ?case by auto
qed simp

lemma process_events_with_context_genuine:
  assumes "sim_inv invar events s" and "\<forall>e \<in> set es. delay_ok s (ewc_timestamp e)"
    and "uid_left s (length es)" and "process_events_with_context ops es s = Inr s'"
    and "genuine events s i"
  shows "genuine events s' i"
  using assms
proof (induction es arbitrary: s)
  case (Cons e es)
  have t: "m_currentTs s \<le> m_currentTs s + ewc_timestamp e"
    using delay_ok_le [of s "ewc_timestamp e"] Cons.prems(2) by (simp add: add.commute)
  have u: "m_uid s \<noteq> - 1" using uid_left_neq Cons.prems(3) by fastforce
  from insert_event_ok [OF Cons.prems(1) t u, of "ewc_context e" "ewc_event e"] obtain s1 where
    s1: "insert_event ops (m_currentTs s + ewc_timestamp e) (ewc_context e) (ewc_event e) s = Inr s1"
    "sim_inv invar events s1" "m_uid s1 = m_uid s + 1" by auto
  have "m_currentTs s1 = m_currentTs s"
    using insert_event_frame [OF s1(1)] by (simp add: cur_rank_def)
  with Cons.prems(2,3) s1(3) unat_Suc_no_wrap [OF u]
  have "\<forall>e \<in> set es. delay_ok s1 (ewc_timestamp e)" "uid_left s1 (length es)"
    by (auto simp: delay_ok_def uid_left_def)
  with Cons s1 insert_event_genuine [OF Cons.prems(1) s1(1)] show ?case by auto
qed simp

lemma sim_ProcessEventsWithContext_genuine:
  assumes inv: "sim_inv invar events s" and c: "context_ok s"
    and step: "sim_ProcessEventsWithContext ops s = Inr s'" and i: "genuine events s i"
  shows "genuine events s' i"
proof -
  let ?s = "s\<lparr>m_eventsWithContext := [], m_eventsWithContextEmpty := True\<rparr>"
  have "sim_inv invar events ?s" by (rule sim_inv_cong [OF inv]) (simp_all add: cur_rank_def)
  moreover have "genuine events ?s i" by (rule genuine_mono [OF i]) (auto simp: cur_rank_def)
  moreover have "\<forall>e \<in> set (m_eventsWithContext s). delay_ok ?s (ewc_timestamp e)"
    and "uid_left ?s (length (m_eventsWithContext s))"
    using c by (auto simp: context_ok_def list_all_iff delay_ok_def uid_left_def)
  ultimately show ?thesis using process_events_with_context_genuine [of ?s] step i
    by (auto simp: sim_ProcessEventsWithContext_def split: if_splits)
qed

lemma sim_advance_genuine:
  assumes i: "genuine events s i" and ev: "events (m_events s) = add_mset ev (events evs)"
    and later: "cur_rank s < rank ev"
  shows "genuine events (sim_advance ev evs s) i"
proof -
  have "cur_rank (sim_advance ev evs s) = rank ev"
    by (simp add: sim_advance_def cur_rank_def key_rank_def)
  moreover have "m_cancel (sim_advance ev evs s) = m_cancel s"
    "m_events (sim_advance ev evs s) = evs" by (simp_all add: sim_advance_def)
  ultimately show ?thesis using i ev later
    by (auto simp: genuine_def IsExpired_rank)
qed

lemma sim_ProcessOneEvent_genuine:
  assumes inv: "sim_inv invar events s" and ne: "events (m_events s) \<noteq> {#}"
    and ok: "process_ok ops events notify s" and step: "sim_ProcessOneEvent ops notify s = Inr s'"
    and i: "genuine events s i"
  shows "genuine events s' i"
proof -
  obtain ev evs where a: "op_RemoveNext ops (m_events s) = Some (ev, evs)" "m_currentTs s \<le> ts ev"
    "cur_rank s < rank ev" "events (m_events s) = add_mset ev (events evs)"
    "sim_inv invar events (sim_advance ev evs s)"
    using sim_advance_ok [OF inv ne] by metis
  let ?s1 = "sim_advance ev evs s" and ?cs = "handler_calls notify (ev_impl ev) (sim_advance ev evs s)"
  have c: "calls_ok ops events ?cs ?s1" using ok a(1) by (simp add: process_ok_def Let_def)
  from sim_calls_ok [OF a(5) c] obtain s2 where
    s2: "sim_calls ops ?cs ?s1 = Inr s2" "sim_inv invar events s2" by blast
  have "context_ok s2" using ok a(1) s2(1) by (simp add: process_ok_def Let_def)
  moreover have "sim_ProcessEventsWithContext ops s2 = Inr s'"
    using step a(1,2) s2(1) by (simp add: sim_ProcessOneEvent_def EventImpl_Invoke_calls)
  moreover have "genuine events s2 i"
    using sim_calls_genuine [OF a(5) c s2(1)] sim_advance_genuine [OF i a(4,3)] by blast
  ultimately show ?thesis using sim_ProcessEventsWithContext_genuine [OF s2(2)] by blast
qed

end

end
