(* ===== verification/Simulator_Runs.thy ===== *)
theory Simulator_Runs
  imports Simulator_Engine
begin

text \<open>
  Whole executions of the engine: invariants of every reachable state, the contract of event
  identifiers, the event loop \<^verbatim>\<open>Run\<close>, the exchange of the scheduler, and the independence of a
  simulation from the scheduler it uses. Lemmas are proved once over the scheduler contracts and
  instantiated for the default \<^verbatim>\<open>MapScheduler\<close> and the other schedulers.
\<close>

section \<open>Reachable states\<close>

context event_scheduler
begin

lemma sim_step_inv:
  assumes "sim_step ops events notify s s'" and "sim_inv invar events s"
  shows "sim_inv invar events s'"
  using assms
proof (cases rule: sim_step.cases)
  case (call c)
  with sim_call_step_ok [OF assms(2), of c] show ?thesis by auto
next
  case deliver
  with sim_ProcessEventsWithContext_ok [OF assms(2)] show ?thesis by auto
next
  case process
  with sim_ProcessOneEvent_ok [OF assms(2), of notify] show ?thesis by auto
qed

lemma sim_step_cur_rank:
  assumes "sim_step ops events notify s s'" and "sim_inv invar events s"
  shows "cur_rank s \<le> cur_rank s'"
  using assms
proof (cases rule: sim_step.cases)
  case (call c)
  then show ?thesis using sim_call_step_frame by fastforce
next
  case deliver
  then show ?thesis using sim_ProcessEventsWithContext_frame by fastforce
next
  case process
  with sim_ProcessOneEvent_ok [OF assms(2), of notify] show ?thesis by (auto simp: less_imp_le)
qed

lemma sim_step_genuine:
  assumes "sim_step ops events notify s s'" and "sim_inv invar events s" and "genuine events s i"
  shows "genuine events s' i"
  using assms
  by (cases rule: sim_step.cases)
    (auto intro: sim_call_step_genuine sim_ProcessEventsWithContext_genuine
      sim_ProcessOneEvent_genuine)

lemma sim_steps_inv:
  assumes "sim_steps ops events notify s s'" and "sim_inv invar events s"
  shows "sim_inv invar events s' \<and> cur_rank s \<le> cur_rank s' \<and>
    (\<forall>i. genuine events s i \<longrightarrow> genuine events s' i)"
  using assms
proof (induction rule: rtranclp_induct)
  case (step s1 s2)
  then show ?case
    using sim_step_inv sim_step_cur_rank sim_step_genuine by (meson order_trans)
qed simp

lemma initial_inv: "sim_inv invar events (DefaultSimulatorImpl init)"
  using init_invar init_events
  by (simp add: sim_inv_def DefaultSimulatorImpl_def)

text \<open>For a genuine identifier of a real event, \<^verbatim>\<open>IsExpired\<close> answers exactly whether the event was
  cancelled or is no longer pending.\<close>

lemma genuine_IsExpired:
  assumes "sim_inv invar events s" and "genuine events s i" and "eid_impl i \<noteq> nullptr"
  shows "IsExpired s i \<longleftrightarrow> event_of_id i \<notin># events (m_events s) \<or> m_cancel s (eid_impl i)"
proof -
  have "cur_rank s < id_rank i" if "event_of_id i \<in># events (m_events s)"
    using assms(1) that by (auto simp: sim_inv_def dest!: bspec [of _ _ "event_of_id i"])
  with assms(2,3) show ?thesis by (auto simp: genuine_def IsExpired_rank)
qed

lemma scheduled_id_contract:
  assumes inv: "sim_inv invar events s" and d: "delay_ok s d" and u: "uid_left s 1"
    and uid: "m_uid s \<noteq> UID_DESTROY" and p: "p \<noteq> nullptr"
  shows "\<exists>i s1. sim_Schedule ops True d p s = Inr (i, s1) \<and>
    event_of_id i \<in># events (m_events s1) \<and> eid_ts i = m_currentTs s + d \<and>
    (\<forall>s2. sim_steps ops events notify s1 s2 \<longrightarrow>
      (IsExpired s2 i \<longleftrightarrow> event_of_id i \<notin># events (m_events s2) \<or> m_cancel s2 p))"
proof -
  from sim_Schedule_ok [OF inv delay_ok_IsPositive [OF d] delay_ok_le [OF d] u, of p]
  obtain i s1 where i: "sim_Schedule ops True d p s = Inr (i, s1)" "sim_inv invar events s1"
    "eid_impl i = p" "eid_ts i = d + m_currentTs s" "eid_uid i = m_uid s"
    "events (m_events s1) = add_mset (event_of_id i) (events (m_events s))" by blast
  have g: "genuine events s1 i" using i uid by (simp add: genuine_def)
  have "IsExpired s2 i \<longleftrightarrow> event_of_id i \<notin># events (m_events s2) \<or> m_cancel s2 p"
    if "sim_steps ops events notify s1 s2" for s2
    using sim_steps_inv [OF that i(2)] genuine_IsExpired [of s2 i] g i(3) p by simp
  with i show ?thesis by (auto simp: add.commute)
qed

end

section \<open>The event loop\<close>

inductive sim_loop :: "'s scheduler \<Rightarrow> handlers \<Rightarrow> 's sim \<Rightarrow> 's sim \<Rightarrow> bool" for ops notify where
  loop_start: "sim_loop ops notify s s"
| loop_next: "\<not> op_IsEmpty ops (m_events s) \<Longrightarrow> \<not> m_stop s \<Longrightarrow>
     sim_ProcessOneEvent ops notify s = Inr s1 \<Longrightarrow> sim_loop ops notify s1 s2 \<Longrightarrow>
     sim_loop ops notify s s2"

lemma sim_Run_loop_SomeD:
  assumes "sim_Run_loop ops notify s = Some r"
  shows "\<exists>s'. sim_loop ops notify s s' \<and>
    (if op_IsEmpty ops (m_events s') \<or> m_stop s' then r = Inr s'
     else \<exists>e. sim_ProcessOneEvent ops notify s' = Inl e \<and> r = Inl e)"
proof (rule sim_Run_loop.raw_induct [where P = "\<lambda>ops notify s r. \<exists>s'. sim_loop ops notify s s' \<and>
    (if op_IsEmpty ops (m_events s') \<or> m_stop s' then r = Inr s'
     else \<exists>e. sim_ProcessOneEvent ops notify s' = Inl e \<and> r = Inl e)", OF _ assms])
  fix f :: "'a scheduler \<Rightarrow> handlers \<Rightarrow> 'a sim \<Rightarrow> (sim_error + 'a sim) option" and ops notify s r
  assume IH: "\<And>ops notify s r. f ops notify s = Some r \<Longrightarrow> \<exists>s'. sim_loop ops notify s s' \<and>
      (if op_IsEmpty ops (m_events s') \<or> m_stop s' then r = Inr s'
       else \<exists>e. sim_ProcessOneEvent ops notify s' = Inl e \<and> r = Inl e)"
    and eq: "(if \<not> op_IsEmpty ops (m_events s) \<and> \<not> m_stop s
      then case sim_ProcessOneEvent ops notify s of Inl e \<Rightarrow> Some (Inl e) | Inr s' \<Rightarrow> f ops notify s'
      else Some (Inr s)) = Some r"
  show "\<exists>s'. sim_loop ops notify s s' \<and>
      (if op_IsEmpty ops (m_events s') \<or> m_stop s' then r = Inr s'
       else \<exists>e. sim_ProcessOneEvent ops notify s' = Inl e \<and> r = Inl e)"
  proof (cases "\<not> op_IsEmpty ops (m_events s) \<and> \<not> m_stop s")
    case False
    then show ?thesis using eq by (auto intro: sim_loop.loop_start)
  next
    case True
    show ?thesis
    proof (cases "sim_ProcessOneEvent ops notify s")
      case (Inl e)
      with eq True have "r = Inl e" by simp
      with Inl True show ?thesis by (intro exI [of _ s]) (simp add: sim_loop.loop_start)
    next
      case (Inr s1)
      with eq True have "f ops notify s1 = Some r" by simp
      from IH [OF this] Inr True show ?thesis by (blast intro: sim_loop.loop_next)
    qed
  qed
qed

text \<open>Handlers that only cancel events or stop the simulation.\<close>

fun passive_call :: "sim_call \<Rightarrow> bool" where
  "passive_call (CallCancel i) \<longleftrightarrow> True"
| "passive_call CallStop \<longleftrightarrow> True"
| "passive_call _ \<longleftrightarrow> False"

definition passive_handlers :: "handlers \<Rightarrow> bool" where
  "passive_handlers notify \<longleftrightarrow> (\<forall>p v. list_all passive_call (notify p v))"

context event_scheduler
begin

lemma sim_loop_inv:
  assumes "sim_loop ops notify s s'" and "sim_inv invar events s"
    and "\<And>s'. sim_loop ops notify s s' \<Longrightarrow> process_ok ops events notify s'"
  shows "sim_inv invar events s'"
  using assms
proof (induction rule: sim_loop.induct)
  case (loop_next s s1 s2)
  have "events (m_events s) \<noteq> {#}"
    using loop_next.hyps(1) loop_next.prems(1) is_empty by (simp add: sim_inv_def)
  with loop_next sim_ProcessOneEvent_ok [OF loop_next.prems(1), of notify]
  have "sim_inv invar events s1" by (auto intro: sim_loop.loop_start)
  with loop_next show ?case by (blast intro: sim_loop.loop_next)
qed

lemma sim_Run_loop_safe:
  assumes inv: "sim_inv invar events s"
    and ok: "\<And>s'. sim_loop ops notify s s' \<Longrightarrow> process_ok ops events notify s'"
    and ret: "sim_Run_loop ops notify s = Some r"
  shows "\<exists>s'. r = Inr s' \<and> sim_inv invar events s' \<and> (events (m_events s') = {#} \<or> m_stop s')"
proof -
  from sim_Run_loop_SomeD [OF ret] obtain s' where s': "sim_loop ops notify s s'"
    "if op_IsEmpty ops (m_events s') \<or> m_stop s' then r = Inr s'
     else \<exists>e. sim_ProcessOneEvent ops notify s' = Inl e \<and> r = Inl e" by blast
  have inv': "sim_inv invar events s'" using sim_loop_inv [OF s'(1) inv] ok by blast
  then have empty: "op_IsEmpty ops (m_events s') \<longleftrightarrow> events (m_events s') = {#}"
    using is_empty by (simp add: sim_inv_def)
  show ?thesis
  proof (cases "op_IsEmpty ops (m_events s') \<or> m_stop s'")
    case True
    with s'(2) inv' empty show ?thesis by auto
  next
    case False
    with empty sim_ProcessOneEvent_ok [OF inv' _ ok [OF s'(1)]] s'(2) show ?thesis by auto
  qed
qed

lemma sim_Run_safe:
  assumes inv: "sim_inv invar events s" and ctx: "context_ok s"
    and ok: "\<And>s1 s'. sim_ProcessEventsWithContext ops s = Inr s1 \<Longrightarrow>
      sim_loop ops notify (s1\<lparr>m_stop := False\<rparr>) s' \<Longrightarrow> process_ok ops events notify s'"
    and ret: "sim_Run ops notify s = Some r"
  shows "\<exists>s'. r = Inr s' \<and> sim_inv invar events s' \<and> (events (m_events s') = {#} \<or> m_stop s')"
proof -
  from sim_ProcessEventsWithContext_ok [OF inv ctx] obtain s1 where
    s1: "sim_ProcessEventsWithContext ops s = Inr s1" "sim_inv invar events s1" by blast
  have "sim_inv invar events (s1\<lparr>m_stop := False\<rparr>)"
    by (rule sim_inv_cong [OF s1(2)]) (simp_all add: cur_rank_def)
  note loop = sim_Run_loop_safe [OF this ok [OF s1(1)]]
  from ret s1(1) obtain r1 where r1: "sim_Run_loop ops notify (s1\<lparr>m_stop := False\<rparr>) = Some r1"
    by (auto simp: sim_Run_def split: option.splits)
  from loop [OF _ this] obtain s' where
    s': "r1 = Inr s'" "sim_inv invar events s'" "events (m_events s') = {#} \<or> m_stop s'" by blast
  have "op_IsEmpty ops (m_events s') \<Longrightarrow> m_unscheduledEvents s' = 0"
    using s'(2) is_empty by (simp add: sim_inv_def)
  with ret s1(1) r1 s' show ?thesis by (auto simp: sim_Run_def split: if_splits)
qed

lemma passive_calls:
  assumes "list_all passive_call cs"
  shows "calls_ok ops events cs s \<and> (\<exists>s'. sim_calls ops cs s = Inr s' \<and> m_events s' = m_events s \<and>
    m_eventsWithContext s' = m_eventsWithContext s \<and> m_uid s' = m_uid s)"
  using assms
proof (induction cs arbitrary: s)
  case (Cons c cs)
  then obtain s1 where s1: "call_ok events s c" "sim_call_step ops c s = Inr s1"
    "m_events s1 = m_events s" "m_eventsWithContext s1 = m_eventsWithContext s" "m_uid s1 = m_uid s"
    by (cases c) (auto simp: sim_Cancel_def EventImpl_Cancel_def sim_Stop_def)
  with Cons.IH [of s1] Cons.prems show ?case by auto
qed simp

lemma passive_process:
  assumes inv: "sim_inv invar events s" and ne: "events (m_events s) \<noteq> {#}" and "passive_handlers notify"
    and ctx: "m_eventsWithContext s = []"
  shows "\<exists>s'. sim_ProcessOneEvent ops notify s = Inr s' \<and> sim_inv invar events s' \<and>
    m_eventsWithContext s' = [] \<and> size (events (m_events s')) < size (events (m_events s))"
proof -
  obtain ev evs where a: "op_RemoveNext ops (m_events s) = Some (ev, evs)" "m_currentTs s \<le> ts ev"
    "cur_rank s < rank ev" "events (m_events s) = add_mset ev (events evs)"
    "sim_inv invar events (sim_advance ev evs s)"
    using sim_advance_ok [OF inv ne] by metis
  let ?s1 = "sim_advance ev evs s" and ?cs = "handler_calls notify (ev_impl ev) (sim_advance ev evs s)"
  have "list_all passive_call ?cs" using assms(3) by (simp add: handler_calls_def passive_handlers_def)
  from passive_calls [OF this, of ?s1] obtain s2 where
    s2: "calls_ok ops events ?cs ?s1" "sim_calls ops ?cs ?s1 = Inr s2" "m_events s2 = evs"
    "m_eventsWithContext s2 = []" using ctx by (auto simp: sim_advance_def)
  have inv2: "sim_inv invar events s2" using sim_calls_ok [OF a(5) s2(1)] s2(2) by auto
  let ?s3 = "s2\<lparr>m_eventsWithContext := [], m_eventsWithContextEmpty := True\<rparr>"
  have "sim_inv invar events ?s3" by (rule sim_inv_cong [OF inv2]) (simp_all add: cur_rank_def)
  with a s2 inv2 show ?thesis
    by (auto simp: sim_ProcessOneEvent_def EventImpl_Invoke_calls sim_ProcessEventsWithContext_def)
qed

lemma passive_process_ok:
  assumes "passive_handlers notify" and "m_eventsWithContext s = []"
  shows "process_ok ops events notify s"
proof (cases "op_RemoveNext ops (m_events s)")
  case (Some r)
  obtain ev evs where r: "r = (ev, evs)" by force
  let ?s1 = "sim_advance ev evs s" and ?cs = "handler_calls notify (ev_impl ev) (sim_advance ev evs s)"
  have "list_all passive_call ?cs" using assms(1) by (simp add: handler_calls_def passive_handlers_def)
  from passive_calls [OF this, of ?s1] obtain s2 where
    "calls_ok ops events ?cs ?s1" "sim_calls ops ?cs ?s1 = Inr s2" "m_eventsWithContext s2 = []"
    using assms(2) by (auto simp: sim_advance_def)
  then show ?thesis using Some r unsigned_less [of "m_uid s2", where ?'a = nat]
    by (simp add: process_ok_def context_ok_def uid_left_def Let_def)
qed (simp add: process_ok_def)

lemma passive_loop_ok:
  assumes "sim_loop ops notify s s'" and "sim_inv invar events s" and "passive_handlers notify"
    and "m_eventsWithContext s = []"
  shows "process_ok ops events notify s'"
  using assms
proof (induction rule: sim_loop.induct)
  case (loop_next s s1 s2)
  have "events (m_events s) \<noteq> {#}"
    using loop_next.hyps(1) loop_next.prems(1) is_empty by (simp add: sim_inv_def)
  with passive_process loop_next show ?case by fastforce
qed (rule passive_process_ok)

lemma passive_Run_loop:
  assumes "sim_inv invar events s" and "passive_handlers notify" and "m_eventsWithContext s = []"
  shows "\<exists>s'. sim_Run_loop ops notify s = Some (Inr s') \<and> sim_inv invar events s' \<and>
    (events (m_events s') = {#} \<or> m_stop s')"
  using assms
proof (induction "size (events (m_events s))" arbitrary: s rule: less_induct)
  case less
  then have empty: "op_IsEmpty ops (m_events s) \<longleftrightarrow> events (m_events s) = {#}"
    using is_empty by (simp add: sim_inv_def)
  show ?case
  proof (cases "events (m_events s) = {#} \<or> m_stop s")
    case True
    with empty less.prems show ?thesis by (subst sim_Run_loop.simps) auto
  next
    case False
    with passive_process [OF less.prems(1) _ less.prems(2,3)] obtain s1 where
      "sim_ProcessOneEvent ops notify s = Inr s1" "sim_inv invar events s1"
      "m_eventsWithContext s1 = []" "size (events (m_events s1)) < size (events (m_events s))"
      by blast
    with less.hyps [of s1] less.prems(2) False empty show ?thesis
      by (subst sim_Run_loop.simps) simp
  qed
qed

lemma passive_Run:
  assumes inv: "sim_inv invar events s" and notify: "passive_handlers notify"
    and ctx: "m_eventsWithContext s = []"
  shows "\<exists>s'. sim_Run ops notify s = Some (Inr s') \<and> sim_inv invar events s' \<and>
    (events (m_events s') = {#} \<or> m_stop s')"
proof -
  define s1 where "s1 = (if m_eventsWithContextEmpty s then s
    else s\<lparr>m_eventsWithContext := [], m_eventsWithContextEmpty := True\<rparr>)"
  have pe: "sim_ProcessEventsWithContext ops s = Inr s1"
    using ctx by (simp add: sim_ProcessEventsWithContext_def s1_def)
  have "sim_inv invar events (s1\<lparr>m_stop := False\<rparr>)"
    by (rule sim_inv_cong [OF inv]) (simp_all add: cur_rank_def s1_def)
  moreover have "m_eventsWithContext (s1\<lparr>m_stop := False\<rparr>) = []" using ctx by (simp add: s1_def)
  ultimately obtain s' where
    s': "sim_Run_loop ops notify (s1\<lparr>m_stop := False\<rparr>) = Some (Inr s')" "sim_inv invar events s'"
    "events (m_events s') = {#} \<or> m_stop s'" using passive_Run_loop notify by blast
  have "op_IsEmpty ops (m_events s') \<Longrightarrow> m_unscheduledEvents s' = 0"
    using s'(2) is_empty by (simp add: sim_inv_def)
  with pe s' show ?thesis by (auto simp: sim_Run_def)
qed

end

section \<open>Exchanging the scheduler\<close>

locale queue_pair =
  a: event_queue opsa inita invara eventsa + b: event_queue opsb initb invarb eventsb
  for opsa :: "'s scheduler" and inita invara eventsa
    and opsb :: "'t scheduler" and initb invarb eventsb
begin

lemma move_events_ok:
  assumes "invara s" and "invarb t" and "uids_distinct (eventsa s + eventsb t)"
  shows "\<exists>t'. move_events opsa opsb s t = Some t' \<and> invarb t' \<and> eventsb t' = eventsa s + eventsb t"
  using assms
proof (induction "size (eventsa s)" arbitrary: s t rule: less_induct)
  case less
  show ?case
  proof (cases "eventsa s = {#}")
    case True
    with less.prems a.is_empty show ?thesis by (subst move_events.simps) auto
  next
    case False
    from a.remove_nextE [OF less.prems(1) False] obtain ev s' where
      next_ev: "op_RemoveNext opsa s = Some (ev, s')" "invara s'"
      "eventsa s = add_mset ev (eventsa s')" by metis
    have "\<forall>e \<in># eventsb t. uid e \<noteq> uid ev"
    proof
      fix e assume "e \<in># eventsb t"
      with less.prems(3) next_ev(3) show "uid e \<noteq> uid ev"
        by (auto simp: uids_distinct_def dest!: spec [of _ "uid ev"] multi_member_split)
    qed
    with less.prems(2) obtain t' where
      ins: "op_Insert opsb ev t = Some t'" "invarb t'" "eventsb t' = add_mset ev (eventsb t)"
      by (metis b.insertE)
    have "uids_distinct (eventsa s' + eventsb t')" using less.prems(3) next_ev(3) ins(3) by simp
    from less.hyps [OF _ next_ev(2) ins(2) this] next_ev ins False a.is_empty [OF less.prems(1)]
    show ?thesis by (subst move_events.simps) auto
  qed
qed

lemma SetScheduler_ok:
  assumes "sim_inv invara eventsa s"
  shows "\<exists>s'. sim_SetScheduler opsa opsb initb s = Some s' \<and> sim_inv invarb eventsb s' \<and>
    sim_view s' = sim_view s \<and> eventsb (m_events s') = eventsa (m_events s)"
proof -
  from assms have "invara (m_events s)" "uids_distinct (eventsa (m_events s) + eventsb initb)"
    by (auto simp: sim_inv_def b.init_events)
  from move_events_ok [OF this(1) b.init_invar this(2)] obtain t' where
    "move_events opsa opsb (m_events s) initb = Some t'" "invarb t'"
    "eventsb t' = eventsa (m_events s)" by (auto simp: b.init_events)
  with assms show ?thesis by (auto simp: sim_SetScheduler_def sim_inv_def sim_view_def cur_rank_def)
qed

end

section \<open>A simulation does not depend on its scheduler\<close>

lemma sim_view_eqD:
  assumes "sim_view s = sim_view t"
  shows "m_eventsWithContext s = m_eventsWithContext t" "m_destroyEvents s = m_destroyEvents t"
    "m_eventsWithContextEmpty s = m_eventsWithContextEmpty t" "m_stop s = m_stop t"
    "m_uid s = m_uid t" "m_currentUid s = m_currentUid t" "m_currentTs s = m_currentTs t"
    "m_currentContext s = m_currentContext t" "m_eventCount s = m_eventCount t"
    "m_unscheduledEvents s = m_unscheduledEvents t" "m_cancel s = m_cancel t"
  using assms by (auto simp: sim_view_def)

lemma IsExpired_view:
  assumes "sim_view s = sim_view t"
  shows "IsExpired s i = IsExpired t i"
  using sim_view_eqD [OF assms] by (simp add: IsExpired_def)

lemma sim_view_update [simp]:
  "sim_view (s\<lparr>m_events := e\<rparr>) = sim_view s"
  "sim_view (s\<lparr>m_uid := u\<rparr>) = (sim_view s)\<lparr>m_uid := u\<rparr>"
  "sim_view (s\<lparr>m_unscheduledEvents := n\<rparr>) = (sim_view s)\<lparr>m_unscheduledEvents := n\<rparr>"
  "sim_view (s\<lparr>m_eventsWithContext := l\<rparr>) = (sim_view s)\<lparr>m_eventsWithContext := l\<rparr>"
  "sim_view (s\<lparr>m_eventsWithContextEmpty := b\<rparr>) = (sim_view s)\<lparr>m_eventsWithContextEmpty := b\<rparr>"
  "sim_view (s\<lparr>m_destroyEvents := d\<rparr>) = (sim_view s)\<lparr>m_destroyEvents := d\<rparr>"
  "sim_view (s\<lparr>m_cancel := c\<rparr>) = (sim_view s)\<lparr>m_cancel := c\<rparr>"
  "sim_view (s\<lparr>m_stop := b\<rparr>) = (sim_view s)\<lparr>m_stop := b\<rparr>"
  by (simp_all add: sim_view_def)

lemma insert_event_view:
  "insert_event ops t c p s = Inr s' \<Longrightarrow>
     sim_view s' = (sim_view s)\<lparr>m_uid := m_uid s + 1, m_unscheduledEvents := m_unscheduledEvents s + 1\<rparr>"
  by (auto simp: insert_event_def Let_def split: option.splits)

locale scheduler_pair =
  a: event_scheduler opsa inita invara eventsa + b: event_scheduler opsb initb invarb eventsb
  for opsa :: "'s scheduler" and inita invara eventsa
    and opsb :: "'t scheduler" and initb invarb eventsb
begin

definition related :: "'s sim \<Rightarrow> 't sim \<Rightarrow> bool" where
  "related s t \<longleftrightarrow> sim_inv invara eventsa s \<and> sim_inv invarb eventsb t \<and>
     sim_view s = sim_view t \<and> eventsa (m_events s) = eventsb (m_events t)"

definition related_results :: "sim_error + 's sim \<Rightarrow> sim_error + 't sim \<Rightarrow> bool" where
  "related_results r q \<longleftrightarrow> (\<exists>s t. r = Inr s \<and> q = Inr t \<and> related s t)"

lemma related_insert:
  assumes r: "related s t" and u: "m_currentTs s \<le> x" "m_uid s \<noteq> - 1"
  shows "related_results (insert_event opsa x c p s) (insert_event opsb x c p t)"
proof -
  from r have inv: "sim_inv invara eventsa s" "sim_inv invarb eventsb t"
    and v: "sim_view s = sim_view t" and e: "eventsa (m_events s) = eventsb (m_events t)"
    by (auto simp: related_def)
  note eqs = sim_view_eqD [OF v]
  have u': "m_currentTs t \<le> x" "m_uid t \<noteq> - 1" using u eqs by auto
  from a.insert_event_ok [OF inv(1) u, of c p] b.insert_event_ok [OF inv(2) u', of c p]
  obtain s' t' where st: "insert_event opsa x c p s = Inr s'" "sim_inv invara eventsa s'"
    "insert_event opsb x c p t = Inr t'" "sim_inv invarb eventsb t'"
    "eventsa (m_events s') = add_mset \<lparr>ev_impl = p, ev_key = \<lparr>ek_ts = x, ek_uid = m_uid s, ek_context = c\<rparr>\<rparr>
       (eventsa (m_events s))"
    "eventsb (m_events t') = add_mset \<lparr>ev_impl = p, ev_key = \<lparr>ek_ts = x, ek_uid = m_uid t, ek_context = c\<rparr>\<rparr>
       (eventsb (m_events t))" by blast
  then have "sim_view s' = sim_view t'" using v eqs by (simp add: insert_event_view)
  with st e eqs show ?thesis by (auto simp: related_results_def related_def)
qed

lemma related_Schedule:
  assumes r: "related s t" and d: "IsPositive d" "m_currentTs s \<le> d + m_currentTs s"
    and u: "uid_left s 1"
  shows "related_results (map_sum (\<lambda>e. e) snd (sim_Schedule opsa True d p s))
    (map_sum (\<lambda>e. e) snd (sim_Schedule opsb True d p t))"
proof -
  have v: "sim_view s = sim_view t" using r by (simp add: related_def)
  from related_insert [OF r d(2) uid_left_neq [OF u], of "m_currentContext s" p] d(1)
  show ?thesis by (auto simp: related_results_def sim_Schedule_def Let_def sim_view_eqD [OF v])
qed

text \<open>A change of fields the scheduler does not see keeps the relation.\<close>

lemma related_cong:
  assumes r: "related s t" and "m_events s' = m_events s" and "m_events t' = m_events t"
    and "sim_view s' = sim_view t'" and "sim_inv invara eventsa s'" and "sim_inv invarb eventsb t'"
  shows "related s' t'"
  using assms by (simp add: related_def)

lemma related_Remove:
  assumes r: "related s t" and c: "call_ok eventsa s (CallRemove i)"
  shows "related_results (sim_Remove opsa i s) (sim_Remove opsb i t)"
proof -
  from r have inv: "sim_inv invara eventsa s" "sim_inv invarb eventsb t"
    and v: "sim_view s = sim_view t" and e: "eventsa (m_events s) = eventsb (m_events t)"
    by (auto simp: related_def)
  note eqs = sim_view_eqD [OF v] IsExpired_view [OF v]
  have c': "call_ok eventsb t (CallRemove i)" using c eqs e by simp
  from a.sim_Remove_ok [OF inv(1) c] b.sim_Remove_ok [OF inv(2) c'] obtain s' t' where
    st: "sim_Remove opsa i s = Inr s'" "sim_inv invara eventsa s'"
    "eid_uid i \<noteq> UID_DESTROY \<longrightarrow> \<not> IsExpired s i \<longrightarrow>
      eventsa (m_events s') = eventsa (m_events s) - {#event_of_id i#}"
    "sim_Remove opsb i t = Inr t'" "sim_inv invarb eventsb t'"
    "eid_uid i \<noteq> UID_DESTROY \<longrightarrow> \<not> IsExpired t i \<longrightarrow>
      eventsb (m_events t') = eventsb (m_events t) - {#event_of_id i#}" by blast
  have "sim_view s' = sim_view t'" using st(1,4) v eqs
    by (auto simp: sim_Remove_def EventImpl_Cancel_def split: if_splits option.splits)
  moreover have "eventsa (m_events s') = eventsb (m_events t')"
    using st e eqs by (cases "eid_uid i = UID_DESTROY \<or> IsExpired s i")
      (auto simp: sim_Remove_def split: if_splits)
  ultimately show ?thesis using st by (auto simp: related_results_def related_def)
qed

lemma related_call_step:
  assumes r: "related s t" and c: "call_ok eventsa s c"
  shows "related_results (sim_call_step opsa c s) (sim_call_step opsb c t)"
proof -
  from r have inv: "sim_inv invara eventsa s" "sim_inv invarb eventsb t"
    and v: "sim_view s = sim_view t" and e: "eventsa (m_events s) = eventsb (m_events t)"
    by (auto simp: related_def)
  note eqs = sim_view_eqD [OF v] IsExpired_view [OF v]
  have c': "call_ok eventsb t c" using c eqs e by (cases c) (auto simp: delay_ok_def uid_left_def)
  from a.sim_call_step_ok [OF inv(1) c] b.sim_call_step_ok [OF inv(2) c'] obtain s' t' where
    st: "sim_call_step opsa c s = Inr s'" "sim_inv invara eventsa s'"
    "sim_call_step opsb c t = Inr t'" "sim_inv invarb eventsb t'" by blast
  have quiet: ?thesis if "m_events s' = m_events s" "m_events t' = m_events t" "sim_view s' = sim_view t'"
    using that st related_cong [OF r] by (auto simp: related_results_def)
  show ?thesis
  proof (cases c)
    case (CallSchedule d p)
    with c have "delay_ok s d" "uid_left s 1" by auto
    with related_Schedule [OF r delay_ok_IsPositive delay_ok_le] CallSchedule show ?thesis by simp
  next
    case (CallStopAfter d p)
    with c have "delay_ok s d" "uid_left s 1" by auto
    with related_Schedule [OF r delay_ok_IsPositive delay_ok_le] CallStopAfter show ?thesis by simp
  next
    case (CallScheduleNow p)
    with c have "uid_left s 1" by simp
    with related_Schedule [OF r, of 0 p] CallScheduleNow show ?thesis
      by (simp add: sim_ScheduleNow_def IsPositive_def)
  next
    case (CallScheduleWithContext main x d p)
    show ?thesis
    proof (cases main)
      case True
      with c CallScheduleWithContext have "m_currentTs s \<le> d + m_currentTs s" "m_uid s \<noteq> - 1"
        by (auto intro: delay_ok_le dest: uid_left_neq)
      from related_insert [OF r this, of x p] show ?thesis
        using CallScheduleWithContext True by (simp add: sim_ScheduleWithContext_def eqs(7))
    next
      case False
      with st CallScheduleWithContext v eqs(1) show ?thesis
        by (intro quiet) (auto simp: sim_ScheduleWithContext_def)
    qed
  next
    case (CallScheduleDestroy p)
    with st v eqs(2,5,7) show ?thesis
      by (intro quiet) (auto simp: sim_ScheduleDestroy_def Let_def)
  next
    case (CallCancel i)
    with st v eqs(11,12) show ?thesis
      by (intro quiet) (auto simp: sim_Cancel_def EventImpl_Cancel_def)
  next
    case (CallRemove i)
    with related_Remove [OF r] c show ?thesis by simp
  next
    case CallStop
    with st v show ?thesis by (intro quiet) (auto simp: sim_Stop_def)
  qed
qed

lemma related_calls:
  assumes "related s t" and "calls_ok opsa eventsa cs s"
  shows "related_results (sim_calls opsa cs s) (sim_calls opsb cs t)"
  using assms
proof (induction cs arbitrary: s t)
  case (Cons c cs)
  from related_call_step [OF Cons.prems(1), of c] Cons.prems(2) obtain s1 t1 where
    "sim_call_step opsa c s = Inr s1" "sim_call_step opsb c t = Inr t1" "related s1 t1"
    by (auto simp: related_results_def)
  with Cons show ?case by simp
qed (simp add: related_results_def)

lemma related_context_list:
  assumes "related s t" and "\<forall>e \<in> set es. delay_ok s (ewc_timestamp e)" and "uid_left s (length es)"
  shows "related_results (process_events_with_context opsa es s) (process_events_with_context opsb es t)"
  using assms
proof (induction es arbitrary: s t)
  case (Cons e es)
  have v: "sim_view s = sim_view t" using Cons.prems(1) by (simp add: related_def)
  have d: "m_currentTs s \<le> m_currentTs s + ewc_timestamp e"
    using delay_ok_le [of s "ewc_timestamp e"] Cons.prems(2) by (simp add: add.commute)
  have u: "m_uid s \<noteq> - 1" using uid_left_neq Cons.prems(3) by fastforce
  from related_insert [OF Cons.prems(1) d u, of "ewc_context e" "ewc_event e"] obtain s1 t1 where
    st: "insert_event opsa (m_currentTs s + ewc_timestamp e) (ewc_context e) (ewc_event e) s = Inr s1"
    "insert_event opsb (m_currentTs t + ewc_timestamp e) (ewc_context e) (ewc_event e) t = Inr t1"
    "related s1 t1" by (auto simp: related_results_def sim_view_eqD(7) [OF v])
  have "m_currentTs s1 = m_currentTs s" "m_uid s1 = m_uid s + 1"
    using insert_event_frame [OF st(1)] insert_event_view [OF st(1)]
    by (auto simp: cur_rank_def sim_view_def)
  with Cons.prems(2,3) unat_Suc_no_wrap [OF u]
  have "\<forall>e \<in> set es. delay_ok s1 (ewc_timestamp e)" "uid_left s1 (length es)"
    by (auto simp: delay_ok_def uid_left_def)
  from Cons.IH [OF st(3) this] st show ?case by simp
qed (simp add: related_results_def)

lemma related_ProcessEventsWithContext:
  assumes r: "related s t" and c: "context_ok s"
  shows "related_results (sim_ProcessEventsWithContext opsa s) (sim_ProcessEventsWithContext opsb t)"
proof -
  let ?clear = "\<lambda>s. s\<lparr>m_eventsWithContext := [], m_eventsWithContextEmpty := True\<rparr>"
  from r have inv: "sim_inv invara eventsa s" "sim_inv invarb eventsb t"
    and v: "sim_view s = sim_view t" by (auto simp: related_def)
  have "related (?clear s) (?clear t)"
    by (rule related_cong [OF r])
      (use v in \<open>auto intro: a.sim_inv_cong [OF inv(1)] b.sim_inv_cong [OF inv(2)] simp: cur_rank_def\<close>)
  moreover have "\<forall>e \<in> set (m_eventsWithContext s). delay_ok (?clear s) (ewc_timestamp e)"
    and "uid_left (?clear s) (length (m_eventsWithContext s))"
    using c by (auto simp: context_ok_def list_all_iff delay_ok_def uid_left_def)
  ultimately show ?thesis using r related_context_list
    by (auto simp: sim_ProcessEventsWithContext_def related_results_def sim_view_eqD [OF v])
qed

lemma related_next:
  assumes r: "related s t" and ne: "eventsa (m_events s) \<noteq> {#}"
  obtains ev sa tb where "op_RemoveNext opsa (m_events s) = Some (ev, sa)" "m_currentTs s \<le> ts ev"
    "op_RemoveNext opsb (m_events t) = Some (ev, tb)"
    "related (sim_advance ev sa s) (sim_advance ev tb t)"
proof -
  from r ne have inv: "sim_inv invara eventsa s" "sim_inv invarb eventsb t"
    and v: "sim_view s = sim_view t" and e: "eventsa (m_events s) = eventsb (m_events t)"
    and ne': "eventsb (m_events t) \<noteq> {#}" by (auto simp: related_def)
  obtain ev sa where x: "op_RemoveNext opsa (m_events s) = Some (ev, sa)" "m_currentTs s \<le> ts ev"
    "eventsa (m_events s) = add_mset ev (eventsa sa)" "\<forall>e \<in># eventsa sa. rank ev < rank e"
    "sim_inv invara eventsa (sim_advance ev sa s)"
    using a.sim_advance_ok [OF inv(1) ne] by metis
  obtain ew tb where y: "op_RemoveNext opsb (m_events t) = Some (ew, tb)"
    "eventsb (m_events t) = add_mset ew (eventsb tb)" "\<forall>e \<in># eventsb tb. rank ew < rank e"
    "sim_inv invarb eventsb (sim_advance ew tb t)"
    using b.sim_advance_ok [OF inv(2) ne'] by metis
  have "ev = ew"
  proof (rule ccontr)
    assume "ev \<noteq> ew"
    with x(3) y(2) e have "ew \<in># eventsa sa" "ev \<in># eventsb tb"
      by (metis insert_noteq_member)+
    with x(4) y(3) show False by fastforce
  qed
  with x y e v sim_view_eqD [OF v] show thesis
    by (intro that [of ev sa tb]) (auto simp: related_def sim_advance_def sim_view_def)
qed

lemma related_ProcessOneEvent:
  assumes r: "related s t" and ne: "eventsa (m_events s) \<noteq> {#}"
    and ok: "process_ok opsa eventsa notify s"
  shows "related_results (sim_ProcessOneEvent opsa notify s) (sim_ProcessOneEvent opsb notify t)"
proof -
  obtain ev sa tb where x: "op_RemoveNext opsa (m_events s) = Some (ev, sa)" "m_currentTs s \<le> ts ev"
    "op_RemoveNext opsb (m_events t) = Some (ev, tb)"
    "related (sim_advance ev sa s) (sim_advance ev tb t)" using related_next [OF r ne] by metis
  let ?cs = "handler_calls notify (ev_impl ev) (sim_advance ev sa s)"
  have v: "sim_view (sim_advance ev sa s) = sim_view (sim_advance ev tb t)" "sim_view s = sim_view t"
    using r x(4) by (auto simp: related_def)
  then have cs: "handler_calls notify (ev_impl ev) (sim_advance ev tb t) = ?cs"
    by (simp add: handler_calls_def sim_view_eqD [OF v(1)])
  have "calls_ok opsa eventsa ?cs (sim_advance ev sa s)"
    using ok x(1) by (simp add: process_ok_def Let_def)
  from related_calls [OF x(4) this] obtain s2 t2 where
    st: "sim_calls opsa ?cs (sim_advance ev sa s) = Inr s2"
    "sim_calls opsb ?cs (sim_advance ev tb t) = Inr t2" "related s2 t2"
    by (auto simp: related_results_def)
  have "context_ok s2" using ok x(1) st(1) by (simp add: process_ok_def Let_def)
  from related_ProcessEventsWithContext [OF st(3) this] show ?thesis
    using x st cs sim_view_eqD(7) [OF v(2)]
    by (simp add: sim_ProcessOneEvent_def EventImpl_Invoke_calls)
qed

text \<open>Both engines run to the same observable end.\<close>

lemma related_loop:
  assumes "sim_loop opsa notify s s'" and "op_IsEmpty opsa (m_events s') \<or> m_stop s'"
    and "related s t"
    and "\<And>s'. sim_loop opsa notify s s' \<Longrightarrow> process_ok opsa eventsa notify s'"
  shows "\<exists>t'. sim_Run_loop opsb notify t = Some (Inr t') \<and> related s' t'"
  using assms
proof (induction arbitrary: t rule: sim_loop.induct)
  case (loop_start s)
  then have "op_IsEmpty opsb (m_events t) \<or> m_stop t"
    using a.is_empty b.is_empty
    by (auto simp: related_def sim_inv_def sim_view_def)
  with loop_start show ?case by (subst sim_Run_loop.simps) auto
next
  case (loop_next s s1 s2)
  have ne: "eventsa (m_events s) \<noteq> {#}" "\<not> op_IsEmpty opsb (m_events t)" "\<not> m_stop t"
    using loop_next.hyps(1,2) loop_next.prems(2) a.is_empty b.is_empty
    by (auto simp: related_def sim_inv_def sim_view_def)
  have "process_ok opsa eventsa notify s" using loop_next.prems(3) sim_loop.loop_start by blast
  from related_ProcessOneEvent [OF loop_next.prems(2) ne(1) this] loop_next.hyps(3) obtain t1 where
    t1: "sim_ProcessOneEvent opsb notify t = Inr t1" "related s1 t1"
    by (auto simp: related_results_def)
  have "\<exists>t'. sim_Run_loop opsb notify t1 = Some (Inr t') \<and> related s2 t'"
    using loop_next.IH [OF loop_next.prems(1) t1(2)] loop_next.prems(3) loop_next.hyps(1-3)
    by (blast intro: sim_loop.loop_next)
  with t1 ne show ?case by (subst sim_Run_loop.simps) simp
qed

lemma related_Run_loop:
  assumes r: "related s t"
    and ok: "\<And>s'. sim_loop opsa notify s s' \<Longrightarrow> process_ok opsa eventsa notify s'"
    and ret: "sim_Run_loop opsa notify s = Some (Inr s')"
  shows "\<exists>t'. sim_Run_loop opsb notify t = Some (Inr t') \<and> related s' t'"
proof -
  from sim_Run_loop_SomeD [OF ret] have "sim_loop opsa notify s s'"
    "op_IsEmpty opsa (m_events s') \<or> m_stop s'" by (auto split: if_splits)
  from related_loop [OF this r ok] show ?thesis by blast
qed

end

interpretation map_list: scheduler_pair MapScheduler "[]" map_invar "\<lambda>m. mset (map_events m)"
  ListScheduler "[]" list_sorted mset
  by unfold_locales

interpretation map_heap: queue_pair MapScheduler "[]" map_invar "\<lambda>m. mset (map_events m)"
  HeapScheduler heap_empty heap_invar heap_events
  by unfold_locales

end
