(* ===== verification/Simulator_Properties.thy ===== *)
theory Simulator_Properties
  imports Simulator_Runs
begin

text \<open>
  The properties of the simulation core, stated for the schedulers of the sources: the engine with its
  default \<^verbatim>\<open>MapScheduler\<close>, the \<^verbatim>\<open>ListScheduler\<close> and the \<^verbatim>\<open>HeapScheduler\<close>, each with a concrete run
  that meets its hypotheses.
\<close>

abbreviation map_evs :: "event_map \<Rightarrow> event multiset" where
  "map_evs m \<equiv> mset (map_events m)"

abbreviation map_engine :: "event_map sim" where
  "map_engine \<equiv> DefaultSimulatorImpl []"

section \<open>A small simulation used as witness\<close>

text \<open>The handler of object 1 schedules object 2 five ticks later; the engine starts with object 1
  scheduled at time 10.\<close>

definition demo_handlers :: handlers where
  "demo_handlers p v = (if p = 1 then [CallSchedule 5 2] else [])"

definition demo_event :: event where
  "demo_event = \<lparr>ev_impl = 1, ev_key = \<lparr>ek_ts = 10, ek_uid = 4, ek_context = NO_CONTEXT\<rparr>\<rparr>"

definition demo_sim :: "event_map sim" where
  "demo_sim = map_engine\<lparr>m_uid := 5, m_unscheduledEvents := 1, m_events := [(ev_key demo_event, 1)]\<rparr>"

lemma demo_start: "sim_call_step MapScheduler (CallSchedule 10 1) map_engine = Inr demo_sim"
  by (simp add: demo_sim_def demo_event_def sim_Schedule_def insert_event_def DefaultSimulatorImpl_def
      MapScheduler_def map_Insert_def IsPositive_def Let_def)

lemma demo_steps: "sim_steps MapScheduler map_evs notify map_engine demo_sim"
proof -
  have "call_ok map_evs map_engine (CallSchedule 10 1)"
    by (simp add: delay_ok_def uid_left_def DefaultSimulatorImpl_def)
  from sim_step.call [OF this demo_start] show ?thesis by blast
qed

lemma demo_pending: "map_evs (m_events demo_sim) = {#demo_event#}"
  by (simp add: demo_sim_def demo_event_def)

lemma demo_process_ok: "process_ok MapScheduler map_evs demo_handlers demo_sim"
  by (simp add: process_ok_def demo_sim_def demo_event_def demo_handlers_def DefaultSimulatorImpl_def
      MapScheduler_def map_RemoveNext_def handler_calls_def sim_advance_def delay_ok_def uid_left_def
      context_ok_def sim_Schedule_def insert_event_def map_Insert_def IsPositive_def Let_def)

lemma demo_inv: "sim_inv map_invar map_evs demo_sim"
  using mapq.sim_steps_inv [OF demo_steps [of demo_handlers] mapq.initial_inv] by blast

definition idle_handlers :: handlers where
  "idle_handlers p v = []"

lemma idle_passive: "passive_handlers idle_handlers"
  by (simp add: passive_handlers_def idle_handlers_def)

lemma demo_no_context: "m_eventsWithContext demo_sim = []"
  by (simp add: demo_sim_def DefaultSimulatorImpl_def)

definition demo_list :: "list_events sim" where
  "demo_list = (DefaultSimulatorImpl [demo_event])\<lparr>m_uid := 5, m_unscheduledEvents := 1\<rparr>"

section \<open>The engine\<close>

text \<open>C1: in every state the engine can reach, if client code respects the time and uid ranges,
  \<^verbatim>\<open>ProcessOneEvent\<close> trips no assertion: it executes a pending event that no pending event precedes,
  and the simulation time never goes back.\<close>

theorem engine_progress:
  assumes "sim_steps MapScheduler map_evs notify map_engine s"
    and "map_evs (m_events s) \<noteq> {#}" and "process_ok MapScheduler map_evs notify s"
  shows "\<exists>s' ev. sim_ProcessOneEvent MapScheduler notify s = Inr s' \<and>
    ev \<in># map_evs (m_events s) \<and> (\<forall>e \<in># map_evs (m_events s). rank ev \<le> rank e) \<and>
    cur_rank s' = rank ev \<and> cur_rank s < cur_rank s' \<and> m_eventCount s' = m_eventCount s + 1 \<and>
    (\<forall>e \<in># map_evs (m_events s'). cur_rank s' < rank e)"
proof -
  have "sim_inv map_invar map_evs s"
    using mapq.sim_steps_inv [OF assms(1) mapq.initial_inv] by blast
  from mapq.sim_ProcessOneEvent_ok [OF this assms(2,3)] show ?thesis
    by (auto simp: sim_inv_def)
qed

theorem engine_progress_witness:
  "\<exists>s' ev. sim_ProcessOneEvent MapScheduler demo_handlers demo_sim = Inr s' \<and>
    ev \<in># map_evs (m_events demo_sim) \<and> cur_rank s' = rank ev \<and> cur_rank demo_sim < cur_rank s'"
  using engine_progress [OF demo_steps _ demo_process_ok] demo_pending by auto

text \<open>C2: an event identifier returned by \<^verbatim>\<open>Schedule\<close> stays accurate for the rest of the
  simulation: whatever calls are made and events are processed, \<^verbatim>\<open>IsExpired\<close> answers true exactly
  when the event was cancelled or is no longer pending.\<close>

theorem event_id_contract:
  assumes "sim_steps MapScheduler map_evs notify map_engine s"
    and "delay_ok s d" and "uid_left s 1" and "m_uid s \<noteq> UID_DESTROY" and "p \<noteq> nullptr"
  shows "\<exists>i s1. sim_Schedule MapScheduler True d p s = Inr (i, s1) \<and>
    event_of_id i \<in># map_evs (m_events s1) \<and> eid_ts i = m_currentTs s + d \<and>
    (\<forall>s2. sim_steps MapScheduler map_evs notify s1 s2 \<longrightarrow>
      (IsExpired s2 i \<longleftrightarrow> event_of_id i \<notin># map_evs (m_events s2) \<or> m_cancel s2 p))"
proof -
  have "sim_inv map_invar map_evs s"
    using mapq.sim_steps_inv [OF assms(1) mapq.initial_inv] by blast
  from mapq.scheduled_id_contract [OF this assms(2-)] show ?thesis .
qed

theorem event_id_contract_witness:
  "\<exists>i s1. sim_Schedule MapScheduler True 7 3 demo_sim = Inr (i, s1) \<and>
    event_of_id i \<in># map_evs (m_events s1) \<and>
    (\<forall>s2. sim_steps MapScheduler map_evs demo_handlers s1 s2 \<longrightarrow>
      (IsExpired s2 i \<longleftrightarrow> event_of_id i \<notin># map_evs (m_events s2) \<or> m_cancel s2 3))"
proof -
  have h: "delay_ok demo_sim 7" "uid_left demo_sim 1" "m_uid demo_sim \<noteq> UID_DESTROY" "(3::ptr) \<noteq> nullptr"
    by (simp_all add: delay_ok_def uid_left_def demo_sim_def DefaultSimulatorImpl_def)
  from event_id_contract [OF demo_steps h, where notify = demo_handlers] show ?thesis by blast
qed

text \<open>C3: when \<^verbatim>\<open>Run\<close> returns, it returns normally: no assertion failed on the way, no event was
  lost, and the loop ended because no event is pending or \<^verbatim>\<open>Stop\<close> was called.\<close>

theorem run_never_fails:
  assumes "sim_steps MapScheduler map_evs notify map_engine s" and "context_ok s"
    and "\<forall>s1 s'. sim_ProcessEventsWithContext MapScheduler s = Inr s1 \<longrightarrow>
      sim_loop MapScheduler notify (s1\<lparr>m_stop := False\<rparr>) s' \<longrightarrow>
      process_ok MapScheduler map_evs notify s'"
    and "sim_Run MapScheduler notify s = Some r"
  shows "\<exists>s'. r = Inr s' \<and> (map_evs (m_events s') = {#} \<and> m_unscheduledEvents s' = 0 \<or> m_stop s')"
proof -
  have "sim_inv map_invar map_evs s"
    using mapq.sim_steps_inv [OF assms(1) mapq.initial_inv] by blast
  from mapq.sim_Run_safe [OF this assms(2) _ assms(4)] assms(3) show ?thesis
    by (fastforce simp: sim_inv_def)
qed

theorem run_never_fails_witness:
  "\<exists>r s'. sim_Run MapScheduler idle_handlers demo_sim = Some r \<and> r = Inr s' \<and>
    (map_evs (m_events s') = {#} \<and> m_unscheduledEvents s' = 0 \<or> m_stop s')"
proof -
  from mapq.passive_Run [OF demo_inv idle_passive demo_no_context] obtain r where
    r: "sim_Run MapScheduler idle_handlers demo_sim = Some r" by blast
  have ctx: "context_ok demo_sim"
    by (simp add: context_ok_def uid_left_def demo_sim_def DefaultSimulatorImpl_def)
  have "process_ok MapScheduler map_evs idle_handlers s'"
    if "sim_ProcessEventsWithContext MapScheduler demo_sim = Inr s1"
      "sim_loop MapScheduler idle_handlers (s1\<lparr>m_stop := False\<rparr>) s'" for s1 s'
  proof -
    have s1: "s1 = demo_sim"
      using that(1) by (simp add: sim_ProcessEventsWithContext_def demo_sim_def DefaultSimulatorImpl_def)
    have "sim_inv map_invar map_evs (demo_sim\<lparr>m_stop := False\<rparr>)"
      by (rule mapq.sim_inv_cong [OF demo_inv]) (simp_all add: cur_rank_def)
    from mapq.passive_loop_ok [OF that(2) [unfolded s1] this idle_passive] demo_no_context
    show ?thesis by simp
  qed
  then have "\<forall>s1 s'. sim_ProcessEventsWithContext MapScheduler demo_sim = Inr s1 \<longrightarrow>
      sim_loop MapScheduler idle_handlers (s1\<lparr>m_stop := False\<rparr>) s' \<longrightarrow>
      process_ok MapScheduler map_evs idle_handlers s'" by blast
  from run_never_fails [OF demo_steps ctx this r] r show ?thesis by blast
qed



section \<open>Independence of the scheduler\<close>

text \<open>C5: a simulation does not depend on the scheduler: if the event loop over a \<^verbatim>\<open>MapScheduler\<close>
  returns, the loop over a \<^verbatim>\<open>ListScheduler\<close> with the same pending events and the same handlers returns
  too, and everything client code can observe is equal at the end.\<close>

theorem map_list_equivalent:
  assumes "sim_inv map_invar map_evs s" and "sim_inv list_sorted mset t"
    and "sim_view s = sim_view t" and "map_evs (m_events s) = mset (m_events t)"
    and "\<forall>s'. sim_loop MapScheduler notify s s' \<longrightarrow> process_ok MapScheduler map_evs notify s'"
    and "sim_Run_loop MapScheduler notify s = Some (Inr s')"
  shows "\<exists>t'. sim_Run_loop ListScheduler notify t = Some (Inr t') \<and> sim_view s' = sim_view t' \<and>
    map_evs (m_events s') = mset (m_events t')"
proof -
  have "map_list.related s t" using assms(1-4) by (simp add: map_list.related_def)
  from map_list.related_Run_loop [OF this _ assms(6)] assms(5) show ?thesis
    by (auto simp: map_list.related_def)
qed

theorem map_list_equivalent_witness:
  "\<exists>s' t'. sim_Run_loop MapScheduler idle_handlers demo_sim = Some (Inr s') \<and>
    sim_Run_loop ListScheduler idle_handlers demo_list = Some (Inr t') \<and> sim_view s' = sim_view t'"
proof -
  from mapq.passive_Run_loop [OF demo_inv idle_passive demo_no_context] obtain s' where
    s': "sim_Run_loop MapScheduler idle_handlers demo_sim = Some (Inr s')" by blast
  have l: "sim_inv list_sorted mset demo_list"
    by (simp add: sim_inv_def demo_list_def demo_event_def DefaultSimulatorImpl_def cur_rank_def
        key_rank_def uids_distinct_def)
  have v: "sim_view demo_sim = sim_view demo_list"
    by (simp add: demo_sim_def demo_list_def DefaultSimulatorImpl_def sim_view_def)
  have e: "map_evs (m_events demo_sim) = mset (m_events demo_list)"
    using demo_pending by (simp add: demo_list_def DefaultSimulatorImpl_def)
  have "\<forall>s'. sim_loop MapScheduler idle_handlers demo_sim s' \<longrightarrow>
      process_ok MapScheduler map_evs idle_handlers s'"
    using mapq.passive_loop_ok [OF _ demo_inv idle_passive demo_no_context] by blast
  from map_list_equivalent [OF demo_inv l v e this s'] s' show ?thesis by blast
qed

text \<open>C8: \<^verbatim>\<open>SetScheduler\<close> moves every pending event, and nothing else, from the default scheduler
  into a \<^verbatim>\<open>HeapScheduler\<close>; the engine state is otherwise unchanged and its invariant holds again.\<close>

theorem SetScheduler_moves_events:
  assumes "sim_steps MapScheduler map_evs notify map_engine s"
  shows "\<exists>s'. sim_SetScheduler MapScheduler HeapScheduler heap_empty s = Some s' \<and>
    sim_inv heap_invar heap_events s' \<and> sim_view s' = sim_view s \<and>
    heap_events (m_events s') = map_evs (m_events s)"
proof -
  have "sim_inv map_invar map_evs s"
    using mapq.sim_steps_inv [OF assms mapq.initial_inv] by blast
  then show ?thesis by (rule map_heap.SetScheduler_ok)
qed

theorem SetScheduler_moves_events_witness:
  "\<exists>s'. sim_SetScheduler MapScheduler HeapScheduler heap_empty demo_sim = Some s' \<and>
    heap_events (m_events s') = {#demo_event#}"
  using SetScheduler_moves_events [OF demo_steps [of demo_handlers]] demo_pending by auto

end
