(* ===== verification/Calendar_Scheduler.thy ===== *)
theory Calendar_Scheduler
  imports List_Scheduler
begin

text \<open>
  \<^verbatim>\<open>CalendarScheduler\<close> (\<^verbatim>\<open>src/core/model/calendar-scheduler.cc\<close>): a hash table of sorted buckets, each a day of a
  calendar whose year is as long as all buckets. The next event is searched from the day of the last one; when the
  whole year holds none, the least first event of all buckets is taken. The number of buckets and the length of a day follow the
  number of events and a sample of their separation.
\<close>

section \<open>State and operations\<close>

record calendar =
  cal_buckets :: "event list list"
  cal_nBuckets :: u32
  cal_width :: u64
  cal_lastBucket :: u32
  cal_bucketTop :: u64
  cal_lastPrio :: u64
  cal_qSize :: u32
  cal_reverse :: bool

text \<open>The functions chosen by \<^verbatim>\<open>SetReverse\<close>.\<close>

definition NextEvent :: "bool \<Rightarrow> event list \<Rightarrow> event option" where
  "NextEvent reverse bucket = (if bucket = [] then None else if reverse then Some (last bucket) else Some (hd bucket))"

definition Order :: "bool \<Rightarrow> event_key \<Rightarrow> event_key \<Rightarrow> bool" where
  "Order reverse a b = (if reverse then key_greater a b else key_less a b)"

definition Pop :: "bool \<Rightarrow> event list \<Rightarrow> event list" where
  "Pop reverse bucket = (if reverse then butlast bucket else tl bucket)"

definition cal_SetReverse :: "bool \<Rightarrow> calendar \<Rightarrow> calendar" where
  "cal_SetReverse reverse c = c\<lparr>cal_reverse := reverse\<rparr>"

text \<open>A division by zero and an index outside the array are \<^term>\<open>None\<close>.\<close>

definition cal_Hash :: "u64 \<Rightarrow> calendar \<Rightarrow> u32 option" where
  "cal_Hash t c = (if cal_width c = 0 \<or> cal_nBuckets c = 0 then None
     else Some (ucast ((t div cal_width c) mod ucast (cal_nBuckets c))))"

definition cal_Init :: "u32 \<Rightarrow> u64 \<Rightarrow> u64 \<Rightarrow> calendar \<Rightarrow> calendar option" where
  "cal_Init nBuckets width startPrio c = do {
     let c1 = c\<lparr>cal_buckets := replicate (unat nBuckets) [], cal_nBuckets := nBuckets, cal_width := width, cal_lastPrio := startPrio\<rparr>;
     h \<leftarrow> cal_Hash startPrio c1;
     Some (c1\<lparr>cal_lastBucket := h, cal_bucketTop := (startPrio div width + 1) * width\<rparr>) }"

definition CalendarScheduler_new :: "bool \<Rightarrow> calendar option" where
  "CalendarScheduler_new reverse = do {
     c \<leftarrow> cal_Init 2 1 0 \<lparr>cal_buckets = [], cal_nBuckets = 0, cal_width = 0, cal_lastBucket = 0, cal_bucketTop = 0,
       cal_lastPrio = 0, cal_qSize = 0, cal_reverse = False\<rparr>;
     Some (cal_SetReverse reverse (c\<lparr>cal_qSize := 0\<rparr>)) }"

fun bucket_insert :: "bool \<Rightarrow> event \<Rightarrow> event list \<Rightarrow> event list" where
  "bucket_insert reverse ev [] = [ev]" |
  "bucket_insert reverse ev (i # bucket) =
     (if Order reverse (ev_key ev) (ev_key i) then ev # i # bucket else i # bucket_insert reverse ev bucket)"

definition cal_DoInsert :: "event \<Rightarrow> calendar \<Rightarrow> calendar option" where
  "cal_DoInsert ev c = do {
     h \<leftarrow> cal_Hash (ts ev) c;
     (if unat h < length (cal_buckets c)
      then Some (c\<lparr>cal_buckets := (cal_buckets c)[unat h := bucket_insert (cal_reverse c) ev (cal_buckets c ! unat h)]\<rparr>) else None) }"

definition cal_IsEmpty :: "calendar \<Rightarrow> bool" where
  "cal_IsEmpty c \<longleftrightarrow> cal_qSize c = 0"

text \<open>The search loops of \<^verbatim>\<open>PeekNext\<close> and \<^verbatim>\<open>DoRemoveNext\<close>. They visit every bucket at most once: the number of buckets is
  enough fuel.\<close>

fun peek_loop :: "nat \<Rightarrow> calendar \<Rightarrow> u32 \<Rightarrow> u64 \<Rightarrow> event \<Rightarrow> event option" where
  "peek_loop 0 c i bucketTop minEvent = None" |
  "peek_loop (Suc fuel) c i bucketTop minEvent =
     (if unat i < length (cal_buckets c) then
        (let i1 = (i + 1) mod cal_nBuckets c; top1 = bucketTop + cal_width c in
         case NextEvent (cal_reverse c) (cal_buckets c ! unat i) of
           None \<Rightarrow> if i1 \<noteq> cal_lastBucket c then peek_loop fuel c i1 top1 minEvent else Some minEvent
         | Some nxt \<Rightarrow>
             if ts nxt < bucketTop then Some nxt
             else let min1 = (if key_less (ev_key nxt) (ev_key minEvent) then nxt else minEvent) in
               if i1 \<noteq> cal_lastBucket c then peek_loop fuel c i1 top1 min1 else Some min1)
      else None)"

definition cal_PeekNext :: "calendar \<Rightarrow> event option" where
  "cal_PeekNext c = (if cal_IsEmpty c then None
     else peek_loop (unat (cal_nBuckets c)) c (cal_lastBucket c) (cal_bucketTop c)
       \<lparr>ev_impl = nullptr, ev_key = \<lparr>ek_ts = - 1, ek_uid = - 1, ek_context = 0\<rparr>\<rparr>)"

datatype found = This_Year u32 u64 event | Direct event_key "u32 option"

fun find_loop :: "nat \<Rightarrow> calendar \<Rightarrow> u32 \<Rightarrow> u64 \<Rightarrow> event_key \<Rightarrow> u32 option \<Rightarrow> found option" where
  "find_loop 0 c i bucketTop minKey minBucket = None" |
  "find_loop (Suc fuel) c i bucketTop minKey minBucket =
     (if unat i < length (cal_buckets c) then
        (let i1 = (i + 1) mod cal_nBuckets c; top1 = bucketTop + cal_width c in
         case NextEvent (cal_reverse c) (cal_buckets c ! unat i) of
           None \<Rightarrow> if i1 \<noteq> cal_lastBucket c then find_loop fuel c i1 top1 minKey minBucket else Some (Direct minKey minBucket)
         | Some nxt \<Rightarrow>
             if ts nxt < bucketTop then Some (This_Year i bucketTop nxt)
             else let (key1, bucket1) = (if key_less (ev_key nxt) minKey then (ev_key nxt, Some i) else (minKey, minBucket)) in
               if i1 \<noteq> cal_lastBucket c then find_loop fuel c i1 top1 key1 bucket1 else Some (Direct key1 bucket1))
      else None)"

definition pop_bucket :: "u32 \<Rightarrow> calendar \<Rightarrow> calendar" where
  "pop_bucket i c = c\<lparr>cal_buckets := (cal_buckets c)[unat i := Pop (cal_reverse c) (cal_buckets c ! unat i)]\<rparr>"

definition cal_DoRemoveNext :: "calendar \<Rightarrow> (event \<times> calendar) option" where
  "cal_DoRemoveNext c = (if cal_IsEmpty c then None else do {
     r \<leftarrow> find_loop (unat (cal_nBuckets c)) c (cal_lastBucket c) (cal_bucketTop c)
       \<lparr>ek_ts = - 1, ek_uid = 0, ek_context = 0xffffffff\<rparr> None;
     (case r of
        This_Year i t0 nxt \<Rightarrow> Some (nxt, pop_bucket i (c\<lparr>cal_lastBucket := i, cal_lastPrio := ts nxt, cal_bucketTop := t0\<rparr>))
      | Direct minKey minBucket \<Rightarrow> do {
          h \<leftarrow> cal_Hash (ek_ts minKey) c;
          let c1 = c\<lparr>cal_lastPrio := ek_ts minKey, cal_lastBucket := h,
            cal_bucketTop := (ek_ts minKey div cal_width c + 1) * cal_width c\<rparr>;
          i \<leftarrow> minBucket;
          nxt \<leftarrow> NextEvent (cal_reverse c) (cal_buckets c ! unat i);
          Some (nxt, pop_bucket i c1) }) })"

text \<open>The new width: the separation of a sample of events, taken out and put back.\<close>

fun take_samples :: "nat \<Rightarrow> calendar \<Rightarrow> (event list \<times> calendar) option" where
  "take_samples 0 c = Some ([], c)" |
  "take_samples (Suc k) c = do { (ev, c1) \<leftarrow> cal_DoRemoveNext c; (evs, c2) \<leftarrow> take_samples k c1; Some (ev # evs, c2) }"

fun insert_all :: "event list \<Rightarrow> calendar \<Rightarrow> calendar option" where
  "insert_all [] c = Some c" |
  "insert_all (ev # evs) c = do { c1 \<leftarrow> cal_DoInsert ev c; insert_all evs c1 }"

fun separations :: "event list \<Rightarrow> u64 list" where
  "separations (cur # nxt # evs) = (ts nxt - ts cur) # separations (nxt # evs)" |
  "separations _ = []"

definition cal_nSamples :: "u32 \<Rightarrow> u32" where
  "cal_nSamples qSize = (let n = (if qSize \<le> 5 then qSize else 5 + qSize div 10) in if n > 25 then 25 else n)"

definition cal_CalculateNewWidth :: "calendar \<Rightarrow> (u64 \<times> calendar) option" where
  "cal_CalculateNewWidth c = (if cal_qSize c < 2 then Some (1, c) else do {
     let nSamples = cal_nSamples (cal_qSize c);
     (samples, c1) \<leftarrow> take_samples (unat nSamples) c;
     c2 \<leftarrow> insert_all samples c1;
     let c3 = c2\<lparr>cal_lastBucket := cal_lastBucket c, cal_bucketTop := cal_bucketTop c, cal_lastPrio := cal_lastPrio c\<rparr>;
     let twiceAvg = sum_list (separations samples) div ucast (nSamples - 1) * 2;
     let totalSeparation = sum_list (filter (\<lambda>d. d \<le> twiceAvg) (separations samples));
     Some (max (totalSeparation * 3) 1, c3) })"

definition cal_DoResize :: "u32 \<Rightarrow> u64 \<Rightarrow> calendar \<Rightarrow> calendar option" where
  "cal_DoResize newSize newWidth c = do {
     c1 \<leftarrow> cal_Init newSize newWidth (cal_lastPrio c) c;
     insert_all (concat (cal_buckets c)) c1 }"

definition cal_Resize :: "u32 \<Rightarrow> calendar \<Rightarrow> calendar option" where
  "cal_Resize newSize c = do { (newWidth, c1) \<leftarrow> cal_CalculateNewWidth c; cal_DoResize newSize newWidth c1 }"

definition cal_ResizeUp :: "calendar \<Rightarrow> calendar option" where
  "cal_ResizeUp c = (if cal_qSize c > cal_nBuckets c * 2 \<and> cal_nBuckets c < 32768 then cal_Resize (cal_nBuckets c * 2) c else Some c)"

definition cal_ResizeDown :: "calendar \<Rightarrow> calendar option" where
  "cal_ResizeDown c = (if cal_qSize c < cal_nBuckets c div 2 then cal_Resize (cal_nBuckets c div 2) c else Some c)"

definition cal_Insert :: "event \<Rightarrow> calendar \<Rightarrow> calendar option" where
  "cal_Insert ev c = do { c1 \<leftarrow> cal_DoInsert ev c; cal_ResizeUp (c1\<lparr>cal_qSize := cal_qSize c1 + 1\<rparr>) }"

definition cal_RemoveNext :: "calendar \<Rightarrow> (event \<times> calendar) option" where
  "cal_RemoveNext c = (if cal_IsEmpty c then None else do {
     (ev, c1) \<leftarrow> cal_DoRemoveNext c;
     c2 \<leftarrow> cal_ResizeDown (c1\<lparr>cal_qSize := cal_qSize c1 - 1\<rparr>);
     Some (ev, c2) })"

definition cal_Remove :: "event \<Rightarrow> calendar \<Rightarrow> calendar option" where
  "cal_Remove ev c = (if cal_IsEmpty c then None else do {
     h \<leftarrow> cal_Hash (ts ev) c;
     (if unat h < length (cal_buckets c) then do {
        b \<leftarrow> list_Remove ev (cal_buckets c ! unat h);
        cal_ResizeDown (c\<lparr>cal_buckets := (cal_buckets c)[unat h := b], cal_qSize := cal_qSize c - 1\<rparr>) }
      else None) })"

definition CalendarScheduler :: "calendar scheduler" where
  "CalendarScheduler = \<lparr>op_Insert = cal_Insert, op_IsEmpty = cal_IsEmpty, op_PeekNext = cal_PeekNext,
     op_RemoveNext = cal_RemoveNext, op_Remove = cal_Remove\<rparr>"

end
