(* ===== verification/Calendar_Search.thy ===== *)
theory Calendar_Search
  imports Calendar_Scheduler
begin

text \<open>
  The invariant of the calendar, and that the search finds the least event although the year wraps around the buckets and the end of
  a day may wrap around the range of times.
\<close>

section \<open>Buckets\<close>

definition chron :: "bool \<Rightarrow> event list \<Rightarrow> event list" where
  "chron reverse b = (if reverse then rev b else b)"

definition bucket_sorted :: "bool \<Rightarrow> event list \<Rightarrow> bool" where
  "bucket_sorted reverse b \<longleftrightarrow> sorted (map rank (chron reverse b))"

lemma NextEvent_chron: "NextEvent r b = (if b = [] then None else Some (hd (chron r b)))"
  by (simp add: NextEvent_def chron_def hd_rev)

lemma chron_set [simp]: "set (chron r b) = set b"
  by (simp add: chron_def)

lemma NextEvent_None [simp]: "NextEvent r b = None \<longleftrightarrow> b = []" "NextEvent r [] = None"
  by (simp_all add: NextEvent_def)

lemma NextEvent_least:
  assumes "bucket_sorted r b" and "NextEvent r b = Some e"
  shows "e \<in> set b" "x \<in> set b \<Longrightarrow> rank e \<le> rank x"
proof -
  have "b \<noteq> []" using assms(2) by (simp add: NextEvent_def split: if_splits)
  then obtain y ys where c: "chron r b = y # ys" by (cases "chron r b") (auto simp: chron_def split: if_splits)
  then have y: "e = y" using assms(2) by (simp add: NextEvent_chron split: if_splits)
  then show "e \<in> set b" using c chron_set [of r b] by auto
  show "rank e \<le> rank x" if "x \<in> set b"
    using assms(1) that c y chron_set [of r b] by (auto simp: bucket_sorted_def)
qed

lemma Pop_ok:
  assumes "bucket_sorted r b" and "NextEvent r b = Some e"
  shows "bucket_sorted r (Pop r b)" "mset (Pop r b) = mset b - {#e#}" "set (Pop r b) \<subseteq> set b"
proof -
  have "b \<noteq> []" using assms(2) by (simp add: NextEvent_def split: if_splits)
  then have "chron r (Pop r b) = tl (chron r b)" by (cases b rule: rev_cases) (auto simp: chron_def Pop_def)
  then show "bucket_sorted r (Pop r b)" using assms(1) by (simp add: bucket_sorted_def map_tl sorted_tl)
  show "mset (Pop r b) = mset b - {#e#}"
  proof (cases r)
    case True
    then show ?thesis using assms(2) \<open>b \<noteq> []\<close> by (cases b rule: rev_cases) (auto simp: NextEvent_def Pop_def)
  next
    case False
    then show ?thesis using assms(2) \<open>b \<noteq> []\<close> by (cases b) (auto simp: NextEvent_def Pop_def)
  qed
  show "set (Pop r b) \<subseteq> set b" by (cases b) (auto simp: Pop_def dest: in_set_butlastD)
qed

lemma bucket_insert_mset [simp]: "mset (bucket_insert r ev b) = add_mset ev (mset b)" "set (bucket_insert r ev b) = insert ev (set b)"
  by (induction b) auto

lemma bucket_insert_sorted:
  assumes "bucket_sorted r b"
  shows "bucket_sorted r (bucket_insert r ev b)"
proof (cases r)
  case False
  have "bucket_insert False ev b = list_Insert ev b" by (induction b) (auto simp: Order_def)
  then show ?thesis using False assms sorted_list_Insert by (simp add: bucket_sorted_def chron_def)
next
  case True
  have "sorted_wrt (\<lambda>x y. rank y \<le> rank x) b \<Longrightarrow> sorted_wrt (\<lambda>x y. rank y \<le> rank x) (bucket_insert True ev b)"
    by (induction b) (auto simp: Order_def sim_simps)
  then show ?thesis using True assms by (simp add: bucket_sorted_def chron_def sorted_map sorted_wrt_rev)
qed

section \<open>The invariant\<close>

definition day :: "calendar \<Rightarrow> event \<Rightarrow> nat" where
  "day c e = unat (ts e) div unat (cal_width c)"

definition today :: "calendar \<Rightarrow> nat" where
  "today c = unat (cal_lastPrio c) div unat (cal_width c)"

definition bucket_of_day :: "calendar \<Rightarrow> nat \<Rightarrow> nat" where
  "bucket_of_day c d = d mod unat (cal_nBuckets c)"

definition cal_events :: "calendar \<Rightarrow> event multiset" where
  "cal_events c = mset (concat (cal_buckets c))"

text \<open>The buckets are sorted, and every event lies in the bucket of its day. Time stamps are below the largest number, which the search
  uses as its sentinel.\<close>

definition buckets_ok :: "calendar \<Rightarrow> bool" where
  "buckets_ok c \<longleftrightarrow> 0 < unat (cal_nBuckets c) \<and> 0 < unat (cal_width c) \<and> length (cal_buckets c) = unat (cal_nBuckets c) \<and>
     (\<forall>j < unat (cal_nBuckets c). bucket_sorted (cal_reverse c) (cal_buckets c ! j) \<and>
       (\<forall>e\<in>set (cal_buckets c ! j). bucket_of_day c (day c e) = j \<and> ts e \<noteq> - 1))"

text \<open>The search starts on the day of the last event, and no event is before it.\<close>

definition cal_ok :: "calendar \<Rightarrow> bool" where
  "cal_ok c \<longleftrightarrow> buckets_ok c \<and> unat (cal_lastBucket c) = bucket_of_day c (today c) \<and>
     cal_bucketTop c = of_nat ((today c + 1) * unat (cal_width c)) \<and> (\<forall>e\<in>#cal_events c. cal_lastPrio c \<le> ts e)"

definition cal_inv :: "calendar \<Rightarrow> bool" where
  "cal_inv c \<longleftrightarrow> cal_ok c \<and> unat (cal_qSize c) = size (cal_events c)"

lemma cal_events_member: "e \<in># cal_events c \<longleftrightarrow> (\<exists>j < length (cal_buckets c). e \<in> set (cal_buckets c ! j))"
  by (auto simp: cal_events_def in_set_conv_nth) (metis nth_mem)+

lemma event_bucket:
  assumes "buckets_ok c" and "e \<in># cal_events c"
  shows "bucket_of_day c (day c e) < length (cal_buckets c)" "e \<in> set (cal_buckets c ! bucket_of_day c (day c e))" "ts e \<noteq> - 1"
  using assms unfolding buckets_ok_def by (auto simp: cal_events_member)

lemma cal_Hash_ok:
  assumes "0 < unat (cal_nBuckets c)" and "0 < unat (cal_width c)"
  shows "\<exists>h. cal_Hash t c = Some h \<and> unat h = bucket_of_day c (unat t div unat (cal_width c))"
proof -
  let ?n = "unat (cal_nBuckets c)"
  have n: "?n < 2 ^ 32" using unsigned_less [of "cal_nBuckets c", where 'a = nat] by simp
  have u: "unat (ucast (cal_nBuckets c) :: u64) = ?n" using n by (simp add: unsigned_ucast_eq take_bit_nat_eq_self)
  have "unat ((t div cal_width c) mod ucast (cal_nBuckets c)) = (unat t div unat (cal_width c)) mod ?n" by (simp add: unat_div unat_mod u)
  moreover have "\<dots> < 2 ^ 32" using assms(1) n by (meson mod_less_divisor order.strict_trans)
  ultimately have "unat (ucast ((t div cal_width c) mod ucast (cal_nBuckets c)) :: u32) = (unat t div unat (cal_width c)) mod ?n"
    by (simp add: unsigned_ucast_eq take_bit_nat_eq_self)
  moreover have "cal_width c \<noteq> 0" "cal_nBuckets c \<noteq> 0" using assms by auto
  ultimately show ?thesis by (simp add: cal_Hash_def bucket_of_day_def)
qed

section \<open>The search\<close>

definition bucket_at :: "calendar \<Rightarrow> nat \<Rightarrow> event list" where
  "bucket_at c j = cal_buckets c ! bucket_of_day c (today c + j)"

definition top_at :: "calendar \<Rightarrow> nat \<Rightarrow> u64" where
  "top_at c j = of_nat ((today c + 1 + j) * unat (cal_width c))"

lemma mod_window:
  fixes n :: nat
  assumes "j < n" and "i \<le> j" and "(d + i) mod n = (d + j) mod n"
  shows "i = j"
proof (rule ccontr)
  assume "i \<noteq> j"
  have "n dvd (d + j) - (d + i)" using assms(3) by (metis mod_eq_dvd_iff_nat assms(2) add_le_cancel_left)
  then have "n dvd j - i" by simp
  then show False using assms(1,2) \<open>i \<noteq> j\<close> by (auto dest: dvd_imp_le)
qed

lemma today_le_day:
  assumes "cal_ok c" and "e \<in># cal_events c"
  shows "today c \<le> day c e"
  using assms by (auto simp: cal_ok_def today_def day_def word_le_nat_alt intro: div_le_mono)

lemma top_at_le: "unat (top_at c j) \<le> (today c + 1 + j) * unat (cal_width c)"
  unfolding top_at_def by (simp only: unsigned_of_nat take_bit_eq_mod of_nat_id mod_less_eq_dividend)

lemma day_bounds:
  assumes "buckets_ok c"
  shows "day c e * unat (cal_width c) \<le> unat (ts e)" "unat (ts e) < (day c e + 1) * unat (cal_width c)"
  using assms dividend_less_div_times [of "unat (cal_width c)" "unat (ts e)"] by (auto simp: day_def buckets_ok_def)

text \<open>An event of the bucket before the end of the day is of that day, even if the end of the day has wrapped around; an event of that
  day is only missed when it has.\<close>

lemma hit_day:
  assumes ok: "cal_ok c" and j: "j < unat (cal_nBuckets c)" and e: "e \<in> set (bucket_at c j)" and t: "ts e < top_at c j"
  shows "day c e = today c + j"
proof -
  let ?n = "unat (cal_nBuckets c)"
  have B: "buckets_ok c" using ok by (simp add: cal_ok_def)
  have m: "bucket_of_day c (today c + j) < ?n" "length (cal_buckets c) = ?n" using B by (auto simp: buckets_ok_def bucket_of_day_def)
  then have "e \<in># cal_events c" using e by (auto simp: cal_events_member bucket_at_def)
  from today_le_day [OF ok this] obtain i where i: "day c e = today c + i" by (metis le_Suc_ex)
  have "day c e * unat (cal_width c) < (today c + 1 + j) * unat (cal_width c)"
    using day_bounds(1) [OF B, of e] t top_at_le [of c j] by (simp add: word_less_nat_alt)
  then have "i \<le> j" using i by (simp only: mult_less_cancel2) linarith
  moreover have "(today c + i) mod ?n = (today c + j) mod ?n"
    using B m e i unfolding buckets_ok_def bucket_at_def bucket_of_day_def by metis
  ultimately show ?thesis using mod_window [OF j, of i "today c"] i by simp
qed

lemma missed_day:
  assumes "buckets_ok c" and "day c e = today c + j" and "\<not> ts e < top_at c j"
  shows "2 ^ 64 \<le> (today c + 1 + j) * unat (cal_width c)"
proof (rule ccontr)
  assume "\<not> ?thesis"
  then have "unat (top_at c j) = (today c + 1 + j) * unat (cal_width c)"
    unfolding top_at_def by (simp only: unsigned_of_nat) (simp add: take_bit_nat_eq_self del: mult_Suc)
  then show False using assms(2,3) day_bounds(2) [OF assms(1), of e] by (simp add: word_less_nat_alt not_less)
qed

text \<open>What the search knows after some buckets: all are after their day, and the least of their first events.\<close>

definition missed :: "calendar \<Rightarrow> nat \<Rightarrow> bool" where
  "missed c j \<longleftrightarrow> (\<forall>i<j. \<forall>h. NextEvent (cal_reverse c) (bucket_at c i) = Some h \<longrightarrow> \<not> ts h < top_at c i)"

definition best :: "calendar \<Rightarrow> nat \<Rightarrow> event_key \<Rightarrow> u32 option \<Rightarrow> bool" where
  "best c j k b \<longleftrightarrow> (case b of
     None \<Rightarrow> ek_ts k = - 1 \<and> (\<forall>i<j. bucket_at c i = [])
   | Some i \<Rightarrow> unat i < unat (cal_nBuckets c) \<and> (\<exists>h. NextEvent (cal_reverse c) (cal_buckets c ! unat i) = Some h \<and> k = ev_key h \<and>
       (\<forall>i'<j. \<forall>h'. NextEvent (cal_reverse c) (bucket_at c i') = Some h' \<longrightarrow> rank h \<le> rank h')))"

lemma best_step:
  assumes "best c j k b" and "NextEvent (cal_reverse c) (bucket_at c j) = Some e" and "ts e \<noteq> - 1"
    and "unat i = bucket_of_day c (today c + j)" and "unat i < unat (cal_nBuckets c)"
  shows "key_less (ev_key e) k \<Longrightarrow> best c (Suc j) (ev_key e) (Some i)" "\<not> key_less (ev_key e) k \<Longrightarrow> best c (Suc j) k b"
proof -
  have s: "ts e < - 1" using assms(3) by (simp add: less_le)
  show "best c (Suc j) (ev_key e) (Some i)" if "key_less (ev_key e) k"
    using assms that unfolding best_def by (auto simp: less_Suc_eq bucket_at_def sim_simps split: option.splits) force?
  show "best c (Suc j) k b" if "\<not> key_less (ev_key e) k"
    using assms(1,2) that s unfolding best_def
    by (auto simp: less_Suc_eq key_less_rank key_rank_def split: option.splits)
qed

lemma best_skip: "best c j k b \<Longrightarrow> bucket_at c j = [] \<Longrightarrow> best c (Suc j) k b"
  unfolding best_def by (auto simp: less_Suc_eq split: option.splits)

lemma missed_step: "missed c j \<Longrightarrow> \<forall>h. NextEvent (cal_reverse c) (bucket_at c j) = Some h \<longrightarrow> \<not> ts h < top_at c j \<Longrightarrow> missed c (Suc j)"
  unfolding missed_def by (auto simp: less_Suc_eq)

text \<open>The next bucket.\<close>

lemma next_bucket:
  assumes ok: "cal_ok c" and j: "j < unat (cal_nBuckets c)" and i: "unat i = bucket_of_day c (today c + j)"
  shows "unat ((i + 1) mod cal_nBuckets c) = bucket_of_day c (today c + Suc j)"
    "(i + 1) mod cal_nBuckets c \<noteq> cal_lastBucket c \<longleftrightarrow> Suc j < unat (cal_nBuckets c)"
    "top_at c j + cal_width c = top_at c (Suc j)"
proof -
  let ?n = "unat (cal_nBuckets c)"
  have n: "0 < ?n" "unat i < ?n" using j i by (auto simp: bucket_of_day_def)
  then have "i < cal_nBuckets c" by (simp add: word_less_nat_alt)
  then have "i \<noteq> - 1" by auto
  then have "unat (i + 1) = Suc (unat i)" by (rule unat_Suc_no_wrap)
  then show u: "unat ((i + 1) mod cal_nBuckets c) = bucket_of_day c (today c + Suc j)"
    using i by (simp add: unat_mod bucket_of_day_def mod_Suc_eq)
  have "unat (cal_lastBucket c) = bucket_of_day c (today c)" using ok by (simp add: cal_ok_def)
  then have "(i + 1) mod cal_nBuckets c = cal_lastBucket c \<longleftrightarrow> (today c + 0) mod ?n = (today c + Suc j) mod ?n"
    using u by (auto simp: word_unat_eq_iff bucket_of_day_def)
  moreover have "(today c + 0) mod ?n = (today c + Suc j) mod ?n \<longleftrightarrow> Suc j = ?n"
    using mod_window [of "Suc j" ?n 0 "today c"] j by (cases "Suc j = ?n") auto
  ultimately show "(i + 1) mod cal_nBuckets c \<noteq> cal_lastBucket c \<longleftrightarrow> Suc j < ?n" using j by auto
  show "top_at c j + cal_width c = top_at c (Suc j)" by (simp add: top_at_def algebra_simps)
qed

text \<open>The search over the rest of the year. The peeking search follows it.\<close>

definition search_result :: "calendar \<Rightarrow> found \<Rightarrow> bool" where
  "search_result c r \<longleftrightarrow> (case r of
     This_Year i t e \<Rightarrow> (\<exists>j < unat (cal_nBuckets c). unat i = bucket_of_day c (today c + j) \<and> t = top_at c j \<and>
       NextEvent (cal_reverse c) (bucket_at c j) = Some e \<and> ts e < t \<and> missed c j)
   | Direct k b \<Rightarrow> best c (unat (cal_nBuckets c)) k b)"

definition same_search :: "calendar \<Rightarrow> found \<Rightarrow> event \<Rightarrow> bool" where
  "same_search c r m \<longleftrightarrow> (case r of
     This_Year i t e \<Rightarrow> m = e
   | Direct k b \<Rightarrow> (case b of None \<Rightarrow> ts m = - 1 | Some i \<Rightarrow> NextEvent (cal_reverse c) (cal_buckets c ! unat i) = Some m \<and> k = ev_key m))"

lemma find_loop_ok:
  assumes ok: "cal_ok c" and "j < unat (cal_nBuckets c)" and "unat i = bucket_of_day c (today c + j)"
    and "best c j k b" and "missed c j" and "same_search c (Direct k b) m"
  shows "\<exists>r m'. find_loop (unat (cal_nBuckets c) - j) c i (top_at c j) k b = Some r \<and> search_result c r \<and>
    peek_loop (unat (cal_nBuckets c) - j) c i (top_at c j) m = Some m' \<and> same_search c r m'"
  using assms(2-)
proof (induction "unat (cal_nBuckets c) - j" arbitrary: j i k b m)
  case (Suc f)
  let ?n = "unat (cal_nBuckets c)"
  note j = Suc.prems(1) and i = Suc.prems(2)
  have B: "buckets_ok c" using ok by (simp add: cal_ok_def)
  have fuel: "?n - j = Suc (?n - Suc j)" using j by simp
  have il: "unat i < length (cal_buckets c)" "unat i < ?n" "cal_buckets c ! unat i = bucket_at c j"
    using B i by (auto simp: buckets_ok_def bucket_of_day_def bucket_at_def)
  note nx = next_bucket [OF ok j i]
  have go: "\<exists>r m'. (if Suc j < ?n then find_loop (?n - Suc j) c ((i + 1) mod cal_nBuckets c) (top_at c (Suc j)) k1 b1 else Some (Direct k1 b1)) = Some r \<and>
      search_result c r \<and>
      (if Suc j < ?n then peek_loop (?n - Suc j) c ((i + 1) mod cal_nBuckets c) (top_at c (Suc j)) m1 else Some m1) = Some m' \<and> same_search c r m'"
    if "best c (Suc j) k1 b1" "missed c (Suc j)" "same_search c (Direct k1 b1) m1" for k1 b1 m1
  proof (cases "Suc j < ?n")
    case True
    then show ?thesis using Suc.hyps(1) [of "Suc j", OF _ True nx(1) that] Suc.hyps(2) by simp
  next
    case False
    then have "Suc j = ?n" using j by simp
    then show ?thesis using that by (simp add: search_result_def)
  qed
  show ?case
  proof (cases "NextEvent (cal_reverse c) (bucket_at c j)")
    case None
    then have "best c (Suc j) k b" "missed c (Suc j)" using best_skip missed_step Suc.prems(3,4) by auto
    from go [OF this Suc.prems(5)] show ?thesis using None il nx(2,3) unfolding fuel by (simp add: Let_def)
  next
    case (Some e)
    show ?thesis
    proof (cases "ts e < top_at c j")
      case True
      then show ?thesis using Some il j i Suc.prems(4) unfolding fuel
        by (auto simp: search_result_def same_search_def)
    next
      case False
      have "bucket_sorted (cal_reverse c) (bucket_at c j)" "\<forall>e\<in>set (bucket_at c j). ts e \<noteq> - 1"
        using B il unfolding buckets_ok_def by metis+
      then have s: "ts e \<noteq> - 1" using NextEvent_least(1) [OF _ Some] by blast
      have ms: "missed c (Suc j)" using missed_step [OF Suc.prems(4)] Some False by simp
      have "ts e < - 1" using s by (simp add: less_le)
      then have kk: "key_less (ev_key e) k \<longleftrightarrow> key_less (ev_key e) (ev_key m)"
        using Suc.prems(3,5) by (cases b) (auto simp: same_search_def best_def key_less_rank key_rank_def)
      show ?thesis
      proof (cases "key_less (ev_key e) k")
        case True
        have "same_search c (Direct (ev_key e) (Some i)) e" using Some il by (simp add: same_search_def)
        from go [OF best_step(1) [OF Suc.prems(3) Some s i il(2) True] ms this] show ?thesis
          using Some False True kk il nx(2,3) unfolding fuel by (simp add: Let_def)
      next
        case no: False
        from go [OF best_step(2) [OF Suc.prems(3) Some s i il(2) no] ms Suc.prems(5)] show ?thesis
          using Some False no kk il nx(2,3) unfolding fuel by (simp add: Let_def)
      qed
    qed
  qed
qed simp

text \<open>What the search finds is the least event.\<close>

lemma bucket_at_cover:
  assumes "cal_ok c" and "e \<in># cal_events c"
  shows "\<exists>j < unat (cal_nBuckets c). e \<in> set (bucket_at c j) \<and> (day c e < today c + unat (cal_nBuckets c) \<longrightarrow> day c e = today c + j)"
proof -
  let ?n = "unat (cal_nBuckets c)"
  have B: "buckets_ok c" "0 < ?n" using assms(1) by (auto simp: cal_ok_def buckets_ok_def)
  obtain i where i: "day c e = today c + i" using today_le_day [OF assms] by (metis le_Suc_ex)
  have "bucket_of_day c (today c + i mod ?n) = bucket_of_day c (day c e)" by (simp add: bucket_of_day_def i mod_add_right_eq)
  then have "e \<in> set (bucket_at c (i mod ?n))" using event_bucket(2) [OF B(1) assms(2)] by (simp add: bucket_at_def)
  then show ?thesis using B(2) i by (intro exI [of _ "i mod ?n"]) auto
qed

lemma this_year_least:
  assumes ok: "cal_ok c" and j: "j < unat (cal_nBuckets c)" and e: "NextEvent (cal_reverse c) (bucket_at c j) = Some e" "ts e < top_at c j"
    and m: "missed c j" and x: "x \<in># cal_events c"
  shows "e \<in># cal_events c \<and> day c e = today c + j \<and> rank e \<le> rank x"
proof -
  let ?n = "unat (cal_nBuckets c)" and ?w = "unat (cal_width c)"
  have B: "buckets_ok c" using ok by (simp add: cal_ok_def)
  have bs: "bucket_sorted (cal_reverse c) (bucket_at c i)" "bucket_of_day c (today c + i) < length (cal_buckets c)" for i
    using B by (auto simp: buckets_ok_def bucket_at_def bucket_of_day_def)
  have in_b: "y \<in># cal_events c" if "y \<in> set (bucket_at c i)" for y i using that bs(2) [of i] by (auto simp: bucket_at_def cal_events_member)
  have eb: "e \<in> set (bucket_at c j)" by (rule NextEvent_least(1) [OF bs(1) e(1)])
  have de: "day c e = today c + j" by (rule hit_day [OF ok j eb e(2)])
  have "rank e \<le> rank x"
  proof (rule ccontr)
    assume "\<not> rank e \<le> rank x"
    then have less: "rank x < rank e" by simp
    then have "ts x \<le> ts e" using rank_le_ts [of x e] by simp
    then have dx: "day c x \<le> day c e" by (auto simp: day_def word_le_nat_alt intro: div_le_mono)
    then obtain i where i: "i < ?n" "x \<in> set (bucket_at c i)" "day c x = today c + i"
      using bucket_at_cover [OF ok x] de j by auto
    then obtain h where h: "NextEvent (cal_reverse c) (bucket_at c i) = Some h" by (cases "NextEvent (cal_reverse c) (bucket_at c i)") auto
    have hx: "rank h \<le> rank x" "h \<in> set (bucket_at c i)" using NextEvent_least [OF bs(1) h] i(2) by auto
    show False
    proof (cases "i = j")
      case True
      then show False using h e(1) hx(1) less by simp
    next
      case False
      then have ij: "i < j" using dx de i(3) by simp
      have "day c h \<le> day c x" using rank_le_ts [OF hx(1)] by (auto simp: day_def word_le_nat_alt intro: div_le_mono)
      moreover obtain i' where i': "day c h = today c + i'" using today_le_day [OF ok in_b [OF hx(2)]] by (metis le_Suc_ex)
      moreover have "bucket_of_day c (day c h) = bucket_of_day c (today c + i)"
        using B hx(2) bs(2) [of i] unfolding buckets_ok_def bucket_at_def by metis
      ultimately have "day c h = today c + i"
        using mod_window [OF i(1), of i' "today c"] i(3) by (simp add: bucket_of_day_def)
      moreover have "\<not> ts h < top_at c i" using m ij h by (auto simp: missed_def)
      ultimately have "2 ^ 64 \<le> (today c + 1 + i) * ?w" by (rule missed_day [OF B])
      also have "\<dots> \<le> day c e * ?w" using ij de by (intro mult_right_mono) auto
      also have "\<dots> \<le> unat (ts e)" by (rule day_bounds(1) [OF B])
      finally show False using unsigned_less [of "ts e", where 'a = nat] by simp
    qed
  qed
  then show ?thesis using in_b [OF eb] de by simp
qed

lemma direct_least:
  assumes ok: "cal_ok c" and b: "best c (unat (cal_nBuckets c)) k b" and ne: "cal_events c \<noteq> {#}"
  shows "\<exists>i e. b = Some i \<and> unat i < unat (cal_nBuckets c) \<and> NextEvent (cal_reverse c) (cal_buckets c ! unat i) = Some e \<and>
    k = ev_key e \<and> e \<in># cal_events c \<and> (\<forall>x\<in>#cal_events c. rank e \<le> rank x)"
proof -
  let ?n = "unat (cal_nBuckets c)"
  have B: "buckets_ok c" using ok by (simp add: cal_ok_def)
  have bs: "bucket_sorted (cal_reverse c) (bucket_at c i)" for i
    using B by (auto simp: buckets_ok_def bucket_at_def bucket_of_day_def)
  obtain y where "y \<in># cal_events c" using ne by blast
  then obtain j where "j < ?n" "y \<in> set (bucket_at c j)" using bucket_at_cover [OF ok] by blast
  then have "\<not> (\<forall>i<?n. bucket_at c i = [])" by auto
  then obtain i e where i: "b = Some i" "unat i < ?n" "NextEvent (cal_reverse c) (cal_buckets c ! unat i) = Some e" "k = ev_key e"
    "\<forall>i'<?n. \<forall>h'. NextEvent (cal_reverse c) (bucket_at c i') = Some h' \<longrightarrow> rank e \<le> rank h'"
    using b by (auto simp: best_def split: option.splits)
  have "bucket_sorted (cal_reverse c) (cal_buckets c ! unat i)" using B i(2) by (simp add: buckets_ok_def)
  from NextEvent_least(1) [OF this i(3)] have "e \<in># cal_events c" using B i(2) by (auto simp: cal_events_member buckets_ok_def)
  moreover have "rank e \<le> rank x" if x: "x \<in># cal_events c" for x
  proof -
    obtain j where j: "j < ?n" "x \<in> set (bucket_at c j)" using bucket_at_cover [OF ok x] by blast
    then obtain h where h: "NextEvent (cal_reverse c) (bucket_at c j) = Some h" by (cases "NextEvent (cal_reverse c) (bucket_at c j)") auto
    then show ?thesis using i(5) j NextEvent_least(2) [OF bs h j(2)] by (meson order_trans)
  qed
  ultimately show ?thesis using i by blast
qed

text \<open>Taking the first event of a bucket away.\<close>

lemma concat_update:
  assumes "i < length bs" and "mset b = mset (bs ! i) - {#e#}" and "e \<in> set (bs ! i)"
  shows "mset (concat (bs[i := b])) = mset (concat bs) - {#e#}"
proof -
  have "bs = take i bs @ bs ! i # drop (Suc i) bs" using id_take_nth_drop [OF assms(1)] .
  then have "mset (concat bs) = mset (concat (take i bs)) + mset (bs ! i) + mset (concat (drop (Suc i) bs))"
    by (metis concat.simps(2) concat_append mset_append add.assoc)
  moreover have "mset (concat (bs[i := b])) = mset (concat (take i bs)) + mset b + mset (concat (drop (Suc i) bs))"
    using assms(1) by (simp add: upd_conv_take_nth_drop)
  moreover obtain Z where "mset (bs ! i) = add_mset e Z" using assms(3) by (metis mset_add set_mset_mset)
  ultimately show ?thesis using assms(2) by simp
qed

lemma buckets_ok_update:
  assumes "buckets_ok c" and "i < length (cal_buckets c)" and "bucket_sorted (cal_reverse c) b"
    and "\<forall>e\<in>set b. bucket_of_day c (day c e) = i \<and> ts e \<noteq> - 1"
  shows "buckets_ok (c\<lparr>cal_buckets := (cal_buckets c)[i := b]\<rparr>)"
  using assms unfolding buckets_ok_def by (auto simp: nth_list_update day_def bucket_of_day_def)

lemma buckets_ok_cong:
  "buckets_ok (c\<lparr>cal_lastBucket := a\<rparr>) = buckets_ok c" "buckets_ok (c\<lparr>cal_lastPrio := p\<rparr>) = buckets_ok c"
  "buckets_ok (c\<lparr>cal_bucketTop := t\<rparr>) = buckets_ok c" "buckets_ok (c\<lparr>cal_qSize := q\<rparr>) = buckets_ok c"
  by (simp_all add: buckets_ok_def day_def bucket_of_day_def)

text \<open>A calendar of the same shape: only events, day and counter may differ.\<close>

definition same_shape :: "calendar \<Rightarrow> calendar \<Rightarrow> bool" where
  "same_shape c c' \<longleftrightarrow> cal_nBuckets c' = cal_nBuckets c \<and> cal_width c' = cal_width c \<and> cal_qSize c' = cal_qSize c \<and>
     cal_reverse c' = cal_reverse c"

lemma DoRemoveNext_ok:
  assumes ok: "cal_ok c" and ne: "cal_events c \<noteq> {#}" and q: "cal_qSize c \<noteq> 0"
  shows "\<exists>e c'. cal_DoRemoveNext c = Some (e, c') \<and> cal_PeekNext c = Some e \<and> e \<in># cal_events c \<and> (\<forall>x\<in>#cal_events c. rank e \<le> rank x) \<and>
    cal_events c' = cal_events c - {#e#} \<and> cal_ok c' \<and> cal_lastPrio c' = ts e \<and> same_shape c c'"
proof -
  let ?n = "unat (cal_nBuckets c)"
  have B: "buckets_ok c" and l: "unat (cal_lastBucket c) = bucket_of_day c (today c)" "cal_bucketTop c = top_at c 0"
    using ok by (auto simp: cal_ok_def top_at_def)
  have n: "0 < ?n" "length (cal_buckets c) = ?n" using B by (auto simp: buckets_ok_def)
  have empty: "\<not> cal_IsEmpty c" using q by (simp add: cal_IsEmpty_def)
  let ?k = "\<lparr>ek_ts = - 1, ek_uid = 0, ek_context = 0xffffffff\<rparr>" and ?m = "\<lparr>ev_impl = nullptr, ev_key = \<lparr>ek_ts = - 1, ek_uid = - 1, ek_context = 0\<rparr>\<rparr>"
  have "best c 0 ?k None" "missed c 0" "same_search c (Direct ?k None) ?m" by (simp_all add: best_def missed_def same_search_def)
  from find_loop_ok [OF ok n(1) _ this, of "cal_lastBucket c"] l obtain r m' where
    r: "find_loop ?n c (cal_lastBucket c) (cal_bucketTop c) ?k None = Some r" "search_result c r"
    "peek_loop ?n c (cal_lastBucket c) (cal_bucketTop c) ?m = Some m'" "same_search c r m'" by (auto simp only: add_0_right diff_zero)
  have peek: "cal_PeekNext c = Some m'" using r(3) empty by (simp add: cal_PeekNext_def)
  \<comment> \<open>both branches remove the first event of a bucket and move to its day\<close>
  have pop: "cal_events (pop_bucket i c1) = cal_events c - {#e#} \<and> cal_ok (pop_bucket i c1) \<and> same_shape c (pop_bucket i c1)"
    if i: "unat i < ?n" and e: "NextEvent (cal_reverse c) (cal_buckets c ! unat i) = Some e" "\<forall>x\<in>#cal_events c. rank e \<le> rank x"
      and c1: "c1 = c\<lparr>cal_lastBucket := h, cal_lastPrio := ts e, cal_bucketTop := t\<rparr>"
      and h: "unat h = bucket_of_day c (day c e)" "t = of_nat ((day c e + 1) * unat (cal_width c))" for i e c1 h t
  proof -
    let ?b = "cal_buckets c ! unat i"
    have bs: "bucket_sorted (cal_reverse c) ?b" "\<forall>x\<in>set ?b. bucket_of_day c (day c x) = unat i \<and> ts x \<noteq> - 1"
      using B i unfolding buckets_ok_def by auto
    note P = Pop_ok [OF bs(1) e(1)] and eb = NextEvent_least(1) [OF bs(1) e(1)]
    have ev: "cal_events (pop_bucket i c1) = cal_events c - {#e#}"
      using concat_update [OF _ P(2) eb] i n by (simp add: cal_events_def pop_bucket_def c1)
    have "buckets_ok (pop_bucket i c1)"
      using buckets_ok_update [of c1 "unat i" "Pop (cal_reverse c) ?b"] B i n P(1,3) bs(2)
      by (auto simp: c1 pop_bucket_def buckets_ok_cong day_def bucket_of_day_def)
    moreover have "\<forall>x\<in>#cal_events (pop_bucket i c1). ts e \<le> ts x" using ev e(2) rank_le_ts by (metis in_diffD)
    ultimately have "cal_ok (pop_bucket i c1)"
      using h unfolding cal_ok_def by (simp add: pop_bucket_def c1 today_def day_def bucket_of_day_def)
    then show ?thesis using ev by (simp add: same_shape_def pop_bucket_def c1)
  qed
  show ?thesis
  proof (cases r)
    case (This_Year i t e)
    then obtain j where j: "j < ?n" "unat i = bucket_of_day c (today c + j)" "t = top_at c j"
      "NextEvent (cal_reverse c) (bucket_at c j) = Some e" "ts e < top_at c j" "missed c j" using r(2) by (auto simp: search_result_def)
    have least: "e \<in># cal_events c" "day c e = today c + j" "\<forall>x\<in>#cal_events c. rank e \<le> rank x"
      using this_year_least [OF ok j(1,4-6)] ne by blast+
    have "t = of_nat ((day c e + 1) * unat (cal_width c))" using j(3) least(2) by (simp add: top_at_def algebra_simps)
    from pop [OF _ _ least(3) refl _ this, of i i] j(2,4) n least(2)
    show ?thesis using r(1,4) This_Year empty peek least j(4)
      by (auto simp: cal_DoRemoveNext_def same_search_def bucket_at_def bucket_of_day_def pop_bucket_def)
  next
    case (Direct k b)
    then obtain i e where i: "b = Some i" "unat i < ?n" "NextEvent (cal_reverse c) (cal_buckets c ! unat i) = Some e" "k = ev_key e"
      "e \<in># cal_events c" "\<forall>x\<in>#cal_events c. rank e \<le> rank x"
      using direct_least [OF ok _ ne, of k b] r(2) by (auto simp: search_result_def)
    obtain h where h: "cal_Hash (ts e) c = Some h" "unat h = bucket_of_day c (day c e)"
      using cal_Hash_ok [of c "ts e"] B by (auto simp: buckets_ok_def day_def)
    have t: "(ts e div cal_width c + 1) * cal_width c = of_nat ((day c e + 1) * unat (cal_width c))"
      by (simp add: day_def algebra_simps flip: unat_div)
    have "c\<lparr>cal_lastPrio := ts e, cal_lastBucket := h, cal_bucketTop := (ts e div cal_width c + 1) * cal_width c\<rparr> =
      c\<lparr>cal_lastBucket := h, cal_lastPrio := ts e, cal_bucketTop := (ts e div cal_width c + 1) * cal_width c\<rparr>" by (cases c) simp
    from pop [OF i(2,3,6) this h(2) t] show ?thesis
      using r(1,4) Direct empty peek i h by (auto simp: cal_DoRemoveNext_def same_search_def pop_bucket_def)
  qed
qed

end
