(* ===== verification/Timed_Scheduler.thy ===== *)
theory Timed_Scheduler
  imports List_Scheduler
begin

text \<open>
  What the simulator asks of a scheduler is less than a priority queue: time does not run backwards, so an event is never inserted
  before the last event taken out. The contract of such a scheduler is a locale; any scheduler that meets it answers a
  client as the list scheduler does.
\<close>

section \<open>Clients\<close>

datatype call = Call_Insert event | Call_RemoveNext | Call_PeekNext | Call_Remove event | Call_IsEmpty

datatype answer = Done | Found event | Truth bool

fun call_step :: "'s scheduler \<Rightarrow> call \<Rightarrow> 's \<Rightarrow> (answer \<times> 's) option" where
  "call_step ops (Call_Insert ev) s = map_option (\<lambda>s'. (Done, s')) (op_Insert ops ev s)" |
  "call_step ops Call_RemoveNext s = map_option (\<lambda>(ev, s'). (Found ev, s')) (op_RemoveNext ops s)" |
  "call_step ops Call_PeekNext s = map_option (\<lambda>ev. (Found ev, s)) (op_PeekNext ops s)" |
  "call_step ops (Call_Remove ev) s = map_option (\<lambda>s'. (Done, s')) (op_Remove ops ev s)" |
  "call_step ops Call_IsEmpty s = Some (Truth (op_IsEmpty ops s), s)"

fun call_run :: "'s scheduler \<Rightarrow> call list \<Rightarrow> 's \<Rightarrow> (answer list \<times> 's) option" where
  "call_run ops [] s = Some ([], s)" |
  "call_run ops (c # cs) s = do { (a, s1) \<leftarrow> call_step ops c s; (as, s2) \<leftarrow> call_run ops cs s1; Some (a # as, s2) }"

text \<open>The calls a client may make, in terms of the time of the last event taken out and the pending events in order.\<close>

fun call_ok :: "call \<Rightarrow> u64 \<Rightarrow> event list \<Rightarrow> bool" where
  "call_ok (Call_Insert ev) t es \<longleftrightarrow> t \<le> ts ev \<and> ts ev \<noteq> - 1 \<and> list_all (\<lambda>e. uid e \<noteq> uid ev) es \<and> length es < 2 ^ 32 - 1" |
  "call_ok Call_RemoveNext t es \<longleftrightarrow> es \<noteq> []" |
  "call_ok Call_PeekNext t es \<longleftrightarrow> es \<noteq> []" |
  "call_ok (Call_Remove ev) t es \<longleftrightarrow> ev \<in> set es" |
  "call_ok Call_IsEmpty t es \<longleftrightarrow> True"

fun call_next :: "call \<Rightarrow> u64 \<Rightarrow> event list \<Rightarrow> u64 \<times> event list" where
  "call_next (Call_Insert ev) t es = (t, list_Insert ev es)" |
  "call_next Call_RemoveNext t es = (ts (hd es), tl es)" |
  "call_next (Call_Remove ev) t es = (t, remove1 ev es)" |
  "call_next c t es = (t, es)"

fun calls_ok :: "call list \<Rightarrow> u64 \<Rightarrow> event list \<Rightarrow> bool" where
  "calls_ok [] t es \<longleftrightarrow> True" |
  "calls_ok (c # cs) t es \<longleftrightarrow> call_ok c t es \<and> (case call_next c t es of (t', es') \<Rightarrow> calls_ok cs t' es')"

lemma list_step:
  assumes "call_ok c t es" and "distinct (map uid es)"
  shows "\<exists>a. call_step ListScheduler c es = Some (a, snd (call_next c t es))"
proof (cases c)
  case Call_RemoveNext
  then show ?thesis using assms(1) by (cases es) (auto simp: ListScheduler_def list_RemoveNext_def)
next
  case Call_PeekNext
  then show ?thesis using assms(1) by (cases es) (auto simp: ListScheduler_def list_PeekNext_def)
next
  case (Call_Remove ev)
  then show ?thesis using assms by (simp add: ListScheduler_def list_Remove_present)
qed (simp_all add: ListScheduler_def)

lemma list_next:
  assumes "call_ok c t es" and "list_sorted es" and "distinct (map uid es)"
  shows "list_sorted (snd (call_next c t es))" "distinct (map uid (snd (call_next c t es)))"
proof -
  have d: "distinct (map uid (list_Insert ev es))" if "list_all (\<lambda>e. uid e \<noteq> uid ev) es" for ev
    using that assms(3) by (induction es) (auto simp: list_all_iff image_iff)
  show "list_sorted (snd (call_next c t es))"
    using assms(1,2) by (cases c) (auto simp: sorted_list_Insert sorted_remove1_map map_tl intro: sorted_tl)
  show "distinct (map uid (snd (call_next c t es)))"
    using assms d by (cases c) (auto simp: map_tl distinct_tl distinct_map_remove1)
qed

section \<open>The contract\<close>

locale timed_event_queue =
  fixes ops :: "'s scheduler"
    and init :: 's
    and invar :: "u64 \<Rightarrow> 's \<Rightarrow> bool"
    and events :: "'s \<Rightarrow> event multiset"
  assumes timed_init: "invar 0 init" "events init = {#}"
    and timed_empty: "invar t s \<Longrightarrow> op_IsEmpty ops s \<longleftrightarrow> events s = {#}"
    and timed_insert: "invar t s \<Longrightarrow> t \<le> ts ev \<Longrightarrow> ts ev \<noteq> - 1 \<Longrightarrow> \<forall>e\<in>#events s. uid e \<noteq> uid ev \<Longrightarrow>
      size (events s) < 2 ^ 32 - 1 \<Longrightarrow> \<exists>s'. op_Insert ops ev s = Some s' \<and> invar t s' \<and> events s' = add_mset ev (events s)"
    and timed_remove_next: "invar t s \<Longrightarrow> events s \<noteq> {#} \<Longrightarrow> \<exists>ev s'. op_RemoveNext ops s = Some (ev, s') \<and>
      op_PeekNext ops s = Some ev \<and> invar (ts ev) s' \<and> ev \<in># events s \<and> (\<forall>e\<in>#events s. rank ev \<le> rank e) \<and>
      events s' = events s - {#ev#}"
    and timed_remove: "invar t s \<Longrightarrow> uids_distinct (events s) \<Longrightarrow> ev \<in># events s \<Longrightarrow>
      \<exists>s'. op_Remove ops ev s = Some s' \<and> invar t s' \<and> events s' = events s - {#ev#}"
begin

text \<open>The scheduler answers as the list scheduler.\<close>

lemma first_event:
  assumes "events s = mset es" and "list_sorted es" and "distinct (map uid es)" and "ev \<in># events s"
    and "\<forall>e\<in>#events s. rank ev \<le> rank e"
  shows "\<exists>es'. es = ev # es'"
proof -
  obtain e es' where es: "es = e # es'" using assms(1,4) by (cases es) auto
  have "rank e \<le> rank ev" using assms(1,2,4) es by auto
  moreover have "rank ev \<le> rank e" using assms(1,5) es by auto
  ultimately have "rank ev = rank e" by simp
  then have "uid ev = uid e" by (simp only: rank_eq_iff)
  then have "ev = e" using assms(1,3,4) es by (auto simp: image_iff)
  then show ?thesis using es by simp
qed

lemma step_agrees:
  assumes "invar t s" and "events s = mset es" and "list_sorted es" and "distinct (map uid es)" and "call_ok c t es"
  shows "\<exists>a s'. call_step ops c s = Some (a, s') \<and> call_step ListScheduler c es = Some (a, snd (call_next c t es)) \<and>
    invar (fst (call_next c t es)) s' \<and> events s' = mset (snd (call_next c t es))"
proof (cases c)
  case (Call_Insert ev)
  then obtain s' where "op_Insert ops ev s = Some s'" "invar t s'" "events s' = add_mset ev (events s)"
    using timed_insert [OF assms(1), of ev] assms(2,5) by (auto simp: list_all_iff)
  then show ?thesis using Call_Insert assms(2) by (simp add: ListScheduler_def)
next
  case Call_RemoveNext
  then obtain ev s' where r: "op_RemoveNext ops s = Some (ev, s')" "invar (ts ev) s'" "ev \<in># events s" "\<forall>e\<in>#events s. rank ev \<le> rank e"
    "events s' = events s - {#ev#}" using timed_remove_next [OF assms(1)] assms(2,5) by auto
  then obtain es' where "es = ev # es'" using first_event [OF assms(2-4)] by blast
  then show ?thesis using r Call_RemoveNext assms(2) by (simp add: ListScheduler_def list_RemoveNext_def)
next
  case Call_PeekNext
  then obtain ev where r: "op_PeekNext ops s = Some ev" "ev \<in># events s" "\<forall>e\<in>#events s. rank ev \<le> rank e"
    using timed_remove_next [OF assms(1)] assms(2,5) by auto
  then obtain es' where "es = ev # es'" using first_event [OF assms(2-4)] by blast
  then show ?thesis using r Call_PeekNext assms(1,2) by (simp add: ListScheduler_def list_PeekNext_def)
next
  case (Call_Remove ev)
  then obtain s' where "op_Remove ops ev s = Some s'" "invar t s'" "events s' = events s - {#ev#}"
    using timed_remove [OF assms(1), of ev] assms(2,4,5) by (auto simp: uids_distinct_mset)
  then show ?thesis using Call_Remove assms(2,4,5) by (simp add: ListScheduler_def list_Remove_present)
next
  case Call_IsEmpty
  then show ?thesis using timed_empty [OF assms(1)] assms(1,2) by (simp add: ListScheduler_def list_IsEmpty_def)
qed

lemma run_agrees:
  assumes "invar t s" and "events s = mset es" and "list_sorted es" and "distinct (map uid es)" and "calls_ok cs t es"
  shows "\<exists>as s' es'. call_run ops cs s = Some (as, s') \<and> call_run ListScheduler cs es = Some (as, es') \<and> events s' = mset es'"
  using assms
proof (induction cs arbitrary: t s es)
  case (Cons c cs)
  obtain t1 es1 where n: "call_next c t es = (t1, es1)" by force
  have ok: "call_ok c t es" "calls_ok cs t1 es1" using Cons.prems(5) n by auto
  obtain a s1 where a: "call_step ops c s = Some (a, s1)" "call_step ListScheduler c es = Some (a, es1)" "invar t1 s1" "events s1 = mset es1"
    using step_agrees [OF Cons.prems(1-4) ok(1)] n by auto
  have "list_sorted es1" "distinct (map uid es1)" using list_next [OF ok(1) Cons.prems(3,4)] n by auto
  from Cons.IH [OF a(3,4) this ok(2)] obtain as s' es' where
    "call_run ops cs s1 = Some (as, s')" "call_run ListScheduler cs es1 = Some (as, es')" "events s' = mset es'" by blast
  then show ?case using a(1,2) by (intro exI [of _ "a # as"] exI [of _ s'] exI [of _ es']) simp
qed simp

end

text \<open>Every scheduler is such a scheduler: one that does not need the time.\<close>

sublocale event_scheduler \<subseteq> timed: timed_event_queue ops init "\<lambda>t s. invar s \<and> (\<forall>e\<in>#events s. t \<le> ts e)" events
proof
  show "invar init \<and> (\<forall>e\<in>#events init. 0 \<le> ts e)" "events init = {#}" using init_invar init_events by auto
next
  fix t s
  assume i: "invar s \<and> (\<forall>e\<in>#events s. t \<le> ts e)"
  then show "op_IsEmpty ops s \<longleftrightarrow> events s = {#}" using is_empty by blast
  show "\<exists>ev s'. op_RemoveNext ops s = Some (ev, s') \<and> op_PeekNext ops s = Some ev \<and>
      (invar s' \<and> (\<forall>e\<in>#events s'. ts ev \<le> ts e)) \<and> ev \<in># events s \<and> (\<forall>e\<in>#events s. rank ev \<le> rank e) \<and>
      events s' = events s - {#ev#}" if ne: "events s \<noteq> {#}"
  proof -
    have p: "op_PeekNext ops s = map_option fst (op_RemoveNext ops s)" using peek_next i ne by blast
    obtain ev s' where r: "op_RemoveNext ops s = Some (ev, s')" "invar s'" "ev \<in># events s" "\<forall>e\<in>#events s. rank ev \<le> rank e"
      "events s' = events s - {#ev#}" using remove_next_ok [OF conjunct1 [OF i] ne] by blast
    have "\<forall>e\<in>#events s'. ts ev \<le> ts e" using r(4,5) rank_le_ts in_diffD by metis
    then show ?thesis using r p by auto
  qed
  show "\<exists>s'. op_Insert ops ev s = Some s' \<and> (invar s' \<and> (\<forall>e\<in>#events s'. t \<le> ts e)) \<and> events s' = add_mset ev (events s)"
    if "t \<le> ts ev" "\<forall>e\<in>#events s. uid e \<noteq> uid ev" for ev
    using insert_ok [of s ev] i that by fastforce
  show "\<exists>s'. op_Remove ops ev s = Some s' \<and> (invar s' \<and> (\<forall>e\<in>#events s'. t \<le> ts e)) \<and> events s' = events s - {#ev#}"
    if "uids_distinct (events s)" "ev \<in># events s" for ev
    using remove_ok [of s ev] i that in_diffD by fastforce
qed

end
