(* ===== verification/Calendar_Contract.thy ===== *)
theory Calendar_Contract
  imports Calendar_Search Timed_Scheduler
begin

text \<open>
  The operations of the calendar: inserting, resizing with a sampled width, taking out. They meet the contract of a scheduler whose
  client does not go back in time, so a client cannot tell the calendar from the sorted list.
\<close>

section \<open>Inserting\<close>

lemma concat_insert:
  assumes "i < length bs" and "mset b = add_mset e (mset (bs ! i))"
  shows "mset (concat (bs[i := b])) = add_mset e (mset (concat bs))"
proof -
  have "bs = take i bs @ bs ! i # drop (Suc i) bs" using id_take_nth_drop [OF assms(1)] .
  then have "mset (concat bs) = mset (concat (take i bs)) + mset (bs ! i) + mset (concat (drop (Suc i) bs))"
    by (metis concat.simps(2) concat_append mset_append add.assoc)
  moreover have "mset (concat (bs[i := b])) = mset (concat (take i bs)) + mset b + mset (concat (drop (Suc i) bs))"
    using assms(1) by (simp add: upd_conv_take_nth_drop)
  ultimately show ?thesis using assms(2) by simp
qed

text \<open>Only the buckets change.\<close>

definition same_but_buckets :: "calendar \<Rightarrow> calendar \<Rightarrow> bool" where
  "same_but_buckets c c' \<longleftrightarrow> same_shape c c' \<and> cal_lastBucket c' = cal_lastBucket c \<and> cal_bucketTop c' = cal_bucketTop c \<and>
     cal_lastPrio c' = cal_lastPrio c"

lemma DoInsert_ok:
  assumes B: "buckets_ok c" and t: "ts ev \<noteq> - 1"
  shows "\<exists>c'. cal_DoInsert ev c = Some c' \<and> buckets_ok c' \<and> cal_events c' = add_mset ev (cal_events c) \<and> same_but_buckets c c'"
proof -
  obtain h where h: "cal_Hash (ts ev) c = Some h" "unat h = bucket_of_day c (day c ev)"
    using cal_Hash_ok [of c "ts ev"] B by (auto simp: buckets_ok_def day_def)
  let ?b = "bucket_insert (cal_reverse c) ev (cal_buckets c ! unat h)"
  have l: "unat h < length (cal_buckets c)" "unat h < unat (cal_nBuckets c)" using B h(2) by (auto simp: buckets_ok_def bucket_of_day_def)
  have "bucket_sorted (cal_reverse c) ?b" "\<forall>e\<in>set ?b. bucket_of_day c (day c e) = unat h \<and> ts e \<noteq> - 1"
    using B l h(2) t bucket_insert_sorted unfolding buckets_ok_def by auto
  then have "buckets_ok (c\<lparr>cal_buckets := (cal_buckets c)[unat h := ?b]\<rparr>)" using buckets_ok_update [OF B l(1)] by blast
  moreover have "cal_events (c\<lparr>cal_buckets := (cal_buckets c)[unat h := ?b]\<rparr>) = add_mset ev (cal_events c)"
    using concat_insert [OF l(1), of ?b ev] by (simp add: cal_events_def)
  ultimately show ?thesis using h(1) l by (simp add: cal_DoInsert_def same_but_buckets_def same_shape_def)
qed

lemma insert_all_ok:
  assumes "buckets_ok c" and "\<forall>e\<in>set evs. ts e \<noteq> - 1"
  shows "\<exists>c'. insert_all evs c = Some c' \<and> buckets_ok c' \<and> cal_events c' = cal_events c + mset evs \<and> same_but_buckets c c'"
  using assms
proof (induction evs arbitrary: c)
  case (Cons ev evs)
  obtain c1 where c1: "cal_DoInsert ev c = Some c1" "buckets_ok c1" "cal_events c1 = add_mset ev (cal_events c)" "same_but_buckets c c1"
    using DoInsert_ok [OF Cons.prems(1), of ev] Cons.prems(2) by auto
  obtain c2 where "insert_all evs c1 = Some c2" "buckets_ok c2" "cal_events c2 = cal_events c1 + mset evs" "same_but_buckets c1 c2"
    using Cons.IH [OF c1(2)] Cons.prems(2) by auto
  then show ?case using c1 by (auto simp: same_but_buckets_def same_shape_def)
qed (simp add: same_but_buckets_def same_shape_def)

section \<open>Sampling and resizing\<close>

lemma take_samples_ok:
  assumes "cal_ok c" and "k \<le> size (cal_events c)" and "cal_qSize c \<noteq> 0"
  shows "\<exists>evs c'. take_samples k c = Some (evs, c') \<and> length evs = k \<and> buckets_ok c' \<and> cal_events c = cal_events c' + mset evs \<and> same_shape c c'"
  using assms
proof (induction k arbitrary: c)
  case 0
  then show ?case by (simp add: cal_ok_def same_shape_def)
next
  case (Suc k)
  then have "cal_events c \<noteq> {#}" by auto
  from DoRemoveNext_ok [OF Suc.prems(1) this Suc.prems(3)] obtain e c1 where
    c1: "cal_DoRemoveNext c = Some (e, c1)" "e \<in># cal_events c" "cal_events c1 = cal_events c - {#e#}" "cal_ok c1" "same_shape c c1" by blast
  have "k \<le> size (cal_events c1)" using Suc.prems(2) c1(2,3) by (simp add: size_Diff_singleton)
  from Suc.IH [OF c1(4) this] obtain evs c2 where
    "take_samples k c1 = Some (evs, c2)" "length evs = k" "buckets_ok c2" "cal_events c1 = cal_events c2 + mset evs" "same_shape c1 c2"
    using c1(5) Suc.prems(3) by (auto simp: same_shape_def)
  moreover from this(4) have "cal_events c = cal_events c2 + mset (e # evs)" using c1(2,3) insert_DiffM by fastforce
  ultimately show ?case using c1(1,5) by (auto simp: same_shape_def)
qed

lemma nSamples_le: "\<not> q < 2 \<Longrightarrow> unat (cal_nSamples q) \<le> unat q"
proof -
  assume "\<not> q < 2"
  have q: "unat q < 2 ^ 32" using unsigned_less [of q, where 'a = nat] by simp
  have "unat (5 + q div 10) = (5 + unat q div 10) mod 2 ^ 32" by (simp add: unat_word_ariths unat_div mod_add_right_eq)
  moreover have "unat q div 10 \<le> 2 ^ 32 div 10" using q by (intro div_le_mono) simp
  then have "(5 + unat q div 10) mod 2 ^ 32 = 5 + unat q div 10" by simp
  ultimately have "unat (5 + q div 10) \<le> unat q" if "\<not> q \<le> 5" using that by (simp add: word_le_nat_alt)
  moreover have "unat (25 :: u32) \<le> unat x" if "x > 25" for x :: u32 using that by (simp add: word_less_nat_alt)
  ultimately show ?thesis by (auto simp: cal_nSamples_def Let_def intro: order_trans)
qed

lemma event_stamps: "buckets_ok c \<Longrightarrow> e \<in># cal_events c \<Longrightarrow> ts e \<noteq> - 1"
  using event_bucket(3) .

lemma CalculateNewWidth_ok:
  assumes ok: "cal_ok c" and q: "unat (cal_qSize c) = size (cal_events c)"
  shows "\<exists>w c'. cal_CalculateNewWidth c = Some (w, c') \<and> 0 < unat w \<and> buckets_ok c' \<and> cal_events c' = cal_events c \<and> same_but_buckets c c'"
proof (cases "cal_qSize c < 2")
  case True
  then show ?thesis using ok by (simp add: cal_CalculateNewWidth_def cal_ok_def same_but_buckets_def same_shape_def)
next
  case False
  let ?k = "unat (cal_nSamples (cal_qSize c))"
  have "?k \<le> size (cal_events c)" "cal_qSize c \<noteq> 0" using nSamples_le [OF False] q False by auto
  from take_samples_ok [OF ok this] obtain evs c1 where
    c1: "take_samples ?k c = Some (evs, c1)" "buckets_ok c1" "cal_events c = cal_events c1 + mset evs" "same_shape c c1" by blast
  have "ts e \<noteq> - 1" if "e \<in> set evs" for e
    using event_stamps [of c e] ok c1(3) that by (auto simp: cal_ok_def)
  then obtain c2 where c2: "insert_all evs c1 = Some c2" "buckets_ok c2" "cal_events c2 = cal_events c1 + mset evs" "same_but_buckets c1 c2"
    using insert_all_ok [OF c1(2)] by blast
  let ?c3 = "c2\<lparr>cal_lastBucket := cal_lastBucket c, cal_bucketTop := cal_bucketTop c, cal_lastPrio := cal_lastPrio c\<rparr>"
  have "cal_events ?c3 = cal_events c" "buckets_ok ?c3" using c1(3) c2(2,3) by (simp_all add: cal_events_def buckets_ok_cong)
  moreover have "same_but_buckets c ?c3" using c1(4) c2(4) by (simp add: same_but_buckets_def same_shape_def)
  moreover have "0 < unat (max x (1 :: u64))" for x by (simp add: max_def word_le_nat_alt)
  ultimately show ?thesis using False c1(1) c2(1) by (simp add: cal_CalculateNewWidth_def Let_def)
qed

lemma DoResize_ok:
  assumes B: "buckets_ok c" and n: "0 < unat n" and w: "0 < unat w" and p: "\<forall>e\<in>#cal_events c. cal_lastPrio c \<le> ts e"
  shows "\<exists>c'. cal_DoResize n w c = Some c' \<and> cal_ok c' \<and> cal_events c' = cal_events c \<and> cal_lastPrio c' = cal_lastPrio c \<and>
    cal_qSize c' = cal_qSize c \<and> cal_reverse c' = cal_reverse c"
proof -
  let ?c0 = "c\<lparr>cal_buckets := replicate (unat n) [], cal_nBuckets := n, cal_width := w, cal_lastPrio := cal_lastPrio c\<rparr>"
  obtain h where h: "cal_Hash (cal_lastPrio c) ?c0 = Some h" "unat h = bucket_of_day ?c0 (unat (cal_lastPrio c) div unat w)"
    using cal_Hash_ok [of ?c0 "cal_lastPrio c"] n w by auto
  let ?c1 = "?c0\<lparr>cal_lastBucket := h, cal_bucketTop := (cal_lastPrio c div w + 1) * w\<rparr>"
  have i: "cal_Init n w (cal_lastPrio c) c = Some ?c1" using h(1) by (simp add: cal_Init_def Let_def)
  have b1: "buckets_ok ?c1" using n w by (simp add: buckets_ok_def bucket_sorted_def chron_def)
  have e1: "cal_events ?c1 = {#}" by (simp add: cal_events_def)
  have "\<forall>e\<in>set (concat (cal_buckets c)). ts e \<noteq> - 1" using event_stamps [OF B] by (simp add: cal_events_def)
  from insert_all_ok [OF b1 this] obtain c2 where
    c2: "insert_all (concat (cal_buckets c)) ?c1 = Some c2" "buckets_ok c2" "cal_events c2 = cal_events c" "same_but_buckets ?c1 c2"
    using e1 by (auto simp: cal_events_def)
  have "cal_ok c2"
    unfolding cal_ok_def using c2(2-4) h(2) p
    by (auto simp: same_but_buckets_def same_shape_def today_def bucket_of_day_def algebra_simps simp flip: unat_div)
  then show ?thesis using i c2 by (simp add: cal_DoResize_def same_but_buckets_def same_shape_def)
qed

lemma Resize_ok:
  assumes "cal_inv c" and "0 < unat n"
  shows "\<exists>c'. cal_Resize n c = Some c' \<and> cal_inv c' \<and> cal_events c' = cal_events c \<and> cal_lastPrio c' = cal_lastPrio c"
proof -
  obtain w c1 where c1: "cal_CalculateNewWidth c = Some (w, c1)" "0 < unat w" "buckets_ok c1" "cal_events c1 = cal_events c" "same_but_buckets c c1"
    using CalculateNewWidth_ok [of c] assms(1) by (auto simp: cal_inv_def)
  have "\<forall>e\<in>#cal_events c1. cal_lastPrio c1 \<le> ts e" using assms(1) c1(4,5) by (simp add: cal_inv_def cal_ok_def same_but_buckets_def)
  from DoResize_ok [OF c1(3) assms(2) c1(2) this] c1 assms(1) show ?thesis
    by (auto simp: cal_Resize_def cal_inv_def same_but_buckets_def same_shape_def)
qed

lemma ResizeUp_ok:
  assumes "cal_inv c"
  shows "\<exists>c'. cal_ResizeUp c = Some c' \<and> cal_inv c' \<and> cal_events c' = cal_events c \<and> cal_lastPrio c' = cal_lastPrio c"
proof -
  have "0 < unat (cal_nBuckets c * 2)" if "cal_nBuckets c < 32768"
  proof -
    have n: "0 < unat (cal_nBuckets c)" "unat (cal_nBuckets c) < 32768"
      using assms that by (auto simp: cal_inv_def cal_ok_def buckets_ok_def word_less_nat_alt)
    then have "unat (cal_nBuckets c * 2) = unat (cal_nBuckets c) * 2" by (simp add: unat_word_ariths)
    then show ?thesis using n by simp
  qed
  then show ?thesis using Resize_ok [OF assms] assms by (auto simp: cal_ResizeUp_def)
qed

lemma ResizeDown_ok:
  assumes "cal_inv c"
  shows "\<exists>c'. cal_ResizeDown c = Some c' \<and> cal_inv c' \<and> cal_events c' = cal_events c \<and> cal_lastPrio c' = cal_lastPrio c"
proof -
  have "0 < unat (cal_nBuckets c div 2)" if "cal_qSize c < cal_nBuckets c div 2" using that by (simp add: word_less_nat_alt)
  then show ?thesis using Resize_ok [OF assms] assms by (auto simp: cal_ResizeDown_def)
qed

section \<open>The operations\<close>

lemma cal_ok_cong: "cal_ok (c\<lparr>cal_qSize := q\<rparr>) = cal_ok c"
  by (simp add: cal_ok_def buckets_ok_cong today_def bucket_of_day_def cal_events_def)

lemma cal_events_cong [simp]: "cal_events (c\<lparr>cal_qSize := q\<rparr>) = cal_events c"
  by (simp add: cal_events_def)

lemma Insert_ok:
  assumes c: "cal_inv c" and t: "cal_lastPrio c \<le> ts ev" "ts ev \<noteq> - 1" and room: "size (cal_events c) < 2 ^ 32 - 1"
  shows "\<exists>c'. cal_Insert ev c = Some c' \<and> cal_inv c' \<and> cal_events c' = add_mset ev (cal_events c) \<and> cal_lastPrio c' = cal_lastPrio c"
proof -
  have B: "buckets_ok c" using c by (simp add: cal_inv_def cal_ok_def)
  from DoInsert_ok [OF B t(2)] obtain c1 where
    c1: "cal_DoInsert ev c = Some c1" "buckets_ok c1" "cal_events c1 = add_mset ev (cal_events c)" "same_but_buckets c c1" by blast
  have q: "unat (cal_qSize c1) = size (cal_events c)" using c c1(4) by (simp add: cal_inv_def same_but_buckets_def same_shape_def)
  then have "cal_qSize c1 \<noteq> - 1" using room by (auto simp: unat_minus_one_word)
  then have "unat (cal_qSize c1 + 1) = size (cal_events c1)" using unat_Suc_no_wrap [of "cal_qSize c1"] q c1(3) by simp
  moreover have "cal_ok c1" using c c1(2-4) t(1)
    by (auto simp: cal_inv_def cal_ok_def same_but_buckets_def same_shape_def today_def bucket_of_day_def)
  ultimately have "cal_inv (c1\<lparr>cal_qSize := cal_qSize c1 + 1\<rparr>)" by (simp add: cal_inv_def cal_ok_cong)
  from ResizeUp_ok [OF this] show ?thesis using c1 by (auto simp: cal_Insert_def same_but_buckets_def)
qed

lemma not_empty: "cal_inv c \<Longrightarrow> cal_IsEmpty c \<longleftrightarrow> cal_events c = {#}"
  by (auto simp: cal_inv_def cal_IsEmpty_def unsigned_eq_0_iff)

lemma shrink_ok:
  assumes "cal_ok c1" and "unat q = Suc (size (cal_events c1))"
  shows "\<exists>c'. cal_ResizeDown (c1\<lparr>cal_qSize := q - 1\<rparr>) = Some c' \<and> cal_inv c' \<and> cal_events c' = cal_events c1 \<and> cal_lastPrio c' = cal_lastPrio c1"
proof -
  have "unat (q - 1) = size (cal_events c1)" using assms(2) by (subst unat_minus_one) (auto simp: unsigned_eq_0_iff)
  then have "cal_inv (c1\<lparr>cal_qSize := q - 1\<rparr>)" using assms(1) by (simp add: cal_inv_def cal_ok_cong)
  from ResizeDown_ok [OF this] show ?thesis by simp
qed

lemma RemoveNext_ok:
  assumes c: "cal_inv c" and ne: "cal_events c \<noteq> {#}"
  shows "\<exists>e c'. cal_RemoveNext c = Some (e, c') \<and> cal_PeekNext c = Some e \<and> e \<in># cal_events c \<and> (\<forall>x\<in>#cal_events c. rank e \<le> rank x) \<and>
    cal_events c' = cal_events c - {#e#} \<and> cal_inv c' \<and> cal_lastPrio c' = ts e"
proof -
  have em: "\<not> cal_IsEmpty c" using not_empty [OF c] ne by simp
  then have "cal_qSize c \<noteq> 0" by (simp add: cal_IsEmpty_def)
  from DoRemoveNext_ok [OF _ ne this] c obtain e c1 where
    r: "cal_DoRemoveNext c = Some (e, c1)" "cal_PeekNext c = Some e" "e \<in># cal_events c" "\<forall>x\<in>#cal_events c. rank e \<le> rank x"
    "cal_events c1 = cal_events c - {#e#}" "cal_ok c1" "cal_lastPrio c1 = ts e" "same_shape c c1" by (auto simp: cal_inv_def)
  have "unat (cal_qSize c1) = Suc (size (cal_events c1))"
    using c r(3,5,8) ne by (simp add: cal_inv_def same_shape_def size_Diff_singleton) (metis Suc_pred size_eq_0_iff_empty neq0_conv)
  from shrink_ok [OF r(6) this] show ?thesis using r em by (auto simp: cal_RemoveNext_def)
qed

lemma sorted_wrt_remove1: "sorted_wrt P xs \<Longrightarrow> sorted_wrt P (remove1 x xs)"
  by (induction xs) (auto dest: set_remove1_subset [THEN subsetD])

lemma bucket_remove1_sorted: "bucket_sorted r b \<Longrightarrow> bucket_sorted r (remove1 ev b)"
  by (cases r) (simp_all add: bucket_sorted_def chron_def sorted_map sorted_wrt_rev sorted_wrt_remove1)

lemma Remove_ok:
  assumes c: "cal_inv c" and d: "uids_distinct (cal_events c)" and ev: "ev \<in># cal_events c"
  shows "\<exists>c'. cal_Remove ev c = Some c' \<and> cal_inv c' \<and> cal_events c' = cal_events c - {#ev#} \<and> cal_lastPrio c' = cal_lastPrio c"
proof -
  have ok: "cal_ok c" and B: "buckets_ok c" using c by (auto simp: cal_inv_def cal_ok_def)
  obtain h where h: "cal_Hash (ts ev) c = Some h" "unat h = bucket_of_day c (day c ev)"
    using cal_Hash_ok [of c "ts ev"] B by (auto simp: buckets_ok_def day_def)
  let ?b = "cal_buckets c ! unat h"
  have l: "unat h < length (cal_buckets c)" "ev \<in> set ?b" using event_bucket [OF B ev] h(2) by auto
  have bs: "bucket_sorted (cal_reverse c) ?b" "\<forall>e\<in>set ?b. bucket_of_day c (day c e) = unat h \<and> ts e \<noteq> - 1"
    using B l(1) unfolding buckets_ok_def by auto
  have "cal_buckets c = take (unat h) (cal_buckets c) @ ?b # drop (Suc (unat h)) (cal_buckets c)" using id_take_nth_drop [OF l(1)] .
  then have "cal_events c = mset (concat (take (unat h) (cal_buckets c)) @ concat (drop (Suc (unat h)) (cal_buckets c))) + mset ?b"
    unfolding cal_events_def by (metis concat.simps(2) concat_append mset_append union_assoc union_commute)
  then have "uids_distinct (mset ?b)" using uids_distinct_diff [OF d] by (metis add_diff_cancel_left')
  then have "distinct (map uid ?b)" by (simp add: uids_distinct_mset)
  from list_Remove_present [OF this l(2)] have r: "list_Remove ev ?b = Some (remove1 ev ?b)" .
  let ?c1 = "c\<lparr>cal_buckets := (cal_buckets c)[unat h := remove1 ev ?b]\<rparr>"
  have e1: "cal_events ?c1 = cal_events c - {#ev#}" using concat_update [OF l(1) _ l(2), of "remove1 ev ?b"] by (simp add: cal_events_def)
  have "bucket_sorted (cal_reverse c) (remove1 ev ?b)" using bs(1) by (rule bucket_remove1_sorted)
  then have "buckets_ok ?c1" using buckets_ok_update [OF B l(1)] bs(2) set_remove1_subset [of ev ?b] by blast
  then have "cal_ok ?c1" using ok e1 unfolding cal_ok_def by (auto simp: today_def bucket_of_day_def dest: in_diffD)
  moreover have "unat (cal_qSize c) = Suc (size (cal_events ?c1))"
    using c e1 ev by (simp add: cal_inv_def size_Diff_singleton) (metis Suc_pred size_eq_0_iff_empty neq0_conv empty_iff set_mset_empty)
  ultimately obtain c2 where "cal_ResizeDown (?c1\<lparr>cal_qSize := cal_qSize c - 1\<rparr>) = Some c2" "cal_inv c2" "cal_events c2 = cal_events ?c1"
    "cal_lastPrio c2 = cal_lastPrio ?c1" using shrink_ok by blast
  then show ?thesis using h(1) l r e1 not_empty [OF c] ev by (auto simp: cal_Remove_def)
qed

text \<open>A new calendar.\<close>

definition cal_start :: "bool \<Rightarrow> calendar" where
  "cal_start reverse = \<lparr>cal_buckets = [[], []], cal_nBuckets = 2, cal_width = 1, cal_lastBucket = 0, cal_bucketTop = 1,
     cal_lastPrio = 0, cal_qSize = 0, cal_reverse = reverse\<rparr>"

lemma new_calendar: "CalendarScheduler_new reverse = Some (cal_start reverse)"
proof -
  have "replicate 2 ([] :: event list) = [[], []]" by (simp add: numeral_2_eq_2)
  then show ?thesis by (simp add: CalendarScheduler_new_def cal_Init_def cal_Hash_def cal_SetReverse_def cal_start_def Let_def)
qed

lemma start_ok: "cal_inv (cal_start reverse)" "cal_events (cal_start reverse) = {#}"
proof -
  show "cal_events (cal_start reverse) = {#}" by (simp add: cal_start_def cal_events_def)
  have "buckets_ok (cal_start reverse)"
    by (auto simp: buckets_ok_def cal_start_def bucket_sorted_def chron_def less_2_cases_iff)
  then show "cal_inv (cal_start reverse)"
    by (simp add: cal_inv_def cal_ok_def cal_start_def cal_events_def today_def bucket_of_day_def)
qed

interpretation calendar: timed_event_queue CalendarScheduler "cal_start reverse"
    "\<lambda>t c. cal_inv c \<and> cal_lastPrio c \<le> t \<and> (\<forall>e\<in>#cal_events c. t \<le> ts e)" cal_events
proof
  fix t c
  assume i: "cal_inv c \<and> cal_lastPrio c \<le> t \<and> (\<forall>e\<in>#cal_events c. t \<le> ts e)"
  show "op_IsEmpty CalendarScheduler c \<longleftrightarrow> cal_events c = {#}" using i not_empty by (simp add: CalendarScheduler_def)
  show "\<exists>c'. op_Insert CalendarScheduler ev c = Some c' \<and>
      (cal_inv c' \<and> cal_lastPrio c' \<le> t \<and> (\<forall>e\<in>#cal_events c'. t \<le> ts e)) \<and> cal_events c' = add_mset ev (cal_events c)"
    if a: "t \<le> ts ev" "ts ev \<noteq> - 1" "size (cal_events c) < 2 ^ 32 - 1" for ev
  proof -
    have "cal_lastPrio c \<le> ts ev" using i a(1) by auto
    then obtain c' where "cal_Insert ev c = Some c'" "cal_inv c'" "cal_events c' = add_mset ev (cal_events c)" "cal_lastPrio c' = cal_lastPrio c"
      using Insert_ok [OF _ _ a(2,3)] i by blast
    then show ?thesis using i a(1) by (simp add: CalendarScheduler_def)
  qed
  show "\<exists>ev c'. op_RemoveNext CalendarScheduler c = Some (ev, c') \<and> op_PeekNext CalendarScheduler c = Some ev \<and>
      (cal_inv c' \<and> cal_lastPrio c' \<le> ts ev \<and> (\<forall>e\<in>#cal_events c'. ts ev \<le> ts e)) \<and> ev \<in># cal_events c \<and>
      (\<forall>e\<in>#cal_events c. rank ev \<le> rank e) \<and> cal_events c' = cal_events c - {#ev#}" if ne: "cal_events c \<noteq> {#}"
  proof -
    obtain e c' where r: "cal_RemoveNext c = Some (e, c')" "cal_PeekNext c = Some e" "e \<in># cal_events c"
      "\<forall>x\<in>#cal_events c. rank e \<le> rank x" "cal_events c' = cal_events c - {#e#}" "cal_inv c'" "cal_lastPrio c' = ts e"
      using RemoveNext_ok [OF _ ne] i by blast
    have "\<forall>x\<in>#cal_events c'. ts e \<le> ts x" using r(4,5) rank_le_ts in_diffD by metis
    then show ?thesis using r by (auto simp: CalendarScheduler_def)
  qed
  show "\<exists>c'. op_Remove CalendarScheduler ev c = Some c' \<and>
      (cal_inv c' \<and> cal_lastPrio c' \<le> t \<and> (\<forall>e\<in>#cal_events c'. t \<le> ts e)) \<and> cal_events c' = cal_events c - {#ev#}"
    if d: "uids_distinct (cal_events c)" "ev \<in># cal_events c" for ev
  proof -
    obtain c' where "cal_Remove ev c = Some c'" "cal_inv c'" "cal_events c' = cal_events c - {#ev#}" "cal_lastPrio c' = cal_lastPrio c"
      using Remove_ok [OF _ d] i by blast
    then show ?thesis using i by (auto simp: CalendarScheduler_def dest: in_diffD)
  qed
qed (simp_all add: start_ok, simp add: cal_start_def)

section \<open>The property\<close>

text \<open>C34: Nobody can tell a calendar from a list: for every sequence of calls that does not insert an event before the
  last one taken out, the calendar, with its buckets in either order and whatever resizing the calls cause, trips no assertion and gives the
  answers of the sorted list. The search may wrap around the year and the range of times.\<close>

theorem calendar_equivalent:
  assumes "calls_ok cs 0 []"
  shows "\<exists>c0 answers c es. CalendarScheduler_new reverse = Some c0 \<and> call_run CalendarScheduler cs c0 = Some (answers, c) \<and>
    call_run ListScheduler cs [] = Some (answers, es)"
  using calendar.run_agrees [OF calendar.timed_init(1) _ _ _ assms, of reverse] start_ok(2) [of reverse] new_calendar [of reverse] by auto

definition demo_call :: "nat \<Rightarrow> u64 \<Rightarrow> event" where
  "demo_call u t = \<lparr>ev_impl = u, ev_key = \<lparr>ek_ts = t, ek_uid = of_nat u, ek_context = 0\<rparr>\<rparr>"

theorem calendar_equivalent_witness:
  "\<exists>c0 c. CalendarScheduler_new True = Some c0 \<and>
    call_run CalendarScheduler [Call_Insert (demo_call 1 900), Call_Insert (demo_call 2 5), Call_RemoveNext,
      Call_Insert (demo_call 3 5), Call_PeekNext, Call_Remove (demo_call 3 5), Call_RemoveNext, Call_IsEmpty] c0 =
    Some ([Done, Done, Found (demo_call 2 5), Done, Found (demo_call 3 5), Done, Found (demo_call 1 900), Truth True], c)"
proof -
  let ?cs = "[Call_Insert (demo_call 1 900), Call_Insert (demo_call 2 5), Call_RemoveNext,
      Call_Insert (demo_call 3 5), Call_PeekNext, Call_Remove (demo_call 3 5), Call_RemoveNext, Call_IsEmpty]"
  have "calls_ok ?cs 0 []" by (simp add: demo_call_def sim_simps key_rank_def)
  moreover have "call_run ListScheduler ?cs [] =
      Some ([Done, Done, Found (demo_call 2 5), Done, Found (demo_call 3 5), Done, Found (demo_call 1 900), Truth True], [])"
    by (simp add: ListScheduler_def list_RemoveNext_def list_PeekNext_def list_IsEmpty_def demo_call_def sim_simps key_rank_def)
  ultimately show ?thesis using calendar_equivalent [of ?cs True] by (auto simp del: call_run.simps)
qed

end
