(* ===== verification/Net_Queue.thy ===== *)
theory Net_Queue
  imports Sim_Prelude
begin

text \<open>
  Packet queues (\<^verbatim>\<open>src/network/utils/queue.h\<close>, \<^verbatim>\<open>queue.cc\<close>, \<^verbatim>\<open>queue-size.cc\<close>,
  \<^verbatim>\<open>drop-tail-queue.h\<close>): sizes in packets or bytes, the bookkeeping of \<^verbatim>\<open>QueueBase\<close>, insertion and
  extraction at a position of the container, and the drop-tail queue. Operations return
  \<^term>\<open>None\<close> where the source asserts or aborts, and the trace callbacks they fire, in order. The
  contract of a bounded FIFO queue is the locale \<^verbatim>\<open>packet_queue\<close>.
\<close>

section \<open>Items and sizes\<close>

text \<open>A queued packet, as \<^verbatim>\<open>Ptr<QueueDiscItem>\<close> or \<^verbatim>\<open>Ptr<Packet>\<close>: its identity, the value of
  \<^verbatim>\<open>GetSize\<close> (adding the header to the packet does not change it), the priority tag, the transmission
  queue, the ECN state, whether the header was added, and the time stamp.\<close>

type_synonym time = int

record queue_item =
  it_uid :: nat
  it_size :: u32
  it_priority :: "u8 option"
  it_txq :: nat
  it_ecnCapable :: bool
  it_marked :: bool
  it_headerAdded :: bool
  it_tstamp :: time

datatype queue_unit = PACKETS | BYTES

record queue_size =
  qs_unit :: queue_unit
  qs_value :: u32

definition qs_less :: "queue_size \<Rightarrow> queue_size \<Rightarrow> bool option" where
  "qs_less a b = (if qs_unit a \<noteq> qs_unit b then None else Some (qs_value a < qs_value b))"

definition qs_greater :: "queue_size \<Rightarrow> queue_size \<Rightarrow> bool option" where
  "qs_greater a b = (if qs_unit a \<noteq> qs_unit b then None else Some (qs_value a > qs_value b))"

definition qs_plus_item :: "queue_size \<Rightarrow> queue_item \<Rightarrow> queue_size" where
  "qs_plus_item s item =
     (case qs_unit s of
        PACKETS \<Rightarrow> \<lparr>qs_unit = qs_unit s, qs_value = qs_value s + 1\<rparr>
      | BYTES \<Rightarrow> \<lparr>qs_unit = qs_unit s, qs_value = qs_value s + it_size item\<rparr>)"

section \<open>The queue\<close>

record pqueue =
  q_packets :: "queue_item list"
  q_nBytes :: u32
  q_nTotalReceivedBytes :: u32
  q_nPackets :: u32
  q_nTotalReceivedPackets :: u32
  q_nTotalDroppedBytes :: u32
  q_nTotalDroppedBytesBeforeEnqueue :: u32
  q_nTotalDroppedBytesAfterDequeue :: u32
  q_nTotalDroppedPackets :: u32
  q_nTotalDroppedPacketsBeforeEnqueue :: u32
  q_nTotalDroppedPacketsAfterDequeue :: u32
  q_maxSize :: queue_size

definition QueueBase :: "queue_size \<Rightarrow> pqueue" where
  "QueueBase m = \<lparr>q_packets = [], q_nBytes = 0, q_nTotalReceivedBytes = 0, q_nPackets = 0,
     q_nTotalReceivedPackets = 0, q_nTotalDroppedBytes = 0, q_nTotalDroppedBytesBeforeEnqueue = 0,
     q_nTotalDroppedBytesAfterDequeue = 0, q_nTotalDroppedPackets = 0,
     q_nTotalDroppedPacketsBeforeEnqueue = 0, q_nTotalDroppedPacketsAfterDequeue = 0, q_maxSize = m\<rparr>"

text \<open>The trace callbacks. The plain \<^verbatim>\<open>Drop\<close> trace fires together with each of the two drop traces
  and has no entry of its own.\<close>

datatype q_trace =
    TraceEnqueue queue_item
  | TraceDequeue queue_item
  | TraceDropBeforeEnqueue queue_item
  | TraceDropAfterDequeue queue_item

definition queue_IsEmpty :: "pqueue \<Rightarrow> bool" where
  "queue_IsEmpty q \<longleftrightarrow> q_nPackets q = 0"

definition queue_GetCurrentSize :: "pqueue \<Rightarrow> queue_size" where
  "queue_GetCurrentSize q =
     (case qs_unit (q_maxSize q) of
        PACKETS \<Rightarrow> \<lparr>qs_unit = PACKETS, qs_value = q_nPackets q\<rparr>
      | BYTES \<Rightarrow> \<lparr>qs_unit = BYTES, qs_value = q_nBytes q\<rparr>)"

definition queue_ResetStatistics :: "pqueue \<Rightarrow> pqueue" where
  "queue_ResetStatistics q = q\<lparr>q_nTotalReceivedBytes := 0, q_nTotalReceivedPackets := 0,
     q_nTotalDroppedBytes := 0, q_nTotalDroppedBytesBeforeEnqueue := 0,
     q_nTotalDroppedBytesAfterDequeue := 0, q_nTotalDroppedPackets := 0,
     q_nTotalDroppedPacketsBeforeEnqueue := 0, q_nTotalDroppedPacketsAfterDequeue := 0\<rparr>"

definition queue_SetMaxSize :: "queue_size \<Rightarrow> pqueue \<Rightarrow> pqueue option" where
  "queue_SetMaxSize sz q =
     (if qs_value sz = 0 then Some q
      else let q' = q\<lparr>q_maxSize := sz\<rparr> in
        do { less \<leftarrow> qs_less sz (queue_GetCurrentSize q'); if less then None else Some q' })"

definition queue_WouldOverflow :: "u32 \<Rightarrow> u32 \<Rightarrow> pqueue \<Rightarrow> bool" where
  "queue_WouldOverflow nPackets nBytes q =
     (case qs_unit (q_maxSize q) of
        PACKETS \<Rightarrow> q_nPackets q + nPackets > qs_value (q_maxSize q)
      | BYTES \<Rightarrow> q_nBytes q + nBytes > qs_value (q_maxSize q))"

definition queue_DropBeforeEnqueue :: "queue_item \<Rightarrow> pqueue \<Rightarrow> q_trace list \<times> pqueue" where
  "queue_DropBeforeEnqueue item q =
     ([TraceDropBeforeEnqueue item],
      q\<lparr>q_nTotalDroppedPackets := q_nTotalDroppedPackets q + 1,
        q_nTotalDroppedPacketsBeforeEnqueue := q_nTotalDroppedPacketsBeforeEnqueue q + 1,
        q_nTotalDroppedBytes := q_nTotalDroppedBytes q + it_size item,
        q_nTotalDroppedBytesBeforeEnqueue := q_nTotalDroppedBytesBeforeEnqueue q + it_size item\<rparr>)"

definition queue_DropAfterDequeue :: "queue_item \<Rightarrow> pqueue \<Rightarrow> q_trace list \<times> pqueue" where
  "queue_DropAfterDequeue item q =
     ([TraceDropAfterDequeue item],
      q\<lparr>q_nTotalDroppedPackets := q_nTotalDroppedPackets q + 1,
        q_nTotalDroppedPacketsAfterDequeue := q_nTotalDroppedPacketsAfterDequeue q + 1,
        q_nTotalDroppedBytes := q_nTotalDroppedBytes q + it_size item,
        q_nTotalDroppedBytesAfterDequeue := q_nTotalDroppedBytesAfterDequeue q + it_size item\<rparr>)"

definition queue_DoEnqueue :: "nat \<Rightarrow> queue_item \<Rightarrow> pqueue \<Rightarrow> (bool \<times> q_trace list \<times> pqueue) option" where
  "queue_DoEnqueue pos item q = do {
     full \<leftarrow> qs_greater (qs_plus_item (queue_GetCurrentSize q) item) (q_maxSize q);
     if full then Some (False, queue_DropBeforeEnqueue item q)
     else Some (True, [TraceEnqueue item],
       q\<lparr>q_packets := take pos (q_packets q) @ item # drop pos (q_packets q),
         q_nBytes := q_nBytes q + it_size item,
         q_nTotalReceivedBytes := q_nTotalReceivedBytes q + it_size item,
         q_nPackets := q_nPackets q + 1,
         q_nTotalReceivedPackets := q_nTotalReceivedPackets q + 1\<rparr>) }"

definition queue_extract :: "nat \<Rightarrow> pqueue \<Rightarrow> (queue_item \<times> pqueue) option" where
  "queue_extract pos q =
     (if pos < length (q_packets q) then
        let item = q_packets q ! pos in
        if q_nBytes q \<ge> it_size item \<and> q_nPackets q > 0 then
          Some (item, q\<lparr>q_packets := take pos (q_packets q) @ drop (Suc pos) (q_packets q),
            q_nBytes := q_nBytes q - it_size item, q_nPackets := q_nPackets q - 1\<rparr>)
        else None
      else None)"

definition queue_DoDequeue :: "nat \<Rightarrow> pqueue \<Rightarrow> (queue_item option \<times> q_trace list \<times> pqueue) option" where
  "queue_DoDequeue pos q =
     (if q_nPackets q = 0 then Some (None, [], q)
      else do { (item, q') \<leftarrow> queue_extract pos q; Some (Some item, [TraceDequeue item], q') })"

definition queue_DoRemove :: "nat \<Rightarrow> pqueue \<Rightarrow> (queue_item option \<times> q_trace list \<times> pqueue) option" where
  "queue_DoRemove pos q =
     (if q_nPackets q = 0 then Some (None, [], q)
      else do {
        (item, q') \<leftarrow> queue_extract pos q;
        (case queue_DropAfterDequeue item q' of (tr, q'') \<Rightarrow>
           Some (Some item, TraceDequeue item # tr, q'')) })"

definition queue_DoPeek :: "nat \<Rightarrow> pqueue \<Rightarrow> queue_item option option" where
  "queue_DoPeek pos q =
     (if q_nPackets q = 0 then Some None
      else if pos < length (q_packets q) then Some (Some (q_packets q ! pos)) else None)"

section \<open>The drop-tail queue\<close>

definition DropTail_Enqueue :: "queue_item \<Rightarrow> pqueue \<Rightarrow> (bool \<times> q_trace list \<times> pqueue) option" where
  "DropTail_Enqueue item q = queue_DoEnqueue (length (q_packets q)) item q"

definition DropTail_Dequeue :: "pqueue \<Rightarrow> (queue_item option \<times> q_trace list \<times> pqueue) option" where
  "DropTail_Dequeue q = queue_DoDequeue 0 q"

definition DropTail_Remove :: "pqueue \<Rightarrow> (queue_item option \<times> q_trace list \<times> pqueue) option" where
  "DropTail_Remove q = queue_DoRemove 0 q"

definition DropTail_Peek :: "pqueue \<Rightarrow> queue_item option option" where
  "DropTail_Peek q = queue_DoPeek 0 q"

partial_function (option) DropTail_Flush :: "pqueue \<Rightarrow> (q_trace list \<times> pqueue) option" where
  "DropTail_Flush q =
     (if queue_IsEmpty q then Some ([], q)
      else Option.bind (DropTail_Remove q) (\<lambda>(item, tr, q').
        Option.bind (DropTail_Flush q') (\<lambda>(tr', q''). Some (tr @ tr', q''))))"

section \<open>Invariant\<close>

definition items_bytes :: "queue_item list \<Rightarrow> nat" where
  "items_bytes xs = sum_list (map (\<lambda>i. unat (it_size i)) xs)"

lemma items_bytes_simps [simp]:
  "items_bytes [] = 0" "items_bytes (x # xs) = unat (it_size x) + items_bytes xs"
  "items_bytes (xs @ ys) = items_bytes xs + items_bytes ys"
  by (simp_all add: items_bytes_def)

text \<open>The counters agree with the container, and the drop counters add up.\<close>

definition queue_inv :: "pqueue \<Rightarrow> bool" where
  "queue_inv q \<longleftrightarrow> unat (q_nPackets q) = length (q_packets q) \<and>
     unat (q_nBytes q) = items_bytes (q_packets q) \<and>
     q_nTotalDroppedPackets q =
       q_nTotalDroppedPacketsBeforeEnqueue q + q_nTotalDroppedPacketsAfterDequeue q \<and>
     q_nTotalDroppedBytes q =
       q_nTotalDroppedBytesBeforeEnqueue q + q_nTotalDroppedBytesAfterDequeue q"

text \<open>The occupancy in the unit of the limit, and whether an item still fits.\<close>

definition queue_used :: "queue_unit \<Rightarrow> queue_item list \<Rightarrow> nat" where
  "queue_used u xs = (case u of PACKETS \<Rightarrow> length xs | BYTES \<Rightarrow> items_bytes xs)"

definition queue_bounded :: "pqueue \<Rightarrow> bool" where
  "queue_bounded q \<longleftrightarrow> queue_used (qs_unit (q_maxSize q)) (q_packets q) \<le> unat (qs_value (q_maxSize q))"

definition queue_room :: "queue_item \<Rightarrow> pqueue \<Rightarrow> bool" where
  "queue_room item q \<longleftrightarrow>
     queue_used (qs_unit (q_maxSize q)) (q_packets q @ [item]) \<le> unat (qs_value (q_maxSize q))"

text \<open>No 32-bit counter of the queue wraps when the item is added.\<close>

definition counts_fit :: "queue_item \<Rightarrow> queue_item list \<Rightarrow> bool" where
  "counts_fit item xs \<longleftrightarrow> length xs + 1 < 2 ^ 32 \<and> items_bytes xs + unat (it_size item) < 2 ^ 32"

lemma unat_add_no_wrap:
  fixes a b :: "'a::len word"
  assumes "unat a + unat b < 2 ^ LENGTH('a)"
  shows "unat (a + b) = unat a + unat b"
  using assms by (simp add: unat_word_ariths)

lemma QueueBase_inv: "queue_inv (QueueBase m)" "queue_bounded (QueueBase m)" "q_packets (QueueBase m) = []"
  by (simp_all add: queue_inv_def QueueBase_def queue_bounded_def queue_used_def split: queue_unit.splits)

lemma queue_empty_iff: "queue_inv q \<Longrightarrow> queue_IsEmpty q \<longleftrightarrow> q_packets q = []"
  by (auto simp: queue_inv_def queue_IsEmpty_def unat_eq_0)

lemma queue_GetCurrentSize_simps [simp]:
  "qs_unit (queue_GetCurrentSize q) = qs_unit (q_maxSize q)"
  "qs_unit (qs_plus_item s i) = qs_unit s"
  by (simp_all add: queue_GetCurrentSize_def qs_plus_item_def split: queue_unit.splits)

lemma queue_size_plus_item:
  assumes "queue_inv q" and "counts_fit item (q_packets q)"
  shows "unat (qs_value (qs_plus_item (queue_GetCurrentSize q) item)) =
    queue_used (qs_unit (q_maxSize q)) (q_packets q @ [item])"
  using assms
  by (auto simp: queue_inv_def counts_fit_def queue_used_def qs_plus_item_def queue_GetCurrentSize_def
      unat_add_no_wrap split: queue_unit.splits)

lemma queue_DoEnqueue_room:
  assumes "queue_inv q" and "counts_fit item (q_packets q)"
  shows "qs_greater (qs_plus_item (queue_GetCurrentSize q) item) (q_maxSize q) = Some (\<not> queue_room item q)"
  using queue_size_plus_item [OF assms]
  by (simp add: qs_greater_def queue_room_def word_less_nat_alt not_le)

text \<open>Enqueueing at a position: a full queue drops the item, otherwise it is inserted there.\<close>

lemma queue_DoEnqueue_full:
  assumes "queue_inv q" and "counts_fit item (q_packets q)" and "\<not> queue_room item q"
  shows "\<exists>q'. queue_DoEnqueue pos item q = Some (False, [TraceDropBeforeEnqueue item], q') \<and>
    queue_inv q' \<and> q_packets q' = q_packets q \<and> q_maxSize q' = q_maxSize q"
  using assms queue_DoEnqueue_room [OF assms(1,2)]
  by (auto simp: queue_DoEnqueue_def queue_DropBeforeEnqueue_def queue_inv_def algebra_simps)

lemma queue_DoEnqueue_ok:
  assumes "queue_inv q" and "counts_fit item (q_packets q)" and "queue_room item q"
  shows "\<exists>q'. queue_DoEnqueue pos item q = Some (True, [TraceEnqueue item], q') \<and> queue_inv q' \<and>
    q_packets q' = take pos (q_packets q) @ item # drop pos (q_packets q) \<and> q_maxSize q' = q_maxSize q"
proof -
  have "items_bytes (take pos (q_packets q)) + items_bytes (drop pos (q_packets q)) =
      items_bytes (q_packets q)"
    by (simp flip: items_bytes_simps(3))
  then have "unat (q_nBytes q + it_size item) =
      items_bytes (take pos (q_packets q) @ item # drop pos (q_packets q))"
    using assms by (auto simp: queue_inv_def counts_fit_def unat_add_no_wrap)
  moreover have "unat (q_nPackets q + 1) = length (take pos (q_packets q) @ item # drop pos (q_packets q))"
    using assms by (auto simp: queue_inv_def counts_fit_def unat_add_no_wrap)
  ultimately show ?thesis
    using assms queue_DoEnqueue_room [OF assms(1,2)]
    by (auto simp: queue_DoEnqueue_def queue_inv_def)
qed

lemma items_bytes_at: "i < length xs \<Longrightarrow>
    items_bytes xs = unat (it_size (xs ! i)) + items_bytes (take i xs @ drop (Suc i) xs)"
proof -
  assume "i < length xs"
  then have "items_bytes xs = items_bytes (take i xs @ xs ! i # drop (Suc i) xs)"
    by (simp flip: id_take_nth_drop)
  then show ?thesis by simp
qed

lemma queue_extract_ok:
  assumes "queue_inv q" and "pos < length (q_packets q)"
  shows "\<exists>q'. queue_extract pos q = Some (q_packets q ! pos, q') \<and> queue_inv q' \<and>
    q_packets q' = take pos (q_packets q) @ drop (Suc pos) (q_packets q) \<and> q_maxSize q' = q_maxSize q"
proof -
  let ?i = "q_packets q ! pos"
  have b: "it_size ?i \<le> q_nBytes q" and p: "q_nPackets q \<noteq> 0"
    using assms items_bytes_at [OF assms(2)] by (auto simp: queue_inv_def word_le_nat_alt)
  have "unat (q_nBytes q - it_size ?i) = items_bytes (take pos (q_packets q) @ drop (Suc pos) (q_packets q))"
    using assms items_bytes_at [OF assms(2)] by (simp add: queue_inv_def unat_sub [OF b])
  moreover have "unat (q_nPackets q - 1) = length (q_packets q) - 1"
    using assms p by (simp add: queue_inv_def unat_minus_one)
  ultimately show ?thesis
    using assms b p
    by (auto simp: queue_extract_def queue_inv_def Let_def word_gt_0)
qed

section \<open>The drop-tail queue as a bounded FIFO\<close>

lemma queue_bounded_snoc:
  "q_packets q' = q_packets q @ [item] \<Longrightarrow> q_maxSize q' = q_maxSize q \<Longrightarrow>
     queue_bounded q' \<longleftrightarrow> queue_room item q"
  by (simp add: queue_bounded_def queue_room_def)

lemma queue_bounded_mono:
  assumes "queue_bounded q" and "q_maxSize q' = q_maxSize q" and "length (q_packets q') \<le> length (q_packets q)"
    and "items_bytes (q_packets q') \<le> items_bytes (q_packets q)"
  shows "queue_bounded q'"
  using assms by (auto simp: queue_bounded_def queue_used_def split: queue_unit.splits)

lemma DropTail_Enqueue_cases:
  assumes "queue_inv q" and "queue_bounded q" and "counts_fit item (q_packets q)"
  shows "\<exists>q'. DropTail_Enqueue item q =
      Some (queue_room item q, [if queue_room item q then TraceEnqueue item else TraceDropBeforeEnqueue item], q') \<and>
    queue_inv q' \<and> queue_bounded q' \<and> q_maxSize q' = q_maxSize q \<and>
    q_packets q' = (if queue_room item q then q_packets q @ [item] else q_packets q)"
proof (cases "queue_room item q")
  case True
  from queue_DoEnqueue_ok [OF assms(1,3) True, of "length (q_packets q)"] True show ?thesis
    by (auto simp: DropTail_Enqueue_def queue_bounded_snoc)
next
  case False
  from queue_DoEnqueue_full [OF assms(1,3) False, of "length (q_packets q)"] False assms(2) show ?thesis
    by (auto simp: DropTail_Enqueue_def queue_bounded_def)
qed

lemma DropTail_Dequeue_empty:
  assumes "queue_inv q" and "q_packets q = []"
  shows "DropTail_Dequeue q = Some (None, [], q)"
  using assms by (simp add: DropTail_Dequeue_def queue_DoDequeue_def flip: queue_empty_iff add: queue_IsEmpty_def)

lemma queue_extract_head:
  assumes "queue_inv q" and "q_packets q = i # is"
  shows "\<exists>q'. queue_extract 0 q = Some (i, q') \<and> queue_inv q' \<and> q_packets q' = is \<and>
    q_maxSize q' = q_maxSize q \<and> (queue_bounded q \<longrightarrow> queue_bounded q')"
proof -
  from queue_extract_ok [OF assms(1), of 0] assms(2) obtain q' where
    q': "queue_extract 0 q = Some (i, q')" "queue_inv q'" "q_packets q' = is" "q_maxSize q' = q_maxSize q"
    by auto
  then show ?thesis using assms(2) queue_bounded_mono [of q q'] by auto
qed

lemma DropTail_Dequeue_item:
  assumes "queue_inv q" and "q_packets q = i # is"
  shows "\<exists>q'. DropTail_Dequeue q = Some (Some i, [TraceDequeue i], q') \<and> queue_inv q' \<and>
    q_packets q' = is \<and> q_maxSize q' = q_maxSize q \<and> (queue_bounded q \<longrightarrow> queue_bounded q')"
  using queue_extract_head [OF assms] queue_empty_iff [OF assms(1)] assms(2)
  by (auto simp: DropTail_Dequeue_def queue_DoDequeue_def queue_IsEmpty_def)

lemma DropTail_Peek_hd:
  assumes "queue_inv q"
  shows "DropTail_Peek q = Some (case q_packets q of [] \<Rightarrow> None | i # _ \<Rightarrow> Some i)"
  using queue_empty_iff [OF assms]
  by (auto simp: DropTail_Peek_def queue_DoPeek_def queue_IsEmpty_def split: list.splits)

lemma DropTail_Remove_item:
  assumes "queue_inv q" and "q_packets q = i # is"
  shows "\<exists>q'. DropTail_Remove q = Some (Some i, [TraceDequeue i, TraceDropAfterDequeue i], q') \<and>
    queue_inv q' \<and> q_packets q' = is \<and> q_maxSize q' = q_maxSize q"
proof -
  from queue_extract_head [OF assms] obtain q1 where
    q1: "queue_extract 0 q = Some (i, q1)" "queue_inv q1" "q_packets q1 = is" "q_maxSize q1 = q_maxSize q"
    by blast
  have "queue_inv (snd (queue_DropAfterDequeue i q1))"
    using q1(2) by (simp add: queue_DropAfterDequeue_def queue_inv_def algebra_simps)
  with q1 queue_empty_iff [OF assms(1)] assms(2) show ?thesis
    by (auto simp: DropTail_Remove_def queue_DoRemove_def queue_DropAfterDequeue_def queue_IsEmpty_def)
qed

lemma DropTail_Flush_total:
  "queue_inv q \<Longrightarrow> \<exists>q'. DropTail_Flush q =
      Some (concat (map (\<lambda>i. [TraceDequeue i, TraceDropAfterDequeue i]) (q_packets q)), q') \<and>
    queue_inv q' \<and> q_packets q' = []"
proof (induction "q_packets q" arbitrary: q)
  case Nil
  then show ?case using queue_empty_iff [of q] by (subst DropTail_Flush.simps) auto
next
  case (Cons i "is")
  from DropTail_Remove_item [OF Cons.prems Cons.hyps(2) [symmetric]] obtain q1 where
    q1: "DropTail_Remove q = Some (Some i, [TraceDequeue i, TraceDropAfterDequeue i], q1)"
      "queue_inv q1" "q_packets q1 = is" by blast
  from Cons.hyps(1) [OF q1(3) [symmetric] q1(2)] obtain q' where
    q': "DropTail_Flush q1 = Some (concat (map (\<lambda>i. [TraceDequeue i, TraceDropAfterDequeue i]) (q_packets q1)), q')"
      "queue_inv q'" "q_packets q' = []" by blast
  have "\<not> queue_IsEmpty q" using queue_empty_iff [OF Cons.prems] Cons.hyps(2) by auto
  then show ?case
    by (subst DropTail_Flush.simps) (simp add: q1 q' flip: Cons.hyps(2))
qed

section \<open>The contract of a bounded FIFO queue\<close>

text \<open>\<^verbatim>\<open>key\<close> is what the queue keeps of an item unchanged; \<^verbatim>\<open>fits\<close> says that its counters do not
  wrap, and \<^verbatim>\<open>room\<close> that its limit admits the item.\<close>

datatype queue_op = Enq queue_item | Deq

fun queue_run ::
  "(queue_item \<Rightarrow> 'q \<Rightarrow> (bool \<times> 'q) option) \<Rightarrow> ('q \<Rightarrow> (queue_item option \<times> 'q) option) \<Rightarrow>
   queue_op list \<Rightarrow> 'q \<Rightarrow> (queue_item list \<times> queue_item list \<times> 'q) option" where
  "queue_run enq deq [] q = Some ([], [], q)"
| "queue_run enq deq (Enq i # ops) q = do {
     (ok, q1) \<leftarrow> enq i q;
     (accepted, out, q2) \<leftarrow> queue_run enq deq ops q1;
     Some (if ok then i # accepted else accepted, out, q2) }"
| "queue_run enq deq (Deq # ops) q = do {
     (r, q1) \<leftarrow> deq q;
     (accepted, out, q2) \<leftarrow> queue_run enq deq ops q1;
     Some (accepted, (case r of None \<Rightarrow> out | Some i \<Rightarrow> i # out), q2) }"

fun queue_ops_fit ::
  "(queue_item \<Rightarrow> 'q \<Rightarrow> (bool \<times> 'q) option) \<Rightarrow> ('q \<Rightarrow> (queue_item option \<times> 'q) option) \<Rightarrow>
   (queue_item \<Rightarrow> 'q \<Rightarrow> bool) \<Rightarrow> queue_op list \<Rightarrow> 'q \<Rightarrow> bool" where
  "queue_ops_fit enq deq fits [] q = True"
| "queue_ops_fit enq deq fits (Enq i # ops) q \<longleftrightarrow> fits i q \<and>
     (case enq i q of None \<Rightarrow> True | Some (ok, q1) \<Rightarrow> queue_ops_fit enq deq fits ops q1)"
| "queue_ops_fit enq deq fits (Deq # ops) q \<longleftrightarrow>
     (case deq q of None \<Rightarrow> True | Some (r, q1) \<Rightarrow> queue_ops_fit enq deq fits ops q1)"

locale packet_queue =
  fixes enq :: "queue_item \<Rightarrow> 'q \<Rightarrow> (bool \<times> 'q) option"
    and deq :: "'q \<Rightarrow> (queue_item option \<times> 'q) option"
    and inv :: "'q \<Rightarrow> bool"
    and items :: "'q \<Rightarrow> 'k list"
    and key :: "queue_item \<Rightarrow> 'k"
    and fits :: "queue_item \<Rightarrow> 'q \<Rightarrow> bool"
    and room :: "queue_item \<Rightarrow> 'q \<Rightarrow> bool"
  assumes enq_room: "inv q \<Longrightarrow> fits i q \<Longrightarrow> room i q \<Longrightarrow>
      \<exists>q'. enq i q = Some (True, q') \<and> inv q' \<and> items q' = items q @ [key i]"
    and enq_full: "inv q \<Longrightarrow> fits i q \<Longrightarrow> \<not> room i q \<Longrightarrow>
      \<exists>q'. enq i q = Some (False, q') \<and> inv q' \<and> items q' = items q"
    and deq_empty: "inv q \<Longrightarrow> items q = [] \<Longrightarrow> \<exists>q'. deq q = Some (None, q') \<and> inv q' \<and> items q' = []"
    and deq_item: "inv q \<Longrightarrow> items q = k # ks \<Longrightarrow>
      \<exists>i q'. deq q = Some (Some i, q') \<and> key i = k \<and> inv q' \<and> items q' = ks"
begin

lemma enq_result:
  assumes "inv q" and "fits i q"
  obtains q' where "enq i q = Some (room i q, q')" and "inv q'"
    and "items q' = (if room i q then items q @ [key i] else items q)"
  using enq_room [OF assms] enq_full [OF assms] by (cases "room i q") auto

lemma deq_result:
  assumes "inv q"
  obtains r q' where "deq q = Some (r, q')" and "inv q'"
    and "items q = (case r of None \<Rightarrow> [] | Some i \<Rightarrow> [key i]) @ items q'" and "r = None \<longleftrightarrow> items q = []"
  using deq_empty [OF assms] deq_item [OF assms] by (cases "items q") auto

text \<open>Whatever sequence of operations is made, no assertion fails, and what went in comes out in the
  same order or is still queued.\<close>

lemma fifo_run:
  "inv q \<Longrightarrow> queue_ops_fit enq deq fits ops q \<Longrightarrow>
     \<exists>accepted out q'. queue_run enq deq ops q = Some (accepted, out, q') \<and> inv q' \<and>
       items q @ map key accepted = map key out @ items q'"
proof (induction ops arbitrary: q)
  case (Cons x ops)
  show ?case
  proof (cases x)
    case (Enq i)
    with Cons.prems enq_result [of q i] obtain q1 where
      q1: "enq i q = Some (room i q, q1)" "inv q1"
        "items q1 = (if room i q then items q @ [key i] else items q)" by auto
    with Cons.IH [of q1] Cons.prems Enq obtain accepted out q' where
      "queue_run enq deq ops q1 = Some (accepted, out, q')" "inv q'"
      "items q1 @ map key accepted = map key out @ items q'" by auto
    with q1 Enq show ?thesis by (auto split: if_splits)
  next
    case Deq
    from deq_result [OF Cons.prems(1)] obtain r q1 where
      q1: "deq q = Some (r, q1)" "inv q1"
        "items q = (case r of None \<Rightarrow> [] | Some i \<Rightarrow> [key i]) @ items q1" by blast
    with Cons.IH [of q1] Cons.prems Deq obtain accepted out q' where
      "queue_run enq deq ops q1 = Some (accepted, out, q')" "inv q'"
      "items q1 @ map key accepted = map key out @ items q'" by auto
    with q1 Deq show ?thesis by (auto split: option.splits)
  qed
qed simp

end

definition DropTail_enq :: "queue_item \<Rightarrow> pqueue \<Rightarrow> (bool \<times> pqueue) option" where
  "DropTail_enq i q = map_option (\<lambda>(ok, tr, q'). (ok, q')) (DropTail_Enqueue i q)"

definition DropTail_deq :: "pqueue \<Rightarrow> (queue_item option \<times> pqueue) option" where
  "DropTail_deq q = map_option (\<lambda>(r, tr, q'). (r, q')) (DropTail_Dequeue q)"

interpretation droptail: packet_queue DropTail_enq DropTail_deq "\<lambda>q. queue_inv q \<and> queue_bounded q"
  q_packets "\<lambda>i. i" "\<lambda>i q. counts_fit i (q_packets q)" queue_room
proof unfold_locales
  fix q i assume "queue_inv q \<and> queue_bounded q" "counts_fit i (q_packets q)" "queue_room i q"
  with DropTail_Enqueue_cases [of q i]
  show "\<exists>q'. DropTail_enq i q = Some (True, q') \<and> (queue_inv q' \<and> queue_bounded q') \<and>
    q_packets q' = q_packets q @ [i]" by (auto simp: DropTail_enq_def)
next
  fix q i assume "queue_inv q \<and> queue_bounded q" "counts_fit i (q_packets q)" "\<not> queue_room i q"
  with DropTail_Enqueue_cases [of q i]
  show "\<exists>q'. DropTail_enq i q = Some (False, q') \<and> (queue_inv q' \<and> queue_bounded q') \<and>
    q_packets q' = q_packets q" by (auto simp: DropTail_enq_def)
next
  fix q assume "queue_inv q \<and> queue_bounded q" "q_packets q = []"
  then show "\<exists>q'. DropTail_deq q = Some (None, q') \<and> (queue_inv q' \<and> queue_bounded q') \<and> q_packets q' = []"
    using DropTail_Dequeue_empty [of q] by (auto simp: DropTail_deq_def)
next
  fix q k ks assume "queue_inv q \<and> queue_bounded q" "q_packets q = k # ks"
  with DropTail_Dequeue_item [of q k ks]
  show "\<exists>i q'. DropTail_deq q = Some (Some i, q') \<and> i = k \<and> (queue_inv q' \<and> queue_bounded q') \<and>
    q_packets q' = ks" by (auto simp: DropTail_deq_def)
qed

text \<open>A sequence whose items together stay below the range of the 32-bit counters never wraps them.\<close>

definition op_items :: "queue_op list \<Rightarrow> queue_item list" where
  "op_items ops = concat (map (\<lambda>x. case x of Enq i \<Rightarrow> [i] | Deq \<Rightarrow> []) ops)"

lemma op_items_simps [simp]:
  "op_items [] = []" "op_items (Enq i # ops) = i # op_items ops" "op_items (Deq # ops) = op_items ops"
  by (simp_all add: op_items_def)

locale counted_queue = packet_queue +
  fixes kbytes :: "'b list \<Rightarrow> nat" and good :: "queue_item \<Rightarrow> bool"
  assumes kbytes_append: "kbytes (xs @ ys) = kbytes xs + kbytes ys"
    and kbytes_key: "kbytes [key i] = unat (it_size i)"
    and fits_counts: "inv q \<Longrightarrow> good i \<Longrightarrow> length (items q) + 1 < 2 ^ 32 \<Longrightarrow>
      kbytes (items q) + unat (it_size i) < 2 ^ 32 \<Longrightarrow> fits i q"
begin

lemma ops_fit:
  "inv q \<Longrightarrow> \<forall>i \<in> set (op_items ops). good i \<Longrightarrow> length (items q) + length (op_items ops) < 2 ^ 32 \<Longrightarrow>
   kbytes (items q) + items_bytes (op_items ops) < 2 ^ 32 \<Longrightarrow> queue_ops_fit enq deq fits ops q"
proof (induction ops arbitrary: q)
  case (Cons x ops)
  show ?case
  proof (cases x)
    case (Enq i)
    with Cons.prems have fit: "fits i q" by (intro fits_counts) auto
    from enq_result [OF Cons.prems(1) fit] obtain q1 where
      "enq i q = Some (room i q, q1)" "inv q1" "items q1 = (if room i q then items q @ [key i] else items q)" by blast
    with Cons.IH [of q1] Cons.prems Enq fit show ?thesis
      by (simp add: kbytes_append kbytes_key split: if_splits)
  next
    case Deq
    from deq_result [OF Cons.prems(1)] obtain r q1 where
      "deq q = Some (r, q1)" "inv q1" "items q = (case r of None \<Rightarrow> [] | Some i \<Rightarrow> [key i]) @ items q1" by blast
    with Cons.IH [of q1] Cons.prems Deq show ?thesis
      by (auto simp: kbytes_append kbytes_key split: option.splits)
  qed
qed simp

lemma fifo_counted:
  assumes "inv q" and "items q = []" and "\<forall>i \<in> set (op_items ops). good i"
    and "length (op_items ops) < 2 ^ 32" and "items_bytes (op_items ops) < 2 ^ 32"
  shows "\<exists>accepted out q'. queue_run enq deq ops q = Some (accepted, out, q') \<and> inv q' \<and>
    map key accepted = map key out @ items q'"
proof -
  have "kbytes [] = 0" using kbytes_append [of "[]" "[]"] by simp
  then have "queue_ops_fit enq deq fits ops q" using assms by (intro ops_fit) auto
  from fifo_run [OF assms(1) this] assms(2) show ?thesis by auto
qed

end

interpretation droptail_counted: counted_queue DropTail_enq DropTail_deq "\<lambda>q. queue_inv q \<and> queue_bounded q"
  q_packets "\<lambda>i. i" "\<lambda>i q. counts_fit i (q_packets q)" queue_room items_bytes "\<lambda>_. True"
  by unfold_locales (auto simp: counts_fit_def)

text \<open>C13: a drop-tail queue is a bounded FIFO: starting empty, any sequence of enqueue and dequeue
  operations (whose packets together stay within the 32-bit counters) trips no assertion, delivers the
  accepted packets in the order they were accepted, keeps the rest queued, and never exceeds its limit.\<close>

theorem DropTail_fifo:
  assumes "length (op_items ops) < 2 ^ 32" and "items_bytes (op_items ops) < 2 ^ 32"
  shows "\<exists>accepted out q. queue_run DropTail_enq DropTail_deq ops (QueueBase m) = Some (accepted, out, q) \<and>
    accepted = out @ q_packets q \<and> queue_inv q \<and>
    queue_used (qs_unit (q_maxSize q)) (q_packets q) \<le> unat (qs_value (q_maxSize q))"
  using droptail_counted.fifo_counted [OF conjI [OF QueueBase_inv(1,2)] QueueBase_inv(3) _ assms, of m]
  by (auto simp: queue_bounded_def)

definition demo_item :: "nat \<Rightarrow> u32 \<Rightarrow> queue_item" where
  "demo_item n s = \<lparr>it_uid = n, it_size = s, it_priority = None, it_txq = 0, it_ecnCapable = False,
     it_marked = False, it_headerAdded = False, it_tstamp = 0\<rparr>"

theorem DropTail_fifo_witness:
  "\<exists>accepted out q. queue_run DropTail_enq DropTail_deq
       [Enq (demo_item 1 1000), Enq (demo_item 2 600), Deq] (QueueBase \<lparr>qs_unit = BYTES, qs_value = 1500\<rparr>) =
      Some (accepted, out, q) \<and> accepted = out @ q_packets q \<and> queue_inv q"
  using DropTail_fifo [of "[Enq (demo_item 1 1000), Enq (demo_item 2 600), Deq]" "\<lparr>qs_unit = BYTES, qs_value = 1500\<rparr>"]
  by (auto simp: demo_item_def)

text \<open>\<^verbatim>\<open>Flush\<close> terminates on every consistent queue: it removes all packets, firing for each the
  dequeue and the drop trace in queue order.\<close>

theorem DropTail_Flush_empties:
  assumes "queue_inv q"
  shows "\<exists>q'. DropTail_Flush q =
      Some (concat (map (\<lambda>i. [TraceDequeue i, TraceDropAfterDequeue i]) (q_packets q)), q') \<and>
    queue_IsEmpty q' \<and> q_packets q' = [] \<and> q_nBytes q' = 0"
proof -
  from DropTail_Flush_total [OF assms] obtain q' where
    "DropTail_Flush q = Some (concat (map (\<lambda>i. [TraceDequeue i, TraceDropAfterDequeue i]) (q_packets q)), q')"
    "queue_inv q'" "q_packets q' = []" by blast
  then show ?thesis by (auto simp: queue_inv_def queue_IsEmpty_def unat_eq_0)
qed

definition demo_queue :: pqueue where
  "demo_queue = (QueueBase \<lparr>qs_unit = PACKETS, qs_value = 5\<rparr>)
     \<lparr>q_packets := [demo_item 1 100, demo_item 2 50], q_nPackets := 2, q_nBytes := 150\<rparr>"

lemma demo_queue_inv: "queue_inv demo_queue"
  by (simp add: demo_queue_def queue_inv_def QueueBase_def demo_item_def)

theorem DropTail_Flush_empties_witness:
  "\<exists>tr q'. DropTail_Flush demo_queue = Some (tr, q') \<and> length tr = 4 \<and> queue_IsEmpty q'"
  using DropTail_Flush_empties [OF demo_queue_inv] by (auto simp: demo_queue_def)

end
