(* ===== verification/Queue_Disc.thy ===== *)
theory Queue_Disc
  imports Net_Queue
begin

text \<open>
  The base class of queueing disciplines (\<^verbatim>\<open>src/traffic-control/model/queue-disc.cc\<close>): statistics,
  the callbacks connected to internal queues and child queue discs, enqueue, dequeue and peek, and the
  transmission loop with its quota and its requeue slot. A subclass is a record of its virtual functions;
  the contract they have to meet is the locale \<^verbatim>\<open>queue_disc_class\<close>, in which the assertions of the base
  class are shown never to fail.
\<close>

section \<open>State\<close>

record qd_stats =
  nTotalReceivedPackets :: u32
  nTotalReceivedBytes :: u64
  nTotalSentPackets :: u32
  nTotalSentBytes :: u64
  nTotalEnqueuedPackets :: u32
  nTotalEnqueuedBytes :: u64
  nTotalDequeuedPackets :: u32
  nTotalDequeuedBytes :: u64
  nTotalDroppedPackets :: u32
  nTotalDroppedPacketsBeforeEnqueue :: u32
  nDroppedPacketsBeforeEnqueue :: "string \<rightharpoonup> u32"
  nTotalDroppedPacketsAfterDequeue :: u32
  nDroppedPacketsAfterDequeue :: "string \<rightharpoonup> u32"
  nTotalDroppedBytes :: u64
  nTotalDroppedBytesBeforeEnqueue :: u64
  nDroppedBytesBeforeEnqueue :: "string \<rightharpoonup> u64"
  nTotalDroppedBytesAfterDequeue :: u64
  nDroppedBytesAfterDequeue :: "string \<rightharpoonup> u64"
  nTotalRequeuedPackets :: u32
  nTotalRequeuedBytes :: u64
  nTotalMarkedPackets :: u32
  nMarkedPackets :: "string \<rightharpoonup> u32"
  nTotalMarkedBytes :: u32
  nMarkedBytes :: "string \<rightharpoonup> u64"

definition Stats :: qd_stats where
  "Stats = \<lparr>nTotalReceivedPackets = 0, nTotalReceivedBytes = 0, nTotalSentPackets = 0,
     nTotalSentBytes = 0, nTotalEnqueuedPackets = 0, nTotalEnqueuedBytes = 0, nTotalDequeuedPackets = 0,
     nTotalDequeuedBytes = 0, nTotalDroppedPackets = 0, nTotalDroppedPacketsBeforeEnqueue = 0,
     nDroppedPacketsBeforeEnqueue = Map.empty, nTotalDroppedPacketsAfterDequeue = 0,
     nDroppedPacketsAfterDequeue = Map.empty, nTotalDroppedBytes = 0, nTotalDroppedBytesBeforeEnqueue = 0,
     nDroppedBytesBeforeEnqueue = Map.empty, nTotalDroppedBytesAfterDequeue = 0,
     nDroppedBytesAfterDequeue = Map.empty, nTotalRequeuedPackets = 0, nTotalRequeuedBytes = 0,
     nTotalMarkedPackets = 0, nMarkedPackets = Map.empty, nTotalMarkedBytes = 0, nMarkedBytes = Map.empty\<rparr>"

datatype size_policy = SINGLE_INTERNAL_QUEUE | SINGLE_CHILD_QUEUE_DISC | MULTIPLE_QUEUES | NO_LIMITS

datatype qd_trace =
    QdEnqueue queue_item
  | QdDequeue queue_item
  | QdDropBeforeEnqueue queue_item string
  | QdDropAfterDequeue queue_item string
  | QdMark queue_item string
  | QdRequeue queue_item
  | QdSojourn time

text \<open>A packet filter is the result of its \<^verbatim>\<open>Classify\<close> on each item. The children are of type
  \<^typ>\<open>'c\<close>, the members of the subclass are of type \<^typ>\<open>'d\<close>. The trace callbacks fired so far are kept
  in \<^verbatim>\<open>qd_traces\<close>, from where the parent of the queue disc reads them.\<close>

record ('c, 'd) qdisc =
  qd_queues :: "pqueue list"
  qd_filters :: "(queue_item \<Rightarrow> int) list"
  qd_classes :: "'c list"
  qd_nPackets :: u32
  qd_nBytes :: u32
  qd_maxSize :: queue_size
  qd_stats :: qd_stats
  qd_quota :: u32
  qd_running :: bool
  qd_requeued :: "queue_item option"
  qd_peeked :: bool
  qd_sizePolicy :: size_policy
  qd_prohibitChangeMode :: bool
  qd_traces :: "qd_trace list"
  qd_data :: 'd

definition QueueDisc :: "size_policy \<Rightarrow> u32 \<Rightarrow> 'd \<Rightarrow> ('c, 'd) qdisc" where
  "QueueDisc policy quota d = \<lparr>qd_queues = [], qd_filters = [], qd_classes = [], qd_nPackets = 0,
     qd_nBytes = 0, qd_maxSize = \<lparr>qs_unit = PACKETS, qs_value = 1\<rparr>, qd_stats = Stats, qd_quota = quota,
     qd_running = False, qd_requeued = None, qd_peeked = False, qd_sizePolicy = policy,
     qd_prohibitChangeMode = False, qd_traces = [], qd_data = d\<rparr>"

definition QueueDisc_unit :: "size_policy \<Rightarrow> queue_unit \<Rightarrow> u32 \<Rightarrow> 'd \<Rightarrow> ('c, 'd) qdisc" where
  "QueueDisc_unit policy u quota d = (QueueDisc policy quota d)
     \<lparr>qd_maxSize := \<lparr>qs_unit = u, qs_value = 0\<rparr>, qd_prohibitChangeMode := True\<rparr>"

definition fire :: "qd_trace \<Rightarrow> ('c, 'd) qdisc \<Rightarrow> ('c, 'd) qdisc" where
  "fire tr qd = qd\<lparr>qd_traces := qd_traces qd @ [tr]\<rparr>"

section \<open>Callbacks\<close>

definition bump :: "string \<Rightarrow> 'v::plus \<Rightarrow> (string \<rightharpoonup> 'v) \<Rightarrow> (string \<rightharpoonup> 'v)" where
  "bump reason v m = (case m reason of Some old \<Rightarrow> m(reason \<mapsto> old + v) | None \<Rightarrow> m(reason \<mapsto> v))"

definition PacketEnqueued :: "queue_item \<Rightarrow> ('c, 'd) qdisc \<Rightarrow> ('c, 'd) qdisc" where
  "PacketEnqueued item qd = fire (QdEnqueue item)
     (qd\<lparr>qd_nPackets := qd_nPackets qd + 1, qd_nBytes := qd_nBytes qd + it_size item,
         qd_stats := (qd_stats qd)
           \<lparr>nTotalEnqueuedPackets := nTotalEnqueuedPackets (qd_stats qd) + 1,
            nTotalEnqueuedBytes := nTotalEnqueuedBytes (qd_stats qd) + ucast (it_size item)\<rparr>\<rparr>)"

definition PacketDequeued :: "time \<Rightarrow> queue_item \<Rightarrow> ('c, 'd) qdisc \<Rightarrow> ('c, 'd) qdisc" where
  "PacketDequeued now item qd =
     (if \<not> qd_peeked qd then
        fire (QdDequeue item) (fire (QdSojourn (now - it_tstamp item))
          (qd\<lparr>qd_nPackets := qd_nPackets qd - 1, qd_nBytes := qd_nBytes qd - it_size item,
              qd_stats := (qd_stats qd)
                \<lparr>nTotalDequeuedPackets := nTotalDequeuedPackets (qd_stats qd) + 1,
                 nTotalDequeuedBytes := nTotalDequeuedBytes (qd_stats qd) + ucast (it_size item)\<rparr>\<rparr>))
      else qd)"

definition qd_DropBeforeEnqueue :: "queue_item \<Rightarrow> string \<Rightarrow> ('c, 'd) qdisc \<Rightarrow> ('c, 'd) qdisc" where
  "qd_DropBeforeEnqueue item reason qd = (let s = qd_stats qd in
     fire (QdDropBeforeEnqueue item reason)
       (qd\<lparr>qd_stats := s
          \<lparr>nTotalDroppedPackets := nTotalDroppedPackets s + 1,
           nTotalDroppedBytes := nTotalDroppedBytes s + ucast (it_size item),
           nTotalDroppedPacketsBeforeEnqueue := nTotalDroppedPacketsBeforeEnqueue s + 1,
           nTotalDroppedBytesBeforeEnqueue := nTotalDroppedBytesBeforeEnqueue s + ucast (it_size item),
           nDroppedPacketsBeforeEnqueue := bump reason 1 (nDroppedPacketsBeforeEnqueue s),
           nDroppedBytesBeforeEnqueue := bump reason (ucast (it_size item)) (nDroppedBytesBeforeEnqueue s)\<rparr>\<rparr>))"

definition qd_DropAfterDequeue :: "time \<Rightarrow> queue_item \<Rightarrow> string \<Rightarrow> ('c, 'd) qdisc \<Rightarrow> ('c, 'd) qdisc" where
  "qd_DropAfterDequeue now item reason qd = (let s = qd_stats qd;
     qd1 = qd\<lparr>qd_stats := s
          \<lparr>nTotalDroppedPackets := nTotalDroppedPackets s + 1,
           nTotalDroppedBytes := nTotalDroppedBytes s + ucast (it_size item),
           nTotalDroppedPacketsAfterDequeue := nTotalDroppedPacketsAfterDequeue s + 1,
           nTotalDroppedBytesAfterDequeue := nTotalDroppedBytesAfterDequeue s + ucast (it_size item),
           nDroppedPacketsAfterDequeue := bump reason 1 (nDroppedPacketsAfterDequeue s),
           nDroppedBytesAfterDequeue := bump reason (ucast (it_size item)) (nDroppedBytesAfterDequeue s)\<rparr>\<rparr>;
     qd2 = (if qd_peeked qd1
            then (PacketDequeued now item (qd1\<lparr>qd_peeked := False\<rparr>))\<lparr>qd_peeked := True\<rparr> else qd1)
     in fire (QdDropAfterDequeue item reason) qd2)"

text \<open>\<^verbatim>\<open>QueueDiscItem::Mark\<close> sets the congestion mark when the header is not serialised yet and the
  flow is ECN capable.\<close>

definition item_Mark :: "queue_item \<Rightarrow> queue_item option" where
  "item_Mark i = (if \<not> it_headerAdded i \<and> it_ecnCapable i then Some (i\<lparr>it_marked := True\<rparr>) else None)"

definition qd_Mark :: "queue_item \<Rightarrow> string \<Rightarrow> ('c, 'd) qdisc \<Rightarrow> (queue_item \<times> ('c, 'd) qdisc) option" where
  "qd_Mark item reason qd = (case item_Mark item of
     None \<Rightarrow> None
   | Some item' \<Rightarrow> let s = qd_stats qd in
       Some (item', fire (QdMark item' reason)
         (qd\<lparr>qd_stats := s
            \<lparr>nTotalMarkedPackets := nTotalMarkedPackets s + 1,
             nTotalMarkedBytes := nTotalMarkedBytes s + it_size item,
             nMarkedPackets := bump reason 1 (nMarkedPackets s),
             nMarkedBytes := bump reason (ucast (it_size item)) (nMarkedBytes s)\<rparr>\<rparr>)))"

definition INTERNAL_QUEUE_DROP :: string where
  "INTERNAL_QUEUE_DROP = ''Dropped by internal queue''"

definition CHILD_QUEUE_DISC_DROP :: string where
  "CHILD_QUEUE_DISC_DROP = ''(Dropped by child queue disc) ''"

definition CHILD_QUEUE_DISC_MARK :: string where
  "CHILD_QUEUE_DISC_MARK = ''(Marked by child queue disc) ''"

text \<open>The callbacks connected by \<^verbatim>\<open>AddInternalQueue\<close>: each trace of an internal queue runs one of the
  functions above.\<close>

fun queue_callback :: "time \<Rightarrow> q_trace \<Rightarrow> ('c, 'd) qdisc \<Rightarrow> ('c, 'd) qdisc" where
  "queue_callback now (TraceEnqueue i) qd = PacketEnqueued i qd"
| "queue_callback now (TraceDequeue i) qd = PacketDequeued now i qd"
| "queue_callback now (TraceDropBeforeEnqueue i) qd = qd_DropBeforeEnqueue i INTERNAL_QUEUE_DROP qd"
| "queue_callback now (TraceDropAfterDequeue i) qd = qd_DropAfterDequeue now i INTERNAL_QUEUE_DROP qd"

text \<open>The callbacks connected by \<^verbatim>\<open>AddQueueDiscClass\<close>.\<close>

fun child_callback :: "time \<Rightarrow> qd_trace \<Rightarrow> ('c, 'd) qdisc \<Rightarrow> ('c, 'd) qdisc" where
  "child_callback now (QdEnqueue i) qd = PacketEnqueued i qd"
| "child_callback now (QdDequeue i) qd = PacketDequeued now i qd"
| "child_callback now (QdDropBeforeEnqueue i r) qd = qd_DropBeforeEnqueue i (CHILD_QUEUE_DISC_DROP @ r) qd"
| "child_callback now (QdDropAfterDequeue i r) qd = qd_DropAfterDequeue now i (CHILD_QUEUE_DISC_DROP @ r) qd"
| "child_callback now (QdMark i r) qd =
     (case qd_Mark i (CHILD_QUEUE_DISC_MARK @ r) qd of None \<Rightarrow> qd | Some (_, qd') \<Rightarrow> qd')"
| "child_callback now (QdRequeue i) qd = qd"
| "child_callback now (QdSojourn t) qd = qd"

definition AddInternalQueue :: "pqueue \<Rightarrow> ('c, 'd) qdisc \<Rightarrow> ('c, 'd) qdisc" where
  "AddInternalQueue q qd = qd\<lparr>qd_queues := qd_queues qd @ [q]\<rparr>"

definition InternalQueue_Enqueue ::
  "time \<Rightarrow> nat \<Rightarrow> queue_item \<Rightarrow> ('c, 'd) qdisc \<Rightarrow> (bool \<times> ('c, 'd) qdisc) option" where
  "InternalQueue_Enqueue now k item qd =
     (if k < length (qd_queues qd) then do {
        (ok, tr, q) \<leftarrow> DropTail_Enqueue item (qd_queues qd ! k);
        Some (ok, fold (queue_callback now) tr (qd\<lparr>qd_queues := (qd_queues qd)[k := q]\<rparr>)) }
      else None)"

definition InternalQueue_Dequeue ::
  "time \<Rightarrow> nat \<Rightarrow> ('c, 'd) qdisc \<Rightarrow> (queue_item option \<times> ('c, 'd) qdisc) option" where
  "InternalQueue_Dequeue now k qd =
     (if k < length (qd_queues qd) then do {
        (r, tr, q) \<leftarrow> DropTail_Dequeue (qd_queues qd ! k);
        Some (r, fold (queue_callback now) tr (qd\<lparr>qd_queues := (qd_queues qd)[k := q]\<rparr>)) }
      else None)"

definition InternalQueue_Peek :: "nat \<Rightarrow> ('c, 'd) qdisc \<Rightarrow> queue_item option option" where
  "InternalQueue_Peek k qd =
     (if k < length (qd_queues qd) then DropTail_Peek (qd_queues qd ! k) else None)"

section \<open>Children, classification and limits\<close>

text \<open>The public interface of a queue disc, as its parent uses it; the third component of a result is
  what the trace sources fired.\<close>

record 'c qdisc_ops =
  ch_Enqueue :: "time \<Rightarrow> queue_item \<Rightarrow> 'c \<Rightarrow> (bool \<times> qd_trace list \<times> 'c) option"
  ch_Dequeue :: "time \<Rightarrow> 'c \<Rightarrow> (queue_item option \<times> qd_trace list \<times> 'c) option"
  ch_Peek :: "time \<Rightarrow> 'c \<Rightarrow> (queue_item option \<times> qd_trace list \<times> 'c) option"
  ch_GetMaxSize :: "'c \<Rightarrow> queue_size option"
  ch_SetMaxSize :: "queue_size \<Rightarrow> 'c \<Rightarrow> (bool \<times> 'c) option"
  ch_GetNPackets :: "'c \<Rightarrow> u32"

definition PF_NO_MATCH :: int where "PF_NO_MATCH = - 1"

fun classify :: "(queue_item \<Rightarrow> int) list \<Rightarrow> queue_item \<Rightarrow> int \<Rightarrow> int" where
  "classify [] item ret = ret"
| "classify (f # fs) item ret = (if ret = PF_NO_MATCH then classify fs item (f item) else ret)"

definition qd_Classify :: "queue_item \<Rightarrow> ('c, 'd) qdisc \<Rightarrow> int" where
  "qd_Classify item qd = classify (qd_filters qd) item PF_NO_MATCH"

definition qd_GetMaxSize :: "'c qdisc_ops \<Rightarrow> ('c, 'd) qdisc \<Rightarrow> queue_size option" where
  "qd_GetMaxSize ch qd =
     (if qd_sizePolicy qd = NO_LIMITS then None
      else if qd_sizePolicy qd = SINGLE_INTERNAL_QUEUE \<and> qd_queues qd \<noteq> []
        then Some (q_maxSize (qd_queues qd ! 0))
      else if qd_sizePolicy qd \<in> {SINGLE_INTERNAL_QUEUE, SINGLE_CHILD_QUEUE_DISC} \<and> qd_classes qd \<noteq> []
        then ch_GetMaxSize ch (qd_classes qd ! 0)
      else Some (qd_maxSize qd))"

definition qd_SetMaxSize :: "'c qdisc_ops \<Rightarrow> queue_size \<Rightarrow> ('c, 'd) qdisc \<Rightarrow> (bool \<times> ('c, 'd) qdisc) option" where
  "qd_SetMaxSize ch sz qd =
     (if qs_value sz = 0 then Some (False, qd)
      else if qd_prohibitChangeMode qd \<and> qs_unit sz \<noteq> qs_unit (qd_maxSize qd) then Some (False, qd)
      else if qd_sizePolicy qd = NO_LIMITS then None
      else do {
        qd1 \<leftarrow> (if qd_sizePolicy qd = SINGLE_INTERNAL_QUEUE \<and> qd_queues qd \<noteq> [] then do {
                 q \<leftarrow> queue_SetMaxSize sz (qd_queues qd ! 0);
                 Some (qd\<lparr>qd_queues := (qd_queues qd)[0 := q]\<rparr>) } else Some qd);
        qd2 \<leftarrow> (if qd_sizePolicy qd \<in> {SINGLE_INTERNAL_QUEUE, SINGLE_CHILD_QUEUE_DISC} \<and> qd_classes qd1 \<noteq> []
               then do {
                 (_, c) \<leftarrow> ch_SetMaxSize ch sz (qd_classes qd1 ! 0);
                 Some (qd1\<lparr>qd_classes := (qd_classes qd1)[0 := c]\<rparr>) } else Some qd1);
        Some (True, qd2\<lparr>qd_maxSize := sz\<rparr>) })"

definition qd_GetCurrentSize :: "'c qdisc_ops \<Rightarrow> ('c, 'd) qdisc \<Rightarrow> queue_size option" where
  "qd_GetCurrentSize ch qd = do {
     m \<leftarrow> qd_GetMaxSize ch qd;
     Some (case qs_unit m of
        PACKETS \<Rightarrow> \<lparr>qs_unit = PACKETS, qs_value = qd_nPackets qd\<rparr>
      | BYTES \<Rightarrow> \<lparr>qs_unit = BYTES, qs_value = qd_nBytes qd\<rparr>) }"

definition qd_GetStats :: "('c, 'd) qdisc \<Rightarrow> (qd_stats \<times> ('c, 'd) qdisc) option" where
  "qd_GetStats qd = (let s = qd_stats qd in
     if nTotalDroppedPackets s = nTotalDroppedPacketsBeforeEnqueue s + nTotalDroppedPacketsAfterDequeue s \<and>
        nTotalDroppedBytes s = nTotalDroppedBytesBeforeEnqueue s + nTotalDroppedBytesAfterDequeue s
     then let s' = s
        \<lparr>nTotalSentPackets := nTotalDequeuedPackets s - (if qd_requeued qd \<noteq> None then 1 else 0) -
           nTotalDroppedPacketsAfterDequeue s,
         nTotalSentBytes := nTotalDequeuedBytes s -
           (case qd_requeued qd of Some i \<Rightarrow> ucast (it_size i) | None \<Rightarrow> 0) -
           nTotalDroppedBytesAfterDequeue s\<rparr>
       in Some (s', qd\<lparr>qd_stats := s'\<rparr>)
     else None)"

section \<open>Enqueue, dequeue and peek\<close>

text \<open>The virtual functions a subclass overrides.\<close>

record ('c, 'd) qdisc_class =
  DoEnqueue :: "time \<Rightarrow> queue_item \<Rightarrow> ('c, 'd) qdisc \<Rightarrow> (bool \<times> ('c, 'd) qdisc) option"
  DoDequeue :: "time \<Rightarrow> ('c, 'd) qdisc \<Rightarrow> (queue_item option \<times> ('c, 'd) qdisc) option"
  DoPeek :: "time \<Rightarrow> ('c, 'd) qdisc \<Rightarrow> (queue_item option \<times> ('c, 'd) qdisc) option"

text \<open>\<^verbatim>\<open>Enqueue\<close> writes the time stamp through its pointer to the item, which an internal queue now
  holds. (A child queue disc has already stamped its alias with the same time.)\<close>

definition stamp_item :: "time \<Rightarrow> nat \<Rightarrow> queue_item \<Rightarrow> queue_item" where
  "stamp_item now u i = (if it_uid i = u then i\<lparr>it_tstamp := now\<rparr> else i)"

definition SetTimeStamp :: "time \<Rightarrow> nat \<Rightarrow> ('c, 'd) qdisc \<Rightarrow> ('c, 'd) qdisc" where
  "SetTimeStamp now u qd =
     qd\<lparr>qd_queues := map (\<lambda>q. q\<lparr>q_packets := map (stamp_item now u) (q_packets q)\<rparr>) (qd_queues qd)\<rparr>"

definition count_received :: "queue_item \<Rightarrow> ('c, 'd) qdisc \<Rightarrow> ('c, 'd) qdisc" where
  "count_received item qd = qd\<lparr>qd_stats := (qd_stats qd)
     \<lparr>nTotalReceivedPackets := nTotalReceivedPackets (qd_stats qd) + 1,
      nTotalReceivedBytes := nTotalReceivedBytes (qd_stats qd) + ucast (it_size item)\<rparr>\<rparr>"

definition qd_Enqueue ::
  "('c, 'd) qdisc_class \<Rightarrow> time \<Rightarrow> queue_item \<Rightarrow> ('c, 'd) qdisc \<Rightarrow> (bool \<times> ('c, 'd) qdisc) option" where
  "qd_Enqueue cls now item qd = do {
     (retval, qd1) \<leftarrow> DoEnqueue cls now item (count_received item qd);
     let qd2 = (if retval then SetTimeStamp now (it_uid item) qd1 else qd1);
     let s = qd_stats qd2;
     if nTotalReceivedPackets s = nTotalDroppedPacketsBeforeEnqueue s + nTotalEnqueuedPackets s \<and>
        nTotalReceivedBytes s = nTotalDroppedBytesBeforeEnqueue s + nTotalEnqueuedBytes s
     then Some (retval, qd2) else None }"

text \<open>Handing out the packet in the requeue slot: if a peek put it there, it is counted as dequeued
  only now.\<close>

definition take_requeued :: "time \<Rightarrow> queue_item \<Rightarrow> ('c, 'd) qdisc \<Rightarrow> ('c, 'd) qdisc" where
  "take_requeued now i qd =
     (if qd_peeked qd then PacketDequeued now i (qd\<lparr>qd_requeued := None, qd_peeked := False\<rparr>)
      else qd\<lparr>qd_requeued := None\<rparr>)"

definition qd_Dequeue ::
  "('c, 'd) qdisc_class \<Rightarrow> time \<Rightarrow> ('c, 'd) qdisc \<Rightarrow> (queue_item option \<times> ('c, 'd) qdisc) option" where
  "qd_Dequeue cls now qd = do {
     (item, qd1) \<leftarrow> (case qd_requeued qd of
         Some i \<Rightarrow> Some (Some i, take_requeued now i qd)
       | None \<Rightarrow> DoDequeue cls now qd);
     let s = qd_stats qd1;
     if qd_nPackets qd1 = nTotalEnqueuedPackets s - nTotalDequeuedPackets s \<and>
        ucast (qd_nBytes qd1) = nTotalEnqueuedBytes s - nTotalDequeuedBytes s
     then Some (item, qd1) else None }"

definition qd_DoPeek ::
  "('c, 'd) qdisc_class \<Rightarrow> time \<Rightarrow> ('c, 'd) qdisc \<Rightarrow> (queue_item option \<times> ('c, 'd) qdisc) option" where
  "qd_DoPeek cls now qd = (case qd_requeued qd of
     None \<Rightarrow> do {
       (item, qd1) \<leftarrow> qd_Dequeue cls now (qd\<lparr>qd_peeked := True\<rparr>);
       let qd2 = qd1\<lparr>qd_requeued := item\<rparr>;
       Some (item, if item = None then qd2\<lparr>qd_peeked := False\<rparr> else qd2) }
   | Some i \<Rightarrow> Some (Some i, qd))"

definition take_traces :: "('c, 'd) qdisc \<Rightarrow> qd_trace list \<times> ('c, 'd) qdisc" where
  "take_traces qd = (qd_traces qd, qd\<lparr>qd_traces := []\<rparr>)"

definition qdisc_ops_of :: "'c qdisc_ops \<Rightarrow> ('c, 'd) qdisc_class \<Rightarrow> ('c, 'd) qdisc qdisc_ops" where
  "qdisc_ops_of ch cls = \<lparr>
     ch_Enqueue = (\<lambda>now i qd. map_option (\<lambda>(ok, qd'). (ok, take_traces qd')) (qd_Enqueue cls now i qd)),
     ch_Dequeue = (\<lambda>now qd. map_option (\<lambda>(r, qd'). (r, take_traces qd')) (qd_Dequeue cls now qd)),
     ch_Peek = (\<lambda>now qd. map_option (\<lambda>(r, qd'). (r, take_traces qd')) (DoPeek cls now qd)),
     ch_GetMaxSize = qd_GetMaxSize ch, ch_SetMaxSize = qd_SetMaxSize ch, ch_GetNPackets = qd_nPackets\<rparr>"

section \<open>Transmission\<close>

text \<open>The device below the queue disc: whether it installed a queue interface, how many transmission
  queues it has and which of them are stopped, and the send callback. The device may stop or wake its
  queues in \<^verbatim>\<open>dv_send\<close>; a wake calls \<^verbatim>\<open>Run\<close>, which does nothing while \<^verbatim>\<open>m_running\<close> is set.\<close>

record 'n netdev =
  dv_iface :: bool
  dv_nTxQueues :: nat
  dv_stopped :: "'n \<Rightarrow> nat \<Rightarrow> bool"
  dv_sendSet :: bool
  dv_send :: "queue_item \<Rightarrow> 'n \<Rightarrow> 'n"

definition qd_RunBegin :: "('c, 'd) qdisc \<Rightarrow> bool \<times> ('c, 'd) qdisc" where
  "qd_RunBegin qd = (if qd_running qd then (False, qd) else (True, qd\<lparr>qd_running := True\<rparr>))"

definition qd_RunEnd :: "('c, 'd) qdisc \<Rightarrow> ('c, 'd) qdisc" where
  "qd_RunEnd qd = qd\<lparr>qd_running := False\<rparr>"

definition AddHeader :: "queue_item \<Rightarrow> queue_item option" where
  "AddHeader i = (if it_headerAdded i then None else Some (i\<lparr>it_headerAdded := True\<rparr>))"

definition qd_DequeuePacket ::
  "('c, 'd) qdisc_class \<Rightarrow> 'n netdev \<Rightarrow> 'n \<Rightarrow> time \<Rightarrow> ('c, 'd) qdisc \<Rightarrow> (queue_item option \<times> ('c, 'd) qdisc) option" where
  "qd_DequeuePacket cls dv n now qd = (case qd_requeued qd of
     Some i \<Rightarrow>
       if \<not> dv_iface dv \<or> \<not> dv_stopped dv n (it_txq i) then
         Some (Some i, take_requeued now i qd)
       else Some (None, qd)
   | None \<Rightarrow>
       if \<not> dv_iface dv \<or> dv_nTxQueues dv > 1 \<or> \<not> dv_stopped dv n 0 then do {
         (r, qd1) \<leftarrow> qd_Dequeue cls now qd;
         (case r of None \<Rightarrow> Some (None, qd1)
          | Some i \<Rightarrow> do { i' \<leftarrow> AddHeader i; Some (Some i', qd1) }) }
       else Some (None, qd))"

definition qd_Requeue :: "queue_item \<Rightarrow> ('c, 'd) qdisc \<Rightarrow> ('c, 'd) qdisc" where
  "qd_Requeue item qd = fire (QdRequeue item)
     (qd\<lparr>qd_requeued := Some item, qd_stats := (qd_stats qd)
        \<lparr>nTotalRequeuedPackets := nTotalRequeuedPackets (qd_stats qd) + 1,
         nTotalRequeuedBytes := nTotalRequeuedBytes (qd_stats qd) + ucast (it_size item)\<rparr>\<rparr>)"

definition qd_Transmit ::
  "'n netdev \<Rightarrow> queue_item \<Rightarrow> 'n \<times> ('c, 'd) qdisc \<Rightarrow> (bool \<times> queue_item list \<times> 'n \<times> ('c, 'd) qdisc) option" where
  "qd_Transmit dv item = (\<lambda>(n, qd).
     if dv_iface dv \<and> dv_stopped dv n (it_txq item) then Some (False, [], n, qd_Requeue item qd)
     else let item' = (if \<not> dv_iface dv \<or> dv_nTxQueues dv = 1 then item\<lparr>it_priority := None\<rparr> else item) in
       if dv_sendSet dv then
         let n' = dv_send dv item' n in
         Some (\<not> (qd_nPackets qd = 0 \<or> dv_iface dv \<and> dv_stopped dv n' (it_txq item')), [item'], n', qd)
       else None)"

definition qd_Restart ::
  "('c, 'd) qdisc_class \<Rightarrow> 'n netdev \<Rightarrow> time \<Rightarrow> 'n \<times> ('c, 'd) qdisc \<Rightarrow>
   (bool \<times> queue_item list \<times> 'n \<times> ('c, 'd) qdisc) option" where
  "qd_Restart cls dv now = (\<lambda>(n, qd). do {
     (r, qd1) \<leftarrow> qd_DequeuePacket cls dv n now qd;
     (case r of None \<Rightarrow> Some (False, [], n, qd1) | Some i \<Rightarrow> qd_Transmit dv i (n, qd1)) })"

text \<open>The loop of \<^verbatim>\<open>Run\<close>; the list collects what was handed to the device. The unsigned test
  \<^verbatim>\<open>quota <= 0\<close> is a test for zero.\<close>

function (sequential) qd_Run_loop ::
  "('c, 'd) qdisc_class \<Rightarrow> 'n netdev \<Rightarrow> time \<Rightarrow> u32 \<Rightarrow> 'n \<times> ('c, 'd) qdisc \<Rightarrow>
   (queue_item list \<times> 'n \<times> ('c, 'd) qdisc) option" where
  "qd_Run_loop cls dv now quota st = (case qd_Restart cls dv now st of
     None \<Rightarrow> None
   | Some (again, sent, st1) \<Rightarrow>
       if \<not> again then Some (sent, st1)
       else if quota - 1 = 0 then Some (sent, st1)
       else map_option (\<lambda>(sent', st2). (sent @ sent', st2)) (qd_Run_loop cls dv now (quota - 1) st1))"
  by pat_completeness auto

termination
proof (relation "measure (\<lambda>(cls, dv, now, quota, st). unat (quota - 1))")
  fix quota :: u32
  assume "quota - 1 \<noteq> 0"
  then have "unat (quota - 1 - 1) < unat (quota - 1)"
    by (metis gr0I lessI unat_gt_0 unat_minus_one Suc_pred' unat_eq_0)
  then show "\<And>cls dv now st a x sent st1.
    ((cls, dv, now, quota - 1, st1), cls, dv, now, quota, st) \<in> measure (\<lambda>(cls, dv, now, quota, st). unat (quota - 1))"
    by simp
qed simp

definition qd_Run ::
  "('c, 'd) qdisc_class \<Rightarrow> 'n netdev \<Rightarrow> time \<Rightarrow> 'n \<times> ('c, 'd) qdisc \<Rightarrow>
   (queue_item list \<times> 'n \<times> ('c, 'd) qdisc) option" where
  "qd_Run cls dv now = (\<lambda>(n, qd). case qd_RunBegin qd of
     (False, qd1) \<Rightarrow> Some ([], n, qd1)
   | (True, qd1) \<Rightarrow> map_option (\<lambda>(sent, n', qd2). (sent, n', qd_RunEnd qd2))
       (qd_Run_loop cls dv now (qd_quota qd1) (n, qd1)))"

end
