(* ===== verification/Queue_Disc_Contract.thy ===== *)
theory Queue_Disc_Contract
  imports Queue_Disc
begin

text \<open>
  What the base class of queue discs relies on and guarantees: the bookkeeping invariant that makes the
  assertions in \<^verbatim>\<open>Enqueue\<close>, \<^verbatim>\<open>Dequeue\<close> and \<^verbatim>\<open>GetStats\<close> hold, the contract of the virtual functions
  of a subclass, and, for every subclass that meets it, the correctness of the public operations and of
  the transmission loop.
\<close>

declare qd_Run_loop.simps [simp del]

section \<open>Bookkeeping\<close>

lemma ucast_add_no_wrap:
  fixes a b :: u32
  assumes "unat a + unat b < 2 ^ 32"
  shows "(ucast (a + b) :: u64) = ucast a + ucast b"
proof -
  have "unat (a + b) = unat a + unat b" using assms by (simp add: unat_add_no_wrap)
  then have "(of_nat (unat (a + b)) :: u64) = of_nat (unat a) + of_nat (unat b)" by simp
  then show ?thesis by (simp only: of_nat_unat)
qed

lemma ucast_diff_no_wrap:
  fixes a b :: u32
  assumes "b \<le> a"
  shows "(ucast (a - b) :: u64) = ucast a - ucast b"
proof -
  have "(ucast (a - b) :: u64) + ucast b = ucast (a - b + b)"
    by (rule ucast_add_no_wrap [symmetric])
      (use assms unsigned_less [of a, where ?'a = nat] in \<open>simp add: unat_sub word_le_nat_alt\<close>)
  then show ?thesis by (simp add: algebra_simps)
qed

text \<open>What identifies an item for the bookkeeping: marks and time stamps may change.\<close>

definition ikey :: "queue_item \<Rightarrow> (nat \<times> u32) \<times> bool" where
  "ikey i = ((it_uid i, it_size i), it_headerAdded i)"

abbreviation keys :: "queue_item list \<Rightarrow> ((nat \<times> u32) \<times> bool) multiset" where
  "keys xs \<equiv> image_mset ikey (mset xs)"

lemma keys_size: "keys xs = keys ys \<Longrightarrow> length xs = length ys"
  by (metis size_image_mset size_mset)

lemma items_bytes_keys: "items_bytes xs = sum_mset (image_mset (\<lambda>((u, s), h). unat s) (keys xs))"
  by (induction xs) (auto simp: ikey_def)

lemma keys_bytes: "keys xs = keys ys \<Longrightarrow> items_bytes xs = items_bytes ys"
  by (simp only: items_bytes_keys)

lemma keys_load:
  assumes "keys xs = keys (ys @ zs)"
  shows "length xs = length ys + length zs" "items_bytes xs = items_bytes ys + items_bytes zs"
  using keys_size [OF assms] keys_bytes [OF assms] by simp_all

lemma counts_fit_keys: "keys xs = keys ys \<Longrightarrow> counts_fit i xs \<longleftrightarrow> counts_fit i ys"
  unfolding counts_fit_def using keys_size [of xs ys] keys_bytes [of xs ys] by metis

text \<open>Sending a packet adds its header: identity and size remain.\<close>

definition skey :: "queue_item \<Rightarrow> nat \<times> u32" where
  "skey i = (it_uid i, it_size i)"

abbreviation skeys :: "queue_item list \<Rightarrow> (nat \<times> u32) multiset" where
  "skeys xs \<equiv> image_mset skey (mset xs)"

lemma keys_skeys: "keys xs = keys ys \<Longrightarrow> skeys xs = skeys ys"
proof -
  have "skeys zs = image_mset fst (keys zs)" for zs
    by (induction zs) (simp_all add: ikey_def skey_def)
  then show "keys xs = keys ys \<Longrightarrow> skeys xs = skeys ys" by simp
qed

text \<open>The part of the state the bookkeeping is about, the frame a subclass leaves alone, and the part a
  subclass owns.\<close>

definition acct :: "('c, 'd) qdisc \<Rightarrow> (u32 \<times> u32) \<times> (u32 \<times> u64) list" where
  "acct qd = (let s = qd_stats qd in
     ((qd_nPackets qd, qd_nBytes qd),
      [(nTotalReceivedPackets s, nTotalReceivedBytes s), (nTotalEnqueuedPackets s, nTotalEnqueuedBytes s),
       (nTotalDequeuedPackets s, nTotalDequeuedBytes s), (nTotalDroppedPackets s, nTotalDroppedBytes s),
       (nTotalDroppedPacketsBeforeEnqueue s, nTotalDroppedBytesBeforeEnqueue s),
       (nTotalDroppedPacketsAfterDequeue s, nTotalDroppedBytesAfterDequeue s)]))"

definition frame :: "('c, 'd) qdisc \<Rightarrow> u32 \<times> bool \<times> bool \<times> queue_item option" where
  "frame qd = (qd_quota qd, qd_running qd, qd_peeked qd, qd_requeued qd)"

definition body :: "('c, 'd) qdisc \<Rightarrow>
    pqueue list \<times> (queue_item \<Rightarrow> int) list \<times> 'c list \<times> queue_size \<times> size_policy \<times> 'd" where
  "body qd = (qd_queues qd, qd_filters qd, qd_classes qd, qd_maxSize qd, qd_sizePolicy qd, qd_data qd)"

lemmas qd_unfold = acct_def frame_def body_def fire_def Let_def

lemma body_simps [simp]:
  "body (PacketEnqueued i qd) = body qd" "body (PacketDequeued now i qd) = body qd"
  "body (qd_DropBeforeEnqueue i r qd) = body qd" "body (qd_DropAfterDequeue now i r qd) = body qd"
  "body (count_received i qd) = body qd" "body (qd_Requeue i qd) = body qd" "body (fire tr qd) = body qd"
  "body (qd\<lparr>qd_peeked := b\<rparr>) = body qd" "body (qd\<lparr>qd_requeued := x\<rparr>) = body qd"
  "body (qd\<lparr>qd_running := b\<rparr>) = body qd" "body (qd\<lparr>qd_traces := ts\<rparr>) = body qd"
  "body (qd\<lparr>qd_stats := s\<rparr>) = body qd"
  by (simp_all add: qd_unfold PacketEnqueued_def PacketDequeued_def qd_DropBeforeEnqueue_def
      qd_DropAfterDequeue_def count_received_def qd_Requeue_def)

lemma frame_simps [simp]:
  "frame (PacketEnqueued i qd) = frame qd" "frame (PacketDequeued now i qd) = frame qd"
  "frame (qd_DropBeforeEnqueue i r qd) = frame qd" "frame (qd_DropAfterDequeue now i r qd) = frame qd"
  "frame (count_received i qd) = frame qd"
  by (simp_all add: qd_unfold PacketEnqueued_def PacketDequeued_def qd_DropBeforeEnqueue_def
      qd_DropAfterDequeue_def count_received_def)

lemma frameD:
  "frame qd' = frame qd \<Longrightarrow> qd_quota qd' = qd_quota qd \<and> qd_running qd' = qd_running qd \<and>
     qd_peeked qd' = qd_peeked qd \<and> qd_requeued qd' = qd_requeued qd"
  by (simp add: frame_def)

text \<open>The books are in order for the items \<^term>\<open>h\<close> inside the queue disc, when the items
  \<^term>\<open>p\<close> were received but are neither enqueued nor dropped yet.\<close>

definition books_stats :: "u32 \<times> u64 \<Rightarrow> ('c, 'd) qdisc \<Rightarrow> bool" where
  "books_stats p qd \<longleftrightarrow> (let s = qd_stats qd in
     nTotalDroppedPackets s = nTotalDroppedPacketsBeforeEnqueue s + nTotalDroppedPacketsAfterDequeue s \<and>
     nTotalDroppedBytes s = nTotalDroppedBytesBeforeEnqueue s + nTotalDroppedBytesAfterDequeue s \<and>
     nTotalReceivedPackets s = nTotalDroppedPacketsBeforeEnqueue s + nTotalEnqueuedPackets s + fst p \<and>
     nTotalReceivedBytes s = nTotalDroppedBytesBeforeEnqueue s + nTotalEnqueuedBytes s + snd p \<and>
     nTotalEnqueuedPackets s = qd_nPackets qd + nTotalDequeuedPackets s \<and>
     nTotalEnqueuedBytes s = ucast (qd_nBytes qd) + nTotalDequeuedBytes s)"

definition books :: "u32 \<times> u64 \<Rightarrow> ('c, 'd) qdisc \<Rightarrow> nat \<Rightarrow> nat \<Rightarrow> bool" where
  "books p qd n b \<longleftrightarrow> books_stats p qd \<and> unat (qd_nPackets qd) = n \<and> unat (qd_nBytes qd) = b"

lemma books_cong: "acct qd' = acct qd \<Longrightarrow> books p qd' n b \<longleftrightarrow> books p qd n b"
  by (auto simp: books_def books_stats_def acct_def Let_def)

lemma books_received:
  assumes "books (0, 0) qd n b"
  shows "books (1, ucast (it_size i)) (count_received i qd) n b"
  using assms by (auto simp: books_def books_stats_def Let_def count_received_def)

lemma books_enqueued:
  assumes "books (1, ucast (it_size i)) qd n b" and "n + 1 < 2 ^ 32" and "b + unat (it_size i) < 2 ^ 32"
  shows "books (0, 0) (PacketEnqueued i qd) (n + 1) (b + unat (it_size i))"
  using assms
  by (auto simp: books_def books_stats_def Let_def PacketEnqueued_def fire_def ucast_add_no_wrap
      unat_add_no_wrap)

lemma books_dropped_before:
  assumes "books (1, ucast (it_size i)) qd n b"
  shows "books (0, 0) (qd_DropBeforeEnqueue i r qd) n b"
  using assms
  by (auto simp: books_def books_stats_def qd_DropBeforeEnqueue_def fire_def Let_def)

lemma books_dequeued:
  assumes "books p qd (n + 1) (b + unat (it_size i))" and "\<not> qd_peeked qd"
  shows "books p (PacketDequeued now i qd) n b"
proof -
  have "it_size i \<le> qd_nBytes qd" and "qd_nPackets qd \<noteq> 0"
    using assms(1) by (auto simp: books_def word_le_nat_alt)
  then show ?thesis using assms
    by (auto simp: books_def books_stats_def Let_def PacketDequeued_def fire_def ucast_diff_no_wrap
        unat_sub unat_minus_one)
qed

lemma PacketDequeued_peeked [simp]: "qd_peeked qd \<Longrightarrow> PacketDequeued now i qd = qd"
  by (simp add: PacketDequeued_def)

lemma PacketDequeued_flags [simp]:
  "qd_peeked (PacketDequeued now i qd) = qd_peeked qd" "qd_requeued (PacketDequeued now i qd) = qd_requeued qd"
  "qd_running (PacketDequeued now i qd) = qd_running qd" "qd_quota (PacketDequeued now i qd) = qd_quota qd"
  by (simp_all add: PacketDequeued_def fire_def)

lemma acct_flags [simp]:
  "acct (qd\<lparr>qd_peeked := pk\<rparr>) = acct qd" "acct (qd\<lparr>qd_requeued := x\<rparr>) = acct qd"
  "acct (qd\<lparr>qd_running := pk\<rparr>) = acct qd" "acct (qd\<lparr>qd_traces := ts\<rparr>) = acct qd"
  by (simp_all add: acct_def Let_def)

lemma books_flags [simp]:
  "books p (qd\<lparr>qd_peeked := pk\<rparr>) n b \<longleftrightarrow> books p qd n b"
  "books p (qd\<lparr>qd_requeued := x\<rparr>) n b \<longleftrightarrow> books p qd n b"
  "books p (qd\<lparr>qd_running := pk\<rparr>) n b \<longleftrightarrow> books p qd n b"
  by (simp_all add: books_def books_stats_def Let_def)

text \<open>Dropping an item that has just been dequeued; with a peek under way the drop itself counts it as
  dequeued.\<close>

definition drop_effect :: "time \<Rightarrow> queue_item \<times> string \<Rightarrow> ('c, 'd) qdisc \<Rightarrow> ('c, 'd) qdisc" where
  "drop_effect now = (\<lambda>(i, r) qd. qd_DropAfterDequeue now i r (PacketDequeued now i qd))"

lemma books_dropped_not_peeked:
  assumes "books p qd n b" and "\<not> qd_peeked qd"
  shows "books p (qd_DropAfterDequeue now i r qd) n b"
  using assms
  by (auto simp: books_def books_stats_def qd_DropAfterDequeue_def fire_def Let_def)

lemma DropAfterDequeue_peeked:
  assumes "qd_peeked qd"
  shows "acct (qd_DropAfterDequeue now i r qd) =
    acct (qd_DropAfterDequeue now i r (PacketDequeued now i (qd\<lparr>qd_peeked := False\<rparr>)))"
  using assms by (auto simp: qd_DropAfterDequeue_def PacketDequeued_def acct_def fire_def Let_def)

lemma books_drop_effect:
  assumes "books p qd (n + 1) (b + unat (it_size i))"
  shows "books p (drop_effect now (i, r) qd) n b"
proof (cases "qd_peeked qd")
  case False
  with books_dropped_not_peeked [OF books_dequeued [OF assms False, of now]] show ?thesis
    by (simp add: drop_effect_def)
next
  case True
  let ?q = "qd\<lparr>qd_peeked := False\<rparr>"
  have "books p (qd_DropAfterDequeue now i r (PacketDequeued now i ?q)) n b"
    using books_dropped_not_peeked [OF books_dequeued [of p ?q n b i now], of now i r] assms by simp
  with books_cong [OF DropAfterDequeue_peeked [OF True, of now i r]] True show ?thesis
    by (simp add: drop_effect_def)
qed

lemma books_drop_effects:
  "books p qd (n + length ds) (b + items_bytes (map fst ds)) \<Longrightarrow> books p (fold (drop_effect now) ds qd) n b"
proof (induction ds arbitrary: qd)
  case (Cons d ds)
  obtain i r where d: "d = (i, r)" by (cases d)
  have "books p (drop_effect now d qd) (n + length ds) (b + items_bytes (map fst ds))"
    using Cons.prems d by (intro books_drop_effect [of p qd _ _ i now r, folded d]) (simp add: algebra_simps)
  with Cons.IH show ?case by simp
qed simp

lemma frame_fold_drops [simp]: "frame (fold (drop_effect now) ds qd) = frame qd"
  by (induction ds arbitrary: qd) (auto simp: drop_effect_def split: prod.splits)

section \<open>The contract of a subclass\<close>

abbreviation opt_list :: "'a option \<Rightarrow> 'a list" where
  "opt_list r \<equiv> (case r of None \<Rightarrow> [] | Some x \<Rightarrow> [x])"

definition peek_slot :: "('c, 'd) qdisc \<Rightarrow> queue_item list" where
  "peek_slot qd = (if qd_peeked qd then opt_list (qd_requeued qd) else [])"

text \<open>\<^verbatim>\<open>held\<close> lists the items a subclass has in its internal queues and children. \<^verbatim>\<open>DoEnqueue\<close>
  either stores the item or drops it, telling the base class exactly once; \<^verbatim>\<open>DoDequeue\<close> may drop some
  items and returns at most one, telling the base class about each. A returned item may have been marked.\<close>

definition enqueue_effect :: "bool \<Rightarrow> queue_item \<Rightarrow> string \<Rightarrow> ('c, 'd) qdisc \<Rightarrow> ('c, 'd) qdisc" where
  "enqueue_effect ok item r = (if ok then PacketEnqueued item else qd_DropBeforeEnqueue item r)"

locale queue_disc_class =
  fixes cls :: "('c, 'd) qdisc_class"
    and dinv :: "('c, 'd) qdisc \<Rightarrow> bool"
    and held :: "('c, 'd) qdisc \<Rightarrow> queue_item list"
  assumes dinv_body: "body qd' = body qd \<Longrightarrow> dinv qd' \<longleftrightarrow> dinv qd"
    and held_body: "body qd' = body qd \<Longrightarrow> held qd' = held qd"
    and stamp_ok: "dinv qd \<Longrightarrow> dinv (SetTimeStamp now u qd) \<and> keys (held (SetTimeStamp now u qd)) = keys (held qd)"
    and enqueue_law: "dinv qd \<Longrightarrow> counts_fit item (held qd) \<Longrightarrow>
      \<exists>ok ds h r qd'. DoEnqueue cls now item qd = Some (ok, qd') \<and> dinv qd' \<and> frame qd' = frame qd \<and>
        keys (held qd) = keys (map fst ds @ h) \<and> keys (held qd') = keys (if ok then item # h else h) \<and>
        acct qd' = acct (enqueue_effect ok item r (fold (drop_effect now) ds qd))"
    and dequeue_law: "dinv qd \<Longrightarrow>
      \<exists>r ds qd'. DoDequeue cls now qd = Some (r, qd') \<and> dinv qd' \<and> frame qd' = frame qd \<and>
        keys (held qd) = keys (map fst ds @ opt_list r @ held qd') \<and>
        acct qd' = acct (fold (PacketDequeued now) (opt_list r) (fold (drop_effect now) ds qd))"
begin

text \<open>All items in the queue disc: a peeked item still counts.\<close>

definition in_disc :: "('c, 'd) qdisc \<Rightarrow> queue_item list" where
  "in_disc qd = held qd @ peek_slot qd"

definition qd_inv :: "('c, 'd) qdisc \<Rightarrow> bool" where
  "qd_inv qd \<longleftrightarrow> dinv qd \<and> books (0, 0) qd (length (in_disc qd)) (items_bytes (in_disc qd)) \<and>
     (\<forall>k \<in># keys (in_disc qd). \<not> snd k) \<and> (qd_peeked qd \<longrightarrow> qd_requeued qd \<noteq> None)"

lemma SetTimeStamp_simps [simp]:
  "acct (SetTimeStamp now u qd) = acct qd" "frame (SetTimeStamp now u qd) = frame qd"
  "qd_stats (SetTimeStamp now u qd) = qd_stats qd"
  by (simp_all add: SetTimeStamp_def acct_def frame_def Let_def)

lemma peek_slot_frame: "frame qd' = frame qd \<Longrightarrow> peek_slot qd' = peek_slot qd"
  by (simp add: frame_def peek_slot_def)

lemma books_asserts:
  assumes "books (0, 0) qd n b"
  shows "nTotalReceivedPackets (qd_stats qd) =
      nTotalDroppedPacketsBeforeEnqueue (qd_stats qd) + nTotalEnqueuedPackets (qd_stats qd)"
    "nTotalReceivedBytes (qd_stats qd) =
      nTotalDroppedBytesBeforeEnqueue (qd_stats qd) + nTotalEnqueuedBytes (qd_stats qd)"
    "qd_nPackets qd = nTotalEnqueuedPackets (qd_stats qd) - nTotalDequeuedPackets (qd_stats qd)"
    "ucast (qd_nBytes qd) = nTotalEnqueuedBytes (qd_stats qd) - nTotalDequeuedBytes (qd_stats qd)"
    "nTotalDroppedPackets (qd_stats qd) =
      nTotalDroppedPacketsBeforeEnqueue (qd_stats qd) + nTotalDroppedPacketsAfterDequeue (qd_stats qd)"
    "nTotalDroppedBytes (qd_stats qd) =
      nTotalDroppedBytesBeforeEnqueue (qd_stats qd) + nTotalDroppedBytesAfterDequeue (qd_stats qd)"
  using assms by (auto simp: books_def books_stats_def Let_def)

lemma counts_fit_append: "counts_fit i (xs @ ys) \<Longrightarrow> counts_fit i xs"
  by (auto simp: counts_fit_def)

text \<open>\<^verbatim>\<open>Enqueue\<close> trips no assertion; the item is in the queue disc afterwards exactly when the call
  returns true, and nothing else moves.\<close>

lemma books_enqueue_effect:
  assumes books: "books (1, ucast (it_size item)) qd n b" and fit: "n + 1 < 2 ^ 32" "b + unat (it_size item) < 2 ^ 32"
  shows "books (0, 0) (enqueue_effect ok item r qd) (if ok then n + 1 else n) (if ok then b + unat (it_size item) else b)"
  using books_enqueued [OF books fit] books_dropped_before [OF books, of r] by (simp add: enqueue_effect_def)

lemma enqueue_ok:
  assumes inv: "qd_inv qd" and fit: "counts_fit item (in_disc qd)" and new: "\<not> it_headerAdded item"
  shows "\<exists>ok dr h qd'. qd_Enqueue cls now item qd = Some (ok, qd') \<and> qd_inv qd' \<and> frame qd' = frame qd \<and>
    keys (in_disc qd) = keys (dr @ h) \<and> keys (in_disc qd') = keys (if ok then item # h else h)"
proof -
  let ?q0 = "count_received item qd"
  have h0: "held ?q0 = held qd" by (rule held_body) simp
  have d0: "dinv ?q0" using inv dinv_body [of ?q0 qd] by (simp add: qd_inv_def)
  have "counts_fit item (held ?q0)" using fit h0 by (simp add: in_disc_def counts_fit_append)
  from enqueue_law [OF d0 this, of now] obtain ok ds h r q1 where
    q1: "DoEnqueue cls now item ?q0 = Some (ok, q1)" "dinv q1" "frame q1 = frame qd"
      "keys (held qd) = keys (map fst ds @ h)" "keys (held q1) = keys (if ok then item # h else h)"
      "acct q1 = acct (enqueue_effect ok item r (fold (drop_effect now) ds ?q0))"
    unfolding h0 by auto
  define q2 where "q2 = (if ok then SetTimeStamp now (it_uid item) q1 else q1)"
  have q2: "dinv q2" "frame q2 = frame qd" "acct q2 = acct q1" "keys (held q2) = keys (held q1)"
    using q1(2,3) stamp_ok [OF q1(2)] by (auto simp: q2_def)
  define h' where "h' = h @ peek_slot qd"
  have ks: "keys (in_disc qd) = keys (map fst ds @ h')" "keys (in_disc q2) = keys (if ok then item # h' else h')"
    using q1(4,5) q2(4) peek_slot_frame [OF q2(2)] by (auto simp: in_disc_def h'_def split: if_splits)
  have load: "length (in_disc qd) = length h' + length ds"
    "items_bytes (in_disc qd) = items_bytes h' + items_bytes (map fst ds)"
    using keys_size [OF ks(1)] keys_bytes [OF ks(1)] by simp_all
  have "books (1, ucast (it_size item)) ?q0 (length (in_disc qd)) (items_bytes (in_disc qd))"
    using inv by (intro books_received) (simp add: qd_inv_def)
  then have "books (1, ucast (it_size item)) (fold (drop_effect now) ds ?q0) (length h') (items_bytes h')"
    using load by (intro books_drop_effects) simp
  from books_enqueue_effect [OF this, of ok r] fit load
  have "books (0, 0) (enqueue_effect ok item r (fold (drop_effect now) ds ?q0))
      (length (if ok then item # h' else h')) (items_bytes (if ok then item # h' else h'))"
    by (auto simp: counts_fit_def add.commute split: if_splits)
  then have bk: "books (0, 0) q2 (length (in_disc q2)) (items_bytes (in_disc q2))"
    using books_cong [OF q2(3)] books_cong [OF q1(6)] keys_size [OF ks(2)] keys_bytes [OF ks(2)] by simp
  have "\<forall>k \<in># keys h'. \<not> snd k" using inv ks(1) by (auto simp: qd_inv_def)
  then have "\<forall>k \<in># keys (in_disc q2). \<not> snd k" unfolding ks(2) using new by (auto simp: ikey_def)
  then have "qd_inv q2" "qd_Enqueue cls now item qd = Some (ok, q2)"
    using bk q1(1) q2(1,2) inv books_asserts [OF bk] frameD [OF q2(2)]
    by (auto simp: qd_inv_def qd_Enqueue_def q2_def [symmetric] Let_def)
  with q2(2) ks show ?thesis by blast
qed

text \<open>\<^verbatim>\<open>DoDequeue\<close> keeps the books; while a peek is under way the returned item still counts.\<close>

definition still_held :: "('c, 'd) qdisc \<Rightarrow> queue_item option \<Rightarrow> ('c, 'd) qdisc \<Rightarrow> queue_item list" where
  "still_held qd r qd' = held qd' @ (if qd_peeked qd then opt_list r else [])"

lemma do_dequeue_ok:
  assumes "dinv qd" and books: "books (0, 0) qd (length (held qd)) (items_bytes (held qd))"
  shows "\<exists>r dr qd'. DoDequeue cls now qd = Some (r, qd') \<and> dinv qd' \<and> frame qd' = frame qd \<and>
    keys (held qd) = keys (dr @ opt_list r @ held qd') \<and>
    books (0, 0) qd' (length (still_held qd r qd')) (items_bytes (still_held qd r qd'))"
proof -
  from dequeue_law [OF assms(1), of now] obtain r ds qd' where
    l: "DoDequeue cls now qd = Some (r, qd')" "dinv qd'" "frame qd' = frame qd"
      "keys (held qd) = keys (map fst ds @ opt_list r @ held qd')"
      "acct qd' = acct (fold (PacketDequeued now) (opt_list r) (fold (drop_effect now) ds qd))" by blast
  let ?q1 = "fold (drop_effect now) ds qd"
  let ?h = "held qd' @ opt_list r"
  have "books (0, 0) ?q1 (length ?h) (items_bytes ?h)"
    using books keys_size [OF l(4)] keys_bytes [OF l(4)]
    by (intro books_drop_effects) (simp add: algebra_simps)
  moreover have "qd_peeked ?q1 = qd_peeked qd" using frameD [OF frame_fold_drops] by blast
  ultimately have "books (0, 0) (fold (PacketDequeued now) (opt_list r) ?q1)
      (length (still_held qd r qd')) (items_bytes (still_held qd r qd'))"
    using books_dequeued [of "(0, 0)" ?q1 "length (held qd')" "items_bytes (held qd')" _ now]
    by (auto simp: still_held_def split: option.splits)
  with books_cong [OF l(5)] l(1-4) show ?thesis by blast
qed

text \<open>Everything the queue disc is responsible for, a requeued item included.\<close>

definition owned :: "('c, 'd) qdisc \<Rightarrow> queue_item list" where
  "owned qd = held qd @ opt_list (qd_requeued qd)"

lemma in_disc_no_requeue: "qd_requeued qd = None \<Longrightarrow> in_disc qd = held qd"
  by (simp add: in_disc_def peek_slot_def)

lemma qd_inv_not_peeked:
  assumes "dinv qd" and "books (0, 0) qd (length (held qd)) (items_bytes (held qd))"
    and "\<forall>k \<in># keys (held qd). \<not> snd k" and "\<not> qd_peeked qd"
  shows "qd_inv qd"
  using assms by (simp add: qd_inv_def in_disc_def peek_slot_def)

lemma take_requeued_ok:
  assumes inv: "qd_inv qd" and i: "qd_requeued qd = Some i"
  shows "qd_inv (take_requeued now i qd)" and "held (take_requeued now i qd) = held qd"
proof -
  let ?q = "take_requeued now i qd"
  have "body ?q = body qd" by (simp add: take_requeued_def)
  from dinv_body [OF this] held_body [OF this] have dh: "dinv ?q" "held ?q = held qd"
    using inv by (simp_all add: qd_inv_def)
  have "books (0, 0) ?q (length (held qd)) (items_bytes (held qd))"
  proof (cases "qd_peeked qd")
    case True
    then have "books (0, 0) (qd\<lparr>qd_requeued := None, qd_peeked := False\<rparr>)
        (length (held qd) + 1) (items_bytes (held qd) + unat (it_size i))"
      using inv i by (simp add: qd_inv_def in_disc_def peek_slot_def)
    from books_dequeued [OF this] True show ?thesis by (simp add: take_requeued_def)
  next
    case False
    then show ?thesis using inv by (simp add: take_requeued_def qd_inv_def in_disc_def peek_slot_def)
  qed
  moreover have "\<forall>k \<in># keys (held qd). \<not> snd k" using inv by (auto simp: qd_inv_def in_disc_def)
  ultimately show "qd_inv ?q" using dh by (intro qd_inv_not_peeked) (simp_all add: take_requeued_def)
  show "held ?q = held qd" by (rule dh(2))
qed

lemma take_requeued_flags [simp]:
  "qd_requeued (take_requeued now i qd) = None" "\<not> qd_peeked (take_requeued now i qd)"
  "qd_running (take_requeued now i qd) = qd_running qd" "qd_quota (take_requeued now i qd) = qd_quota qd"
  by (simp_all add: take_requeued_def)

lemma books_nPackets: "books p qd n b \<Longrightarrow> qd_nPackets qd = of_nat n"
  by (auto simp: books_def)

lemma dequeue_ok:
  assumes "qd_inv qd"
  shows "\<exists>r dr qd'. qd_Dequeue cls now qd = Some (r, qd') \<and> qd_inv qd' \<and> qd_requeued qd' = None \<and>
    keys (owned qd) = keys (dr @ opt_list r @ owned qd') \<and> \<not> qd_peeked qd' \<and>
    qd_running qd' = qd_running qd \<and> qd_quota qd' = qd_quota qd"
proof (cases "qd_requeued qd")
  case (Some i)
  let ?q = "take_requeued now i qd"
  note q = take_requeued_ok [OF assms Some, of now]
  then have "books (0, 0) ?q (length (in_disc ?q)) (items_bytes (in_disc ?q))" by (simp add: qd_inv_def)
  from books_asserts [OF this] Some have "qd_Dequeue cls now qd = Some (Some i, ?q)"
    by (simp add: qd_Dequeue_def Let_def)
  with q Some show ?thesis by (intro exI [of _ "Some i"] exI [of _ "[]"] exI [of _ ?q]) (simp add: owned_def)
next
  case None
  with assms have pk: "\<not> qd_peeked qd" by (auto simp: qd_inv_def)
  from assms None have "dinv qd" "books (0, 0) qd (length (held qd)) (items_bytes (held qd))"
    and fresh: "\<forall>k \<in># keys (held qd). \<not> snd k"
    by (simp_all add: qd_inv_def in_disc_no_requeue)
  from do_dequeue_ok [OF this(1,2), of now] pk obtain r dr qd' where
    l: "DoDequeue cls now qd = Some (r, qd')" "dinv qd'" "frame qd' = frame qd"
      "keys (held qd) = keys (dr @ opt_list r @ held qd')"
      "books (0, 0) qd' (length (held qd')) (items_bytes (held qd'))"
    unfolding still_held_def by (simp only: if_False append_Nil2) blast
  from l(4) fresh have "\<forall>k \<in># keys (held qd'). \<not> snd k" by (metis image_mset_union mset_append union_iff)
  then have "qd_inv qd'" using l frameD [OF l(3)] pk by (intro qd_inv_not_peeked) auto
  moreover have "qd_Dequeue cls now qd = Some (r, qd')"
    using books_asserts [OF l(5)] l(1) None by (simp add: qd_Dequeue_def Let_def)
  moreover have "keys (owned qd) = keys (dr @ opt_list r @ owned qd')"
    using l(4) frameD [OF l(3)] None by (simp add: owned_def)
  ultimately show ?thesis using frameD [OF l(3)] None pk
    by (intro exI [of _ r] exI [of _ dr] exI [of _ qd']) auto
qed

text \<open>\<^verbatim>\<open>Peek\<close> (the default one) moves the item to the requeue slot; every counter still counts it.\<close>

lemma peek_ok:
  assumes "qd_inv qd"
  shows "\<exists>dr qd'. qd_DoPeek cls now qd = Some (qd_requeued qd', qd') \<and> qd_inv qd' \<and>
    keys (owned qd) = keys (dr @ owned qd') \<and> qd_nPackets qd' = of_nat (length (in_disc qd'))"
proof (cases "qd_requeued qd")
  case (Some i)
  with assms show ?thesis
    by (intro exI [of _ "[]"] exI [of _ qd]) (auto simp: qd_DoPeek_def qd_inv_def dest: books_nPackets)
next
  case None
  let ?q = "qd\<lparr>qd_peeked := True\<rparr>"
  have hq: "held ?q = held qd" and dq: "dinv ?q \<longleftrightarrow> dinv qd" by (rule held_body dinv_body; simp)+
  from assms None have "dinv ?q" "books (0, 0) ?q (length (held ?q)) (items_bytes (held ?q))"
    and fresh: "\<forall>k \<in># keys (held qd). \<not> snd k"
    by (simp_all add: qd_inv_def in_disc_no_requeue hq dq)
  moreover have sh: "still_held ?q r q = held q @ opt_list r" for r q by (simp add: still_held_def)
  ultimately obtain r dr q1 where
    l: "DoDequeue cls now ?q = Some (r, q1)" "dinv q1" "frame q1 = frame ?q"
      "keys (held qd) = keys (dr @ opt_list r @ held q1)"
      "books (0, 0) q1 (length (held q1 @ opt_list r)) (items_bytes (held q1 @ opt_list r))"
    using do_dequeue_ok [of ?q now] unfolding sh hq by blast
  define q2 where "q2 = (if r = None then q1\<lparr>qd_requeued := r, qd_peeked := False\<rparr> else q1\<lparr>qd_requeued := r\<rparr>)"
  have "body q2 = body q1" by (simp add: q2_def)
  from dinv_body [OF this] held_body [OF this] have d2: "dinv q2" "held q2 = held q1" using l(2) by auto
  have rq: "qd_requeued q2 = r" "qd_peeked q2 \<longleftrightarrow> r \<noteq> None"
    using frameD [OF l(3)] by (auto simp: q2_def)
  then have ind: "in_disc q2 = held q1 @ opt_list r"
    using d2 by (auto simp: in_disc_def peek_slot_def split: option.splits)
  have bk: "books (0, 0) q2 (length (in_disc q2)) (items_bytes (in_disc q2))"
    using l(5) unfolding ind by (cases r) (simp_all add: q2_def)
  have "\<forall>k \<in># keys (in_disc q2). \<not> snd k"
    using l(4) fresh ind by (metis image_mset_union mset_append union_iff)
  with bk d2 rq have "qd_inv q2" by (auto simp: qd_inv_def)
  moreover have "qd_Dequeue cls now ?q = Some (r, q1)"
    using books_asserts [OF l(5)] l(1) None by (simp add: qd_Dequeue_def Let_def)
  then have "qd_DoPeek cls now qd = Some (r, q2)"
    using None by (simp add: qd_DoPeek_def q2_def Let_def)
  moreover have "qd_nPackets q2 = of_nat (length (in_disc q2))"
    using bk by (rule books_nPackets)
  moreover have "keys (owned qd) = keys (dr @ owned q2)"
    using l(4) None rq d2 by (simp add: owned_def)
  ultimately show ?thesis using rq by blast
qed

text \<open>\<^verbatim>\<open>DequeuePacket\<close> adds the header to a packet it takes from the queues.\<close>

lemma dequeue_packet_ok:
  assumes "qd_inv qd"
  shows "\<exists>r dr qd'. qd_DequeuePacket cls dv n now qd = Some (r, qd') \<and> qd_inv qd' \<and>
    skeys (owned qd) = skeys (dr @ opt_list r @ owned qd') \<and> (r \<noteq> None \<longrightarrow> qd_requeued qd' = None \<and> \<not> qd_peeked qd') \<and>
    qd_running qd' = qd_running qd \<and> qd_quota qd' = qd_quota qd"
proof (cases "qd_requeued qd")
  case (Some i)
  show ?thesis
  proof (cases "\<not> dv_iface dv \<or> \<not> dv_stopped dv n (it_txq i)")
    case True
    with Some take_requeued_ok [OF assms Some, of now] show ?thesis
      by (intro exI [of _ "Some i"] exI [of _ "[]"] exI [of _ "take_requeued now i qd"])
        (simp add: qd_DequeuePacket_def owned_def)
  next
    case False
    with Some assms show ?thesis
      by (intro exI [of _ None] exI [of _ "[]"] exI [of _ qd]) (simp add: qd_DequeuePacket_def)
  qed
next
  case None
  show ?thesis
  proof (cases "\<not> dv_iface dv \<or> dv_nTxQueues dv > 1 \<or> \<not> dv_stopped dv n 0")
    case True
    from dequeue_ok [OF assms, of now] obtain r dr qd' where
      d: "qd_Dequeue cls now qd = Some (r, qd')" "qd_inv qd'" "qd_requeued qd' = None"
        "keys (owned qd) = keys (dr @ opt_list r @ owned qd')" "\<not> qd_peeked qd'"
        "qd_running qd' = qd_running qd" "qd_quota qd' = qd_quota qd" by blast
    define r' where "r' = map_option (\<lambda>i. i\<lparr>it_headerAdded := True\<rparr>) r"
    have "\<forall>k \<in># keys (owned qd). \<not> snd k"
      using assms None by (auto simp: qd_inv_def owned_def in_disc_def)
    then have "\<forall>k \<in># keys (opt_list r). \<not> snd k"
      using d(4) by (metis image_mset_union mset_append union_iff)
    then have "qd_DequeuePacket cls dv n now qd = Some (r', qd')"
      using None True d(1) by (auto simp: qd_DequeuePacket_def r'_def AddHeader_def ikey_def split: option.splits)
    moreover have "skeys (opt_list r') = skeys (opt_list r)"
      by (auto simp: r'_def skey_def split: option.splits)
    then have "skeys (owned qd) = skeys (dr @ opt_list r' @ owned qd')"
      using keys_skeys [OF d(4)] by simp
    ultimately show ?thesis using d by blast
  next
    case False
    with None assms show ?thesis
      by (intro exI [of _ None] exI [of _ "[]"] exI [of _ qd]) (simp add: qd_DequeuePacket_def)
  qed
qed

lemma requeue_inv:
  assumes "qd_inv qd" and "\<not> qd_peeked qd"
  shows "qd_inv (qd_Requeue i qd)" and "held (qd_Requeue i qd) = held qd"
proof -
  let ?q = "qd_Requeue i qd"
  have "body ?q = body qd" by simp
  from dinv_body [OF this] held_body [OF this] have dh: "dinv ?q" "held ?q = held qd"
    using assms by (simp_all add: qd_inv_def)
  have "acct ?q = acct qd" by (simp add: acct_def qd_Requeue_def fire_def Let_def)
  from books_cong [OF this] dh assms show "qd_inv ?q"
    by (intro qd_inv_not_peeked)
      (simp_all add: qd_inv_def in_disc_def peek_slot_def qd_Requeue_def fire_def)
  show "held ?q = held qd" by (rule dh(2))
qed

lemma requeue_flags [simp]:
  "qd_requeued (qd_Requeue i qd) = Some i" "qd_running (qd_Requeue i qd) = qd_running qd"
  "qd_quota (qd_Requeue i qd) = qd_quota qd"
  by (simp_all add: qd_Requeue_def fire_def)

text \<open>One turn of the transmission loop: at most one packet goes to the device; the loop goes on only
  if one did.\<close>

lemma restart_ok:
  assumes "qd_inv qd" and "dv_sendSet dv"
  shows "\<exists>again sent dr qd'. qd_Restart cls dv now (n, qd) = Some (again, sent, fold (dv_send dv) sent n, qd') \<and>
    qd_inv qd' \<and> skeys (owned qd) = skeys (dr @ sent @ owned qd') \<and> length sent \<le> 1 \<and>
    (again \<longrightarrow> sent \<noteq> [] \<and> qd_nPackets qd' \<noteq> 0) \<and> qd_running qd' = qd_running qd \<and> qd_quota qd' = qd_quota qd"
proof -
  from dequeue_packet_ok [OF assms(1), of dv n now] obtain r dr q1 where
    d: "qd_DequeuePacket cls dv n now qd = Some (r, q1)" "qd_inv q1"
      "skeys (owned qd) = skeys (dr @ opt_list r @ owned q1)"
      "r \<noteq> None \<longrightarrow> qd_requeued q1 = None \<and> \<not> qd_peeked q1"
      "qd_running q1 = qd_running qd" "qd_quota q1 = qd_quota qd" by blast
  show ?thesis
  proof (cases r)
    case None
    with d show ?thesis
      by (intro exI [of _ False] exI [of _ "[]"] exI [of _ dr] exI [of _ q1]) (simp add: qd_Restart_def)
  next
    case (Some i)
    show ?thesis
    proof (cases "dv_iface dv \<and> dv_stopped dv n (it_txq i)")
      case True
      have "skeys (owned (qd_Requeue i q1)) = skeys (opt_list r @ owned q1)"
        using Some d requeue_inv(2) [of q1 i] by (simp add: owned_def)
      with True Some d requeue_inv [of q1 i] show ?thesis
        by (intro exI [of _ False] exI [of _ "[]"] exI [of _ dr] exI [of _ "qd_Requeue i q1"])
          (simp add: qd_Restart_def qd_Transmit_def)
    next
      case False
      define i' where "i' = (if \<not> dv_iface dv \<or> dv_nTxQueues dv = 1 then i\<lparr>it_priority := None\<rparr> else i)"
      have "skey i' = skey i" by (simp add: i'_def skey_def)
      moreover have "qd_Restart cls dv now (n, qd) =
          Some (\<not> (qd_nPackets q1 = 0 \<or> dv_iface dv \<and> dv_stopped dv (dv_send dv i' n) (it_txq i')),
            [i'], dv_send dv i' n, q1)"
        using False Some d(1) assms(2) by (simp add: qd_Restart_def qd_Transmit_def Let_def i'_def)
      ultimately show ?thesis using d Some
        by (intro exI [of _ "\<not> (qd_nPackets q1 = 0 \<or> dv_iface dv \<and> dv_stopped dv (dv_send dv i' n) (it_txq i'))"]
            exI [of _ "[i']"] exI [of _ dr] exI [of _ q1]) simp
    qed
  qed
qed

text \<open>The whole loop always returns, and sends no more than its quota (a quota of 0 wraps around and
  means \<^term>\<open>2 ^ 32 :: nat\<close>).\<close>

lemma run_loop_ok:
  assumes "dv_sendSet dv"
  shows "qd_inv qd \<Longrightarrow> \<exists>sent dr qd'.
    qd_Run_loop cls dv now quota (n, qd) = Some (sent, fold (dv_send dv) sent n, qd') \<and>
    qd_inv qd' \<and> skeys (owned qd) = skeys (dr @ sent @ owned qd') \<and>
    length sent \<le> unat (quota - 1) + 1 \<and> qd_quota qd' = qd_quota qd"
proof (induction "unat (quota - 1)" arbitrary: quota n qd)
  case 0
  from restart_ok [OF 0(2) assms, of now n] obtain again sent dr q1 where
    r: "qd_Restart cls dv now (n, qd) = Some (again, sent, fold (dv_send dv) sent n, q1)" "qd_inv q1"
      "skeys (owned qd) = skeys (dr @ sent @ owned q1)" "length sent \<le> 1" "qd_quota q1 = qd_quota qd" by blast
  moreover have "quota - 1 = 0" using 0(1) by (metis unat_eq_0)
  ultimately have "qd_Run_loop cls dv now quota (n, qd) = Some (sent, fold (dv_send dv) sent n, q1)"
    by (subst qd_Run_loop.simps) simp
  with r show ?case by (intro exI [of _ sent] exI [of _ dr] exI [of _ q1]) simp
next
  case (Suc m)
  from restart_ok [OF Suc(3) assms, of now n] obtain again sent dr q1 where
    r: "qd_Restart cls dv now (n, qd) = Some (again, sent, fold (dv_send dv) sent n, q1)" "qd_inv q1"
      "skeys (owned qd) = skeys (dr @ sent @ owned q1)" "length sent \<le> 1" "qd_quota q1 = qd_quota qd" by blast
  have q0: "quota - 1 \<noteq> 0" using Suc(2) by auto
  then have m: "m = unat (quota - 1 - 1)" using Suc(2) by (metis unat_minus_one diff_Suc_1)
  show ?case
  proof (cases again)
    case False
    then have "qd_Run_loop cls dv now quota (n, qd) = Some (sent, fold (dv_send dv) sent n, q1)"
      using r(1) by (subst qd_Run_loop.simps) simp
    with r show ?thesis by (intro exI [of _ sent] exI [of _ dr] exI [of _ q1]) simp
  next
    case True
    from Suc(1) [OF m r(2), of "fold (dv_send dv) sent n"] obtain sent' dr' q2 where
      s: "qd_Run_loop cls dv now (quota - 1) (fold (dv_send dv) sent n, q1) =
          Some (sent', fold (dv_send dv) sent' (fold (dv_send dv) sent n), q2)" "qd_inv q2"
        "skeys (owned q1) = skeys (dr' @ sent' @ owned q2)" "length sent' \<le> m + 1" "qd_quota q2 = qd_quota q1"
      using m by auto
    then have "qd_Run_loop cls dv now quota (n, qd) =
        Some (sent @ sent', fold (dv_send dv) (sent @ sent') n, q2)"
      using r(1) True q0 by (subst qd_Run_loop.simps) simp
    with r s Suc(2) show ?thesis
      by (intro exI [of _ "sent @ sent'"] exI [of _ "dr @ dr'"] exI [of _ q2]) (simp add: ac_simps)
  qed
qed

lemma running_irrelevant:
  "qd_inv (q\<lparr>qd_running := b\<rparr>) \<longleftrightarrow> qd_inv q" "owned (q\<lparr>qd_running := b\<rparr>) = owned q"
proof -
  have d: "dinv (q\<lparr>qd_running := b\<rparr>) \<longleftrightarrow> dinv q" by (rule dinv_body) simp
  have h: "held (q\<lparr>qd_running := b\<rparr>) = held q" by (rule held_body) simp
  have "in_disc (q\<lparr>qd_running := b\<rparr>) = in_disc q" by (simp add: in_disc_def peek_slot_def h)
  then show "qd_inv (q\<lparr>qd_running := b\<rparr>) \<longleftrightarrow> qd_inv q" by (simp add: qd_inv_def d)
  show "owned (q\<lparr>qd_running := b\<rparr>) = owned q" by (simp add: owned_def h)
qed

lemma run_ok:
  assumes "qd_inv qd" and "dv_sendSet dv" and "\<not> qd_running qd"
  shows "\<exists>sent dr qd'. qd_Run cls dv now (n, qd) = Some (sent, fold (dv_send dv) sent n, qd') \<and>
    qd_inv qd' \<and> \<not> qd_running qd' \<and> skeys (owned qd) = skeys (dr @ sent @ owned qd') \<and>
    length sent \<le> unat (qd_quota qd - 1) + 1"
proof -
  let ?q = "qd\<lparr>qd_running := True\<rparr>"
  from run_loop_ok [OF assms(2), of ?q now "qd_quota qd" n] assms(1) running_irrelevant obtain sent dr q1 where
    r: "qd_Run_loop cls dv now (qd_quota qd) (n, ?q) = Some (sent, fold (dv_send dv) sent n, q1)" "qd_inv q1"
      "skeys (owned qd) = skeys (dr @ sent @ owned q1)" "length sent \<le> unat (qd_quota qd - 1) + 1" by auto
  then show ?thesis using assms(3) running_irrelevant
    by (intro exI [of _ sent] exI [of _ dr] exI [of _ "q1\<lparr>qd_running := False\<rparr>"])
      (simp add: qd_Run_def qd_RunBegin_def qd_RunEnd_def)
qed

end

end
