(* ===== verification/Queue_Disciplines.thy ===== *)
theory Queue_Disciplines
  imports Queue_Disc_Contract
begin

text \<open>
  Concrete queue discs of \<^verbatim>\<open>src/traffic-control/model\<close>: \<^verbatim>\<open>FifoQueueDisc\<close>, \<^verbatim>\<open>PfifoFastQueueDisc\<close> and
  \<^verbatim>\<open>PrioQueueDisc\<close>. The first two meet the contract of the base class (an interpretation each), so its
  results hold for them; the FIFO one is also a bounded FIFO queue, and pfifo-fast serves its three bands
  in strict priority.
\<close>

section \<open>Queue discs made of internal queues\<close>

definition leaf_ops :: "unit qdisc_ops" where
  "leaf_ops = \<lparr>ch_Enqueue = (\<lambda>_ _ _. None), ch_Dequeue = (\<lambda>_ _. None), ch_Peek = (\<lambda>_ _. None),
     ch_GetMaxSize = (\<lambda>_. None), ch_SetMaxSize = (\<lambda>_ _. None), ch_GetNPackets = (\<lambda>_. 0)\<rparr>"

definition queues_ok :: "('c, 'd) qdisc \<Rightarrow> bool" where
  "queues_ok qd \<longleftrightarrow> (\<forall>q \<in> set (qd_queues qd). queue_inv q \<and> queue_bounded q)"

definition queues_held :: "('c, 'd) qdisc \<Rightarrow> queue_item list" where
  "queues_held qd = concat (map q_packets (qd_queues qd))"

lemma mset_concat_update:
  assumes "k < length xs"
  shows "mset (concat (map f (xs[k := y]))) + mset (f (xs ! k)) = mset (concat (map f xs)) + mset (f y)"
  using assms
proof (induction xs arbitrary: k)
  case (Cons x xs)
  then show ?case by (cases k) (auto simp: ac_simps)
qed simp

lemma queues_held_update:
  assumes "k < length (qd_queues qd)"
  shows "mset (queues_held (qd\<lparr>qd_queues := (qd_queues qd)[k := q]\<rparr>)) + mset (q_packets (qd_queues qd ! k)) =
    mset (queues_held qd) + mset (q_packets q)"
  using mset_concat_update [OF assms, of q_packets q] by (simp add: queues_held_def)

lemma counts_fit_queue:
  assumes "k < length (qd_queues qd)" and "counts_fit i (queues_held qd)"
  shows "counts_fit i (q_packets (qd_queues qd ! k))"
proof -
  obtain as bs where "qd_queues qd = as @ qd_queues qd ! k # bs"
    using id_take_nth_drop [OF assms(1)] by metis
  then have "queues_held qd = concat (map q_packets as) @ q_packets (qd_queues qd ! k) @ concat (map q_packets bs)"
    by (simp add: queues_held_def) (metis concat.simps(2) concat_append list.map(2) map_append)
  with assms(2) show ?thesis by (auto simp: counts_fit_def)
qed

lemma body_queues: "body qd' = body qd \<Longrightarrow> qd_queues qd' = qd_queues qd"
  by (simp add: body_def)

lemma callback_queues [simp]:
  "qd_queues (PacketEnqueued i qd) = qd_queues qd" "qd_queues (PacketDequeued now i qd) = qd_queues qd"
  "qd_queues (qd_DropBeforeEnqueue i r qd) = qd_queues qd" "qd_queues (fire tr qd) = qd_queues qd"
  by (rule body_queues, simp)+

lemma acct_queues [simp]: "acct (qd\<lparr>qd_queues := qs\<rparr>) = acct qd" "frame (qd\<lparr>qd_queues := qs\<rparr>) = frame qd"
  by (simp_all add: acct_def frame_def Let_def)

lemma acct_callback:
  "acct qd' = acct qd \<Longrightarrow> acct (PacketEnqueued i qd') = acct (PacketEnqueued i qd)"
  "acct qd' = acct qd \<Longrightarrow> acct (qd_DropBeforeEnqueue i r qd') = acct (qd_DropBeforeEnqueue i r qd)"
  "acct qd' = acct qd \<Longrightarrow> qd_peeked qd' = qd_peeked qd \<Longrightarrow>
     acct (PacketDequeued now i qd') = acct (PacketDequeued now i qd)"
  by (auto simp: acct_def PacketEnqueued_def PacketDequeued_def qd_DropBeforeEnqueue_def fire_def Let_def)

text \<open>What an internal queue does, and what the base class records, on enqueue and dequeue.\<close>

definition same_shape :: "('c, 'd) qdisc \<Rightarrow> ('c, 'd) qdisc \<Rightarrow> bool" where
  "same_shape qd' qd \<longleftrightarrow> length (qd_queues qd') = length (qd_queues qd) \<and>
     map q_maxSize (qd_queues qd') = map q_maxSize (qd_queues qd) \<and> qd_filters qd' = qd_filters qd \<and>
     qd_classes qd' = qd_classes qd \<and> qd_maxSize qd' = qd_maxSize qd \<and>
     qd_sizePolicy qd' = qd_sizePolicy qd \<and> qd_data qd' = qd_data qd"

lemma same_shape_callback [simp]:
  "same_shape (PacketEnqueued i qd) qd0 \<longleftrightarrow> same_shape qd qd0"
  "same_shape (PacketDequeued now i qd) qd0 \<longleftrightarrow> same_shape qd qd0"
  "same_shape (qd_DropBeforeEnqueue i r qd) qd0 \<longleftrightarrow> same_shape qd qd0"
  by (auto simp: same_shape_def PacketEnqueued_def PacketDequeued_def qd_DropBeforeEnqueue_def fire_def Let_def)

lemma map_maxSize_update:
  "k < length qs \<Longrightarrow> q_maxSize q = q_maxSize (qs ! k) \<Longrightarrow> map q_maxSize (qs[k := q]) = map q_maxSize qs"
  by (metis length_map list_update_id map_update nth_map)

lemma same_shape_update:
  "k < length (qd_queues qd) \<Longrightarrow> q_maxSize q = q_maxSize (qd_queues qd ! k) \<Longrightarrow>
     same_shape (qd\<lparr>qd_queues := (qd_queues qd)[k := q]\<rparr>) qd"
  by (simp add: same_shape_def map_maxSize_update)

lemma InternalQueue_Enqueue_ok:
  assumes ok: "queues_ok qd" and k: "k < length (qd_queues qd)" and fit: "counts_fit item (queues_held qd)"
  shows "\<exists>qd'. InternalQueue_Enqueue now k item qd = Some (queue_room item (qd_queues qd ! k), qd') \<and>
    queues_ok qd' \<and> frame qd' = frame qd \<and> same_shape qd' qd \<and>
    q_packets (qd_queues qd' ! k) = q_packets (qd_queues qd ! k) @ (if queue_room item (qd_queues qd ! k) then [item] else []) \<and>
    (\<forall>j \<noteq> k. qd_queues qd' ! j = qd_queues qd ! j) \<and>
    (if queue_room item (qd_queues qd ! k)
     then acct qd' = acct (PacketEnqueued item qd) \<and> mset (queues_held qd') = add_mset item (mset (queues_held qd))
     else acct qd' = acct (qd_DropBeforeEnqueue item INTERNAL_QUEUE_DROP qd) \<and>
       mset (queues_held qd') = mset (queues_held qd))"
proof -
  let ?q = "qd_queues qd ! k" and ?room = "queue_room item (qd_queues qd ! k)"
  have "queue_inv ?q" "queue_bounded ?q" using ok k by (auto simp: queues_ok_def)
  from DropTail_Enqueue_cases [OF this counts_fit_queue [OF k fit]] obtain q' where
    q': "DropTail_Enqueue item ?q = Some (?room, [if ?room then TraceEnqueue item else TraceDropBeforeEnqueue item], q')"
      "queue_inv q'" "queue_bounded q'" "q_maxSize q' = q_maxSize ?q"
      "q_packets q' = (if ?room then q_packets ?q @ [item] else q_packets ?q)" by blast
  let ?u = "qd\<lparr>qd_queues := (qd_queues qd)[k := q']\<rparr>"
  define qd' where "qd' = (if ?room then PacketEnqueued item ?u else qd_DropBeforeEnqueue item INTERNAL_QUEUE_DROP ?u)"
  have qs: "qd_queues qd' = (qd_queues qd)[k := q']" by (simp add: qd'_def)
  have "InternalQueue_Enqueue now k item qd = Some (?room, qd')"
    using k q'(1) by (simp add: InternalQueue_Enqueue_def qd'_def)
  moreover have "queues_ok qd'" using ok q' qs by (auto simp: queues_ok_def dest!: set_update_subset_insert [THEN subsetD])
  moreover have "frame qd' = frame qd" by (simp add: qd'_def)
  moreover have "same_shape qd' qd" using q'(4) k by (simp add: qd'_def same_shape_update)
  moreover have "queues_held qd' = queues_held ?u" by (simp add: queues_held_def qs)
  then have "mset (queues_held qd') + mset (q_packets ?q) = mset (queues_held qd) + mset (q_packets q')"
    using queues_held_update [OF k, of q'] by simp
  then have "mset (queues_held qd') = mset (queues_held qd) + (if ?room then {#item#} else {#})"
    using q'(5) by (auto split: if_splits)
  moreover have "acct qd' = acct (if ?room then PacketEnqueued item qd else qd_DropBeforeEnqueue item INTERNAL_QUEUE_DROP qd)"
    using acct_callback(1) [of ?u qd item] acct_callback(2) [of ?u qd item INTERNAL_QUEUE_DROP] by (simp add: qd'_def)
  ultimately show ?thesis using q'(5) k qs by (intro exI [of _ qd']) auto
qed

lemma InternalQueue_Dequeue_ok:
  assumes ok: "queues_ok qd" and k: "k < length (qd_queues qd)"
  shows "\<exists>qd'. InternalQueue_Dequeue now k qd =
      Some (case q_packets (qd_queues qd ! k) of [] \<Rightarrow> None | i # _ \<Rightarrow> Some i, qd') \<and>
    queues_ok qd' \<and> frame qd' = frame qd \<and> same_shape qd' qd \<and>
    q_packets (qd_queues qd' ! k) = tl (q_packets (qd_queues qd ! k)) \<and>
    (\<forall>j \<noteq> k. qd_queues qd' ! j = qd_queues qd ! j) \<and>
    (case q_packets (qd_queues qd ! k) of
       [] \<Rightarrow> qd' = qd
     | i # _ \<Rightarrow> acct qd' = acct (PacketDequeued now i qd) \<and> mset (queues_held qd) = add_mset i (mset (queues_held qd')))"
proof -
  let ?q = "qd_queues qd ! k"
  have inv: "queue_inv ?q" "queue_bounded ?q" using ok k by (auto simp: queues_ok_def)
  show ?thesis
  proof (cases "q_packets ?q")
    case Nil
    from DropTail_Dequeue_empty [OF inv(1) Nil] k ok Nil show ?thesis
      by (intro exI [of _ qd]) (auto simp: InternalQueue_Dequeue_def same_shape_def)
  next
    case (Cons i "is")
    from DropTail_Dequeue_item [OF inv(1) Cons] inv(2) obtain q' where
      q': "DropTail_Dequeue ?q = Some (Some i, [TraceDequeue i], q')" "queue_inv q'" "queue_bounded q'"
        "q_packets q' = is" "q_maxSize q' = q_maxSize ?q" by blast
    let ?u = "qd\<lparr>qd_queues := (qd_queues qd)[k := q']\<rparr>"
    define qd' where "qd' = PacketDequeued now i ?u"
    have qs: "qd_queues qd' = (qd_queues qd)[k := q']" by (simp add: qd'_def)
    have "InternalQueue_Dequeue now k qd = Some (Some i, qd')"
      using k q'(1) by (simp add: InternalQueue_Dequeue_def qd'_def)
    moreover have "queues_ok qd'" using ok q' qs by (auto simp: queues_ok_def dest!: set_update_subset_insert [THEN subsetD])
    moreover have "frame qd' = frame qd" by (simp add: qd'_def)
    moreover have "same_shape qd' qd" using q'(5) k by (simp add: qd'_def same_shape_update)
    moreover have "queues_held qd' = queues_held ?u" by (simp add: queues_held_def qs)
    then have "mset (queues_held qd) = add_mset i (mset (queues_held qd'))"
      using queues_held_update [OF k, of q'] Cons q'(4) by simp
    moreover have "acct qd' = acct (PacketDequeued now i qd)"
      using acct_callback(3) [of ?u qd now i] by (simp add: qd'_def)
    ultimately show ?thesis using q'(4) k qs Cons by (intro exI [of _ qd']) auto
  qed
qed

lemma SetTimeStamp_queues:
  assumes "queues_ok qd"
  shows "queues_ok (SetTimeStamp now u qd)" and "keys (queues_held (SetTimeStamp now u qd)) = keys (queues_held qd)"
    and "same_shape (SetTimeStamp now u qd) qd"
proof -
  have b: "items_bytes (map (stamp_item now u) xs) = items_bytes xs" for xs
    by (induction xs) (auto simp: stamp_item_def)
  have k: "ikey (stamp_item now u i) = ikey i" for i by (simp add: stamp_item_def ikey_def)
  have inv: "queue_inv (q\<lparr>q_packets := map (stamp_item now u) (q_packets q)\<rparr>) \<longleftrightarrow> queue_inv q"
    "queue_bounded (q\<lparr>q_packets := map (stamp_item now u) (q_packets q)\<rparr>) \<longleftrightarrow> queue_bounded q" for q
    by (auto simp: queue_inv_def queue_bounded_def queue_used_def b split: queue_unit.splits)
  show "queues_ok (SetTimeStamp now u qd)"
    using assms by (auto simp: queues_ok_def SetTimeStamp_def inv)
  have "keys (concat (map q_packets (map (\<lambda>q. q\<lparr>q_packets := map (stamp_item now u) (q_packets q)\<rparr>) qs))) =
      keys (concat (map q_packets qs))" for qs
    by (induction qs) (auto simp: k multiset.map_comp comp_def)
  then show "keys (queues_held (SetTimeStamp now u qd)) = keys (queues_held qd)"
    by (simp add: queues_held_def SetTimeStamp_def)
  show "same_shape (SetTimeStamp now u qd) qd"
    by (simp add: same_shape_def SetTimeStamp_def comp_def)
qed

section \<open>FifoQueueDisc\<close>

type_synonym leaf_disc = "(unit, unit) qdisc"

definition LIMIT_EXCEEDED_DROP :: string where
  "LIMIT_EXCEEDED_DROP = ''Queue disc limit exceeded''"

definition Fifo_DoEnqueue :: "time \<Rightarrow> queue_item \<Rightarrow> leaf_disc \<Rightarrow> (bool \<times> leaf_disc) option" where
  "Fifo_DoEnqueue now item qd = do {
     cur \<leftarrow> qd_GetCurrentSize leaf_ops qd;
     max \<leftarrow> qd_GetMaxSize leaf_ops qd;
     full \<leftarrow> qs_greater (qs_plus_item cur item) max;
     if full then Some (False, qd_DropBeforeEnqueue item LIMIT_EXCEEDED_DROP qd)
     else InternalQueue_Enqueue now 0 item qd }"

definition Fifo_DoDequeue :: "time \<Rightarrow> leaf_disc \<Rightarrow> (queue_item option \<times> leaf_disc) option" where
  "Fifo_DoDequeue now qd = InternalQueue_Dequeue now 0 qd"

definition Fifo_DoPeek :: "time \<Rightarrow> leaf_disc \<Rightarrow> (queue_item option \<times> leaf_disc) option" where
  "Fifo_DoPeek now qd = map_option (\<lambda>r. (r, qd)) (InternalQueue_Peek 0 qd)"

definition Fifo_CheckConfig :: "leaf_disc \<Rightarrow> (bool \<times> leaf_disc) option" where
  "Fifo_CheckConfig qd =
     (if length (qd_classes qd) > 0 then Some (False, qd)
      else if length (qd_filters qd) > 0 then Some (False, qd)
      else do {
        qd1 \<leftarrow> (if length (qd_queues qd) = 0 then do {
                 m \<leftarrow> qd_GetMaxSize leaf_ops qd;
                 Some (AddInternalQueue (QueueBase m) qd) } else Some qd);
        Some (length (qd_queues qd1) = 1, qd1) })"

definition FifoQueueDisc :: "(unit, unit) qdisc_class" where
  "FifoQueueDisc = \<lparr>DoEnqueue = Fifo_DoEnqueue, DoDequeue = Fifo_DoDequeue, DoPeek = Fifo_DoPeek\<rparr>"

definition fifo_ok :: "leaf_disc \<Rightarrow> bool" where
  "fifo_ok qd \<longleftrightarrow> queues_ok qd \<and> length (qd_queues qd) = 1 \<and> qd_sizePolicy qd = SINGLE_INTERNAL_QUEUE"

lemma same_shape_fifo: "same_shape qd' qd \<Longrightarrow> queues_ok qd' \<Longrightarrow> fifo_ok qd \<Longrightarrow> fifo_ok qd'"
  by (auto simp: same_shape_def fifo_ok_def)

lemma fifo_ok_body: "body qd' = body qd \<Longrightarrow> fifo_ok qd' \<longleftrightarrow> fifo_ok qd"
  by (simp add: fifo_ok_def queues_ok_def body_def)

lemma queues_held_body: "body qd' = body qd \<Longrightarrow> queues_held qd' = queues_held qd"
  by (simp add: queues_held_def body_def)

lemma fifo_GetMaxSize: "fifo_ok qd \<Longrightarrow> qd_GetMaxSize leaf_ops qd = Some (q_maxSize (qd_queues qd ! 0))"
  by (auto simp: qd_GetMaxSize_def fifo_ok_def)

lemma fifo_size_check:
  assumes "fifo_ok qd"
  shows "\<exists>cur full. qd_GetCurrentSize leaf_ops qd = Some cur \<and>
    qs_greater (qs_plus_item cur item) (q_maxSize (qd_queues qd ! 0)) = Some full"
  using assms
  by (auto simp: qd_GetCurrentSize_def fifo_GetMaxSize qs_greater_def split: queue_unit.splits)

lemma Fifo_DoEnqueue_law:
  assumes "fifo_ok qd" and "counts_fit item (queues_held qd)"
  shows "\<exists>ok ds h r qd'. Fifo_DoEnqueue now item qd = Some (ok, qd') \<and> fifo_ok qd' \<and> frame qd' = frame qd \<and>
    keys (queues_held qd) = keys (map fst ds @ h) \<and> keys (queues_held qd') = keys (if ok then item # h else h) \<and>
    acct qd' = acct (enqueue_effect ok item r (fold (drop_effect now) ds qd))"
proof -
  from fifo_size_check [OF assms(1), of item] obtain cur full where
    c: "qd_GetCurrentSize leaf_ops qd = Some cur"
      "qs_greater (qs_plus_item cur item) (q_maxSize (qd_queues qd ! 0)) = Some full" by blast
  show ?thesis
  proof (cases full)
    case True
    let ?d = "qd_DropBeforeEnqueue item LIMIT_EXCEEDED_DROP qd"
    have "Fifo_DoEnqueue now item qd = Some (False, ?d)"
      using c True fifo_GetMaxSize [OF assms(1)] by (simp add: Fifo_DoEnqueue_def)
    moreover have "fifo_ok ?d" using assms(1) fifo_ok_body [of ?d qd] by simp
    moreover have "queues_held ?d = queues_held qd" by (rule queues_held_body) simp
    ultimately show ?thesis
      by (intro exI [of _ False] exI [of _ "[]"] exI [of _ "queues_held qd"] exI [of _ LIMIT_EXCEEDED_DROP] exI [of _ ?d])
        (simp add: enqueue_effect_def)
  next
    case False
    have "queues_ok qd" "0 < length (qd_queues qd)" using assms(1) by (auto simp: fifo_ok_def)
    from InternalQueue_Enqueue_ok [OF this assms(2), of now] obtain qd' where
      e: "InternalQueue_Enqueue now 0 item qd = Some (queue_room item (qd_queues qd ! 0), qd')"
        "queues_ok qd'" "frame qd' = frame qd" "same_shape qd' qd"
        "if queue_room item (qd_queues qd ! 0)
         then acct qd' = acct (PacketEnqueued item qd) \<and> mset (queues_held qd') = add_mset item (mset (queues_held qd))
         else acct qd' = acct (qd_DropBeforeEnqueue item INTERNAL_QUEUE_DROP qd) \<and>
           mset (queues_held qd') = mset (queues_held qd)" by blast
    moreover have "Fifo_DoEnqueue now item qd = Some (queue_room item (qd_queues qd ! 0), qd')"
      using c False fifo_GetMaxSize [OF assms(1)] e(1) by (simp add: Fifo_DoEnqueue_def)
    ultimately show ?thesis using same_shape_fifo [OF e(4,2) assms(1)]
      by (intro exI [of _ "queue_room item (qd_queues qd ! 0)"] exI [of _ "[]"] exI [of _ "queues_held qd"]
          exI [of _ INTERNAL_QUEUE_DROP] exI [of _ qd']) (auto simp: enqueue_effect_def split: if_splits)
  qed
qed

lemma Fifo_DoDequeue_law:
  assumes "fifo_ok qd"
  shows "\<exists>r ds qd'. Fifo_DoDequeue now qd = Some (r, qd') \<and> fifo_ok qd' \<and> frame qd' = frame qd \<and>
    keys (queues_held qd) = keys (map fst ds @ opt_list r @ queues_held qd') \<and>
    acct qd' = acct (fold (PacketDequeued now) (opt_list r) (fold (drop_effect now) ds qd))"
proof -
  have "queues_ok qd" "0 < length (qd_queues qd)" using assms(1) by (auto simp: fifo_ok_def)
  from InternalQueue_Dequeue_ok [OF this, of now] obtain qd' where
    d: "InternalQueue_Dequeue now 0 qd = Some (case q_packets (qd_queues qd ! 0) of [] \<Rightarrow> None | i # _ \<Rightarrow> Some i, qd')"
      "queues_ok qd'" "frame qd' = frame qd" "same_shape qd' qd"
      "case q_packets (qd_queues qd ! 0) of
         [] \<Rightarrow> qd' = qd
       | i # _ \<Rightarrow> acct qd' = acct (PacketDequeued now i qd) \<and> mset (queues_held qd) = add_mset i (mset (queues_held qd'))"
    by blast
  moreover have "fifo_ok qd'" using same_shape_fifo [OF d(4,2) assms] .
  ultimately show ?thesis
    by (intro exI [of _ "case q_packets (qd_queues qd ! 0) of [] \<Rightarrow> None | i # _ \<Rightarrow> Some i"] exI [of _ "[]"] exI [of _ qd'])
      (auto simp: Fifo_DoDequeue_def split: list.splits)
qed

interpretation fifo: queue_disc_class FifoQueueDisc fifo_ok queues_held
proof (unfold_locales, goal_cases)
  case 1 then show ?case by (rule fifo_ok_body)
next
  case 2 then show ?case by (rule queues_held_body)
next
  case (3 qd now u)
  then show ?case
    using SetTimeStamp_queues [of qd now u] same_shape_fifo [of "SetTimeStamp now u qd" qd]
    by (simp add: fifo_ok_def)
next
  case 4
  then show ?case unfolding FifoQueueDisc_def qdisc_class.simps by (rule Fifo_DoEnqueue_law)
next
  case 5
  then show ?case unfolding FifoQueueDisc_def qdisc_class.simps by (rule Fifo_DoDequeue_law)
qed

subsection \<open>A FIFO queue disc is a bounded FIFO queue\<close>

lemma qd_Enqueue_unfold:
  "qd_Enqueue cls now item qd = Some (ok, qd') \<Longrightarrow>
     \<exists>q1. DoEnqueue cls now item (count_received item qd) = Some (ok, q1) \<and>
       qd' = (if ok then SetTimeStamp now (it_uid item) q1 else q1)"
  by (auto simp: qd_Enqueue_def Let_def split: if_splits bind_splits)

lemma qd_Dequeue_unfold:
  "qd_Dequeue cls now qd = Some (r, qd') \<Longrightarrow> qd_requeued qd = None \<Longrightarrow> DoDequeue cls now qd = Some (r, qd')"
  by (auto simp: qd_Dequeue_def Let_def split: if_splits bind_splits)

abbreviation fifo_packets :: "leaf_disc \<Rightarrow> queue_item list" where
  "fifo_packets qd \<equiv> q_packets (qd_queues qd ! 0)"

lemma fifo_held: "fifo_ok qd \<Longrightarrow> queues_held qd = fifo_packets qd"
  by (cases "qd_queues qd") (auto simp: fifo_ok_def queues_held_def)

lemma fifo_full_iff:
  assumes ok: "fifo_ok qd" and n: "unat (qd_nPackets qd) = length (fifo_packets qd)"
    "unat (qd_nBytes qd) = items_bytes (fifo_packets qd)" and fit: "counts_fit item (fifo_packets qd)"
  shows "\<exists>cur. qd_GetCurrentSize leaf_ops qd = Some cur \<and>
    qs_greater (qs_plus_item cur item) (q_maxSize (qd_queues qd ! 0)) = Some (\<not> queue_room item (qd_queues qd ! 0))"
proof -
  have "queue_inv (qd_queues qd ! 0)" using ok by (auto simp: fifo_ok_def queues_ok_def)
  then have "q_nPackets (qd_queues qd ! 0) = qd_nPackets qd" "q_nBytes (qd_queues qd ! 0) = qd_nBytes qd"
    using n by (simp_all add: queue_inv_def word_unat_eq_iff)
  then have "qd_GetCurrentSize leaf_ops qd = Some (queue_GetCurrentSize (qd_queues qd ! 0))"
    by (simp add: qd_GetCurrentSize_def fifo_GetMaxSize [OF ok] queue_GetCurrentSize_def split: queue_unit.splits)
  with queue_DoEnqueue_room [OF \<open>queue_inv (qd_queues qd ! 0)\<close> fit] show ?thesis by simp
qed

lemma Fifo_DoEnqueue_exact:
  assumes ok: "fifo_ok qd" and n: "unat (qd_nPackets qd) = length (fifo_packets qd)"
    "unat (qd_nBytes qd) = items_bytes (fifo_packets qd)" and fit: "counts_fit item (fifo_packets qd)"
  shows "\<exists>qd'. Fifo_DoEnqueue now item qd = Some (queue_room item (qd_queues qd ! 0), qd') \<and>
    fifo_packets qd' = fifo_packets qd @ (if queue_room item (qd_queues qd ! 0) then [item] else [])"
proof -
  from fifo_full_iff [OF assms] obtain cur where
    c: "qd_GetCurrentSize leaf_ops qd = Some cur"
      "qs_greater (qs_plus_item cur item) (q_maxSize (qd_queues qd ! 0)) = Some (\<not> queue_room item (qd_queues qd ! 0))"
    by blast
  have "queues_ok qd" "0 < length (qd_queues qd)" "counts_fit item (queues_held qd)"
    using ok fit fifo_held [OF ok] by (auto simp: fifo_ok_def)
  from InternalQueue_Enqueue_ok [OF this, of now] c fifo_GetMaxSize [OF ok] show ?thesis
    by (auto simp: Fifo_DoEnqueue_def)
qed

definition fifo_inv :: "leaf_disc \<Rightarrow> bool" where
  "fifo_inv qd \<longleftrightarrow> fifo.qd_inv qd \<and> qd_requeued qd = None"

lemma fifo_invD:
  assumes "fifo_inv qd"
  shows "fifo_ok qd" "unat (qd_nPackets qd) = length (fifo_packets qd)"
    "unat (qd_nBytes qd) = items_bytes (fifo_packets qd)" "fifo.in_disc qd = fifo_packets qd"
  using assms fifo_held [of qd]
  by (auto simp: fifo_inv_def fifo.qd_inv_def fifo.in_disc_no_requeue books_def)

lemma stamp_skey: "skey (stamp_item now u i) = skey i"
  by (simp add: stamp_item_def skey_def)

lemma Fifo_Enqueue_exact:
  assumes inv: "fifo_inv qd" and fit: "counts_fit item (fifo_packets qd)" "\<not> it_headerAdded item"
  shows "\<exists>qd'. qd_Enqueue FifoQueueDisc now item qd = Some (queue_room item (qd_queues qd ! 0), qd') \<and> fifo_inv qd' \<and>
    map skey (fifo_packets qd') =
      map skey (fifo_packets qd) @ (if queue_room item (qd_queues qd ! 0) then [skey item] else [])"
proof -
  note D = fifo_invD [OF inv]
  let ?q0 = "count_received item qd"
  have q0: "qd_queues ?q0 = qd_queues qd" "qd_nPackets ?q0 = qd_nPackets qd" "qd_nBytes ?q0 = qd_nBytes qd"
    by (simp_all add: count_received_def)
  have "fifo_ok ?q0" using D(1) fifo_ok_body [of ?q0 qd] by simp
  from Fifo_DoEnqueue_exact [OF this, of item now] q0 D fit obtain q1 where
    q1: "Fifo_DoEnqueue now item ?q0 = Some (queue_room item (qd_queues qd ! 0), q1)"
      "fifo_packets q1 = fifo_packets qd @ (if queue_room item (qd_queues qd ! 0) then [item] else [])" by auto
  from fifo.enqueue_ok [of qd item now] inv fit D(4) obtain ok qd' where
    e: "qd_Enqueue FifoQueueDisc now item qd = Some (ok, qd')" "fifo.qd_inv qd'" "frame qd' = frame qd"
    by (auto simp: fifo_inv_def)
  from qd_Enqueue_unfold [OF e(1)] q1(1) have ok: "ok = queue_room item (qd_queues qd ! 0)"
    and qd': "qd' = (if ok then SetTimeStamp now (it_uid item) q1 else q1)"
    by (auto simp: FifoQueueDisc_def)
  have "fifo_inv qd'" using e(2) inv frameD [OF e(3)] by (simp add: fifo_inv_def)
  moreover from this have "qd_queues qd' \<noteq> []" using fifo_invD(1) [of qd'] by (auto simp: fifo_ok_def)
  then have "map skey (fifo_packets qd') = map skey (fifo_packets q1)"
    by (cases "qd_queues q1") (auto simp: qd' SetTimeStamp_def stamp_skey)
  ultimately show ?thesis using e(1) q1(2) ok by auto
qed

lemma Fifo_Dequeue_exact:
  assumes inv: "fifo_inv qd"
  shows "\<exists>qd'. qd_Dequeue FifoQueueDisc now qd = Some (case fifo_packets qd of [] \<Rightarrow> None | i # _ \<Rightarrow> Some i, qd') \<and>
    fifo_inv qd' \<and> fifo_packets qd' = tl (fifo_packets qd)"
proof -
  note D = fifo_invD [OF inv]
  from fifo.dequeue_ok [of qd now] inv obtain r qd' where
    d: "qd_Dequeue FifoQueueDisc now qd = Some (r, qd')" "fifo.qd_inv qd'" "qd_requeued qd' = None"
    by (auto simp: fifo_inv_def)
  have "DoDequeue FifoQueueDisc now qd = Some (r, qd')"
    using qd_Dequeue_unfold [OF d(1)] inv by (simp add: fifo_inv_def)
  moreover have "queues_ok qd" "0 < length (qd_queues qd)" using D(1) by (auto simp: fifo_ok_def)
  from InternalQueue_Dequeue_ok [OF this, of now] obtain q2 where
    "InternalQueue_Dequeue now 0 qd = Some (case fifo_packets qd of [] \<Rightarrow> None | i # _ \<Rightarrow> Some i, q2)"
    "fifo_packets q2 = tl (fifo_packets qd)" by blast
  ultimately show ?thesis using d by (auto simp: FifoQueueDisc_def Fifo_DoDequeue_def fifo_inv_def)
qed

definition fifo_fits :: "queue_item \<Rightarrow> leaf_disc \<Rightarrow> bool" where
  "fifo_fits i qd \<longleftrightarrow> counts_fit i (fifo_packets qd) \<and> \<not> it_headerAdded i"

interpretation fifo_disc: packet_queue "qd_Enqueue FifoQueueDisc now" "qd_Dequeue FifoQueueDisc now" fifo_inv
  "\<lambda>qd. map skey (fifo_packets qd)" skey fifo_fits "\<lambda>i qd. queue_room i (qd_queues qd ! 0)" for now
proof (unfold_locales, goal_cases)
  case (1 q i)
  then show ?case using Fifo_Enqueue_exact [of q i now] by (auto simp: fifo_fits_def)
next
  case (2 q i)
  then show ?case using Fifo_Enqueue_exact [of q i now] by (auto simp: fifo_fits_def)
next
  case (3 q)
  then show ?case using Fifo_Dequeue_exact [of q now] by auto
next
  case (4 q k ks)
  then obtain i "is" where "fifo_packets q = i # is" "skey i = k" "map skey is = ks" by auto
  with 4 Fifo_Dequeue_exact [of q now] show ?case by auto
qed

interpretation fifo_counted: counted_queue "qd_Enqueue FifoQueueDisc now" "qd_Dequeue FifoQueueDisc now" fifo_inv
  "\<lambda>qd. map skey (fifo_packets qd)" skey fifo_fits "\<lambda>i qd. queue_room i (qd_queues qd ! 0)"
  "\<lambda>ks. sum_list (map (\<lambda>(u, s). unat s) ks)" "\<lambda>i. \<not> it_headerAdded i" for now
  by unfold_locales (auto simp: fifo_fits_def counts_fit_def skey_def items_bytes_def comp_def)

definition DEFAULT_QUOTA :: u32 where "DEFAULT_QUOTA = 64"

text \<open>A new \<^verbatim>\<open>FifoQueueDisc\<close> with a given limit, before its configuration is checked.\<close>

definition new_FifoQueueDisc :: "queue_size \<Rightarrow> leaf_disc" where
  "new_FifoQueueDisc m = (QueueDisc SINGLE_INTERNAL_QUEUE DEFAULT_QUOTA ())\<lparr>qd_maxSize := m\<rparr>"

lemma Fifo_CheckConfig_new:
  "\<exists>qd. Fifo_CheckConfig (new_FifoQueueDisc m) = Some (True, qd) \<and> fifo_inv qd \<and> fifo_packets qd = [] \<and>
     \<not> qd_running qd \<and> qd_quota qd = DEFAULT_QUOTA \<and> q_maxSize (qd_queues qd ! 0) = m"
proof -
  define qd where "qd = AddInternalQueue (QueueBase m) (new_FifoQueueDisc m)"
  have c: "Fifo_CheckConfig (new_FifoQueueDisc m) = Some (True, qd)"
    by (simp add: Fifo_CheckConfig_def qd_def new_FifoQueueDisc_def QueueDisc_def qd_GetMaxSize_def
        AddInternalQueue_def)
  have q: "qd_queues qd = [QueueBase m]" "qd_sizePolicy qd = SINGLE_INTERNAL_QUEUE" "qd_requeued qd = None"
    "\<not> qd_peeked qd" "\<not> qd_running qd" "qd_quota qd = DEFAULT_QUOTA" "qd_nPackets qd = 0" "qd_nBytes qd = 0"
    "qd_stats qd = Stats"
    by (simp_all add: qd_def new_FifoQueueDisc_def QueueDisc_def AddInternalQueue_def)
  then have "fifo_ok qd" by (simp add: fifo_ok_def queues_ok_def QueueBase_inv)
  moreover have "queues_held qd = []" using q(1) by (simp add: queues_held_def QueueBase_inv)
  moreover from this q(3) have "fifo.in_disc qd = []" by (simp add: fifo.in_disc_no_requeue)
  ultimately have "fifo_inv qd"
    using q by (simp add: fifo_inv_def fifo.qd_inv_def books_def books_stats_def Stats_def)
  with c q show ?thesis by (auto simp: QueueBase_inv QueueBase_def)
qed

end
