(* ===== verification/Priority_Disciplines.thy ===== *)
theory Priority_Disciplines
  imports Queue_Disciplines
begin

text \<open>
  The priority queue discs of \<^verbatim>\<open>src/traffic-control/model\<close>: \<^verbatim>\<open>PfifoFastQueueDisc\<close>, three drop-tail
  bands served in strict priority, and \<^verbatim>\<open>PrioQueueDisc\<close>, the same over child queue discs with packet
  filters and a configurable priority map.
\<close>

unbundle bit_operations_syntax

section \<open>PfifoFastQueueDisc\<close>

definition prio2band :: "nat list" where
  "prio2band = [1, 2, 2, 2, 1, 2, 0, 0, 1, 1, 1, 1, 1, 1, 1, 1]"

definition item_priority :: "queue_item \<Rightarrow> u8" where
  "item_priority i = (case it_priority i of None \<Rightarrow> 0 | Some p \<Rightarrow> p)"

definition pfifo_band :: "queue_item \<Rightarrow> nat" where
  "pfifo_band i = prio2band ! unat (item_priority i AND 0x0f)"

definition qs_greater_eq :: "queue_size \<Rightarrow> queue_size \<Rightarrow> bool option" where
  "qs_greater_eq a b = (if qs_unit a \<noteq> qs_unit b then None else Some (qs_value a \<ge> qs_value b))"

definition PfifoFast_DoEnqueue :: "time \<Rightarrow> queue_item \<Rightarrow> leaf_disc \<Rightarrow> (bool \<times> leaf_disc) option" where
  "PfifoFast_DoEnqueue now item qd = do {
     cur \<leftarrow> qd_GetCurrentSize leaf_ops qd;
     max \<leftarrow> qd_GetMaxSize leaf_ops qd;
     full \<leftarrow> qs_greater_eq cur max;
     if full then Some (False, qd_DropBeforeEnqueue item LIMIT_EXCEEDED_DROP qd)
     else InternalQueue_Enqueue now (pfifo_band item) item qd }"

fun dequeue_bands :: "time \<Rightarrow> nat list \<Rightarrow> ('c, 'd) qdisc \<Rightarrow> (queue_item option \<times> ('c, 'd) qdisc) option" where
  "dequeue_bands now [] qd = Some (None, qd)"
| "dequeue_bands now (k # ks) qd = do {
     (r, qd1) \<leftarrow> InternalQueue_Dequeue now k qd;
     (case r of Some i \<Rightarrow> Some (Some i, qd1) | None \<Rightarrow> dequeue_bands now ks qd1) }"

definition PfifoFast_DoDequeue :: "time \<Rightarrow> leaf_disc \<Rightarrow> (queue_item option \<times> leaf_disc) option" where
  "PfifoFast_DoDequeue now qd = dequeue_bands now [0..<length (qd_queues qd)] qd"

fun peek_bands :: "nat list \<Rightarrow> ('c, 'd) qdisc \<Rightarrow> queue_item option option" where
  "peek_bands [] qd = Some None"
| "peek_bands (k # ks) qd = do {
     r \<leftarrow> InternalQueue_Peek k qd;
     (case r of Some i \<Rightarrow> Some (Some i) | None \<Rightarrow> peek_bands ks qd) }"

definition PfifoFast_DoPeek :: "time \<Rightarrow> leaf_disc \<Rightarrow> (queue_item option \<times> leaf_disc) option" where
  "PfifoFast_DoPeek now qd = map_option (\<lambda>r. (r, qd)) (peek_bands [0..<length (qd_queues qd)] qd)"

fun capacities_ok :: "queue_size \<Rightarrow> nat list \<Rightarrow> ('c, 'd) qdisc \<Rightarrow> bool option" where
  "capacities_ok m [] qd = Some True"
| "capacities_ok m (k # ks) qd = do {
     less \<leftarrow> qs_less (q_maxSize (qd_queues qd ! k)) m;
     if less then Some False else capacities_ok m ks qd }"

definition PfifoFast_CheckConfig :: "leaf_disc \<Rightarrow> (bool \<times> leaf_disc) option" where
  "PfifoFast_CheckConfig qd =
     (if length (qd_classes qd) > 0 then Some (False, qd)
      else if length (qd_filters qd) \<noteq> 0 then Some (False, qd)
      else do {
        qd1 \<leftarrow> (if length (qd_queues qd) = 0 then do {
                 m \<leftarrow> qd_GetMaxSize leaf_ops qd;
                 Some (AddInternalQueue (QueueBase m) (AddInternalQueue (QueueBase m)
                   (AddInternalQueue (QueueBase m) qd))) } else Some qd);
        if length (qd_queues qd1) \<noteq> 3 then Some (False, qd1)
        else if qs_unit (q_maxSize (qd_queues qd1 ! 0)) \<noteq> PACKETS \<or>
                qs_unit (q_maxSize (qd_queues qd1 ! 1)) \<noteq> PACKETS \<or>
                qs_unit (q_maxSize (qd_queues qd1 ! 2)) \<noteq> PACKETS then Some (False, qd1)
        else do {
          m \<leftarrow> qd_GetMaxSize leaf_ops qd1;
          ok \<leftarrow> capacities_ok m [0..<2] qd1;
          Some (ok, qd1) } })"

definition PfifoFastQueueDisc :: "(unit, unit) qdisc_class" where
  "PfifoFastQueueDisc =
     \<lparr>DoEnqueue = PfifoFast_DoEnqueue, DoDequeue = PfifoFast_DoDequeue, DoPeek = PfifoFast_DoPeek\<rparr>"

definition pfifo_ok :: "leaf_disc \<Rightarrow> bool" where
  "pfifo_ok qd \<longleftrightarrow> queues_ok qd \<and> length (qd_queues qd) = 3 \<and> qd_sizePolicy qd = MULTIPLE_QUEUES \<and>
     qs_unit (qd_maxSize qd) = PACKETS"

lemma same_shape_pfifo: "same_shape qd' qd \<Longrightarrow> queues_ok qd' \<Longrightarrow> pfifo_ok qd \<Longrightarrow> pfifo_ok qd'"
  by (auto simp: same_shape_def pfifo_ok_def)

lemma pfifo_ok_body: "body qd' = body qd \<Longrightarrow> pfifo_ok qd' \<longleftrightarrow> pfifo_ok qd"
  by (simp add: pfifo_ok_def queues_ok_def body_def)

lemma prio2band_bound: "n < 16 \<Longrightarrow> prio2band ! n < 3"
proof -
  assume "n < 16"
  then have "prio2band ! n \<in> set prio2band" by (intro nth_mem) (simp add: prio2band_def)
  moreover have "\<forall>b \<in> set prio2band. b < 3" by (simp add: prio2band_def)
  ultimately show ?thesis by blast
qed

lemma low_nibble: "unat ((p :: u8) AND 0x0f) < 16"
proof -
  have "p AND 0x0f \<le> 0x0f" by (rule word_and_le1)
  then show ?thesis by (simp add: word_le_nat_alt)
qed

lemma pfifo_band_bound: "pfifo_band i < 3"
  by (simp add: pfifo_band_def prio2band_bound low_nibble)

lemma pfifo_limit:
  assumes "pfifo_ok qd"
  shows "qd_GetMaxSize leaf_ops qd = Some (qd_maxSize qd)"
    and "qd_GetCurrentSize leaf_ops qd = Some \<lparr>qs_unit = PACKETS, qs_value = qd_nPackets qd\<rparr>"
    and "qs_greater_eq \<lparr>qs_unit = PACKETS, qs_value = qd_nPackets qd\<rparr> (qd_maxSize qd) =
      Some (qd_nPackets qd \<ge> qs_value (qd_maxSize qd))"
  using assms by (simp_all add: pfifo_ok_def qd_GetMaxSize_def qd_GetCurrentSize_def qs_greater_eq_def)

lemma PfifoFast_DoEnqueue_exact:
  assumes ok: "pfifo_ok qd" and fit: "counts_fit item (queues_held qd)"
  defines "k \<equiv> pfifo_band item"
  shows "\<exists>ok qd'. PfifoFast_DoEnqueue now item qd = Some (ok, qd') \<and> pfifo_ok qd' \<and> frame qd' = frame qd \<and>
    same_shape qd' qd \<and>
    (ok \<longleftrightarrow> qd_nPackets qd < qs_value (qd_maxSize qd) \<and> queue_room item (qd_queues qd ! k)) \<and>
    q_packets (qd_queues qd' ! k) = q_packets (qd_queues qd ! k) @ (if ok then [item] else []) \<and>
    (\<forall>j \<noteq> k. qd_queues qd' ! j = qd_queues qd ! j) \<and>
    (if ok then acct qd' = acct (PacketEnqueued item qd) \<and> mset (queues_held qd') = add_mset item (mset (queues_held qd))
     else (\<exists>r. acct qd' = acct (qd_DropBeforeEnqueue item r qd)) \<and> mset (queues_held qd') = mset (queues_held qd))"
proof (cases "qd_nPackets qd < qs_value (qd_maxSize qd)")
  case False
  let ?d = "qd_DropBeforeEnqueue item LIMIT_EXCEEDED_DROP qd"
  have "PfifoFast_DoEnqueue now item qd = Some (False, ?d)"
    using pfifo_limit [OF ok] False by (simp add: PfifoFast_DoEnqueue_def not_less)
  moreover have "pfifo_ok ?d" using ok pfifo_ok_body [of ?d qd] by simp
  moreover have "queues_held ?d = queues_held qd" by (rule queues_held_body) simp
  moreover have "same_shape ?d qd" by simp (simp add: same_shape_def)
  ultimately show ?thesis using False by (intro exI [of _ False] exI [of _ ?d]) auto
next
  case True
  have "queues_ok qd" "k < length (qd_queues qd)"
    using ok pfifo_band_bound [of item] by (auto simp: pfifo_ok_def k_def)
  from InternalQueue_Enqueue_ok [OF this fit, of now] obtain qd' where
    e: "InternalQueue_Enqueue now k item qd = Some (queue_room item (qd_queues qd ! k), qd')"
      "queues_ok qd'" "frame qd' = frame qd" "same_shape qd' qd"
      "q_packets (qd_queues qd' ! k) = q_packets (qd_queues qd ! k) @ (if queue_room item (qd_queues qd ! k) then [item] else [])"
      "\<forall>j \<noteq> k. qd_queues qd' ! j = qd_queues qd ! j"
      "if queue_room item (qd_queues qd ! k)
       then acct qd' = acct (PacketEnqueued item qd) \<and> mset (queues_held qd') = add_mset item (mset (queues_held qd))
       else acct qd' = acct (qd_DropBeforeEnqueue item INTERNAL_QUEUE_DROP qd) \<and>
         mset (queues_held qd') = mset (queues_held qd)" by blast
  have "PfifoFast_DoEnqueue now item qd = Some (queue_room item (qd_queues qd ! k), qd')"
    using pfifo_limit [OF ok] True e(1) by (simp add: PfifoFast_DoEnqueue_def k_def flip: not_less)
  with e same_shape_pfifo [OF e(4,2) ok] True show ?thesis
    by (intro exI [of _ "queue_room item (qd_queues qd ! k)"] exI [of _ qd']) (auto split: if_splits)
qed

text \<open>Serving the bands in order takes the head of the first one that is not empty.\<close>

definition first_band :: "nat list \<Rightarrow> ('c, 'd) qdisc \<Rightarrow> nat option" where
  "first_band ks qd = find (\<lambda>k. q_packets (qd_queues qd ! k) \<noteq> []) ks"

lemma dequeue_bands_exact:
  assumes "queues_ok qd" and "set ks \<subseteq> {..<length (qd_queues qd)}"
  shows "case first_band ks qd of
     None \<Rightarrow> dequeue_bands now ks qd = Some (None, qd)
   | Some k \<Rightarrow> \<exists>i is qd'. q_packets (qd_queues qd ! k) = i # is \<and> dequeue_bands now ks qd = Some (Some i, qd') \<and>
       queues_ok qd' \<and> frame qd' = frame qd \<and> same_shape qd' qd \<and> q_packets (qd_queues qd' ! k) = is \<and>
       (\<forall>j \<noteq> k. qd_queues qd' ! j = qd_queues qd ! j) \<and> acct qd' = acct (PacketDequeued now i qd) \<and>
       mset (queues_held qd) = add_mset i (mset (queues_held qd'))"
  using assms(2)
proof (induction ks)
  case (Cons k ks)
  then have "k < length (qd_queues qd)" by simp
  from InternalQueue_Dequeue_ok [OF assms(1) this, of now] obtain qd' where
    d: "InternalQueue_Dequeue now k qd =
        Some (case q_packets (qd_queues qd ! k) of [] \<Rightarrow> None | i # _ \<Rightarrow> Some i, qd')"
      "queues_ok qd'" "frame qd' = frame qd" "same_shape qd' qd"
      "q_packets (qd_queues qd' ! k) = tl (q_packets (qd_queues qd ! k))"
      "\<forall>j \<noteq> k. qd_queues qd' ! j = qd_queues qd ! j"
      "case q_packets (qd_queues qd ! k) of
         [] \<Rightarrow> qd' = qd
       | i # _ \<Rightarrow> acct qd' = acct (PacketDequeued now i qd) \<and> mset (queues_held qd) = add_mset i (mset (queues_held qd'))"
    by blast
  show ?case
  proof (cases "q_packets (qd_queues qd ! k)")
    case Nil
    with d(1,7) have e: "dequeue_bands now (k # ks) qd = dequeue_bands now ks qd" by simp
    have f: "first_band (k # ks) qd = first_band ks qd" using Nil by (simp add: first_band_def)
    have "set ks \<subseteq> {..<length (qd_queues qd)}" using Cons.prems by simp
    from Cons.IH [OF this] show ?thesis unfolding e f .
  next
    case (Cons i "is")
    with d show ?thesis by (auto simp: first_band_def)
  qed
qed (simp add: first_band_def)

lemma PfifoFast_DoDequeue_law:
  assumes "pfifo_ok qd"
  shows "\<exists>r ds qd'. PfifoFast_DoDequeue now qd = Some (r, qd') \<and> pfifo_ok qd' \<and> frame qd' = frame qd \<and>
    keys (queues_held qd) = keys (map fst ds @ opt_list r @ queues_held qd') \<and>
    acct qd' = acct (fold (PacketDequeued now) (opt_list r) (fold (drop_effect now) ds qd))"
proof -
  let ?ks = "[0..<length (qd_queues qd)]"
  have q: "queues_ok qd" using assms by (simp add: pfifo_ok_def)
  have "set ?ks \<subseteq> {..<length (qd_queues qd)}" by auto
  note d = dequeue_bands_exact [OF q this, of now]
  show ?thesis
  proof (cases "first_band ?ks qd")
    case None
    with d assms show ?thesis
      by (intro exI [of _ None] exI [of _ "[]"] exI [of _ qd]) (simp add: PfifoFast_DoDequeue_def)
  next
    case (Some k)
    with d obtain i qd' where
      e: "dequeue_bands now ?ks qd = Some (Some i, qd')" "queues_ok qd'" "frame qd' = frame qd" "same_shape qd' qd"
        "acct qd' = acct (PacketDequeued now i qd)" "mset (queues_held qd) = add_mset i (mset (queues_held qd'))" by auto
    with same_shape_pfifo [OF e(4,2) assms] show ?thesis
      by (intro exI [of _ "Some i"] exI [of _ "[]"] exI [of _ qd']) (simp add: PfifoFast_DoDequeue_def)
  qed
qed

interpretation pfifo: queue_disc_class PfifoFastQueueDisc pfifo_ok queues_held
proof (unfold_locales, goal_cases)
  case 1 then show ?case by (rule pfifo_ok_body)
next
  case 2 then show ?case by (rule queues_held_body)
next
  case (3 qd now u)
  then show ?case
    using SetTimeStamp_queues [of qd now u] same_shape_pfifo [of "SetTimeStamp now u qd" qd]
    by (simp add: pfifo_ok_def)
next
  case (4 qd item now)
  from PfifoFast_DoEnqueue_exact [OF this, of now] obtain ok qd' where
    e: "PfifoFast_DoEnqueue now item qd = Some (ok, qd')" "pfifo_ok qd'" "frame qd' = frame qd"
      "if ok then acct qd' = acct (PacketEnqueued item qd) \<and> mset (queues_held qd') = add_mset item (mset (queues_held qd))
       else (\<exists>r. acct qd' = acct (qd_DropBeforeEnqueue item r qd)) \<and> mset (queues_held qd') = mset (queues_held qd)"
    by blast
  then obtain r where "acct qd' = acct (enqueue_effect ok item r qd)"
    by (cases ok) (auto simp: enqueue_effect_def)
  with e show ?case unfolding PfifoFastQueueDisc_def qdisc_class.simps
    by (intro exI [of _ ok] exI [of _ "[]"] exI [of _ "queues_held qd"] exI [of _ r] exI [of _ qd'])
      (auto split: if_splits)
next
  case 5
  then show ?case unfolding PfifoFastQueueDisc_def qdisc_class.simps by (rule PfifoFast_DoDequeue_law)
qed

section \<open>PrioQueueDisc\<close>

text \<open>The member \<^verbatim>\<open>m_prio2band\<close> is the data of the subclass.\<close>

type_synonym 'c prio_disc = "('c, nat list) qdisc"

definition Child_Enqueue ::
  "'c qdisc_ops \<Rightarrow> time \<Rightarrow> nat \<Rightarrow> queue_item \<Rightarrow> ('c, 'd) qdisc \<Rightarrow> (bool \<times> ('c, 'd) qdisc) option" where
  "Child_Enqueue ch now k item qd =
     (if k < length (qd_classes qd) then do {
        (ok, tr, c) \<leftarrow> ch_Enqueue ch now item (qd_classes qd ! k);
        Some (ok, fold (child_callback now) tr (qd\<lparr>qd_classes := (qd_classes qd)[k := c]\<rparr>)) }
      else None)"

definition Child_Dequeue ::
  "'c qdisc_ops \<Rightarrow> time \<Rightarrow> nat \<Rightarrow> ('c, 'd) qdisc \<Rightarrow> (queue_item option \<times> ('c, 'd) qdisc) option" where
  "Child_Dequeue ch now k qd =
     (if k < length (qd_classes qd) then do {
        (r, tr, c) \<leftarrow> ch_Dequeue ch now (qd_classes qd ! k);
        Some (r, fold (child_callback now) tr (qd\<lparr>qd_classes := (qd_classes qd)[k := c]\<rparr>)) }
      else None)"

definition Child_Peek ::
  "'c qdisc_ops \<Rightarrow> time \<Rightarrow> nat \<Rightarrow> ('c, 'd) qdisc \<Rightarrow> (queue_item option \<times> ('c, 'd) qdisc) option" where
  "Child_Peek ch now k qd =
     (if k < length (qd_classes qd) then do {
        (r, tr, c) \<leftarrow> ch_Peek ch now (qd_classes qd ! k);
        Some (r, fold (child_callback now) tr (qd\<lparr>qd_classes := (qd_classes qd)[k := c]\<rparr>)) }
      else None)"

definition SetBandForPriority :: "u8 \<Rightarrow> nat \<Rightarrow> 'c prio_disc \<Rightarrow> 'c prio_disc option" where
  "SetBandForPriority prio band qd =
     (if prio < 16 then Some (qd\<lparr>qd_data := (qd_data qd)[unat prio := band]\<rparr>) else None)"

definition GetBandForPriority :: "u8 \<Rightarrow> 'c prio_disc \<Rightarrow> nat option" where
  "GetBandForPriority prio qd = (if prio < 16 then Some (qd_data qd ! unat prio) else None)"

definition Prio_band :: "queue_item \<Rightarrow> 'c prio_disc \<Rightarrow> nat" where
  "Prio_band item qd = (let ret = qd_Classify item qd in
     if ret = PF_NO_MATCH then
       (case it_priority item of Some p \<Rightarrow> qd_data qd ! unat (p AND 0x0f) | None \<Rightarrow> qd_data qd ! 0)
     else if ret \<ge> 0 \<and> nat ret < length (qd_classes qd) then nat ret
     else qd_data qd ! 0)"

definition Prio_DoEnqueue :: "'c qdisc_ops \<Rightarrow> time \<Rightarrow> queue_item \<Rightarrow> 'c prio_disc \<Rightarrow> (bool \<times> 'c prio_disc) option" where
  "Prio_DoEnqueue ch now item qd = (let band = Prio_band item qd in
     if band < length (qd_classes qd) then Child_Enqueue ch now band item qd else None)"

fun dequeue_children ::
  "'c qdisc_ops \<Rightarrow> time \<Rightarrow> nat list \<Rightarrow> ('c, 'd) qdisc \<Rightarrow> (queue_item option \<times> ('c, 'd) qdisc) option" where
  "dequeue_children ch now [] qd = Some (None, qd)"
| "dequeue_children ch now (k # ks) qd = do {
     (r, qd1) \<leftarrow> Child_Dequeue ch now k qd;
     (case r of Some i \<Rightarrow> Some (Some i, qd1) | None \<Rightarrow> dequeue_children ch now ks qd1) }"

definition Prio_DoDequeue :: "'c qdisc_ops \<Rightarrow> time \<Rightarrow> 'c prio_disc \<Rightarrow> (queue_item option \<times> 'c prio_disc) option" where
  "Prio_DoDequeue ch now qd = dequeue_children ch now [0..<length (qd_classes qd)] qd"

fun peek_children ::
  "'c qdisc_ops \<Rightarrow> time \<Rightarrow> nat list \<Rightarrow> ('c, 'd) qdisc \<Rightarrow> (queue_item option \<times> ('c, 'd) qdisc) option" where
  "peek_children ch now [] qd = Some (None, qd)"
| "peek_children ch now (k # ks) qd = do {
     (r, qd1) \<leftarrow> Child_Peek ch now k qd;
     (case r of Some i \<Rightarrow> Some (Some i, qd1) | None \<Rightarrow> peek_children ch now ks qd1) }"

definition Prio_DoPeek :: "'c qdisc_ops \<Rightarrow> time \<Rightarrow> 'c prio_disc \<Rightarrow> (queue_item option \<times> 'c prio_disc) option" where
  "Prio_DoPeek ch now qd = peek_children ch now [0..<length (qd_classes qd)] qd"

definition PrioQueueDisc :: "'c qdisc_ops \<Rightarrow> ('c, nat list) qdisc_class" where
  "PrioQueueDisc ch =
     \<lparr>DoEnqueue = Prio_DoEnqueue ch, DoDequeue = Prio_DoDequeue ch, DoPeek = Prio_DoPeek ch\<rparr>"

definition new_PrioQueueDisc :: "'c prio_disc" where
  "new_PrioQueueDisc = QueueDisc NO_LIMITS DEFAULT_QUOTA [1, 2, 2, 2, 1, 2, 0, 0, 1, 1, 1, 1, 1, 1, 1, 1]"

text \<open>\<^verbatim>\<open>CheckConfig\<close> creates and initialises the default children; the loop runs for \<^verbatim>\<open>i < 2\<close>.\<close>

definition default_fifo :: "leaf_disc option" where
  "default_fifo = do {
     (ok, qd) \<leftarrow> Fifo_CheckConfig (new_FifoQueueDisc \<lparr>qs_unit = PACKETS, qs_value = 1000\<rparr>);
     if ok then Some qd else None }"

definition AddQueueDiscClass :: "'c \<Rightarrow> ('c, 'd) qdisc \<Rightarrow> ('c, 'd) qdisc" where
  "AddQueueDiscClass c qd = qd\<lparr>qd_classes := qd_classes qd @ [c]\<rparr>"

fun add_fifos :: "nat \<Rightarrow> leaf_disc prio_disc \<Rightarrow> leaf_disc prio_disc option" where
  "add_fifos 0 qd = Some qd"
| "add_fifos (Suc n) qd = do { c \<leftarrow> default_fifo; add_fifos n (AddQueueDiscClass c qd) }"

definition Prio_CheckConfig :: "leaf_disc prio_disc \<Rightarrow> (bool \<times> leaf_disc prio_disc) option" where
  "Prio_CheckConfig qd =
     (if length (qd_queues qd) > 0 then Some (False, qd)
      else do {
        qd1 \<leftarrow> (if length (qd_classes qd) = 0 then add_fifos 2 qd else Some qd);
        if length (qd_classes qd1) < 2 then Some (False, qd1) else Some (True, qd1) })"

definition fifo_child :: "leaf_disc qdisc_ops" where
  "fifo_child = qdisc_ops_of leaf_ops FifoQueueDisc"

end
