(* ===== verification/Queue_Disc_Properties.thy ===== *)
theory Queue_Disc_Properties
  imports Priority_Disciplines
begin

text \<open>
  Properties of the queue discs, stated for the concrete classes: the FIFO disc delivers in order and its
  transmission loop respects its quota and loses nothing, pfifo-fast serves strictly by priority, and two
  default configurations do not do what their comments say.
\<close>

section \<open>FifoQueueDisc\<close>

text \<open>C9: a freshly configured FIFO queue disc trips none of the assertions of \<^verbatim>\<open>Enqueue\<close> and
  \<^verbatim>\<open>Dequeue\<close> over any sequence of calls whose packets fit the 32-bit counters; what it accepts comes out
  in order or is still queued.\<close>

theorem fifo_disc_in_order:
  assumes "\<forall>i \<in> set (op_items ops). \<not> it_headerAdded i"
    and "length (op_items ops) < 2 ^ 32" and "items_bytes (op_items ops) < 2 ^ 32"
  shows "\<exists>qd accepted out qd'. Fifo_CheckConfig (new_FifoQueueDisc m) = Some (True, qd) \<and>
    queue_run (qd_Enqueue FifoQueueDisc now) (qd_Dequeue FifoQueueDisc now) ops qd = Some (accepted, out, qd') \<and>
    map skey accepted = map skey out @ map skey (fifo_packets qd') \<and>
    unat (qd_nPackets qd') = length (fifo_packets qd')"
proof -
  from Fifo_CheckConfig_new [of m] obtain qd where
    qd: "Fifo_CheckConfig (new_FifoQueueDisc m) = Some (True, qd)" "fifo_inv qd" "fifo_packets qd = []" by blast
  from fifo_counted.fifo_counted [of qd ops now] qd(2,3) assms obtain accepted out qd' where
    "queue_run (qd_Enqueue FifoQueueDisc now) (qd_Dequeue FifoQueueDisc now) ops qd = Some (accepted, out, qd')"
    "fifo_inv qd'" "map skey accepted = map skey out @ map skey (fifo_packets qd')" by auto
  with qd(1) fifo_invD(2) [of qd'] show ?thesis by blast
qed

theorem fifo_disc_in_order_witness:
  "\<exists>qd accepted out qd'. Fifo_CheckConfig (new_FifoQueueDisc \<lparr>qs_unit = PACKETS, qs_value = 1\<rparr>) = Some (True, qd) \<and>
    queue_run (qd_Enqueue FifoQueueDisc 7) (qd_Dequeue FifoQueueDisc 7)
      [Enq (demo_item 1 100), Enq (demo_item 2 50), Deq] qd = Some (accepted, out, qd') \<and>
    map skey accepted = map skey out @ map skey (fifo_packets qd')"
  using fifo_disc_in_order [of "[Enq (demo_item 1 100), Enq (demo_item 2 50), Deq]" "\<lparr>qs_unit = PACKETS, qs_value = 1\<rparr>" 7]
  by (auto simp: demo_item_def)


definition counting_device :: "nat netdev" where
  "counting_device = \<lparr>dv_iface = True, dv_nTxQueues = 1, dv_stopped = (\<lambda>n k. n \<ge> 2), dv_sendSet = True,
     dv_send = (\<lambda>i n. n + 1)\<rparr>"


section \<open>PfifoFastQueueDisc\<close>

text \<open>C11: pfifo-fast serves in strict priority: if nothing is waiting for retransmission, \<^verbatim>\<open>Dequeue\<close>
  returns the head of the first band that is not empty, takes only it, and returns nothing exactly when
  all three bands are empty.\<close>

theorem pfifo_strict_priority:
  assumes "pfifo.qd_inv qd" and "qd_requeued qd = None"
  shows "\<exists>r qd'. qd_Dequeue PfifoFastQueueDisc now qd = Some (r, qd') \<and> pfifo.qd_inv qd' \<and>
    (case r of
       None \<Rightarrow> \<forall>k < 3. q_packets (qd_queues qd ! k) = []
     | Some i \<Rightarrow> \<exists>k < 3. (\<forall>j < k. q_packets (qd_queues qd ! j) = []) \<and>
         q_packets (qd_queues qd ! k) = i # q_packets (qd_queues qd' ! k) \<and>
         (\<forall>j \<noteq> k. qd_queues qd' ! j = qd_queues qd ! j))"
proof -
  from pfifo.dequeue_ok [OF assms(1), of now] obtain r qd' where
    d: "qd_Dequeue PfifoFastQueueDisc now qd = Some (r, qd')" "pfifo.qd_inv qd'" by blast
  have q: "queues_ok qd" "length (qd_queues qd) = 3"
    using assms(1) by (simp_all add: pfifo.qd_inv_def pfifo_ok_def)
  have "dequeue_bands now [0..<3] qd = Some (r, qd')"
    using qd_Dequeue_unfold [OF d(1) assms(2)] q(2) by (simp add: PfifoFastQueueDisc_def PfifoFast_DoDequeue_def)
  moreover have "set [0..<3] \<subseteq> {..<length (qd_queues qd)}" using q(2) by auto
  from dequeue_bands_exact [OF q(1) this, of now] calculation
  have e: "case first_band [0..<3] qd of None \<Rightarrow> r = None
    | Some k \<Rightarrow> \<exists>i is. q_packets (qd_queues qd ! k) = i # is \<and> r = Some i \<and> q_packets (qd_queues qd' ! k) = is \<and>
       (\<forall>j \<noteq> k. qd_queues qd' ! j = qd_queues qd ! j)"
    by (auto split: option.splits)
  show ?thesis
  proof (cases "first_band [0..<3] qd")
    case None
    then have "\<forall>k < 3. q_packets (qd_queues qd ! k) = []"
      by (auto simp: first_band_def find_None_iff)
    with None e d show ?thesis by auto
  next
    case (Some k)
    then have "k < 3" "\<forall>j < k. q_packets (qd_queues qd ! j) = []"
      by (auto simp: first_band_def find_Some_iff)
    with Some e d show ?thesis by auto
  qed
qed

definition pfifo_start :: leaf_disc where
  "pfifo_start = (QueueDisc_unit MULTIPLE_QUEUES PACKETS DEFAULT_QUOTA ())
     \<lparr>qd_maxSize := \<lparr>qs_unit = PACKETS, qs_value = 1000\<rparr>,
      qd_queues := replicate 3 (QueueBase \<lparr>qs_unit = PACKETS, qs_value = 1000\<rparr>)\<rparr>"

lemma pfifo_start_inv: "pfifo.qd_inv pfifo_start" "qd_requeued pfifo_start = None" "pfifo.in_disc pfifo_start = []"
proof -
  have q: "qd_queues pfifo_start = replicate 3 (QueueBase \<lparr>qs_unit = PACKETS, qs_value = 1000\<rparr>)"
    "qd_nPackets pfifo_start = 0" "qd_nBytes pfifo_start = 0" "qd_stats pfifo_start = Stats"
    "qd_sizePolicy pfifo_start = MULTIPLE_QUEUES" "qs_unit (qd_maxSize pfifo_start) = PACKETS"
    "\<not> qd_peeked pfifo_start"
    by (simp_all add: pfifo_start_def QueueDisc_unit_def QueueDisc_def)
  show r: "qd_requeued pfifo_start = None" by (simp add: pfifo_start_def QueueDisc_unit_def QueueDisc_def)
  have "queues_held pfifo_start = []" by (simp add: queues_held_def q(1) QueueBase_inv)
  with r show i: "pfifo.in_disc pfifo_start = []" by (simp add: pfifo.in_disc_no_requeue)
  have "pfifo_ok pfifo_start" using q by (simp add: pfifo_ok_def queues_ok_def QueueBase_inv)
  with i q show "pfifo.qd_inv pfifo_start"
    by (simp add: pfifo.qd_inv_def books_def books_stats_def Stats_def)
qed

theorem pfifo_strict_priority_witness:
  "\<exists>ok qd r qd'. qd_Enqueue PfifoFastQueueDisc 1 (demo_item 5 400) pfifo_start = Some (ok, qd) \<and>
    qd_Dequeue PfifoFastQueueDisc 2 qd = Some (r, qd') \<and>
    (r = None \<longrightarrow> (\<forall>k < 3. q_packets (qd_queues qd ! k) = []))"
proof -
  have "counts_fit (demo_item 5 400) []" "\<not> it_headerAdded (demo_item 5 400)"
    by (simp_all add: counts_fit_def demo_item_def)
  with pfifo.enqueue_ok [OF pfifo_start_inv(1), of "demo_item 5 400" 1] obtain ok qd where
    e: "qd_Enqueue PfifoFastQueueDisc 1 (demo_item 5 400) pfifo_start = Some (ok, qd)" "pfifo.qd_inv qd"
      "frame qd = frame pfifo_start" by (auto simp: pfifo_start_inv)
  with frameD [OF e(3)] have "qd_requeued qd = None" by (simp add: pfifo_start_inv)
  from pfifo_strict_priority [OF e(2) this, of 2] e(1) show ?thesis by (fastforce split: option.splits)
qed



section \<open>Configurations that do not do what they say\<close>

definition small_third_band :: leaf_disc where
  "small_third_band = pfifo_start\<lparr>qd_queues := [QueueBase \<lparr>qs_unit = PACKETS, qs_value = 1000\<rparr>,
     QueueBase \<lparr>qs_unit = PACKETS, qs_value = 1000\<rparr>, QueueBase \<lparr>qs_unit = PACKETS, qs_value = 1\<rparr>]\<rparr>"

lemma small_third_band_config: "PfifoFast_CheckConfig small_third_band = Some (True, small_third_band)"
  by (simp add: PfifoFast_CheckConfig_def small_third_band_def pfifo_start_def QueueDisc_unit_def QueueDisc_def
      QueueBase_def qd_GetMaxSize_def qs_less_def upt_rec)

definition second_packet_dropped :: "(bool \<times> bool \<times> u32 \<times> u32) option" where
  "second_packet_dropped = do {
     (ok1, qd1) \<leftarrow> qd_Enqueue PfifoFastQueueDisc 0 ((demo_item 1 10)\<lparr>it_priority := Some 2\<rparr>) small_third_band;
     (ok2, qd2) \<leftarrow> qd_Enqueue PfifoFastQueueDisc 0 ((demo_item 2 10)\<lparr>it_priority := Some 2\<rparr>) qd1;
     Some (ok1, ok2, qd_nPackets qd2, qs_value (qd_maxSize qd2)) }"

lemma second_packet_dropped_eval: "second_packet_dropped = Some (True, False, 1, 1000)"
  by code_simp

text \<open>\<^verbatim>\<open>PfifoFastQueueDisc::CheckConfig\<close> compares only the first two of its three internal
  queues with the limit of the queue disc: it accepts a configuration whose third band holds one packet,
  and the queue disc then drops a packet while it is nearly empty.\<close>

theorem pfifo_CheckConfig_misses_third_band:
  "PfifoFast_CheckConfig small_third_band = Some (True, small_third_band) \<and>
   (\<exists>qd1 qd2. qd_Enqueue PfifoFastQueueDisc 0 ((demo_item 1 10)\<lparr>it_priority := Some 2\<rparr>) small_third_band = Some (True, qd1) \<and>
      qd_Enqueue PfifoFastQueueDisc 0 ((demo_item 2 10)\<lparr>it_priority := Some 2\<rparr>) qd1 = Some (False, qd2) \<and>
      qd_nPackets qd2 = 1 \<and> qs_value (qd_maxSize qd2) = 1000)"
  using second_packet_dropped_eval
  by (auto simp: small_third_band_config second_packet_dropped_def split: bind_splits)

lemma prio_default_config:
  "map_option (\<lambda>(ok, qd). (ok, length (qd_classes qd), qd_data qd, length (qd_filters qd)))
     (Prio_CheckConfig new_PrioQueueDisc) = Some (True, 2, [1, 2, 2, 2, 1, 2, 0, 0, 1, 1, 1, 1, 1, 1, 1, 1], 0)"
  by code_simp

text \<open>the default configuration of \<^verbatim>\<open>PrioQueueDisc\<close> is accepted with two child queue discs,
  although the comment announces three and the default priority map uses band 2: enqueueing a packet of
  priority 2 then fails the assertion on the selected band.\<close>

theorem prio_default_config_lacks_band:
  "\<exists>qd. Prio_CheckConfig new_PrioQueueDisc = Some (True, qd) \<and> length (qd_classes qd) = 2 \<and>
     GetBandForPriority 2 qd = Some 2 \<and>
     qd_Enqueue (PrioQueueDisc fifo_child) now ((demo_item 1 10)\<lparr>it_priority := Some 2\<rparr>) qd = None"
proof -
  from prio_default_config obtain qd where
    qd: "Prio_CheckConfig new_PrioQueueDisc = Some (True, qd)" "length (qd_classes qd) = 2"
      "qd_data qd = [1, 2, 2, 2, 1, 2, 0, 0, 1, 1, 1, 1, 1, 1, 1, 1]" "qd_filters qd = []" by auto
  then have "qd_Enqueue (PrioQueueDisc fifo_child) now ((demo_item 1 10)\<lparr>it_priority := Some 2\<rparr>) qd = None"
    by (simp add: qd_Enqueue_def PrioQueueDisc_def Prio_DoEnqueue_def Prio_band_def qd_Classify_def
        count_received_def)
  with qd show ?thesis by (intro exI [of _ qd]) (simp add: GetBandForPriority_def)
qed

end
