(* ===== verification/Tsn_Schedule.thy ===== *)
theory Tsn_Schedule
  imports Net_Queue
begin

text \<open>
  Gate control lists of the time-aware shaper (\<^verbatim>\<open>contrib/tsn/model/net-device-list-config.h\<close> and
  \<^verbatim>\<open>.cc\<close>): the opening and closing times of one gate, the configuration of a device with eight gates,
  its construction from a cyclic schedule, and the decision \<^verbatim>\<open>TasQueueDisc::ListExecute\<close> takes for one
  gate. The specification is the schedule itself: which gates are open in which slot of the cycle.
  Times are integers in units of the time resolution.
\<close>

section \<open>Gate lists\<close>

record gate_list =
  gl_openingTimes :: "time list"
  gl_closingTimes :: "time list"
  gl_openOffset :: "time list"
  gl_closeOffset :: "time list"

definition gl_empty :: gate_list where
  "gl_empty = \<lparr>gl_openingTimes = [], gl_closingTimes = [], gl_openOffset = [], gl_closeOffset = []\<rparr>"

definition gl_push :: "time \<Rightarrow> time \<Rightarrow> time \<Rightarrow> time \<Rightarrow> gate_list \<Rightarrow> gate_list option" where
  "gl_push opens closesTime openOffset closeOffset g = (let openTime = opens + openOffset in
     if openTime > closesTime then None
     else Some (g\<lparr>gl_openingTimes := gl_openingTimes g @ [openTime],
                  gl_closingTimes := gl_closingTimes g @ [closesTime],
                  gl_openOffset := gl_openOffset g @ [openOffset],
                  gl_closeOffset := gl_closeOffset g @ [closeOffset]\<rparr>))"

text \<open>\<^verbatim>\<open>Add\<close> extends the last window when the new one starts where it ended, offset included;
  \<^term>\<open>None\<close> is the fatal error.\<close>

definition gl_Add :: "time \<Rightarrow> time \<Rightarrow> time \<Rightarrow> time \<Rightarrow> gate_list \<Rightarrow> gate_list option" where
  "gl_Add opens closes openOffset closeOffset g =
     (let vectorSize = length (gl_closingTimes g); closesTime = closes - closeOffset in
      if vectorSize > 0 then
        let v = vectorSize - 1 in
        if gl_closingTimes g ! v + gl_closeOffset g ! v = opens then
          if gl_openingTimes g ! v > closesTime then None
          else Some (g\<lparr>gl_closingTimes := (gl_closingTimes g)[v := closesTime],
                       gl_closeOffset := (gl_closeOffset g)[v := closeOffset]\<rparr>)
        else gl_push opens closesTime openOffset closeOffset g
      else gl_push opens closesTime openOffset closeOffset g)"

definition erase_at :: "nat \<Rightarrow> 'a list \<Rightarrow> 'a list" where
  "erase_at i xs = take i xs @ drop (Suc i) xs"

definition gl_Remove :: "nat \<Rightarrow> gate_list \<Rightarrow> gate_list" where
  "gl_Remove i g =
     (if i < length (gl_openingTimes g) \<and> i < length (gl_closingTimes g) then
        \<lparr>gl_openingTimes = erase_at i (gl_openingTimes g), gl_closingTimes = erase_at i (gl_closingTimes g),
         gl_openOffset = erase_at i (gl_openOffset g), gl_closeOffset = erase_at i (gl_closeOffset g)\<rparr>
      else g)"

fun gl_Copy_loop :: "(time \<times> time \<times> time \<times> time) list \<Rightarrow> gate_list \<Rightarrow> gate_list option" where
  "gl_Copy_loop [] g = Some g"
| "gl_Copy_loop ((op, cl, oo, co) # ws) g = do { g' \<leftarrow> gl_Add op cl oo co g; gl_Copy_loop ws g' }"

definition gl_Copy :: "gate_list \<Rightarrow> gate_list option" where
  "gl_Copy src = gl_Copy_loop
     (zip (gl_openingTimes src) (zip (gl_closingTimes src) (zip (gl_openOffset src) (gl_closeOffset src)))) gl_empty"

section \<open>Device configurations\<close>

datatype panding_status = PANDING | ACTIVE | TERMINATED

record net_config =
  nc_pandingStatus :: panding_status
  nc_configChangeTime :: time
  nc_length :: time
  nc_epoch :: time
  nc_gates :: "gate_list list"

definition NetDeviceListConfig :: net_config where
  "NetDeviceListConfig = \<lparr>nc_pandingStatus = PANDING, nc_configChangeTime = 0, nc_length = 0, nc_epoch = 0,
     nc_gates = replicate 8 gl_empty\<rparr>"

fun copy_gates :: "gate_list list \<Rightarrow> gate_list list option" where
  "copy_gates [] = Some []"
| "copy_gates (g # gs) = do { g' \<leftarrow> gl_Copy g; gs' \<leftarrow> copy_gates gs; Some (g' # gs') }"

text \<open>Like the source, \<^verbatim>\<open>Copy\<close> and \<^verbatim>\<open>Clear\<close> leave \<^verbatim>\<open>m_epoch\<close> alone.\<close>

definition nc_Copy :: "net_config \<Rightarrow> net_config \<Rightarrow> net_config option" where
  "nc_Copy dst src = do {
     gs \<leftarrow> copy_gates (nc_gates src);
     Some (dst\<lparr>nc_pandingStatus := nc_pandingStatus src, nc_configChangeTime := nc_configChangeTime src,
               nc_length := nc_length src, nc_gates := gs\<rparr>) }"

definition nc_Clear :: "net_config \<Rightarrow> net_config" where
  "nc_Clear c = c\<lparr>nc_pandingStatus := PANDING, nc_configChangeTime := 0, nc_length := 0,
     nc_gates := map (\<lambda>_. gl_empty) (nc_gates c)\<rparr>"

definition nc_SetGateListConfig :: "gate_list \<Rightarrow> nat \<Rightarrow> net_config \<Rightarrow> net_config option" where
  "nc_SetGateListConfig g i c =
     (if i < length (nc_gates c) then do { g' \<leftarrow> gl_Copy g; Some (c\<lparr>nc_gates := (nc_gates c)[i := g']\<rparr>) }
      else None)"

fun add_gates :: "time \<Rightarrow> time \<Rightarrow> time \<Rightarrow> time \<Rightarrow> bool list \<Rightarrow> gate_list list \<Rightarrow> gate_list list option" where
  "add_gates op cl so eo (b # bs) (g # gs) = do {
     g' \<leftarrow> (if b then gl_Add op cl so eo g else Some g);
     gs' \<leftarrow> add_gates op cl so eo bs gs;
     Some (g' # gs') }"
| "add_gates op cl so eo _ gs = Some gs"

definition nc_Add :: "time \<Rightarrow> bool list \<Rightarrow> time \<Rightarrow> time \<Rightarrow> net_config \<Rightarrow> net_config option" where
  "nc_Add duration gateStateMap startOffset stopOffset c = do {
     gs \<leftarrow> add_gates (nc_length c) (nc_length c + duration) startOffset stopOffset gateStateMap (nc_gates c);
     Some (c\<lparr>nc_gates := gs, nc_length := nc_length c + duration\<rparr>) }"

section \<open>The decision for one gate\<close>

text \<open>\<^verbatim>\<open>GetNextBiggerEntry\<close>: the index of the first entry above the given time, 0 if there is none, -1
  for an empty list.\<close>

fun first_above :: "nat \<Rightarrow> time list \<Rightarrow> time \<Rightarrow> nat option" where
  "first_above k [] t = None"
| "first_above k (x # xs) t = (if x > t then Some k else first_above (Suc k) xs t)"

definition GetNextBiggerEntry :: "time list \<Rightarrow> time \<Rightarrow> int" where
  "GetNextBiggerEntry xs t =
     (if length xs = 0 then - 1 else case first_above 0 xs t of Some k \<Rightarrow> int k | None \<Rightarrow> 0)"

text \<open>The body of the loop of \<^verbatim>\<open>ListExecute\<close>: the new state of the gate and the relative time of its next
  event, \<^term>\<open>None\<close> when the gate has no entry.\<close>

definition gate_decision :: "time \<Rightarrow> gate_list \<Rightarrow> time \<Rightarrow> (bool \<times> time) option" where
  "gate_decision len config relativeNow =
     (let idx = GetNextBiggerEntry (gl_closingTimes config) relativeNow in
      if idx < 0 then None
      else
        let op = gl_openingTimes config ! nat idx; cl = gl_closingTimes config ! nat idx;
            newgateState = (op \<le> relativeNow \<and> relativeNow < cl);
            nextEvent = (if newgateState then
                (if cl = len \<and> gl_openingTimes config ! 0 - gl_openOffset config ! 0 = 0
                 then gl_closingTimes config ! 0 else cl)
              else op);
            nextEvent' = (if nextEvent < relativeNow then nextEvent + len else nextEvent)
        in Some (newgateState, nextEvent'))"

section \<open>Well-formed gate lists\<close>

definition windows :: "gate_list \<Rightarrow> (time \<times> time) list" where
  "windows g = zip (gl_openingTimes g) (gl_closingTimes g)"

definition gate_open :: "gate_list \<Rightarrow> time \<Rightarrow> bool" where
  "gate_open g t \<longleftrightarrow> (\<exists>(op, cl) \<in> set (windows g). op \<le> t \<and> t < cl)"

text \<open>The windows of a gate are disjoint, ordered, not adjacent, and lie in the cycle; no offsets.\<close>

definition wf_gate :: "time \<Rightarrow> gate_list \<Rightarrow> bool" where
  "wf_gate L g \<longleftrightarrow> length (gl_closingTimes g) = length (gl_openingTimes g) \<and>
     gl_openOffset g = replicate (length (gl_openingTimes g)) 0 \<and>
     gl_closeOffset g = replicate (length (gl_openingTimes g)) 0 \<and>
     sorted_wrt (\<lambda>(op, cl) (op', cl'). cl < op') (windows g) \<and>
     (\<forall>(op, cl) \<in> set (windows g). 0 \<le> op \<and> op < cl \<and> cl \<le> L)"

lemma wf_gate_empty [simp]: "wf_gate L gl_empty" "\<not> gate_open gl_empty t"
  by (simp_all add: wf_gate_def gl_empty_def windows_def gate_open_def)

lemma wf_gate_mono: "wf_gate L g \<Longrightarrow> L \<le> L' \<Longrightarrow> wf_gate L' g"
  by (fastforce simp: wf_gate_def)

lemma wf_gate_snoc:
  assumes "wf_gate L g" and "gl_closingTimes g \<noteq> []"
  obtains os op cs cl where "gl_openingTimes g = os @ [op]" and "gl_closingTimes g = cs @ [cl]"
    and "length cs = length os" and "windows g = zip os cs @ [(op, cl)]"
proof -
  from assms have "gl_openingTimes g \<noteq> []" by (auto simp: wf_gate_def)
  then obtain os op where o: "gl_openingTimes g = os @ [op]" by (metis append_butlast_last_id)
  from assms(2) obtain cs cl where c: "gl_closingTimes g = cs @ [cl]" by (metis append_butlast_last_id)
  moreover have "length cs = length os" using assms(1) o c by (simp add: wf_gate_def)
  ultimately show thesis using o by (intro that) (simp_all add: windows_def)
qed

lemma gl_push_zero:
  assumes wf: "wf_gate L g" and d: "0 < d" "0 \<le> L" and last: "\<forall>(op, cl) \<in> set (windows g). cl < L"
  shows "\<exists>g'. gl_push L (L + d) 0 0 g = Some g' \<and> wf_gate (L + d) g' \<and>
    (\<forall>t. gate_open g' t \<longleftrightarrow> gate_open g t \<or> (L \<le> t \<and> t < L + d))"
proof -
  define g' where "g' = g\<lparr>gl_openingTimes := gl_openingTimes g @ [L], gl_closingTimes := gl_closingTimes g @ [L + d],
      gl_openOffset := gl_openOffset g @ [0], gl_closeOffset := gl_closeOffset g @ [0]\<rparr>"
  have w: "windows g' = windows g @ [(L, L + d)]" using wf by (simp add: windows_def g'_def wf_gate_def)
  have "wf_gate (L + d) g'"
    using wf d last unfolding wf_gate_def w
    by (auto simp: g'_def sorted_wrt_append replicate_append_same [symmetric] simp flip: replicate_Suc)
      (fastforce simp: replicate_append_same)+
  moreover have "gl_push L (L + d) 0 0 g = Some g'" using d by (simp add: gl_push_def g'_def)
  moreover have "gate_open g' t \<longleftrightarrow> gate_open g t \<or> (L \<le> t \<and> t < L + d)" for t
    unfolding gate_open_def w by auto
  ultimately show ?thesis by blast
qed

lemma gl_extend_zero:
  assumes wf: "wf_gate L g" and d: "0 < d" "0 \<le> L"
    and o: "gl_openingTimes g = os @ [op]" and c: "gl_closingTimes g = cs @ [L]" and l: "length cs = length os"
    and w: "windows g = zip os cs @ [(op, L)]"
  shows "\<exists>g'. gl_Add L (L + d) 0 0 g = Some g' \<and> wf_gate (L + d) g' \<and>
    (\<forall>t. gate_open g' t \<longleftrightarrow> gate_open g t \<or> (L \<le> t \<and> t < L + d))"
proof -
  have op: "op < L" "0 \<le> op" using wf w by (auto simp: wf_gate_def)
  have off: "gl_closeOffset g = replicate (Suc (length os)) 0" "gl_openOffset g = replicate (Suc (length os)) 0"
    using wf o by (simp_all add: wf_gate_def)
  define g' where "g' = g\<lparr>gl_closingTimes := cs @ [L + d], gl_closeOffset := replicate (Suc (length os)) 0\<rparr>"
  have u: "(cs @ [L])[length os := L + d] = cs @ [L + d]" using l by (metis list_update_length)
  have r: "(replicate (Suc (length os)) (0::time))[length os := 0] = replicate (Suc (length os)) 0"
    by (metis lessI list_update_id nth_replicate)
  have "gl_Add L (L + d) 0 0 g = Some g'"
    using o c l off op d u r by (simp add: gl_Add_def g'_def nth_append Let_def del: replicate.simps)
  moreover have w': "windows g' = zip os cs @ [(op, L + d)]" using o l by (simp add: windows_def g'_def)
  moreover have "wf_gate (L + d) g'"
    using wf d op o l off unfolding wf_gate_def w w'
    by (fastforce simp: g'_def sorted_wrt_append)
  moreover have "gate_open g' t \<longleftrightarrow> gate_open g t \<or> (L \<le> t \<and> t < L + d)" for t
    unfolding gate_open_def w w' using op d by auto
  ultimately show ?thesis by blast
qed

lemma gl_Add_zero:
  assumes wf: "wf_gate L g" and d: "0 < d" "0 \<le> L"
  shows "\<exists>g'. gl_Add L (L + d) 0 0 g = Some g' \<and> wf_gate (L + d) g' \<and>
    (\<forall>t. gate_open g' t \<longleftrightarrow> gate_open g t \<or> (L \<le> t \<and> t < L + d))"
proof (cases "gl_closingTimes g = []")
  case True
  then have "windows g = []" by (simp add: windows_def)
  with gl_push_zero [OF wf d] True show ?thesis by (simp add: gl_Add_def)
next
  case False
  from wf_gate_snoc [OF wf False] obtain os op cs cl where
    s: "gl_openingTimes g = os @ [op]" "gl_closingTimes g = cs @ [cl]" "length cs = length os"
      "windows g = zip os cs @ [(op, cl)]" .
  show ?thesis
  proof (cases "cl = L")
    case True
    with s gl_extend_zero [OF wf d, of os op cs] show ?thesis by simp
  next
    case False
    have "\<forall>(op', cl') \<in> set (zip os cs). cl' < op" and "op < cl" and "cl < L"
      using wf s(4) False by (auto simp: wf_gate_def sorted_wrt_append)
    then have "\<forall>(op, cl) \<in> set (windows g). cl < L" using s(4) by fastforce
    moreover have "gl_closeOffset g = replicate (Suc (length os)) 0" using wf s(1) by (simp add: wf_gate_def)
    then have "gl_Add L (L + d) 0 0 g = gl_push L (L + d) 0 0 g"
      using s False by (simp add: gl_Add_def nth_append Let_def del: replicate.simps)
    ultimately show ?thesis using gl_push_zero [OF wf d] by simp
  qed
qed

section \<open>Schedules\<close>

text \<open>A schedule is a list of slots, each with a duration and the set of open gates. \<^verbatim>\<open>slot_bit\<close> is
  what it says about a gate at a time of the cycle.\<close>

type_synonym schedule = "(time \<times> bool list) list"

fun slot_bit :: "schedule \<Rightarrow> nat \<Rightarrow> time \<Rightarrow> bool" where
  "slot_bit [] i t = False"
| "slot_bit ((d, m) # es) i t = (if t < d then m ! i else slot_bit es i (t - d))"

definition cycle_length :: "schedule \<Rightarrow> time" where
  "cycle_length es = sum_list (map fst es)"

fun nc_build :: "schedule \<Rightarrow> net_config \<Rightarrow> net_config option" where
  "nc_build [] c = Some c"
| "nc_build ((d, m) # es) c = do { c' \<leftarrow> nc_Add d m 0 0 c; nc_build es c' }"

definition schedule_ok :: "schedule \<Rightarrow> bool" where
  "schedule_ok es \<longleftrightarrow> (\<forall>(d, m) \<in> set es. 0 < d \<and> length m = 8)"

text \<open>A configuration is compiled from the slots \<^term>\<open>es\<close> when every gate is well-formed and opens
  exactly in the slots that say so.\<close>

definition compiled :: "schedule \<Rightarrow> net_config \<Rightarrow> bool" where
  "compiled es c \<longleftrightarrow> nc_length c = cycle_length es \<and> 0 \<le> nc_length c \<and> length (nc_gates c) = 8 \<and>
     (\<forall>i < 8. wf_gate (nc_length c) (nc_gates c ! i) \<and>
        (\<forall>t. gate_open (nc_gates c ! i) t \<longleftrightarrow> 0 \<le> t \<and> t < cycle_length es \<and> slot_bit es i t))"

lemma cycle_length_nonneg: "schedule_ok es \<Longrightarrow> 0 \<le> cycle_length es"
  by (induction es) (auto simp: cycle_length_def schedule_ok_def)

lemma slot_bit_append:
  "schedule_ok es \<Longrightarrow> 0 \<le> t \<Longrightarrow> slot_bit (es @ es') i t =
     (if t < cycle_length es then slot_bit es i t else slot_bit es' i (t - cycle_length es))"
proof (induction es arbitrary: t)
  case (Cons e es)
  have "0 \<le> cycle_length es"
    using Cons.prems by (intro cycle_length_nonneg) (simp add: schedule_ok_def)
  with Cons show ?case
    by (cases e) (auto simp: cycle_length_def schedule_ok_def algebra_simps)
qed (simp add: cycle_length_def)

lemma add_gates_ok:
  assumes "length bs = length gs" and "\<forall>g \<in> set gs. wf_gate L g" and d: "0 < d" "0 \<le> L"
  shows "\<exists>gs'. add_gates L (L + d) 0 0 bs gs = Some gs' \<and> length gs' = length gs \<and>
    (\<forall>i < length gs. wf_gate (L + d) (gs' ! i) \<and>
       (\<forall>t. gate_open (gs' ! i) t \<longleftrightarrow> gate_open (gs ! i) t \<or> (bs ! i \<and> L \<le> t \<and> t < L + d)))"
  using assms(1,2)
proof (induction bs gs rule: list_induct2)
  case (Cons b bs g gs)
  from Cons obtain gs' where gs': "add_gates L (L + d) 0 0 bs gs = Some gs'" "length gs' = length gs"
    "\<forall>i < length gs. wf_gate (L + d) (gs' ! i) \<and>
       (\<forall>t. gate_open (gs' ! i) t \<longleftrightarrow> gate_open (gs ! i) t \<or> (bs ! i \<and> L \<le> t \<and> t < L + d))" by auto
  have "\<exists>g'. (if b then gl_Add L (L + d) 0 0 g else Some g) = Some g' \<and> wf_gate (L + d) g' \<and>
      (\<forall>t. gate_open g' t \<longleftrightarrow> gate_open g t \<or> (b \<and> L \<le> t \<and> t < L + d))"
    using gl_Add_zero [of L g d] wf_gate_mono [of L g "L + d"] Cons.prems d by (cases b) auto
  then obtain g' where g': "(if b then gl_Add L (L + d) 0 0 g else Some g) = Some g'" "wf_gate (L + d) g'"
    "\<forall>t. gate_open g' t \<longleftrightarrow> gate_open g t \<or> (b \<and> L \<le> t \<and> t < L + d)" by blast
  have "add_gates L (L + d) 0 0 (b # bs) (g # gs) = Some (g' # gs')" using gs'(1) g'(1) by simp
  moreover have "\<forall>i < length (g # gs). wf_gate (L + d) ((g' # gs') ! i) \<and>
     (\<forall>t. gate_open ((g' # gs') ! i) t \<longleftrightarrow> gate_open ((g # gs) ! i) t \<or> ((b # bs) ! i \<and> L \<le> t \<and> t < L + d))"
    using gs'(3) g'(2,3) by (auto simp: less_Suc_eq_0_disj)
  ultimately show ?case using gs'(2) by auto
qed simp

lemma nc_Add_compiled:
  assumes c: "compiled es c" and ok: "schedule_ok es" and d: "0 < d" and m: "length m = 8"
  shows "\<exists>c'. nc_Add d m 0 0 c = Some c' \<and> compiled (es @ [(d, m)]) c' \<and>
    nc_configChangeTime c' = nc_configChangeTime c \<and> nc_epoch c' = nc_epoch c"
proof -
  let ?L = "nc_length c"
  have "\<forall>g \<in> set (nc_gates c). wf_gate ?L g" using c by (auto simp: compiled_def in_set_conv_nth)
  with add_gates_ok [of m "nc_gates c" ?L d] c m d obtain gs' where
    gs': "add_gates ?L (?L + d) 0 0 m (nc_gates c) = Some gs'" "length gs' = 8"
      "\<forall>i < 8. wf_gate (?L + d) (gs' ! i) \<and>
         (\<forall>t. gate_open (gs' ! i) t \<longleftrightarrow> gate_open (nc_gates c ! i) t \<or> (m ! i \<and> ?L \<le> t \<and> t < ?L + d))"
    by (auto simp: compiled_def)
  have len: "?L = cycle_length es" "0 \<le> ?L" using c by (auto simp: compiled_def)
  then have cl: "cycle_length (es @ [(d, m)]) = ?L + d" by (simp add: cycle_length_def)
  have "gate_open (gs' ! i) t \<longleftrightarrow> 0 \<le> t \<and> t < ?L + d \<and> slot_bit (es @ [(d, m)]) i t" if "i < 8" for i t
    using gs'(3) that c len d by (auto simp: compiled_def slot_bit_append [OF ok] split: if_splits)
  with gs' cl len d show ?thesis by (auto simp: nc_Add_def compiled_def)
qed

lemma nc_build_compiled:
  "compiled es c \<Longrightarrow> schedule_ok (es @ es') \<Longrightarrow>
     \<exists>c'. nc_build es' c = Some c' \<and> compiled (es @ es') c' \<and>
       nc_configChangeTime c' = nc_configChangeTime c \<and> nc_epoch c' = nc_epoch c"
proof (induction es' arbitrary: es c)
  case (Cons e es')
  obtain d m where e: "e = (d, m)" by (cases e)
  have "schedule_ok es" "0 < d" "length m = 8" using Cons.prems(2) e by (auto simp: schedule_ok_def)
  from nc_Add_compiled [OF Cons.prems(1) this] obtain c1 where
    c1: "nc_Add d m 0 0 c = Some c1" "compiled (es @ [(d, m)]) c1"
      "nc_configChangeTime c1 = nc_configChangeTime c" "nc_epoch c1 = nc_epoch c" by blast
  from Cons.IH [OF c1(2)] Cons.prems(2) e obtain c' where
    "nc_build es' c1 = Some c'" "compiled (es @ e # es') c'"
    "nc_configChangeTime c' = nc_configChangeTime c1" "nc_epoch c' = nc_epoch c1" by auto
  with c1 e show ?case by auto
qed simp

lemma NetDeviceListConfig_compiled: "compiled [] NetDeviceListConfig"
  by (simp add: compiled_def NetDeviceListConfig_def cycle_length_def)

lemma schedule_compiles:
  assumes "schedule_ok es"
  shows "\<exists>c. nc_build es NetDeviceListConfig = Some c \<and> compiled es c"
  using nc_build_compiled [OF NetDeviceListConfig_compiled, of es] assms by auto

section \<open>The decision follows the windows\<close>

lemma first_above_Some:
  "first_above k xs t = Some j \<Longrightarrow> k \<le> j \<and> j < k + length xs \<and> xs ! (j - k) > t \<and> (\<forall>i < j - k. xs ! i \<le> t)"
proof (induction k xs t rule: first_above.induct)
  case (2 k x xs t)
  show ?case
  proof (cases "x > t")
    case False
    with 2 have IH: "Suc k \<le> j" "j < Suc k + length xs" "xs ! (j - Suc k) > t" "\<forall>i < j - Suc k. xs ! i \<le> t" by auto
    have j: "j - k = Suc (j - Suc k)" using IH(1) by simp
    have "(x # xs) ! i \<le> t" if "i < j - k" for i
      using that IH(4) False j by (cases i) auto
    with IH j show ?thesis by auto
  qed (use 2 in auto)
qed simp

lemma first_above_None: "first_above k xs t = None \<Longrightarrow> \<forall>x \<in> set xs. x \<le> t"
  by (induction k xs t rule: first_above.induct) (auto split: if_splits)

lemma wf_gate_nth:
  assumes "wf_gate L g"
  defines "n \<equiv> length (gl_openingTimes g)"
  shows "gate_open g u \<longleftrightarrow> (\<exists>k < n. gl_openingTimes g ! k \<le> u \<and> u < gl_closingTimes g ! k)"
    and "k < n \<Longrightarrow> 0 \<le> gl_openingTimes g ! k \<and> gl_openingTimes g ! k < gl_closingTimes g ! k \<and> gl_closingTimes g ! k \<le> L"
    and "i < j \<Longrightarrow> j < n \<Longrightarrow> gl_closingTimes g ! i < gl_openingTimes g ! j"
    and "k < n \<Longrightarrow> gl_openOffset g ! k = 0"
proof -
  have w: "length (windows g) = n" "k < n \<Longrightarrow> windows g ! k = (gl_openingTimes g ! k, gl_closingTimes g ! k)" for k
    using assms(1) by (auto simp: windows_def wf_gate_def n_def)
  then show "gate_open g u \<longleftrightarrow> (\<exists>k < n. gl_openingTimes g ! k \<le> u \<and> u < gl_closingTimes g ! k)"
    by (force simp: gate_open_def in_set_conv_nth)
  show "k < n \<Longrightarrow> 0 \<le> gl_openingTimes g ! k \<and> gl_openingTimes g ! k < gl_closingTimes g ! k \<and> gl_closingTimes g ! k \<le> L"
    using assms(1) w nth_mem [of k "windows g"] by (auto simp: wf_gate_def)
  show "i < j \<Longrightarrow> j < n \<Longrightarrow> gl_closingTimes g ! i < gl_openingTimes g ! j"
    using assms(1) w by (auto simp: wf_gate_def sorted_wrt_iff_nth_less)
  show "k < n \<Longrightarrow> gl_openOffset g ! k = 0" using assms(1) by (simp add: wf_gate_def n_def)
qed

lemma wf_gate_closed_iff:
  assumes "wf_gate L g" and "\<forall>i < k. gl_closingTimes g ! i \<le> u"
    and "k < length (gl_openingTimes g) \<Longrightarrow> u < gl_openingTimes g ! k"
  shows "\<not> gate_open g u"
proof
  assume "gate_open g u"
  then obtain j where j: "j < length (gl_openingTimes g)" "gl_openingTimes g ! j \<le> u" "u < gl_closingTimes g ! j"
    using wf_gate_nth(1) [OF assms(1)] by blast
  then have "k \<le> j" using assms(2) by (meson leD linorder_le_less_linear)
  then have "gl_openingTimes g ! k \<le> gl_openingTimes g ! j"
  proof (cases "k = j")
    case False
    with \<open>k \<le> j\<close> j(1) wf_gate_nth(2) [OF assms(1), of k] wf_gate_nth(3) [OF assms(1), of k j]
    show ?thesis by linarith
  qed simp
  with assms(3) j \<open>k \<le> j\<close> show False by auto
qed

lemma cyclic_cases:
  fixes u :: int
  assumes "0 \<le> t" "t \<le> u" "u < ne" "t < len" "ne \<le> 2 * len"
  shows "(u < len \<and> u mod len = u) \<or> (len \<le> u \<and> u mod len = u - len)"
proof (cases "u < len")
  case False
  with assms have "(u - len) mod len = u - len" by (intro mod_pos_pos_trivial) auto
  then show ?thesis using False by simp
qed (use assms in simp)

text \<open>The decision is the state the windows prescribe, and it stays right until the next event.\<close>

lemma gate_decision_ok:
  assumes wf: "wf_gate len g" and t: "0 \<le> t" "t < len" and ne: "gl_openingTimes g \<noteq> []"
  shows "\<exists>next. gate_decision len g t = Some (gate_open g t, next) \<and> t < next \<and>
    (\<forall>u. t \<le> u \<and> u < next \<longrightarrow> (gate_open g (u mod len) \<longleftrightarrow> gate_open g t))"
proof -
  let ?os = "gl_openingTimes g" and ?cs = "gl_closingTimes g"
  define n where "n = length ?os"
  have n0: "0 < n" and lc: "length ?cs = n" using wf ne by (auto simp: n_def wf_gate_def)
  note nth = wf_gate_nth [OF wf, folded n_def]
  show ?thesis
  proof (cases "first_above 0 ?cs t")
    case None
    then have all: "\<forall>i < n. ?cs ! i \<le> t" using first_above_None lc by force
    then have "\<not> gate_open g t" using nth(1) by force
    moreover have "gate_decision len g t = Some (False, ?os ! 0 + len)"
      using None lc n0 all nth(2) [OF n0] by (auto simp: gate_decision_def GetNextBiggerEntry_def Let_def)
    moreover have "\<not> gate_open g (u mod len)" if u: "t \<le> u" "u < ?os ! 0 + len" for u
    proof -
      have "?os ! 0 + len \<le> 2 * len" using nth(2) [OF n0] by simp
      from cyclic_cases [OF t(1) u t(2) this] show ?thesis
      proof
        assume "u < len \<and> u mod len = u"
        moreover have "\<forall>i < n. ?cs ! i \<le> u" using all u by force
        ultimately show ?thesis using wf_gate_closed_iff [OF wf, of n u] by (auto simp: n_def)
      next
        assume "len \<le> u \<and> u mod len = u - len"
        with u show ?thesis using wf_gate_closed_iff [OF wf, of 0 "u - len"] by auto
      qed
    qed
    ultimately show ?thesis using t nth(2) [OF n0] by auto
  next
    case (Some k)
    from first_above_Some [OF this] lc have k: "k < n" "t < ?cs ! k" "\<forall>i < k. ?cs ! i \<le> t" by auto
    have idx: "GetNextBiggerEntry ?cs t = int k" using Some lc n0 by (simp add: GetNextBiggerEntry_def)
    show ?thesis
    proof (cases "?os ! k \<le> t")
      case False
      have closed: "\<not> gate_open g u" if "t \<le> u" "u < ?os ! k" for u
        using wf_gate_closed_iff [OF wf, of k u] k(3) that by (force simp: n_def)
      have "gate_decision len g t = Some (False, ?os ! k)"
        using idx False by (simp add: gate_decision_def Let_def)
      moreover have "u mod len = u" if "t \<le> u" "u < ?os ! k" for u
        using that t nth(2) [OF k(1)] by simp
      ultimately show ?thesis using False closed [of t] closed by auto
    next
      case True
      then have op: "gate_open g u" if "t \<le> u" "u < ?cs ! k" for u using that k nth(1) by fastforce
      show ?thesis
      proof (cases "?cs ! k = len \<and> ?os ! 0 - gl_openOffset g ! 0 = 0 \<and> k \<noteq> 0")
        case False
        have "gate_decision len g t = Some (True, ?cs ! k)"
          using idx True k False by (auto simp: gate_decision_def Let_def)
        moreover have "u mod len = u" if "t \<le> u" "u < ?cs ! k" for u
          using that t nth(2) [OF k(1)] by simp
        ultimately show ?thesis using op k(2) by auto
      next
        case wrap: True
        have c0: "?cs ! 0 < t" using nth(3) [of 0 k] wrap k(1) True by auto
        have o0: "?os ! 0 = 0" using wrap nth(4) [OF n0] by simp
        have "gate_decision len g t = Some (True, ?cs ! 0 + len)"
          using idx True k wrap c0 by (simp add: gate_decision_def Let_def)
        moreover have "gate_open g (u mod len)" if u: "t \<le> u" "u < ?cs ! 0 + len" for u
        proof -
          have "?cs ! 0 + len \<le> 2 * len" using nth(2) [OF n0] by simp
          from cyclic_cases [OF t(1) u t(2) this] show ?thesis
            using op [of u] u wrap o0 nth(1) [of "u - len"] n0 by auto
        qed
        ultimately show ?thesis using op [of t] k(2) t nth(2) [OF n0] by auto
      qed
    qed
  qed
qed

section \<open>Copying\<close>

definition of_windows :: "(time \<times> time) list \<Rightarrow> gate_list" where
  "of_windows ws = \<lparr>gl_openingTimes = map fst ws, gl_closingTimes = map snd ws,
     gl_openOffset = replicate (length ws) 0, gl_closeOffset = replicate (length ws) 0\<rparr>"

lemma wf_gate_of_windows: "wf_gate L g \<Longrightarrow> g = of_windows (windows g)"
  by (cases g) (auto simp: wf_gate_def of_windows_def windows_def)

lemma gl_Add_of_windows:
  assumes "op \<le> cl" and "ws = [] \<or> snd (last ws) \<noteq> op"
  shows "gl_Add op cl 0 0 (of_windows ws) = Some (of_windows (ws @ [(op, cl)]))"
proof (cases ws rule: rev_cases)
  case Nil
  with assms show ?thesis by (simp add: gl_Add_def gl_push_def of_windows_def)
next
  case (snoc vs v)
  with assms have "snd v \<noteq> op" by simp
  then have "gl_Add op cl 0 0 (of_windows ws) = gl_push op cl 0 0 (of_windows ws)"
    using snoc by (simp add: gl_Add_def of_windows_def nth_append Let_def del: replicate.simps)
  with assms(1) show ?thesis by (simp add: gl_push_def of_windows_def replicate_append_same)
qed

lemma gl_Copy_loop_of_windows:
  "sorted_wrt (\<lambda>(op, cl) (op', cl'). cl < op') (vs @ ws) \<Longrightarrow> \<forall>(op, cl) \<in> set ws. op < cl \<Longrightarrow>
     gl_Copy_loop (map (\<lambda>(op, cl). (op, cl, 0, 0)) ws) (of_windows vs) = Some (of_windows (vs @ ws))"
proof (induction ws arbitrary: vs)
  case (Cons w ws)
  obtain op cl where w: "w = (op, cl)" by (cases w)
  have "vs = [] \<or> snd (last vs) \<noteq> op"
  proof (cases vs rule: rev_cases)
    case (snoc us v)
    then show ?thesis using Cons.prems(1) w by (cases v) (auto simp: sorted_wrt_append)
  qed simp
  with Cons.prems(2) w have "gl_Add op cl 0 0 (of_windows vs) = Some (of_windows (vs @ [w]))"
    by (simp add: gl_Add_of_windows)
  with Cons.IH [of "vs @ [w]"] Cons.prems w show ?case by simp
qed simp

lemma gl_Copy_wf: "wf_gate L g \<Longrightarrow> gl_Copy g = Some g"
proof -
  assume wf: "wf_gate L g"
  have "zip (gl_openingTimes g) (zip (gl_closingTimes g) (zip (gl_openOffset g) (gl_closeOffset g))) =
      map (\<lambda>(op, cl). (op, cl, 0, 0)) (windows g)"
    using wf by (intro nth_equalityI) (auto simp: wf_gate_def windows_def)
  moreover have "gl_empty = of_windows []" by (simp add: gl_empty_def of_windows_def)
  ultimately have "gl_Copy g = Some (of_windows (windows g))"
    using wf gl_Copy_loop_of_windows [of "[]" "windows g"] by (auto simp: gl_Copy_def wf_gate_def)
  with wf_gate_of_windows [OF wf] show ?thesis by simp
qed

lemma copy_gates_wf: "\<forall>g \<in> set gs. wf_gate L g \<Longrightarrow> copy_gates gs = Some gs"
  by (induction gs) (auto dest: gl_Copy_wf)

lemma nc_Copy_compiled:
  assumes "compiled es c"
  shows "\<exists>c'. nc_Copy dst c = Some c' \<and> compiled es c' \<and> nc_gates c' = nc_gates c \<and>
    nc_pandingStatus c' = nc_pandingStatus c \<and> nc_configChangeTime c' = nc_configChangeTime c \<and> nc_epoch c' = nc_epoch dst"
proof -
  have "\<forall>g \<in> set (nc_gates c). wf_gate (nc_length c) g" using assms by (auto simp: compiled_def in_set_conv_nth)
  from copy_gates_wf [OF this] assms show ?thesis by (auto simp: nc_Copy_def compiled_def)
qed

section \<open>Properties\<close>

definition demo_schedule :: schedule where
  "demo_schedule = [(3, [True, False, False, False, False, False, False, False]),
     (2, [True, True, False, False, False, False, False, True]),
     (5, [False, True, False, False, False, False, False, False])]"

lemma demo_schedule_ok: "schedule_ok demo_schedule"
  by (simp add: schedule_ok_def demo_schedule_def)

text \<open>C16: building a configuration slot by slot with \<^verbatim>\<open>NetDeviceListConfig::Add\<close> gives, for every one
  of the eight gates, opening and closing times that open the gate at exactly the times of the cycle at
  which the schedule says so; windows of consecutive slots are merged, and copying the configuration
  keeps the gates.\<close>

theorem schedule_compiles_correctly:
  assumes "schedule_ok es"
  shows "\<exists>c. nc_build es NetDeviceListConfig = Some c \<and> nc_length c = cycle_length es \<and>
    (\<forall>i < 8. \<forall>t. gate_open (nc_gates c ! i) t \<longleftrightarrow> 0 \<le> t \<and> t < cycle_length es \<and> slot_bit es i t) \<and>
    (\<exists>c'. nc_Copy dst c = Some c' \<and> nc_gates c' = nc_gates c \<and> nc_length c' = nc_length c)"
proof -
  from schedule_compiles [OF assms] obtain c where c: "nc_build es NetDeviceListConfig = Some c" "compiled es c"
    by blast
  from nc_Copy_compiled [OF c(2), of dst] c show ?thesis by (auto simp: compiled_def)
qed

theorem schedule_compiles_correctly_witness:
  "\<exists>c. nc_build demo_schedule NetDeviceListConfig = Some c \<and> nc_length c = 10 \<and>
    gate_open (nc_gates c ! 1) 4 \<and> \<not> gate_open (nc_gates c ! 0) 6"
  using schedule_compiles_correctly [OF demo_schedule_ok]
  by (fastforce simp: demo_schedule_def cycle_length_def)

text \<open>for a gate of a compiled schedule that has any window, the decision of \<^verbatim>\<open>ListExecute\<close> is the
  state the schedule prescribes at the current time of the cycle, the next event lies strictly in the
  future, and until then the prescribed state (cycle after cycle) does not change, so no gate change is
  missed.\<close>

theorem gate_decision_follows_schedule:
  assumes "schedule_ok es" and "nc_build es NetDeviceListConfig = Some c" and "i < 8"
    and "0 \<le> t" and "t < nc_length c" and "gl_openingTimes (nc_gates c ! i) \<noteq> []"
  shows "\<exists>next. gate_decision (nc_length c) (nc_gates c ! i) t = Some (slot_bit es i t, next) \<and> t < next \<and>
    (\<forall>u. t \<le> u \<and> u < next \<longrightarrow> (slot_bit es i (u mod nc_length c) \<longleftrightarrow> slot_bit es i t))"
proof -
  have c: "compiled es c" using schedule_compiles [OF assms(1)] assms(2) by auto
  then have wf: "wf_gate (nc_length c) (nc_gates c ! i)"
    and bit: "gate_open (nc_gates c ! i) u \<longleftrightarrow> slot_bit es i u" if "0 \<le> u" "u < nc_length c" for u
    using assms(3) that by (auto simp: compiled_def)
  have "wf_gate (nc_length c) (nc_gates c ! i)" using c assms(3) by (auto simp: compiled_def)
  from gate_decision_ok [OF this assms(4-6)] obtain "next" where
    d: "gate_decision (nc_length c) (nc_gates c ! i) t = Some (gate_open (nc_gates c ! i) t, next)" "t < next"
      "\<forall>u. t \<le> u \<and> u < next \<longrightarrow> (gate_open (nc_gates c ! i) (u mod nc_length c) \<longleftrightarrow> gate_open (nc_gates c ! i) t)"
    by blast
  have "0 \<le> u mod nc_length c" "u mod nc_length c < nc_length c" for u using assms(4,5) by simp_all
  with d bit assms(4,5) show ?thesis by auto
qed

theorem gate_decision_follows_schedule_witness:
  "\<exists>c next. nc_build demo_schedule NetDeviceListConfig = Some c \<and>
    gate_decision (nc_length c) (nc_gates c ! 1) 4 = Some (True, next) \<and> 4 < next"
proof -
  from schedule_compiles [OF demo_schedule_ok] obtain c where
    c: "nc_build demo_schedule NetDeviceListConfig = Some c" "compiled demo_schedule c" by blast
  then have "nc_length c = 10" by (simp add: compiled_def cycle_length_def demo_schedule_def)
  moreover have "gate_open (nc_gates c ! 1) 4"
    using c(2) by (simp add: compiled_def cycle_length_def demo_schedule_def)
  then have "gl_openingTimes (nc_gates c ! 1) \<noteq> []" by (auto simp: gate_open_def windows_def)
  ultimately show ?thesis
    using gate_decision_follows_schedule [OF demo_schedule_ok c(1), of 1 4] c(1)
    by (auto simp: demo_schedule_def)
qed

text \<open>copying a gate list with guard offsets is not a copy: \<^verbatim>\<open>Copy\<close> feeds the stored times, which
  already include the offsets, through \<^verbatim>\<open>Add\<close> again, so a window from 2 to 7 becomes the empty window at
  4, and copying that once more (as the shaper does when the configuration becomes active) is the fatal
  error of a gate that closes before it opens.\<close>

theorem gl_Copy_applies_offsets_again:
  "\<exists>g g'. gl_Add 0 10 2 3 gl_empty = Some g \<and> windows g = [(2, 7)] \<and>
     gl_Copy g = Some g' \<and> windows g' = [(4, 4)] \<and> gl_Copy g' = None"
  by (simp add: gl_Add_def gl_push_def gl_empty_def gl_Copy_def windows_def)

text \<open>\<^verbatim>\<open>NetDeviceListConfig::Copy\<close> does not copy the epoch: whatever epoch a configuration has, the
  copy keeps the one it had before, so the epoch of a new configuration never reaches the shaper.\<close>

theorem nc_Copy_loses_epoch:
  assumes "nc_Copy dst src = Some c"
  shows "nc_epoch c = nc_epoch dst \<and> nc_length c = nc_length src \<and> nc_configChangeTime c = nc_configChangeTime src"
  using assms by (auto simp: nc_Copy_def split: bind_splits)

theorem nc_Copy_loses_epoch_witness:
  "\<exists>c. nc_Copy NetDeviceListConfig (NetDeviceListConfig\<lparr>nc_epoch := 5\<rparr>) = Some c \<and> nc_epoch c = 0"
proof -
  have "copy_gates (replicate 8 gl_empty) = Some (replicate 8 gl_empty)"
    by (rule copy_gates_wf [of _ 0]) simp
  then obtain c where c: "nc_Copy NetDeviceListConfig (NetDeviceListConfig\<lparr>nc_epoch := 5\<rparr>) = Some c"
    by (simp add: nc_Copy_def NetDeviceListConfig_def)
  from nc_Copy_loses_epoch [OF c] c show ?thesis by (simp add: NetDeviceListConfig_def)
qed

end
