(* ===== verification/Tsn_Gate.thy ===== *)
theory Tsn_Gate
  imports Queue_Disciplines
begin

text \<open>
  The transmission gate of the time-aware shaper (\<^verbatim>\<open>contrib/tsn/model/transmisson-gate-qdisc.cc\<close>): a
  queue disc that releases packets only while its gate is open and only if the transmission ends before
  the next gate event, and drops packets that waited too long. It meets the contract of the queue disc
  base class.
\<close>

section \<open>Model\<close>

record gate_state =
  gs_state :: bool
  gs_interval :: time

definition GateState :: gate_state where
  "GateState = \<lparr>gs_state = True, gs_interval = - 1\<rparr>"

text \<open>\<^verbatim>\<open>gd_txTime\<close> is \<^verbatim>\<open>m_linkBandwidth.CalculateBytesTxTime\<close>, \<^verbatim>\<open>gd_getNow\<close> the optional callback to
  the clock of the device.\<close>

record gate_data =
  gd_txTime :: "u32 \<Rightarrow> time"
  gd_gateState :: gate_state
  gd_getNow :: "(time \<Rightarrow> time) option"
  gd_keepAliveTime :: time

type_synonym gate_disc = "(unit, gate_data) qdisc"

definition PAKET_LIVE_EXCEEDED_DROP :: string where
  "PAKET_LIVE_EXCEEDED_DROP = ''Paket live time exceeded''"

definition Gate_GetDeviceTime :: "time \<Rightarrow> gate_disc \<Rightarrow> time" where
  "Gate_GetDeviceTime now qd = (case gd_getNow (qd_data qd) of Some f \<Rightarrow> f now | None \<Rightarrow> now)"

definition Gate_GetTransmissionDuration :: "queue_item \<Rightarrow> gate_disc \<Rightarrow> time" where
  "Gate_GetTransmissionDuration i qd = gd_txTime (qd_data qd) (it_size i)"

definition Gate_expired :: "time \<Rightarrow> queue_item option \<Rightarrow> gate_disc \<Rightarrow> bool" where
  "Gate_expired now r qd \<longleftrightarrow> gd_keepAliveTime (qd_data qd) > 0 \<and>
     (case r of None \<Rightarrow> False
      | Some i \<Rightarrow> it_tstamp i < Gate_GetDeviceTime now qd - gd_keepAliveTime (qd_data qd))"

partial_function (option) Gate_CheckLiveTimes :: "time \<Rightarrow> gate_disc \<Rightarrow> gate_disc option" where
  "Gate_CheckLiveTimes now qd =
     Option.bind (InternalQueue_Peek 0 qd) (\<lambda>r.
       if Gate_expired now r qd then
         Option.bind (InternalQueue_Dequeue now 0 qd) (\<lambda>(i, qd1).
           case i of None \<Rightarrow> None
           | Some it \<Rightarrow> Gate_CheckLiveTimes now (qd_DropAfterDequeue now it PAKET_LIVE_EXCEEDED_DROP qd1))
       else Some qd)"

declare Gate_CheckLiveTimes.simps [code]

definition qs_equal :: "queue_size \<Rightarrow> queue_size \<Rightarrow> bool option" where
  "qs_equal a b = (if qs_unit a \<noteq> qs_unit b then None else Some (qs_value a = qs_value b))"

definition Gate_DoEnqueue :: "time \<Rightarrow> queue_item \<Rightarrow> gate_disc \<Rightarrow> (bool \<times> gate_disc) option" where
  "Gate_DoEnqueue now item qd = do {
     qd1 \<leftarrow> Gate_CheckLiveTimes now qd;
     full \<leftarrow> qs_equal (q_maxSize (qd_queues qd1 ! 0)) \<lparr>qs_unit = PACKETS, qs_value = q_nPackets (qd_queues qd1 ! 0)\<rparr>;
     if full then Some (False, qd_DropBeforeEnqueue item LIMIT_EXCEEDED_DROP qd1)
     else InternalQueue_Enqueue now 0 item qd1 }"

definition Gate_DoDequeue :: "time \<Rightarrow> gate_disc \<Rightarrow> (queue_item option \<times> gate_disc) option" where
  "Gate_DoDequeue now qd = do {
     qd1 \<leftarrow> Gate_CheckLiveTimes now qd;
     paketref \<leftarrow> InternalQueue_Peek 0 qd1;
     (case paketref of
        None \<Rightarrow> Some (None, qd1)
      | Some p \<Rightarrow>
          let gs = gd_gateState (qd_data qd1) in
          if gs_state gs then
            if gs_interval gs > 0 \<and>
               Gate_GetTransmissionDuration p qd1 > gs_interval gs - Gate_GetDeviceTime now qd1
            then Some (None, qd1)
            else InternalQueue_Dequeue now 0 qd1
          else Some (None, qd1)) }"

definition Gate_DoPeek :: "time \<Rightarrow> gate_disc \<Rightarrow> (queue_item option \<times> gate_disc) option" where
  "Gate_DoPeek now qd = map_option (\<lambda>r. (r, qd)) (InternalQueue_Peek 0 qd)"

definition Gate_SetGateState :: "gate_state \<Rightarrow> gate_disc \<Rightarrow> gate_disc" where
  "Gate_SetGateState s qd = qd\<lparr>qd_data := (qd_data qd)\<lparr>gd_gateState := s\<rparr>\<rparr>"

definition Gate_CheckConfig :: "gate_disc \<Rightarrow> (bool \<times> gate_disc) option" where
  "Gate_CheckConfig qd =
     (if length (qd_classes qd) > 0 then Some (False, qd)
      else if length (qd_queues qd) > 0 then Some (False, qd)
      else do {
        m \<leftarrow> qd_GetMaxSize leaf_ops qd;
        Some (True, AddInternalQueue (QueueBase \<lparr>qs_unit = PACKETS, qs_value = 1\<rparr>) (AddInternalQueue (QueueBase m) qd)) })"

definition Gate_InitializeParams :: "gate_disc \<Rightarrow> gate_disc" where
  "Gate_InitializeParams qd = qd\<lparr>qd_data := (qd_data qd)\<lparr>gd_gateState := GateState\<rparr>\<rparr>"

definition TransmissonGateQdisc :: "(unit, gate_data) qdisc_class" where
  "TransmissonGateQdisc = \<lparr>DoEnqueue = Gate_DoEnqueue, DoDequeue = Gate_DoDequeue, DoPeek = Gate_DoPeek\<rparr>"

section \<open>The gate meets the contract\<close>

definition gate_ok :: "gate_disc \<Rightarrow> bool" where
  "gate_ok qd \<longleftrightarrow> queues_ok qd \<and> qd_queues qd \<noteq> [] \<and> qs_unit (q_maxSize (qd_queues qd ! 0)) = PACKETS"

lemma gate_ok_body: "body qd' = body qd \<Longrightarrow> gate_ok qd' \<longleftrightarrow> gate_ok qd"
  by (simp add: gate_ok_def queues_ok_def body_def)

lemma same_shape_gate: "same_shape qd' qd \<Longrightarrow> queues_ok qd' \<Longrightarrow> gate_ok qd \<Longrightarrow> gate_ok qd'"
  by (cases "qd_queues qd"; cases "qd_queues qd'") (auto simp: same_shape_def gate_ok_def)

lemma gate_Peek: "gate_ok qd \<Longrightarrow>
    InternalQueue_Peek 0 qd = Some (case q_packets (qd_queues qd ! 0) of [] \<Rightarrow> None | i # _ \<Rightarrow> Some i)"
  by (auto simp: InternalQueue_Peek_def gate_ok_def queues_ok_def DropTail_Peek_hd)

lemma DropAfterDequeue_queues [simp]:
  "qd_queues (qd_DropAfterDequeue now i r qd) = qd_queues qd"
  "qd_data (qd_DropAfterDequeue now i r qd) = qd_data qd"
  "queues_held (qd_DropAfterDequeue now i r qd) = queues_held qd"
  "queues_ok (qd_DropAfterDequeue now i r qd) = queues_ok qd"
  "same_shape (qd_DropAfterDequeue now i r qd) qd0 = same_shape qd qd0"
  "same_shape qd0 (qd_DropAfterDequeue now i r qd) = same_shape qd0 qd"
  using body_simps(4) [of now i r qd]
  by (auto simp: body_def queues_held_def queues_ok_def same_shape_def)

lemma same_shape_trans: "same_shape a b \<Longrightarrow> same_shape b c \<Longrightarrow> same_shape a c"
  by (simp add: same_shape_def)

lemma acct_DropAfterDequeue_not_peeked:
  "\<not> qd_peeked qd \<Longrightarrow> acct (qd_DropAfterDequeue now i r qd) =
     (fst (acct qd), (snd (acct qd))
       [3 := (fst (snd (acct qd) ! 3) + 1, snd (snd (acct qd) ! 3) + ucast (it_size i)),
        5 := (fst (snd (acct qd) ! 5) + 1, snd (snd (acct qd) ! 5) + ucast (it_size i))])"
  by (simp add: acct_def qd_DropAfterDequeue_def fire_def Let_def)

lemma acct_DropAfterDequeue:
  assumes "acct qd' = acct qd" and "qd_peeked qd' = qd_peeked qd"
  shows "acct (qd_DropAfterDequeue now i r qd') = acct (qd_DropAfterDequeue now i r qd)"
proof (cases "qd_peeked qd")
  case False
  with assms show ?thesis by (simp add: acct_DropAfterDequeue_not_peeked)
next
  case True
  have "acct (PacketDequeued now i (qd'\<lparr>qd_peeked := False\<rparr>)) = acct (PacketDequeued now i (qd\<lparr>qd_peeked := False\<rparr>))"
    by (rule acct_callback(3)) (simp_all add: assms(1))
  with True assms(2) show ?thesis
    by (simp add: DropAfterDequeue_peeked acct_DropAfterDequeue_not_peeked)
qed

lemma acct_drop_effect:
  "acct qd' = acct qd \<Longrightarrow> qd_peeked qd' = qd_peeked qd \<Longrightarrow>
     acct (drop_effect now d qd') = acct (drop_effect now d qd)"
  by (cases d) (auto simp: drop_effect_def intro!: acct_DropAfterDequeue acct_callback(3))

lemma acct_drop_effects:
  "acct qd' = acct qd \<Longrightarrow> qd_peeked qd' = qd_peeked qd \<Longrightarrow>
     acct (fold (drop_effect now) ds qd') = acct (fold (drop_effect now) ds qd)"
proof (induction ds arbitrary: qd qd')
  case (Cons d ds)
  have "qd_peeked (drop_effect now d q) = qd_peeked q" for q :: "('a, 'b) qdisc"
    by (cases d) (use frameD [of "drop_effect now d q" q] in \<open>simp add: drop_effect_def\<close>)
  moreover have "qd_peeked (drop_effect now d q) = qd_peeked q" for q :: "('c, 'd) qdisc"
    by (cases d) (use frameD [of "drop_effect now d q" q] in \<open>simp add: drop_effect_def\<close>)
  ultimately show ?case using Cons acct_drop_effect [of qd' qd now d] by simp
qed simp

text \<open>\<^verbatim>\<open>CheckLiveTimes\<close> terminates: it drops the expired packets at the head of the queue.\<close>

definition expired_prefix :: "time \<Rightarrow> gate_disc \<Rightarrow> queue_item list" where
  "expired_prefix now qd = takeWhile (\<lambda>i. Gate_expired now (Some i) qd) (q_packets (qd_queues qd ! 0))"

lemma Gate_expired_data: "qd_data qd' = qd_data qd \<Longrightarrow> Gate_expired now r qd' \<longleftrightarrow> Gate_expired now r qd"
  by (simp add: Gate_expired_def Gate_GetDeviceTime_def split: option.splits)

lemma Gate_CheckLiveTimes_ok:
  "gate_ok qd \<Longrightarrow> \<exists>qd'. Gate_CheckLiveTimes now qd = Some qd' \<and> gate_ok qd' \<and> frame qd' = frame qd \<and>
     same_shape qd' qd \<and>
     q_packets (qd_queues qd' ! 0) = dropWhile (\<lambda>i. Gate_expired now (Some i) qd) (q_packets (qd_queues qd ! 0)) \<and>
     mset (queues_held qd) = mset (expired_prefix now qd @ queues_held qd') \<and>
     acct qd' = acct (fold (drop_effect now) (map (\<lambda>i. (i, PAKET_LIVE_EXCEEDED_DROP)) (expired_prefix now qd)) qd)"
proof (induction "q_packets (qd_queues qd ! 0)" arbitrary: qd)
  case Nil
  then show ?case
    by (subst Gate_CheckLiveTimes.simps)
      (simp add: gate_Peek Gate_expired_def expired_prefix_def same_shape_def flip: Nil.hyps)
next
  case (Cons i "is")
  note pk = Cons.hyps(2) [symmetric]
  show ?case
  proof (cases "Gate_expired now (Some i) qd")
    case False
    then show ?thesis using Cons.prems pk
      by (subst Gate_CheckLiveTimes.simps) (simp add: gate_Peek expired_prefix_def same_shape_def)
  next
    case True
    have "queues_ok qd" "0 < length (qd_queues qd)" using Cons.prems by (auto simp: gate_ok_def)
    from InternalQueue_Dequeue_ok [OF this, of now] pk obtain qd1 where
      d: "InternalQueue_Dequeue now 0 qd = Some (Some i, qd1)" "queues_ok qd1" "frame qd1 = frame qd"
        "same_shape qd1 qd" "q_packets (qd_queues qd1 ! 0) = is" "acct qd1 = acct (PacketDequeued now i qd)"
        "mset (queues_held qd) = add_mset i (mset (queues_held qd1))" by auto
    let ?q = "qd_DropAfterDequeue now i PAKET_LIVE_EXCEEDED_DROP qd1"
    have ok: "gate_ok ?q" using same_shape_gate [OF d(4,2) Cons.prems] gate_ok_body [of ?q qd1] by simp
    have data: "qd_data ?q = qd_data qd" using d(4) by (simp add: same_shape_def)
    have pq: "is = q_packets (qd_queues ?q ! 0)" using d(5) by simp
    from Cons.hyps(1) [OF pq ok] obtain qd' where
      e: "Gate_CheckLiveTimes now ?q = Some qd'" "gate_ok qd'" "frame qd' = frame ?q" "same_shape qd' ?q"
        "q_packets (qd_queues qd' ! 0) = dropWhile (\<lambda>i. Gate_expired now (Some i) ?q) is"
        "mset (queues_held ?q) = mset (expired_prefix now ?q @ queues_held qd')"
        "acct qd' = acct (fold (drop_effect now) (map (\<lambda>i. (i, PAKET_LIVE_EXCEEDED_DROP)) (expired_prefix now ?q)) ?q)"
      using pq by auto
    have ex: "Gate_expired now r ?q \<longleftrightarrow> Gate_expired now r qd" for r by (rule Gate_expired_data [OF data])
    have pre: "expired_prefix now qd = i # expired_prefix now ?q"
      using True pk pq by (simp add: expired_prefix_def ex)
    have fr: "frame ?q = frame qd" using d(3) by simp
    have "acct ?q = acct (drop_effect now (i, PAKET_LIVE_EXCEEDED_DROP) qd)"
      using acct_DropAfterDequeue [OF d(6)] frameD [OF d(3)] by (simp add: drop_effect_def)
    moreover have "qd_peeked ?q = qd_peeked (drop_effect now (i, PAKET_LIVE_EXCEEDED_DROP) qd)"
      using frameD [OF fr] frameD [of "drop_effect now (i, PAKET_LIVE_EXCEEDED_DROP) qd" qd] by (simp add: drop_effect_def)
    ultimately have "acct qd' = acct (fold (drop_effect now) (map (\<lambda>i. (i, PAKET_LIVE_EXCEEDED_DROP)) (expired_prefix now qd)) qd)"
      unfolding e(7) pre using acct_drop_effects by simp blast
    moreover have "Gate_CheckLiveTimes now qd = Some qd'"
      using True Cons.prems pk d(1) e(1) by (subst Gate_CheckLiveTimes.simps) (simp add: gate_Peek)
    moreover have "same_shape qd' qd" using e(4) d(4) same_shape_trans by simp blast
    ultimately show ?thesis using e fr d(7) pre True pk ex by (auto simp: same_shape_def)
  qed
qed

lemma Gate_DoEnqueue_law:
  assumes "gate_ok qd" and "counts_fit item (queues_held qd)"
  shows "\<exists>ok ds h r qd'. Gate_DoEnqueue now item qd = Some (ok, qd') \<and> gate_ok qd' \<and> frame qd' = frame qd \<and>
    keys (queues_held qd) = keys (map fst ds @ h) \<and> keys (queues_held qd') = keys (if ok then item # h else h) \<and>
    acct qd' = acct (enqueue_effect ok item r (fold (drop_effect now) ds qd))"
proof -
  let ?ds = "map (\<lambda>i. (i, PAKET_LIVE_EXCEEDED_DROP)) (expired_prefix now qd)"
  from Gate_CheckLiveTimes_ok [OF assms(1), of now] obtain q1 where
    c: "Gate_CheckLiveTimes now qd = Some q1" "gate_ok q1" "frame q1 = frame qd"
      "mset (queues_held qd) = mset (expired_prefix now qd @ queues_held q1)"
      "acct q1 = acct (fold (drop_effect now) ?ds qd)" by blast
  have pk: "qd_peeked q1 = qd_peeked (fold (drop_effect now) ?ds qd)"
    using frameD [OF c(3)] frameD [OF frame_fold_drops [of now ?ds qd]] by simp
  have fit: "counts_fit item (queues_held q1)"
    using assms(2) c(4) by (auto simp: counts_fit_def items_bytes_def sum_mset_sum_list [symmetric] size_mset [symmetric]
        simp del: size_mset)
  have u: "qs_unit (q_maxSize (qd_queues q1 ! 0)) = PACKETS" "queues_ok q1" "0 < length (qd_queues q1)"
    using c(2) by (auto simp: gate_ok_def)
  define full where "full = (qs_value (q_maxSize (qd_queues q1 ! 0)) = q_nPackets (qd_queues q1 ! 0))"
  have hk: "keys (queues_held qd) = keys (map fst ?ds @ queues_held q1)" using c(4) by (simp add: comp_def)
  show ?thesis
  proof (cases full)
    case True
    let ?d = "qd_DropBeforeEnqueue item LIMIT_EXCEEDED_DROP q1"
    have "Gate_DoEnqueue now item qd = Some (False, ?d)"
      using c(1) u True by (simp add: Gate_DoEnqueue_def qs_equal_def full_def)
    moreover have "gate_ok ?d" using c(2) gate_ok_body [of ?d q1] by simp
    moreover have "queues_held ?d = queues_held q1" by (rule queues_held_body) simp
    moreover have "acct ?d = acct (enqueue_effect False item LIMIT_EXCEEDED_DROP (fold (drop_effect now) ?ds qd))"
      using acct_callback(2) [OF c(5)] by (simp add: enqueue_effect_def)
    ultimately show ?thesis using hk c(3)
      by (intro exI [of _ False] exI [of _ ?ds] exI [of _ "queues_held q1"] exI [of _ LIMIT_EXCEEDED_DROP] exI [of _ ?d]) simp
  next
    case False
    let ?room = "queue_room item (qd_queues q1 ! 0)"
    from InternalQueue_Enqueue_ok [OF u(2,3) fit, of now] obtain qd' where
      e: "InternalQueue_Enqueue now 0 item q1 = Some (?room, qd')" "queues_ok qd'" "frame qd' = frame q1" "same_shape qd' q1"
        "if ?room then acct qd' = acct (PacketEnqueued item q1) \<and> mset (queues_held qd') = add_mset item (mset (queues_held q1))
         else acct qd' = acct (qd_DropBeforeEnqueue item INTERNAL_QUEUE_DROP q1) \<and> mset (queues_held qd') = mset (queues_held q1)"
      by blast
    have "Gate_DoEnqueue now item qd = Some (?room, qd')"
      using c(1) u False e(1) by (simp add: Gate_DoEnqueue_def qs_equal_def full_def)
    moreover have "gate_ok qd'" using same_shape_gate [OF e(4,2) c(2)] .
    moreover have "acct qd' = acct (enqueue_effect ?room item INTERNAL_QUEUE_DROP (fold (drop_effect now) ?ds qd))"
      using e(5) acct_callback(1,2) [OF c(5), of item] by (auto simp: enqueue_effect_def split: if_splits)
    moreover have "keys (queues_held qd') = keys (if ?room then item # queues_held q1 else queues_held q1)"
      using e(5) by (auto split: if_splits)
    ultimately show ?thesis using hk c(3) e(3)
      by (intro exI [of _ ?room] exI [of _ ?ds] exI [of _ "queues_held q1"] exI [of _ INTERNAL_QUEUE_DROP] exI [of _ qd']) simp
  qed
qed

text \<open>When a gate releases its first packet: the gate is open, and with a next gate event set the
  transmission ends before it.\<close>

definition gate_releases :: "time \<Rightarrow> queue_item \<Rightarrow> gate_disc \<Rightarrow> bool" where
  "gate_releases now p qd \<longleftrightarrow> gs_state (gd_gateState (qd_data qd)) \<and>
     (gs_interval (gd_gateState (qd_data qd)) > 0 \<longrightarrow>
        Gate_GetDeviceTime now qd + gd_txTime (qd_data qd) (it_size p) \<le> gs_interval (gd_gateState (qd_data qd)))"

lemma Gate_DoDequeue_exact:
  assumes "gate_ok qd"
  shows "\<exists>r qd'. Gate_DoDequeue now qd = Some (r, qd') \<and> gate_ok qd' \<and> frame qd' = frame qd \<and> same_shape qd' qd \<and>
    keys (queues_held qd) = keys (expired_prefix now qd @ opt_list r @ queues_held qd') \<and>
    acct qd' = acct (fold (PacketDequeued now) (opt_list r)
      (fold (drop_effect now) (map (\<lambda>i. (i, PAKET_LIVE_EXCEEDED_DROP)) (expired_prefix now qd)) qd)) \<and>
    r = (case dropWhile (\<lambda>i. Gate_expired now (Some i) qd) (q_packets (qd_queues qd ! 0)) of [] \<Rightarrow> None
      | p # _ \<Rightarrow> if gate_releases now p qd then Some p else None)"
proof -
  let ?ds = "map (\<lambda>i. (i, PAKET_LIVE_EXCEEDED_DROP)) (expired_prefix now qd)"
  define live where "live = dropWhile (\<lambda>i. Gate_expired now (Some i) qd) (q_packets (qd_queues qd ! 0))"
  from Gate_CheckLiveTimes_ok [OF assms(1), of now] obtain q1 where
    c: "Gate_CheckLiveTimes now qd = Some q1" "gate_ok q1" "frame q1 = frame qd" "same_shape q1 qd"
      "q_packets (qd_queues q1 ! 0) = live" "mset (queues_held qd) = mset (expired_prefix now qd @ queues_held q1)"
      "acct q1 = acct (fold (drop_effect now) ?ds qd)" unfolding live_def by blast
  have data: "qd_data q1 = qd_data qd" using c(4) by (simp add: same_shape_def)
  have pk: "qd_peeked q1 = qd_peeked (fold (drop_effect now) ?ds qd)"
    using frameD [OF c(3)] frameD [OF frame_fold_drops [of now ?ds qd]] by simp
  have hk: "keys (queues_held qd) = keys (expired_prefix now qd @ queues_held q1)" using c(6) by simp
  show ?thesis
  proof (cases live)
    case Nil
    then have "Gate_DoDequeue now qd = Some (None, q1)"
      using c(1,5) gate_Peek [OF c(2)] by (simp add: Gate_DoDequeue_def)
    with c hk Nil show ?thesis unfolding live_def [symmetric] by (intro exI [of _ None] exI [of _ q1]) simp
  next
    case (Cons p ps)
    have rel: "gate_releases now p qd \<longleftrightarrow> gs_state (gd_gateState (qd_data q1)) \<and>
        \<not> (gs_interval (gd_gateState (qd_data q1)) > 0 \<and>
           Gate_GetTransmissionDuration p q1 > gs_interval (gd_gateState (qd_data q1)) - Gate_GetDeviceTime now q1)"
      by (auto simp: gate_releases_def Gate_GetTransmissionDuration_def Gate_GetDeviceTime_def data)
    show ?thesis
    proof (cases "gate_releases now p qd")
      case False
      then have "Gate_DoDequeue now qd = Some (None, q1)"
        using c(1,5) gate_Peek [OF c(2)] Cons rel by (auto simp: Gate_DoDequeue_def Let_def)
      with c hk Cons False show ?thesis unfolding live_def [symmetric] by (intro exI [of _ None] exI [of _ q1]) simp
    next
      case True
      have "queues_ok q1" "0 < length (qd_queues q1)" using c(2) by (auto simp: gate_ok_def)
      from InternalQueue_Dequeue_ok [OF this, of now] c(5) Cons obtain qd' where
        d: "InternalQueue_Dequeue now 0 q1 = Some (Some p, qd')" "queues_ok qd'" "frame qd' = frame q1"
          "same_shape qd' q1" "acct qd' = acct (PacketDequeued now p q1)"
          "mset (queues_held q1) = add_mset p (mset (queues_held qd'))" by auto
      have "Gate_DoDequeue now qd = Some (Some p, qd')"
        using c(1,5) gate_Peek [OF c(2)] Cons rel True d(1) by (auto simp: Gate_DoDequeue_def Let_def)
      moreover have "gate_ok qd'" using same_shape_gate [OF d(4,2) c(2)] .
      moreover have "acct qd' = acct (PacketDequeued now p (fold (drop_effect now) ?ds qd))"
        unfolding d(5) by (rule acct_callback(3) [OF c(7) pk])
      ultimately show ?thesis using c hk d Cons True same_shape_trans [OF d(4) c(4)] unfolding live_def [symmetric]
        by (intro exI [of _ "Some p"] exI [of _ qd']) simp
    qed
  qed
qed

lemma Gate_DoDequeue_law:
  assumes "gate_ok qd"
  shows "\<exists>r ds qd'. Gate_DoDequeue now qd = Some (r, qd') \<and> gate_ok qd' \<and> frame qd' = frame qd \<and>
    keys (queues_held qd) = keys (map fst ds @ opt_list r @ queues_held qd') \<and>
    acct qd' = acct (fold (PacketDequeued now) (opt_list r) (fold (drop_effect now) ds qd))"
proof -
  let ?ds = "map (\<lambda>i. (i, PAKET_LIVE_EXCEEDED_DROP)) (expired_prefix now qd)"
  from Gate_DoDequeue_exact [OF assms, of now] obtain r qd' where
    "Gate_DoDequeue now qd = Some (r, qd')" "gate_ok qd'" "frame qd' = frame qd"
    "keys (queues_held qd) = keys (expired_prefix now qd @ opt_list r @ queues_held qd')"
    "acct qd' = acct (fold (PacketDequeued now) (opt_list r) (fold (drop_effect now) ?ds qd))" by blast
  moreover have "map fst ?ds = expired_prefix now qd" by (simp add: comp_def)
  ultimately show ?thesis by (intro exI [of _ r] exI [of _ ?ds] exI [of _ qd']) simp
qed

interpretation gate: queue_disc_class TransmissonGateQdisc gate_ok queues_held
proof (unfold_locales, goal_cases)
  case 1 then show ?case by (rule gate_ok_body)
next
  case 2 then show ?case by (rule queues_held_body)
next
  case (3 qd now u)
  then show ?case
    using SetTimeStamp_queues [of qd now u] same_shape_gate [of "SetTimeStamp now u qd" qd]
    by (simp add: gate_ok_def)
next
  case 4
  then show ?case unfolding TransmissonGateQdisc_def qdisc_class.simps by (rule Gate_DoEnqueue_law)
next
  case 5
  then show ?case unfolding TransmissonGateQdisc_def qdisc_class.simps by (rule Gate_DoDequeue_law)
qed

section \<open>Properties\<close>

text \<open>C17: a transmission gate never releases a packet while it is closed, nor one whose transmission
  would run past the next gate event; the packet it releases is the first one that has not exceeded its
  live time, and it does release that packet when both conditions hold. No assertion of the queue disc
  fails on the way.\<close>

theorem gate_releases_in_window:
  assumes "gate.qd_inv qd" and "qd_requeued qd = None"
  shows "\<exists>r qd'. qd_Dequeue TransmissonGateQdisc now qd = Some (r, qd') \<and> gate.qd_inv qd' \<and>
    (let live = dropWhile (\<lambda>i. Gate_expired now (Some i) qd) (q_packets (qd_queues qd ! 0)) in
      r = (case live of [] \<Rightarrow> None | p # _ \<Rightarrow> if gate_releases now p qd then Some p else None))"
proof -
  from gate.dequeue_ok [OF assms(1), of now] obtain r qd' where
    d: "qd_Dequeue TransmissonGateQdisc now qd = Some (r, qd')" "gate.qd_inv qd'" by blast
  have "gate_ok qd" using assms(1) by (simp add: gate.qd_inv_def)
  moreover have "Gate_DoDequeue now qd = Some (r, qd')"
    using qd_Dequeue_unfold [OF d(1) assms(2)] by (simp add: TransmissonGateQdisc_def)
  ultimately have "let live = dropWhile (\<lambda>i. Gate_expired now (Some i) qd) (q_packets (qd_queues qd ! 0)) in
      r = (case live of [] \<Rightarrow> None | p # _ \<Rightarrow> if gate_releases now p qd then Some p else None)"
    using Gate_DoDequeue_exact [of qd now] by (auto simp: Let_def)
  with d show ?thesis by blast
qed

definition demo_gate :: "gate_state \<Rightarrow> gate_disc" where
  "demo_gate s = (QueueDisc MULTIPLE_QUEUES DEFAULT_QUOTA
       \<lparr>gd_txTime = (\<lambda>n. int (unat n) * 8), gd_gateState = s, gd_getNow = None, gd_keepAliveTime = - 1\<rparr>)
     \<lparr>qd_queues := [QueueBase \<lparr>qs_unit = PACKETS, qs_value = 800\<rparr>, QueueBase \<lparr>qs_unit = PACKETS, qs_value = 1\<rparr>]\<rparr>"

lemma demo_gate_inv: "gate.qd_inv (demo_gate s)" "qd_requeued (demo_gate s) = None" "gate.in_disc (demo_gate s) = []"
proof -
  show r: "qd_requeued (demo_gate s) = None" by (simp add: demo_gate_def QueueDisc_def)
  have "queues_held (demo_gate s) = []" by (simp add: queues_held_def demo_gate_def QueueDisc_def QueueBase_inv)
  with r show i: "gate.in_disc (demo_gate s) = []" by (simp add: gate.in_disc_no_requeue)
  have "gate_ok (demo_gate s)"
    by (simp add: gate_ok_def queues_ok_def demo_gate_def QueueDisc_def QueueBase_inv) (simp add: QueueBase_def)
  with i show "gate.qd_inv (demo_gate s)"
    by (simp add: gate.qd_inv_def books_def books_stats_def Stats_def demo_gate_def QueueDisc_def)
qed

theorem gate_releases_in_window_witness:
  "\<exists>ok qd r qd'. qd_Enqueue TransmissonGateQdisc 5 (demo_item 1 100) (demo_gate \<lparr>gs_state = True, gs_interval = 500\<rparr>) =
      Some (ok, qd) \<and> qd_Dequeue TransmissonGateQdisc 5 qd = Some (r, qd') \<and> gate.qd_inv qd' \<and>
    (\<forall>p. r = Some p \<longrightarrow> gate_releases 5 p qd)"
proof -
  let ?s = "\<lparr>gs_state = True, gs_interval = 500\<rparr>"
  have "counts_fit (demo_item 1 100) []" "\<not> it_headerAdded (demo_item 1 100)"
    by (simp_all add: counts_fit_def demo_item_def)
  with gate.enqueue_ok [OF demo_gate_inv(1) [of ?s], of "demo_item 1 100" 5] obtain ok qd where
    e: "qd_Enqueue TransmissonGateQdisc 5 (demo_item 1 100) (demo_gate ?s) = Some (ok, qd)" "gate.qd_inv qd"
      "frame qd = frame (demo_gate ?s)" by (auto simp: demo_gate_inv)
  with frameD [OF e(3)] have "qd_requeued qd = None" by (simp add: demo_gate_inv)
  from gate_releases_in_window [OF e(2) this, of 5] obtain r qd' where
    r: "qd_Dequeue TransmissonGateQdisc 5 qd = Some (r, qd')" "gate.qd_inv qd'"
      "let live = dropWhile (\<lambda>i. Gate_expired 5 (Some i) qd) (q_packets (qd_queues qd ! 0)) in
        r = (case live of [] \<Rightarrow> None | p # _ \<Rightarrow> if gate_releases 5 p qd then Some p else None)" by blast
  then have "\<forall>p. r = Some p \<longrightarrow> gate_releases 5 p qd" by (auto simp: Let_def split: list.splits if_splits)
  with e(1) r(1,2) show ?thesis by blast
qed

end
