(* ===== verification/Tsn_Shaper.thy ===== *)
theory Tsn_Shaper
  imports Tsn_Schedule Tsn_Gate Priority_Disciplines
begin

text \<open>
  The time-aware shaper (\<^verbatim>\<open>contrib/tsn/model/tas-queue-disc.cc\<close>): a queue disc with up to eight
  transmission gates as children. \<^verbatim>\<open>ListExecute\<close> sets the gates from the cyclic schedule and keeps a
  simulator event pending for the next gate change of each child that holds packets; enqueueing, dequeueing
  and peeking select the children. The pending events the shaper created in the simulator are part of its
  state; times are integers in units of the time resolution.
\<close>

section \<open>State\<close>

datatype tas_callback = CbRun | CbStopAllQueues | CbUpdateNetDeviceListConfig

record tas_entry =
  te_gateState :: gate_state
  te_reRunEvent :: "nat option"
  te_reRunEventTimeStamp :: time
  te_lastExecutIndex :: nat

definition GateListEntry :: tas_entry where
  "GateListEntry = \<lparr>te_gateState = \<lparr>gs_state = True, gs_interval = - 1\<rparr>, te_reRunEvent = None,
     te_reRunEventTimeStamp = - 1, te_lastExecutIndex = 0\<rparr>"

text \<open>An event identifier is the number of the event, or none if it was never assigned; the pending
  events carry the time at which they run. \<^verbatim>\<open>ts_channelBusy\<close> stands for \<^verbatim>\<open>m_channel != 0 \&\& m_channel->IsBusy()\<close>.\<close>

record tas_data =
  ts_gateListConfig :: "tas_entry list"
  ts_prioMap :: "nat list"
  ts_StoppAllQueues :: bool
  ts_txTime :: "u32 \<Rightarrow> time"
  ts_Mtu :: u32
  ts_propagetiondelay :: time
  ts_keepAliveTime :: time
  ts_pandingConfig :: net_config
  ts_currentConfig :: net_config
  ts_stopAllQEvent :: "nat option"
  ts_updateNDLCEvent :: "nat option"
  ts_getNow :: "(time \<Rightarrow> time) option"
  ts_transmitting :: "nat option"
  ts_channelBusy :: "time \<Rightarrow> bool"
  ts_initialized :: bool
  ts_events :: "(nat \<times> time \<times> tas_callback) list"
  ts_nextEventId :: nat

type_synonym 'c tas_disc = "('c, tas_data) qdisc"

record 'c tas_child =
  tc_ops :: "'c qdisc_ops"
  tc_SetGateState :: "gate_state \<Rightarrow> 'c \<Rightarrow> 'c"

definition PAKET_SIZE_EXCEEDED_DROP :: string where
  "PAKET_SIZE_EXCEEDED_DROP = ''Paket size exceeded''"

section \<open>Events\<close>

definition ev_IsRunning :: "nat option \<Rightarrow> tas_data \<Rightarrow> bool" where
  "ev_IsRunning e d = (case e of None \<Rightarrow> False | Some n \<Rightarrow> n \<in> set (map fst (ts_events d)))"

text \<open>\<^verbatim>\<open>Simulator::Schedule\<close> asserts that the delay is not negative.\<close>

definition ev_Schedule :: "time \<Rightarrow> time \<Rightarrow> tas_callback \<Rightarrow> tas_data \<Rightarrow> (nat \<times> tas_data) option" where
  "ev_Schedule now delay cb d =
     (if delay < 0 then None
      else Some (ts_nextEventId d,
        d\<lparr>ts_events := ts_events d @ [(ts_nextEventId d, now + delay, cb)],
          ts_nextEventId := Suc (ts_nextEventId d)\<rparr>))"

definition ev_Cancel :: "nat option \<Rightarrow> tas_data \<Rightarrow> tas_data" where
  "ev_Cancel e d = d\<lparr>ts_events := filter (\<lambda>x. Some (fst x) \<noteq> e) (ts_events d)\<rparr>"

definition tas_DeviceTime :: "time \<Rightarrow> tas_data \<Rightarrow> time" where
  "tas_DeviceTime now d = (case ts_getNow d of Some f \<Rightarrow> f now | None \<Rightarrow> now)"

definition set_entry :: "nat \<Rightarrow> tas_entry \<Rightarrow> tas_data \<Rightarrow> tas_data" where
  "set_entry i e d = d\<lparr>ts_gateListConfig := (ts_gateListConfig d)[i := e]\<rparr>"

definition set_reRun :: "nat \<Rightarrow> nat option \<Rightarrow> tas_data \<Rightarrow> tas_data" where
  "set_reRun i e d = set_entry i ((ts_gateListConfig d ! i)\<lparr>te_reRunEvent := e\<rparr>) d"

abbreviation entry :: "tas_data \<Rightarrow> nat \<Rightarrow> tas_entry" where
  "entry d i \<equiv> ts_gateListConfig d ! i"

abbreviation NextEvent :: "tas_data \<Rightarrow> nat \<Rightarrow> time" where
  "NextEvent d i \<equiv> gs_interval (te_gateState (ts_gateListConfig d ! i))"

abbreviation reRunning :: "tas_data \<Rightarrow> nat \<Rightarrow> bool" where
  "reRunning d i \<equiv> ev_IsRunning (te_reRunEvent (ts_gateListConfig d ! i)) d"

text \<open>The loop of \<^verbatim>\<open>CancelRun\<close>: the other gates that share the event get a common new one.\<close>

fun CancelRun_loop :: "time \<Rightarrow> nat \<Rightarrow> nat list \<Rightarrow> nat option \<Rightarrow> tas_data \<Rightarrow> tas_data option" where
  "CancelRun_loop now queue [] rerunby d = Some d"
| "CancelRun_loop now queue (i # is) rerunby d =
     (if queue \<noteq> i \<and> te_reRunEvent (entry d queue) = te_reRunEvent (entry d i) then
        (case rerunby of
           None \<Rightarrow> do {
             (n, d1) \<leftarrow> ev_Schedule now (NextEvent d i - tas_DeviceTime now d) CbRun d;
             CancelRun_loop now queue is (Some i) (set_reRun i (Some n) d1) }
         | Some j \<Rightarrow> CancelRun_loop now queue is rerunby (set_reRun i (te_reRunEvent (entry d j)) d))
      else CancelRun_loop now queue is rerunby d)"

definition CancelRun :: "time \<Rightarrow> nat \<Rightarrow> tas_data \<Rightarrow> tas_data option" where
  "CancelRun now queue d =
     (if reRunning d queue then do {
        d1 \<leftarrow> CancelRun_loop now queue [0..<8] None d;
        Some (ev_Cancel (te_reRunEvent (entry d1 queue)) d1) }
      else Some d)"

definition find_shared :: "time \<Rightarrow> tas_data \<Rightarrow> nat option" where
  "find_shared timePoint d =
     find (\<lambda>i. reRunning d i \<and> te_reRunEventTimeStamp (entry d i) = timePoint) [0..<8]"

definition ScheduleRun_new :: "time \<Rightarrow> nat \<Rightarrow> tas_data \<Rightarrow> tas_data option" where
  "ScheduleRun_new now queue d = (let timePoint = NextEvent d queue in
     case find_shared timePoint d of
       Some i \<Rightarrow> Some (set_entry queue ((entry d queue)
           \<lparr>te_reRunEvent := te_reRunEvent (entry d i),
            te_reRunEventTimeStamp := te_reRunEventTimeStamp (entry d i)\<rparr>) d)
     | None \<Rightarrow> do {
         (n, d1) \<leftarrow> ev_Schedule now (timePoint - tas_DeviceTime now d) CbRun d;
         Some (set_entry queue ((entry d1 queue)
           \<lparr>te_reRunEvent := Some n, te_reRunEventTimeStamp := timePoint\<rparr>) d1) })"

definition ScheduleRun :: "time \<Rightarrow> nat \<Rightarrow> tas_data \<Rightarrow> tas_data option" where
  "ScheduleRun now queue d = (let timePoint = NextEvent d queue in
     if reRunning d queue \<and> (te_reRunEventTimeStamp (entry d queue) \<noteq> timePoint \<or> timePoint < 0) then do {
       d1 \<leftarrow> CancelRun now queue d;
       if timePoint < 0 then Some d1 else ScheduleRun_new now queue d1 }
     else if reRunning d queue then Some d
     else ScheduleRun_new now queue d)"

section \<open>Gates\<close>

definition tas_upd :: "(tas_data \<Rightarrow> tas_data) \<Rightarrow> 'c tas_disc \<Rightarrow> 'c tas_disc" where
  "tas_upd f qd = qd\<lparr>qd_data := f (qd_data qd)\<rparr>"

definition tas_run :: "(tas_data \<Rightarrow> tas_data option) \<Rightarrow> 'c tas_disc \<Rightarrow> 'c tas_disc option" where
  "tas_run f qd = map_option (\<lambda>d. qd\<lparr>qd_data := d\<rparr>) (f (qd_data qd))"

definition UpdateTransmisionGate ::
  "'c tas_child \<Rightarrow> time \<Rightarrow> nat \<Rightarrow> bool \<Rightarrow> time \<Rightarrow> 'c tas_disc \<Rightarrow> 'c tas_disc option" where
  "UpdateTransmisionGate tc now index gateState nextEvent qd =
     (if length (qd_classes qd) > index then
        let e = entry (qd_data qd) index;
            new = \<lparr>gs_state = gateState, gs_interval = nextEvent\<rparr>;
            qd1 = (if gs_state (te_gateState e) \<noteq> gateState \<or> gs_interval (te_gateState e) \<noteq> nextEvent then
                     (tas_upd (set_entry index (e\<lparr>te_gateState := new\<rparr>)) qd)
                       \<lparr>qd_classes := (qd_classes qd)[index := tc_SetGateState tc new (qd_classes qd ! index)]\<rparr>
                   else qd)
        in if nextEvent > 0 \<and> ch_GetNPackets (tc_ops tc) (qd_classes qd1 ! index) > 0
           then tas_run (ScheduleRun now index) qd1
           else if reRunning (qd_data qd1) index then tas_run (CancelRun now index) qd1
           else Some qd1
      else Some qd)"

text \<open>\<^verbatim>\<open>GetFemtoSeconds\<close> and \<^verbatim>\<open>FemtoSeconds\<close> at the default resolution of one nanosecond.\<close>

definition GetFemtoSeconds :: "time \<Rightarrow> int" where "GetFemtoSeconds t = t * 1000000"

definition FemtoSeconds :: "int \<Rightarrow> time" where "FemtoSeconds x = x div 1000000"

fun ListExecute_loop ::
  "'c tas_child \<Rightarrow> time \<Rightarrow> time \<Rightarrow> time \<Rightarrow> nat list \<Rightarrow> 'c tas_disc \<Rightarrow> 'c tas_disc option" where
  "ListExecute_loop tc now deviceTime relativeNow [] qd = Some qd"
| "ListExecute_loop tc now deviceTime relativeNow (i # is) qd =
     (let c = ts_currentConfig (qd_data qd) in do {
        qd1 \<leftarrow> (case gate_decision (nc_length c) (nc_gates c ! i) relativeNow of
            None \<Rightarrow> UpdateTransmisionGate tc now i False 0 qd
          | Some (newgateState, nextEvent) \<Rightarrow>
              UpdateTransmisionGate tc now i newgateState (deviceTime - relativeNow + nextEvent) qd);
        ListExecute_loop tc now deviceTime relativeNow is qd1 })"

definition ListExecute :: "'c tas_child \<Rightarrow> time \<Rightarrow> 'c tas_disc \<Rightarrow> 'c tas_disc option" where
  "ListExecute tc now qd = (let d = qd_data qd; deviceTime = tas_DeviceTime now d in
     if ts_StoppAllQueues d then Some qd
     else let c = ts_currentConfig d;
              relativeDeviceTime = deviceTime - nc_configChangeTime c - nc_epoch c;
              lengthInFemto = GetFemtoSeconds (nc_length c)
          in if relativeDeviceTime < 0 then Some qd
             else if lengthInFemto = 0 then Some qd
             else ListExecute_loop tc now deviceTime
               (FemtoSeconds (GetFemtoSeconds relativeDeviceTime mod lengthInFemto)) [0..<8] qd)"

section \<open>Queue disc operations\<close>

definition tas_class :: "queue_item \<Rightarrow> 'c tas_disc \<Rightarrow> nat" where
  "tas_class item qd = (case it_priority item of
     Some p \<Rightarrow> unat (p AND 0x7)
   | None \<Rightarrow> let c = qd_Classify item qd in if c = PF_NO_MATCH then 0 else nat (c mod 8))"

text \<open>The priority tag is replaced: removing it reads the old priority back into the tag object, so a
  packet that already carries one keeps it.\<close>

definition tas_retag :: "nat \<Rightarrow> queue_item \<Rightarrow> queue_item" where
  "tas_retag childclass item = (case it_priority item of
     Some p \<Rightarrow> item | None \<Rightarrow> item\<lparr>it_priority := Some (of_nat childclass)\<rparr>)"

definition Tas_DoEnqueue :: "'c tas_child \<Rightarrow> time \<Rightarrow> queue_item \<Rightarrow> 'c tas_disc \<Rightarrow> (bool \<times> 'c tas_disc) option" where
  "Tas_DoEnqueue tc now item qd =
     (if it_size item > ts_Mtu (qd_data qd)
      then Some (False, qd_DropBeforeEnqueue item PAKET_SIZE_EXCEEDED_DROP qd)
      else let childclass = tas_class item qd; k = ts_prioMap (qd_data qd) ! childclass in do {
        (retval, qd1) \<leftarrow> Child_Enqueue (tc_ops tc) now k (tas_retag childclass item) qd;
        qd2 \<leftarrow> (if retval \<and> \<not> gs_state (te_gateState (entry (qd_data qd1) k)) \<and> \<not> reRunning (qd_data qd1) k
               then ListExecute tc now qd1 else Some qd1);
        Some (retval, qd2) })"

definition SetTransmitting :: "time \<Rightarrow> queue_item \<Rightarrow> 'c tas_disc \<Rightarrow> 'c tas_disc option" where
  "SetTransmitting now item qd = (let d = qd_data qd;
     sleepTime = ts_txTime d (it_size item) + (if ts_propagetiondelay d > 0 then ts_propagetiondelay d else 0)
     in do { (n, d1) \<leftarrow> ev_Schedule now sleepTime CbRun d;
             Some (qd\<lparr>qd_data := d1\<lparr>ts_transmitting := Some n\<rparr>\<rparr>) })"

fun Tas_dequeue_loop :: "'c tas_child \<Rightarrow> time \<Rightarrow> nat \<Rightarrow> 'c tas_disc \<Rightarrow> (queue_item option \<times> 'c tas_disc) option" where
  "Tas_dequeue_loop tc now 0 qd = Some (None, qd)"
| "Tas_dequeue_loop tc now (Suc prio) qd = do {
     qd1 \<leftarrow> (if NextEvent (qd_data qd) prio \<ge> 0 \<and>
               \<not> (NextEvent (qd_data qd) prio > tas_DeviceTime now (qd_data qd))
            then ListExecute tc now qd else Some qd);
     (r, qd2) \<leftarrow> Child_Dequeue (tc_ops tc) now prio qd1;
     (case r of
        Some item \<Rightarrow> do { qd3 \<leftarrow> SetTransmitting now item qd2; Some (Some item, qd3) }
      | None \<Rightarrow> Tas_dequeue_loop tc now prio qd2) }"

definition Tas_DoDequeue :: "'c tas_child \<Rightarrow> time \<Rightarrow> 'c tas_disc \<Rightarrow> (queue_item option \<times> 'c tas_disc) option" where
  "Tas_DoDequeue tc now qd =
     (if \<not> ev_IsRunning (ts_transmitting (qd_data qd)) (qd_data qd) then
        if ts_channelBusy (qd_data qd) now then do {
          (n, d1) \<leftarrow> ev_Schedule now (ts_txTime (qd_data qd) (ts_Mtu (qd_data qd) div 2)) CbRun (qd_data qd);
          Some (None, qd\<lparr>qd_data := d1\<lparr>ts_transmitting := Some n\<rparr>\<rparr>) }
        else Tas_dequeue_loop tc now (length (qd_classes qd)) qd
      else Some (None, qd))"

text \<open>\<^verbatim>\<open>DoPeek\<close> compares the next event the other way round than \<^verbatim>\<open>DoDequeue\<close> does.\<close>

fun Tas_peek_loop :: "'c tas_child \<Rightarrow> time \<Rightarrow> nat \<Rightarrow> 'c tas_disc \<Rightarrow> (queue_item option \<times> 'c tas_disc) option" where
  "Tas_peek_loop tc now 0 qd = Some (None, qd)"
| "Tas_peek_loop tc now (Suc prio) qd = do {
     qd1 \<leftarrow> (if NextEvent (qd_data qd) prio \<ge> 0 \<and>
               \<not> (NextEvent (qd_data qd) prio < tas_DeviceTime now (qd_data qd))
            then ListExecute tc now qd else Some qd);
     if gs_state (te_gateState (entry (qd_data qd1) prio)) then do {
       (r, qd2) \<leftarrow> Child_Peek (tc_ops tc) now prio qd1;
       (case r of Some item \<Rightarrow> Some (Some item, qd2) | None \<Rightarrow> Tas_peek_loop tc now prio qd2) }
     else Tas_peek_loop tc now prio qd1 }"

definition Tas_DoPeek :: "'c tas_child \<Rightarrow> time \<Rightarrow> 'c tas_disc \<Rightarrow> (queue_item option \<times> 'c tas_disc) option" where
  "Tas_DoPeek tc now qd = Tas_peek_loop tc now (length (qd_classes qd)) qd"

definition TasQueueDisc :: "'c tas_child \<Rightarrow> ('c, tas_data) qdisc_class" where
  "TasQueueDisc tc = \<lparr>DoEnqueue = Tas_DoEnqueue tc, DoDequeue = Tas_DoDequeue tc, DoPeek = Tas_DoPeek tc\<rparr>"

section \<open>Configuration\<close>

fun StopAllQueues_loop :: "'c tas_child \<Rightarrow> time \<Rightarrow> nat list \<Rightarrow> 'c tas_disc \<Rightarrow> 'c tas_disc option" where
  "StopAllQueues_loop tc now [] qd = Some qd"
| "StopAllQueues_loop tc now (i # is) qd = do {
     qd1 \<leftarrow> UpdateTransmisionGate tc now i False 0 qd;
     let qd2 = tas_upd (\<lambda>d. ev_Cancel (te_reRunEvent (entry d i)) d) qd1;
     let qd3 = tas_upd (\<lambda>d. set_entry i ((entry d i)\<lparr>te_reRunEventTimeStamp := - 1\<rparr>) d) qd2;
     StopAllQueues_loop tc now is qd3 }"

definition StopAllQueues :: "'c tas_child \<Rightarrow> time \<Rightarrow> 'c tas_disc \<Rightarrow> 'c tas_disc option" where
  "StopAllQueues tc now qd =
     (if ts_initialized (qd_data qd) then
        map_option (tas_upd (\<lambda>d. d\<lparr>ts_StoppAllQueues := True\<rparr>)) (StopAllQueues_loop tc now [0..<8] qd)
      else Some qd)"

text \<open>The flag says that \<^verbatim>\<open>Run\<close> is called at the end.\<close>

definition UpdateNetDeviceListConfig :: "'c tas_child \<Rightarrow> time \<Rightarrow> 'c tas_disc \<Rightarrow> (bool \<times> 'c tas_disc) option" where
  "UpdateNetDeviceListConfig tc now qd = do {
     c \<leftarrow> nc_Copy (ts_currentConfig (qd_data qd)) (ts_pandingConfig (qd_data qd));
     let qd1 = tas_upd (\<lambda>d. d\<lparr>ts_currentConfig := c\<lparr>nc_pandingStatus := ACTIVE\<rparr>,
       ts_pandingConfig := (nc_Clear (ts_pandingConfig d))\<lparr>nc_pandingStatus := ACTIVE\<rparr>,
       ts_StoppAllQueues := False\<rparr>) qd;
     if ts_initialized (qd_data qd1) then do { qd2 \<leftarrow> ListExecute tc now qd1; Some (True, qd2) }
     else Some (False, qd1) }"

definition SetNetDeviceListConfig :: "'c tas_child \<Rightarrow> time \<Rightarrow> net_config \<Rightarrow> 'c tas_disc \<Rightarrow> (bool \<times> 'c tas_disc) option" where
  "SetNetDeviceListConfig tc now pandingConfig qd = do {
     p \<leftarrow> nc_Copy (ts_pandingConfig (qd_data qd)) pandingConfig;
     let qd1 = tas_upd (\<lambda>d. ev_Cancel (ts_updateNDLCEvent d) (ev_Cancel (ts_stopAllQEvent d)
       (d\<lparr>ts_pandingConfig := p\<lparr>nc_pandingStatus := PANDING\<rparr>\<rparr>))) qd;
     let d = qd_data qd1;
     let transmissionTime = ts_txTime d (ts_Mtu d);
     let delta = nc_configChangeTime (ts_pandingConfig d) - tas_DeviceTime now d - transmissionTime;
     if delta \<le> 0 then do {
       qd2 \<leftarrow> StopAllQueues tc now qd1;
       if nc_pandingStatus (ts_currentConfig (qd_data qd2)) = PANDING \<or> nc_length (ts_currentConfig (qd_data qd2)) = 0
       then UpdateNetDeviceListConfig tc now qd2
       else do {
         (n, d2) \<leftarrow> ev_Schedule now transmissionTime CbUpdateNetDeviceListConfig (qd_data qd2);
         Some (False, qd2\<lparr>qd_data := d2\<lparr>ts_updateNDLCEvent := Some n\<rparr>\<rparr>) } }
     else do {
       (n, d2) \<leftarrow> ev_Schedule now delta CbStopAllQueues d;
       (m, d3) \<leftarrow> ev_Schedule now (delta + transmissionTime) CbUpdateNetDeviceListConfig (d2\<lparr>ts_stopAllQEvent := Some n\<rparr>);
       Some (False, qd1\<lparr>qd_data := d3\<lparr>ts_updateNDLCEvent := Some m\<rparr>\<rparr>) } }"

fun ResetGateStateList_loop :: "'c tas_child \<Rightarrow> time \<Rightarrow> nat \<Rightarrow> 'c tas_disc \<Rightarrow> 'c tas_disc option" where
  "ResetGateStateList_loop tc now 0 qd = Some qd"
| "ResetGateStateList_loop tc now (Suc i) qd = do {
     let qd1 = tas_upd (\<lambda>d. set_entry i GateListEntry (ev_Cancel (te_reRunEvent (entry d i)) d)) qd;
     qd2 \<leftarrow> UpdateTransmisionGate tc now i (gs_state (te_gateState GateListEntry)) (gs_interval (te_gateState GateListEntry)) qd1;
     ResetGateStateList_loop tc now i (tas_upd (\<lambda>d. d\<lparr>ts_StoppAllQueues := False\<rparr>) qd2) }"

definition ResetGateStateList :: "'c tas_child \<Rightarrow> time \<Rightarrow> 'c tas_disc \<Rightarrow> 'c tas_disc option" where
  "ResetGateStateList tc now qd = ResetGateStateList_loop tc now (length (qd_classes qd)) qd"

definition tas_prioMap :: "nat \<Rightarrow> nat list \<Rightarrow> nat list" where
  "tas_prioMap n old =
     (if n = 1 then [0,0,0,0,0,0,0,0] else if n = 2 then [0,0,0,0,1,1,1,1]
      else if n = 3 then [0,0,0,0,1,1,2,2] else if n = 4 then [0,0,1,1,2,2,3,3]
      else if n = 5 then [0,0,1,1,2,2,3,4] else if n = 6 then [1,0,2,2,3,3,4,5]
      else if n = 7 then [1,0,2,3,4,4,5,6] else if n = 8 then [0,1,2,3,4,5,6,7] else old)"

definition Tas_InitializeParams :: "'c tas_child \<Rightarrow> time \<Rightarrow> 'c tas_disc \<Rightarrow> 'c tas_disc option" where
  "Tas_InitializeParams tc now qd = do {
     qd1 \<leftarrow> ListExecute tc now qd;
     Some (tas_upd (\<lambda>d. d\<lparr>ts_prioMap := tas_prioMap (length (qd_classes qd1)) (ts_prioMap d),
       ts_StoppAllQueues := False\<rparr>) qd1) }"

section \<open>The shaper with its gates\<close>

text \<open>The children are transmission gates. \<^verbatim>\<open>CheckConfig\<close> creates and initialises eight of them when the
  shaper has none; initialising a gate checks its configuration and then opens it.\<close>

definition gate_child :: "gate_disc tas_child" where
  "gate_child = \<lparr>tc_ops = qdisc_ops_of leaf_ops TransmissonGateQdisc, tc_SetGateState = Gate_SetGateState\<rparr>"

definition new_TransmissonGateQdisc :: "(u32 \<Rightarrow> time) \<Rightarrow> gate_state \<Rightarrow> (time \<Rightarrow> time) option \<Rightarrow> time \<Rightarrow> gate_disc" where
  "new_TransmissonGateQdisc txTime s getNow keepAliveTime = (QueueDisc MULTIPLE_QUEUES DEFAULT_QUOTA
     \<lparr>gd_txTime = txTime, gd_gateState = s, gd_getNow = getNow, gd_keepAliveTime = keepAliveTime\<rparr>)
     \<lparr>qd_maxSize := \<lparr>qs_unit = PACKETS, qs_value = 800\<rparr>\<rparr>"

definition Gate_DoInitialize :: "gate_disc \<Rightarrow> gate_disc option" where
  "Gate_DoInitialize qd = do {
     (ok, qd1) \<leftarrow> Gate_CheckConfig qd;
     if ok then Some (Gate_InitializeParams qd1) else None }"

fun Tas_add_gates :: "nat list \<Rightarrow> gate_disc tas_disc \<Rightarrow> gate_disc tas_disc option" where
  "Tas_add_gates [] qd = Some qd"
| "Tas_add_gates (i # is) qd = (let d = qd_data qd in do {
     g \<leftarrow> Gate_DoInitialize (new_TransmissonGateQdisc (ts_txTime d) (te_gateState (entry d i)) (ts_getNow d) (ts_keepAliveTime d));
     Tas_add_gates is (AddQueueDiscClass g qd) })"

definition Tas_CheckConfig :: "gate_disc tas_disc \<Rightarrow> (bool \<times> gate_disc tas_disc) option" where
  "Tas_CheckConfig qd =
     (if length (qd_classes qd) = 0 then do {
        qd1 \<leftarrow> Tas_add_gates [0..<8] qd;
        Some (\<not> length (qd_queues qd1) > 0, qd1) }
      else if length (qd_classes qd) > 8 then Some (False, qd)
      else Some (\<not> length (qd_queues qd) > 0, qd))"

definition SetDatarate :: "(u32 \<Rightarrow> time) \<Rightarrow> gate_disc tas_disc \<Rightarrow> gate_disc tas_disc" where
  "SetDatarate newDataRate qd = (tas_upd (\<lambda>d. d\<lparr>ts_txTime := newDataRate\<rparr>) qd)
     \<lparr>qd_classes := map (\<lambda>g. g\<lparr>qd_data := (qd_data g)\<lparr>gd_txTime := newDataRate\<rparr>\<rparr>) (qd_classes qd)\<rparr>"

definition SetTimeSource :: "(time \<Rightarrow> time) option \<Rightarrow> gate_disc tas_disc \<Rightarrow> gate_disc tas_disc" where
  "SetTimeSource newCallback qd = (tas_upd (\<lambda>d. d\<lparr>ts_getNow := newCallback\<rparr>) qd)
     \<lparr>qd_classes := map (\<lambda>g. g\<lparr>qd_data := (qd_data g)\<lparr>gd_getNow := newCallback\<rparr>\<rparr>) (qd_classes qd)\<rparr>"

text \<open>\<^verbatim>\<open>QueueDisc::DoInitialize\<close> of a shaper without children.\<close>

definition Tas_DoInitialize :: "time \<Rightarrow> gate_disc tas_disc \<Rightarrow> gate_disc tas_disc option" where
  "Tas_DoInitialize now qd = do {
     (ok, qd1) \<leftarrow> Tas_CheckConfig qd;
     if ok then map_option (tas_upd (\<lambda>d. d\<lparr>ts_initialized := True\<rparr>)) (Tas_InitializeParams gate_child now qd1)
     else None }"

end
