(* ===== verification/Tsn_Gate_Control.thy ===== *)
theory Tsn_Gate_Control
  imports Tsn_Shaper
begin

text \<open>
  Correctness of the gate control of the time-aware shaper: the timers of the gates (\<^verbatim>\<open>ScheduleRun\<close> and
  \<^verbatim>\<open>CancelRun\<close> keep one pending event per time point, shared by the gates that wait for it) and
  \<^verbatim>\<open>ListExecute\<close>, which puts every gate into the state the schedule prescribes.
\<close>

section \<open>Timers\<close>

text \<open>The invariant of the timers: pending events have distinct numbers, numbers are not reused, no
  event lies in the past, and a gate with a pending event waits for it at the recorded time.\<close>

definition events_ok :: "time \<Rightarrow> tas_data \<Rightarrow> bool" where
  "events_ok now d \<longleftrightarrow> length (ts_gateListConfig d) = 8 \<and> distinct (map fst (ts_events d)) \<and>
     (\<forall>(n, t, cb) \<in> set (ts_events d). n < ts_nextEventId d \<and> now \<le> t)"

definition waits :: "tas_data \<Rightarrow> nat \<Rightarrow> bool" where
  "waits d i \<longleftrightarrow> (\<forall>n. te_reRunEvent (entry d i) = Some n \<longrightarrow> n < ts_nextEventId d \<and>
     (n \<in> fst ` set (ts_events d) \<longrightarrow> (n, te_reRunEventTimeStamp (entry d i), CbRun) \<in> set (ts_events d)))"

definition timer_ok :: "time \<Rightarrow> tas_data \<Rightarrow> bool" where
  "timer_ok now d \<longleftrightarrow> events_ok now d \<and> (\<forall>i < 8. waits d i)"

definition synced :: "tas_data \<Rightarrow> nat \<Rightarrow> bool" where
  "synced d i \<longleftrightarrow> (reRunning d i \<longrightarrow> NextEvent d i = te_reRunEventTimeStamp (entry d i))"

text \<open>What the timers do not touch.\<close>

definition static :: "tas_data \<Rightarrow> tas_data" where
  "static d = d\<lparr>ts_gateListConfig := map (\<lambda>e. e\<lparr>te_reRunEvent := None, te_reRunEventTimeStamp := 0\<rparr>) (ts_gateListConfig d),
     ts_events := [], ts_nextEventId := 0\<rparr>"

lemma staticD:
  assumes "static d' = static d"
  shows "length (ts_gateListConfig d') = length (ts_gateListConfig d)"
    "i < length (ts_gateListConfig d) \<Longrightarrow> te_gateState (entry d' i) = te_gateState (entry d i)"
    "ts_currentConfig d' = ts_currentConfig d" "ts_getNow d' = ts_getNow d" "ts_StoppAllQueues d' = ts_StoppAllQueues d"
proof -
  have g: "map (\<lambda>e. e\<lparr>te_reRunEvent := None, te_reRunEventTimeStamp := 0\<rparr>) (ts_gateListConfig d') =
      map (\<lambda>e. e\<lparr>te_reRunEvent := None, te_reRunEventTimeStamp := 0\<rparr>) (ts_gateListConfig d)"
    using arg_cong [OF assms, of ts_gateListConfig] by (simp add: static_def)
  then show l: "length (ts_gateListConfig d') = length (ts_gateListConfig d)" by (rule map_eq_imp_length_eq)
  show "te_gateState (entry d' i) = te_gateState (entry d i)" if "i < length (ts_gateListConfig d)"
    using arg_cong [OF g, of "\<lambda>xs. te_gateState (xs ! i)"] l that by simp
  show "ts_currentConfig d' = ts_currentConfig d" "ts_getNow d' = ts_getNow d" "ts_StoppAllQueues d' = ts_StoppAllQueues d"
    using arg_cong [OF assms, of ts_currentConfig] arg_cong [OF assms, of ts_getNow]
      arg_cong [OF assms, of ts_StoppAllQueues] by (simp_all add: static_def)
qed

text \<open>What neither timers nor gates touch.\<close>

definition settings :: "tas_data \<Rightarrow> tas_data" where
  "settings d = d\<lparr>ts_gateListConfig := [], ts_events := [], ts_nextEventId := 0\<rparr>"

lemma settings_static: "static d' = static d \<Longrightarrow> settings d' = settings d"
proof -
  have "settings e = (static e)\<lparr>ts_gateListConfig := []\<rparr>" for e by (simp add: settings_def static_def)
  then show "static d' = static d \<Longrightarrow> settings d' = settings d" by simp
qed

lemma settingsD:
  assumes "settings d' = settings d"
  shows "ts_currentConfig d' = ts_currentConfig d" "ts_StoppAllQueues d' = ts_StoppAllQueues d"
    "ts_txTime d' = ts_txTime d" "ts_getNow d' = ts_getNow d" "ts_Mtu d' = ts_Mtu d" "ts_prioMap d' = ts_prioMap d"
    "ts_transmitting d' = ts_transmitting d" "ts_channelBusy d' = ts_channelBusy d" "ts_propagetiondelay d' = ts_propagetiondelay d"
  using arg_cong [OF assms, of ts_currentConfig] arg_cong [OF assms, of ts_StoppAllQueues] arg_cong [OF assms, of ts_txTime]
    arg_cong [OF assms, of ts_getNow] arg_cong [OF assms, of ts_Mtu] arg_cong [OF assms, of ts_prioMap]
    arg_cong [OF assms, of ts_transmitting] arg_cong [OF assms, of ts_channelBusy] arg_cong [OF assms, of ts_propagetiondelay]
  by (simp_all add: settings_def)

lemma ev_IsRunning_iff: "ev_IsRunning e d \<longleftrightarrow> (\<exists>n. e = Some n \<and> n \<in> fst ` set (ts_events d))"
  by (auto simp: ev_IsRunning_def split: option.splits)

lemma timer_pending:
  assumes "timer_ok now d" and "i < 8" and "te_reRunEvent (entry d i) = Some n" and "n \<in> fst ` set (ts_events d)"
  shows "(n, te_reRunEventTimeStamp (entry d i), CbRun) \<in> set (ts_events d)" "now \<le> te_reRunEventTimeStamp (entry d i)"
proof -
  show p: "(n, te_reRunEventTimeStamp (entry d i), CbRun) \<in> set (ts_events d)"
    using assms by (simp add: timer_ok_def waits_def)
  show "now \<le> te_reRunEventTimeStamp (entry d i)"
    using assms(1) p by (auto simp: timer_ok_def events_ok_def)
qed

lemma timer_unique:
  "timer_ok now d \<Longrightarrow> (n, t, c) \<in> set (ts_events d) \<Longrightarrow> (n, t', c') \<in> set (ts_events d) \<Longrightarrow> t' = t"
  unfolding timer_ok_def events_ok_def using eq_key_imp_eq_value [of "ts_events d" n "(t, c)" "(t', c')"] by blast

lemma timer_length: "timer_ok now d \<Longrightarrow> length (ts_gateListConfig d) = 8"
  by (simp add: timer_ok_def events_ok_def)

lemma ev_Schedule_ok:
  assumes "timer_ok now d" and "0 \<le> delay" and "ev_Schedule now delay cb d = Some (n, d')"
  shows "timer_ok now d'" "set (ts_events d') = insert (n, now + delay, cb) (set (ts_events d))"
    "n = ts_nextEventId d" "n \<notin> fst ` set (ts_events d)" "ts_nextEventId d' = Suc n"
    "ts_gateListConfig d' = ts_gateListConfig d" "static d' = static d"
proof -
  have d': "n = ts_nextEventId d" "d' = d\<lparr>ts_events := ts_events d @ [(ts_nextEventId d, now + delay, cb)],
      ts_nextEventId := Suc (ts_nextEventId d)\<rparr>"
    using assms(2,3) by (auto simp: ev_Schedule_def)
  have fresh: "ts_nextEventId d \<notin> fst ` set (ts_events d)"
    using assms(1) by (force simp: timer_ok_def events_ok_def)
  with assms(1,2) have "events_ok now d'"
    by (auto simp: timer_ok_def events_ok_def d' less_Suc_eq)
  moreover have "waits d' i" if "waits d i" for i
    using that by (auto simp: waits_def d' less_Suc_eq)
  ultimately show "timer_ok now d'" using assms(1) by (simp add: timer_ok_def)
  show "set (ts_events d') = insert (n, now + delay, cb) (set (ts_events d))"
    "n = ts_nextEventId d" "n \<notin> fst ` set (ts_events d)" "ts_nextEventId d' = Suc n"
    "ts_gateListConfig d' = ts_gateListConfig d" "static d' = static d"
    using fresh by (auto simp: d' static_def)
qed

lemma ev_Cancel_ok:
  assumes "timer_ok now d"
  shows "timer_ok now (ev_Cancel (Some n) d)" "set (ts_events (ev_Cancel (Some n) d)) = {x \<in> set (ts_events d). fst x \<noteq> n}"
    "ts_gateListConfig (ev_Cancel (Some n) d) = ts_gateListConfig d"
    "ts_nextEventId (ev_Cancel (Some n) d) = ts_nextEventId d" "static (ev_Cancel (Some n) d) = static d"
proof -
  show ev: "set (ts_events (ev_Cancel (Some n) d)) = {x \<in> set (ts_events d). fst x \<noteq> n}"
    "ts_gateListConfig (ev_Cancel (Some n) d) = ts_gateListConfig d"
    "ts_nextEventId (ev_Cancel (Some n) d) = ts_nextEventId d" "static (ev_Cancel (Some n) d) = static d"
    by (auto simp: ev_Cancel_def static_def)
  have "distinct (map fst (ts_events (ev_Cancel (Some n) d)))"
    using assms by (simp add: ev_Cancel_def timer_ok_def events_ok_def distinct_map_filter)
  then have "events_ok now (ev_Cancel (Some n) d)" using assms ev by (auto simp: timer_ok_def events_ok_def)
  moreover have "waits (ev_Cancel (Some n) d) i" if "waits d i" for i using that ev by (auto simp: waits_def)
  ultimately show "timer_ok now (ev_Cancel (Some n) d)" using assms by (simp add: timer_ok_def)
qed

lemma ev_Schedule_total: "0 \<le> delay \<Longrightarrow> \<exists>n d'. ev_Schedule now delay cb d = Some (n, d')"
  by (simp add: ev_Schedule_def)

text \<open>Setting the timer of a gate to a pending event.\<close>

definition set_timer :: "nat \<Rightarrow> nat \<Rightarrow> time \<Rightarrow> tas_data \<Rightarrow> tas_data" where
  "set_timer i n t d = set_entry i ((entry d i)\<lparr>te_reRunEvent := Some n, te_reRunEventTimeStamp := t\<rparr>) d"

lemma set_timer_sel [simp]:
  "ts_events (set_timer i n t d) = ts_events d" "ts_nextEventId (set_timer i n t d) = ts_nextEventId d"
  "length (ts_gateListConfig (set_timer i n t d)) = length (ts_gateListConfig d)"
  "i < length (ts_gateListConfig d) \<Longrightarrow> entry (set_timer i n t d) k =
     (if k = i then (entry d i)\<lparr>te_reRunEvent := Some n, te_reRunEventTimeStamp := t\<rparr> else entry d k)"
  by (auto simp: set_timer_def set_entry_def)

lemma set_timer_static: "static (set_timer i n t d) = static d"
proof -
  have "(map f xs)[i := f (xs ! i)] = map f xs" for f :: "tas_entry \<Rightarrow> tas_entry" and xs
    by (cases "i < length xs") (simp_all add: list_update_same_conv list_update_beyond)
  from this [of "\<lambda>e. e\<lparr>te_reRunEvent := None, te_reRunEventTimeStamp := 0\<rparr>" "ts_gateListConfig d"]
  show ?thesis by (simp add: static_def set_timer_def set_entry_def map_update)
qed

lemma set_timer_ok:
  assumes "timer_ok now d" and "i < 8" and "(n, t, CbRun) \<in> set (ts_events d)"
  shows "timer_ok now (set_timer i n t d)" "static (set_timer i n t d) = static d"
    "\<And>k. reRunning (set_timer i n t d) k \<longleftrightarrow> k = i \<or> reRunning d k"
proof -
  have l: "i < length (ts_gateListConfig d)" using assms(1,2) by (simp add: timer_length)
  have "n \<in> fst ` set (ts_events d)" using assms(3) by force
  with l show "reRunning (set_timer i n t d) k \<longleftrightarrow> k = i \<or> reRunning d k" for k
    by (auto simp: ev_IsRunning_iff)
  have "events_ok now (set_timer i n t d)" using assms(1) by (simp add: timer_ok_def events_ok_def)
  moreover have "n < ts_nextEventId d" using assms(1,3) by (auto simp: timer_ok_def events_ok_def)
  then have "waits (set_timer i n t d) k" if "waits d k" for k
    using that assms(3) l by (simp add: waits_def)
  ultimately show "timer_ok now (set_timer i n t d)" using assms(1) by (simp add: timer_ok_def)
qed (rule set_timer_static)

lemma set_reRun_timer:
  "te_reRunEventTimeStamp (entry d i) = t \<Longrightarrow> set_reRun i (Some n) d = set_timer i n t d"
  by (cases "entry d i") (simp add: set_reRun_def set_timer_def)

section \<open>Cancelling a timer\<close>

text \<open>The state of the loop of \<^verbatim>\<open>CancelRun\<close>: \<^term>\<open>n\<close> is the event to cancel, due at \<^term>\<open>T\<close>, and
  \<^term>\<open>P\<close> are the gates not visited yet.\<close>

definition cancelling :: "time \<Rightarrow> nat \<Rightarrow> nat \<Rightarrow> time \<Rightarrow> tas_data \<Rightarrow> nat set \<Rightarrow> nat option \<Rightarrow> tas_data \<Rightarrow> bool" where
  "cancelling now q n T d0 P rb d \<longleftrightarrow> timer_ok now d \<and> static d = static d0 \<and>
     te_reRunEvent (entry d q) = Some n \<and> (n, T, CbRun) \<in> set (ts_events d) \<and>
     (\<forall>i < 8. te_reRunEventTimeStamp (entry d i) = te_reRunEventTimeStamp (entry d0 i)) \<and>
     (\<forall>i < 8. i \<noteq> q \<longrightarrow> (reRunning d i \<longleftrightarrow> reRunning d0 i) \<and> (i \<notin> P \<longrightarrow> te_reRunEvent (entry d i) \<noteq> Some n)) \<and>
     (\<forall>j. rb = Some j \<longrightarrow> (\<exists>m. te_reRunEvent (entry d j) = Some m \<and> m \<noteq> n \<and> (m, T, CbRun) \<in> set (ts_events d)))"

lemma cancelling_step:
  assumes c: "cancelling now q n T d0 (insert i P) rb d" and i: "i < 8" "i \<noteq> q" "te_reRunEvent (entry d i) = Some n"
    and m: "(m, T, CbRun) \<in> set (ts_events d1)" "m \<noteq> n" and d1: "timer_ok now d1" "static d1 = static d"
      "ts_gateListConfig d1 = ts_gateListConfig d" "set (ts_events d) \<subseteq> set (ts_events d1)"
      "\<And>k. k < 8 \<Longrightarrow> reRunning d1 k \<longleftrightarrow> reRunning d k" and q: "q < 8"
  shows "cancelling now q n T d0 P (Some i) (set_reRun i (Some m) d1)"
    and "\<And>j. j \<noteq> i \<Longrightarrow> rb = Some j \<Longrightarrow> cancelling now q n T d0 P rb (set_reRun i (Some m) d1)"
proof -
  have l: "i < length (ts_gateListConfig d1)" using i timer_length [OF d1(1)] by simp
  have n: "(n, T, CbRun) \<in> set (ts_events d)" "n \<in> fst ` set (ts_events d)" using c by (force simp: cancelling_def)+
  have "timer_ok now d" using c by (simp add: cancelling_def)
  from timer_unique [OF this n(1) timer_pending(1) [OF this i(1,3) n(2)]]
  have T: "te_reRunEventTimeStamp (entry d i) = T" .
  then have s: "set_reRun i (Some m) d1 = set_timer i m T d1" using d1(3) by (simp add: set_reRun_timer)
  have r: "reRunning d i" using n(2) i(3) by (simp add: ev_IsRunning_iff)
  note t = set_timer_ok [OF d1(1) i(1) m(1)]
  have *: "cancelling now q n T d0 P None (set_timer i m T d1)"
    using c t i m d1 n r T l q unfolding cancelling_def by (auto simp: subset_iff)
  then show "cancelling now q n T d0 P (Some i) (set_reRun i (Some m) d1)"
    using l m unfolding s cancelling_def by auto
  show "cancelling now q n T d0 P rb (set_reRun i (Some m) d1)" if "j \<noteq> i" "rb = Some j" for j
    using * that c l d1(3,4) unfolding s cancelling_def by auto
qed

lemma cancelling_skip:
  "cancelling now q n T d0 (insert i P) rb d \<Longrightarrow> i = q \<or> te_reRunEvent (entry d i) \<noteq> Some n \<Longrightarrow>
     cancelling now q n T d0 P rb d"
  unfolding cancelling_def by blast

lemma cancelling_NextEvent:
  assumes "cancelling now q n T d0 P rb d" and "i < 8" "i \<noteq> q" and "te_reRunEvent (entry d i) = Some n"
    and "synced d0 i" and "ts_getNow d0 = None"
  shows "NextEvent d i - tas_DeviceTime now d = T - now" "now \<le> T"
proof -
  have t: "timer_ok now d" and st: "static d = static d0" and n: "(n, T, CbRun) \<in> set (ts_events d)"
    using assms(1) by (simp_all add: cancelling_def)
  then have n': "n \<in> fst ` set (ts_events d)" by force
  have T: "te_reRunEventTimeStamp (entry d i) = T"
    by (rule timer_unique [OF t n timer_pending(1) [OF t assms(2,4) n']])
  with timer_pending(2) [OF t assms(2,4) n'] show "now \<le> T" by simp
  have "reRunning d i" using n' assms(4) by (simp add: ev_IsRunning_iff)
  then have "NextEvent d0 i = te_reRunEventTimeStamp (entry d0 i)"
    using assms(1,2,3,5) by (simp add: cancelling_def synced_def)
  moreover have "te_reRunEventTimeStamp (entry d i) = te_reRunEventTimeStamp (entry d0 i)"
    using assms(1,2) by (simp add: cancelling_def)
  moreover have "te_gateState (entry d i) = te_gateState (entry d0 i)"
    using staticD(1,2) [OF st] timer_length [OF t] assms(2) by simp
  ultimately show "NextEvent d i - tas_DeviceTime now d = T - now"
    using T staticD(4) [OF st] assms(6) by (simp add: tas_DeviceTime_def)
qed

lemma CancelRun_loop_ok:
  assumes "q < 8" and now: "ts_getNow d0 = None" and sy: "\<forall>i < 8. i \<noteq> q \<longrightarrow> synced d0 i"
  shows "cancelling now q n T d0 (set is) rb d \<Longrightarrow> distinct is \<Longrightarrow> set is \<subseteq> {..<8} \<Longrightarrow>
    \<forall>j. rb = Some j \<longrightarrow> j \<notin> set is \<Longrightarrow>
    \<exists>rb' d'. CancelRun_loop now q is rb d = Some d' \<and> cancelling now q n T d0 {} rb' d'"
proof (induction "is" arbitrary: rb d)
  case (Cons i "is")
  have c: "cancelling now q n T d0 (insert i (set is)) rb d" using Cons.prems(1) by simp
  have e: "te_reRunEvent (entry d q) = Some n" and t: "timer_ok now d" and n: "(n, T, CbRun) \<in> set (ts_events d)"
    using c by (simp_all add: cancelling_def)
  have i: "i < 8" using Cons.prems(3) by simp
  show ?case
  proof (cases "q \<noteq> i \<and> te_reRunEvent (entry d q) = te_reRunEvent (entry d i)")
    case False
    then have "cancelling now q n T d0 (set is) rb d" using cancelling_skip [OF c] e by auto
    with Cons.IH Cons.prems False show ?thesis by auto
  next
    case True
    then have iq: "i \<noteq> q" "te_reRunEvent (entry d i) = Some n" using e by auto
    show ?thesis
    proof (cases rb)
      case (Some j)
      with c obtain m where m: "te_reRunEvent (entry d j) = Some m" "m \<noteq> n" "(m, T, CbRun) \<in> set (ts_events d)"
        by (auto simp: cancelling_def)
      have "j \<noteq> i" using Cons.prems(4) Some by auto
      with cancelling_step(2) [OF c i iq m(3,2) t refl refl subset_refl refl assms(1)] Some
      have "cancelling now q n T d0 (set is) rb (set_reRun i (Some m) d)" by auto
      with Cons.IH Cons.prems True Some m(1) show ?thesis by auto
    next
      case None
      note nx = cancelling_NextEvent [OF c i iq sy [rule_format, OF i iq(1)] now]
      obtain m d1 where sch: "ev_Schedule now (T - now) CbRun d = Some (m, d1)"
        using ev_Schedule_total nx(2) by fastforce
      note sc = ev_Schedule_ok [OF t _ sch]
      have "n \<in> fst ` set (ts_events d)" using n by force
      then have mn: "m \<noteq> n" "(m, T, CbRun) \<in> set (ts_events d1)" using sc nx(2) by auto
      have rr: "reRunning d1 k \<longleftrightarrow> reRunning d k" if "k < 8" for k
        using t that sc nx(2) by (auto simp: ev_IsRunning_iff timer_ok_def waits_def)
      have "cancelling now q n T d0 (set is) (Some i) (set_reRun i (Some m) d1)"
        using cancelling_step(1) [OF c i iq mn(2,1) _ _ _ _ rr assms(1)] sc nx(2) by auto
      with Cons.IH [of "Some i"] Cons.prems True None sch nx(1) show ?thesis by auto
    qed
  qed
qed auto

lemma CancelRun_ok:
  assumes "q < 8" and "ts_getNow d = None" and "timer_ok now d" and "\<forall>i < 8. i \<noteq> q \<longrightarrow> synced d i"
  shows "\<exists>d'. CancelRun now q d = Some d' \<and> timer_ok now d' \<and> static d' = static d \<and> \<not> reRunning d' q \<and>
    (\<forall>i < 8. i \<noteq> q \<longrightarrow> (reRunning d' i \<longleftrightarrow> reRunning d i)) \<and> (\<forall>i < 8. synced d' i)"
proof (cases "reRunning d q")
  case False
  then have "synced d q" by (simp add: synced_def)
  with assms have "\<forall>i < 8. synced d i" by auto
  with False assms(3) show ?thesis by (simp add: CancelRun_def)
next
  case True
  then obtain n where n: "te_reRunEvent (entry d q) = Some n" "n \<in> fst ` set (ts_events d)"
    by (auto simp: ev_IsRunning_iff)
  define T where "T = te_reRunEventTimeStamp (entry d q)"
  have "cancelling now q n T d (set [0..<8]) None d"
    using assms(3) n timer_pending(1) [OF assms(3,1) n] by (simp add: cancelling_def T_def)
  from CancelRun_loop_ok [OF assms(1,2,4) this] obtain rb d1 where
    l: "CancelRun_loop now q [0..<8] None d = Some d1" and c: "cancelling now q n T d {} rb d1" by (auto simp: lessThan_atLeast0)
  define d' where "d' = ev_Cancel (Some n) d1"
  have e1: "te_reRunEvent (entry d1 q) = Some n" and t1: "timer_ok now d1" and st: "static d1 = static d"
    using c by (simp_all add: cancelling_def)
  note ev = ev_Cancel_ok(2-5) [OF t1, of n, folded d'_def]
  have "CancelRun now q d = Some d'" using True l e1 by (simp add: CancelRun_def d'_def)
  moreover have "timer_ok now d'" using ev_Cancel_ok(1) [OF t1] by (simp add: d'_def)
  moreover have run: "reRunning d' i \<longleftrightarrow> reRunning d i" if "i < 8" "i \<noteq> q" for i
  proof -
    have "te_reRunEvent (entry d1 i) \<noteq> Some n" "reRunning d1 i \<longleftrightarrow> reRunning d i" using c that by (auto simp: cancelling_def)
    then show ?thesis using ev by (auto simp: ev_IsRunning_iff)
  qed
  moreover have no: "\<not> reRunning d' q" using ev e1 by (auto simp: ev_IsRunning_iff)
  moreover have "synced d' i" if "i < 8" for i
  proof (cases "i = q")
    case False
    have "te_gateState (entry d' i) = te_gateState (entry d i)"
      using staticD(1,2) [OF st] ev(2) timer_length [OF t1] that by simp
    moreover have "te_reRunEventTimeStamp (entry d' i) = te_reRunEventTimeStamp (entry d i)"
      using c that ev(2) by (simp add: cancelling_def)
    ultimately show ?thesis using assms(4) that False run [OF that False] by (simp add: synced_def)
  qed (use no in \<open>simp add: synced_def\<close>)
  ultimately show ?thesis using st ev(4) by auto
qed

section \<open>Setting a timer\<close>

text \<open>What setting or cancelling the timer of gate \<^term>\<open>q\<close> achieves.\<close>

definition timer_step :: "time \<Rightarrow> nat \<Rightarrow> bool \<Rightarrow> tas_data \<Rightarrow> tas_data \<Rightarrow> bool" where
  "timer_step now q on d d' \<longleftrightarrow> timer_ok now d' \<and> static d' = static d \<and> (reRunning d' q \<longleftrightarrow> on) \<and>
     (\<forall>i < 8. i \<noteq> q \<longrightarrow> (reRunning d' i \<longleftrightarrow> reRunning d i)) \<and> (\<forall>i < 8. synced d' i)"

lemma set_timer_step:
  assumes "q < 8" and "timer_ok now d" and "\<forall>i < 8. i \<noteq> q \<longrightarrow> synced d i"
    and "(n, NextEvent d q, CbRun) \<in> set (ts_events d)"
  shows "timer_step now q True d (set_timer q n (NextEvent d q) d)"
proof -
  have l: "q < length (ts_gateListConfig d)" using assms by (simp add: timer_length)
  note t = set_timer_ok [OF assms(2,1,4)]
  have "synced (set_timer q n (NextEvent d q) d) i" if "i < 8" for i
    using assms(3) that t(3) [of i] l unfolding synced_def by simp
  with t show ?thesis by (simp add: timer_step_def)
qed

lemma ScheduleRun_new_ok:
  assumes "q < 8" and "ts_getNow d = None" and "timer_ok now d" and "\<forall>i < 8. i \<noteq> q \<longrightarrow> synced d i"
    and "now \<le> NextEvent d q"
  shows "\<exists>d'. ScheduleRun_new now q d = Some d' \<and> timer_step now q True d d'"
proof (cases "find_shared (NextEvent d q) d")
  case (Some i)
  then have i: "i < 8" "reRunning d i" "te_reRunEventTimeStamp (entry d i) = NextEvent d q"
    by (auto simp: find_shared_def find_Some_iff)
  then obtain n where n: "te_reRunEvent (entry d i) = Some n" "n \<in> fst ` set (ts_events d)"
    by (auto simp: ev_IsRunning_iff)
  with timer_pending(1) [OF assms(3) i(1) n] i(3) have "(n, NextEvent d q, CbRun) \<in> set (ts_events d)" by simp
  from set_timer_step [OF assms(1,3,4) this] Some i n show ?thesis
    by (simp add: ScheduleRun_new_def set_timer_def)
next
  case None
  obtain n d1 where sch: "ev_Schedule now (NextEvent d q - now) CbRun d = Some (n, d1)"
    using ev_Schedule_total assms(5) by fastforce
  note sc = ev_Schedule_ok [OF assms(3) _ sch]
  have d1: "timer_ok now d1" "ts_gateListConfig d1 = ts_gateListConfig d" "static d1 = static d"
    "(n, NextEvent d1 q, CbRun) \<in> set (ts_events d1)" using sc assms(5) by auto
  have rr: "reRunning d1 i \<longleftrightarrow> reRunning d i" if "i < 8" for i
    using assms(3,5) that sc by (auto simp: ev_IsRunning_iff timer_ok_def waits_def)
  then have "\<forall>i < 8. i \<noteq> q \<longrightarrow> synced d1 i" using assms(4) d1(2) by (simp add: synced_def)
  from set_timer_step [OF assms(1) d1(1) this d1(4)] d1 rr
  have "timer_step now q True d (set_timer q n (NextEvent d1 q) d1)" by (simp add: timer_step_def)
  moreover have "ScheduleRun_new now q d = Some (set_timer q n (NextEvent d1 q) d1)"
    using None sch d1(2) assms(2) by (simp add: ScheduleRun_new_def set_timer_def tas_DeviceTime_def Let_def)
  ultimately show ?thesis by blast
qed

lemma CancelRun_step:
  assumes "q < 8" and "ts_getNow d = None" and "timer_ok now d" and "\<forall>i < 8. i \<noteq> q \<longrightarrow> synced d i"
  shows "\<exists>d'. CancelRun now q d = Some d' \<and> timer_step now q False d d'"
  using CancelRun_ok [OF assms] by (simp add: timer_step_def)

lemma ScheduleRun_ok:
  assumes "q < 8" and "ts_getNow d = None" and "timer_ok now d" and "\<forall>i < 8. i \<noteq> q \<longrightarrow> synced d i"
    and "now \<le> NextEvent d q" and "0 < NextEvent d q"
  shows "\<exists>d'. ScheduleRun now q d = Some d' \<and> timer_step now q True d d'"
proof (cases "reRunning d q")
  case False
  with ScheduleRun_new_ok [OF assms(1-5)] show ?thesis by (simp add: ScheduleRun_def Let_def)
next
  case run: True
  show ?thesis
  proof (cases "te_reRunEventTimeStamp (entry d q) = NextEvent d q")
    case True
    then have "synced d q" by (simp add: synced_def)
    with assms(4) have "\<forall>i < 8. synced d i" by auto
    with run assms(3) have "timer_step now q True d d" by (simp add: timer_step_def)
    with run True assms(6) show ?thesis by (simp add: ScheduleRun_def Let_def)
  next
    case False
    from CancelRun_step [OF assms(1-4)] obtain d1 where
      d1: "CancelRun now q d = Some d1" "timer_step now q False d d1" by blast
    then have st: "static d1 = static d" by (simp add: timer_step_def)
    have N: "NextEvent d1 q = NextEvent d q" using staticD(2) [OF st] assms(1) timer_length [OF assms(3)] by simp
    from ScheduleRun_new_ok [of q d1 now] d1(2) assms N staticD(4) [OF st] obtain d' where
      "ScheduleRun_new now q d1 = Some d'" "timer_step now q True d1 d'" by (auto simp: timer_step_def)
    with d1 run False assms(6) show ?thesis by (auto simp: ScheduleRun_def Let_def timer_step_def)
  qed
qed

section \<open>Gates\<close>

text \<open>The invariant of a shaper that follows the simulation clock: its timers are right, and every
  child gate has the state and the next event recorded for it.\<close>

definition tas_ok :: "time \<Rightarrow> gate_disc tas_disc \<Rightarrow> bool" where
  "tas_ok now qd \<longleftrightarrow> timer_ok now (qd_data qd) \<and> ts_getNow (qd_data qd) = None \<and> (\<forall>i < 8. synced (qd_data qd) i) \<and>
     length (qd_classes qd) \<le> 8 \<and>
     (\<forall>i < length (qd_classes qd). gd_gateState (qd_data (qd_classes qd ! i)) = te_gateState (entry (qd_data qd) i))"

text \<open>What \<^verbatim>\<open>UpdateTransmisionGate\<close> does to gate \<^term>\<open>i\<close>.\<close>

definition gate_update :: "time \<Rightarrow> nat \<Rightarrow> gate_state \<Rightarrow> gate_disc tas_disc \<Rightarrow> gate_disc tas_disc \<Rightarrow> bool" where
  "gate_update now i s qd qd' \<longleftrightarrow> tas_ok now qd' \<and>
     qd_classes qd' = (qd_classes qd)[i := Gate_SetGateState s (qd_classes qd ! i)] \<and>
     te_gateState (entry (qd_data qd') i) = s \<and>
     (\<forall>k < 8. k \<noteq> i \<longrightarrow> te_gateState (entry (qd_data qd') k) = te_gateState (entry (qd_data qd) k) \<and>
        (reRunning (qd_data qd') k \<longleftrightarrow> reRunning (qd_data qd) k)) \<and>
     (reRunning (qd_data qd') i \<longleftrightarrow> gs_interval s > 0 \<and> qd_nPackets (qd_classes qd ! i) > 0) \<and>
     settings (qd_data qd') = settings (qd_data qd)"

lemma Gate_SetGateState_same: "gd_gateState (qd_data g) = s \<Longrightarrow> Gate_SetGateState s g = g"
  by (auto simp: Gate_SetGateState_def)

lemma Gate_SetGateState_sel [simp]:
  "qd_nPackets (Gate_SetGateState s g) = qd_nPackets g" "gd_gateState (qd_data (Gate_SetGateState s g)) = s"
  by (simp_all add: Gate_SetGateState_def)

definition with_gate :: "nat \<Rightarrow> gate_state \<Rightarrow> gate_disc tas_disc \<Rightarrow> gate_disc tas_disc" where
  "with_gate i s qd = (tas_upd (set_entry i ((entry (qd_data qd) i)\<lparr>te_gateState := s\<rparr>)) qd)
     \<lparr>qd_classes := (qd_classes qd)[i := Gate_SetGateState s (qd_classes qd ! i)]\<rparr>"

lemma with_gate_same:
  assumes "gd_gateState (qd_data (qd_classes qd ! i)) = s" and "te_gateState (entry (qd_data qd) i) = s"
  shows "with_gate i s qd = qd"
proof -
  have "(entry (qd_data qd) i)\<lparr>te_gateState := s\<rparr> = entry (qd_data qd) i" using assms(2) by (cases "entry (qd_data qd) i") simp
  then show ?thesis by (simp add: with_gate_def tas_upd_def set_entry_def Gate_SetGateState_same [OF assms(1)])
qed

lemma UpdateTransmisionGate_unfold:
  assumes "i < length (qd_classes qd)" and "tas_ok now qd"
  shows "UpdateTransmisionGate gate_child now i b ne qd =
    (let qd1 = with_gate i \<lparr>gs_state = b, gs_interval = ne\<rparr> qd in
     if ne > 0 \<and> qd_nPackets (qd_classes qd ! i) > 0 then tas_run (ScheduleRun now i) qd1
     else tas_run (CancelRun now i) qd1)"
proof -
  let ?s = "\<lparr>gs_state = b, gs_interval = ne\<rparr>" and ?e = "te_gateState (entry (qd_data qd) i)"
  let ?q = "with_gate i ?s qd"
  have 1: "(if gs_state ?e \<noteq> b \<or> gs_interval ?e \<noteq> ne then
       (tas_upd (set_entry i ((entry (qd_data qd) i)\<lparr>te_gateState := ?s\<rparr>)) qd)
         \<lparr>qd_classes := (qd_classes qd)[i := tc_SetGateState gate_child ?s (qd_classes qd ! i)]\<rparr> else qd) = ?q"
  proof (cases "?e = ?s")
    case True
    then have "gd_gateState (qd_data (qd_classes qd ! i)) = ?s" using assms by (simp add: tas_ok_def)
    with True with_gate_same show ?thesis by (simp add: with_gate_same)
  next
    case False
    then show ?thesis by (cases ?e) (auto simp: with_gate_def gate_child_def)
  qed
  have 2: "ch_GetNPackets (tc_ops gate_child) (qd_classes ?q ! i) = qd_nPackets (qd_classes qd ! i)"
    using assms(1) by (simp add: gate_child_def qdisc_ops_of_def with_gate_def)
  have 3: "(if reRunning (qd_data ?q) i then tas_run (CancelRun now i) ?q else Some ?q) = tas_run (CancelRun now i) ?q"
    by (auto simp: tas_run_def CancelRun_def)
  show ?thesis using assms(1) unfolding UpdateTransmisionGate_def Let_def 1 2 3 by simp
qed

lemma UpdateTransmisionGate_ok:
  assumes i: "i < length (qd_classes qd)" and ok: "tas_ok now qd" and ne: "0 < ne \<Longrightarrow> now \<le> ne"
  shows "\<exists>qd'. UpdateTransmisionGate gate_child now i b ne qd = Some qd' \<and>
    gate_update now i \<lparr>gs_state = b, gs_interval = ne\<rparr> qd qd'"
proof -
  let ?s = "\<lparr>gs_state = b, gs_interval = ne\<rparr>"
  define q1 where "q1 = with_gate i ?s qd"
  define on where "on \<longleftrightarrow> ne > 0 \<and> qd_nPackets (qd_classes qd ! i) > 0"
  have i8: "i < 8" and t: "timer_ok now (qd_data qd)" and l: "length (ts_gateListConfig (qd_data qd)) = 8"
    using i ok by (auto simp: tas_ok_def timer_length)
  have e1: "entry (qd_data q1) k = (if k = i then (entry (qd_data qd) i)\<lparr>te_gateState := ?s\<rparr> else entry (qd_data qd) k)" for k
    using i8 l by (simp add: q1_def with_gate_def tas_upd_def set_entry_def)
  have d1: "ts_events (qd_data q1) = ts_events (qd_data qd)" "ts_nextEventId (qd_data q1) = ts_nextEventId (qd_data qd)"
    "length (ts_gateListConfig (qd_data q1)) = 8" "ts_getNow (qd_data q1) = None"
    "settings (qd_data q1) = settings (qd_data qd)"
    using l ok by (simp_all add: q1_def with_gate_def tas_upd_def set_entry_def tas_ok_def settings_def)
  have r1: "reRunning (qd_data q1) k \<longleftrightarrow> reRunning (qd_data qd) k" for k using d1(1) e1 by (simp add: ev_IsRunning_iff)
  have t1: "timer_ok now (qd_data q1)" using t l d1 e1 by (simp add: timer_ok_def events_ok_def waits_def)
  have s1: "\<forall>k < 8. k \<noteq> i \<longrightarrow> synced (qd_data q1) k" unfolding synced_def r1 using ok e1 by (simp add: tas_ok_def synced_def)
  have N: "NextEvent (qd_data q1) i = ne" using e1 by simp
  have "\<exists>d'. (if on then ScheduleRun now i (qd_data q1) else CancelRun now i (qd_data q1)) = Some d' \<and>
      timer_step now i on (qd_data q1) d'"
    using ScheduleRun_ok [OF i8 d1(4) t1 s1] CancelRun_step [OF i8 d1(4) t1 s1] N ne by (auto simp: on_def)
  then obtain d' where d': "(if on then ScheduleRun now i (qd_data q1) else CancelRun now i (qd_data q1)) = Some d'"
    "timer_step now i on (qd_data q1) d'" by blast
  define qd' where "qd' = q1\<lparr>qd_data := d'\<rparr>"
  have "UpdateTransmisionGate gate_child now i b ne qd = Some qd'"
    using UpdateTransmisionGate_unfold [OF i ok, of b ne] d'(1)
    unfolding q1_def [symmetric] on_def [symmetric] Let_def tas_run_def qd'_def by (cases on) simp_all
  moreover have st: "static d' = static (qd_data q1)" using d'(2) by (simp add: timer_step_def)
  have g: "te_gateState (entry d' k) = te_gateState (entry (qd_data q1) k)" if "k < 8" for k
    using staticD(2) [OF st] d1(3) that by simp
  have c: "qd_classes qd' = (qd_classes qd)[i := Gate_SetGateState ?s (qd_classes qd ! i)]"
    by (simp add: qd'_def q1_def with_gate_def)
  have "tas_ok now qd'" unfolding tas_ok_def
  proof (intro conjI allI impI)
    fix k assume "k < length (qd_classes qd')"
    then have "k < length (qd_classes qd)" "k < 8" using c ok by (auto simp: tas_ok_def)
    then show "gd_gateState (qd_data (qd_classes qd' ! k)) = te_gateState (entry (qd_data qd') k)"
      using ok g e1 c i by (simp add: tas_ok_def qd'_def nth_list_update)
  qed (use d'(2) d1 ok c staticD(4) [OF st] in \<open>simp_all add: timer_step_def qd'_def tas_ok_def\<close>)
  moreover have "\<forall>k < 8. k \<noteq> i \<longrightarrow> te_gateState (entry (qd_data qd') k) = te_gateState (entry (qd_data qd) k)"
    using g e1 by (simp add: qd'_def)
  moreover have "\<forall>k < 8. k \<noteq> i \<longrightarrow> (reRunning (qd_data qd') k \<longleftrightarrow> reRunning (qd_data qd) k)"
    using d'(2) unfolding timer_step_def r1 by (simp add: qd'_def)
  moreover have "te_gateState (entry (qd_data qd') i) = ?s" using g [OF i8] e1 by (simp add: qd'_def)
  ultimately show ?thesis using d'(2) d1 c settings_static [OF st]
    by (auto simp: gate_update_def qd'_def timer_step_def on_def)
qed

section \<open>Executing the list\<close>

definition prescribed :: "net_config \<Rightarrow> time \<Rightarrow> time \<Rightarrow> nat \<Rightarrow> gate_state" where
  "prescribed c deviceTime relativeNow i =
     (case gate_decision (nc_length c) (nc_gates c ! i) relativeNow of
        None \<Rightarrow> \<lparr>gs_state = False, gs_interval = 0\<rparr>
      | Some (b, n) \<Rightarrow> \<lparr>gs_state = b, gs_interval = deviceTime - relativeNow + n\<rparr>)"

text \<open>Gates change their packet queues in no way.\<close>

definition same_packets :: "gate_disc tas_disc \<Rightarrow> gate_disc tas_disc \<Rightarrow> bool" where
  "same_packets qd' qd \<longleftrightarrow> length (qd_classes qd') = length (qd_classes qd) \<and>
     (\<forall>k < length (qd_classes qd). \<exists>s. qd_classes qd' ! k = Gate_SetGateState s (qd_classes qd ! k))"

lemma same_packets_refl: "same_packets qd qd"
  unfolding same_packets_def using Gate_SetGateState_same [symmetric] by fastforce

lemma same_packets_trans:
  assumes "same_packets a b" and "same_packets b c"
  shows "same_packets a c"
proof -
  have "\<exists>s. qd_classes a ! k = Gate_SetGateState s (qd_classes c ! k)" if "k < length (qd_classes c)" for k
  proof -
    have k: "k < length (qd_classes b)" using assms(2) that by (simp add: same_packets_def)
    have "\<exists>s. qd_classes b ! k = Gate_SetGateState s (qd_classes c ! k)"
      using assms(2) that by (simp add: same_packets_def)
    moreover have "\<exists>s. qd_classes a ! k = Gate_SetGateState s (qd_classes b ! k)"
      using assms(1) k by (simp add: same_packets_def)
    ultimately show ?thesis by (auto simp: Gate_SetGateState_def)
  qed
  then show ?thesis using assms by (simp add: same_packets_def)
qed

lemma gate_update_same_packets:
  assumes "gate_update now i s qd qd'"
  shows "same_packets qd' qd"
proof -
  have c: "qd_classes qd' = (qd_classes qd)[i := Gate_SetGateState s (qd_classes qd ! i)]"
    using assms by (simp add: gate_update_def)
  have "\<exists>s'. qd_classes qd' ! k = Gate_SetGateState s' (qd_classes qd ! k)" if "k < length (qd_classes qd)" for k
    using that Gate_SetGateState_same [symmetric] unfolding c by (cases "k = i") fastforce+
  with c show ?thesis by (simp add: same_packets_def)
qed

lemma ListExecute_loop_ok:
  "tas_ok now qd \<Longrightarrow> distinct is \<Longrightarrow> set is \<subseteq> {..<length (qd_classes qd)} \<Longrightarrow> ts_currentConfig (qd_data qd) = c \<Longrightarrow>
    \<forall>i \<in> set is. 0 < gs_interval (prescribed c dev rel i) \<longrightarrow> now \<le> gs_interval (prescribed c dev rel i) \<Longrightarrow>
    \<exists>qd'. ListExecute_loop gate_child now dev rel is qd = Some qd' \<and> tas_ok now qd' \<and> same_packets qd' qd \<and>
      settings (qd_data qd') = settings (qd_data qd) \<and>
      (\<forall>k < 8. if k \<in> set is then te_gateState (entry (qd_data qd') k) = prescribed c dev rel k \<and>
           (reRunning (qd_data qd') k \<longleftrightarrow> gs_interval (prescribed c dev rel k) > 0 \<and> qd_nPackets (qd_classes qd ! k) > 0)
         else te_gateState (entry (qd_data qd') k) = te_gateState (entry (qd_data qd) k) \<and>
           (reRunning (qd_data qd') k \<longleftrightarrow> reRunning (qd_data qd) k))"
proof (induction "is" arbitrary: qd)
  case Nil
  then show ?case by (simp add: same_packets_refl)
next
  case (Cons i "is")
  let ?p = "prescribed c dev rel i"
  have i: "i < length (qd_classes qd)" using Cons.prems(3) by simp
  have eta: "\<lparr>gs_state = gs_state ?p, gs_interval = gs_interval ?p\<rparr> = ?p" by simp
  from UpdateTransmisionGate_ok [OF i Cons.prems(1), of "gs_interval ?p" "gs_state ?p", unfolded eta] Cons.prems(5)
  obtain q1 where u: "UpdateTransmisionGate gate_child now i (gs_state ?p) (gs_interval ?p) qd = Some q1"
    "gate_update now i ?p qd q1" by auto
  have sp: "same_packets q1 qd" using gate_update_same_packets [OF u(2)] .
  then have l: "length (qd_classes q1) = length (qd_classes qd)" by (simp add: same_packets_def)
  have q1: "tas_ok now q1" "settings (qd_data q1) = settings (qd_data qd)" using u(2) by (simp_all add: gate_update_def)
  with Cons.prems(4) have c1: "ts_currentConfig (qd_data q1) = c" using settingsD(1) [OF q1(2)] by simp
  have pre: "distinct is" "set is \<subseteq> {..<length (qd_classes q1)}"
    "\<forall>i \<in> set is. 0 < gs_interval (prescribed c dev rel i) \<longrightarrow> now \<le> gs_interval (prescribed c dev rel i)"
    using Cons.prems l by auto
  from Cons.IH [OF q1(1) pre(1,2) c1 pre(3)] obtain qd' where
    qd': "ListExecute_loop gate_child now dev rel is q1 = Some qd'" "tas_ok now qd'" "same_packets qd' q1"
      "settings (qd_data qd') = settings (qd_data q1)"
      "\<forall>k < 8. if k \<in> set is then te_gateState (entry (qd_data qd') k) = prescribed c dev rel k \<and>
           (reRunning (qd_data qd') k \<longleftrightarrow> gs_interval (prescribed c dev rel k) > 0 \<and> qd_nPackets (qd_classes q1 ! k) > 0)
         else te_gateState (entry (qd_data qd') k) = te_gateState (entry (qd_data q1) k) \<and>
           (reRunning (qd_data qd') k \<longleftrightarrow> reRunning (qd_data q1) k)" by blast
  have n: "qd_nPackets (qd_classes q1 ! k) = qd_nPackets (qd_classes qd ! k)" if "k < length (qd_classes qd)" for k
    using sp that by (auto simp: same_packets_def)
  have step: "ListExecute_loop gate_child now dev rel (i # is) qd = Some qd'"
    using u(1) qd'(1) Cons.prems(4) by (auto simp: prescribed_def Let_def split: option.splits)
  have all: "if k \<in> set (i # is) then te_gateState (entry (qd_data qd') k) = prescribed c dev rel k \<and>
           (reRunning (qd_data qd') k \<longleftrightarrow> gs_interval (prescribed c dev rel k) > 0 \<and> qd_nPackets (qd_classes qd ! k) > 0)
         else te_gateState (entry (qd_data qd') k) = te_gateState (entry (qd_data qd) k) \<and>
           (reRunning (qd_data qd') k \<longleftrightarrow> reRunning (qd_data qd) k)" if "k < 8" for k
  proof (cases "k \<in> set is")
    case True
    then have "k < length (qd_classes qd)" using Cons.prems(3) by auto
    with True qd'(5) that n show ?thesis by simp
  next
    case False
    with qd'(5) that have "te_gateState (entry (qd_data qd') k) = te_gateState (entry (qd_data q1) k)"
      "reRunning (qd_data qd') k \<longleftrightarrow> reRunning (qd_data q1) k" by auto
    with False u(2) that show ?thesis by (cases "k = i") (simp_all add: gate_update_def)
  qed
  show ?case
    by (intro exI [of _ qd'] conjI allI impI step qd'(2) same_packets_trans [OF qd'(3) sp],
        simp only: qd'(4) q1(2)) (rule all)
qed

text \<open>The current time of the cycle, and the schedule of a gate at a given time.\<close>

definition cycle_time :: "net_config \<Rightarrow> time \<Rightarrow> time" where
  "cycle_time c t = (t - nc_configChangeTime c - nc_epoch c) mod nc_length c"

lemma FemtoSeconds_mod: "FemtoSeconds (GetFemtoSeconds a mod GetFemtoSeconds b) = a mod b"
  by (simp add: FemtoSeconds_def GetFemtoSeconds_def mult_mod_left [symmetric])

lemma prescribed_ok:
  assumes c: "compiled es c" "0 < nc_length c" and i: "i < 8" and now: "0 \<le> now"
  shows "gs_state (prescribed c now (cycle_time c now) i) = slot_bit es i (cycle_time c now)"
    and "if gl_openingTimes (nc_gates c ! i) = [] then gs_interval (prescribed c now (cycle_time c now) i) = 0
      else now < gs_interval (prescribed c now (cycle_time c now) i) \<and>
        (\<forall>u. now \<le> u \<and> u < gs_interval (prescribed c now (cycle_time c now) i) \<longrightarrow>
           slot_bit es i (cycle_time c u) = slot_bit es i (cycle_time c now))"
proof -
  let ?g = "nc_gates c ! i" and ?L = "nc_length c" and ?t = "cycle_time c now"
  have wf: "wf_gate ?L ?g" and len: "cycle_length es = ?L"
    and bit: "\<And>t. gate_open ?g t \<longleftrightarrow> 0 \<le> t \<and> t < cycle_length es \<and> slot_bit es i t"
    using c i by (auto simp: compiled_def)
  have ct: "0 \<le> cycle_time c u" "cycle_time c u < ?L" for u using c(2) by (simp_all add: cycle_time_def)
  have bit': "gate_open ?g (cycle_time c u) = slot_bit es i (cycle_time c u)" for u using bit ct len by simp
  have "gs_state (prescribed c now ?t i) = slot_bit es i ?t \<and>
     (if gl_openingTimes ?g = [] then gs_interval (prescribed c now ?t i) = 0
      else now < gs_interval (prescribed c now ?t i) \<and>
        (\<forall>u. now \<le> u \<and> u < gs_interval (prescribed c now ?t i) \<longrightarrow> slot_bit es i (cycle_time c u) = slot_bit es i ?t))"
  proof (cases "gl_openingTimes ?g = []")
    case True
    then have "gl_closingTimes ?g = []" using wf by (simp add: wf_gate_def)
    then have "gate_decision ?L ?g ?t = None" by (simp add: gate_decision_def GetNextBiggerEntry_def)
    moreover have "\<not> gate_open ?g ?t" using True by (simp add: gate_open_def windows_def)
    ultimately show ?thesis using True bit' [of now] by (simp add: prescribed_def)
  next
    case False
    from gate_decision_ok [OF wf ct False, of now] obtain nx where
      d: "gate_decision ?L ?g ?t = Some (gate_open ?g ?t, nx)" "?t < nx"
        "\<forall>u. ?t \<le> u \<and> u < nx \<longrightarrow> (gate_open ?g (u mod ?L) \<longleftrightarrow> gate_open ?g ?t)" by blast
    have stay: "slot_bit es i (cycle_time c u) = slot_bit es i ?t" if "now \<le> u \<and> u < now - ?t + nx" for u
    proof -
      have "(?t + (u - now)) mod ?L = cycle_time c u"
        unfolding cycle_time_def mod_add_left_eq by (simp add: algebra_simps)
      with d(3) [rule_format, of "?t + (u - now)"] that have "gate_open ?g (cycle_time c u) \<longleftrightarrow> gate_open ?g ?t" by simp
      then show ?thesis by (simp only: bit')
    qed
    have p: "prescribed c now ?t i = \<lparr>gs_state = slot_bit es i ?t, gs_interval = now - ?t + nx\<rparr>"
      using d(1) by (simp add: prescribed_def bit')
    show ?thesis unfolding p gate_state.select_convs if_not_P [OF False]
      using d(2) by (intro conjI refl allI impI stay) simp_all
  qed
  then show "gs_state (prescribed c now ?t i) = slot_bit es i ?t"
    and "if gl_openingTimes ?g = [] then gs_interval (prescribed c now ?t i) = 0
      else now < gs_interval (prescribed c now ?t i) \<and>
        (\<forall>u. now \<le> u \<and> u < gs_interval (prescribed c now ?t i) \<longrightarrow> slot_bit es i (cycle_time c u) = slot_bit es i ?t)"
    by blast+
qed

lemma prescribed_none:
  assumes "compiled es c" and "i < 8" and "gl_openingTimes (nc_gates c ! i) = []"
  shows "prescribed c dev t i = \<lparr>gs_state = False, gs_interval = 0\<rparr>"
proof -
  have "wf_gate (nc_length c) (nc_gates c ! i)" using assms(1,2) by (auto simp: compiled_def)
  then have "gl_closingTimes (nc_gates c ! i) = []" using assms(3) by (simp add: wf_gate_def)
  then show ?thesis by (simp add: prescribed_def gate_decision_def GetNextBiggerEntry_def)
qed

lemma ListExecute_ok:
  assumes ok: "tas_ok now qd" "length (qd_classes qd) = 8" and c: "ts_currentConfig (qd_data qd) = c" "compiled es c" "0 < nc_length c"
    and run: "\<not> ts_StoppAllQueues (qd_data qd)" and now: "0 \<le> now" "nc_configChangeTime c + nc_epoch c \<le> now"
  shows "\<exists>qd'. ListExecute gate_child now qd = Some qd' \<and> tas_ok now qd' \<and> same_packets qd' qd \<and>
    settings (qd_data qd') = settings (qd_data qd) \<and>
    (\<forall>i < 8. te_gateState (entry (qd_data qd') i) = prescribed c now (cycle_time c now) i \<and>
      (reRunning (qd_data qd') i \<longleftrightarrow> gl_openingTimes (nc_gates c ! i) \<noteq> [] \<and> qd_nPackets (qd_classes qd ! i) > 0))"
proof -
  have d: "tas_DeviceTime now (qd_data qd) = now" using ok by (simp add: tas_ok_def tas_DeviceTime_def)
  have L: "GetFemtoSeconds (nc_length c) \<noteq> 0" using c(3) by (simp add: GetFemtoSeconds_def)
  have u: "ListExecute gate_child now qd = ListExecute_loop gate_child now now (cycle_time c now) [0..<8] qd"
    using d L run c(1) now(2) by (simp add: ListExecute_def Let_def FemtoSeconds_mod cycle_time_def)
  have iv: "0 < gs_interval (prescribed c now (cycle_time c now) i) \<longrightarrow> now \<le> gs_interval (prescribed c now (cycle_time c now) i)"
    "0 < gs_interval (prescribed c now (cycle_time c now) i) \<longleftrightarrow> gl_openingTimes (nc_gates c ! i) \<noteq> []" if "i < 8" for i
    using prescribed_ok(2) [OF c(2,3) that now(1)] now(1) by (auto split: if_splits)
  from ListExecute_loop_ok [OF ok(1), of "[0..<8]" c now "cycle_time c now"] ok(2) c(1) iv obtain qd' where
    "ListExecute_loop gate_child now now (cycle_time c now) [0..<8] qd = Some qd'" "tas_ok now qd'" "same_packets qd' qd"
    "settings (qd_data qd') = settings (qd_data qd)"
    "\<forall>k < 8. te_gateState (entry (qd_data qd') k) = prescribed c now (cycle_time c now) k \<and>
       (reRunning (qd_data qd') k \<longleftrightarrow> gs_interval (prescribed c now (cycle_time c now) k) > 0 \<and> qd_nPackets (qd_classes qd ! k) > 0)"
    by (auto simp: lessThan_atLeast0)
  with u run iv(2) show ?thesis by auto
qed

end
