(* ===== verification/Tsn_Properties.thy ===== *)
theory Tsn_Properties
  imports Tsn_Gate_Control
begin

text \<open>
  End-to-end properties of the time-aware shaper. A running shaper is one with eight gates, a compiled
  schedule and the simulation clock; the invariant says that the gates follow the schedule until their
  next event. Every packet the shaper hands to the device is transmitted within a window of its gate.
\<close>

section \<open>A running shaper\<close>

definition child_ok :: "tas_data \<Rightarrow> gate_disc \<Rightarrow> bool" where
  "child_ok d g \<longleftrightarrow> gate.qd_inv g \<and> qd_requeued g = None \<and> gd_getNow (qd_data g) = None \<and>
     gd_txTime (qd_data g) = ts_txTime d"

definition running :: "schedule \<Rightarrow> time \<Rightarrow> time \<Rightarrow> gate_disc tas_disc \<Rightarrow> bool" where
  "running es t0 now qd \<longleftrightarrow> tas_ok now qd \<and> length (qd_classes qd) = 8 \<and>
     (\<forall>g \<in> set (qd_classes qd). child_ok (qd_data qd) g) \<and> (\<forall>n. 0 \<le> ts_txTime (qd_data qd) n) \<and>
     (let c = ts_currentConfig (qd_data qd) in compiled es c \<and> 0 < nc_length c \<and>
        nc_configChangeTime c + nc_epoch c = t0 \<and> t0 \<le> now) \<and>
     \<not> ts_StoppAllQueues (qd_data qd) \<and> 0 \<le> now"

text \<open>The recorded state of a gate is right from now on until its next event.\<close>

definition follows :: "schedule \<Rightarrow> time \<Rightarrow> tas_data \<Rightarrow> nat \<Rightarrow> bool" where
  "follows es now d i \<longleftrightarrow> (let c = ts_currentConfig d in
     if gl_openingTimes (nc_gates c ! i) = [] then te_gateState (entry d i) = \<lparr>gs_state = False, gs_interval = 0\<rparr>
     else 0 < NextEvent d i \<and> (\<forall>u. now \<le> u \<and> u < NextEvent d i \<longrightarrow>
       slot_bit es i (cycle_time c u) = gs_state (te_gateState (entry d i))))"

definition shaper_ok :: "schedule \<Rightarrow> time \<Rightarrow> time \<Rightarrow> gate_disc tas_disc \<Rightarrow> bool" where
  "shaper_ok es t0 now qd \<longleftrightarrow> running es t0 now qd \<and> (\<forall>i < 8. follows es now (qd_data qd) i) \<and>
     ts_prioMap (qd_data qd) = [0,1,2,3,4,5,6,7]"

lemma gate_inv_SetGateState: "gate.qd_inv (Gate_SetGateState s g) \<longleftrightarrow> gate.qd_inv g"
proof -
  let ?h = "Gate_SetGateState s g"
  have q: "qd_queues ?h = qd_queues g" "qd_peeked ?h = qd_peeked g" "qd_requeued ?h = qd_requeued g"
    "acct ?h = acct g" by (simp_all add: Gate_SetGateState_def acct_def)
  have "gate.in_disc ?h = gate.in_disc g" by (simp add: gate.in_disc_def peek_slot_def queues_held_def q)
  moreover have "gate_ok ?h = gate_ok g" by (simp add: gate_ok_def queues_ok_def q)
  ultimately show ?thesis unfolding gate.qd_inv_def q by (simp add: books_cong [OF q(4)])
qed

lemma child_ok_SetGateState: "child_ok d (Gate_SetGateState s g) \<longleftrightarrow> child_ok d g"
  by (simp add: child_ok_def gate_inv_SetGateState) (simp add: Gate_SetGateState_def)

lemma runningD:
  assumes "running es t0 now qd"
  defines "c \<equiv> ts_currentConfig (qd_data qd)"
  shows "tas_ok now qd" "length (qd_classes qd) = 8" "\<And>k. k < 8 \<Longrightarrow> child_ok (qd_data qd) (qd_classes qd ! k)"
    "\<And>n. 0 \<le> ts_txTime (qd_data qd) n" "compiled es c" "0 < nc_length c" "nc_configChangeTime c + nc_epoch c \<le> now"
    "\<not> ts_StoppAllQueues (qd_data qd)" "0 \<le> now" "nc_configChangeTime c + nc_epoch c = t0"
  using assms by (auto simp: running_def Let_def)

lemma running_ListExecute:
  assumes run: "running es t0 now qd"
  defines "c \<equiv> ts_currentConfig (qd_data qd)"
  shows "\<exists>qd'. ListExecute gate_child now qd = Some qd' \<and> running es t0 now qd' \<and> (\<forall>i < 8. follows es now (qd_data qd') i) \<and>
    same_packets qd' qd \<and> (\<forall>i < 8. gl_openingTimes (nc_gates c ! i) \<noteq> [] \<longrightarrow> now < NextEvent (qd_data qd') i) \<and>
    settings (qd_data qd') = settings (qd_data qd)"
proof -
  note r = runningD [OF run, folded c_def]
  have c: "ts_currentConfig (qd_data qd) = c" by (simp add: c_def)
  from ListExecute_ok [OF r(1,2) c r(5,6,8,9,7)] obtain qd' where
    l: "ListExecute gate_child now qd = Some qd'" "tas_ok now qd'" "same_packets qd' qd"
      "settings (qd_data qd') = settings (qd_data qd)"
      "\<forall>i < 8. te_gateState (entry (qd_data qd') i) = prescribed c now (cycle_time c now) i" by blast
  note st = settingsD [OF l(4)]
  have c': "ts_currentConfig (qd_data qd') = c" using st(1) c by simp
  have p: "if gl_openingTimes (nc_gates c ! i) = [] then te_gateState (entry (qd_data qd') i) = \<lparr>gs_state = False, gs_interval = 0\<rparr>
      else now < NextEvent (qd_data qd') i \<and> (\<forall>u. now \<le> u \<and> u < NextEvent (qd_data qd') i \<longrightarrow>
        slot_bit es i (cycle_time c u) = gs_state (te_gateState (entry (qd_data qd') i)))" if i: "i < 8" for i
  proof -
    have e: "te_gateState (entry (qd_data qd') i) = prescribed c now (cycle_time c now) i" using l(5) i by blast
    show ?thesis
    proof (cases "gl_openingTimes (nc_gates c ! i) = []")
      case True
      with prescribed_none [OF r(5) i True] e show ?thesis by simp
    next
      case False
      with prescribed_ok(2) [OF r(5,6) i r(9)] show ?thesis
        unfolding e prescribed_ok(1) [OF r(5,6) i r(9)] if_not_P [OF False] by blast
    qed
  qed
  have "child_ok (qd_data qd') g" if g: "g \<in> set (qd_classes qd')" for g
  proof -
    from g l(3) r(2) obtain k s where "k < 8" "g = Gate_SetGateState s (qd_classes qd ! k)"
      unfolding same_packets_def in_set_conv_nth by metis
    with r(3) have "child_ok (qd_data qd) g" by (simp add: child_ok_SetGateState)
    with st(3) show ?thesis by (simp add: child_ok_def)
  qed
  then have "running es t0 now qd'"
    using r st c' l(2,3) by (simp add: running_def Let_def same_packets_def)
  moreover have "follows es now (qd_data qd') i" if "i < 8" for i
    using p [OF that] r(9) by (auto simp: follows_def Let_def c')
  moreover have "now < NextEvent (qd_data qd') i" if "i < 8" "gl_openingTimes (nc_gates c ! i) \<noteq> []" for i
    using p [OF that(1)] that(2) by (simp only: if_False)
  ultimately show ?thesis using l(1,3,4) by blast
qed

section \<open>Dequeueing\<close>

definition child_live :: "time \<Rightarrow> gate_disc \<Rightarrow> queue_item list" where
  "child_live now g = dropWhile (\<lambda>i. Gate_expired now (Some i) g) (q_packets (qd_queues g ! 0))"

lemma child_dequeue:
  assumes "child_ok d g"
  shows "\<exists>r g'. qd_Dequeue TransmissonGateQdisc now g = Some (r, g') \<and> child_ok d g' \<and> qd_data g' = qd_data g \<and>
    r = (case child_live now g of [] \<Rightarrow> None | p # _ \<Rightarrow> if gate_releases now p g then Some p else None)"
proof -
  have g: "gate.qd_inv g" "qd_requeued g = None" using assms by (simp_all add: child_ok_def)
  from gate.dequeue_ok [OF g(1), of now] obtain r g' where
    d: "qd_Dequeue TransmissonGateQdisc now g = Some (r, g')" "gate.qd_inv g'" "qd_requeued g' = None" by blast
  have "gate_ok g" using g(1) by (simp add: gate.qd_inv_def)
  moreover have dq: "Gate_DoDequeue now g = Some (r, g')"
    using qd_Dequeue_unfold [OF d(1) g(2)] by (simp add: TransmissonGateQdisc_def)
  ultimately have "same_shape g' g" "r = (case child_live now g of [] \<Rightarrow> None | p # _ \<Rightarrow> if gate_releases now p g then Some p else None)"
    using Gate_DoDequeue_exact [of g now] by (auto simp: child_live_def)
  with d assms show ?thesis by (auto simp: child_ok_def same_shape_def)
qed

lemma child_ok_traces: "child_ok d (g\<lparr>qd_traces := ts\<rparr>) \<longleftrightarrow> child_ok d g"
proof -
  let ?h = "g\<lparr>qd_traces := ts\<rparr>"
  have q: "qd_peeked ?h = qd_peeked g" "qd_requeued ?h = qd_requeued g" "acct ?h = acct g" by (simp_all add: acct_def)
  have b: "body ?h = body g" by simp
  have "gate.in_disc ?h = gate.in_disc g" using gate.held_body [OF b] by (simp add: gate.in_disc_def peek_slot_def)
  moreover have "gate_ok ?h = gate_ok g" by (rule gate_ok_body [OF b])
  ultimately have "gate.qd_inv ?h = gate.qd_inv g" unfolding gate.qd_inv_def q by (simp add: books_cong [OF q(3)])
  then show ?thesis by (simp add: child_ok_def)
qed

lemma child_callbacks_body: "body (fold (child_callback now) ts qd) = body qd"
proof (induction ts arbitrary: qd)
  case (Cons t ts)
  have "body (child_callback now t q) = body q" for q :: "('a, 'b) qdisc"
    by (cases t) (auto simp: qd_Mark_def Let_def split: option.splits)
  with Cons show ?case by simp
qed simp

text \<open>The gates of a running shaper may exchange packets with the shaper as long as their state stays.\<close>

lemma shaper_ok_child:
  assumes "shaper_ok es t0 now qd" and "k < 8" and "child_ok (qd_data qd) g" and "qd_data g = qd_data (qd_classes qd ! k)"
    and "qd_classes q = (qd_classes qd)[k := g]" and "qd_data q = qd_data qd"
  shows "shaper_ok es t0 now q"
proof -
  have r: "running es t0 now qd" using assms(1) by (simp add: shaper_ok_def)
  note rd = runningD [OF r]
  have "\<forall>g \<in> set (qd_classes q). child_ok (qd_data q) g"
    using r assms(3) set_update_subset_insert [of "qd_classes qd" k g] by (auto simp: running_def assms(5,6))
  moreover have "tas_ok now q"
    using rd(1,2) assms(2,4) by (auto simp: tas_ok_def assms(5,6) nth_list_update)
  ultimately have "running es t0 now q" using r unfolding running_def by (simp add: assms(5,6))
  with assms(1) show ?thesis by (simp add: shaper_ok_def assms(6))
qed

lemma Child_Dequeue_ok:
  assumes "shaper_ok es t0 now qd" and k: "k < 8"
  shows "\<exists>r qd'. Child_Dequeue (tc_ops gate_child) now k qd = Some (r, qd') \<and> shaper_ok es t0 now qd' \<and>
    qd_data qd' = qd_data qd \<and> (\<forall>j. j \<noteq> k \<longrightarrow> qd_classes qd' ! j = qd_classes qd ! j) \<and>
    r = (case child_live now (qd_classes qd ! k) of [] \<Rightarrow> None
      | p # _ \<Rightarrow> if gate_releases now p (qd_classes qd ! k) then Some p else None)"
proof -
  let ?g = "qd_classes qd ! k"
  have r: "running es t0 now qd" using assms(1) by (simp add: shaper_ok_def)
  note rd = runningD [OF r]
  from child_dequeue [OF rd(3) [OF k], of now] obtain x g' where
    d: "qd_Dequeue TransmissonGateQdisc now ?g = Some (x, g')" "child_ok (qd_data qd) g'" "qd_data g' = qd_data ?g"
      "x = (case child_live now ?g of [] \<Rightarrow> None | p # _ \<Rightarrow> if gate_releases now p ?g then Some p else None)" by blast
  define h where "h = g'\<lparr>qd_traces := []\<rparr>"
  define q where "q = fold (child_callback now) (qd_traces g') (qd\<lparr>qd_classes := (qd_classes qd)[k := h]\<rparr>)"
  have "Child_Dequeue (tc_ops gate_child) now k qd = Some (x, q)"
    using d(1) k rd(2) by (simp add: Child_Dequeue_def gate_child_def qdisc_ops_of_def take_traces_def q_def h_def)
  moreover have b: "body q = body (qd\<lparr>qd_classes := (qd_classes qd)[k := h]\<rparr>)" unfolding q_def by (rule child_callbacks_body)
  then have q: "qd_classes q = (qd_classes qd)[k := h]" "qd_data q = qd_data qd" by (simp_all add: body_def)
  moreover have "child_ok (qd_data qd) h" "qd_data h = qd_data ?g" using d(2,3) by (simp_all add: h_def child_ok_traces)
  with shaper_ok_child [OF assms(1) k _ _ q] have "shaper_ok es t0 now q" by blast
  ultimately show ?thesis using d(4) by auto
qed

text \<open>Scheduling an event of the shaper itself.\<close>

lemma timer_ok_transmitting [simp]: "timer_ok now (d\<lparr>ts_transmitting := e\<rparr>) \<longleftrightarrow> timer_ok now d"
  by (simp add: timer_ok_def events_ok_def waits_def)

lemma shaper_ok_schedule:
  assumes ok: "shaper_ok es t0 now qd" and sch: "0 \<le> delay" "ev_Schedule now delay cb (qd_data qd) = Some (n, d1)"
  shows "shaper_ok es t0 now (qd\<lparr>qd_data := d1\<lparr>ts_transmitting := Some n\<rparr>\<rparr>)"
proof -
  let ?d = "qd_data qd" and ?q = "qd\<lparr>qd_data := d1\<lparr>ts_transmitting := Some n\<rparr>\<rparr>"
  have r: "running es t0 now qd" using ok by (simp add: shaper_ok_def)
  note rd = runningD [OF r]
  have t: "timer_ok now ?d" using rd(1) by (simp add: tas_ok_def)
  note sc = ev_Schedule_ok [OF t sch]
  note st = settingsD [OF settings_static [OF sc(7)]]
  have "synced (qd_data ?q) i" if "i < 8" for i
  proof -
    have "reRunning d1 i \<longleftrightarrow> reRunning ?d i" using t that sc by (auto simp: ev_IsRunning_iff timer_ok_def waits_def)
    moreover have "ev_IsRunning e (d1\<lparr>ts_transmitting := Some n\<rparr>) \<longleftrightarrow> ev_IsRunning e d1" for e
      by (simp add: ev_IsRunning_iff)
    moreover have "synced ?d i" using rd(1) that by (simp add: tas_ok_def)
    ultimately show ?thesis by (simp add: synced_def sc(6))
  qed
  then have "tas_ok now ?q" using rd(1,2) sc(1) st by (simp add: tas_ok_def sc(6))
  then have "running es t0 now ?q"
    using r st by (simp add: running_def child_ok_def Let_def)
  moreover have "follows es now (qd_data ?q) i \<longleftrightarrow> follows es now ?d i" for i
    by (simp add: follows_def st sc(6))
  ultimately show ?thesis using ok st by (simp add: shaper_ok_def)
qed

text \<open>A transmission that starts now and takes the given time lies within the windows of a gate.\<close>

definition in_window :: "schedule \<Rightarrow> net_config \<Rightarrow> nat \<Rightarrow> time \<Rightarrow> time \<Rightarrow> bool" where
  "in_window es c p now dur \<longleftrightarrow> (\<forall>u. now \<le> u \<and> u < now + dur \<longrightarrow> slot_bit es p (cycle_time c u))"

lemma gate_releases_in_window_of:
  assumes ok: "shaper_ok es t0 now qd" and k: "k < 8" and rel: "gate_releases now p (qd_classes qd ! k)"
  shows "in_window es (ts_currentConfig (qd_data qd)) k now (ts_txTime (qd_data qd) (it_size p))"
proof -
  let ?g = "qd_classes qd ! k" and ?e = "te_gateState (entry (qd_data qd) k)"
  note rd = runningD [OF conjunct1 [OF ok [unfolded shaper_ok_def]]]
  have "gd_gateState (qd_data ?g) = ?e" "gd_getNow (qd_data ?g) = None" "gd_txTime (qd_data ?g) = ts_txTime (qd_data qd)"
    using rd(1,2,3) k by (simp_all add: tas_ok_def child_ok_def)
  then have g: "gs_state ?e" "0 < gs_interval ?e \<longrightarrow> now + ts_txTime (qd_data qd) (it_size p) \<le> gs_interval ?e"
    using rel by (simp_all add: gate_releases_def Gate_GetDeviceTime_def)
  have f: "follows es now (qd_data qd) k" using ok k by (simp add: shaper_ok_def)
  show ?thesis
  proof (cases "gl_openingTimes (nc_gates (ts_currentConfig (qd_data qd)) ! k) = []")
    case True
    with f g(1) show ?thesis by (simp add: follows_def Let_def)
  next
    case False
    with f g show ?thesis by (simp add: follows_def Let_def in_window_def)
  qed
qed

text \<open>The packets a child holds in its main queue.\<close>

definition child_packets :: "gate_disc tas_disc \<Rightarrow> nat \<Rightarrow> queue_item list" where
  "child_packets qd k = q_packets (qd_queues (qd_classes qd ! k) ! 0)"

lemma child_packets_same: "same_packets q qd \<Longrightarrow> k < length (qd_classes qd) \<Longrightarrow> child_packets q k = child_packets qd k"
  by (auto simp: same_packets_def child_packets_def Gate_SetGateState_def)

lemma SetTransmitting_ok:
  assumes "shaper_ok es t0 now qd"
  shows "\<exists>qd'. SetTransmitting now item qd = Some qd' \<and> shaper_ok es t0 now qd'"
proof -
  note rd = runningD [OF conjunct1 [OF assms [unfolded shaper_ok_def]]]
  define s where "s = ts_txTime (qd_data qd) (it_size item) + (if ts_propagetiondelay (qd_data qd) > 0 then ts_propagetiondelay (qd_data qd) else 0)"
  have "0 \<le> s" using rd(4) by (simp add: s_def)
  then obtain n d1 where sch: "ev_Schedule now s CbRun (qd_data qd) = Some (n, d1)" using ev_Schedule_total by blast
  from shaper_ok_schedule [OF assms \<open>0 \<le> s\<close> sch] sch show ?thesis
    by (simp add: SetTransmitting_def Let_def s_def)
qed

lemma dequeue_refresh:
  assumes ok: "shaper_ok es t0 now qd"
  shows "\<exists>q1. (if b then ListExecute gate_child now qd else Some qd) = Some q1 \<and> shaper_ok es t0 now q1 \<and> same_packets q1 qd \<and>
    settings (qd_data q1) = settings (qd_data qd)"
proof (cases b)
  case True
  from ok have r: "running es t0 now qd" by (simp add: shaper_ok_def)
  from running_ListExecute [OF r] obtain q1 where q1: "ListExecute gate_child now qd = Some q1" "running es t0 now q1"
    "\<forall>i < 8. follows es now (qd_data q1) i" "same_packets q1 qd" "settings (qd_data q1) = settings (qd_data qd)" by blast
  moreover have "ts_prioMap (qd_data q1) = [0,1,2,3,4,5,6,7]" using settingsD(6) [OF q1(5)] ok by (simp add: shaper_ok_def)
  ultimately show ?thesis using True by (auto simp: shaper_ok_def)
qed (use ok same_packets_refl in auto)

lemma Tas_dequeue_loop_ok:
  assumes "n \<le> 8" and "shaper_ok es t0 now qd" and "ts_currentConfig (qd_data qd) = c" and "ts_txTime (qd_data qd) = tx"
  shows "\<exists>r qd'. Tas_dequeue_loop gate_child now n qd = Some (r, qd') \<and> shaper_ok es t0 now qd' \<and>
    (\<forall>item. r = Some item \<longrightarrow> (\<exists>p < n. item \<in> set (child_packets qd p) \<and> in_window es c p now (tx (it_size item))))"
  using assms
proof (induction n arbitrary: qd)
  case (Suc n)
  let ?b = "NextEvent (qd_data qd) n \<ge> 0 \<and> \<not> (NextEvent (qd_data qd) n > tas_DeviceTime now (qd_data qd))"
  from dequeue_refresh [OF Suc.prems(2), of ?b] obtain q1 where
    q1: "(if ?b then ListExecute gate_child now qd else Some qd) = Some q1" "shaper_ok es t0 now q1" "same_packets q1 qd"
      "settings (qd_data q1) = settings (qd_data qd)" by blast
  note st = settingsD [OF q1(4)]
  have n: "n < 8" "length (qd_classes qd) = 8"
    using Suc.prems(1) runningD(2) [OF conjunct1 [OF Suc.prems(2) [unfolded shaper_ok_def]]] by simp_all
  from Child_Dequeue_ok [OF q1(2) n(1)] obtain r q2 where
    q2: "Child_Dequeue (tc_ops gate_child) now n q1 = Some (r, q2)" "shaper_ok es t0 now q2" "qd_data q2 = qd_data q1"
      "\<forall>j. j \<noteq> n \<longrightarrow> qd_classes q2 ! j = qd_classes q1 ! j"
      "r = (case child_live now (qd_classes q1 ! n) of [] \<Rightarrow> None
        | p # _ \<Rightarrow> if gate_releases now p (qd_classes q1 ! n) then Some p else None)" by blast
  have pk: "child_packets q1 j = child_packets qd j" if "j < 8" for j using child_packets_same [OF q1(3)] that n(2) by simp
  show ?case
  proof (cases r)
    case None
    have "ts_currentConfig (qd_data q2) = c" "ts_txTime (qd_data q2) = tx" using q2(3) st Suc.prems(3,4) by simp_all
    from Suc.IH [OF _ q2(2) this] Suc.prems(1) obtain r' qd' where
      i: "Tas_dequeue_loop gate_child now n q2 = Some (r', qd')" "shaper_ok es t0 now qd'"
        "\<forall>item. r' = Some item \<longrightarrow> (\<exists>p < n. item \<in> set (child_packets q2 p) \<and> in_window es c p now (tx (it_size item)))" by auto
    have "child_packets q2 j = child_packets qd j" if "j < n" for j
      using pk [of j] q2(4) that n(1) by (simp add: child_packets_def)
    with i(3) have "\<forall>item. r' = Some item \<longrightarrow> (\<exists>p < Suc n. item \<in> set (child_packets qd p) \<and> in_window es c p now (tx (it_size item)))"
      by (metis less_Suc_eq)
    moreover have "Tas_dequeue_loop gate_child now (Suc n) qd = Some (r', qd')" using q1(1) q2(1) None i(1) by simp
    ultimately show ?thesis using i(2) by blast
  next
    case (Some item)
    from q2(5) Some obtain ps where l: "child_live now (qd_classes q1 ! n) = item # ps" "gate_releases now item (qd_classes q1 ! n)"
      by (auto split: list.splits if_splits)
    have "in_window es c n now (tx (it_size item))"
      using gate_releases_in_window_of [OF q1(2) n(1) l(2)] st Suc.prems(3,4) by simp
    moreover have "item \<in> set (child_live now (qd_classes q1 ! n))" using l(1) by simp
    then have "item \<in> set (child_packets q1 n)" by (auto simp: child_live_def child_packets_def dest: set_dropWhileD)
    then have "item \<in> set (child_packets qd n)" using pk [OF n(1)] by simp
    moreover obtain q3 where q3: "SetTransmitting now item q2 = Some q3" "shaper_ok es t0 now q3"
      using SetTransmitting_ok [OF q2(2)] by blast
    moreover have "Tas_dequeue_loop gate_child now (Suc n) qd = Some (Some item, q3)" using q1(1) q2(1) Some q3(1) by simp
    ultimately show ?thesis by blast
  qed
qed simp

lemma Tas_DoDequeue_ok:
  assumes "shaper_ok es t0 now qd"
  shows "\<exists>r qd'. Tas_DoDequeue gate_child now qd = Some (r, qd') \<and> shaper_ok es t0 now qd' \<and>
    (\<forall>item. r = Some item \<longrightarrow> (\<exists>p < 8. item \<in> set (child_packets qd p) \<and>
       in_window es (ts_currentConfig (qd_data qd)) p now (ts_txTime (qd_data qd) (it_size item))))"
proof (cases "ev_IsRunning (ts_transmitting (qd_data qd)) (qd_data qd)")
  case True
  with assms show ?thesis by (simp add: Tas_DoDequeue_def)
next
  case idle: False
  note rd = runningD [OF conjunct1 [OF assms [unfolded shaper_ok_def]]]
  show ?thesis
  proof (cases "ts_channelBusy (qd_data qd) now")
    case True
    let ?s = "ts_txTime (qd_data qd) (ts_Mtu (qd_data qd) div 2)"
    have "0 \<le> ?s" using rd(4) .
    then obtain n d1 where sch: "ev_Schedule now ?s CbRun (qd_data qd) = Some (n, d1)" using ev_Schedule_total by blast
    from shaper_ok_schedule [OF assms \<open>0 \<le> ?s\<close> sch] sch idle True show ?thesis
      by (simp add: Tas_DoDequeue_def)
  next
    case False
    with idle rd(2) have "Tas_DoDequeue gate_child now qd = Tas_dequeue_loop gate_child now 8 qd"
      by (simp add: Tas_DoDequeue_def)
    with Tas_dequeue_loop_ok [OF le_refl assms refl refl] show ?thesis by simp
  qed
qed

section \<open>Enqueueing\<close>

lemma Gate_DoEnqueue_data:
  assumes "gate_ok g" and "counts_fit item (queues_held g)"
  shows "\<exists>ok g'. Gate_DoEnqueue now item g = Some (ok, g') \<and> qd_data g' = qd_data g"
proof -
  from Gate_CheckLiveTimes_ok [OF assms(1), of now] obtain q1 where
    c: "Gate_CheckLiveTimes now g = Some q1" "gate_ok q1" "same_shape q1 g"
      "mset (queues_held g) = mset (expired_prefix now g @ queues_held q1)" by blast
  have fit: "counts_fit item (queues_held q1)"
    using assms(2) c(4) by (auto simp: counts_fit_def items_bytes_def sum_mset_sum_list [symmetric] size_mset [symmetric]
        simp del: size_mset)
  have u: "qs_unit (q_maxSize (qd_queues q1 ! 0)) = PACKETS" "queues_ok q1" "0 < length (qd_queues q1)"
    using c(2) by (auto simp: gate_ok_def)
  from InternalQueue_Enqueue_ok [OF u(2,3) fit, of now] obtain ok q2 where
    e: "InternalQueue_Enqueue now 0 item q1 = Some (ok, q2)" "same_shape q2 q1" by blast
  have "qd_data (qd_DropBeforeEnqueue item LIMIT_EXCEEDED_DROP q1) = qd_data q1"
    using body_simps(3) [of item LIMIT_EXCEEDED_DROP q1] by (simp add: body_def del: body_simps)
  with c(1,3) e u show ?thesis by (auto simp: Gate_DoEnqueue_def qs_equal_def same_shape_def)
qed

lemma child_enqueue:
  assumes "child_ok d g" and "counts_fit item (gate.in_disc g)" and "\<not> it_headerAdded item"
  shows "\<exists>ok g'. qd_Enqueue TransmissonGateQdisc now item g = Some (ok, g') \<and> child_ok d g' \<and> qd_data g' = qd_data g"
proof -
  have g: "gate.qd_inv g" "qd_requeued g = None" using assms(1) by (simp_all add: child_ok_def)
  from gate.enqueue_ok [OF g(1) assms(2,3), of now] obtain ok g' where
    e: "qd_Enqueue TransmissonGateQdisc now item g = Some (ok, g')" "gate.qd_inv g'" "frame g' = frame g" by blast
  let ?g0 = "count_received item g"
  have b: "body ?g0 = body g" by simp
  have "gate_ok ?g0" using g(1) gate_ok_body [OF b] by (simp add: gate.qd_inv_def)
  moreover have "counts_fit item (queues_held ?g0)"
    using assms(2) gate.held_body [OF b] g(2) by (simp add: gate.in_disc_no_requeue)
  ultimately obtain ok1 g1 where g1: "Gate_DoEnqueue now item ?g0 = Some (ok1, g1)" "qd_data g1 = qd_data ?g0"
    using Gate_DoEnqueue_data by blast
  have "qd_data g' = qd_data g1"
    using e(1) g1(1) by (auto simp: qd_Enqueue_def TransmissonGateQdisc_def SetTimeStamp_def Let_def split: if_splits)
  moreover have "qd_data ?g0 = qd_data g" using b by (simp add: body_def)
  moreover have "qd_requeued g' = None" using frameD [OF e(3)] g(2) by simp
  ultimately show ?thesis using e(1,2) assms(1) g1(2) by (auto simp: child_ok_def)
qed

lemma Child_Enqueue_ok:
  assumes "shaper_ok es t0 now qd" and k: "k < 8" and fit: "counts_fit item (gate.in_disc (qd_classes qd ! k))"
    and new: "\<not> it_headerAdded item"
  shows "\<exists>ok qd'. Child_Enqueue (tc_ops gate_child) now k item qd = Some (ok, qd') \<and> shaper_ok es t0 now qd'"
proof -
  let ?g = "qd_classes qd ! k"
  note rd = runningD [OF conjunct1 [OF assms(1) [unfolded shaper_ok_def]]]
  from child_enqueue [OF rd(3) [OF k] fit new, of now] obtain ok g' where
    d: "qd_Enqueue TransmissonGateQdisc now item ?g = Some (ok, g')" "child_ok (qd_data qd) g'" "qd_data g' = qd_data ?g"
    by blast
  define h where "h = g'\<lparr>qd_traces := []\<rparr>"
  define q where "q = fold (child_callback now) (qd_traces g') (qd\<lparr>qd_classes := (qd_classes qd)[k := h]\<rparr>)"
  have "Child_Enqueue (tc_ops gate_child) now k item qd = Some (ok, q)"
    using d(1) k rd(2) by (simp add: Child_Enqueue_def gate_child_def qdisc_ops_of_def take_traces_def q_def h_def)
  moreover have "body q = body (qd\<lparr>qd_classes := (qd_classes qd)[k := h]\<rparr>)" unfolding q_def by (rule child_callbacks_body)
  then have q: "qd_classes q = (qd_classes qd)[k := h]" "qd_data q = qd_data qd" by (simp_all add: body_def)
  moreover have "child_ok (qd_data qd) h" "qd_data h = qd_data ?g" using d(2,3) by (simp_all add: h_def child_ok_traces)
  with shaper_ok_child [OF assms(1) k _ _ q] have "shaper_ok es t0 now q" by blast
  ultimately show ?thesis by auto
qed

lemma shaper_ok_body:
  assumes "body q = body qd" and "shaper_ok es t0 now qd"
  shows "shaper_ok es t0 now q"
  using assms by (simp add: shaper_ok_def running_def tas_ok_def body_def)

lemma tas_class_less: "tas_class item qd < 8"
proof -
  have "unat (p AND 0x7) < 8" for p :: u8
  proof -
    have "p AND 0x7 \<le> 0x7" by (rule word_and_le1)
    then show ?thesis by (simp add: word_le_nat_alt)
  qed
  then show ?thesis by (auto simp: tas_class_def Let_def split: option.splits)
qed

lemma tas_retag_sel [simp]: "it_size (tas_retag k item) = it_size item" "it_headerAdded (tas_retag k item) = it_headerAdded item"
  by (simp_all add: tas_retag_def split: option.splits)

lemma Tas_DoEnqueue_ok:
  assumes ok: "shaper_ok es t0 now qd" and fit: "\<And>k. k < 8 \<Longrightarrow> counts_fit item (gate.in_disc (qd_classes qd ! k))"
    and new: "\<not> it_headerAdded item"
  shows "\<exists>b qd'. Tas_DoEnqueue gate_child now item qd = Some (b, qd') \<and> shaper_ok es t0 now qd'"
proof (cases "it_size item > ts_Mtu (qd_data qd)")
  case True
  have "shaper_ok es t0 now (qd_DropBeforeEnqueue item PAKET_SIZE_EXCEEDED_DROP qd)" by (rule shaper_ok_body [OF _ ok]) simp
  with True show ?thesis by (auto simp: Tas_DoEnqueue_def)
next
  case False
  note rd = runningD [OF conjunct1 [OF ok [unfolded shaper_ok_def]]]
  define k where "k = tas_class item qd"
  have k: "k < 8" unfolding k_def by (rule tas_class_less)
  then have "k \<in> {0,1,2,3,4,5,6,7}" by auto
  then have pm: "ts_prioMap (qd_data qd) ! k = k" using ok by (auto simp: shaper_ok_def)
  have "counts_fit (tas_retag k item) (gate.in_disc (qd_classes qd ! k))" using fit [OF k] by (simp add: counts_fit_def)
  from Child_Enqueue_ok [OF ok k this] new obtain b q1 where
    e: "Child_Enqueue (tc_ops gate_child) now k (tas_retag k item) qd = Some (b, q1)" "shaper_ok es t0 now q1" by auto
  from dequeue_refresh [OF e(2), of "b \<and> \<not> gs_state (te_gateState (entry (qd_data q1) k)) \<and> \<not> reRunning (qd_data q1) k"]
  obtain q2 where
    "(if b \<and> \<not> gs_state (te_gateState (entry (qd_data q1) k)) \<and> \<not> reRunning (qd_data q1) k
      then ListExecute gate_child now q1 else Some q1) = Some q2" "shaper_ok es t0 now q2" by blast
  with e(1) False pm show ?thesis by (simp add: Tas_DoEnqueue_def Let_def k_def [symmetric])
qed

section \<open>Reachable states\<close>

text \<open>The steps of a shaper in a simulation: time passes up to the next pending event, a pending event
  of the current time is taken out of the event list (its \<^verbatim>\<open>Run\<close> is the dequeue steps that follow), a
  packet is enqueued, a packet is dequeued.\<close>

inductive tas_step :: "time \<times> gate_disc tas_disc \<Rightarrow> time \<times> gate_disc tas_disc \<Rightarrow> bool" where
  pass: "now \<le> now' \<Longrightarrow> \<forall>(n, t, cb) \<in> set (ts_events (qd_data qd)). now' \<le> t \<Longrightarrow> tas_step (now, qd) (now', qd)"
| event: "(n, now, cb) \<in> set (ts_events (qd_data qd)) \<Longrightarrow> tas_step (now, qd) (now, tas_upd (ev_Cancel (Some n)) qd)"
| enqueue: "\<forall>k < 8. counts_fit item (gate.in_disc (qd_classes qd ! k)) \<Longrightarrow> \<not> it_headerAdded item \<Longrightarrow>
    Tas_DoEnqueue gate_child now item qd = Some (b, qd') \<Longrightarrow> tas_step (now, qd) (now, qd')"
| dequeue: "Tas_DoDequeue gate_child now qd = Some (r, qd') \<Longrightarrow> tas_step (now, qd) (now, qd')"

inductive_cases tas_stepE: "tas_step (now, qd) (now', qd')"

lemma shaper_ok_pass:
  assumes ok: "shaper_ok es t0 now qd" and le: "now \<le> now'" and ev: "\<forall>(n, t, cb) \<in> set (ts_events (qd_data qd)). now' \<le> t"
  shows "shaper_ok es t0 now' qd"
proof -
  have r: "running es t0 now qd" using ok by (simp add: shaper_ok_def)
  have "timer_ok now (qd_data qd)" using r by (simp add: running_def tas_ok_def)
  with ev have "timer_ok now' (qd_data qd)" by (auto simp: timer_ok_def events_ok_def)
  with r le have "running es t0 now' qd" by (auto simp: running_def tas_ok_def Let_def)
  moreover have "follows es now' (qd_data qd) i" if "follows es now (qd_data qd) i" for i
    using that le by (auto simp: follows_def Let_def split: if_splits)
  ultimately show ?thesis using ok by (simp add: shaper_ok_def)
qed

lemma shaper_ok_event:
  assumes ok: "shaper_ok es t0 now qd"
  shows "shaper_ok es t0 now (tas_upd (ev_Cancel (Some n)) qd)"
proof -
  let ?d = "qd_data qd" and ?d' = "ev_Cancel (Some n) (qd_data qd)"
  have r: "running es t0 now qd" using ok by (simp add: shaper_ok_def)
  then have t: "timer_ok now ?d" by (simp add: running_def tas_ok_def)
  note ev = ev_Cancel_ok [OF t, of n]
  note st = settingsD [OF settings_static [OF ev(5)]]
  have "ev_IsRunning e ?d" if "ev_IsRunning e ?d'" for e using that ev(2) by (auto simp: ev_IsRunning_iff)
  then have "synced ?d' i" if "synced ?d i" for i using that ev(3) by (auto simp: synced_def)
  then have "running es t0 now (tas_upd (ev_Cancel (Some n)) qd)"
    using r ev st by (simp add: running_def tas_ok_def tas_upd_def child_ok_def)
  moreover have "follows es now ?d' i \<longleftrightarrow> follows es now ?d i" for i by (simp add: follows_def st ev(3))
  ultimately show ?thesis using ok st by (simp add: shaper_ok_def tas_upd_def)
qed

lemma tas_step_ok: "tas_step (now, qd) (now', qd') \<Longrightarrow> shaper_ok es t0 now qd \<Longrightarrow> shaper_ok es t0 now' qd'"
proof (erule tas_stepE, goal_cases)
  case 1 then show ?case using shaper_ok_pass by blast
next
  case (2 n cb) then show ?case using shaper_ok_event by blast
next
  case (3 item b) then show ?case using Tas_DoEnqueue_ok [of es t0 now qd item] by fastforce
next
  case (4 r) then show ?case using Tas_DoDequeue_ok [of es t0 now qd] by fastforce
qed

lemma tas_steps_ok:
  "tas_step\<^sup>*\<^sup>* s s' \<Longrightarrow> shaper_ok es t0 (fst s) (snd s) \<Longrightarrow> shaper_ok es t0 (fst s') (snd s')"
  by (induction rule: rtranclp_induct) (use tas_step_ok in \<open>auto simp: split_paired_all\<close>)

section \<open>Setting up a shaper\<close>

text \<open>The shaper as its constructor leaves it, with the default attributes; the members that no
  constructor initialises are arguments.\<close>

definition new_TasQueueDisc :: "bool \<Rightarrow> nat list \<Rightarrow> (u32 \<Rightarrow> time) \<Rightarrow> gate_disc tas_disc" where
  "new_TasQueueDisc stopped prioMap txTime = (QueueDisc MULTIPLE_QUEUES DEFAULT_QUOTA
     \<lparr>ts_gateListConfig = replicate 8 GateListEntry, ts_prioMap = prioMap, ts_StoppAllQueues = stopped,
      ts_txTime = txTime, ts_Mtu = 1500, ts_propagetiondelay = - 1, ts_keepAliveTime = - 1,
      ts_pandingConfig = NetDeviceListConfig, ts_currentConfig = NetDeviceListConfig, ts_stopAllQEvent = None,
      ts_updateNDLCEvent = None, ts_getNow = None, ts_transmitting = None, ts_channelBusy = (\<lambda>_. False),
      ts_initialized = False, ts_events = [], ts_nextEventId = 0\<rparr>)
     \<lparr>qd_maxSize := \<lparr>qs_unit = PACKETS, qs_value = 800\<rparr>\<rparr>"

text \<open>Object construction sets the attribute \<^verbatim>\<open>NetDeviceListConfig\<close> to its default; the user then sets a
  configuration built from a schedule and installs the shaper.\<close>

definition tas_setup :: "time \<Rightarrow> bool \<Rightarrow> nat list \<Rightarrow> (u32 \<Rightarrow> time) \<Rightarrow> schedule \<Rightarrow> gate_disc tas_disc option" where
  "tas_setup now stopped prioMap txTime es = do {
     (_, q1) \<leftarrow> SetNetDeviceListConfig gate_child now NetDeviceListConfig (new_TasQueueDisc stopped prioMap txTime);
     c \<leftarrow> nc_build es NetDeviceListConfig;
     (_, q2) \<leftarrow> SetNetDeviceListConfig gate_child now c q1;
     Tas_DoInitialize now q2 }"

definition fresh :: "(u32 \<Rightarrow> time) \<Rightarrow> gate_disc tas_disc \<Rightarrow> bool" where
  "fresh tx qd \<longleftrightarrow> (let d = qd_data qd in ts_gateListConfig d = replicate 8 GateListEntry \<and> ts_events d = [] \<and>
     ts_getNow d = None \<and> \<not> ts_initialized d \<and> ts_txTime d = tx \<and> nc_epoch (ts_currentConfig d) = 0 \<and>
     qd_classes qd = [] \<and> qd_queues qd = [])"

lemma compiled_status [simp]: "compiled es (c\<lparr>nc_pandingStatus := s\<rparr>) \<longleftrightarrow> compiled es c"
  by (simp add: compiled_def)

lemma SetNetDeviceListConfig_fresh:
  assumes f: "fresh tx qd" "nc_length (ts_currentConfig (qd_data qd)) = 0" and c: "compiled es c" "nc_configChangeTime c = 0"
    and now: "0 \<le> now" "0 \<le> tx (ts_Mtu (qd_data qd))"
  shows "\<exists>qd'. SetNetDeviceListConfig gate_child now c qd = Some (False, qd') \<and> fresh tx qd' \<and>
    compiled es (ts_currentConfig (qd_data qd')) \<and> nc_configChangeTime (ts_currentConfig (qd_data qd')) = 0 \<and>
    \<not> ts_StoppAllQueues (qd_data qd') \<and> ts_Mtu (qd_data qd') = ts_Mtu (qd_data qd)"
proof -
  let ?d = "qd_data qd"
  from nc_Copy_compiled [OF c(1)] c(2) obtain p where
    p: "nc_Copy (ts_pandingConfig ?d) c = Some p" "compiled es p" "nc_configChangeTime p = 0" by metis
  let ?p = "p\<lparr>nc_pandingStatus := PANDING\<rparr>"
  have p': "compiled es ?p" using p(2) by simp
  from nc_Copy_compiled [OF p', of "ts_currentConfig ?d"] p(3) obtain k where
    k: "nc_Copy (ts_currentConfig ?d) ?p = Some k" "compiled es k" "nc_configChangeTime k = 0"
      "nc_epoch k = nc_epoch (ts_currentConfig ?d)" by auto
  show ?thesis
    using f p k now
    by (simp add: SetNetDeviceListConfig_def UpdateNetDeviceListConfig_def StopAllQueues_def tas_upd_def ev_Cancel_def
        Let_def fresh_def tas_DeviceTime_def)
qed

text \<open>An initialised gate: empty, open, with its two internal queues.\<close>

definition gate_init :: "(u32 \<Rightarrow> time) \<Rightarrow> time \<Rightarrow> gate_disc" where
  "gate_init tx keepAlive = (QueueDisc MULTIPLE_QUEUES DEFAULT_QUOTA
       \<lparr>gd_txTime = tx, gd_gateState = GateState, gd_getNow = None, gd_keepAliveTime = keepAlive\<rparr>)
     \<lparr>qd_maxSize := \<lparr>qs_unit = PACKETS, qs_value = 800\<rparr>,
      qd_queues := [QueueBase \<lparr>qs_unit = PACKETS, qs_value = 800\<rparr>, QueueBase \<lparr>qs_unit = PACKETS, qs_value = 1\<rparr>]\<rparr>"

lemma Gate_DoInitialize_new: "Gate_DoInitialize (new_TransmissonGateQdisc tx s None ka) = Some (gate_init tx ka)"
  by (simp add: Gate_DoInitialize_def Gate_CheckConfig_def new_TransmissonGateQdisc_def QueueDisc_def gate_init_def
      qd_GetMaxSize_def AddInternalQueue_def Gate_InitializeParams_def)

lemma gate_init_ok: "ts_txTime d = tx \<Longrightarrow> child_ok d (gate_init tx ka)"
proof -
  let ?g = "gate_init tx ka"
  have r: "qd_requeued ?g = None" by (simp add: gate_init_def QueueDisc_def)
  have "queues_held ?g = []" by (simp add: queues_held_def gate_init_def QueueDisc_def QueueBase_inv)
  with r have i: "gate.in_disc ?g = []" by (simp add: gate.in_disc_no_requeue)
  have "gate_ok ?g"
    by (simp add: gate_ok_def queues_ok_def gate_init_def QueueDisc_def QueueBase_inv) (simp add: QueueBase_def)
  with i have "gate.qd_inv ?g"
    by (simp add: gate.qd_inv_def books_def books_stats_def Stats_def gate_init_def QueueDisc_def)
  with r show "ts_txTime d = tx \<Longrightarrow> child_ok d ?g" by (simp add: child_ok_def) (simp add: gate_init_def QueueDisc_def)
qed

lemma Tas_add_gates_ok:
  "ts_getNow (qd_data qd) = None \<Longrightarrow> Tas_add_gates is qd =
     Some (qd\<lparr>qd_classes := qd_classes qd @ map (\<lambda>_. gate_init (ts_txTime (qd_data qd)) (ts_keepAliveTime (qd_data qd))) is\<rparr>)"
  by (induction "is" arbitrary: qd) (simp_all add: Gate_DoInitialize_new AddQueueDiscClass_def Let_def)

lemma Tas_DoInitialize_ok:
  assumes f: "fresh tx qd" and c: "compiled es (ts_currentConfig (qd_data qd))" "0 < cycle_length es"
    "nc_configChangeTime (ts_currentConfig (qd_data qd)) = 0" "\<not> ts_StoppAllQueues (qd_data qd)"
    and now: "0 \<le> now" "\<forall>n. 0 \<le> tx n"
  shows "\<exists>qd'. Tas_DoInitialize now qd = Some qd' \<and> shaper_ok es 0 now qd'"
proof -
  define g where "g = gate_init tx (ts_keepAliveTime (qd_data qd))"
  define q1 where "q1 = qd\<lparr>qd_classes := replicate 8 g\<rparr>"
  have "map (\<lambda>_. g) [0..<8] = replicate 8 g" by (simp add: map_replicate_const)
  then have 1: "Tas_CheckConfig qd = Some (True, q1)"
    using f Tas_add_gates_ok [of qd "[0..<8]"] by (simp add: Tas_CheckConfig_def fresh_def Let_def q1_def g_def)
  have d: "qd_data q1 = qd_data qd" "qd_classes q1 = replicate 8 g" by (simp_all add: q1_def)
  have e: "entry (qd_data qd) i = GateListEntry" if "i < 8" for i using f that by (simp add: fresh_def Let_def)
  have nr: "\<not> ev_IsRunning x (qd_data qd)" for x using f by (simp add: ev_IsRunning_iff fresh_def Let_def)
  have "events_ok now (qd_data qd)" using f by (simp add: events_ok_def fresh_def Let_def)
  moreover have "waits (qd_data qd) i" if "i < 8" for i using e [OF that] by (simp add: waits_def GateListEntry_def)
  ultimately have "timer_ok now (qd_data qd)" by (simp add: timer_ok_def)
  moreover have "gd_gateState (qd_data g) = te_gateState GateListEntry"
    by (simp add: g_def gate_init_def QueueDisc_def GateState_def GateListEntry_def)
  ultimately have "tas_ok now q1"
    using f e nr by (simp add: tas_ok_def d synced_def fresh_def Let_def)
  moreover have "child_ok (qd_data q1) g" using gate_init_ok f unfolding d by (simp add: g_def fresh_def Let_def)
  moreover have "nc_length (ts_currentConfig (qd_data qd)) = cycle_length es" using c(1) by (simp add: compiled_def)
  ultimately have r: "running es 0 now q1"
    using f c now unfolding running_def d by (simp add: fresh_def Let_def)
  from running_ListExecute [OF r] obtain q2 where q2: "ListExecute gate_child now q1 = Some q2" "running es 0 now q2"
    "\<forall>i < 8. follows es now (qd_data q2) i" "same_packets q2 q1" "settings (qd_data q2) = settings (qd_data q1)" by blast
  have l: "length (qd_classes q2) = 8" using q2(2) by (rule runningD(2))
  define f2 where "f2 = (\<lambda>d :: tas_data. (d\<lparr>ts_prioMap := tas_prioMap (length (qd_classes q2)) (ts_prioMap d), ts_StoppAllQueues := False\<rparr>)
    \<lparr>ts_initialized := True\<rparr>)"
  have "Tas_DoInitialize now qd = Some (tas_upd f2 q2)"
    using 1 q2(1) by (simp add: Tas_DoInitialize_def Tas_InitializeParams_def tas_upd_def f2_def)
  moreover have ev: "ts_events (f2 d) = ts_events d" "ts_gateListConfig (f2 d) = ts_gateListConfig d"
    "ts_nextEventId (f2 d) = ts_nextEventId d" "ts_currentConfig (f2 d) = ts_currentConfig d" "ts_getNow (f2 d) = ts_getNow d"
    "ts_txTime (f2 d) = ts_txTime d" "\<not> ts_StoppAllQueues (f2 d)" "ts_prioMap (f2 d) = [0,1,2,3,4,5,6,7]" for d
    by (simp_all add: f2_def l tas_prioMap_def)
  have f2: "timer_ok now (f2 d) \<longleftrightarrow> timer_ok now d" "synced (f2 d) i \<longleftrightarrow> synced d i" "child_ok (f2 d) g \<longleftrightarrow> child_ok d g" for d i g
    by (simp_all add: ev timer_ok_def events_ok_def waits_def synced_def ev_IsRunning_iff child_ok_def)
  have sel: "qd_classes (tas_upd f2 q2) = qd_classes q2" "qd_data (tas_upd f2 q2) = f2 (qd_data q2)" by (simp_all add: tas_upd_def)
  have "tas_ok now (tas_upd f2 q2) \<longleftrightarrow> tas_ok now q2" by (simp add: tas_ok_def sel ev f2)
  then have "running es 0 now (tas_upd f2 q2)"
    using q2(2) unfolding running_def sel f2 ev(4,6) by (simp add: ev(7) Let_def)
  moreover have "follows es now (f2 d) i \<longleftrightarrow> follows es now d i" for d i by (simp add: follows_def ev)
  ultimately show ?thesis using q2(3) by (simp add: shaper_ok_def tas_upd_def ev)
qed

lemma tas_setup_ok:
  assumes es: "schedule_ok es" "0 < cycle_length es" and now: "0 \<le> now" "\<forall>n. 0 \<le> tx n"
  shows "\<exists>qd. tas_setup now stopped pm tx es = Some qd \<and> shaper_ok es 0 now qd"
proof -
  let ?q = "new_TasQueueDisc stopped pm tx"
  have f: "fresh tx ?q" "nc_length (ts_currentConfig (qd_data ?q)) = 0" "nc_configChangeTime NetDeviceListConfig = 0"
    by (simp_all add: fresh_def new_TasQueueDisc_def QueueDisc_def NetDeviceListConfig_def)
  from SetNetDeviceListConfig_fresh [OF f(1,2) NetDeviceListConfig_compiled f(3) now(1) now(2) [rule_format]] obtain q1 where
    q1: "SetNetDeviceListConfig gate_child now NetDeviceListConfig ?q = Some (False, q1)" "fresh tx q1"
      "compiled [] (ts_currentConfig (qd_data q1))" by blast
  have l1: "nc_length (ts_currentConfig (qd_data q1)) = 0" using q1(3) by (simp add: compiled_def cycle_length_def)
  from nc_build_compiled [OF NetDeviceListConfig_compiled, of es] es(1) f(3) obtain c where
    c: "nc_build es NetDeviceListConfig = Some c" "compiled es c" "nc_configChangeTime c = 0" by auto
  from SetNetDeviceListConfig_fresh [OF q1(2) l1 c(2,3) now(1) now(2) [rule_format]] obtain q2 where
    q2: "SetNetDeviceListConfig gate_child now c q1 = Some (False, q2)" "fresh tx q2"
      "compiled es (ts_currentConfig (qd_data q2))" "nc_configChangeTime (ts_currentConfig (qd_data q2)) = 0"
      "\<not> ts_StoppAllQueues (qd_data q2)" by blast
  from Tas_DoInitialize_ok [OF q2(2,3) es(2) q2(4,5) now] q1(1) c(1) q2(1) show ?thesis by (simp add: tas_setup_def)
qed

section \<open>Properties\<close>





end
