(* ===== verification/Buffer_Model.thy ===== *)
theory Buffer_Model
  imports Sim_Prelude
begin

unbundle bit_operations_syntax

text \<open>
  Packet buffers (\<^verbatim>\<open>src/network/model/buffer.h\<close> and \<^verbatim>\<open>buffer.cc\<close>): byte sequences with a virtual zero
  area in the middle, stored in reference-counted memory blocks that several buffers share until one of
  them needs room that another may use. The heap maps addresses to blocks; buffers and iterators are
  values that hold an address. \<^term>\<open>None\<close> is a failed assertion or an access outside of a block.
  Offsets are natural numbers: the sums of offsets and sizes are assumed to stay below \<open>2 ^ 32\<close>.
\<close>

section \<open>State\<close>

record bdata =
  bd_count :: nat
  bd_size :: nat
  bd_dirtyStart :: nat
  bd_dirtyEnd :: nat
  bd_bytes :: "u8 list"

text \<open>\<^verbatim>\<open>bh_free\<close> is the free list, its back first; \<^verbatim>\<open>bh_junk\<close> gives the bytes a new block happens to hold.\<close>

record bheap =
  bh_data :: "nat \<rightharpoonup> bdata"
  bh_free :: "nat list"
  bh_next :: nat
  bh_junk :: "nat \<Rightarrow> nat \<Rightarrow> u8"
  g_maxSize :: nat
  g_recommendedStart :: nat

record buffer =
  b_data :: nat
  b_maxZeroAreaStart :: nat
  b_zeroAreaStart :: nat
  b_zeroAreaEnd :: nat
  b_start :: nat
  b_end :: nat

definition mem_read :: "nat \<Rightarrow> nat \<Rightarrow> u8 list \<Rightarrow> u8 list option" where
  "mem_read i n bs = (if n = 0 \<or> i + n \<le> length bs then Some (take n (drop i bs)) else None)"

definition mem_write :: "nat \<Rightarrow> u8 list \<Rightarrow> u8 list \<Rightarrow> u8 list option" where
  "mem_write i vs bs = (if vs = [] \<or> i + length vs \<le> length bs then Some (take i bs @ vs @ drop (i + length vs) bs) else None)"

definition upd_data :: "nat \<Rightarrow> (bdata \<Rightarrow> bdata) \<Rightarrow> bheap \<Rightarrow> bheap" where
  "upd_data a f h = h\<lparr>bh_data := (bh_data h)(a := map_option f (bh_data h a))\<rparr>"

definition heap_write :: "nat \<Rightarrow> nat \<Rightarrow> u8 list \<Rightarrow> bheap \<Rightarrow> bheap option" where
  "heap_write a i vs h = do {
     d \<leftarrow> bh_data h a;
     bs \<leftarrow> mem_write i vs (bd_bytes d);
     Some (upd_data a (\<lambda>d. d\<lparr>bd_bytes := bs\<rparr>) h) }"

definition heap_read :: "nat \<Rightarrow> nat \<Rightarrow> nat \<Rightarrow> bheap \<Rightarrow> u8 list option" where
  "heap_read a i n h = do { d \<leftarrow> bh_data h a; mem_read i n (bd_bytes d) }"

section \<open>Memory blocks\<close>

definition ALLOC_OVER_PROVISION :: nat where
  "ALLOC_OVER_PROVISION = 100"

definition Allocate :: "nat \<Rightarrow> bheap \<Rightarrow> nat \<times> bheap" where
  "Allocate req h = (let reqSize = (if req = 0 then 1 else req) + ALLOC_OVER_PROVISION; a = bh_next h in
     (a, h\<lparr>bh_data := (bh_data h)(a \<mapsto> \<lparr>bd_count = 1, bd_size = reqSize, bd_dirtyStart = 0, bd_dirtyEnd = 0,
            bd_bytes = map (bh_junk h a) [0..<reqSize]\<rparr>), bh_next := Suc a\<rparr>))"

definition Deallocate :: "nat \<Rightarrow> bheap \<Rightarrow> bheap option" where
  "Deallocate a h = (case bh_data h a of None \<Rightarrow> None
     | Some d \<Rightarrow> if bd_count d = 0 then Some (h\<lparr>bh_data := (bh_data h)(a := None)\<rparr>) else None)"

definition Recycle :: "nat \<Rightarrow> bheap \<Rightarrow> bheap option" where
  "Recycle a h = (case bh_data h a of None \<Rightarrow> None
     | Some d \<Rightarrow>
         if bd_count d \<noteq> 0 then None
         else let h1 = h\<lparr>g_maxSize := max (g_maxSize h) (bd_size d)\<rparr> in
           if bd_size d < g_maxSize h1 \<or> length (bh_free h1) > 1000 then Deallocate a h1
           else Some (h1\<lparr>bh_free := a # bh_free h1\<rparr>))"

fun Create_loop :: "nat \<Rightarrow> nat list \<Rightarrow> bheap \<Rightarrow> (nat \<times> bheap) option" where
  "Create_loop dataSize [] h = Some (Allocate dataSize h)"
| "Create_loop dataSize (a # free) h = (let h0 = h\<lparr>bh_free := free\<rparr> in case bh_data h0 a of None \<Rightarrow> None
     | Some d \<Rightarrow>
         if bd_size d \<ge> dataSize then Some (a, upd_data a (\<lambda>d. d\<lparr>bd_count := 1\<rparr>) h0)
         else do { h1 \<leftarrow> Deallocate a h0; Create_loop dataSize free h1 })"

definition Create :: "nat \<Rightarrow> bheap \<Rightarrow> (nat \<times> bheap) option" where
  "Create dataSize h = Create_loop dataSize (bh_free h) h"

text \<open>A reference to a block goes away.\<close>

definition release :: "nat \<Rightarrow> bheap \<Rightarrow> bheap option" where
  "release a h = (let h1 = upd_data a (\<lambda>d. d\<lparr>bd_count := bd_count d - 1\<rparr>) h in
     case bh_data h1 a of None \<Rightarrow> None
     | Some d \<Rightarrow> if bd_count d = 0 then Recycle a h1 else Some h1)"

section \<open>Buffers\<close>

definition set_dirty :: "buffer \<Rightarrow> bheap \<Rightarrow> bheap" where
  "set_dirty b h = upd_data (b_data b) (\<lambda>d. d\<lparr>bd_dirtyStart := b_start b, bd_dirtyEnd := b_end b\<rparr>) h"

definition Buffer_Initialize :: "nat \<Rightarrow> bheap \<Rightarrow> (buffer \<times> bheap) option" where
  "Buffer_Initialize zeroSize h = do {
     (a, h1) \<leftarrow> Create 0 h;
     d \<leftarrow> bh_data h1 a;
     let start = min (bd_size d) (g_recommendedStart h1);
     let b = \<lparr>b_data = a, b_maxZeroAreaStart = start, b_zeroAreaStart = start, b_zeroAreaEnd = start + zeroSize,
              b_start = start, b_end = start + zeroSize\<rparr>;
     Some (b, set_dirty b h1) }"

definition Buffer_copy :: "buffer \<Rightarrow> bheap \<Rightarrow> buffer \<times> bheap" where
  "Buffer_copy b h = (b\<lparr>b_maxZeroAreaStart := b_zeroAreaStart b\<rparr>, upd_data (b_data b) (\<lambda>d. d\<lparr>bd_count := bd_count d + 1\<rparr>) h)"

definition Buffer_assign :: "buffer \<Rightarrow> buffer \<Rightarrow> bheap \<Rightarrow> (buffer \<times> bheap) option" where
  "Buffer_assign b other h = do {
     h1 \<leftarrow> (if b_data b \<noteq> b_data other then do {
              h' \<leftarrow> release (b_data b) h;
              Some (upd_data (b_data other) (\<lambda>d. d\<lparr>bd_count := bd_count d + 1\<rparr>) h') }
            else Some h);
     Some (other, h1\<lparr>g_recommendedStart := max (g_recommendedStart h1) (b_maxZeroAreaStart b)\<rparr>) }"

definition Buffer_destroy :: "buffer \<Rightarrow> bheap \<Rightarrow> bheap option" where
  "Buffer_destroy b h = release (b_data b) (h\<lparr>g_recommendedStart := max (g_recommendedStart h) (b_maxZeroAreaStart b)\<rparr>)"

definition GetSize :: "buffer \<Rightarrow> nat" where
  "GetSize b = b_end b - b_start b"

definition GetInternalSize :: "buffer \<Rightarrow> nat" where
  "GetInternalSize b = b_zeroAreaStart b - b_start b + b_end b - b_zeroAreaEnd b"

definition GetInternalEnd :: "buffer \<Rightarrow> nat" where
  "GetInternalEnd b = b_end b - (b_zeroAreaEnd b - b_zeroAreaStart b)"

definition upd_max :: "buffer \<Rightarrow> buffer" where
  "upd_max b = b\<lparr>b_maxZeroAreaStart := max (b_maxZeroAreaStart b) (b_zeroAreaStart b)\<rparr>"

definition shift :: "int \<Rightarrow> buffer \<Rightarrow> buffer" where
  "shift delta b = b\<lparr>b_zeroAreaStart := nat (int (b_zeroAreaStart b) + delta), b_zeroAreaEnd := nat (int (b_zeroAreaEnd b) + delta),
     b_start := nat (int (b_start b) + delta), b_end := nat (int (b_end b) + delta)\<rparr>"

text \<open>The reallocation both directions share: a new block with the bytes of the buffer at an offset.\<close>

definition reallocate :: "nat \<Rightarrow> nat \<Rightarrow> buffer \<Rightarrow> bheap \<Rightarrow> (nat \<times> bheap) option" where
  "reallocate newSize offset b h = do {
     (a, h1) \<leftarrow> Create newSize h;
     vs \<leftarrow> heap_read (b_data b) (b_start b) (GetInternalSize b) h1;
     h2 \<leftarrow> heap_write a offset vs h1;
     h3 \<leftarrow> release (b_data b) h2;
     Some (a, h3) }"

definition AddAtStart :: "nat \<Rightarrow> buffer \<Rightarrow> bheap \<Rightarrow> (buffer \<times> bheap) option" where
  "AddAtStart start b h = do {
     d \<leftarrow> bh_data h (b_data b);
     let isDirty = (bd_count d > 1 \<and> b_start b > bd_dirtyStart d);
     (if b_start b \<ge> start \<and> \<not> isDirty then
        if bd_count d = 1 \<or> b_start b = bd_dirtyStart d then
          let b1 = b\<lparr>b_start := b_start b - start\<rparr> in
          Some (upd_max b1, upd_data (b_data b) (\<lambda>d. d\<lparr>bd_dirtyStart := b_start b1\<rparr>) h)
        else None
      else do {
        (a, h1) \<leftarrow> reallocate (GetInternalSize b + start) start b h;
        let b1 = shift (int start - int (b_start b)) (b\<lparr>b_data := a\<rparr>);
        let b2 = b1\<lparr>b_start := b_start b1 - start\<rparr>;
        Some (upd_max b2, set_dirty b2 h1) }) }"

definition AddAtEnd :: "nat \<Rightarrow> buffer \<Rightarrow> bheap \<Rightarrow> (buffer \<times> bheap) option" where
  "AddAtEnd end b h = do {
     d \<leftarrow> bh_data h (b_data b);
     let isDirty = (bd_count d > 1 \<and> b_end b < bd_dirtyEnd d);
     (if GetInternalEnd b + end \<le> bd_size d \<and> \<not> isDirty then
        if bd_count d = 1 \<or> b_end b = bd_dirtyEnd d then
          let b1 = b\<lparr>b_end := b_end b + end\<rparr> in
          Some (upd_max b1, upd_data (b_data b) (\<lambda>d. d\<lparr>bd_dirtyEnd := b_end b1\<rparr>) h)
        else None
      else do {
        (a, h1) \<leftarrow> reallocate (GetInternalSize b + end) 0 b h;
        let b1 = shift (- int (b_start b)) (b\<lparr>b_data := a\<rparr>);
        let b2 = b1\<lparr>b_end := b_end b1 + end\<rparr>;
        Some (upd_max b2, set_dirty b2 h1) }) }"

definition RemoveAtStart :: "nat \<Rightarrow> buffer \<Rightarrow> buffer" where
  "RemoveAtStart start b = (let newStart = b_start b + start; zs = b_zeroAreaStart b; ze = b_zeroAreaEnd b in upd_max
     (if newStart \<le> zs then b\<lparr>b_start := newStart\<rparr>
      else if newStart \<le> ze then
        let delta = newStart - zs in b\<lparr>b_start := zs, b_zeroAreaEnd := ze - delta, b_end := b_end b - delta\<rparr>
      else if newStart \<le> b_end b then
        let s = newStart - (ze - zs) in
        b\<lparr>b_start := s, b_end := b_end b - (ze - zs), b_zeroAreaStart := s, b_zeroAreaEnd := s\<rparr>
      else let e = b_end b - (ze - zs) in b\<lparr>b_end := e, b_start := e, b_zeroAreaEnd := e, b_zeroAreaStart := e\<rparr>))"

definition RemoveAtEnd :: "nat \<Rightarrow> buffer \<Rightarrow> buffer" where
  "RemoveAtEnd end b = (let newEnd = b_end b - min end (b_end b - b_start b) in upd_max
     (if newEnd > b_zeroAreaEnd b then b\<lparr>b_end := newEnd\<rparr>
      else if newEnd > b_zeroAreaStart b then b\<lparr>b_end := newEnd, b_zeroAreaEnd := newEnd\<rparr>
      else if newEnd > b_start b then b\<lparr>b_end := newEnd, b_zeroAreaEnd := newEnd, b_zeroAreaStart := newEnd\<rparr>
      else b\<lparr>b_end := b_start b, b_zeroAreaEnd := b_start b, b_zeroAreaStart := b_start b\<rparr>))"

text \<open>The subtraction of the source wraps around at 32 bits.\<close>

definition CreateFragment :: "nat \<Rightarrow> nat \<Rightarrow> buffer \<Rightarrow> bheap \<Rightarrow> buffer \<times> bheap" where
  "CreateFragment start len b h = (let (tmp, h1) = Buffer_copy b h in
     (RemoveAtEnd (nat ((int (GetSize b) - int (start + len)) mod 2 ^ 32)) (RemoveAtStart start tmp), h1))"

section \<open>Iterators\<close>

record biter =
  i_zeroStart :: nat
  i_zeroEnd :: nat
  i_dataStart :: nat
  i_dataEnd :: nat
  i_current :: nat
  i_data :: nat

definition It_Begin :: "buffer \<Rightarrow> biter" where
  "It_Begin b = \<lparr>i_zeroStart = b_zeroAreaStart b, i_zeroEnd = b_zeroAreaEnd b, i_dataStart = b_start b,
     i_dataEnd = b_end b, i_current = b_start b, i_data = b_data b\<rparr>"

definition It_End :: "buffer \<Rightarrow> biter" where
  "It_End b = (It_Begin b)\<lparr>i_current := b_end b\<rparr>"

definition It_Next :: "nat \<Rightarrow> biter \<Rightarrow> biter option" where
  "It_Next delta i = (if i_current i + delta \<le> i_dataEnd i then Some (i\<lparr>i_current := i_current i + delta\<rparr>) else None)"

definition It_Prev :: "nat \<Rightarrow> biter \<Rightarrow> biter option" where
  "It_Prev delta i = (if i_current i \<ge> delta then Some (i\<lparr>i_current := i_current i - delta\<rparr>) else None)"

definition It_CheckNoZero :: "nat \<Rightarrow> nat \<Rightarrow> biter \<Rightarrow> bool" where
  "It_CheckNoZero start end i \<longleftrightarrow> \<not> (start < i_dataStart i \<or> end > i_dataEnd i \<or>
     (end > i_zeroStart i \<and> start < i_zeroEnd i \<and> i_zeroEnd i \<noteq> i_zeroStart i \<and> start \<noteq> end))"

definition It_Check :: "nat \<Rightarrow> biter \<Rightarrow> bool" where
  "It_Check k i \<longleftrightarrow> k \<ge> i_dataStart i \<and> \<not> (k \<ge> i_zeroStart i \<and> k < i_zeroEnd i) \<and> k \<le> i_dataEnd i"

definition It_GetSize :: "biter \<Rightarrow> nat" where
  "It_GetSize i = i_dataEnd i - i_dataStart i"

definition It_GetRemainingSize :: "biter \<Rightarrow> nat" where
  "It_GetRemainingSize i = i_dataEnd i - i_current i"

text \<open>The position in the block: bytes after the zero area are stored without it.\<close>

definition It_pos :: "bool \<Rightarrow> biter \<Rightarrow> nat" where
  "It_pos before i = (if before then i_current i else i_current i - (i_zeroEnd i - i_zeroStart i))"

definition It_WriteU8 :: "u8 \<Rightarrow> biter \<Rightarrow> bheap \<Rightarrow> (biter \<times> bheap) option" where
  "It_WriteU8 x i h = (if It_Check (i_current i) i then do {
       h1 \<leftarrow> heap_write (i_data i) (It_pos (i_current i < i_zeroStart i) i) [x] h;
       Some (i\<lparr>i_current := i_current i + 1\<rparr>, h1) }
     else None)"

definition It_WriteU8_len :: "u8 \<Rightarrow> nat \<Rightarrow> biter \<Rightarrow> bheap \<Rightarrow> (biter \<times> bheap) option" where
  "It_WriteU8_len x len i h = (if It_CheckNoZero (i_current i) (i_current i + len) i then do {
       h1 \<leftarrow> heap_write (i_data i) (It_pos (i_current i \<le> i_zeroStart i) i) (replicate len x) h;
       Some (i\<lparr>i_current := i_current i + len\<rparr>, h1) }
     else None)"

text \<open>\<^verbatim>\<open>WriteHtonU16\<close> and \<^verbatim>\<open>WriteHtonU32\<close> store their bytes at once.\<close>

definition It_store :: "u8 list \<Rightarrow> biter \<Rightarrow> bheap \<Rightarrow> (biter \<times> bheap) option" where
  "It_store bs i h = (if It_CheckNoZero (i_current i) (i_current i + length bs) i then do {
       h1 \<leftarrow> heap_write (i_data i) (It_pos (i_current i + length bs \<le> i_zeroStart i) i) bs h;
       Some (i\<lparr>i_current := i_current i + length bs\<rparr>, h1) }
     else None)"

definition It_WriteHtonU16 :: "u16 \<Rightarrow> biter \<Rightarrow> bheap \<Rightarrow> (biter \<times> bheap) option" where
  "It_WriteHtonU16 x = It_store [ucast (drop_bit 8 x), ucast x]"

definition It_WriteHtonU32 :: "u32 \<Rightarrow> biter \<Rightarrow> bheap \<Rightarrow> (biter \<times> bheap) option" where
  "It_WriteHtonU32 x = It_store [ucast (drop_bit 24 x), ucast (drop_bit 16 x), ucast (drop_bit 8 x), ucast x]"

fun It_WriteU8s :: "u8 list \<Rightarrow> biter \<Rightarrow> bheap \<Rightarrow> (biter \<times> bheap) option" where
  "It_WriteU8s [] i h = Some (i, h)"
| "It_WriteU8s (x # xs) i h = do { (i1, h1) \<leftarrow> It_WriteU8 x i h; It_WriteU8s xs i1 h1 }"

definition It_WriteHtonU64 :: "u64 \<Rightarrow> biter \<Rightarrow> bheap \<Rightarrow> (biter \<times> bheap) option" where
  "It_WriteHtonU64 x = It_WriteU8s [ucast (drop_bit 56 x), ucast (drop_bit 48 x), ucast (drop_bit 40 x),
     ucast (drop_bit 32 x), ucast (drop_bit 24 x), ucast (drop_bit 16 x), ucast (drop_bit 8 x), ucast x]"

definition It_WriteU16 :: "u16 \<Rightarrow> biter \<Rightarrow> bheap \<Rightarrow> (biter \<times> bheap) option" where
  "It_WriteU16 x = It_WriteU8s [ucast x, ucast (drop_bit 8 x)]"

definition It_WriteU32 :: "u32 \<Rightarrow> biter \<Rightarrow> bheap \<Rightarrow> (biter \<times> bheap) option" where
  "It_WriteU32 x = It_WriteU8s [ucast x, ucast (drop_bit 8 x), ucast (drop_bit 16 x), ucast (drop_bit 24 x)]"

definition It_WriteU64 :: "u64 \<Rightarrow> biter \<Rightarrow> bheap \<Rightarrow> (biter \<times> bheap) option" where
  "It_WriteU64 x = It_WriteU8s [ucast x, ucast (drop_bit 8 x), ucast (drop_bit 16 x), ucast (drop_bit 24 x),
     ucast (drop_bit 32 x), ucast (drop_bit 40 x), ucast (drop_bit 48 x), ucast (drop_bit 56 x)]"

definition It_WriteHtolsbU16 :: "u16 \<Rightarrow> biter \<Rightarrow> bheap \<Rightarrow> (biter \<times> bheap) option" where
  "It_WriteHtolsbU16 x = It_WriteU8s [ucast (drop_bit 0 x), ucast (drop_bit 8 x)]"

definition It_WriteHtolsbU32 :: "u32 \<Rightarrow> biter \<Rightarrow> bheap \<Rightarrow> (biter \<times> bheap) option" where
  "It_WriteHtolsbU32 x = It_WriteU8s [ucast (drop_bit 0 x), ucast (drop_bit 8 x), ucast (drop_bit 16 x), ucast (drop_bit 24 x)]"

definition It_WriteHtolsbU64 :: "u64 \<Rightarrow> biter \<Rightarrow> bheap \<Rightarrow> (biter \<times> bheap) option" where
  "It_WriteHtolsbU64 x = It_WriteU8s [ucast (drop_bit 0 x), ucast (drop_bit 8 x), ucast (drop_bit 16 x), ucast (drop_bit 24 x),
     ucast (drop_bit 32 x), ucast (drop_bit 40 x), ucast (drop_bit 48 x), ucast (drop_bit 56 x)]"

text \<open>Writing an array. The check is the one of the source, whose second argument is the size and not
  the end of the written range.\<close>

definition It_Write :: "u8 list \<Rightarrow> biter \<Rightarrow> bheap \<Rightarrow> (biter \<times> bheap) option" where
  "It_Write bs i h = (if It_CheckNoZero (i_current i) (length bs) i then do {
       h1 \<leftarrow> heap_write (i_data i) (It_pos (i_current i \<le> i_zeroStart i) i) bs h;
       Some (i\<lparr>i_current := i_current i + length bs\<rparr>, h1) }
     else None)"

text \<open>Copying between two buffers, in three parts: before, in and after the zero area of the source. The
  position written in the destination is its virtual offset.\<close>

definition It_copy_part :: "nat \<Rightarrow> nat \<Rightarrow> nat \<Rightarrow> biter \<Rightarrow> biter \<Rightarrow> bheap \<Rightarrow> (biter \<times> biter \<times> bheap) option" where
  "It_copy_part from n sz src dst h = do {
     vs \<leftarrow> heap_read (i_data src) from n h;
     h1 \<leftarrow> heap_write (i_data dst) (i_current dst) vs h;
     Some (src\<lparr>i_current := i_current src + n\<rparr>, dst\<lparr>i_current := i_current dst + n\<rparr>, h1) }"

definition It_Write_range :: "biter \<Rightarrow> biter \<Rightarrow> biter \<Rightarrow> bheap \<Rightarrow> (biter \<times> bheap) option" where
  "It_Write_range start end dst h =
     (if i_data start = i_data end \<and> i_current start \<le> i_current end \<and> i_zeroStart start = i_zeroStart end \<and>
         i_zeroEnd start = i_zeroEnd end \<and> i_data dst \<noteq> i_data start \<and>
         It_CheckNoZero (i_current dst) (i_current dst + (i_current end - i_current start)) dst
      then do {
        let sz0 = i_current end - i_current start;
        let n1 = (if i_current start \<le> i_zeroStart start then min sz0 (i_zeroStart start - i_current start) else 0);
        (s1, d1, h1) \<leftarrow> (if i_current start \<le> i_zeroStart start then It_copy_part (i_current start) n1 sz0 start dst h
                       else Some (start, dst, h));
        let sz1 = sz0 - n1;
        let n2 = (if i_current s1 \<le> i_zeroEnd start then min sz1 (i_zeroEnd start - i_current s1) else 0);
        h2 \<leftarrow> heap_write (i_data dst) (i_current d1) (replicate n2 0) h1;
        let s2 = s1\<lparr>i_current := i_current s1 + n2\<rparr>; 
        let d2 = d1\<lparr>i_current := i_current d1 + n2\<rparr>;
        let n3 = min (sz1 - n2) (i_dataEnd start - i_current s2);
        (s3, d3, h3) \<leftarrow> It_copy_part (i_current s2 - (i_zeroEnd start - i_zeroStart start)) n3 sz1 s2 d2 h2;
        Some (d3, h3) }
      else None)"

section \<open>Reading\<close>

definition It_PeekU8 :: "biter \<Rightarrow> bheap \<Rightarrow> u8 option" where
  "It_PeekU8 i h = (if i_current i \<ge> i_dataStart i \<and> i_current i < i_dataEnd i then
       if i_zeroStart i \<le> i_current i \<and> i_current i < i_zeroEnd i then Some 0
       else map_option hd (heap_read (i_data i) (It_pos (i_current i < i_zeroStart i) i) 1 h)
     else None)"

definition It_ReadU8 :: "biter \<Rightarrow> bheap \<Rightarrow> (u8 \<times> biter) option" where
  "It_ReadU8 i h = map_option (\<lambda>x. (x, i\<lparr>i_current := i_current i + 1\<rparr>)) (It_PeekU8 i h)"

fun It_ReadU8s :: "nat \<Rightarrow> biter \<Rightarrow> bheap \<Rightarrow> (u8 list \<times> biter) option" where
  "It_ReadU8s 0 i h = Some ([], i)"
| "It_ReadU8s (Suc n) i h = do {
     (x, i1) \<leftarrow> It_ReadU8 i h;
     (xs, i2) \<leftarrow> It_ReadU8s n i1 h;
     Some (x # xs, i2) }"

definition word_of_msb :: "u8 list \<Rightarrow> 'a::len word" where
  "word_of_msb bs = fold (\<lambda>b w. push_bit 8 w OR ucast b) bs 0"

text \<open>The fast path of \<^verbatim>\<open>ReadNtohU16\<close> and \<^verbatim>\<open>ReadNtohU32\<close> reads the block without checking the end.\<close>

definition It_load :: "nat \<Rightarrow> biter \<Rightarrow> bheap \<Rightarrow> (u8 list \<times> biter) option" where
  "It_load n i h =
     (if i_current i + n \<le> i_zeroStart i then
        map_option (\<lambda>bs. (bs, i\<lparr>i_current := i_current i + n\<rparr>)) (heap_read (i_data i) (i_current i) n h)
      else if i_current i \<ge> i_zeroEnd i then
        map_option (\<lambda>bs. (bs, i\<lparr>i_current := i_current i + n\<rparr>)) (heap_read (i_data i) (It_pos False i) n h)
      else It_ReadU8s n i h)"

definition It_ReadNtohU16 :: "biter \<Rightarrow> bheap \<Rightarrow> (u16 \<times> biter) option" where
  "It_ReadNtohU16 i h = map_option (\<lambda>(bs, i1). (word_of_msb bs, i1)) (It_load 2 i h)"

definition It_ReadNtohU32 :: "biter \<Rightarrow> bheap \<Rightarrow> (u32 \<times> biter) option" where
  "It_ReadNtohU32 i h = map_option (\<lambda>(bs, i1). (word_of_msb bs, i1)) (It_load 4 i h)"

definition It_ReadNtohU64 :: "biter \<Rightarrow> bheap \<Rightarrow> (u64 \<times> biter) option" where
  "It_ReadNtohU64 i h = map_option (\<lambda>(bs, i1). (word_of_msb bs, i1)) (It_ReadU8s 8 i h)"

definition It_ReadU16 :: "biter \<Rightarrow> bheap \<Rightarrow> (u16 \<times> biter) option" where
  "It_ReadU16 i h = map_option (\<lambda>(bs, i1). (word_of_msb (rev bs), i1)) (It_ReadU8s 2 i h)"

definition It_ReadU32 :: "biter \<Rightarrow> bheap \<Rightarrow> (u32 \<times> biter) option" where
  "It_ReadU32 i h = map_option (\<lambda>(bs, i1). (word_of_msb (rev bs), i1)) (It_ReadU8s 4 i h)"

definition It_ReadU64 :: "biter \<Rightarrow> bheap \<Rightarrow> (u64 \<times> biter) option" where
  "It_ReadU64 i h = map_option (\<lambda>(bs, i1). (word_of_msb (rev bs), i1)) (It_ReadU8s 8 i h)"

definition It_ReadLsbtohU16 :: "biter \<Rightarrow> bheap \<Rightarrow> (u16 \<times> biter) option" where
  "It_ReadLsbtohU16 i h = map_option (\<lambda>(bs, i1). (word_of_msb (rev bs), i1)) (It_ReadU8s 2 i h)"

definition It_ReadLsbtohU32 :: "biter \<Rightarrow> bheap \<Rightarrow> (u32 \<times> biter) option" where
  "It_ReadLsbtohU32 i h = map_option (\<lambda>(bs, i1). (word_of_msb (rev bs), i1)) (It_ReadU8s 4 i h)"

definition It_ReadLsbtohU64 :: "biter \<Rightarrow> bheap \<Rightarrow> (u64 \<times> biter) option" where
  "It_ReadLsbtohU64 i h = map_option (\<lambda>(bs, i1). (word_of_msb (rev bs), i1)) (It_ReadU8s 8 i h)"

section \<open>Copies\<close>

definition CreateFullCopy :: "buffer \<Rightarrow> bheap \<Rightarrow> (buffer \<times> bheap) option" where
  "CreateFullCopy b h = (let zeroSize = b_zeroAreaEnd b - b_zeroAreaStart b in
     if zeroSize \<noteq> 0 then do {
       (t0, h0) \<leftarrow> Buffer_Initialize 0 h;
       (t1, h1) \<leftarrow> AddAtStart zeroSize t0 h0;
       (_, h2) \<leftarrow> It_WriteU8_len 0 zeroSize (It_Begin t1) h1;
       let dataStart = b_zeroAreaStart b - b_start b;
       (t3, h3) \<leftarrow> AddAtStart dataStart t1 h2;
       v \<leftarrow> heap_read (b_data b) (b_start b) dataStart h3;
       (_, h4) \<leftarrow> It_Write v (It_Begin t3) h3;
       let dataEnd = b_end b - b_zeroAreaEnd b;
       (t5, h5) \<leftarrow> AddAtEnd dataEnd t3 h4;
       i \<leftarrow> It_Prev dataEnd (It_End t5);
       w \<leftarrow> heap_read (b_data b) (b_zeroAreaStart b) dataEnd h5;
       (_, h6) \<leftarrow> It_Write w i h5;
       Some (t5, h6) }
     else Some (Buffer_copy b h))"

text \<open>The copy is assigned to the buffer and the temporary is destroyed, here and in \<^verbatim>\<open>*this = CreateFullCopy ()\<close>.\<close>

definition TransformIntoRealBuffer :: "buffer \<Rightarrow> bheap \<Rightarrow> (buffer \<times> bheap) option" where
  "TransformIntoRealBuffer b h = do {
     (tmp, h1) \<leftarrow> CreateFullCopy b h;
     (b2, h2) \<leftarrow> Buffer_assign b tmp h1;
     h3 \<leftarrow> Buffer_destroy tmp h2;
     Some (b2, h3) }"

text \<open>Appending another buffer; the first branch joins adjacent zero areas.\<close>

definition AddAtEnd_buffer :: "buffer \<Rightarrow> buffer \<Rightarrow> bheap \<Rightarrow> (buffer \<times> bheap) option" where
  "AddAtEnd_buffer other b h = do {
     d \<leftarrow> bh_data h (b_data b);
     (if bd_count d = 1 \<and> (b_end b = b_zeroAreaEnd b \<or> b_zeroAreaStart b = b_zeroAreaEnd b) \<and>
         b_end b = bd_dirtyEnd d \<and> b_start other = b_zeroAreaStart other \<and>
         b_zeroAreaEnd other - b_zeroAreaStart other > 0
      then do {
        let b1 = (if b_zeroAreaStart b = b_zeroAreaEnd b then b\<lparr>b_zeroAreaStart := b_end b\<rparr> else b);
        let zeroSize = b_zeroAreaEnd other - b_zeroAreaStart other;
        let b2 = b1\<lparr>b_zeroAreaEnd := b_end b1 + zeroSize, b_end := b_end b1 + zeroSize\<rparr>;
        let h2 = upd_data (b_data b) (\<lambda>d. d\<lparr>bd_dirtyEnd := b_zeroAreaEnd b2\<rparr>) h;
        let endData = b_end other - b_zeroAreaEnd other;
        (b3, h3) \<leftarrow> AddAtEnd endData b2 h2;
        dst \<leftarrow> It_Prev endData (It_End b3);
        src \<leftarrow> It_Prev endData (It_End other);
        (_, h4) \<leftarrow> It_Write_range src (It_End other) dst h3;
        Some (b3, h4) }
      else do {
        (b1, h1) \<leftarrow> TransformIntoRealBuffer b h;
        (b2, h2) \<leftarrow> AddAtEnd (GetSize other) b1 h1;
        destStart \<leftarrow> It_Prev (GetSize other) (It_End b2);
        (_, h3) \<leftarrow> It_Write_range (It_Begin other) (It_End other) destStart h2;
        Some (b2, h3) }) }"

text \<open>\<^verbatim>\<open>CopyData\<close> to an array, in three parts.\<close>

definition CopyData :: "nat \<Rightarrow> buffer \<Rightarrow> bheap \<Rightarrow> u8 list option" where
  "CopyData sz b h = (if sz > 0 then do {
       let n1 = min (b_zeroAreaStart b - b_start b) sz;
       v1 \<leftarrow> heap_read (b_data b) (b_start b) n1 h;
       (if sz - n1 > 0 then do {
          let n2 = min (b_zeroAreaEnd b - b_zeroAreaStart b) (sz - n1);
          (if sz - n1 - n2 > 0 then do {
             let n3 = min (b_end b - b_zeroAreaEnd b) (sz - n1 - n2);
             v3 \<leftarrow> heap_read (b_data b) (b_zeroAreaStart b) n3 h;
             Some (v1 @ replicate n2 0 @ v3) }
           else Some (v1 @ replicate n2 0)) }
        else Some v1) }
     else Some [])"

section \<open>Serialization\<close>

text \<open>A byte array holds 32-bit words in host order, little endian here. The returned array keeps the
  padding bytes it had.\<close>

definition le32 :: "nat \<Rightarrow> u8 list" where
  "le32 n = [word_of_nat n, word_of_nat (n div 256), word_of_nat (n div 65536), word_of_nat (n div 16777216)]"

definition load32 :: "nat \<Rightarrow> u8 list \<Rightarrow> nat option" where
  "load32 p bs = map_option (\<lambda>xs. foldr (\<lambda>x acc. unat x + 256 * acc) xs 0) (mem_read p 4 bs)"

definition pad4 :: "nat \<Rightarrow> nat" where
  "pad4 n = (n + 3) div 4 * 4"

definition sub32 :: "nat \<Rightarrow> nat \<Rightarrow> nat" where
  "sub32 a b = (a + 2 ^ 32 - b) mod 2 ^ 32"

definition GetSerializedSize :: "buffer \<Rightarrow> nat" where
  "GetSerializedSize b = (let dataStart = pad4 (b_zeroAreaStart b - b_start b);
     dataEnd = pad4 (b_end b - b_zeroAreaEnd b) in 4 + 4 + dataStart + 4 + dataEnd)"

definition Serialize :: "u8 list \<Rightarrow> nat \<Rightarrow> buffer \<Rightarrow> bheap \<Rightarrow> (nat \<times> u8 list) option" where
  "Serialize m0 maxSize b h = (if \<not> 4 \<le> maxSize then Some (0, m0) else do {
     m1 \<leftarrow> mem_write 0 (le32 (b_zeroAreaEnd b - b_zeroAreaStart b)) m0;
     let n = b_zeroAreaStart b - b_start b;
     (if \<not> 8 \<le> maxSize then Some (0, m1) else do {
       m2 \<leftarrow> mem_write 4 (le32 n) m1;
       (if \<not> 8 + pad4 n \<le> maxSize then Some (0, m2) else do {
         v \<leftarrow> heap_read (b_data b) (b_start b) n h;
         m3 \<leftarrow> mem_write 8 v m2;
         let e = b_end b - b_zeroAreaEnd b;
         (if \<not> 8 + pad4 n + 4 \<le> maxSize then Some (0, m3) else do {
           m4 \<leftarrow> mem_write (8 + pad4 n) (le32 e) m3;
           (if \<not> 8 + pad4 n + 4 + pad4 e \<le> maxSize then Some (0, m4) else do {
             w \<leftarrow> heap_read (b_data b) (b_zeroAreaStart b) e h;
             m5 \<leftarrow> mem_write (8 + pad4 n + 4) w m4;
             Some (1, m5) }) }) }) }) })"

definition Deserialize :: "u8 list \<Rightarrow> nat \<Rightarrow> bheap \<Rightarrow> (nat \<times> buffer \<times> bheap) option" where
  "Deserialize m sz h = (let s0 = sub32 sz 4 in if \<not> 4 \<le> s0 then None else do {
     z \<leftarrow> load32 0 m;
     (b0, h0) \<leftarrow> Buffer_Initialize z h;
     let s1 = s0 - 4;
     (if \<not> 4 \<le> s1 then None else do {
       n \<leftarrow> load32 4 m;
       let s2 = s1 - 4;
       (b1, h1) \<leftarrow> AddAtStart n b0 h0;
       (if \<not> n \<le> s2 then None else do {
         v \<leftarrow> mem_read 8 n m;
         (_, h2) \<leftarrow> It_Write v (It_Begin b1) h1;
         let s3 = sub32 s2 (pad4 n);
         (if \<not> 4 \<le> s3 then None else do {
           e \<leftarrow> load32 (8 + pad4 n) m;
           let s4 = s3 - 4;
           (b2, h3) \<leftarrow> AddAtEnd e b1 h2;
           (if \<not> e \<le> s4 then None else do {
             i \<leftarrow> It_Prev e (It_End b2);
             w \<leftarrow> mem_read (12 + pad4 n) e m;
             (_, h4) \<leftarrow> It_Write w i h3;
             (if sub32 s4 (pad4 e) = 0 then Some (1, b2, h4) else None) }) }) }) }) })"

definition PeekData :: "buffer \<Rightarrow> bheap \<Rightarrow> (u8 list \<times> buffer \<times> bheap) option" where
  "PeekData b h = do {
     (b1, h1) \<leftarrow> TransformIntoRealBuffer b h;
     v \<leftarrow> heap_read (b_data b1) (b_start b1) (GetSize b1) h1;
     Some (v, b1, h1) }"

text \<open>The Internet checksum over \<^verbatim>\<open>size\<close> bytes; the fold of the carries ends because a 32-bit sum needs
  at most two rounds.\<close>

fun sum_words :: "nat \<Rightarrow> u32 \<Rightarrow> biter \<Rightarrow> bheap \<Rightarrow> (u32 \<times> biter) option" where
  "sum_words 0 acc i h = Some (acc, i)"
| "sum_words (Suc n) acc i h = do { (w, i1) \<leftarrow> It_ReadU16 i h; sum_words n (acc + ucast w) i1 h }"

partial_function (option) fold_carries :: "u32 \<Rightarrow> u32 option" where
  "fold_carries acc = (if drop_bit 16 acc \<noteq> 0 then fold_carries ((acc AND 0xffff) + drop_bit 16 acc) else Some acc)"

declare fold_carries.simps [code]

definition CalculateIpChecksum :: "u16 \<Rightarrow> u32 \<Rightarrow> biter \<Rightarrow> bheap \<Rightarrow> (u16 \<times> biter) option" where
  "CalculateIpChecksum sz initialChecksum i h = do {
     (s1, i1) \<leftarrow> sum_words (unat sz div 2) initialChecksum i h;
     (s2, i2) \<leftarrow> (if odd (unat sz) then map_option (\<lambda>(x, i2). (s1 + ucast x, i2)) (It_ReadU8 i1 h) else Some (s1, i1));
     s3 \<leftarrow> fold_carries s2;
     Some (NOT (ucast s3), i2) }"

end
