(* ===== verification/Buffer_Sharing.thy ===== *)
theory Buffer_Sharing
  imports Buffer_Model
begin

text \<open>
  The ownership discipline of the packet buffers: the reference counts are the numbers of references, no
  block leaks, the buffers that share a block never see each other's writes, and every operation of a
  buffer is an operation on the list of its bytes. The first part is about blocks and references
  (\<^verbatim>\<open>Create\<close>, \<^verbatim>\<open>Recycle\<close>), the second about the offsets and the dirty area of a block.
\<close>

section \<open>References\<close>

text \<open>The references held by the live buffers are the multiset \<open>A\<close>. Every block is referenced or free.\<close>

definition block :: "bheap \<Rightarrow> nat \<Rightarrow> bdata option" where
  "block h a = map_option (bd_count_update (\<lambda>_. 0)) (bh_data h a)"

definition refs_ok :: "bheap \<Rightarrow> nat multiset \<Rightarrow> bool" where
  "refs_ok h A \<longleftrightarrow> distinct (bh_free h) \<and> (\<forall>a\<in>set (bh_free h). a \<notin># A) \<and>
     (\<forall>a. bh_data h a \<noteq> None \<longleftrightarrow> a \<in># A \<or> a \<in> set (bh_free h)) \<and>
     (\<forall>a d. bh_data h a = Some d \<longrightarrow> bd_count d = count A a \<and> length (bd_bytes d) = bd_size d \<and> a < bh_next h)"

named_theorems heap_simps \<open>unfolding rules of blocks and heaps\<close>

lemma refs_okD:
  assumes "refs_ok h A"
  shows "distinct (bh_free h)" "a \<in> set (bh_free h) \<Longrightarrow> a \<notin># A"
    "a \<in> set (bh_free h) \<Longrightarrow> \<exists>d. bh_data h a = Some d" "a \<in># A \<Longrightarrow> \<exists>d. bh_data h a = Some d"
    "bh_data h a = Some d \<Longrightarrow> bd_count d = count A a"
    "bh_data h a = Some d \<Longrightarrow> length (bd_bytes d) = bd_size d"
    "bh_data h a = Some d \<Longrightarrow> a < bh_next h"
    "bh_data h a = Some d \<Longrightarrow> a \<in># A \<or> a \<in> set (bh_free h)"
  using assms by (auto simp: refs_ok_def)

lemma block_cong: "bh_data h' a = bh_data h a \<Longrightarrow> block h' a = block h a"
  by (simp add: block_def)

lemma block_SomeD:
  assumes "block h' a = block h a" and "bh_data h a = Some d"
  obtains d' where "bh_data h' a = Some d'" "bd_size d' = bd_size d" "bd_dirtyStart d' = bd_dirtyStart d"
    "bd_dirtyEnd d' = bd_dirtyEnd d" "bd_bytes d' = bd_bytes d"
proof -
  from assms obtain d' where d': "bh_data h' a = Some d'"
    and "bd_count_update (\<lambda>_. 0) d' = bd_count_update (\<lambda>_. 0) d"
    unfolding block_def by auto
  then show ?thesis using that [OF d'] by (cases d; cases d') simp
qed

lemma upd_data_apply [simp]:
  "bh_data (upd_data a f h) x = (if x = a then map_option f (bh_data h a) else bh_data h x)"
  "bh_free (upd_data a f h) = bh_free h" "bh_next (upd_data a f h) = bh_next h"
  "g_maxSize (upd_data a f h) = g_maxSize h" "g_recommendedStart (upd_data a f h) = g_recommendedStart h"
  "bh_junk (upd_data a f h) = bh_junk h"
  by (auto simp: upd_data_def)

lemma refs_ok_upd_data:
  assumes "refs_ok h A" and "\<And>d. bd_count (f d) = bd_count d" and "\<And>d. bd_size (f d) = bd_size d"
    and "\<And>d. bh_data h a = Some d \<Longrightarrow> length (bd_bytes (f d)) = length (bd_bytes d)"
  shows "refs_ok (upd_data a f h) A"
  using assms unfolding refs_ok_def by (auto split: if_splits)

lemma refs_ok_globals:
  assumes "refs_ok h A" and "bh_data h' = bh_data h" and "bh_free h' = bh_free h" and "bh_next h' = bh_next h"
  shows "refs_ok h' A"
  using assms by (simp add: refs_ok_def)

lemma block_globals: "bh_data h' = bh_data h \<Longrightarrow> block h' = block h"
  by (simp add: block_def fun_eq_iff)

subsection \<open>Taking a block\<close>

lemma Allocate_refs:
  assumes A: "refs_ok h A" and e: "Allocate n h = (a, h1)"
  shows "refs_ok h1 (add_mset a A)" "a \<notin># A" "\<forall>x\<in>#A. bh_data h1 x = bh_data h x"
    "\<exists>d. bh_data h1 a = Some d \<and> n \<le> bd_size d \<and> bd_count d = 1"
    "g_recommendedStart h1 = g_recommendedStart h" "bh_junk h1 = bh_junk h"
proof -
  have a: "a = bh_next h" using e by (simp add: Allocate_def Let_def)
  have new: "bh_data h a = None" using refs_okD(7) [OF A] a by (cases "bh_data h a") auto
  then show nA: "a \<notin># A" using refs_okD(4) [OF A, of a] by auto
  have nf: "a \<notin> set (bh_free h)" using refs_okD(3) [OF A, of a] new by auto
  show "refs_ok h1 (add_mset a A)"
    using e A nf nA count_eq_zero_iff [of A a] unfolding refs_ok_def Allocate_def
    by (simp add: Let_def a) (auto split: if_splits intro: less_SucI simp: less_Suc_eq)
  show "\<forall>x\<in>#A. bh_data h1 x = bh_data h x" using e nA by (auto simp: Allocate_def Let_def a)
  show "\<exists>d. bh_data h1 a = Some d \<and> n \<le> bd_size d \<and> bd_count d = 1"
    using e by (auto simp: Allocate_def Let_def ALLOC_OVER_PROVISION_def)
  show "g_recommendedStart h1 = g_recommendedStart h" "bh_junk h1 = bh_junk h"
    using e by (auto simp: Allocate_def Let_def)
qed

lemma Create_loop_refs:
  assumes "refs_ok h A" and "bh_free h = fs"
  shows "\<exists>a h1. Create_loop n fs h = Some (a, h1) \<and> refs_ok h1 (add_mset a A) \<and> a \<notin># A \<and>
     (\<forall>x\<in>#A. bh_data h1 x = bh_data h x) \<and> (\<exists>d. bh_data h1 a = Some d \<and> n \<le> bd_size d) \<and>
     g_recommendedStart h1 = g_recommendedStart h"
  using assms
proof (induction n fs h rule: Create_loop.induct)
  case (1 n h)
  obtain a h1 where e: "Allocate n h = (a, h1)" by fastforce
  show ?case using Allocate_refs [OF 1(1) e] e by auto
next
  case (2 n a fs h)
  let ?h0 = "h\<lparr>bh_free := fs\<rparr>"
  obtain d where d: "bh_data h a = Some d" using refs_okD(3) [OF 2(2), of a] 2(3) by auto
  have aA: "a \<notin># A" using refs_okD(2) [OF 2(2), of a] 2(3) by simp
  have c0: "bd_count d = 0" using refs_okD(5) [OF 2(2) d] aA by (simp add: not_in_iff)
  have af: "a \<notin> set fs" using refs_okD(1) [OF 2(2)] 2(3) by simp
  show ?case
  proof (cases "n \<le> bd_size d")
    case True
    define h1 where "h1 = upd_data a (\<lambda>d. d\<lparr>bd_count := 1\<rparr>) ?h0"
    have "refs_ok h1 (add_mset a A)"
      using 2(2,3) d aA af unfolding h1_def refs_ok_def by (auto simp: not_in_iff split: if_splits)
    moreover have "Create_loop n (a # fs) h = Some (a, h1)" using d True by (simp add: h1_def)
    moreover have "\<forall>x\<in>#A. bh_data h1 x = bh_data h x" using aA by (auto simp: h1_def)
    moreover have "\<exists>d. bh_data h1 a = Some d \<and> n \<le> bd_size d" using d True by (simp add: h1_def)
    moreover have "g_recommendedStart h1 = g_recommendedStart h" by (simp add: h1_def)
    ultimately show ?thesis using aA by blast
  next
    case False
    define h1 where "h1 = ?h0\<lparr>bh_data := (bh_data h)(a := None)\<rparr>"
    have D: "Deallocate a ?h0 = Some h1" using d c0 by (simp add: Deallocate_def h1_def)
    have r: "refs_ok h1 A" using 2(2,3) d aA af unfolding h1_def refs_ok_def by (auto split: if_splits)
    have f: "bh_free h1 = fs" by (simp add: h1_def)
    obtain b h2 where *: "Create_loop n fs h1 = Some (b, h2)" "refs_ok h2 (add_mset b A)" "b \<notin># A"
      "\<forall>x\<in>#A. bh_data h2 x = bh_data h1 x" "\<exists>d. bh_data h2 b = Some d \<and> n \<le> bd_size d"
      "g_recommendedStart h2 = g_recommendedStart h1"
      using 2(1) [OF refl _ False D r f] d by auto
    have "Create_loop n (a # fs) h = Some (b, h2)" using * d False D by simp
    moreover have "\<forall>x\<in>#A. bh_data h2 x = bh_data h x" using *(4) aA by (auto simp: h1_def)
    moreover have "g_recommendedStart h2 = g_recommendedStart h" using *(6) by (simp add: h1_def)
    ultimately show ?thesis using * by blast
  qed
qed

lemma Create_refs:
  assumes "refs_ok h A"
  obtains a h1 d where "Create n h = Some (a, h1)" "refs_ok h1 (add_mset a A)" "a \<notin># A"
    "\<And>x. x \<in># A \<Longrightarrow> bh_data h1 x = bh_data h x" "bh_data h1 a = Some d" "n \<le> bd_size d"
    "g_recommendedStart h1 = g_recommendedStart h"
  using Create_loop_refs [OF assms refl, of n] unfolding Create_def by blast

subsection \<open>Dropping a reference\<close>

lemma release_refs:
  assumes A: "refs_ok h (add_mset a A)"
  obtains h1 where "release a h = Some h1" "refs_ok h1 A" "\<And>x. x \<in># A \<Longrightarrow> block h1 x = block h x"
    "g_recommendedStart h1 = g_recommendedStart h"
proof -
  obtain d where d: "bh_data h a = Some d" using refs_okD(4) [OF A, of a] by auto
  have c: "bd_count d = Suc (count A a)" using refs_okD(5) [OF A d] by simp
  have nf: "a \<notin> set (bh_free h)" using refs_okD(2) [OF A, of a] by auto
  define h1 where "h1 = upd_data a (\<lambda>d. d\<lparr>bd_count := bd_count d - 1\<rparr>) h"
  have b1: "block h1 x = block h x" for x by (cases "x = a") (auto simp: block_def h1_def d)
  show ?thesis
  proof (cases "a \<in># A")
    case True
    have "release a h = Some h1" using d c True
      by (simp add: count_eq_zero_iff release_def h1_def Let_def)
    moreover have "refs_ok h1 A"
      using A c d True nf unfolding refs_ok_def h1_def by (auto split: if_splits)
    moreover have "g_recommendedStart h1 = g_recommendedStart h" by (simp add: h1_def)
    ultimately show ?thesis using that b1 by blast
  next
    case False
    then have c0: "bd_count d = Suc 0" using c by (simp add: not_in_iff)
    let ?h2 = "h1\<lparr>g_maxSize := max (g_maxSize h1) (bd_size d)\<rparr>"
    let ?d = "d\<lparr>bd_count := 0\<rparr>"
    have R: "release a h = Recycle a h1" using d c0 by (simp add: release_def h1_def Let_def)
    have d1: "bh_data h1 a = Some ?d" using d c0 by (simp add: h1_def)
    show ?thesis
    proof (cases "bd_size d < g_maxSize ?h2 \<or> length (bh_free ?h2) > 1000")
      case True
      let ?h3 = "?h2\<lparr>bh_data := (bh_data h1)(a := None)\<rparr>"
      have "release a h = Some ?h3"
        using R d1 True by (auto simp: Recycle_def Deallocate_def Let_def)
      moreover have "refs_ok ?h3 A"
        using A nf False unfolding refs_ok_def h1_def by (auto split: if_splits)
      moreover have "block ?h3 x = block h x" if "x \<in># A" for x
        using False that b1 [of x] by (auto simp: block_def)
      moreover have "g_recommendedStart ?h3 = g_recommendedStart h" by (simp add: h1_def)
      ultimately show ?thesis using that by blast
    next
      case F: False
      let ?h3 = "?h2\<lparr>bh_free := a # bh_free h1\<rparr>"
      have "release a h = Some ?h3" using R d1 F by (auto simp: Recycle_def Let_def)
      moreover have "refs_ok ?h3 A"
        using A nf False d c0 unfolding refs_ok_def h1_def by (auto simp: not_in_iff split: if_splits)
      moreover have "block ?h3 x = block h x" for x using b1 [of x] by (simp add: block_def)
      moreover have "g_recommendedStart ?h3 = g_recommendedStart h" by (simp add: h1_def)
      ultimately show ?thesis using that by blast
    qed
  qed
qed

lemma retain_refs:
  assumes A: "refs_ok h A" and a: "a \<in># A"
  shows "refs_ok (upd_data a (\<lambda>d. d\<lparr>bd_count := bd_count d + 1\<rparr>) h) (add_mset a A)"
    and "block (upd_data a (\<lambda>d. d\<lparr>bd_count := bd_count d + 1\<rparr>) h) x = block h x"
proof -
  have nf: "a \<notin> set (bh_free h)" using refs_okD(2) [OF A] a by auto
  show "refs_ok (upd_data a (\<lambda>d. d\<lparr>bd_count := bd_count d + 1\<rparr>) h) (add_mset a A)"
    using A a nf unfolding refs_ok_def by (auto split: if_splits)
  show "block (upd_data a (\<lambda>d. d\<lparr>bd_count := bd_count d + 1\<rparr>) h) x = block h x"
    by (cases "bh_data h a") (auto simp: block_def)
qed

section \<open>Sharing\<close>

text \<open>What a buffer shows of the bytes of its block, and the offsets it may have: all sharers of a block are
  inside the dirty area, which has room for the largest zero area among them.\<close>

definition zlen :: "buffer \<Rightarrow> nat" where
  "zlen b = b_zeroAreaEnd b - b_zeroAreaStart b"

definition view :: "u8 list \<Rightarrow> buffer \<Rightarrow> u8 list" where
  "view bs b = take (b_zeroAreaStart b - b_start b) (drop (b_start b) bs) @ replicate (zlen b) 0 @
     take (b_end b - b_zeroAreaEnd b) (drop (b_zeroAreaStart b) bs)"

definition content :: "bheap \<Rightarrow> buffer \<Rightarrow> u8 list" where
  "content h b = (case block h (b_data b) of None \<Rightarrow> [] | Some d \<Rightarrow> view (bd_bytes d) b)"

definition offs_ok :: "nat \<Rightarrow> bdata \<Rightarrow> buffer \<Rightarrow> bool" where
  "offs_ok Z d b \<longleftrightarrow> b_start b \<le> b_zeroAreaStart b \<and> b_zeroAreaStart b \<le> b_zeroAreaEnd b \<and> b_zeroAreaEnd b \<le> b_end b \<and>
     b_end b \<le> bd_size d + zlen b \<and> bd_dirtyStart d \<le> b_start b \<and> zlen b \<le> Z \<and> b_end b + Z \<le> bd_dirtyEnd d + zlen b"

definition share_ok :: "bheap \<Rightarrow> buffer multiset \<Rightarrow> bool" where
  "share_ok h B \<longleftrightarrow> (\<forall>a d. block h a = Some d \<longrightarrow> (\<exists>Z. \<forall>b\<in>#B. b_data b = a \<longrightarrow> offs_ok Z d b))"

definition heap_ok :: "bheap \<Rightarrow> buffer multiset \<Rightarrow> bool" where
  "heap_ok h B \<longleftrightarrow> refs_ok h (image_mset b_data B) \<and> share_ok h B"

lemma share_ok_cong:
  assumes "share_ok h B" and "\<And>c. c \<in># B \<Longrightarrow> block h' (b_data c) = block h (b_data c)"
  shows "share_ok h' B"
  unfolding share_ok_def
proof (intro allI impI)
  fix a d
  assume d: "block h' a = Some d"
  show "\<exists>Z. \<forall>b\<in>#B. b_data b = a \<longrightarrow> offs_ok Z d b"
  proof (cases "\<exists>c\<in>#B. b_data c = a")
    case True
    then have "block h a = Some d" using assms(2) d by force
    then show ?thesis using assms(1) unfolding share_ok_def by blast
  qed blast
qed

lemma content_cong: "block h' (b_data c) = block h (b_data c) \<Longrightarrow> content h' c = content h c"
  by (simp add: content_def)

lemma content_alt: "bh_data h (b_data b) = Some d \<Longrightarrow> content h b = view (bd_bytes d) b"
  by (simp add: content_def block_def)

lemma offs_ok_count [simp]: "offs_ok Z (bd_count_update f d) b = offs_ok Z d b"
  by (simp add: offs_ok_def)

text \<open>Focus on one buffer.\<close>

lemma heap_ok_focus:
  assumes "heap_ok h (add_mset b B)"
  obtains d Z where "bh_data h (b_data b) = Some d" "offs_ok Z d b"
    "\<And>c. c \<in># B \<Longrightarrow> b_data c = b_data b \<Longrightarrow> offs_ok Z d c" "length (bd_bytes d) = bd_size d"
    "bd_count d = Suc (count (image_mset b_data B) (b_data b))"
    "refs_ok h (add_mset (b_data b) (image_mset b_data B))" "share_ok h B"
proof -
  have r: "refs_ok h (add_mset (b_data b) (image_mset b_data B))" and s: "share_ok h (add_mset b B)"
    using assms by (auto simp: heap_ok_def)
  obtain d where d: "bh_data h (b_data b) = Some d" using refs_okD(4) [OF r, of "b_data b"] by auto
  then have "block h (b_data b) = Some (bd_count_update (\<lambda>_. 0) d)" by (simp add: block_def)
  then obtain Z where Z: "\<forall>c\<in>#add_mset b B. b_data c = b_data b \<longrightarrow> offs_ok Z d c"
    using s unfolding share_ok_def by (metis offs_ok_count)
  have sB: "share_ok h B" using s unfolding share_ok_def by fastforce
  show ?thesis
    using that [OF d, of Z] Z refs_okD(5,6) [OF r d] r sB by auto
qed

lemma unshared:
  assumes "refs_ok h (add_mset (b_data b) (image_mset b_data B))" and "bh_data h (b_data b) = Some d"
    and "bd_count d = 1" and "c \<in># B"
  shows "b_data c \<noteq> b_data b"
proof
  assume e: "b_data c = b_data b"
  have "count (image_mset b_data B) (b_data b) = 0" using refs_okD(5) [OF assms(1,2)] assms(3) by simp
  moreover have "b_data b \<in># image_mset b_data B" using assms(4) e by (metis image_eqI set_image_mset)
  ultimately show False by (simp add: count_eq_zero_iff)
qed

text \<open>An operation that stays on its block.\<close>

lemma heap_ok_same_block:
  assumes H: "heap_ok h (add_mset b B)" and d: "bh_data h (b_data b) = Some d" and b': "b_data b' = b_data b"
    and f: "\<And>d. bd_count (f d) = bd_count d" "\<And>d. bd_size (f d) = bd_size d"
      "length (bd_bytes (f d)) = length (bd_bytes d)"
    and Z: "offs_ok Z (f d) b'" "\<And>c. c \<in># B \<Longrightarrow> b_data c = b_data b \<Longrightarrow> offs_ok Z (f d) c"
  shows "heap_ok (upd_data (b_data b) f h) (add_mset b' B)"
  unfolding heap_ok_def share_ok_def
proof (intro conjI allI impI)
  have r: "refs_ok h (add_mset (b_data b) (image_mset b_data B))" using H by (simp add: heap_ok_def)
  then show "refs_ok (upd_data (b_data b) f h) (image_mset b_data (add_mset b' B))"
    using refs_ok_upd_data [OF r f(1,2), of "b_data b"] f(3) d b' by simp
  fix a e
  assume e: "block (upd_data (b_data b) f h) a = Some e"
  show "\<exists>Z. \<forall>c\<in>#add_mset b' B. b_data c = a \<longrightarrow> offs_ok Z e c"
  proof (cases "a = b_data b")
    case True
    then have "e = bd_count_update (\<lambda>_. 0) (f d)" using e d by (simp add: block_def)
    then show ?thesis using Z True by auto
  next
    case False
    then have "block h a = Some e" using e by (simp add: block_def)
    then obtain Z' where "\<forall>c\<in>#add_mset b B. b_data c = a \<longrightarrow> offs_ok Z' e c"
      using H unfolding heap_ok_def share_ok_def by blast
    then show ?thesis using False b' by auto
  qed
qed

text \<open>A buffer gets a block of its own.\<close>

lemma heap_ok_fresh_block:
  assumes r: "refs_ok h (add_mset a (image_mset b_data B))" and s: "share_ok h B"
    and a: "a \<notin># image_mset b_data B" and d: "bh_data h a = Some d" and b: "b_data b = a"
    and f: "\<And>d. bd_count (f d) = bd_count d" "\<And>d. bd_size (f d) = bd_size d"
      "length (bd_bytes (f d)) = length (bd_bytes d)"
    and Z: "offs_ok Z (f d) b"
  shows "heap_ok (upd_data a f h) (add_mset b B)"
  unfolding heap_ok_def share_ok_def
proof (intro conjI allI impI)
  show "refs_ok (upd_data a f h) (image_mset b_data (add_mset b B))"
    using refs_ok_upd_data [OF r f(1,2), of a] f(3) d b by simp
  fix x e
  assume e: "block (upd_data a f h) x = Some e"
  show "\<exists>Z. \<forall>c\<in>#add_mset b B. b_data c = x \<longrightarrow> offs_ok Z e c"
  proof (cases "x = a")
    case True
    then have "e = bd_count_update (\<lambda>_. 0) (f d)" using e d by (simp add: block_def)
    moreover have "b_data c \<noteq> a" if "c \<in># B" for c using a that by auto
    ultimately show ?thesis using Z True by auto
  next
    case False
    then have "block h x = Some e" using e by (simp add: block_def)
    then obtain Z' where "\<forall>c\<in>#B. b_data c = x \<longrightarrow> offs_ok Z' e c" using s unfolding share_ok_def by blast
    then show ?thesis using False b by auto
  qed
qed

lemma content_upd_other:
  "b_data c \<noteq> a \<Longrightarrow> content (upd_data a f h) c = content h c"
  by (simp add: content_def block_def)

lemma content_upd_keep:
  assumes "\<And>d. bd_bytes (f d) = bd_bytes d"
  shows "content (upd_data a f h) c = content h c"
  using assms by (cases "bh_data h a") (auto simp: content_def block_def)

end
