(* ===== verification/Buffer_Operations.thy ===== *)
theory Buffer_Operations
  imports Buffer_Sharing
begin

text \<open>
  What the operations of \<^verbatim>\<open>Buffer\<close> do to the bytes of the buffer, and that they leave every other buffer
  alone: for each operation, success on a well-formed heap, the well-formedness of the new heap, the new
  content as a list operation on the old one, and the contents of the other buffers.
\<close>

section \<open>Lists of bytes\<close>

definition overwrite :: "nat \<Rightarrow> 'a list \<Rightarrow> 'a list \<Rightarrow> 'a list" where
  "overwrite k vs xs = take k xs @ vs @ drop (k + length vs) xs"

lemma length_overwrite [simp]: "k + length vs \<le> length xs \<Longrightarrow> length (overwrite k vs xs) = length xs"
  by (simp add: overwrite_def)

lemma nth_overwrite:
  "k + length vs \<le> length xs \<Longrightarrow> j < length xs \<Longrightarrow>
   overwrite k vs xs ! j = (if k \<le> j \<and> j < k + length vs then vs ! (j - k) else xs ! j)"
  by (auto simp: overwrite_def nth_append)

lemma overwrite_prefix [simp]: "length vs = length xs \<Longrightarrow> overwrite 0 vs (xs @ ys) = vs @ ys"
  by (simp add: overwrite_def)

lemma overwrite_suffix [simp]: "length vs = length ys \<Longrightarrow> overwrite (length xs) vs (xs @ ys) = xs @ vs"
  by (simp add: overwrite_def)

lemma overwrite_append1:
  "i + length vs \<le> length xs \<Longrightarrow> overwrite i vs (xs @ ys) = overwrite i vs xs @ ys"
  by (simp add: overwrite_def)

lemma overwrite_append2:
  "length xs \<le> i \<Longrightarrow> overwrite i vs (xs @ ys) = xs @ overwrite (i - length xs) vs ys"
  by (auto simp: overwrite_def le_iff_add add.assoc)

lemma overwrite_overwrite:
  assumes "k + length vs + length ws \<le> length xs"
  shows "overwrite (k + length vs) ws (overwrite k vs xs) = overwrite k (vs @ ws) xs"
  using assms by (auto simp: overwrite_def min_def ac_simps) (simp flip: length_0_conv)

lemma mem_write_eq: "i + length vs \<le> length bs \<Longrightarrow> mem_write i vs bs = Some (overwrite i vs bs)"
  by (simp add: mem_write_def overwrite_def)

lemma take_drop_split:
  assumes "take (i + j) (drop p xs) = take (i + j) (drop q ys)"
  shows "take i (drop p xs) = take i (drop q ys)" "take j (drop (p + i) xs) = take j (drop (q + i) ys)"
proof -
  show "take i (drop p xs) = take i (drop q ys)"
    using arg_cong [OF assms, of "take i"] by simp
  show "take j (drop (p + i) xs) = take j (drop (q + i) ys)"
    using arg_cong [OF assms, of "drop i"] by (simp add: drop_take drop_drop add.commute)
qed

lemma take_add_drop: "take (i + j) (drop p xs) = take i (drop p xs) @ take j (drop (p + i) xs)"
  by (simp add: take_add drop_drop add.commute)

section \<open>Views\<close>

lemma length_view:
  assumes "offs_ok Z d b" and "length bs = bd_size d"
  shows "length (view bs b) = b_end b - b_start b"
  using assms by (auto simp: view_def offs_ok_def zlen_def)

lemma view_parts:
  assumes "offs_ok Z d b" and "length bs = bd_size d"
  obtains P X Y R where "bs = P @ X @ Y @ R" "length P = b_start b" "length X = b_zeroAreaStart b - b_start b"
    "length Y = b_end b - b_zeroAreaEnd b"
proof -
  let ?n = "b_zeroAreaStart b - b_start b" and ?e = "b_end b - b_zeroAreaEnd b"
  have "bs = take (b_start b) bs @ take ?n (drop (b_start b) bs) @ take ?e (drop ?n (drop (b_start b) bs)) @
      drop ?e (drop ?n (drop (b_start b) bs))"
    by (simp only: append_take_drop_id)
  then show ?thesis by (rule that) (use assms in \<open>auto simp: offs_ok_def zlen_def\<close>)
qed

lemma view_append:
  assumes "length P = b_start b" and "length X = b_zeroAreaStart b - b_start b"
    and "length Y = b_end b - b_zeroAreaEnd b" and "b_start b \<le> b_zeroAreaStart b"
  shows "view (P @ X @ Y @ R) b = X @ replicate (zlen b) 0 @ Y"
proof -
  have "drop (b_zeroAreaStart b) (P @ X @ Y @ R) = Y @ R" using assms by simp
  then show ?thesis using assms by (simp add: view_def)
qed

text \<open>Bytes that another sharer writes outside of the visible part do not change the view.\<close>

lemma view_write_outside:
  assumes o: "offs_ok Z d b" and l: "length bs = bd_size d" and p: "p + length vs \<le> length bs"
    and "p + length vs \<le> b_start b \<or> GetInternalEnd b \<le> p"
  shows "view (overwrite p vs bs) b = view bs b"
proof -
  obtain P X Y R where b: "bs = P @ X @ Y @ R" and len: "length P = b_start b"
    "length X = b_zeroAreaStart b - b_start b" "length Y = b_end b - b_zeroAreaEnd b"
    using view_parts [OF o l] .
  have s: "b_start b \<le> b_zeroAreaStart b" "length P + length X + length Y = GetInternalEnd b"
    using o len by (auto simp: offs_ok_def GetInternalEnd_def)
  from assms(4) show ?thesis
  proof
    assume "p + length vs \<le> b_start b"
    then have "overwrite p vs bs = overwrite p vs P @ X @ Y @ R" using len(1) by (simp add: b overwrite_append1)
    then show ?thesis using b view_append [OF _ len(2,3) s(1)] len(1) \<open>p + length vs \<le> b_start b\<close> by simp
  next
    assume "GetInternalEnd b \<le> p"
    then have "overwrite p vs bs = P @ X @ Y @ overwrite (p - GetInternalEnd b) vs R"
      using s(2) by (simp add: b overwrite_append2 algebra_simps)
    then show ?thesis using b view_append [OF len s(1)] by simp
  qed
qed

lemma view_write_head:
  assumes o: "offs_ok Z d b" and l: "length bs = bd_size d" and p: "b_start b \<le> p" "p + length vs \<le> b_zeroAreaStart b"
  shows "view (overwrite p vs bs) b = overwrite (p - b_start b) vs (view bs b)"
proof -
  obtain P X Y R where b: "bs = P @ X @ Y @ R" and len: "length P = b_start b"
    "length X = b_zeroAreaStart b - b_start b" "length Y = b_end b - b_zeroAreaEnd b"
    using view_parts [OF o l] .
  have s: "b_start b \<le> b_zeroAreaStart b" using o by (simp add: offs_ok_def)
  have x: "p - b_start b + length vs \<le> length X" using p len by simp
  have "overwrite p vs bs = P @ overwrite (p - b_start b) vs X @ Y @ R"
    using p len x by (simp add: b overwrite_append1 overwrite_append2)
  then have "view (overwrite p vs bs) b = overwrite (p - b_start b) vs X @ replicate (zlen b) 0 @ Y"
    using view_append [OF len(1) _ len(3) s] x len(2) by simp
  also have "\<dots> = overwrite (p - b_start b) vs (view bs b)"
    using x by (simp add: b view_append [OF len s] overwrite_append1)
  finally show ?thesis .
qed

lemma view_write_tail:
  assumes o: "offs_ok Z d b" and l: "length bs = bd_size d" and p: "b_zeroAreaStart b \<le> p" "p + length vs \<le> GetInternalEnd b"
  shows "view (overwrite p vs bs) b = overwrite (p + zlen b - b_start b) vs (view bs b)"
proof -
  obtain P X Y R where b: "bs = P @ X @ Y @ R" and len: "length P = b_start b"
    "length X = b_zeroAreaStart b - b_start b" "length Y = b_end b - b_zeroAreaEnd b"
    using view_parts [OF o l] .
  have s: "b_start b \<le> b_zeroAreaStart b" and e: "length P + length X = b_zeroAreaStart b"
    using o len by (auto simp: offs_ok_def)
  have y: "p - b_zeroAreaStart b + length vs \<le> length Y"
    using p len o by (auto simp: offs_ok_def GetInternalEnd_def)
  have "overwrite p vs bs = P @ X @ overwrite (p - b_zeroAreaStart b) vs Y @ R"
    using p e y by (simp add: b overwrite_append1 overwrite_append2 algebra_simps)
  then have "view (overwrite p vs bs) b = X @ replicate (zlen b) 0 @ overwrite (p - b_zeroAreaStart b) vs Y"
    using view_append [OF len(1,2) _ s] y len(3) by simp
  moreover have "p + zlen b - b_start b - length X - zlen b = p - b_zeroAreaStart b"
    "length X + zlen b \<le> p + zlen b - b_start b"
    using p(1) s len(2) by auto
  moreover have "overwrite (p + zlen b - b_start b) vs (X @ replicate (zlen b) 0 @ Y) =
      (X @ replicate (zlen b) 0) @ overwrite (p + zlen b - b_start b - length (X @ replicate (zlen b) 0)) vs Y"
    unfolding append_assoc [symmetric] by (rule overwrite_append2) (use calculation(3) in simp)
  ultimately show ?thesis by (simp add: b view_append [OF len s])
qed

section \<open>Writing in place\<close>

text \<open>A write to a region no other sharer sees.\<close>

definition exclusive :: "nat \<Rightarrow> nat \<Rightarrow> buffer \<Rightarrow> buffer multiset \<Rightarrow> bool" where
  "exclusive p n b B \<longleftrightarrow> (\<forall>c\<in>#B. b_data c = b_data b \<longrightarrow> p + n \<le> b_start c \<or> GetInternalEnd c \<le> p)"

lemma exclusive_sub: "exclusive p n b B \<Longrightarrow> p \<le> q \<Longrightarrow> q + m \<le> p + n \<Longrightarrow> exclusive q m b B"
  by (fastforce simp: exclusive_def)

lemma heap_write_exclusive:
  assumes H: "heap_ok h (add_mset b B)" and v: "exclusive p (length vs) b B" and d: "bh_data h (b_data b) = Some d"
    and p: "p + length vs \<le> bd_size d"
  obtains h' where "heap_write (b_data b) p vs h = Some h'" "heap_ok h' (add_mset b B)"
    "content h' b = view (overwrite p vs (bd_bytes d)) b" "\<And>c. c \<in># B \<Longrightarrow> content h' c = content h c"
    "h' = upd_data (b_data b) (bd_bytes_update (\<lambda>_. overwrite p vs (bd_bytes d))) h"
proof -
  obtain Z where o: "offs_ok Z d b" "\<And>c. c \<in># B \<Longrightarrow> b_data c = b_data b \<Longrightarrow> offs_ok Z d c"
    "length (bd_bytes d) = bd_size d"
    using heap_ok_focus [OF H] d by (metis option.inject)
  let ?f = "bd_bytes_update (\<lambda>_. overwrite p vs (bd_bytes d))"
  let ?h = "upd_data (b_data b) ?f h"
  have "heap_write (b_data b) p vs h = Some ?h"
    using d p o(3) by (simp add: heap_write_def mem_write_eq)
  moreover have "heap_ok ?h (add_mset b B)"
    by (rule heap_ok_same_block [OF H d refl, where Z = Z]) (use o p in \<open>auto simp: offs_ok_def\<close>)
  moreover have "content ?h b = view (overwrite p vs (bd_bytes d)) b"
    using d by (simp add: content_alt)
  moreover have "content ?h c = content h c" if c: "c \<in># B" for c
  proof (cases "b_data c = b_data b")
    case True
    have "view (overwrite p vs (bd_bytes d)) c = view (bd_bytes d) c"
      by (rule view_write_outside [OF o(2) [OF c True] o(3)])
        (use v c True p o(3) in \<open>auto simp: exclusive_def\<close>)
    then show ?thesis using d True content_alt [of h c d] by (simp add: content_def block_def)
  qed (simp add: content_upd_other)
  ultimately show ?thesis using that by blast
qed

section \<open>Reallocation\<close>

lemma reallocate_ok:
  assumes H: "heap_ok h (add_mset b B)" and n: "off + GetInternalSize b \<le> n"
    and d0: "bh_data h (b_data b) = Some d0"
  obtains a h' d where "reallocate n off b h = Some (a, h')"
    "refs_ok h' (add_mset a (image_mset b_data B))" "a \<notin># image_mset b_data B" "share_ok h' B"
    "bh_data h' a = Some d" "n \<le> bd_size d" "length (bd_bytes d) = bd_size d"
    "take (GetInternalSize b) (drop off (bd_bytes d)) = take (GetInternalSize b) (drop (b_start b) (bd_bytes d0))"
    "\<And>c. c \<in># B \<Longrightarrow> content h' c = content h c" "g_recommendedStart h' = g_recommendedStart h"
proof -
  let ?I = "image_mset b_data B" and ?k = "GetInternalSize b"
  obtain Z where o: "offs_ok Z d0 b" and l0: "length (bd_bytes d0) = bd_size d0"
    and r: "refs_ok h (add_mset (b_data b) ?I)" and s: "share_ok h B"
    using heap_ok_focus [OF H] d0 by (metis option.inject)
  obtain a h1 d1 where C: "Create n h = Some (a, h1)" and r1: "refs_ok h1 (add_mset a (add_mset (b_data b) ?I))"
    and a: "a \<notin># add_mset (b_data b) ?I"
    and k1: "\<And>x. x \<in># add_mset (b_data b) ?I \<Longrightarrow> bh_data h1 x = bh_data h x"
    and d1: "bh_data h1 a = Some d1" "n \<le> bd_size d1" and g1: "g_recommendedStart h1 = g_recommendedStart h"
    using Create_refs [OF r] by blast
  define vs where "vs = take ?k (drop (b_start b) (bd_bytes d0))"
  have k: "b_start b + ?k \<le> bd_size d0" using o by (auto simp: offs_ok_def zlen_def GetInternalSize_def)
  then have rd: "heap_read (b_data b) (b_start b) ?k h1 = Some vs"
    using k1 [of "b_data b"] d0 l0 by (simp add: heap_read_def mem_read_def vs_def)
  have lv: "length vs = ?k" using k l0 by (simp add: vs_def)
  have l1: "length (bd_bytes d1) = bd_size d1" using refs_okD(6) [OF r1 d1(1)] .
  let ?d = "d1\<lparr>bd_bytes := overwrite off vs (bd_bytes d1)\<rparr>"
  define h2 where "h2 = upd_data a (\<lambda>d. d\<lparr>bd_bytes := overwrite off vs (bd_bytes d1)\<rparr>) h1"
  have w: "heap_write a off vs h1 = Some h2"
    using d1 n lv l1 by (simp add: heap_write_def mem_write_eq h2_def)
  have r2: "refs_ok h2 (add_mset (b_data b) (add_mset a ?I))"
    unfolding h2_def using refs_ok_upd_data [OF r1, of "\<lambda>d. d\<lparr>bd_bytes := overwrite off vs (bd_bytes d1)\<rparr>" a] d1 n lv l1
    by (simp add: add_mset_commute)
  obtain h3 where R: "release (b_data b) h2 = Some h3" and r3: "refs_ok h3 (add_mset a ?I)"
    and k3: "\<And>x. x \<in># add_mset a ?I \<Longrightarrow> block h3 x = block h2 x" and g3: "g_recommendedStart h3 = g_recommendedStart h2"
    using release_refs [OF r2] by blast
  have kB: "block h3 (b_data c) = block h (b_data c)" if "c \<in># B" for c
    using k3 [of "b_data c"] k1 [of "b_data c"] that a by (auto simp: h2_def block_def)
  obtain d3 where d3: "bh_data h3 a = Some d3" "bd_size d3 = bd_size d1" "bd_bytes d3 = bd_bytes ?d"
  proof (rule block_SomeD [of h3 a h2 ?d])
    show "block h3 a = block h2 a" using k3 [of a] by simp
    show "bh_data h2 a = Some ?d" using d1 by (simp add: h2_def)
  qed (auto intro: that)
  show ?thesis
  proof (rule that)
    show "reallocate n off b h = Some (a, h3)" by (simp add: reallocate_def C rd w R)
    show "refs_ok h3 (add_mset a ?I)" by (rule r3)
    show "a \<notin># ?I" using a by simp
    show "share_ok h3 B" by (rule share_ok_cong [OF s kB])
    show "bh_data h3 a = Some d3" by (rule d3)
    show "n \<le> bd_size d3" using d1 d3 by simp
    show "length (bd_bytes d3) = bd_size d3" using refs_okD(6) [OF r3 d3(1)] .
    show "take ?k (drop off (bd_bytes d3)) = take ?k (drop (b_start b) (bd_bytes d0))"
      using d3 n d1 l1 lv by (simp add: overwrite_def vs_def)
    show "content h3 c = content h c" if "c \<in># B" for c by (rule content_cong [OF kB [OF that]])
    show "g_recommendedStart h3 = g_recommendedStart h" using g3 g1 by (simp add: h2_def)
  qed
qed

section \<open>Growing a buffer\<close>

lemma content_length:
  assumes "heap_ok h (add_mset b B)"
  shows "length (content h b) = GetSize b"
proof -
  obtain d Z where "bh_data h (b_data b) = Some d" "offs_ok Z d b" "length (bd_bytes d) = bd_size d"
    using heap_ok_focus [OF assms] by metis
  then show ?thesis by (simp add: content_alt length_view GetSize_def)
qed

lemma upd_max_simps [simp]:
  "b_data (upd_max b) = b_data b" "b_zeroAreaStart (upd_max b) = b_zeroAreaStart b"
  "b_zeroAreaEnd (upd_max b) = b_zeroAreaEnd b" "b_start (upd_max b) = b_start b" "b_end (upd_max b) = b_end b"
  by (auto simp: upd_max_def)

lemma view_upd_max [simp]: "view bs (upd_max b) = view bs b"
  by (simp add: view_def zlen_def)

lemma offs_ok_upd_max [simp]: "offs_ok Z d (upd_max b) = offs_ok Z d b"
  by (simp add: offs_ok_def zlen_def)

lemma take_drop_lengths:
  assumes "take (i + j) (drop p xs) = take (i + j) (drop q ys)"
  shows "take i (drop p xs) @ z @ take j (drop (p + i) xs) = take i (drop q ys) @ z @ take j (drop (q + i) ys)"
  using take_drop_split [OF assms] by simp

lemma AddAtStart_ok:
  assumes H: "heap_ok h (add_mset b B)"
  obtains b' h' js where "AddAtStart n b h = Some (b', h')" "heap_ok h' (add_mset b' B)" "length js = n"
    "content h' b' = js @ content h b" "\<And>c. c \<in># B \<Longrightarrow> content h' c = content h c"
    "b_start b' + n \<le> b_zeroAreaStart b'" "exclusive (b_start b') n b' B" "zlen b' = zlen b"
    "b_data b' = b_data b \<or> (\<forall>c\<in>#B. b_data c \<noteq> b_data b')"
proof -
  obtain d Z where d: "bh_data h (b_data b) = Some d" and o: "offs_ok Z d b"
    and oc: "\<And>c. c \<in># B \<Longrightarrow> b_data c = b_data b \<Longrightarrow> offs_ok Z d c" and l: "length (bd_bytes d) = bd_size d"
    and r: "refs_ok h (add_mset (b_data b) (image_mset b_data B))"
    using heap_ok_focus [OF H] by metis
  have se: "b_start b \<le> b_zeroAreaStart b" using o by (simp add: offs_ok_def)
  have cnt: "1 \<le> bd_count d" using refs_okD(5) [OF r d] by simp
  show ?thesis
  proof (cases "n \<le> b_start b \<and> \<not> (bd_count d > 1 \<and> b_start b > bd_dirtyStart d)")
    case True
    let ?b = "b\<lparr>b_start := b_start b - n\<rparr>"
    let ?f = "\<lambda>d. d\<lparr>bd_dirtyStart := b_start ?b\<rparr>"
    let ?h = "upd_data (b_data b) ?f h"
    have first: "b_start b \<le> b_start c" if "c \<in># B" "b_data c = b_data b" for c
    proof -
      have "\<not> bd_count d = 1" using unshared [OF r d _ that(1)] that(2) by auto
      moreover have "bd_count d \<noteq> 0" using refs_okD(5) [OF r d] by simp
      ultimately show ?thesis using True oc [OF that] by (simp add: offs_ok_def)
    qed
    have ok: "heap_ok ?h (add_mset (upd_max ?b) B)"
    proof (rule heap_ok_same_block [OF H d, where Z = Z])
      show "offs_ok Z (?f d) (upd_max ?b)" using o by (auto simp: offs_ok_def zlen_def)
      show "offs_ok Z (?f d) c" if "c \<in># B" "b_data c = b_data b" for c
        using oc [OF that] first [OF that] by (auto simp: offs_ok_def zlen_def)
    qed auto
    have ass: "bd_count d = 1 \<or> b_start b = bd_dirtyStart d"
      using True o cnt by (auto simp: offs_ok_def)
    have eq: "AddAtStart n b h = Some (upd_max ?b, ?h)"
      using d True ass by (auto simp: AddAtStart_def Let_def)
    let ?js = "take n (drop (b_start b - n) (bd_bytes d))"
    have ct: "content ?h (upd_max ?b) = ?js @ content h b"
    proof -
      have "b_zeroAreaStart b - (b_start b - n) = n + (b_zeroAreaStart b - b_start b)" using True se by simp
      then show ?thesis using d True
        by (simp add: content_alt view_def zlen_def take_add_drop)
    qed
    show ?thesis
    proof (rule that [OF eq ok _ ct])
      show "length ?js = n" using True o l by (auto simp: offs_ok_def zlen_def)
      show "content ?h c = content h c" if "c \<in># B" for c by (rule content_upd_keep) simp
      show "b_start (upd_max ?b) + n \<le> b_zeroAreaStart (upd_max ?b)" using True se by simp
      show "exclusive (b_start (upd_max ?b)) n (upd_max ?b) B"
        using first True by (auto simp: exclusive_def)
    qed (simp_all add: zlen_def)
  next
    case False
    let ?k = "GetInternalSize b"
    have eqk: "?k = (b_zeroAreaStart b - b_start b) + (b_end b - b_zeroAreaEnd b)"
      using o by (auto simp: GetInternalSize_def offs_ok_def)
    have pre: "n + ?k \<le> ?k + n" by simp
    obtain a h1 d1 where R: "reallocate (?k + n) n b h = Some (a, h1)"
      and r1: "refs_ok h1 (add_mset a (image_mset b_data B))" and a: "a \<notin># image_mset b_data B"
      and s1: "share_ok h1 B" and d1: "bh_data h1 a = Some d1" "?k + n \<le> bd_size d1"
        "length (bd_bytes d1) = bd_size d1"
        "take ?k (drop n (bd_bytes d1)) = take ?k (drop (b_start b) (bd_bytes d))"
      and c1: "\<And>c. c \<in># B \<Longrightarrow> content h1 c = content h c"
      using reallocate_ok [OF H pre d] by metis
    define b2 where "b2 = b\<lparr>b_data := a, b_start := 0, b_zeroAreaStart := n + (b_zeroAreaStart b - b_start b),
       b_zeroAreaEnd := n + (b_zeroAreaEnd b - b_start b), b_end := n + (b_end b - b_start b)\<rparr>"
    have sh: "(shift (int n - int (b_start b)) (b\<lparr>b_data := a\<rparr>))\<lparr>b_start := b_start (shift (int n - int (b_start b)) (b\<lparr>b_data := a\<rparr>)) - n\<rparr> = b2"
      using o by (auto simp: b2_def shift_def offs_ok_def nat_eq_iff)
    have eq: "AddAtStart n b h = Some (upd_max b2, set_dirty b2 h1)"
      using d False R sh by (auto simp: AddAtStart_def Let_def)
    have z2: "zlen b2 = zlen b" using o by (auto simp: b2_def zlen_def offs_ok_def)
    have ok: "heap_ok (set_dirty b2 h1) (add_mset (upd_max b2) B)"
      unfolding set_dirty_def
    proof (rule heap_ok_fresh_block [where Z = "zlen b" and d = d1])
      show "refs_ok h1 (add_mset (b_data b2) (image_mset b_data B))" using r1 by (simp add: b2_def)
      show "offs_ok (zlen b) (d1\<lparr>bd_dirtyStart := b_start b2, bd_dirtyEnd := b_end b2\<rparr>) (upd_max b2)"
        using o d1(2) z2 eqk by (auto simp: offs_ok_def b2_def zlen_def)
    qed (use s1 a d1 in \<open>auto simp: b2_def\<close>)
    let ?js = "take n (bd_bytes d1)"
    have "content (set_dirty b2 h1) (upd_max b2) = view (bd_bytes d1) b2"
      using d1 by (simp add: content_alt set_dirty_def b2_def)
    also have "\<dots> = ?js @ view (bd_bytes d) b"
    proof -
      have ends: "b_end b2 - b_zeroAreaEnd b2 = b_end b - b_zeroAreaEnd b"
        "b_zeroAreaStart b2 - b_start b2 = n + (b_zeroAreaStart b - b_start b)"
        "b_zeroAreaStart b = b_start b + (b_zeroAreaStart b - b_start b)"
        "b_zeroAreaStart b2 = n + (b_zeroAreaStart b - b_start b)" "b_start b2 = 0"
        using o by (auto simp: b2_def offs_ok_def)
      show ?thesis unfolding view_def ends(1,2,5) z2
        unfolding ends(4) by (subst (4) ends(3)) (simp add: take_add take_drop_lengths [OF d1(4) [unfolded eqk]])
    qed
    finally have ct: "content (set_dirty b2 h1) (upd_max b2) = ?js @ content h b" using d by (simp add: content_alt)
    show ?thesis
    proof (rule that [OF eq ok _ ct])
      show "length ?js = n" using d1 by simp
      show "content (set_dirty b2 h1) c = content h c" if "c \<in># B" for c
        using content_upd_keep c1 [OF that] by (simp add: set_dirty_def)
      show "b_start (upd_max b2) + n \<le> b_zeroAreaStart (upd_max b2)" by (simp add: b2_def)
      show "exclusive (b_start (upd_max b2)) n (upd_max b2) B" using a by (auto simp: exclusive_def b2_def)
      show "zlen (upd_max b2) = zlen b" using z2 by (simp add: zlen_def)
      show "b_data (upd_max b2) = b_data b \<or> (\<forall>c\<in>#B. b_data c \<noteq> b_data (upd_max b2))" using a by (auto simp: b2_def)
    qed
  qed
qed

lemma AddAtEnd_ok:
  assumes H: "heap_ok h (add_mset b B)"
  obtains b' h' js where "AddAtEnd n b h = Some (b', h')" "heap_ok h' (add_mset b' B)" "length js = n"
    "content h' b' = content h b @ js" "\<And>c. c \<in># B \<Longrightarrow> content h' c = content h c"
    "b_zeroAreaEnd b' + n \<le> b_end b'" "exclusive (GetInternalEnd b' - n) n b' B"
    "zlen b' = zlen b" "b_data b' = b_data b \<or> (\<forall>c\<in>#B. b_data c \<noteq> b_data b')"
proof -
  obtain d Z where d: "bh_data h (b_data b) = Some d" and o: "offs_ok Z d b"
    and oc: "\<And>c. c \<in># B \<Longrightarrow> b_data c = b_data b \<Longrightarrow> offs_ok Z d c" and l: "length (bd_bytes d) = bd_size d"
    and r: "refs_ok h (add_mset (b_data b) (image_mset b_data B))"
    using heap_ok_focus [OF H] by metis
  have se: "b_zeroAreaStart b \<le> b_zeroAreaEnd b" "b_zeroAreaEnd b \<le> b_end b" using o by (simp_all add: offs_ok_def)
  have cnt: "1 \<le> bd_count d" using refs_okD(5) [OF r d] by simp
  show ?thesis
  proof (cases "GetInternalEnd b + n \<le> bd_size d \<and> \<not> (bd_count d > 1 \<and> b_end b < bd_dirtyEnd d)")
    case True
    let ?b = "b\<lparr>b_end := b_end b + n\<rparr>"
    let ?f = "\<lambda>d. d\<lparr>bd_dirtyEnd := b_end ?b\<rparr>"
    let ?h = "upd_data (b_data b) ?f h"
    have last: "offs_ok (zlen b) (?f d) c \<and> b_end c - zlen c \<le> b_end b - zlen b" if c: "c \<in># B" "b_data c = b_data b" for c
    proof -
      have "\<not> bd_count d = 1" using unshared [OF r d _ c(1)] c(2) by auto
      then have e: "bd_dirtyEnd d \<le> b_end b" using True cnt by simp
      then have "Z = zlen b" using o by (simp add: offs_ok_def)
      then show ?thesis using oc [OF c] o e by (auto simp: offs_ok_def zlen_def)
    qed
    have ok: "heap_ok ?h (add_mset (upd_max ?b) B)"
    proof (rule heap_ok_same_block [OF H d, where Z = "zlen b"])
      show "offs_ok (zlen b) (?f d) (upd_max ?b)" using o True by (auto simp: offs_ok_def zlen_def GetInternalEnd_def)
      show "offs_ok (zlen b) (?f d) c" if "c \<in># B" "b_data c = b_data b" for c using last [OF that] by simp
    qed auto
    have ass: "bd_count d = 1 \<or> b_end b = bd_dirtyEnd d"
      using True o cnt by (auto simp: offs_ok_def)
    have eq: "AddAtEnd n b h = Some (upd_max ?b, ?h)"
      using d True ass by (auto simp: AddAtEnd_def Let_def)
    let ?js = "take n (drop (GetInternalEnd b) (bd_bytes d))"
    have ct: "content ?h (upd_max ?b) = content h b @ ?js"
    proof -
      have "b_end b + n - b_zeroAreaEnd b = (b_end b - b_zeroAreaEnd b) + n"
        "b_zeroAreaStart b + (b_end b - b_zeroAreaEnd b) = GetInternalEnd b"
        using se by (auto simp: GetInternalEnd_def)
      then show ?thesis using d by (simp add: content_alt view_def zlen_def take_add_drop)
    qed
    show ?thesis
    proof (rule that [OF eq ok _ ct])
      show "length ?js = n" using True o l by (auto simp: offs_ok_def zlen_def)
      show "content ?h c = content h c" if "c \<in># B" for c by (rule content_upd_keep) simp
      show "b_zeroAreaEnd (upd_max ?b) + n \<le> b_end (upd_max ?b)" using se by simp
      show "exclusive (GetInternalEnd (upd_max ?b) - n) n (upd_max ?b) B"
        using last se by (force simp: exclusive_def GetInternalEnd_def zlen_def)
    qed (simp_all add: zlen_def)
  next
    case False
    let ?k = "GetInternalSize b"
    have eqk: "?k = (b_zeroAreaStart b - b_start b) + (b_end b - b_zeroAreaEnd b)"
      using o by (auto simp: GetInternalSize_def offs_ok_def)
    have pre: "0 + ?k \<le> ?k + n" by simp
    obtain a h1 d1 where R: "reallocate (?k + n) 0 b h = Some (a, h1)"
      and r1: "refs_ok h1 (add_mset a (image_mset b_data B))" and a: "a \<notin># image_mset b_data B"
      and s1: "share_ok h1 B" and d1: "bh_data h1 a = Some d1" "?k + n \<le> bd_size d1"
        "length (bd_bytes d1) = bd_size d1"
        "take ?k (drop 0 (bd_bytes d1)) = take ?k (drop (b_start b) (bd_bytes d))"
      and c1: "\<And>c. c \<in># B \<Longrightarrow> content h1 c = content h c"
      using reallocate_ok [OF H pre d] by metis
    define b2 where "b2 = b\<lparr>b_data := a, b_start := 0, b_zeroAreaStart := b_zeroAreaStart b - b_start b,
       b_zeroAreaEnd := b_zeroAreaEnd b - b_start b, b_end := b_end b - b_start b + n\<rparr>"
    have sh: "(shift (- int (b_start b)) (b\<lparr>b_data := a\<rparr>))\<lparr>b_end := b_end (shift (- int (b_start b)) (b\<lparr>b_data := a\<rparr>)) + n\<rparr> = b2"
      using o by (auto simp: b2_def shift_def offs_ok_def nat_eq_iff)
    have eq: "AddAtEnd n b h = Some (upd_max b2, set_dirty b2 h1)"
      using d False R sh by (auto simp: AddAtEnd_def Let_def)
    have z2: "zlen b2 = zlen b" using o by (auto simp: b2_def zlen_def offs_ok_def)
    have ok: "heap_ok (set_dirty b2 h1) (add_mset (upd_max b2) B)"
      unfolding set_dirty_def
    proof (rule heap_ok_fresh_block [where Z = "zlen b" and d = d1])
      show "refs_ok h1 (add_mset (b_data b2) (image_mset b_data B))" using r1 by (simp add: b2_def)
      show "offs_ok (zlen b) (d1\<lparr>bd_dirtyStart := b_start b2, bd_dirtyEnd := b_end b2\<rparr>) (upd_max b2)"
        using o d1(2) z2 eqk by (auto simp: offs_ok_def b2_def zlen_def)
    qed (use s1 a d1 in \<open>auto simp: b2_def\<close>)
    let ?js = "take n (drop ?k (bd_bytes d1))"
    have "content (set_dirty b2 h1) (upd_max b2) = view (bd_bytes d1) b2"
      using d1 by (simp add: content_alt set_dirty_def b2_def)
    also have "\<dots> = view (bd_bytes d) b @ ?js"
    proof -
      have ends: "b_end b2 - b_zeroAreaEnd b2 = (b_end b - b_zeroAreaEnd b) + n"
        "b_zeroAreaStart b2 = b_zeroAreaStart b - b_start b" "b_start b2 = 0"
        using o by (auto simp: b2_def offs_ok_def)
      have e3: "b_zeroAreaStart b = b_start b + (b_zeroAreaStart b - b_start b)" using o by (auto simp: offs_ok_def)
      have sp: "take (b_zeroAreaStart b - b_start b) (bd_bytes d1) = take (b_zeroAreaStart b - b_start b) (drop (b_start b) (bd_bytes d))"
        "take (b_end b - b_zeroAreaEnd b) (drop (b_zeroAreaStart b - b_start b) (bd_bytes d1)) =
         take (b_end b - b_zeroAreaEnd b) (drop (b_zeroAreaStart b) (bd_bytes d))"
        using take_drop_split [OF d1(4) [unfolded eqk]] e3 by simp_all
      show ?thesis unfolding view_def ends z2 eqk by (simp add: sp take_add_drop)
    qed
    finally have ct: "content (set_dirty b2 h1) (upd_max b2) = content h b @ ?js" using d by (simp add: content_alt)
    show ?thesis
    proof (rule that [OF eq ok _ ct])
      show "length ?js = n" using d1 by simp
      show "content (set_dirty b2 h1) c = content h c" if "c \<in># B" for c
        using content_upd_keep c1 [OF that] by (simp add: set_dirty_def)
      show "b_zeroAreaEnd (upd_max b2) + n \<le> b_end (upd_max b2)" using o by (auto simp: b2_def offs_ok_def)
      show "exclusive (GetInternalEnd (upd_max b2) - n) n (upd_max b2) B" using a by (auto simp: exclusive_def b2_def)
      show "zlen (upd_max b2) = zlen b" using z2 by (simp add: zlen_def)
      show "b_data (upd_max b2) = b_data b \<or> (\<forall>c\<in>#B. b_data c \<noteq> b_data (upd_max b2))" using a by (auto simp: b2_def)
    qed
  qed
qed

section \<open>Shrinking a buffer\<close>

lemma heap_ok_narrow:
  assumes H: "heap_ok h (add_mset b B)" and e: "b_data b' = b_data b"
    and o: "\<And>d Z. offs_ok Z d b \<Longrightarrow> offs_ok Z d b'"
  shows "heap_ok h (add_mset b' B)"
proof -
  have "share_ok h (add_mset b' B)"
    unfolding share_ok_def
  proof (intro allI impI)
    fix a d assume "block h a = Some d"
    then obtain Z where "\<forall>c\<in>#add_mset b B. b_data c = a \<longrightarrow> offs_ok Z d c"
      using H unfolding heap_ok_def share_ok_def by blast
    then have "\<forall>c\<in>#add_mset b' B. b_data c = a \<longrightarrow> offs_ok Z d c" using e o by auto
    then show "\<exists>Z. \<forall>c\<in>#add_mset b' B. b_data c = a \<longrightarrow> offs_ok Z d c" by blast
  qed
  then show ?thesis using H e by (simp add: heap_ok_def)
qed

text \<open>A buffer as its start and the lengths of its three parts.\<close>

definition shape :: "buffer \<Rightarrow> nat \<Rightarrow> nat \<Rightarrow> nat \<Rightarrow> nat \<Rightarrow> bool" where
  "shape b st x z y \<longleftrightarrow> b_start b = st \<and> b_zeroAreaStart b = st + x \<and> b_zeroAreaEnd b = st + x + z \<and> b_end b = st + x + z + y"

lemma shape_exists:
  assumes "offs_ok Z d b"
  obtains st x z y where "shape b st x z y"
  using assms by (intro that [of "b_start b" "b_zeroAreaStart b - b_start b" "zlen b" "b_end b - b_zeroAreaEnd b"])
    (auto simp: shape_def offs_ok_def zlen_def)

lemma offs_ok_shape:
  "shape b st x z y \<Longrightarrow> offs_ok Z d b \<longleftrightarrow> st + x + y \<le> bd_size d \<and> bd_dirtyStart d \<le> st \<and> z \<le> Z \<and> st + x + y + Z \<le> bd_dirtyEnd d"
  by (auto simp: shape_def offs_ok_def zlen_def)

lemma view_shape:
  "shape b st x z y \<Longrightarrow> view bs b = take x (drop st bs) @ replicate z 0 @ take y (drop (st + x) bs)"
  by (auto simp: shape_def view_def zlen_def)

lemma shape_upd_max [simp]: "shape (upd_max b) st x z y = shape b st x z y"
  by (simp add: shape_def)

lemma RemoveAtStart_shape:
  assumes "shape b st x z y"
  shows "x = n + i \<Longrightarrow> shape (RemoveAtStart n b) (st + n) i z y"
    "n = x + i \<Longrightarrow> z = i + j \<Longrightarrow> 0 < i \<Longrightarrow> shape (RemoveAtStart n b) (st + x) 0 j y"
    "n = x + z + i \<Longrightarrow> y = i + j \<Longrightarrow> 0 < i \<Longrightarrow> shape (RemoveAtStart n b) (st + x + i) 0 0 j"
    "n = x + z + y + i \<Longrightarrow> 0 < i \<Longrightarrow> shape (RemoveAtStart n b) (st + x + y) 0 0 0"
  using assms by (simp_all add: RemoveAtStart_def shape_def Let_def)

lemma four_parts:
  fixes n x z y :: nat
  obtains i where "x = n + i" | i j where "n = x + i" "z = i + j" "0 < i"
    | i j where "n = x + z + i" "y = i + j" "0 < i" | i where "n = x + z + y + i" "0 < i"
proof -
  consider "n \<le> x" | "x < n" "n \<le> x + z" | "x + z < n" "n \<le> x + z + y" | "x + z + y < n" by linarith
  then show ?thesis
  proof cases
    case 1
    then show ?thesis using that(1) [of "x - n"] by simp
  next
    case 2
    then show ?thesis using that(2) [of "n - x" "z - (n - x)"] by simp
  next
    case 3
    then show ?thesis using that(3) [of "n - x - z" "y - (n - x - z)"] by simp
  next
    case 4
    then show ?thesis using that(4) [of "n - x - z - y"] by simp
  qed
qed

lemma RemoveAtStart_data: "b_data (RemoveAtStart n b) = b_data b"
  by (simp add: RemoveAtStart_def Let_def)

lemma RemoveAtStart_offs: "offs_ok Z d b \<Longrightarrow> offs_ok Z d (RemoveAtStart n b)"
proof -
  assume o: "offs_ok Z d b"
  then obtain st x z y where s: "shape b st x z y" by (rule shape_exists)
  note R = RemoveAtStart_shape [OF s]
  show ?thesis
    by (rule four_parts [of x n _ z y])
      (use o in \<open>auto simp: offs_ok_shape [OF s] offs_ok_shape [OF R(1)] offs_ok_shape [OF R(2)]
        offs_ok_shape [OF R(3)] offs_ok_shape [OF R(4)]\<close>)
qed

lemma RemoveAtStart_view:
  assumes o: "offs_ok Z d b" and l: "length bs = bd_size d"
  shows "view bs (RemoveAtStart n b) = drop n (view bs b)"
proof -
  obtain st x z y where s: "shape b st x z y" using shape_exists [OF o] .
  note R = RemoveAtStart_shape [OF s]
  have len: "st + x + y \<le> length bs" using o l by (simp add: offs_ok_shape [OF s])
  show ?thesis
  proof (rule four_parts [of x n _ z y])
    fix i assume "x = n + i"
    then show ?thesis using len by (simp add: view_shape [OF s] view_shape [OF R(1)] drop_take ac_simps)
  next
    fix i j assume "n = x + i" "z = i + j" "0 < i"
    then show ?thesis using len by (simp add: view_shape [OF s] view_shape [OF R(2)])
  next
    fix i j assume "n = x + z + i" "y = i + j" "0 < i"
    then show ?thesis using len by (simp add: view_shape [OF s] view_shape [OF R(3)] drop_take ac_simps)
  next
    fix i assume "n = x + z + y + i" "0 < i"
    then show ?thesis using len by (simp add: view_shape [OF s] view_shape [OF R(4)])
  qed
qed

text \<open>The parts that are kept, from the other end.\<close>

lemma RemoveAtEnd_shape:
  assumes s: "shape b st x z y" and k: "x + z + y - n = k"
  shows "x = k + i \<Longrightarrow> shape (RemoveAtEnd n b) st k 0 0"
    "k = x + i \<Longrightarrow> z = i + j \<Longrightarrow> 0 < i \<Longrightarrow> shape (RemoveAtEnd n b) st x i 0"
    "k = x + z + i \<Longrightarrow> y = i + j \<Longrightarrow> 0 < i \<Longrightarrow> shape (RemoveAtEnd n b) st x z i"
proof -
  have e: "b_end b - min n (b_end b - b_start b) = st + k" using s k by (simp add: shape_def)
  show "x = k + i \<Longrightarrow> shape (RemoveAtEnd n b) st k 0 0"
    "k = x + i \<Longrightarrow> z = i + j \<Longrightarrow> 0 < i \<Longrightarrow> shape (RemoveAtEnd n b) st x i 0"
    "k = x + z + i \<Longrightarrow> y = i + j \<Longrightarrow> 0 < i \<Longrightarrow> shape (RemoveAtEnd n b) st x z i"
    unfolding RemoveAtEnd_def e Let_def using s by (auto simp: shape_def)
qed

lemma RemoveAtEnd_data: "b_data (RemoveAtEnd n b) = b_data b"
  by (simp add: RemoveAtEnd_def Let_def)

lemma RemoveAtEnd_offs: "offs_ok Z d b \<Longrightarrow> offs_ok Z d (RemoveAtEnd n b)"
proof -
  assume o: "offs_ok Z d b"
  then obtain st x z y where s: "shape b st x z y" by (rule shape_exists)
  note R = RemoveAtEnd_shape [OF s refl, where n = n]
  show ?thesis
  proof (rule four_parts [of x "x + z + y - n" _ z y])
    fix i assume "x = x + z + y - n + i"
    from offs_ok_shape [OF R(1) [OF this]] show ?thesis using o \<open>x = _\<close> by (auto simp: offs_ok_shape [OF s])
  next
    fix i j assume a: "x + z + y - n = x + i" "z = i + j" "0 < i"
    from offs_ok_shape [OF R(2) [OF this]] show ?thesis using o a by (auto simp: offs_ok_shape [OF s])
  next
    fix i j assume a: "x + z + y - n = x + z + i" "y = i + j" "0 < i"
    from offs_ok_shape [OF R(3) [OF this]] show ?thesis using o a by (auto simp: offs_ok_shape [OF s])
  qed simp
qed

lemma RemoveAtEnd_view:
  assumes o: "offs_ok Z d b" and l: "length bs = bd_size d"
  shows "view bs (RemoveAtEnd n b) = take (GetSize b - n) (view bs b)"
proof -
  obtain st x z y where s: "shape b st x z y" using shape_exists [OF o] .
  define k where "k = x + z + y - n"
  have g: "GetSize b - n = k" using s by (simp add: GetSize_def shape_def k_def)
  note R = RemoveAtEnd_shape [OF s k_def [symmetric]]
  let ?G = "view bs (RemoveAtEnd n b) = take k (view bs b)"
  define P Q where "P = take x (drop st bs)" and "Q = take y (drop (st + x) bs)"
  have v: "view bs b = P @ replicate z 0 @ Q" by (simp add: view_shape [OF s] P_def Q_def)
  have len: "length P = x" "length Q = y" using o l by (auto simp: offs_ok_shape [OF s] P_def Q_def)
  have "?G"
  proof (rule four_parts [of x k _ z y])
    fix i assume a: "x = k + i"
    then have "view bs (RemoveAtEnd n b) = take k P" by (simp add: view_shape [OF R(1)] P_def min_def)
    then show ?G using len a by (simp add: v)
  next
    fix i j assume a: "k = x + i" "z = i + j" "0 < i"
    then have "view bs (RemoveAtEnd n b) = P @ replicate i 0" by (simp add: view_shape [OF R(2)] P_def)
    then show ?G using len a by (simp add: v)
  next
    fix i j assume a: "k = x + z + i" "y = i + j" "0 < i"
    then have "view bs (RemoveAtEnd n b) = P @ replicate z 0 @ take i Q"
      by (simp add: view_shape [OF R(3)] P_def Q_def min_def)
    then show ?G using len a by (simp add: v)
  qed (simp add: k_def)
  then show ?thesis by (simp only: g)
qed

lemma content_narrow:
  assumes H: "heap_ok h (add_mset b B)" and e: "b_data b' = b_data b"
    and v: "\<And>d Z bs. offs_ok Z d b \<Longrightarrow> length bs = bd_size d \<Longrightarrow> view bs b' = g (view bs b)"
  shows "content h b' = g (content h b)"
proof -
  obtain d Z where "bh_data h (b_data b) = Some d" "offs_ok Z d b" "length (bd_bytes d) = bd_size d"
    using heap_ok_focus [OF H] by metis
  then show ?thesis using v e by (simp add: content_alt)
qed

lemma RemoveAtStart_ok:
  assumes "heap_ok h (add_mset b B)"
  shows "heap_ok h (add_mset (RemoveAtStart n b) B)" "content h (RemoveAtStart n b) = drop n (content h b)"
  by (rule heap_ok_narrow [OF assms RemoveAtStart_data], erule RemoveAtStart_offs)
    (rule content_narrow [OF assms RemoveAtStart_data], erule (1) RemoveAtStart_view)

lemma RemoveAtEnd_ok:
  assumes "heap_ok h (add_mset b B)"
  shows "heap_ok h (add_mset (RemoveAtEnd n b) B)" "content h (RemoveAtEnd n b) = take (GetSize b - n) (content h b)"
  by (rule heap_ok_narrow [OF assms RemoveAtEnd_data], erule RemoveAtEnd_offs)
    (rule content_narrow [OF assms RemoveAtEnd_data], erule (1) RemoveAtEnd_view)

section \<open>Copies and destruction\<close>

lemma Buffer_copy_ok:
  assumes H: "heap_ok h (add_mset b B)" and c: "Buffer_copy b h = (b', h')"
  shows "heap_ok h' (add_mset b' (add_mset b B))" "content h' b' = content h b" "content h' x = content h x"
proof -
  have r: "refs_ok h (add_mset (b_data b) (image_mset b_data B))" and s: "share_ok h (add_mset b B)"
    using H by (auto simp: heap_ok_def)
  have e: "b' = b\<lparr>b_maxZeroAreaStart := b_zeroAreaStart b\<rparr>"
    and h': "h' = upd_data (b_data b) (\<lambda>d. d\<lparr>bd_count := bd_count d + 1\<rparr>) h"
    using c by (auto simp: Buffer_copy_def)
  have k: "block h' x = block h x" for x unfolding h' by (rule retain_refs(2) [OF r]) simp
  have "refs_ok h' (add_mset (b_data b) (add_mset (b_data b) (image_mset b_data B)))"
    unfolding h' by (rule retain_refs(1) [OF r]) simp
  moreover have o: "offs_ok Z d b' = offs_ok Z d b" for Z d by (simp add: e offs_ok_def zlen_def)
  moreover have "share_ok h' (add_mset b (add_mset b B))"
    using share_ok_cong [OF s k] by (simp add: share_ok_def)
  then have "share_ok h' (add_mset b' (add_mset b B))"
    using o by (auto simp: share_ok_def e)
  ultimately show "heap_ok h' (add_mset b' (add_mset b B))" by (simp add: heap_ok_def e)
  show "content h' b' = content h b" using k by (simp add: content_def e view_def zlen_def split: option.split)
  show "content h' x = content h x" by (rule content_cong [OF k])
qed

lemma globals_heap_ok: "heap_ok (h\<lparr>g_recommendedStart := x\<rparr>) B = heap_ok h B"
  by (simp add: heap_ok_def refs_ok_def share_ok_def block_def)

lemma globals_content: "content (h\<lparr>g_recommendedStart := x\<rparr>) b = content h b"
  by (simp add: content_def block_def)

lemma release_ok:
  assumes "heap_ok h (add_mset b B)"
  obtains h' where "release (b_data b) h = Some h'" "heap_ok h' B" "\<And>c. c \<in># B \<Longrightarrow> content h' c = content h c"
proof -
  have r: "refs_ok h (add_mset (b_data b) (image_mset b_data B))" and s: "share_ok h B"
    using heap_ok_focus [OF assms] by metis+
  obtain h' where R: "release (b_data b) h = Some h'" and r': "refs_ok h' (image_mset b_data B)"
    and k: "\<And>x. x \<in># image_mset b_data B \<Longrightarrow> block h' x = block h x"
    using release_refs [OF r] by blast
  have k': "block h' (b_data c) = block h (b_data c)" if "c \<in># B" for c
    by (rule k) (use that in auto)
  show ?thesis
    by (rule that [OF R]) (auto simp: heap_ok_def r' intro: share_ok_cong [OF s k'] content_cong k')
qed

lemma Buffer_destroy_ok:
  assumes "heap_ok h (add_mset b B)"
  obtains h' where "Buffer_destroy b h = Some h'" "heap_ok h' B" "\<And>c. c \<in># B \<Longrightarrow> content h' c = content h c"
proof -
  let ?h = "h\<lparr>g_recommendedStart := max (g_recommendedStart h) (b_maxZeroAreaStart b)\<rparr>"
  have "heap_ok ?h (add_mset b B)" using assms by (simp add: globals_heap_ok)
  then obtain h' where h': "release (b_data b) ?h = Some h'" "heap_ok h' B"
    "\<And>c. c \<in># B \<Longrightarrow> content h' c = content ?h c"
    using release_ok by metis
  show ?thesis
    by (rule that [OF _ h'(2)]) (use h'(1,3) in \<open>auto simp: Buffer_destroy_def globals_content\<close>)
qed

lemma Buffer_Initialize_ok:
  assumes H: "heap_ok h B"
  obtains b h' where "Buffer_Initialize n h = Some (b, h')" "heap_ok h' (add_mset b B)" "content h' b = replicate n 0"
    "\<And>c. c \<in># B \<Longrightarrow> content h' c = content h c" "b_zeroAreaStart b = b_start b" "b_zeroAreaEnd b = b_end b"
    "\<forall>c\<in>#B. b_data c \<noteq> b_data b"
proof -
  have r: "refs_ok h (image_mset b_data B)" and s: "share_ok h B" using H by (auto simp: heap_ok_def)
  obtain a h1 d where C: "Create 0 h = Some (a, h1)" and r1: "refs_ok h1 (add_mset a (image_mset b_data B))"
    and a: "a \<notin># image_mset b_data B" and k: "\<And>x. x \<in># image_mset b_data B \<Longrightarrow> bh_data h1 x = bh_data h x"
    and d: "bh_data h1 a = Some d" using Create_refs [OF r] by metis
  define st where "st = min (bd_size d) (g_recommendedStart h1)"
  define b where "b = \<lparr>b_data = a, b_maxZeroAreaStart = st, b_zeroAreaStart = st, b_zeroAreaEnd = st + n,
     b_start = st, b_end = st + n\<rparr>"
  have k': "block h1 (b_data c) = block h (b_data c)" if "c \<in># B" for c
    by (rule block_cong, rule k) (use that in auto)
  have I: "Buffer_Initialize n h = Some (b, set_dirty b h1)"
    by (simp add: Buffer_Initialize_def C d b_def st_def Let_def)
  have "heap_ok (set_dirty b h1) (add_mset b B)" unfolding set_dirty_def
  proof (rule heap_ok_fresh_block [where Z = n and d = d])
    show "share_ok h1 B" by (rule share_ok_cong [OF s k'])
    show "offs_ok n (d\<lparr>bd_dirtyStart := b_start b, bd_dirtyEnd := b_end b\<rparr>) b"
      by (auto simp: offs_ok_def b_def zlen_def st_def)
  qed (use r1 a d in \<open>auto simp: b_def\<close>)
  moreover have "content (set_dirty b h1) b = replicate n 0"
    using d by (simp add: content_alt set_dirty_def b_def view_def zlen_def)
  moreover have "content (set_dirty b h1) c = content h c" if "c \<in># B" for c
    using content_upd_keep content_cong [OF k' [OF that]] by (simp add: set_dirty_def)
  moreover have "\<forall>c\<in>#B. b_data c \<noteq> b_data b" using a by (auto simp: b_def)
  ultimately show ?thesis by (intro that [OF I]) (simp_all add: b_def)
qed

lemma Buffer_assign_ok:
  assumes H: "heap_ok h (add_mset b (add_mset c B))"
  obtains h' where "Buffer_assign b c h = Some (c, h')" "heap_ok h' (add_mset c (add_mset c B))"
    "content h' c = content h c" "\<And>x. x \<in># B \<Longrightarrow> content h' x = content h x"
proof (cases "b_data b = b_data c")
  case True
  let ?h = "h\<lparr>g_recommendedStart := max (g_recommendedStart h) (b_maxZeroAreaStart b)\<rparr>"
  have "share_ok h (add_mset c (add_mset c B))"
    using H unfolding heap_ok_def share_ok_def by fastforce
  then have "heap_ok h (add_mset c (add_mset c B))" using H True by (simp add: heap_ok_def)
  then show ?thesis using that [of ?h] True by (simp add: Buffer_assign_def globals_heap_ok globals_content)
next
  case False
  obtain h1 where R: "release (b_data b) h = Some h1" and H1: "heap_ok h1 (add_mset c B)"
    and c1: "\<And>x. x \<in># add_mset c B \<Longrightarrow> content h1 x = content h x"
    using release_ok [OF H] by blast
  let ?g = "g_recommendedStart h1"
  let ?h2 = "upd_data (b_data c) (\<lambda>d. d\<lparr>bd_count := bd_count d + 1\<rparr>) h1"
  obtain c' h2 where cp: "Buffer_copy c h1 = (c', h2)" by fastforce
  have h2: "h2 = ?h2" and c': "c' = c\<lparr>b_maxZeroAreaStart := b_zeroAreaStart c\<rparr>"
    using cp by (auto simp: Buffer_copy_def)
  have "heap_ok ?h2 (add_mset c (add_mset c B))"
  proof (rule heap_ok_narrow)
    show "heap_ok ?h2 (add_mset c' (add_mset c B))" using Buffer_copy_ok(1) [OF H1 cp] by (simp add: h2)
  qed (auto simp: c' offs_ok_def zlen_def)
  moreover have "content ?h2 x = content h x" if "x \<in># add_mset c B" for x
    using Buffer_copy_ok(3) [OF H1 cp] c1 [OF that] by (simp add: h2)
  ultimately show ?thesis
    using that [of "?h2\<lparr>g_recommendedStart := max (g_recommendedStart ?h2) (b_maxZeroAreaStart b)\<rparr>"] False R
    by (simp add: Buffer_assign_def globals_heap_ok globals_content)
qed

end
