(* ===== verification/Buffer_Iterators.thy ===== *)
theory Buffer_Iterators
  imports Buffer_Operations
begin

text \<open>
  Reading and writing through iterators: what an iterator at an offset of a buffer reads is the content at
  that offset, whether it is before, in or after the zero area, and the writers of the headers store their
  bytes in the room that \<^verbatim>\<open>AddAtStart\<close> and \<^verbatim>\<open>AddAtEnd\<close> made.
\<close>

section \<open>Reading\<close>

definition at :: "buffer \<Rightarrow> nat \<Rightarrow> biter" where
  "at b k = (It_Begin b)\<lparr>i_current := b_start b + k\<rparr>"

lemma at_simps [simp]:
  "i_zeroStart (at b k) = b_zeroAreaStart b" "i_zeroEnd (at b k) = b_zeroAreaEnd b"
  "i_dataStart (at b k) = b_start b" "i_dataEnd (at b k) = b_end b" "i_current (at b k) = b_start b + k"
  "i_data (at b k) = b_data b" "(at b k)\<lparr>i_current := b_start b + m\<rparr> = at b m" "at b 0 = It_Begin b"
  by (simp_all add: at_def It_Begin_def)

lemma at_plus: "(at b k)\<lparr>i_current := b_start b + k + m\<rparr> = at b (k + m)"
  by (simp add: at_def)

lemma mem_read_eq: "i + n \<le> length bs \<Longrightarrow> mem_read i n bs = Some (take n (drop i bs))"
  by (simp add: mem_read_def)

text \<open>The content in terms of the shape.\<close>

lemma content_shape:
  assumes H: "heap_ok h (add_mset b B)"
  obtains d st x z y P X Y R where "bh_data h (b_data b) = Some d" "shape b st x z y"
    "bd_bytes d = P @ X @ Y @ R" "length P = st" "length X = x" "length Y = y"
    "content h b = X @ replicate z 0 @ Y"
proof -
  obtain d Z where d: "bh_data h (b_data b) = Some d" and o: "offs_ok Z d b" and l: "length (bd_bytes d) = bd_size d"
    using heap_ok_focus [OF H] by metis
  obtain st x z y where s: "shape b st x z y" using shape_exists [OF o] .
  obtain P X Y R where b: "bd_bytes d = P @ X @ Y @ R" "length P = b_start b"
    "length X = b_zeroAreaStart b - b_start b" "length Y = b_end b - b_zeroAreaEnd b"
    using view_parts [OF o l] .
  show ?thesis
    by (rule that [OF d s b(1)]) (use b s d in \<open>auto simp: shape_def content_alt view_append zlen_def\<close>)
qed

lemma heap_read_head:
  assumes "bh_data h a = Some d" and "bd_bytes d = P @ X @ R" and "length P + k = p" and "k + n \<le> length X"
  shows "heap_read a p n h = Some (take n (drop k X))"
  using assms by (auto simp: heap_read_def mem_read_def)

lemma It_PeekU8_at:
  assumes H: "heap_ok h (add_mset b B)"
  shows "It_PeekU8 (at b k) h = (if k < GetSize b then Some (content h b ! k) else None)"
proof -
  obtain d st x z y P X Y R where d: "bh_data h (b_data b) = Some d" and s: "shape b st x z y"
    and bs: "bd_bytes d = P @ X @ Y @ R" and l: "length P = st" "length X = x" "length Y = y"
    and c: "content h b = X @ replicate z 0 @ Y" using content_shape [OF H] by metis
  have g: "GetSize b = x + z + y" using s by (simp add: GetSize_def shape_def)
  have ov: "b_start b = st" "b_zeroAreaStart b = st + x" "b_zeroAreaEnd b = st + x + z" "b_end b = st + x + z + y"
    using s by (auto simp: shape_def)
  consider "k < x" | "x \<le> k" "k < x + z" | "x + z \<le> k" "k < x + z + y" | "x + z + y \<le> k" by linarith
  then show ?thesis
  proof cases
    case 1
    have "heap_read (b_data b) (st + k) 1 h = Some (take 1 (drop k X))"
      by (rule heap_read_head [OF d, of P X "Y @ R"]) (use bs l 1 in auto)
    moreover have "hd (take 1 (drop k X)) = X ! k" using 1 l by (simp add: hd_drop_conv_nth)
    ultimately show ?thesis using 1 l by (simp add: It_PeekU8_def It_pos_def ov g c nth_append)
  next
    case 2
    then show ?thesis using l by (auto simp: It_PeekU8_def ov g c nth_append)
  next
    case 3
    have "heap_read (b_data b) (st + k - z) 1 h = Some (take 1 (drop (k - x - z) Y))"
      by (rule heap_read_head [OF d, of "P @ X" Y R]) (use bs l 3 in auto)
    moreover have "hd (take 1 (drop (k - x - z) Y)) = Y ! (k - x - z)" using 3 l by (simp add: hd_drop_conv_nth)
    ultimately show ?thesis using 3 l by (auto simp: It_PeekU8_def It_pos_def ov g c nth_append)
  next
    case 4
    then show ?thesis by (simp add: It_PeekU8_def ov g)
  qed
qed

lemma It_ReadU8_at:
  assumes "heap_ok h (add_mset b B)"
  shows "It_ReadU8 (at b k) h = (if k < GetSize b then Some (content h b ! k, at b (Suc k)) else None)"
  using It_PeekU8_at [OF assms] at_plus [of b k 1] by (simp add: It_ReadU8_def)

lemma It_ReadU8s_at:
  assumes H: "heap_ok h (add_mset b B)" and "k + n \<le> GetSize b"
  shows "It_ReadU8s n (at b k) h = Some (take n (drop k (content h b)), at b (k + n))"
  using assms(2)
proof (induction n arbitrary: k)
  case (Suc n)
  have "drop k (content h b) = content h b ! k # drop (Suc k) (content h b)"
    using Suc(2) content_length [OF H] by (intro Cons_nth_drop_Suc [symmetric]) simp
  then show ?case using Suc It_ReadU8_at [OF H] by simp
qed simp

lemma It_load_at:
  assumes H: "heap_ok h (add_mset b B)" and n: "k + n \<le> GetSize b"
  shows "It_load n (at b k) h = Some (take n (drop k (content h b)), at b (k + n))"
proof -
  obtain d st x z y P X Y R where d: "bh_data h (b_data b) = Some d" and s: "shape b st x z y"
    and bs: "bd_bytes d = P @ X @ Y @ R" and l: "length P = st" "length X = x" "length Y = y"
    and c: "content h b = X @ replicate z 0 @ Y" using content_shape [OF H] by metis
  have g: "GetSize b = x + z + y" using s by (simp add: GetSize_def shape_def)
  have ov: "b_start b = st" "b_zeroAreaStart b = st + x" "b_zeroAreaEnd b = st + x + z" "b_end b = st + x + z + y"
    using s by (auto simp: shape_def)
  consider "k + n \<le> x" | "\<not> k + n \<le> x" "x + z \<le> k" | "\<not> k + n \<le> x" "\<not> x + z \<le> k" by blast
  then show ?thesis
  proof cases
    case 1
    have "heap_read (b_data b) (st + k) n h = Some (take n (drop k X))"
      by (rule heap_read_head [OF d, of P X "Y @ R"]) (use bs l 1 in auto)
    then show ?thesis using 1 l at_plus [of b k n] by (simp add: It_load_def ov c add.assoc)
  next
    case 2
    have "heap_read (b_data b) (st + k - z) n h = Some (take n (drop (k - x - z) Y))"
      by (rule heap_read_head [OF d, of "P @ X" Y R]) (use bs l 2 n g in auto)
    then show ?thesis using 2 l at_plus [of b k n] by (simp add: It_load_def It_pos_def ov c add.assoc)
  next
    case 3
    then have "It_load n (at b k) h = It_ReadU8s n (at b k) h" by (auto simp: It_load_def ov)
    then show ?thesis using It_ReadU8s_at [OF H n] by simp
  qed
qed

lemma It_ReadNtoh_at:
  assumes "heap_ok h (add_mset b B)"
  shows "k + 2 \<le> GetSize b \<Longrightarrow> It_ReadNtohU16 (at b k) h = Some (word_of_msb (take 2 (drop k (content h b))), at b (k + 2))"
    "k + 4 \<le> GetSize b \<Longrightarrow> It_ReadNtohU32 (at b k) h = Some (word_of_msb (take 4 (drop k (content h b))), at b (k + 4))"
    "k + 8 \<le> GetSize b \<Longrightarrow> It_ReadNtohU64 (at b k) h = Some (word_of_msb (take 8 (drop k (content h b))), at b (k + 8))"
    "k + 2 \<le> GetSize b \<Longrightarrow> It_ReadU16 (at b k) h = Some (word_of_msb (rev (take 2 (drop k (content h b)))), at b (k + 2))"
    "k + 4 \<le> GetSize b \<Longrightarrow> It_ReadU32 (at b k) h = Some (word_of_msb (rev (take 4 (drop k (content h b)))), at b (k + 4))"
    "k + 8 \<le> GetSize b \<Longrightarrow> It_ReadU64 (at b k) h = Some (word_of_msb (rev (take 8 (drop k (content h b)))), at b (k + 8))"
  by (simp_all add: It_ReadNtohU16_def It_ReadNtohU32_def It_ReadNtohU64_def It_ReadU16_def It_ReadU32_def
      It_ReadU64_def It_load_at [OF assms] It_ReadU8s_at [OF assms])

section \<open>Writing\<close>

text \<open>A writer that emits \<open>vs\<close> anywhere before the zero area, as the serializers of headers do.\<close>

definition emits :: "(biter \<Rightarrow> bheap \<Rightarrow> (biter \<times> bheap) option) \<Rightarrow> u8 list \<Rightarrow> bool" where
  "emits w vs \<longleftrightarrow> (\<forall>i h h'. i_dataStart i \<le> i_current i \<and> i_current i + length vs \<le> i_zeroStart i \<and>
     i_zeroStart i \<le> i_zeroEnd i \<and> i_zeroEnd i \<le> i_dataEnd i \<and> heap_write (i_data i) (i_current i) vs h = Some h' \<longrightarrow>
     w i h = Some (i\<lparr>i_current := i_current i + length vs\<rparr>, h'))"

definition seq_writes :: "(biter \<Rightarrow> bheap \<Rightarrow> (biter \<times> bheap) option) \<Rightarrow> (biter \<Rightarrow> bheap \<Rightarrow> (biter \<times> bheap) option) \<Rightarrow>
    biter \<Rightarrow> bheap \<Rightarrow> (biter \<times> bheap) option" where
  "seq_writes w1 w2 i h = do { (i1, h1) \<leftarrow> w1 i h; w2 i1 h1 }"

lemma heap_write_Nil: "heap_write a p [] h = Some h' \<Longrightarrow> h' = h"
  by (cases "bh_data h a") (auto simp: heap_write_def mem_write_def upd_data_def fun_upd_idem)

lemma heap_write_append:
  assumes "heap_write a p (vs @ ws) h = Some h'"
  obtains h1 where "heap_write a p vs h = Some h1" "heap_write a (p + length vs) ws h1 = Some h'"
proof (cases "vs @ ws = []")
  case True
  then show ?thesis using assms that [of h'] heap_write_Nil [of a p h h'] by simp
next
  case False
  obtain d where d: "bh_data h a = Some d" and l: "p + length vs + length ws \<le> length (bd_bytes d)"
    and h': "h' = upd_data a (\<lambda>d'. d'\<lparr>bd_bytes := overwrite p (vs @ ws) (bd_bytes d)\<rparr>) h"
    using assms False by (cases "bh_data h a") (auto simp: heap_write_def mem_write_def overwrite_def add.assoc split: if_splits)
  let ?h1 = "upd_data a (\<lambda>d'. d'\<lparr>bd_bytes := overwrite p vs (bd_bytes d)\<rparr>) h"
  have w1: "heap_write a p vs h = Some ?h1" using d l by (simp add: heap_write_def mem_write_eq)
  moreover have "heap_write a (p + length vs) ws ?h1 = Some h'"
    using d l overwrite_overwrite [OF l] by (simp add: heap_write_def mem_write_eq h' upd_data_def)
  ultimately show ?thesis by (rule that)
qed

lemma emits_seq:
  assumes "emits w1 vs" and "emits w2 ws"
  shows "emits (seq_writes w1 w2) (vs @ ws)"
  unfolding emits_def
proof (intro allI impI, elim conjE)
  fix i :: biter and h h'
  assume i: "i_dataStart i \<le> i_current i" "i_current i + length (vs @ ws) \<le> i_zeroStart i"
    "i_zeroStart i \<le> i_zeroEnd i" "i_zeroEnd i \<le> i_dataEnd i" and w: "heap_write (i_data i) (i_current i) (vs @ ws) h = Some h'"
  obtain h1 where h1: "heap_write (i_data i) (i_current i) vs h = Some h1"
    "heap_write (i_data i) (i_current i + length vs) ws h1 = Some h'" using heap_write_append [OF w] .
  let ?i = "i\<lparr>i_current := i_current i + length vs\<rparr>"
  have "w1 i h = Some (?i, h1)" using assms(1) i h1 unfolding emits_def by simp
  moreover have "w2 ?i h1 = Some (?i\<lparr>i_current := i_current ?i + length ws\<rparr>, h')"
    using assms(2) i h1 unfolding emits_def by simp
  ultimately show "seq_writes w1 w2 i h = Some (i\<lparr>i_current := i_current i + length (vs @ ws)\<rparr>, h')"
    by (simp add: seq_writes_def add.assoc)
qed

lemma emits_Nil: "emits (\<lambda>i h. Some (i, h)) []"
  by (auto simp: emits_def dest: heap_write_Nil)

lemma emits_WriteU8: "emits (It_WriteU8 x) [x]"
  by (auto simp: emits_def It_WriteU8_def It_Check_def It_pos_def)

lemma emits_WriteU8s: "emits (It_WriteU8s vs) vs"
proof (induction vs)
  case (Cons x vs)
  have "It_WriteU8s (x # vs) = seq_writes (It_WriteU8 x) (It_WriteU8s vs)"
    by (intro ext) (simp add: seq_writes_def)
  then show ?case using emits_seq [OF emits_WriteU8 Cons] by simp
next
  case Nil
  have "It_WriteU8s [] = (\<lambda>i h. Some (i, h))" by (intro ext) simp
  then show ?case using emits_Nil by simp
qed

lemma emits_store: "emits (It_store vs) vs"
  by (auto simp: emits_def It_store_def It_CheckNoZero_def It_pos_def)

lemma emits_WriteU8_len: "emits (It_WriteU8_len x n) (replicate n x)"
  by (auto simp: emits_def It_WriteU8_len_def It_CheckNoZero_def It_pos_def)

lemma emits_Write: "emits (It_Write vs) vs"
  by (auto simp: emits_def It_Write_def It_CheckNoZero_def It_pos_def)

lemma emits_numbers:
  "emits (It_WriteHtonU16 x) [ucast (drop_bit 8 x), ucast x]"
  "emits (It_WriteHtonU32 v) [ucast (drop_bit 24 v), ucast (drop_bit 16 v), ucast (drop_bit 8 v), ucast v]"
  by (simp_all only: It_WriteHtonU16_def It_WriteHtonU32_def emits_store)

lemma heap_write_head:
  assumes H: "heap_ok h (add_mset b B)" and e: "exclusive (b_start b) n b B"
    and n: "b_start b + n \<le> b_zeroAreaStart b" and k: "k + length vs \<le> n"
  obtains h' where "heap_write (b_data b) (b_start b + k) vs h = Some h'" "heap_ok h' (add_mset b B)"
    "content h' b = overwrite k vs (content h b)" "\<And>c. c \<in># B \<Longrightarrow> content h' c = content h c"
proof -
  obtain d Z where d: "bh_data h (b_data b) = Some d" and o: "offs_ok Z d b" and l: "length (bd_bytes d) = bd_size d"
    using heap_ok_focus [OF H] by metis
  have p: "b_start b + k + length vs \<le> bd_size d" using o n k by (auto simp: offs_ok_def zlen_def)
  have x: "exclusive (b_start b + k) (length vs) b B" by (rule exclusive_sub [OF e]) (use k in auto)
  obtain h' where h': "heap_write (b_data b) (b_start b + k) vs h = Some h'" "heap_ok h' (add_mset b B)"
    "content h' b = view (overwrite (b_start b + k) vs (bd_bytes d)) b" "\<And>c. c \<in># B \<Longrightarrow> content h' c = content h c"
    using heap_write_exclusive [OF H x d p] by metis
  have "content h' b = overwrite (b_start b + k - b_start b) vs (view (bd_bytes d) b)"
    unfolding h'(3) by (rule view_write_head [OF o l]) (use n k in auto)
  then show ?thesis using that h' d by (simp add: content_alt)
qed

lemma heap_write_tail:
  assumes H: "heap_ok h (add_mset b B)" and e: "exclusive (GetInternalEnd b - n) n b B"
    and n: "b_zeroAreaEnd b + n \<le> b_end b" and k: "k + length vs \<le> n"
  obtains h' where "heap_write (b_data b) (GetInternalEnd b - n + k) vs h = Some h'" "heap_ok h' (add_mset b B)"
    "content h' b = overwrite (GetSize b - n + k) vs (content h b)" "\<And>c. c \<in># B \<Longrightarrow> content h' c = content h c"
proof -
  obtain d Z where d: "bh_data h (b_data b) = Some d" and o: "offs_ok Z d b" and l: "length (bd_bytes d) = bd_size d"
    using heap_ok_focus [OF H] by metis
  have ie: "b_zeroAreaStart b + n \<le> GetInternalEnd b" "GetInternalEnd b \<le> bd_size d"
    using o n by (auto simp: offs_ok_def zlen_def GetInternalEnd_def)
  have p: "GetInternalEnd b - n + k + length vs \<le> bd_size d" using ie k by linarith
  have x: "exclusive (GetInternalEnd b - n + k) (length vs) b B" by (rule exclusive_sub [OF e]) (use k in auto)
  obtain h' where h': "heap_write (b_data b) (GetInternalEnd b - n + k) vs h = Some h'" "heap_ok h' (add_mset b B)"
    "content h' b = view (overwrite (GetInternalEnd b - n + k) vs (bd_bytes d)) b" "\<And>c. c \<in># B \<Longrightarrow> content h' c = content h c"
    using heap_write_exclusive [OF H x d p] by metis
  have "content h' b = overwrite (GetInternalEnd b - n + k + zlen b - b_start b) vs (view (bd_bytes d) b)"
    unfolding h'(3) by (rule view_write_tail [OF o l]) (use ie k in auto)
  moreover have "GetInternalEnd b - n + k + zlen b - b_start b = GetSize b - n + k"
    using o n ie by (auto simp: offs_ok_def zlen_def GetInternalEnd_def GetSize_def)
  ultimately show ?thesis using that h' d by (simp add: content_alt)
qed

end
