(* ===== verification/Buffer_Copies.thy ===== *)
theory Buffer_Copies
  imports Buffer_Iterators
begin

text \<open>
  The operations of \<^verbatim>\<open>Buffer\<close> that combine several steps: making room and writing there, fragments, full
  copies, concatenation, serialization. The contents are again lists of bytes.
\<close>

section \<open>Making room and writing\<close>

lemma emits_at_start:
  assumes w: "emits w vs" and H: "heap_ok h (add_mset b B)" and e: "exclusive (b_start b) (length vs) b B"
    and n: "b_start b + length vs \<le> b_zeroAreaStart b"
  obtains i' h' where "w (It_Begin b) h = Some (i', h')" "heap_ok h' (add_mset b B)"
    "content h' b = overwrite 0 vs (content h b)" "\<And>c. c \<in># B \<Longrightarrow> content h' c = content h c"
proof -
  obtain d Z where o: "offs_ok Z d b" using heap_ok_focus [OF H] by metis
  obtain h' where h': "heap_write (b_data b) (b_start b + 0) vs h = Some h'" "heap_ok h' (add_mset b B)"
    "content h' b = overwrite 0 vs (content h b)" "\<And>c. c \<in># B \<Longrightarrow> content h' c = content h c"
    by (rule heap_write_head [OF H e n, where k = 0 and vs = vs]) auto
  have "w (It_Begin b) h = Some ((It_Begin b)\<lparr>i_current := i_current (It_Begin b) + length vs\<rparr>, h')"
    using w h'(1) n o unfolding emits_def by (simp add: It_Begin_def offs_ok_def)
  then show ?thesis using that h' by blast
qed

text \<open>A writer at the start of a buffer that writes \<^term>\<open>vs\<close> and may read what it has written.\<close>

definition emits_start :: "(biter \<Rightarrow> bheap \<Rightarrow> (biter \<times> bheap) option) \<Rightarrow> u8 list \<Rightarrow> bool" where
  "emits_start w vs \<longleftrightarrow> (\<forall>h b B. heap_ok h (add_mset b B) \<longrightarrow> exclusive (b_start b) (length vs) b B \<longrightarrow>
     b_start b + length vs \<le> b_zeroAreaStart b \<longrightarrow> (\<exists>i' h'. w (It_Begin b) h = Some (i', h') \<and> heap_ok h' (add_mset b B) \<and>
       content h' b = overwrite 0 vs (content h b) \<and> (\<forall>c\<in>#B. content h' c = content h c)))"

lemma emits_startD:
  assumes "emits_start w vs" and "heap_ok h (add_mset b B)" and "exclusive (b_start b) (length vs) b B"
    and "b_start b + length vs \<le> b_zeroAreaStart b"
  obtains i' h' where "w (It_Begin b) h = Some (i', h')" "heap_ok h' (add_mset b B)"
    "content h' b = overwrite 0 vs (content h b)" "\<And>c. c \<in># B \<Longrightarrow> content h' c = content h c"
  using assms unfolding emits_start_def by metis

lemma emits_starts: "emits w vs \<Longrightarrow> emits_start w vs"
  unfolding emits_start_def by (intro allI impI) (metis emits_at_start)

lemma prepend_start_ok:
  assumes w: "emits_start w vs" and H: "heap_ok h (add_mset b B)"
  obtains b' h1 i' h' where "AddAtStart (length vs) b h = Some (b', h1)" "w (It_Begin b') h1 = Some (i', h')"
    "heap_ok h' (add_mset b' B)" "content h' b' = vs @ content h b" "\<And>c. c \<in># B \<Longrightarrow> content h' c = content h c"
    "zlen b' = zlen b" "b_data b' = b_data b \<or> (\<forall>c\<in>#B. b_data c \<noteq> b_data b')"
    "heap_ok h1 (add_mset b' B)" "\<And>c. c \<in># B \<Longrightarrow> content h1 c = content h c"
proof -
  obtain b' h1 js where A: "AddAtStart (length vs) b h = Some (b', h1)" "heap_ok h1 (add_mset b' B)" "length js = length vs"
    "content h1 b' = js @ content h b" "\<And>c. c \<in># B \<Longrightarrow> content h1 c = content h c"
    "b_start b' + length vs \<le> b_zeroAreaStart b'" "exclusive (b_start b') (length vs) b' B" "zlen b' = zlen b"
    "b_data b' = b_data b \<or> (\<forall>c\<in>#B. b_data c \<noteq> b_data b')"
    using AddAtStart_ok [OF H] by metis
  obtain i' h' where W: "w (It_Begin b') h1 = Some (i', h')" "heap_ok h' (add_mset b' B)"
    "content h' b' = overwrite 0 vs (content h1 b')" "\<And>c. c \<in># B \<Longrightarrow> content h' c = content h1 c"
    using emits_startD [OF w A(2) A(7) A(6)] by metis
  show ?thesis
    by (rule that [OF A(1) W(1,2)]) (use A W in auto)
qed

lemmas prepend_ok = prepend_start_ok [OF emits_starts]

text \<open>A writer at the end of the buffer, after the zero area.\<close>

definition emits_back :: "(biter \<Rightarrow> bheap \<Rightarrow> (biter \<times> bheap) option) \<Rightarrow> u8 list \<Rightarrow> bool" where
  "emits_back w vs \<longleftrightarrow> (\<forall>i h h'. i_dataStart i \<le> i_zeroStart i \<and> i_zeroStart i \<le> i_zeroEnd i \<and> i_zeroEnd i \<le> i_current i \<and>
     i_current i + length vs = i_dataEnd i \<and>
     heap_write (i_data i) (i_current i - (i_zeroEnd i - i_zeroStart i)) vs h = Some h' \<longrightarrow>
     w i h = Some (i\<lparr>i_current := i_current i + length vs\<rparr>, h'))"

lemma emits_back_Write: "emits_back (It_Write vs) vs"
  by (auto simp: emits_back_def It_Write_def It_CheckNoZero_def It_pos_def)

lemma emits_back_store: "emits_back (It_store vs) vs"
proof -
  have e: "It_pos (i_dataEnd i \<le> i_zeroStart i) i = i_current i - (i_zeroEnd i - i_zeroStart i)"
    if "i_zeroStart i \<le> i_zeroEnd i" "i_zeroEnd i \<le> i_current i" "i_current i + length vs = i_dataEnd i" for i :: biter
    using that by (auto simp: It_pos_def)
  show ?thesis unfolding emits_back_def
    by (intro allI impI, elim conjE) (simp add: It_store_def It_CheckNoZero_def e)
qed

lemma append_ok:
  assumes w: "emits_back w vs" and H: "heap_ok h (add_mset b B)"
  obtains b' h1 i i' h' where "AddAtEnd (length vs) b h = Some (b', h1)" "It_Prev (length vs) (It_End b') = Some i"
    "w i h1 = Some (i', h')" "heap_ok h' (add_mset b' B)" "content h' b' = content h b @ vs"
    "\<And>c. c \<in># B \<Longrightarrow> content h' c = content h c" "zlen b' = zlen b"
    "b_data b' = b_data b \<or> (\<forall>c\<in>#B. b_data c \<noteq> b_data b')"
    "heap_ok h1 (add_mset b' B)" "\<And>c. c \<in># B \<Longrightarrow> content h1 c = content h c"
proof -
  let ?n = "length vs"
  obtain b' h1 js where A: "AddAtEnd ?n b h = Some (b', h1)" "heap_ok h1 (add_mset b' B)" "length js = ?n"
    "content h1 b' = content h b @ js" "\<And>c. c \<in># B \<Longrightarrow> content h1 c = content h c"
    "b_zeroAreaEnd b' + ?n \<le> b_end b'" "exclusive (GetInternalEnd b' - ?n) ?n b' B" "zlen b' = zlen b"
    "b_data b' = b_data b \<or> (\<forall>c\<in>#B. b_data c \<noteq> b_data b')"
    using AddAtEnd_ok [OF H] by metis
  obtain d Z where o: "offs_ok Z d b'" using heap_ok_focus [OF A(2)] by metis
  obtain h' where h': "heap_write (b_data b') (GetInternalEnd b' - ?n + 0) vs h1 = Some h'" "heap_ok h' (add_mset b' B)"
    "content h' b' = overwrite (GetSize b' - ?n + 0) vs (content h1 b')" "\<And>c. c \<in># B \<Longrightarrow> content h' c = content h1 c"
    by (rule heap_write_tail [OF A(2,7,6), where k = 0 and vs = vs]) auto
  define i where "i = (It_End b')\<lparr>i_current := b_end b' - ?n\<rparr>"
  have P: "It_Prev ?n (It_End b') = Some i"
    using A(6) by (simp add: It_Prev_def It_End_def It_Begin_def i_def)
  have W: "w i h1 = Some (i\<lparr>i_current := i_current i + ?n\<rparr>, h')"
  proof (rule w [unfolded emits_back_def, rule_format])
    have "i_current i - (i_zeroEnd i - i_zeroStart i) = GetInternalEnd b' - ?n + 0"
      using A(6) by (simp add: i_def It_End_def It_Begin_def GetInternalEnd_def)
    then show "i_dataStart i \<le> i_zeroStart i \<and> i_zeroStart i \<le> i_zeroEnd i \<and> i_zeroEnd i \<le> i_current i \<and>
       i_current i + ?n = i_dataEnd i \<and> heap_write (i_data i) (i_current i - (i_zeroEnd i - i_zeroStart i)) vs h1 = Some h'"
      using h'(1) A(6) o by (simp add: i_def It_End_def It_Begin_def offs_ok_def)
  qed
  have "GetSize b' - ?n = length (content h b)" using content_length [OF A(2)] A(3,4) by simp
  then have "content h' b' = content h b @ vs" using h'(3) A(3,4) by simp
  then show ?thesis using that [OF A(1) P W h'(2)] A h' by simp
qed

section \<open>Fragments\<close>

lemma CreateFragment_ok:
  assumes H: "heap_ok h (add_mset b B)" and n: "start + len \<le> GetSize b" and g: "GetSize b < 2 ^ 32"
  obtains f h' where "CreateFragment start len b h = (f, h')" "heap_ok h' (add_mset f (add_mset b B))"
    "content h' f = take len (drop start (content h b))" "\<And>c. content h' c = content h c"
proof -
  obtain t h1 where c: "Buffer_copy b h = (t, h1)" by fastforce
  note C = Buffer_copy_ok [OF H c]
  let ?n = "nat ((int (GetSize b) - int (start + len)) mod 2 ^ 32)"
  let ?f = "RemoveAtEnd ?n (RemoveAtStart start t)"
  have m: "?n = GetSize b - (start + len)" using n g by (simp add: of_nat_diff [symmetric] nat_mod_as_int [symmetric] del: of_nat_diff of_nat_add)
  note S = RemoveAtStart_ok [OF C(1), where n = start]
  note E = RemoveAtEnd_ok [OF S(1), where n = ?n]
  have "GetSize (RemoveAtStart start t) = GetSize b - start"
    using content_length [OF S(1)] S(2) C(2) content_length [OF H] by simp
  then have "content h1 ?f = take len (drop start (content h b))"
    using E(2) S(2) C(2) n unfolding m by simp
  moreover have "CreateFragment start len b h = (?f, h1)" by (simp add: CreateFragment_def c)
  ultimately show ?thesis using that E(1) C(3) by blast
qed

section \<open>Full copies\<close>

lemma heap_read_parts:
  assumes H: "heap_ok h (add_mset b B)"
  shows "heap_read (b_data b) (b_start b) (b_zeroAreaStart b - b_start b) h =
      Some (take (b_zeroAreaStart b - b_start b) (content h b))" (is ?head)
    and "heap_read (b_data b) (b_zeroAreaStart b) (b_end b - b_zeroAreaEnd b) h =
      Some (drop (b_zeroAreaEnd b - b_start b) (content h b))" (is ?tail)
    and "content h b = take (b_zeroAreaStart b - b_start b) (content h b) @ replicate (zlen b) 0 @
      drop (b_zeroAreaEnd b - b_start b) (content h b)" (is ?split)
    and "b_start b \<le> b_zeroAreaStart b" "b_zeroAreaStart b \<le> b_zeroAreaEnd b" "b_zeroAreaEnd b \<le> b_end b"
proof -
  obtain d st x z y P X Y R where d: "bh_data h (b_data b) = Some d" and s: "shape b st x z y"
    and bs: "bd_bytes d = P @ X @ Y @ R" and l: "length P = st" "length X = x" "length Y = y"
    and c: "content h b = X @ replicate z 0 @ Y" using content_shape [OF H] by metis
  have ov: "b_start b = st" "b_zeroAreaStart b = st + x" "b_zeroAreaEnd b = st + x + z" "b_end b = st + x + z + y"
    using s by (auto simp: shape_def)
  show ?head using heap_read_head [OF d, of P X "Y @ R" 0 st x] bs l by (simp add: ov c)
  show ?tail using heap_read_head [OF d, of "P @ X" Y R 0 "st + x" y] bs l by (simp add: ov c)
  show ?split using l by (simp add: ov c zlen_def)
  show "b_start b \<le> b_zeroAreaStart b" "b_zeroAreaStart b \<le> b_zeroAreaEnd b" "b_zeroAreaEnd b \<le> b_end b"
    by (simp_all add: ov)
qed

text \<open>The same with the lengths of the three parts.\<close>

lemma heap_read_shape:
  assumes H: "heap_ok h (add_mset b B)" and c: "content h b = v @ replicate z 0 @ w"
    and s: "shape b st x z y" and l: "length v = x" "length w = y"
  shows "heap_read (b_data b) st x h = Some v" "heap_read (b_data b) (st + x) y h = Some w"
  using heap_read_parts(1,2) [OF H] c s l by (simp_all add: shape_def)

lemma shape_of:
  assumes H: "heap_ok h (add_mset b B)"
  obtains v w st x z y where "shape b st x z y" "content h b = v @ replicate z 0 @ w" "length v = x" "length w = y"
  using content_shape [OF H] by metis

lemma CreateFullCopy_ok:
  assumes H: "heap_ok h (add_mset b B)"
  obtains t h' where "CreateFullCopy b h = Some (t, h')" "heap_ok h' (add_mset t (add_mset b B))"
    "content h' t = content h b" "\<And>c. c \<in># add_mset b B \<Longrightarrow> content h' c = content h c" "zlen t = 0"
    "b_data t = b_data b \<or> (\<forall>c\<in>#B. b_data c \<noteq> b_data t)"
proof (cases "b_zeroAreaEnd b - b_zeroAreaStart b = 0")
  case True
  obtain t h' where c: "Buffer_copy b h = (t, h')" by fastforce
  note C = Buffer_copy_ok [OF H c]
  have t: "t = b\<lparr>b_maxZeroAreaStart := b_zeroAreaStart b\<rparr>" using c by (simp add: Buffer_copy_def)
  show ?thesis
    by (rule that [OF _ C(1,2)]) (use True c C(3) in \<open>auto simp: CreateFullCopy_def t zlen_def\<close>)
next
  case False
  let ?B = "add_mset b B" and ?z = "zlen b"
  let ?x = "b_zeroAreaStart b - b_start b" and ?y = "b_end b - b_zeroAreaEnd b"
  obtain t0 h0 where I: "Buffer_Initialize 0 h = Some (t0, h0)" "heap_ok h0 (add_mset t0 ?B)" "content h0 t0 = []"
    "\<And>c. c \<in># ?B \<Longrightarrow> content h0 c = content h c" "b_zeroAreaStart t0 = b_start t0" "b_zeroAreaEnd t0 = b_end t0"
    "\<forall>c\<in>#?B. b_data c \<noteq> b_data t0"
    using Buffer_Initialize_ok [OF H, where n = 0] by (metis replicate_0)
  have st0: "b_start t0 = b_end t0"
    using content_length [OF I(2)] I(3,5,6) heap_read_parts(5) [OF I(2)] by (simp add: GetSize_def)
  then have z0: "zlen t0 = 0" using I(5,6) by (simp add: zlen_def)
  obtain t1 h1 i1 h2 where S1: "AddAtStart ?z t0 h0 = Some (t1, h1)" "It_WriteU8_len 0 ?z (It_Begin t1) h1 = Some (i1, h2)"
    "heap_ok h2 (add_mset t1 ?B)" "content h2 t1 = replicate ?z 0 @ content h0 t0"
    "\<And>c. c \<in># ?B \<Longrightarrow> content h2 c = content h0 c" "zlen t1 = zlen t0"
    "b_data t1 = b_data t0 \<or> (\<forall>c\<in>#?B. b_data c \<noteq> b_data t1)"
    using prepend_ok [OF emits_WriteU8_len [of 0 ?z] I(2)] by (metis length_replicate)
  define v where "v = take ?x (content h b)"
  define w where "w = drop (b_zeroAreaEnd b - b_start b) (content h b)"
  have lv: "length v = ?x" using content_length [OF H] heap_read_parts(4-6) [OF H] by (simp add: v_def GetSize_def)
  have lw: "length w = ?y" using content_length [OF H] heap_read_parts(4-6) [OF H] by (simp add: w_def GetSize_def)
  obtain t3 h3 i3 h4 where S3: "AddAtStart (length v) t1 h2 = Some (t3, h3)" "It_Write v (It_Begin t3) h3 = Some (i3, h4)"
    "heap_ok h4 (add_mset t3 ?B)" "content h4 t3 = v @ content h2 t1" "\<And>c. c \<in># ?B \<Longrightarrow> content h4 c = content h2 c"
    "zlen t3 = zlen t1" "b_data t3 = b_data t1 \<or> (\<forall>c\<in>#?B. b_data c \<noteq> b_data t3)" "heap_ok h3 (add_mset t3 ?B)"
    "\<And>c. c \<in># ?B \<Longrightarrow> content h3 c = content h2 c"
    by (rule prepend_ok [OF emits_Write [of v] S1(3)]) (rule that)
  obtain t5 h5 i5 j5 h6 where S5: "AddAtEnd (length w) t3 h4 = Some (t5, h5)" "It_Prev (length w) (It_End t5) = Some i5"
    "It_Write w i5 h5 = Some (j5, h6)" "heap_ok h6 (add_mset t5 ?B)" "content h6 t5 = content h4 t3 @ w"
    "\<And>c. c \<in># ?B \<Longrightarrow> content h6 c = content h4 c" "zlen t5 = zlen t3"
    "b_data t5 = b_data t3 \<or> (\<forall>c\<in>#?B. b_data c \<noteq> b_data t5)" "heap_ok h5 (add_mset t5 ?B)"
    "\<And>c. c \<in># ?B \<Longrightarrow> content h5 c = content h4 c"
    by (rule append_ok [OF emits_back_Write [of w] S3(3)]) (rule that)
  have b3: "content h3 b = content h b" "content h5 b = content h b"
    using S3(5,9) [of b] S1(5) [of b] I(4) [of b] S5(10) [of b] by simp_all
  have H3: "heap_ok h3 (add_mset b (add_mset t3 B))" "heap_ok h5 (add_mset b (add_mset t5 B))"
    using S3(8) S5(9) by (simp_all add: add_mset_commute)
  have r3: "heap_read (b_data b) (b_start b) ?x h3 = Some v" "heap_read (b_data b) (b_zeroAreaStart b) ?y h5 = Some w"
    using heap_read_parts(1) [OF H3(1)] heap_read_parts(2) [OF H3(2)] b3 by (simp_all add: v_def w_def)
  have z: "b_zeroAreaEnd b - b_zeroAreaStart b = ?z" by (simp add: zlen_def)
  have "CreateFullCopy b h = Some (t5, h6)"
    using False I(1) S1(1,2) S3(1,2) S5(1-3) r3 lv lw by (simp add: CreateFullCopy_def z Let_def)
  moreover have "content h6 t5 = content h b"
    using S5(5) S3(4) S1(4) I(3) heap_read_parts(3) [OF H] by (simp add: v_def w_def)
  moreover have "content h6 c = content h c" if "c \<in># ?B" for c
    using S5(6) S3(5) S1(5) I(4) that by metis
  moreover have "zlen t5 = 0" using S5(7) S3(6) S1(6) z0 by simp
  moreover have "\<forall>c\<in>#?B. b_data c \<noteq> b_data t5" using S5(8) S3(7) S1(7) I(7) by metis
  ultimately show ?thesis using that S5(4) by simp
qed

lemma TransformIntoRealBuffer_ok:
  assumes H: "heap_ok h (add_mset b B)"
  obtains t h' where "TransformIntoRealBuffer b h = Some (t, h')" "heap_ok h' (add_mset t B)"
    "content h' t = content h b" "\<And>c. c \<in># B \<Longrightarrow> content h' c = content h c" "zlen t = 0"
    "b_data t = b_data b \<or> (\<forall>c\<in>#B. b_data c \<noteq> b_data t)"
proof -
  obtain t h1 where F: "CreateFullCopy b h = Some (t, h1)" "heap_ok h1 (add_mset t (add_mset b B))"
    "content h1 t = content h b" "\<And>c. c \<in># add_mset b B \<Longrightarrow> content h1 c = content h c" "zlen t = 0"
    "b_data t = b_data b \<or> (\<forall>c\<in>#B. b_data c \<noteq> b_data t)"
    using CreateFullCopy_ok [OF H] by metis
  have H1: "heap_ok h1 (add_mset b (add_mset t B))" using F(2) by (simp add: add_mset_commute)
  obtain h2 where A: "Buffer_assign b t h1 = Some (t, h2)" "heap_ok h2 (add_mset t (add_mset t B))"
    "content h2 t = content h1 t" "\<And>x. x \<in># B \<Longrightarrow> content h2 x = content h1 x"
    using Buffer_assign_ok [OF H1] by metis
  obtain h3 where D: "Buffer_destroy t h2 = Some h3" "heap_ok h3 (add_mset t B)"
    "\<And>c. c \<in># add_mset t B \<Longrightarrow> content h3 c = content h2 c"
    using Buffer_destroy_ok [OF A(2)] by metis
  show ?thesis
    by (rule that [of t h3]) (use F A D in \<open>auto simp: TransformIntoRealBuffer_def\<close>)
qed

section \<open>Concatenation\<close>

text \<open>Writing another buffer into the room at the end of a buffer without zero area.\<close>

lemma It_Write_range_ok:
  assumes H: "heap_ok h (add_mset t (add_mset c B))" and z: "zlen t = 0" and n: "n = GetSize c"
    and x: "exclusive (GetInternalEnd t - n) n t (add_mset c B)" and e: "b_zeroAreaEnd t + n \<le> b_end t"
    and d: "b_data c \<noteq> b_data t" and i: "It_Prev n (It_End t) = Some i"
  obtains i' h' where "It_Write_range (It_Begin c) (It_End c) i h = Some (i', h')"
    "heap_ok h' (add_mset t (add_mset c B))" "content h' t = overwrite (GetSize t - n) (content h c) (content h t)"
    "\<And>x. x \<in># add_mset c B \<Longrightarrow> content h' x = content h x"
proof -
  let ?B = "add_mset c B"
  have Hc: "heap_ok h (add_mset c (add_mset t B))" using H by (simp add: add_mset_commute)
  obtain v w st x z y where s: "shape c st x z y" and c: "content h c = v @ replicate z 0 @ w"
    and lv: "length v = x" and lw: "length w = y" using shape_of [OF Hc] .
  have ov: "b_start c = st" "b_zeroAreaStart c = st + x" "b_zeroAreaEnd c = st + x + z" "b_end c = st + x + z + y"
    using s by (auto simp: shape_def)
  have nn: "n = x + z + y" using n s by (simp add: GetSize_def shape_def)
  have zt: "b_zeroAreaEnd t = b_zeroAreaStart t" and bt: "b_start t \<le> b_zeroAreaStart t"
    using z heap_read_parts(4,5) [OF H] by (simp_all add: zlen_def)
  define p where "p = GetInternalEnd t - n"
  have pos: "b_end t = p + n" "b_zeroAreaStart t \<le> p" "b_start t \<le> p"
    using e bt zt by (auto simp: GetInternalEnd_def p_def)
  have i': "i = (It_End t)\<lparr>i_current := p\<rparr>"
    using i pos by (auto simp: It_Prev_def It_End_def It_Begin_def split: if_splits)
  obtain h1 where W1: "heap_write (b_data t) (p + 0) v h = Some h1" "heap_ok h1 (add_mset t ?B)"
    "content h1 t = overwrite (GetSize t - n + 0) v (content h t)" "\<And>x. x \<in># ?B \<Longrightarrow> content h1 x = content h x"
    unfolding p_def by (rule heap_write_tail [OF H x e, where k = 0 and vs = v]) (use lv nn in auto)
  obtain h2 where W2: "heap_write (b_data t) (p + x) (replicate z 0) h1 = Some h2" "heap_ok h2 (add_mset t ?B)"
    "content h2 t = overwrite (GetSize t - n + x) (replicate z 0) (content h1 t)"
    "\<And>x. x \<in># ?B \<Longrightarrow> content h2 x = content h1 x"
    unfolding p_def by (rule heap_write_tail [OF W1(2) x e, where k = x and vs = "replicate z 0"]) (use nn in auto)
  obtain h3 where W3: "heap_write (b_data t) (p + (x + z)) w h2 = Some h3" "heap_ok h3 (add_mset t ?B)"
    "content h3 t = overwrite (GetSize t - n + (x + z)) w (content h2 t)"
    "\<And>x. x \<in># ?B \<Longrightarrow> content h3 x = content h2 x"
    unfolding p_def by (rule heap_write_tail [OF W2(2) x e, where k = "x + z" and vs = w]) (use lw nn in auto)
  have H2: "heap_ok h2 (add_mset c (add_mset t B))" using W2(2) by (simp add: add_mset_commute)
  have c2: "content h2 c = v @ replicate z 0 @ w" using W1(4) [of c] W2(4) [of c] c by simp
  note r = heap_read_shape(1) [OF Hc c s lv lw] heap_read_shape(2) [OF H2 c2 s lv lw]
  have ok: "It_CheckNoZero p (p + n) i"
    using pos zt by (auto simp: It_CheckNoZero_def i' It_End_def It_Begin_def)
  have "It_Write_range (It_Begin c) (It_End c) i h = Some (i\<lparr>i_current := p + x + z + y\<rparr>, h3)"
    using ok d r W1(1) W2(1) W3(1)
    by (simp add: It_Write_range_def It_copy_part_def i' It_End_def It_Begin_def ov nn Let_def add.assoc)
  moreover have "content h3 t = overwrite (GetSize t - n) (content h c) (content h t)"
  proof -
    have len: "GetSize t - n + length (v @ replicate z 0) + length w \<le> length (content h t)"
      "GetSize t - n + length v + length (replicate z (0::u8)) \<le> length (content h t)"
      using content_length [OF H] nn lv lw pos by (auto simp: GetSize_def)
    have "content h3 t = overwrite (GetSize t - n + length (v @ replicate z 0)) w
        (overwrite (GetSize t - n + length v) (replicate z 0) (overwrite (GetSize t - n) v (content h t)))"
      using W3(3) W2(3) W1(3) lv by (simp add: add.assoc)
    also have "\<dots> = overwrite (GetSize t - n) ((v @ replicate z 0) @ w) (content h t)"
      unfolding overwrite_overwrite [OF len(2)] overwrite_overwrite [OF len(1)] ..
    finally show ?thesis using c by simp
  qed
  moreover have "content h3 x = content h x" if "x \<in># ?B" for x
    using W3(4) W2(4) W1(4) that by metis
  ultimately show ?thesis using that W3(2) by blast
qed

text \<open>The general case of \<^verbatim>\<open>AddAtEnd\<close> of another buffer, on another block.\<close>

definition joins_zero_areas :: "buffer \<Rightarrow> buffer \<Rightarrow> bheap \<Rightarrow> bool" where
  "joins_zero_areas other b h \<longleftrightarrow> (\<exists>d. bh_data h (b_data b) = Some d \<and> bd_count d = 1 \<and>
     (b_end b = b_zeroAreaEnd b \<or> b_zeroAreaStart b = b_zeroAreaEnd b) \<and> b_end b = bd_dirtyEnd d \<and>
     b_start other = b_zeroAreaStart other \<and> b_zeroAreaEnd other - b_zeroAreaStart other > 0)"

lemma AddAtEnd_buffer_ok:
  assumes H: "heap_ok h (add_mset b (add_mset c B))" and d: "b_data c \<noteq> b_data b"
    and j: "\<not> joins_zero_areas c b h"
  obtains b' h' where "AddAtEnd_buffer c b h = Some (b', h')" "heap_ok h' (add_mset b' (add_mset c B))"
    "content h' b' = content h b @ content h c" "\<And>x. x \<in># add_mset c B \<Longrightarrow> content h' x = content h x"
proof -
  let ?B = "add_mset c B"
  obtain db where db: "bh_data h (b_data b) = Some db" using heap_ok_focus [OF H] by metis
  obtain t h1 where T: "TransformIntoRealBuffer b h = Some (t, h1)" "heap_ok h1 (add_mset t ?B)"
    "content h1 t = content h b" "\<And>x. x \<in># ?B \<Longrightarrow> content h1 x = content h x" "zlen t = 0"
    "b_data t = b_data b \<or> (\<forall>c\<in>#?B. b_data c \<noteq> b_data t)"
    using TransformIntoRealBuffer_ok [OF H] by metis
  let ?n = "GetSize c"
  obtain t2 h2 js where A: "AddAtEnd ?n t h1 = Some (t2, h2)" "heap_ok h2 (add_mset t2 ?B)" "length js = ?n"
    "content h2 t2 = content h1 t @ js" "\<And>c. c \<in># ?B \<Longrightarrow> content h2 c = content h1 c"
    "b_zeroAreaEnd t2 + ?n \<le> b_end t2" "exclusive (GetInternalEnd t2 - ?n) ?n t2 ?B" "zlen t2 = zlen t"
    "b_data t2 = b_data t \<or> (\<forall>c\<in>#?B. b_data c \<noteq> b_data t2)"
    using AddAtEnd_ok [OF T(2)] by metis
  define i where "i = (It_End t2)\<lparr>i_current := b_end t2 - ?n\<rparr>"
  have P: "It_Prev ?n (It_End t2) = Some i" using A(6) by (simp add: It_Prev_def It_End_def It_Begin_def i_def)
  have ne: "b_data c \<noteq> b_data t2" using A(9) T(6) d by auto
  have z2: "zlen t2 = 0" using A(8) T(5) by simp
  obtain i' h3 where W: "It_Write_range (It_Begin c) (It_End c) i h2 = Some (i', h3)" "heap_ok h3 (add_mset t2 ?B)"
    "content h3 t2 = overwrite (GetSize t2 - ?n) (content h2 c) (content h2 t2)"
    "\<And>x. x \<in># ?B \<Longrightarrow> content h3 x = content h2 x"
    using It_Write_range_ok [OF A(2) z2 refl A(7,6) ne P] by metis
  have c2: "content h2 c = content h c" using A(5) [of c] T(4) [of c] by simp
  have lc: "length (content h c) = ?n"
    using content_length [of h c "add_mset b B"] H by (simp add: add_mset_commute)
  have "GetSize t2 - ?n = length (content h b)"
    using content_length [OF A(2)] A(3,4) T(3) by simp
  then have ct: "content h3 t2 = content h b @ content h c"
    using W(3) A(3,4) T(3) c2 lc by simp
  have nj: "(bd_count db = 1 \<and> (b_end b = b_zeroAreaEnd b \<or> b_zeroAreaStart b = b_zeroAreaEnd b) \<and> b_end b = bd_dirtyEnd db \<and>
      b_start c = b_zeroAreaStart c \<and> b_zeroAreaEnd c - b_zeroAreaStart c > 0) = False"
    using j db by (auto simp: joins_zero_areas_def)
  have "AddAtEnd_buffer c b h = Some (t2, h3)"
    unfolding AddAtEnd_buffer_def db Option.bind.bind_lunit nj if_False using T(1) A(1) P W(1) by simp
  moreover have "content h3 x = content h x" if "x \<in># ?B" for x
    using W(4) A(5) T(4) that by metis
  ultimately show ?thesis using that W(2) ct by blast
qed

end
