(* ===== verification/Buffer_Serialization.thy ===== *)
theory Buffer_Serialization
  imports Buffer_Copies
begin

text \<open>
  Reading a buffer out: \<^verbatim>\<open>CopyData\<close>, \<^verbatim>\<open>PeekData\<close>, and that \<^verbatim>\<open>Deserialize\<close> inverts \<^verbatim>\<open>Serialize\<close>. The byte
  array is described as the concatenation of the fields that were written.
\<close>

lemma CopyData_ok:
  assumes H: "heap_ok h (add_mset b B)"
  shows "CopyData k b h = Some (take k (content h b))"
proof -
  obtain d st x z y P X Y R where d: "bh_data h (b_data b) = Some d" and s: "shape b st x z y"
    and bs: "bd_bytes d = P @ X @ Y @ R" and l: "length P = st" "length X = x" "length Y = y"
    and c: "content h b = X @ replicate z 0 @ Y" using content_shape [OF H] by metis
  have ov: "b_start b = st" "b_zeroAreaStart b = st + x" "b_zeroAreaEnd b = st + x + z" "b_end b = st + x + z + y"
    using s by (auto simp: shape_def)
  have r1: "heap_read (b_data b) st n h = Some (take n X)" if "n \<le> x" for n
    using heap_read_head [OF d, of P X "Y @ R" 0 st n] bs l that by simp
  have r2: "heap_read (b_data b) (st + x) n h = Some (take n Y)" if "n \<le> y" for n
    using heap_read_head [OF d, of "P @ X" Y R 0 "st + x" n] bs l that by simp
  consider "k \<le> x" | "x < k" "k \<le> x + z" | "x + z < k" by linarith
  then show ?thesis
  proof cases
    case 1
    then show ?thesis using l by (cases "k = 0") (simp_all add: CopyData_def ov c r1 Let_def)
  next
    case 2
    then have "min x k = x" "min z (k - x) = k - x" by auto
    then show ?thesis using 2 l by (simp add: CopyData_def ov c r1 r2 Let_def)
  next
    case 3
    then have "min z (k - x) = z" "min x k = x" "\<not> k - x \<le> z" by auto
    then show ?thesis using 3 l by (simp add: CopyData_def ov c r1 r2 Let_def min_def)
  qed
qed

lemma PeekData_ok:
  assumes H: "heap_ok h (add_mset b B)"
  obtains b' h' where "PeekData b h = Some (content h b, b', h')" "heap_ok h' (add_mset b' B)"
    "content h' b' = content h b" "\<And>c. c \<in># B \<Longrightarrow> content h' c = content h c"
proof -
  obtain t h1 where T: "TransformIntoRealBuffer b h = Some (t, h1)" "heap_ok h1 (add_mset t B)"
    "content h1 t = content h b" "\<And>x. x \<in># B \<Longrightarrow> content h1 x = content h x" "zlen t = 0"
    using TransformIntoRealBuffer_ok [OF H] by metis
  obtain d st x z y P X Y R where d: "bh_data h1 (b_data t) = Some d" and s: "shape t st x z y"
    and bs: "bd_bytes d = P @ X @ Y @ R" and l: "length P = st" "length X = x" "length Y = y"
    and c: "content h1 t = X @ replicate z 0 @ Y" using content_shape [OF T(2)] by metis
  have "z = 0" using T(5) s by (simp add: zlen_def shape_def)
  then have "heap_read (b_data t) (b_start t) (GetSize t) h1 = Some (content h1 t)"
    using heap_read_head [OF d, of P "X @ Y" R 0 st "x + y"] bs l s c by (simp add: shape_def GetSize_def)
  then show ?thesis using that T by (simp add: PeekData_def)
qed

section \<open>32-bit fields\<close>

lemma length_le32 [simp]: "length (le32 n) = 4"
  by (simp add: le32_def)

lemma base256:
  fixes n :: nat
  assumes "n < 2 ^ 32"
  shows "n mod 256 + 256 * (n div 256 mod 256 + 256 * (n div 65536 mod 256 + 256 * (n div 16777216 mod 256))) = n"
proof -
  define a where "a = n div 256"
  define b where "b = a div 256"
  define c where "c = b div 256"
  have e: "n div 65536 = b" "n div 16777216 = c"
    by (simp_all add: a_def b_def c_def flip: div_mult2_eq)
  have "c < 256" using assms by (simp add: e(2) [symmetric])
  then have "n div 16777216 mod 256 = n div 16777216" by (simp add: e)
  then have "c mod 256 = c" by (simp add: e)
  moreover have "b mod 256 + 256 * c = b" "a mod 256 + 256 * b = a" "n mod 256 + 256 * a = n"
    by (simp_all add: a_def b_def c_def)
  ultimately show ?thesis by (simp add: e a_def [symmetric])
qed

lemma unat_u8: "unat (word_of_nat n :: u8) = n mod 256"
  by (simp add: unsigned_of_nat take_bit_eq_mod)

lemma sub32_eq: "b \<le> a \<Longrightarrow> a < 2 ^ 32 \<Longrightarrow> sub32 a b = a - b"
  by (auto simp: sub32_def le_iff_add)

lemma load32_le32:
  assumes "bs = P @ le32 n @ R" and "length P = p" and "n < 2 ^ 32"
  shows "load32 p bs = Some n"
proof -
  have "mem_read p 4 bs = Some (le32 n)" using assms by (simp add: mem_read_def)
  moreover have "foldr (\<lambda>x acc. unat x + 256 * acc) (le32 n) 0 = n"
    unfolding le32_def using base256 [OF assms(3)] by (simp only: foldr.simps o_apply id_apply unat_u8 mult_0_right add_0_right)
  ultimately show ?thesis by (simp add: load32_def)
qed

lemma mem_read_middle:
  "bs = P @ v @ R \<Longrightarrow> length P = p \<Longrightarrow> length v = n \<Longrightarrow> mem_read p n bs = Some v"
  by (simp add: mem_read_def)

lemma mem_write_middle:
  "bs = P @ u @ R \<Longrightarrow> length P = p \<Longrightarrow> length u = length v \<Longrightarrow> mem_write p v bs = Some (P @ v @ R)"
  by (simp add: mem_write_def)

lemma chop:
  assumes "n \<le> length xs"
  obtains u r where "xs = u @ r" "length u = n"
  by (rule that [of "take n xs" "drop n xs"]) (use assms in auto)

lemma pad4_ge: "n \<le> pad4 n"
  unfolding pad4_def by presburger

section \<open>The round trip\<close>

text \<open>What \<^verbatim>\<open>Serialize\<close> writes, with the padding \<open>p1\<close> and \<open>p2\<close> and the rest of the array.\<close>

lemma Serialize_ok:
  assumes H: "heap_ok h (add_mset b B)" and s: "shape b st x z y" and c: "content h b = v @ replicate z 0 @ w"
    and l: "length v = x" "length w = y" and m: "GetSerializedSize b \<le> maxSize" "maxSize \<le> length m0"
  obtains p1 p2 r where "Serialize m0 maxSize b h = Some (1, le32 z @ le32 x @ v @ p1 @ le32 y @ w @ p2 @ r)"
    "length p1 = pad4 x - x" "length p2 = pad4 y - y"
proof -
  have ov: "b_start b = st" "b_zeroAreaStart b = st + x" "b_zeroAreaEnd b = st + x + z" "b_end b = st + x + z + y"
    using s by (auto simp: shape_def)
  have sz: "12 + pad4 x + pad4 y \<le> maxSize" using m by (simp add: GetSerializedSize_def ov)
  note rd = heap_read_shape [OF H c s l]
  have "4 \<le> length m0" using sz m(2) by simp
  then obtain A m1 where m1: "m0 = A @ m1" "length A = 4" by (rule chop)
  have "4 \<le> length m1" using sz m(2) m1 by simp
  then obtain B' m2 where m2: "m1 = B' @ m2" "length B' = 4" by (rule chop)
  have "x \<le> length m2" using sz m(2) m1 m2 pad4_ge [of x] by simp
  then obtain V m3 where m3: "m2 = V @ m3" "length V = x" by (rule chop)
  have "pad4 x - x \<le> length m3" using sz m(2) m1 m2 m3 by simp
  then obtain p1 m4 where m4: "m3 = p1 @ m4" "length p1 = pad4 x - x" by (rule chop)
  have "4 \<le> length m4" using sz m(2) m1 m2 m3 m4 pad4_ge [of x] by simp
  then obtain E m5 where m5: "m4 = E @ m5" "length E = 4" by (rule chop)
  have "y \<le> length m5" using sz m(2) m1 m2 m3 m4 m5 pad4_ge [of x] pad4_ge [of y] by simp
  then obtain W m6 where m6: "m5 = W @ m6" "length W = y" by (rule chop)
  have "pad4 y - y \<le> length m6" using sz m(2) m1 m2 m3 m4 m5 m6 pad4_ge [of x] by simp
  then obtain p2 r where m7: "m6 = p2 @ r" "length p2 = pad4 y - y" by (rule chop)
  let ?t = "p1 @ E @ W @ p2 @ r"
  have w1: "mem_write 0 (le32 z) m0 = Some (le32 z @ B' @ V @ ?t)"
    by (rule mem_write_middle [of _ "[]" A, simplified]) (use m1 m2 m3 m4 m5 m6 m7 in auto)
  have w2: "mem_write 4 (le32 x) (le32 z @ B' @ V @ ?t) = Some (le32 z @ le32 x @ V @ ?t)"
    by (rule mem_write_middle) (use m2 in auto)
  have w3: "mem_write 8 v (le32 z @ le32 x @ V @ ?t) = Some (le32 z @ le32 x @ v @ ?t)"
    using mem_write_middle [of _ "le32 z @ le32 x" V ?t 8 v] m3 l by simp
  have w4: "mem_write (8 + pad4 x) (le32 y) (le32 z @ le32 x @ v @ ?t) = Some (le32 z @ le32 x @ v @ p1 @ le32 y @ W @ p2 @ r)"
    using mem_write_middle [of _ "le32 z @ le32 x @ v @ p1" E "W @ p2 @ r" "8 + pad4 x" "le32 y"] m4 m5 l pad4_ge [of x] by simp
  have w5: "mem_write (8 + pad4 x + 4) w (le32 z @ le32 x @ v @ p1 @ le32 y @ W @ p2 @ r) =
      Some (le32 z @ le32 x @ v @ p1 @ le32 y @ w @ p2 @ r)"
    using mem_write_middle [of _ "le32 z @ le32 x @ v @ p1 @ le32 y" W "p2 @ r" "8 + pad4 x + 4" w] m4 m6 l pad4_ge [of x] by simp
  have "Serialize m0 maxSize b h = Some (1, le32 z @ le32 x @ v @ p1 @ le32 y @ w @ p2 @ r)"
    using sz w1 w2 w3 w4 w5 rd by (simp add: Serialize_def ov Let_def)
  then show ?thesis using that m4 m7 by blast
qed

lemma Deserialize_ok:
  assumes H: "heap_ok h B" and l: "length v = x" "length w = y" "length p1 = pad4 x - x" "length p2 = pad4 y - y"
    and m: "m = le32 z @ le32 x @ v @ p1 @ le32 y @ w @ p2 @ r" and z: "z < 2 ^ 32" and sz: "sz = 16 + pad4 x + pad4 y"
    and b: "sz < 2 ^ 32"
  obtains b' h' where "Deserialize m sz h = Some (1, b', h')" "heap_ok h' (add_mset b' B)"
    "content h' b' = v @ replicate z 0 @ w" "\<And>c. c \<in># B \<Longrightarrow> content h' c = content h c"
proof -
  have xy: "x < 2 ^ 32" "y < 2 ^ 32" using b sz pad4_ge [of x] pad4_ge [of y] by simp_all
  obtain b0 h0 where I: "Buffer_Initialize z h = Some (b0, h0)" "heap_ok h0 (add_mset b0 B)"
    "content h0 b0 = replicate z 0" "\<And>c. c \<in># B \<Longrightarrow> content h0 c = content h c"
    using Buffer_Initialize_ok [OF H, where n = z] by metis
  obtain b1 h1 i1 h2 where S: "AddAtStart (length v) b0 h0 = Some (b1, h1)" "It_Write v (It_Begin b1) h1 = Some (i1, h2)"
    "heap_ok h2 (add_mset b1 B)" "content h2 b1 = v @ content h0 b0" "\<And>c. c \<in># B \<Longrightarrow> content h2 c = content h0 c"
    by (rule prepend_ok [OF emits_Write [of v] I(2)]) (rule that)
  obtain b2 h3 i j h4 where E: "AddAtEnd (length w) b1 h2 = Some (b2, h3)" "It_Prev (length w) (It_End b2) = Some i"
    "It_Write w i h3 = Some (j, h4)" "heap_ok h4 (add_mset b2 B)" "content h4 b2 = content h2 b1 @ w"
    "\<And>c. c \<in># B \<Longrightarrow> content h4 c = content h2 c"
    by (rule append_ok [OF emits_back_Write [of w] S(3)]) (rule that)
  have f: "load32 0 m = Some z" "load32 4 m = Some x" "mem_read 8 x m = Some v"
    "load32 (8 + pad4 x) m = Some y" "mem_read (12 + pad4 x) y m = Some w"
    using load32_le32 [of m "[]" z] load32_le32 [of m "le32 z" x] mem_read_middle [of m "le32 z @ le32 x" v]
      load32_le32 [of m "le32 z @ le32 x @ v @ p1" y] mem_read_middle [of m "le32 z @ le32 x @ v @ p1 @ le32 y" w]
      z xy l pad4_ge [of x] m by simp_all
  have a: "sub32 sz 4 = 12 + pad4 x + pad4 y" "sub32 (4 + (pad4 x + pad4 y)) (pad4 x) = 4 + pad4 y"
    "sub32 (pad4 y) (pad4 y) = 0"
    using b by (simp_all add: sub32_eq sz)
  have "Deserialize m sz h = Some (1, b2, h4)"
    using I(1) S(1,2) E(1-3) f a l pad4_ge [of x] pad4_ge [of y] by (simp add: Deserialize_def Let_def)
  then show ?thesis using that E S I by simp
qed

end
