(* ===== verification/Packet_Model.thy ===== *)
theory Packet_Model
  imports Buffer_Serialization
begin

text \<open>
  Packets (\<^verbatim>\<open>src/network/model/packet.cc\<close>) and their byte tags (\<^verbatim>\<open>byte-tag-list.cc\<close>). A packet is a buffer with a
  list of tags on ranges of its bytes. The list stores offsets relative to an adjustment and cuts the ranges lazily,
  when bytes are added at an end of the packet. The shared storage of the tag list is modelled by its value: the list of its
  entries. The offsets are integers; those of the source have 32 bits. The packet metadata (off unless
  printing is enabled), the packet tags and the nix vector, which the operations below only copy, are left out.
\<close>

section \<open>Byte tags\<close>

record btag =
  bt_tid :: nat
  bt_data :: "u8 list"
  bt_start :: int
  bt_end :: int

record taglist =
  tl_minStart :: int
  tl_maxEnd :: int
  tl_adjustment :: int
  tl_tags :: "btag list"

definition OFFSET_MAX :: int where
  "OFFSET_MAX = 2 ^ 31 - 1"

definition tl_new :: taglist where
  "tl_new = \<lparr>tl_minStart = OFFSET_MAX, tl_maxEnd = - (2 ^ 31), tl_adjustment = 0, tl_tags = []\<rparr>"

text \<open>The items an iterator over a range yields, with \<^verbatim>\<open>PrepareForNext\<close> and \<^verbatim>\<open>Next\<close>.\<close>

fun tl_items :: "int \<Rightarrow> int \<Rightarrow> int \<Rightarrow> btag list \<Rightarrow> btag list" where
  "tl_items offsetStart offsetEnd adj [] = []"
| "tl_items offsetStart offsetEnd adj (t # ts) =
     (let nextStart = bt_start t + adj; nextEnd = bt_end t + adj in
      if nextStart \<ge> offsetEnd \<or> nextEnd \<le> offsetStart then tl_items offsetStart offsetEnd adj ts
      else t\<lparr>bt_start := max nextStart offsetStart, bt_end := min nextEnd offsetEnd\<rparr> # tl_items offsetStart offsetEnd adj ts)"

definition tl_Begin :: "int \<Rightarrow> int \<Rightarrow> taglist \<Rightarrow> btag list" where
  "tl_Begin offsetStart offsetEnd l = tl_items offsetStart offsetEnd (tl_adjustment l) (tl_tags l)"

definition tl_BeginAll :: "taglist \<Rightarrow> btag list" where
  "tl_BeginAll = tl_Begin 0 OFFSET_MAX"

definition tl_Adjust :: "int \<Rightarrow> taglist \<Rightarrow> taglist" where
  "tl_Adjust adjustment l = l\<lparr>tl_adjustment := tl_adjustment l + adjustment\<rparr>"

definition tl_Add :: "nat \<Rightarrow> u8 list \<Rightarrow> int \<Rightarrow> int \<Rightarrow> taglist \<Rightarrow> taglist" where
  "tl_Add tid data start end l = (let s = start - tl_adjustment l; e = end - tl_adjustment l in
     l\<lparr>tl_tags := tl_tags l @ [\<lparr>bt_tid = tid, bt_data = data, bt_start = s, bt_end = e\<rparr>],
       tl_minStart := (if s < tl_minStart l then s else tl_minStart l),
       tl_maxEnd := (if e > tl_maxEnd l then e else tl_maxEnd l)\<rparr>)"

definition tl_Add_item :: "btag \<Rightarrow> taglist \<Rightarrow> taglist" where
  "tl_Add_item i = tl_Add (bt_tid i) (bt_data i) (bt_start i) (bt_end i)"

definition tl_Add_list :: "taglist \<Rightarrow> taglist \<Rightarrow> taglist" where
  "tl_Add_list other l = fold tl_Add_item (tl_BeginAll other) l"

definition tl_AddAtEnd :: "int \<Rightarrow> taglist \<Rightarrow> taglist" where
  "tl_AddAtEnd appendOffset l = (if tl_maxEnd l \<le> appendOffset - tl_adjustment l then l
     else fold (\<lambda>i new. if bt_start i \<ge> appendOffset then new
                 else tl_Add_item (if bt_end i > appendOffset then i\<lparr>bt_end := appendOffset\<rparr> else i) new)
            (tl_BeginAll l) tl_new)"

definition tl_AddAtStart :: "int \<Rightarrow> taglist \<Rightarrow> taglist" where
  "tl_AddAtStart prependOffset l = (if tl_minStart l \<ge> prependOffset - tl_adjustment l then l
     else fold (\<lambda>i new. if bt_end i \<le> prependOffset then new
                 else tl_Add_item (if bt_start i < prependOffset then i\<lparr>bt_start := prependOffset\<rparr> else i) new)
            (tl_BeginAll l) tl_new)"

section \<open>Packets\<close>

record packet =
  p_buffer :: buffer
  p_tags :: taglist

definition Packet_GetSize :: "packet \<Rightarrow> nat" where
  "Packet_GetSize p = GetSize (p_buffer p)"

definition Packet_new :: "nat \<Rightarrow> bheap \<Rightarrow> (packet \<times> bheap) option" where
  "Packet_new sz h = do { (b, h1) \<leftarrow> Buffer_Initialize sz h; Some (\<lparr>p_buffer = b, p_tags = tl_new\<rparr>, h1) }"

definition Packet_of_bytes :: "u8 list \<Rightarrow> bheap \<Rightarrow> (packet \<times> bheap) option" where
  "Packet_of_bytes bs h = do {
     (b, h1) \<leftarrow> Buffer_Initialize 0 h;
     (b1, h2) \<leftarrow> AddAtStart (length bs) b h1;
     (_, h3) \<leftarrow> It_Write bs (It_Begin b1) h2;
     Some (\<lparr>p_buffer = b1, p_tags = tl_new\<rparr>, h3) }"

definition Packet_Copy :: "packet \<Rightarrow> bheap \<Rightarrow> packet \<times> bheap" where
  "Packet_Copy p h = (let (b, h1) = Buffer_copy (p_buffer p) h in (\<lparr>p_buffer = b, p_tags = p_tags p\<rparr>, h1))"

definition Packet_destroy :: "packet \<Rightarrow> bheap \<Rightarrow> bheap option" where
  "Packet_destroy p = Buffer_destroy (p_buffer p)"

definition Packet_CreateFragment :: "nat \<Rightarrow> nat \<Rightarrow> packet \<Rightarrow> bheap \<Rightarrow> (packet \<times> bheap) option" where
  "Packet_CreateFragment start len p h = (let (b, h1) = CreateFragment start len (p_buffer p) h in
     if GetSize (p_buffer p) \<ge> start + len
     then Some (\<lparr>p_buffer = b, p_tags = tl_Adjust (- int start) (p_tags p)\<rparr>, h1) else None)"

text \<open>Headers and trailers are what they write and read through an iterator.\<close>

type_synonym serializer = "biter \<Rightarrow> bheap \<Rightarrow> (biter \<times> bheap) option"
type_synonym 'a deserializer = "biter \<Rightarrow> bheap \<Rightarrow> ('a \<times> nat) option"

definition Packet_AddHeader :: "nat \<Rightarrow> serializer \<Rightarrow> packet \<Rightarrow> bheap \<Rightarrow> (packet \<times> bheap) option" where
  "Packet_AddHeader sz serialize p h = do {
     (b, h1) \<leftarrow> AddAtStart sz (p_buffer p) h;
     let tags = tl_AddAtStart (int sz) (tl_Adjust (int sz) (p_tags p));
     (_, h2) \<leftarrow> serialize (It_Begin b) h1;
     Some (\<lparr>p_buffer = b, p_tags = tags\<rparr>, h2) }"

definition Packet_RemoveHeader :: "'a deserializer \<Rightarrow> packet \<Rightarrow> bheap \<Rightarrow> ('a \<times> nat \<times> packet) option" where
  "Packet_RemoveHeader deserialize p h = do {
     (x, n) \<leftarrow> deserialize (It_Begin (p_buffer p)) h;
     Some (x, n, \<lparr>p_buffer = RemoveAtStart n (p_buffer p), p_tags = tl_Adjust (- int n) (p_tags p)\<rparr>) }"

definition Packet_PeekHeader :: "'a deserializer \<Rightarrow> packet \<Rightarrow> bheap \<Rightarrow> ('a \<times> nat) option" where
  "Packet_PeekHeader deserialize p h = deserialize (It_Begin (p_buffer p)) h"

definition Packet_AddTrailer :: "nat \<Rightarrow> serializer \<Rightarrow> packet \<Rightarrow> bheap \<Rightarrow> (packet \<times> bheap) option" where
  "Packet_AddTrailer sz serialize p h = do {
     let tags = tl_AddAtEnd (int (Packet_GetSize p)) (p_tags p);
     (b, h1) \<leftarrow> AddAtEnd sz (p_buffer p) h;
     (_, h2) \<leftarrow> serialize (It_End b) h1;
     Some (\<lparr>p_buffer = b, p_tags = tags\<rparr>, h2) }"

definition Packet_RemoveTrailer :: "'a deserializer \<Rightarrow> packet \<Rightarrow> bheap \<Rightarrow> ('a \<times> nat \<times> packet) option" where
  "Packet_RemoveTrailer deserialize p h = do {
     (x, n) \<leftarrow> deserialize (It_End (p_buffer p)) h;
     Some (x, n, p\<lparr>p_buffer := RemoveAtEnd n (p_buffer p)\<rparr>) }"

definition Packet_AddAtEnd :: "packet \<Rightarrow> packet \<Rightarrow> bheap \<Rightarrow> (packet \<times> bheap) option" where
  "Packet_AddAtEnd q p h = (let tags = tl_AddAtEnd (int (Packet_GetSize p)) (p_tags p);
     copy = tl_Adjust (int (Packet_GetSize p)) (tl_AddAtStart 0 (p_tags q)); tags2 = tl_Add_list copy tags in
     do { (b, h1) \<leftarrow> AddAtEnd_buffer (p_buffer q) (p_buffer p) h; Some (\<lparr>p_buffer = b, p_tags = tags2\<rparr>, h1) })"

definition Packet_AddPaddingAtEnd :: "nat \<Rightarrow> packet \<Rightarrow> bheap \<Rightarrow> (packet \<times> bheap) option" where
  "Packet_AddPaddingAtEnd sz p h = (let tags = tl_AddAtEnd (int (Packet_GetSize p)) (p_tags p) in
     do { (b, h1) \<leftarrow> AddAtEnd sz (p_buffer p) h; Some (\<lparr>p_buffer = b, p_tags = tags\<rparr>, h1) })"

definition Packet_RemoveAtEnd :: "nat \<Rightarrow> packet \<Rightarrow> packet" where
  "Packet_RemoveAtEnd sz p = p\<lparr>p_buffer := RemoveAtEnd sz (p_buffer p)\<rparr>"

definition Packet_RemoveAtStart :: "nat \<Rightarrow> packet \<Rightarrow> packet" where
  "Packet_RemoveAtStart sz p = \<lparr>p_buffer = RemoveAtStart sz (p_buffer p), p_tags = tl_Adjust (- int sz) (p_tags p)\<rparr>"

definition Packet_RemoveAllByteTags :: "packet \<Rightarrow> packet" where
  "Packet_RemoveAllByteTags p = p\<lparr>p_tags := tl_new\<rparr>"

definition Packet_AddByteTag :: "nat \<Rightarrow> u8 list \<Rightarrow> packet \<Rightarrow> packet" where
  "Packet_AddByteTag tid data p = p\<lparr>p_tags := tl_Add tid data 0 (int (Packet_GetSize p)) (p_tags p)\<rparr>"

definition Packet_AddByteTag_range :: "nat \<Rightarrow> u8 list \<Rightarrow> nat \<Rightarrow> nat \<Rightarrow> packet \<Rightarrow> packet option" where
  "Packet_AddByteTag_range tid data start end p = (if end < start then None
     else Some (p\<lparr>p_tags := tl_Add tid data (int start) (int end) (p_tags p)\<rparr>))"

definition Packet_FindFirstMatchingByteTag :: "nat \<Rightarrow> packet \<Rightarrow> u8 list option" where
  "Packet_FindFirstMatchingByteTag tid p =
     map_option bt_data (find (\<lambda>i. bt_tid i = tid) (tl_Begin 0 (int (Packet_GetSize p)) (p_tags p)))"

definition Packet_CopyData :: "nat \<Rightarrow> packet \<Rightarrow> bheap \<Rightarrow> u8 list option" where
  "Packet_CopyData sz p = CopyData sz (p_buffer p)"

end
