(* ===== verification/Packet_Contents.thy ===== *)
theory Packet_Contents
  imports Packet_Model
begin

text \<open>
  A packet is a list of tagged bytes: each byte with the tags whose range covers it. Every operation on
  packets is the list operation one expects on it, the lazily cut ranges of the tag list included.
\<close>

section \<open>The tags of a byte\<close>

definition hits :: "int \<Rightarrow> btag list \<Rightarrow> (nat \<times> u8 list) list" where
  "hits k ts = map (\<lambda>t. (bt_tid t, bt_data t)) (filter (\<lambda>t. bt_start t \<le> k \<and> k < bt_end t) ts)"

definition covers :: "taglist \<Rightarrow> int \<Rightarrow> (nat \<times> u8 list) list" where
  "covers l k = hits (k - tl_adjustment l) (tl_tags l)"

definition tags_ok :: "taglist \<Rightarrow> bool" where
  "tags_ok l \<longleftrightarrow> (\<forall>t\<in>set (tl_tags l). tl_minStart l \<le> bt_start t \<and> bt_end t \<le> tl_maxEnd l)"

lemma hits_simps [simp]:
  "hits k [] = []"
  "hits k (t # ts) = (if bt_start t \<le> k \<and> k < bt_end t then [(bt_tid t, bt_data t)] else []) @ hits k ts"
  "hits k (ts @ us) = hits k ts @ hits k us"
  by (simp_all add: hits_def)

lemma hits_items:
  "offsetStart \<le> k \<Longrightarrow> k < offsetEnd \<Longrightarrow> hits k (tl_items offsetStart offsetEnd adj ts) = hits (k - adj) ts"
  by (induction ts) (auto simp: Let_def)

lemma hits_BeginAll: "0 \<le> k \<Longrightarrow> k < OFFSET_MAX \<Longrightarrow> hits k (tl_BeginAll l) = covers l k"
  by (simp add: tl_BeginAll_def tl_Begin_def hits_items covers_def)

lemma tags_ok_new [simp]: "tags_ok tl_new" "covers tl_new k = []" "tl_adjustment tl_new = 0"
  by (simp_all add: tags_ok_def tl_new_def covers_def)

lemma covers_Adjust [simp]: "covers (tl_Adjust a l) k = covers l (k - a)"
  by (simp add: covers_def tl_Adjust_def algebra_simps)

lemma tags_ok_Adjust [simp]: "tags_ok (tl_Adjust a l) = tags_ok l"
  by (simp add: tags_ok_def tl_Adjust_def)

lemma covers_Add: "covers (tl_Add tid data s e l) k = covers l k @ (if s \<le> k \<and> k < e then [(tid, data)] else [])"
  by (simp add: covers_def tl_Add_def Let_def)

lemma tags_ok_Add: "tags_ok l \<Longrightarrow> tags_ok (tl_Add tid data s e l)"
  by (auto simp: tags_ok_def tl_Add_def Let_def)

lemma fold_Add:
  "covers (fold (\<lambda>i new. if c i then new else tl_Add_item (g i) new) is l) k = covers l k @ hits k (map g (filter (\<lambda>i. \<not> c i) is))"
  "tags_ok l \<Longrightarrow> tags_ok (fold (\<lambda>i new. if c i then new else tl_Add_item (g i) new) is l)"
  by (induction "is" arbitrary: l) (auto simp: tl_Add_item_def covers_Add tags_ok_Add)

lemma tl_AddAtEnd_covers:
  assumes "tags_ok l" and "0 \<le> k" and "k < OFFSET_MAX"
  shows "covers (tl_AddAtEnd a l) k = (if k < a then covers l k else [])"
proof (cases "tl_maxEnd l \<le> a - tl_adjustment l")
  case True
  have "covers l k = []" if "a \<le> k"
    using assms(1) True that unfolding covers_def hits_def tags_ok_def by (fastforce simp: filter_empty_conv)
  then show ?thesis using True by (simp add: tl_AddAtEnd_def)
next
  case False
  let ?g = "\<lambda>i. if bt_end i > a then i\<lparr>bt_end := a\<rparr> else i"
  have "hits k (map ?g (filter (\<lambda>i. \<not> bt_start i \<ge> a) ts)) = (if k < a then hits k ts else [])" for ts :: "btag list"
    by (induction ts) auto
  then show ?thesis
    using False hits_BeginAll [OF assms(2,3), of l] by (simp add: tl_AddAtEnd_def fold_Add(1))
qed

lemma tl_AddAtEnd_ok: "tags_ok l \<Longrightarrow> tags_ok (tl_AddAtEnd a l)"
  by (simp add: tl_AddAtEnd_def fold_Add(2))

lemma tl_AddAtStart_covers:
  assumes "tags_ok l" and "0 \<le> k" and "k < OFFSET_MAX"
  shows "covers (tl_AddAtStart a l) k = (if a \<le> k then covers l k else [])"
proof (cases "tl_minStart l \<ge> a - tl_adjustment l")
  case True
  have "covers l k = []" if "k < a"
    using assms(1) True that unfolding covers_def hits_def tags_ok_def by (fastforce simp: filter_empty_conv)
  then show ?thesis using True by (simp add: tl_AddAtStart_def)
next
  case False
  let ?g = "\<lambda>i. if bt_start i < a then i\<lparr>bt_start := a\<rparr> else i"
  have "hits k (map ?g (filter (\<lambda>i. \<not> bt_end i \<le> a) ts)) = (if a \<le> k then hits k ts else [])" for ts :: "btag list"
    by (induction ts) auto
  then show ?thesis
    using False hits_BeginAll [OF assms(2,3), of l] by (simp add: tl_AddAtStart_def fold_Add(1))
qed

lemma tl_AddAtStart_ok: "tags_ok l \<Longrightarrow> tags_ok (tl_AddAtStart a l)"
  by (simp add: tl_AddAtStart_def fold_Add(2))

lemma tl_Add_list_covers:
  "covers (tl_Add_list other l) k = covers l k @ hits k (tl_BeginAll other)"
  "tags_ok l \<Longrightarrow> tags_ok (tl_Add_list other l)"
  using fold_Add(1) [of "\<lambda>_. False" "\<lambda>i. i" "tl_BeginAll other" l k]
    fold_Add(2) [of l "\<lambda>_. False" "\<lambda>i. i" "tl_BeginAll other"]
  by (simp_all add: tl_Add_list_def)

lemma hits_items_below: "k < offsetStart \<Longrightarrow> hits k (tl_items offsetStart offsetEnd adj ts) = []"
  by (induction ts) (auto simp: Let_def)

section \<open>Tagged bytes\<close>

type_synonym tagged = "(u8 \<times> (nat \<times> u8 list) list) list"

definition tagged :: "bheap \<Rightarrow> packet \<Rightarrow> tagged" where
  "tagged h p = map (\<lambda>k. (content h (p_buffer p) ! k, covers (p_tags p) (int k))) [0..<length (content h (p_buffer p))]"

definition untagged :: "u8 list \<Rightarrow> tagged" where
  "untagged bs = map (\<lambda>x. (x, [])) bs"

text \<open>The live packets \<open>p\<close> and those whose buffers are in \<open>B\<close>; packets stay below two gigabytes.\<close>

definition packet_ok :: "bheap \<Rightarrow> packet \<Rightarrow> buffer multiset \<Rightarrow> bool" where
  "packet_ok h p B \<longleftrightarrow> heap_ok h (add_mset (p_buffer p) B) \<and> tags_ok (p_tags p)"

lemma length_tagged [simp]: "length (tagged h p) = length (content h (p_buffer p))"
  by (simp add: tagged_def)

lemma nth_tagged: "k < length (content h (p_buffer p)) \<Longrightarrow>
    tagged h p ! k = (content h (p_buffer p) ! k, covers (p_tags p) (int k))"
  by (simp add: tagged_def)

lemma tagged_bytes: "map fst (tagged h p) = content h (p_buffer p)"
  by (simp add: tagged_def comp_def map_nth)

lemma taggedI:
  assumes "content h (p_buffer p) = map fst ts"
    and "\<And>k. k < length ts \<Longrightarrow> covers (p_tags p) (int k) = snd (ts ! k)"
  shows "tagged h p = ts"
proof (rule nth_equalityI)
  fix k assume "k < length (tagged h p)"
  then show "tagged h p ! k = ts ! k" using assms by (simp add: nth_tagged prod_eq_iff)
qed (simp add: assms(1))

lemma tagged_cong: "content h' (p_buffer p) = content h (p_buffer p) \<Longrightarrow> tagged h' p = tagged h p"
  by (simp add: tagged_def)

section \<open>The operations\<close>

lemma untagged_simps [simp]: "length (untagged bs) = length bs" "map fst (untagged bs) = bs"
  "k < length bs \<Longrightarrow> untagged bs ! k = (bs ! k, [])"
  by (simp_all add: untagged_def comp_def)

lemma Packet_AddHeader_start_ok:
  assumes w: "emits_start w vs" and P: "packet_ok h p B" and n: "int (length vs + Packet_GetSize p) \<le> OFFSET_MAX"
  obtains p' h' where "Packet_AddHeader (length vs) w p h = Some (p', h')" "packet_ok h' p' B"
    "tagged h' p' = untagged vs @ tagged h p" "\<And>c. c \<in># B \<Longrightarrow> content h' c = content h c"
proof -
  have H: "heap_ok h (add_mset (p_buffer p) B)" and T: "tags_ok (p_tags p)" using P by (simp_all add: packet_ok_def)
  let ?n = "int (length vs)"
  let ?tags = "tl_AddAtStart ?n (tl_Adjust ?n (p_tags p))"
  obtain b' h1 i' h' where A: "AddAtStart (length vs) (p_buffer p) h = Some (b', h1)" "w (It_Begin b') h1 = Some (i', h')"
    "heap_ok h' (add_mset b' B)" "content h' b' = vs @ content h (p_buffer p)" "\<And>c. c \<in># B \<Longrightarrow> content h' c = content h c"
    by (rule prepend_start_ok [OF w H]) (rule that)
  let ?p = "\<lparr>p_buffer = b', p_tags = ?tags\<rparr>"
  have "tagged h' ?p = untagged vs @ tagged h p"
  proof (rule taggedI)
    show "content h' (p_buffer ?p) = map fst (untagged vs @ tagged h p)" using A(4) by (simp add: tagged_bytes)
    fix k assume k: "k < length (untagged vs @ tagged h p)"
    then have "int k < OFFSET_MAX" using n content_length [OF H] by (simp add: Packet_GetSize_def)
    then show "covers (p_tags ?p) (int k) = snd ((untagged vs @ tagged h p) ! k)"
      using k T by (auto simp: tl_AddAtStart_covers nth_append nth_tagged of_nat_diff)
  qed
  moreover have "packet_ok h' ?p B" using A(3) T by (simp add: packet_ok_def tl_AddAtStart_ok)
  moreover have "Packet_AddHeader (length vs) w p h = Some (?p, h')"
    using A(1,2) by (simp add: Packet_AddHeader_def Let_def)
  ultimately show ?thesis using that A(5) by blast
qed

lemmas Packet_AddHeader_ok = Packet_AddHeader_start_ok [OF emits_starts]

lemma drop_tagged:
  assumes "content h (p_buffer q) = drop n (content h' (p_buffer p))" and "p_tags q = tl_Adjust (- int n) (p_tags p)"
  shows "tagged h q = drop n (tagged h' p)"
  by (rule taggedI) (use assms in \<open>auto simp: tagged_bytes nth_tagged algebra_simps simp flip: drop_map\<close>)

lemma take_tagged:
  assumes "content h (p_buffer q) = take n (content h' (p_buffer p))" and "p_tags q = p_tags p"
  shows "tagged h q = take n (tagged h' p)"
  by (rule taggedI) (use assms in \<open>auto simp: tagged_bytes nth_tagged simp flip: take_map\<close>)

lemma Packet_RemoveAtStart_ok:
  assumes "packet_ok h p B"
  shows "packet_ok h (Packet_RemoveAtStart n p) B" "tagged h (Packet_RemoveAtStart n p) = drop n (tagged h p)"
proof -
  have H: "heap_ok h (add_mset (p_buffer p) B)" and T: "tags_ok (p_tags p)" using assms by (simp_all add: packet_ok_def)
  show "packet_ok h (Packet_RemoveAtStart n p) B"
    using RemoveAtStart_ok(1) [OF H] T by (simp add: packet_ok_def Packet_RemoveAtStart_def)
  show "tagged h (Packet_RemoveAtStart n p) = drop n (tagged h p)"
    by (rule drop_tagged) (simp_all add: Packet_RemoveAtStart_def RemoveAtStart_ok(2) [OF H])
qed

lemma Packet_RemoveHeader_ok:
  assumes "packet_ok h p B" and "d (It_Begin (p_buffer p)) h = Some (x, n)"
  shows "Packet_RemoveHeader d p h = Some (x, n, Packet_RemoveAtStart n p)"
  using assms(2) by (simp add: Packet_RemoveHeader_def Packet_RemoveAtStart_def)

lemma Packet_RemoveAtEnd_ok:
  assumes "packet_ok h p B"
  shows "packet_ok h (Packet_RemoveAtEnd n p) B" "tagged h (Packet_RemoveAtEnd n p) = take (Packet_GetSize p - n) (tagged h p)"
proof -
  have H: "heap_ok h (add_mset (p_buffer p) B)" and T: "tags_ok (p_tags p)" using assms by (simp_all add: packet_ok_def)
  show "packet_ok h (Packet_RemoveAtEnd n p) B"
    using RemoveAtEnd_ok(1) [OF H] T by (simp add: packet_ok_def Packet_RemoveAtEnd_def)
  show "tagged h (Packet_RemoveAtEnd n p) = take (Packet_GetSize p - n) (tagged h p)"
    by (rule take_tagged) (simp_all add: Packet_RemoveAtEnd_def RemoveAtEnd_ok(2) [OF H] Packet_GetSize_def)
qed

lemma Packet_Copy_ok:
  assumes "packet_ok h p B"
  obtains q h' where "Packet_Copy p h = (q, h')" "packet_ok h' q (add_mset (p_buffer p) B)"
    "tagged h' q = tagged h p" "\<And>c. content h' c = content h c"
proof -
  have H: "heap_ok h (add_mset (p_buffer p) B)" and T: "tags_ok (p_tags p)" using assms by (simp_all add: packet_ok_def)
  obtain b h' where c: "Buffer_copy (p_buffer p) h = (b, h')" by fastforce
  show ?thesis
    by (rule that [of "\<lparr>p_buffer = b, p_tags = p_tags p\<rparr>" h'])
      (use Buffer_copy_ok [OF H c] T c in \<open>auto simp: Packet_Copy_def packet_ok_def tagged_def\<close>)
qed

lemma Packet_CreateFragment_ok:
  assumes P: "packet_ok h p B" and n: "start + len \<le> Packet_GetSize p" and g: "Packet_GetSize p < 2 ^ 32"
  obtains q h' where "Packet_CreateFragment start len p h = Some (q, h')" "packet_ok h' q (add_mset (p_buffer p) B)"
    "tagged h' q = take len (drop start (tagged h p))" "\<And>c. content h' c = content h c"
proof -
  have H: "heap_ok h (add_mset (p_buffer p) B)" and T: "tags_ok (p_tags p)" using P by (simp_all add: packet_ok_def)
  obtain f h' where F: "CreateFragment start len (p_buffer p) h = (f, h')" "heap_ok h' (add_mset f (add_mset (p_buffer p) B))"
    "content h' f = take len (drop start (content h (p_buffer p)))" "\<And>c. content h' c = content h c"
    using CreateFragment_ok [OF H n [unfolded Packet_GetSize_def] g [unfolded Packet_GetSize_def]] by metis
  let ?q = "\<lparr>p_buffer = f, p_tags = tl_Adjust (- int start) (p_tags p)\<rparr>"
  have "tagged h' ?q = take len (drop start (tagged h p))"
    by (rule taggedI) (use F(3) in \<open>auto simp: tagged_bytes nth_tagged algebra_simps simp flip: drop_map take_map\<close>)
  then show ?thesis
    using that [of ?q h'] F n T by (simp add: Packet_CreateFragment_def packet_ok_def Packet_GetSize_def)
qed

text \<open>Growing at the end: the tags are cut at the old end first.\<close>

lemma tagged_append:
  assumes c: "content h' b = content h (p_buffer p) @ bs" and T: "tags_ok (p_tags p)"
    and t: "\<And>k. 0 \<le> k \<Longrightarrow> k < OFFSET_MAX \<Longrightarrow> covers tags k =
        covers (tl_AddAtEnd (int (length (content h (p_buffer p)))) (p_tags p)) k @ extra k"
    and n: "int (length (content h (p_buffer p)) + length bs) \<le> OFFSET_MAX"
    and e: "\<And>k. k < length (content h (p_buffer p)) \<Longrightarrow> extra (int k) = []"
      "\<And>k. k < length bs \<Longrightarrow> extra (int (length (content h (p_buffer p)) + k)) = snd (ts ! k)"
    and ts: "map fst ts = bs"
  shows "tagged h' \<lparr>p_buffer = b, p_tags = tags\<rparr> = tagged h p @ ts"
proof (rule taggedI)
  have l: "length ts = length bs" using ts by auto
  show "content h' (p_buffer \<lparr>p_buffer = b, p_tags = tags\<rparr>) = map fst (tagged h p @ ts)"
    using c ts by (simp add: tagged_bytes)
  fix k assume k: "k < length (tagged h p @ ts)"
  let ?m = "length (content h (p_buffer p))"
  have "int k < OFFSET_MAX" using n k l by simp
  then have *: "covers tags (int k) = (if k < ?m then covers (p_tags p) (int k) else []) @ extra (int k)"
    using t [of "int k"] T by (simp add: tl_AddAtEnd_covers)
  show "covers (p_tags \<lparr>p_buffer = b, p_tags = tags\<rparr>) (int k) = snd ((tagged h p @ ts) ! k)"
  proof (cases "k < ?m")
    case True
    then show ?thesis using * e(1) by (simp add: nth_append nth_tagged)
  next
    case False
    then have "extra (int k) = snd (ts ! (k - ?m))" using e(2) [of "k - ?m"] k l by simp
    then show ?thesis using * False by (simp add: nth_append)
  qed
qed

lemma Packet_AddTrailer_ok:
  assumes w: "emits_back w vs" and P: "packet_ok h p B" and n: "int (Packet_GetSize p + length vs) \<le> OFFSET_MAX"
  obtains p' h' where
    "Packet_AddTrailer (length vs) (\<lambda>i h. do { i1 \<leftarrow> It_Prev (length vs) i; w i1 h }) p h = Some (p', h')"
    "packet_ok h' p' B" "tagged h' p' = tagged h p @ untagged vs" "\<And>c. c \<in># B \<Longrightarrow> content h' c = content h c"
proof -
  have H: "heap_ok h (add_mset (p_buffer p) B)" and T: "tags_ok (p_tags p)" using P by (simp_all add: packet_ok_def)
  obtain b' h1 i i' h' where A: "AddAtEnd (length vs) (p_buffer p) h = Some (b', h1)" "It_Prev (length vs) (It_End b') = Some i"
    "w i h1 = Some (i', h')" "heap_ok h' (add_mset b' B)" "content h' b' = content h (p_buffer p) @ vs"
    "\<And>c. c \<in># B \<Longrightarrow> content h' c = content h c"
    by (rule append_ok [OF w H]) (rule that)
  let ?tags = "tl_AddAtEnd (int (Packet_GetSize p)) (p_tags p)"
  have l: "length (content h (p_buffer p)) = Packet_GetSize p" using content_length [OF H] by (simp add: Packet_GetSize_def)
  have "tagged h' \<lparr>p_buffer = b', p_tags = ?tags\<rparr> = tagged h p @ untagged vs"
    by (rule tagged_append [where extra = "\<lambda>_. []", OF A(5) T]) (use n in \<open>auto simp: l\<close>)
  then show ?thesis
    using that [of "\<lparr>p_buffer = b', p_tags = ?tags\<rparr>" h'] A T
    by (simp add: Packet_AddTrailer_def packet_ok_def tl_AddAtEnd_ok)
qed

lemma Packet_AddPaddingAtEnd_ok:
  assumes P: "packet_ok h p B" and n: "int (Packet_GetSize p + m) \<le> OFFSET_MAX"
  obtains p' h' js where "Packet_AddPaddingAtEnd m p h = Some (p', h')" "packet_ok h' p' B" "length js = m"
    "tagged h' p' = tagged h p @ untagged js" "\<And>c. c \<in># B \<Longrightarrow> content h' c = content h c"
proof -
  have H: "heap_ok h (add_mset (p_buffer p) B)" and T: "tags_ok (p_tags p)" using P by (simp_all add: packet_ok_def)
  obtain b' h' js where A: "AddAtEnd m (p_buffer p) h = Some (b', h')" "heap_ok h' (add_mset b' B)" "length js = m"
    "content h' b' = content h (p_buffer p) @ js" "\<And>c. c \<in># B \<Longrightarrow> content h' c = content h c"
    using AddAtEnd_ok [OF H] by metis
  let ?tags = "tl_AddAtEnd (int (Packet_GetSize p)) (p_tags p)"
  have l: "length (content h (p_buffer p)) = Packet_GetSize p" using content_length [OF H] by (simp add: Packet_GetSize_def)
  have "tagged h' \<lparr>p_buffer = b', p_tags = ?tags\<rparr> = tagged h p @ untagged js"
    by (rule tagged_append [where extra = "\<lambda>_. []", OF A(4) T]) (use n A(3) in \<open>auto simp: l\<close>)
  then show ?thesis
    using that [of "\<lparr>p_buffer = b', p_tags = ?tags\<rparr>" h'] A T
    by (simp add: Packet_AddPaddingAtEnd_def packet_ok_def tl_AddAtEnd_ok Let_def)
qed

lemma Packet_AddAtEnd_ok:
  assumes P: "packet_ok h p (add_mset (p_buffer q) B)" and Q: "tags_ok (p_tags q)"
    and d: "b_data (p_buffer q) \<noteq> b_data (p_buffer p)" and j: "\<not> joins_zero_areas (p_buffer q) (p_buffer p) h"
    and n: "int (Packet_GetSize p + Packet_GetSize q) \<le> OFFSET_MAX"
  obtains p' h' where "Packet_AddAtEnd q p h = Some (p', h')" "packet_ok h' p' (add_mset (p_buffer q) B)"
    "tagged h' p' = tagged h p @ tagged h q" "\<And>c. c \<in># add_mset (p_buffer q) B \<Longrightarrow> content h' c = content h c"
proof -
  let ?B = "add_mset (p_buffer q) B"
  have H: "heap_ok h (add_mset (p_buffer p) ?B)" and T: "tags_ok (p_tags p)" using P by (simp_all add: packet_ok_def)
  then have Hq: "heap_ok h (add_mset (p_buffer q) (add_mset (p_buffer p) B))" by (simp add: add_mset_commute)
  obtain b' h' where A: "AddAtEnd_buffer (p_buffer q) (p_buffer p) h = Some (b', h')" "heap_ok h' (add_mset b' ?B)"
    "content h' b' = content h (p_buffer p) @ content h (p_buffer q)" "\<And>c. c \<in># ?B \<Longrightarrow> content h' c = content h c"
    using AddAtEnd_buffer_ok [OF H d j] by metis
  let ?m = "int (Packet_GetSize p)"
  define copy where "copy = tl_Adjust ?m (tl_AddAtStart 0 (p_tags q))"
  let ?tags = "tl_Add_list copy (tl_AddAtEnd ?m (p_tags p))"
  have l: "length (content h (p_buffer p)) = Packet_GetSize p" "length (content h (p_buffer q)) = Packet_GetSize q"
    using content_length [OF H] content_length [OF Hq] by (simp_all add: Packet_GetSize_def)
  have cov: "covers copy k = (if ?m \<le> k then covers (p_tags q) (k - ?m) else [])" if "0 \<le> k" "k < OFFSET_MAX" for k
  proof (cases "?m \<le> k")
    case True
    then show ?thesis using tl_AddAtStart_covers [OF Q, of "k - ?m" 0] that by (simp add: copy_def)
  next
    case False
    have "hits j (tl_tags (tl_AddAtStart 0 (p_tags q))) = []" if "j < - tl_adjustment (tl_AddAtStart 0 (p_tags q))" for j
    proof (cases "tl_minStart (p_tags q) \<ge> 0 - tl_adjustment (p_tags q)")
      case True
      then show ?thesis using Q that
        by (fastforce simp: tl_AddAtStart_def hits_def tags_ok_def filter_empty_conv)
    next
      case F: False
      let ?c = "\<lambda>i. bt_end i \<le> 0" and ?g = "\<lambda>i. if bt_start i < 0 then i\<lparr>bt_start := 0\<rparr> else i"
      have fold_adj: "tl_adjustment (fold (\<lambda>i new. if ?c i then new else tl_Add_item (?g i) new) is l) = tl_adjustment l" for "is" l
        by (induction "is" arbitrary: l) (auto simp: tl_Add_item_def tl_Add_def Let_def)
      have a0: "tl_adjustment (tl_AddAtStart 0 (p_tags q)) = 0" using F by (simp add: tl_AddAtStart_def fold_adj)
      have "hits j (map ?g (filter (\<lambda>i. \<not> ?c i) ts)) = []" for ts using that a0 by (induction ts) auto
      moreover have "hits j (tl_tags (tl_AddAtStart 0 (p_tags q))) = covers (tl_AddAtStart 0 (p_tags q)) j"
        using a0 by (simp add: covers_def)
      ultimately show ?thesis using F by (simp add: tl_AddAtStart_def fold_Add(1))
    qed
    then have "covers (tl_AddAtStart 0 (p_tags q)) (k - ?m) = []" using False by (simp add: covers_def)
    then show ?thesis using False by (simp add: copy_def)
  qed
  have "tagged h' \<lparr>p_buffer = b', p_tags = ?tags\<rparr> = tagged h p @ tagged h q"
  proof (rule tagged_append [where extra = "covers copy", OF A(3) T])
    fix k :: int assume "0 \<le> k" "k < OFFSET_MAX"
    then show "covers ?tags k = covers (tl_AddAtEnd (int (length (content h (p_buffer p)))) (p_tags p)) k @ covers copy k"
      by (simp add: tl_Add_list_covers(1) hits_BeginAll l)
  next
    fix k assume "k < length (content h (p_buffer p))"
    then show "covers copy (int k) = []" using cov [of "int k"] n l by simp
  next
    fix k assume k: "k < length (content h (p_buffer q))"
    then have "int (length (content h (p_buffer p)) + k) < OFFSET_MAX" using n l by simp
    then show "covers copy (int (length (content h (p_buffer p)) + k)) = snd (tagged h q ! k)"
      using cov [of "int (length (content h (p_buffer p)) + k)"] k l by (simp add: nth_tagged)
  qed (use n l in \<open>auto simp: tagged_bytes\<close>)
  then show ?thesis
    using that [of "\<lparr>p_buffer = b', p_tags = ?tags\<rparr>" h'] A T
    by (simp add: Packet_AddAtEnd_def packet_ok_def tl_AddAtEnd_ok tl_Add_list_covers(2) copy_def Let_def)
qed

lemma Packet_AddByteTag_ok:
  assumes "packet_ok h p B"
  shows "packet_ok h (Packet_AddByteTag tid data p) B"
    "tagged h (Packet_AddByteTag tid data p) = map (\<lambda>(x, ts). (x, ts @ [(tid, data)])) (tagged h p)"
proof -
  have H: "heap_ok h (add_mset (p_buffer p) B)" and T: "tags_ok (p_tags p)" using assms by (simp_all add: packet_ok_def)
  show "packet_ok h (Packet_AddByteTag tid data p) B"
    using H T by (simp add: packet_ok_def Packet_AddByteTag_def tags_ok_Add)
  show "tagged h (Packet_AddByteTag tid data p) = map (\<lambda>(x, ts). (x, ts @ [(tid, data)])) (tagged h p)"
    using content_length [OF H] by (auto simp: tagged_def Packet_AddByteTag_def covers_Add Packet_GetSize_def)
qed

end
