(* ===== verification/Packet_Programs.thy ===== *)
theory Packet_Programs
  imports Packet_Contents
begin

unbundle bit_operations_syntax

text \<open>
  Headers as sequences of fields, and programs over any number of packets that share blocks. A program that
  the list specification runs is run by the code, without a failing assertion, and leaves the packets the
  specification says.
\<close>

section \<open>Fields\<close>

datatype field = F8 u8 | F16 u16 | F32 u32 | F64 u64 | L16 u16 | L32 u32 | L64 u64 | FBytes "u8 list"

datatype ftype = T8 | T16 | T32 | T64 | TL16 | TL32 | TL64 | TBytes nat

primrec write_field :: "field \<Rightarrow> serializer" where
  "write_field (F8 x) = It_WriteU8 x"
| "write_field (F16 x) = It_WriteHtonU16 x"
| "write_field (F32 x) = It_WriteHtonU32 x"
| "write_field (F64 x) = It_WriteHtonU64 x"
| "write_field (L16 x) = It_WriteHtolsbU16 x"
| "write_field (L32 x) = It_WriteHtolsbU32 x"
| "write_field (L64 x) = It_WriteHtolsbU64 x"
| "write_field (FBytes bs) = It_Write bs"

primrec write_fields :: "field list \<Rightarrow> serializer" where
  "write_fields [] = (\<lambda>i h. Some (i, h))"
| "write_fields (f # fs) = seq_writes (write_field f) (write_fields fs)"

primrec field_bytes :: "field \<Rightarrow> u8 list" where
  "field_bytes (F8 x) = [x]"
| "field_bytes (F16 x) = [ucast (drop_bit 8 x), ucast x]"
| "field_bytes (F32 x) = [ucast (drop_bit 24 x), ucast (drop_bit 16 x), ucast (drop_bit 8 x), ucast x]"
| "field_bytes (F64 x) = [ucast (drop_bit 56 x), ucast (drop_bit 48 x), ucast (drop_bit 40 x),
     ucast (drop_bit 32 x), ucast (drop_bit 24 x), ucast (drop_bit 16 x), ucast (drop_bit 8 x), ucast x]"
| "field_bytes (L16 x) = [ucast x, ucast (drop_bit 8 x)]"
| "field_bytes (L32 x) = [ucast x, ucast (drop_bit 8 x), ucast (drop_bit 16 x), ucast (drop_bit 24 x)]"
| "field_bytes (L64 x) = [ucast x, ucast (drop_bit 8 x), ucast (drop_bit 16 x), ucast (drop_bit 24 x),
     ucast (drop_bit 32 x), ucast (drop_bit 40 x), ucast (drop_bit 48 x), ucast (drop_bit 56 x)]"
| "field_bytes (FBytes bs) = bs"

definition fields_bytes :: "field list \<Rightarrow> u8 list" where
  "fields_bytes fs = concat (map field_bytes fs)"

primrec type_of :: "field \<Rightarrow> ftype" where
  "type_of (F8 x) = T8"
| "type_of (F16 x) = T16"
| "type_of (F32 x) = T32"
| "type_of (F64 x) = T64"
| "type_of (L16 x) = TL16"
| "type_of (L32 x) = TL32"
| "type_of (L64 x) = TL64"
| "type_of (FBytes bs) = TBytes (length bs)"

primrec read_field :: "ftype \<Rightarrow> biter \<Rightarrow> bheap \<Rightarrow> (field \<times> biter) option" where
  "read_field T8 i h = map_option (\<lambda>(x, i1). (F8 x, i1)) (It_ReadU8 i h)"
| "read_field T16 i h = map_option (\<lambda>(x, i1). (F16 x, i1)) (It_ReadNtohU16 i h)"
| "read_field T32 i h = map_option (\<lambda>(x, i1). (F32 x, i1)) (It_ReadNtohU32 i h)"
| "read_field T64 i h = map_option (\<lambda>(x, i1). (F64 x, i1)) (It_ReadNtohU64 i h)"
| "read_field TL16 i h = map_option (\<lambda>(x, i1). (L16 x, i1)) (It_ReadLsbtohU16 i h)"
| "read_field TL32 i h = map_option (\<lambda>(x, i1). (L32 x, i1)) (It_ReadLsbtohU32 i h)"
| "read_field TL64 i h = map_option (\<lambda>(x, i1). (L64 x, i1)) (It_ReadLsbtohU64 i h)"
| "read_field (TBytes n) i h = map_option (\<lambda>(bs, i1). (FBytes bs, i1)) (It_ReadU8s n i h)"

primrec read_fields :: "ftype list \<Rightarrow> biter \<Rightarrow> bheap \<Rightarrow> (field list \<times> biter) option" where
  "read_fields [] i h = Some ([], i)"
| "read_fields (t # ts) i h = do {
     (f, i1) \<leftarrow> read_field t i h;
     (fs, i2) \<leftarrow> read_fields ts i1 h;
     Some (f # fs, i2) }"

definition header_reader :: "ftype list \<Rightarrow> field list deserializer" where
  "header_reader ts i h = map_option (\<lambda>(fs, i1). (fs, i_current i1 - i_current i)) (read_fields ts i h)"

lemma emits_field: "emits (write_field f) (field_bytes f)"
  by (cases f) (simp_all add: emits_WriteU8 emits_numbers emits_Write It_WriteHtonU64_def It_WriteHtolsbU16_def
      It_WriteHtolsbU32_def It_WriteHtolsbU64_def emits_WriteU8s)

lemma emits_fields: "emits (write_fields fs) (fields_bytes fs)"
  by (induction fs) (simp_all add: fields_bytes_def emits_Nil emits_seq [OF emits_field])

lemma msb_step: "push_bit 8 (drop_bit (n + 8) w) OR ucast (ucast (drop_bit n w) :: u8) = drop_bit n (w :: 'a::len word)"
proof (rule bit_word_eqI)
  fix i assume "i < LENGTH('a)"
  then show "bit (push_bit 8 (drop_bit (n + 8) w) OR ucast (ucast (drop_bit n w) :: u8)) i = bit (drop_bit n w) i"
    by (cases "i < 8") (auto simp: bit_simps)
qed

lemma msb_top: "LENGTH('a) \<le> n + 8 \<Longrightarrow> ucast (ucast (drop_bit n w) :: u8) = drop_bit n (w :: 'a::len word)"
  by (rule bit_word_eqI) (auto simp: bit_simps dest: bit_imp_le_length)

lemma msb_bytes:
  "word_of_msb [ucast (drop_bit 8 x), ucast x] = (x :: u16)"
  "word_of_msb [ucast (drop_bit 24 v), ucast (drop_bit 16 v), ucast (drop_bit 8 v), ucast v] = (v :: u32)"
  "word_of_msb [ucast (drop_bit 56 y), ucast (drop_bit 48 y), ucast (drop_bit 40 y), ucast (drop_bit 32 y),
     ucast (drop_bit 24 y), ucast (drop_bit 16 y), ucast (drop_bit 8 y), ucast y] = (y :: u64)"
  using msb_step [of 0 x] msb_step [of 0 v] msb_step [of 8 v] msb_step [of 16 v]
    msb_step [of 0 y] msb_step [of 8 y] msb_step [of 16 y] msb_step [of 24 y] msb_step [of 32 y] msb_step [of 40 y]
    msb_step [of 48 y] msb_top [where w = x and n = 8] msb_top [where w = v and n = 24] msb_top [where w = y and n = 56]
  by (simp_all add: word_of_msb_def)

lemma length_field_bytes: "length (field_bytes f) = (case type_of f of T8 \<Rightarrow> 1 | T16 \<Rightarrow> 2 | T32 \<Rightarrow> 4 | T64 \<Rightarrow> 8 | TL16 \<Rightarrow> 2 | TL32 \<Rightarrow> 4 | TL64 \<Rightarrow> 8 | TBytes n \<Rightarrow> n)"
  by (cases f) simp_all

lemma read_field_at:
  assumes H: "heap_ok h (add_mset b B)" and c: "drop k (content h b) = field_bytes f @ r" and k: "k \<le> GetSize b"
  shows "read_field (type_of f) (at b k) h = Some (f, at b (k + length (field_bytes f)))"
proof -
  have "length (drop k (content h b)) = length (field_bytes f) + length r" using c by simp
  then have n: "k + length (field_bytes f) \<le> GetSize b" using content_length [OF H] k by simp
  have t: "take (length (field_bytes f)) (drop k (content h b)) = field_bytes f" using c by simp
  show ?thesis
  proof (cases f)
    case (F8 x)
    have "content h b ! k = x" using c k n content_length [OF H] F8 by (metis append_Cons field_bytes.simps(1) hd_drop_conv_nth
        le_eq_less_or_eq length_drop list.sel(1) list.size(3) add_diff_cancel_left' not_Cons_self2 drop_all order_refl list.distinct(1))
    then show ?thesis using F8 n by (simp add: It_ReadU8_at [OF H])
  next
    case (F16 x)
    then have l: "length (field_bytes f) = 2" by simp
    show ?thesis using n t unfolding l using F16 by (simp add: It_ReadNtoh_at [OF H] msb_bytes)
  next
    case (F32 x)
    then have l: "length (field_bytes f) = 4" by simp
    show ?thesis using n t unfolding l using F32 by (simp add: It_ReadNtoh_at [OF H] msb_bytes)
  next
    case (F64 x)
    then have l: "length (field_bytes f) = 8" by simp
    show ?thesis using n t unfolding l using F64 by (simp add: It_ReadNtoh_at [OF H] msb_bytes)
  next
    case (L16 x)
    then have l: "length (field_bytes f) = 2" by simp
    show ?thesis using n t unfolding l using L16 by (simp add: It_ReadLsbtohU16_def It_ReadU8s_at [OF H] msb_bytes)
  next
    case (L32 x)
    then have l: "length (field_bytes f) = 4" by simp
    show ?thesis using n t unfolding l using L32 by (simp add: It_ReadLsbtohU32_def It_ReadU8s_at [OF H] msb_bytes)
  next
    case (L64 x)
    then have l: "length (field_bytes f) = 8" by simp
    show ?thesis using n t unfolding l using L64 by (simp add: It_ReadLsbtohU64_def It_ReadU8s_at [OF H] msb_bytes)
  next
    case (FBytes bs)
    then show ?thesis using n t by (simp add: It_ReadU8s_at [OF H])
  qed
qed

lemma read_fields_at:
  assumes H: "heap_ok h (add_mset b B)"
  shows "drop k (content h b) = fields_bytes fs @ r \<Longrightarrow> k \<le> GetSize b \<Longrightarrow>
    read_fields (map type_of fs) (at b k) h = Some (fs, at b (k + length (fields_bytes fs)))"
proof (induction fs arbitrary: k)
  case (Cons f fs)
  have d: "drop k (content h b) = field_bytes f @ fields_bytes fs @ r" using Cons.prems(1) by (simp add: fields_bytes_def)
  let ?k = "k + length (field_bytes f)"
  have "drop ?k (content h b) = fields_bytes fs @ r"
    using arg_cong [OF d, of "drop (length (field_bytes f))"] by (simp add: add.commute)
  moreover have "?k \<le> GetSize b"
    using arg_cong [OF d, of length] content_length [OF H] Cons.prems(2) by simp
  ultimately have "read_fields (map type_of fs) (at b ?k) h = Some (fs, at b (?k + length (fields_bytes fs)))"
    by (rule Cons.IH)
  then show ?case using read_field_at [OF H d Cons.prems(2)] by (simp add: fields_bytes_def add.assoc)
qed (simp add: fields_bytes_def)

lemma header_reader_ok:
  assumes H: "heap_ok h (add_mset b B)" and c: "content h b = fields_bytes fs @ r"
  shows "header_reader (map type_of fs) (It_Begin b) h = Some (fs, length (fields_bytes fs))"
proof -
  have "read_fields (map type_of fs) (at b 0) h = Some (fs, at b (0 + length (fields_bytes fs)))"
    by (rule read_fields_at [OF H]) (use c in simp_all)
  then show ?thesis by (simp add: header_reader_def It_Begin_def at_def)
qed

section \<open>Programs over packets\<close>

datatype pkt_op = NewOp nat | BytesOp "u8 list" | CopyOp nat | FragmentOp nat nat nat | HeaderOp nat "field list"
  | StripOp nat nat | TrailerOp nat "u8 list" | CutOp nat nat | TagOp nat nat "u8 list" | DropOp nat

record pstate =
  ps_heap :: bheap
  ps_packets :: "packet list"

definition trailer_writer :: "u8 list \<Rightarrow> serializer" where
  "trailer_writer vs i h = do { i1 \<leftarrow> It_Prev (length vs) i; It_Write vs i1 h }"

definition add_packet :: "pstate \<Rightarrow> packet \<times> bheap \<Rightarrow> pstate" where
  "add_packet s = (\<lambda>(p, h). \<lparr>ps_heap = h, ps_packets = ps_packets s @ [p]\<rparr>)"

definition set_packet :: "pstate \<Rightarrow> nat \<Rightarrow> packet \<times> bheap \<Rightarrow> pstate" where
  "set_packet s i = (\<lambda>(p, h). \<lparr>ps_heap = h, ps_packets = (ps_packets s)[i := p]\<rparr>)"

definition get_packet :: "pstate \<Rightarrow> nat \<Rightarrow> packet option" where
  "get_packet s i = (if i < length (ps_packets s) then Some (ps_packets s ! i) else None)"

fun exec :: "pkt_op \<Rightarrow> pstate \<Rightarrow> pstate option" where
  "exec (NewOp n) s = map_option (add_packet s) (Packet_new n (ps_heap s))"
| "exec (BytesOp bs) s = map_option (add_packet s) (Packet_of_bytes bs (ps_heap s))"
| "exec (CopyOp i) s = map_option (\<lambda>p. add_packet s (Packet_Copy p (ps_heap s))) (get_packet s i)"
| "exec (FragmentOp i st len) s = do {
     p \<leftarrow> get_packet s i; map_option (add_packet s) (Packet_CreateFragment st len p (ps_heap s)) }"
| "exec (HeaderOp i fs) s = do {
     p \<leftarrow> get_packet s i;
     map_option (set_packet s i) (Packet_AddHeader (length (fields_bytes fs)) (write_fields fs) p (ps_heap s)) }"
| "exec (StripOp i n) s = map_option (\<lambda>p. set_packet s i (Packet_RemoveAtStart n p, ps_heap s)) (get_packet s i)"
| "exec (TrailerOp i bs) s = do {
     p \<leftarrow> get_packet s i;
     map_option (set_packet s i) (Packet_AddTrailer (length bs) (trailer_writer bs) p (ps_heap s)) }"
| "exec (CutOp i n) s = map_option (\<lambda>p. set_packet s i (Packet_RemoveAtEnd n p, ps_heap s)) (get_packet s i)"
| "exec (TagOp i tid data) s = map_option (\<lambda>p. set_packet s i (Packet_AddByteTag tid data p, ps_heap s)) (get_packet s i)"
| "exec (DropOp i) s = do {
     p \<leftarrow> get_packet s i;
     h \<leftarrow> Packet_destroy p (ps_heap s);
     Some \<lparr>ps_heap = h, ps_packets = take i (ps_packets s) @ drop (Suc i) (ps_packets s)\<rparr> }"

fun exec_all :: "pkt_op list \<Rightarrow> pstate \<Rightarrow> pstate option" where
  "exec_all [] s = Some s"
| "exec_all (oper # opers) s = do { s1 \<leftarrow> exec oper s; exec_all opers s1 }"

text \<open>The specification: packets are lists of tagged bytes, each operation changes one of them. It refuses
  packets of two gigabytes.\<close>

definition at_index :: "'a list \<Rightarrow> nat \<Rightarrow> 'a option" where
  "at_index xs i = (if i < length xs then Some (xs ! i) else None)"

definition small :: "tagged \<Rightarrow> tagged option" where
  "small t = (if int (length t) \<le> OFFSET_MAX then Some t else None)"

fun spec :: "pkt_op \<Rightarrow> tagged list \<Rightarrow> tagged list option" where
  "spec (NewOp n) ts = map_option (\<lambda>t. ts @ [t]) (small (untagged (replicate n 0)))"
| "spec (BytesOp bs) ts = map_option (\<lambda>t. ts @ [t]) (small (untagged bs))"
| "spec (CopyOp i) ts = map_option (\<lambda>t. ts @ [t]) (at_index ts i)"
| "spec (FragmentOp i st len) ts = do {
     t \<leftarrow> at_index ts i; (if st + len \<le> length t then Some (ts @ [take len (drop st t)]) else None) }"
| "spec (HeaderOp i fs) ts = do {
     t \<leftarrow> at_index ts i; map_option (\<lambda>t. ts[i := t]) (small (untagged (fields_bytes fs) @ t)) }"
| "spec (StripOp i n) ts = map_option (\<lambda>t. ts[i := drop n t]) (at_index ts i)"
| "spec (TrailerOp i bs) ts = do {
     t \<leftarrow> at_index ts i; map_option (\<lambda>t. ts[i := t]) (small (t @ untagged bs)) }"
| "spec (CutOp i n) ts = map_option (\<lambda>t. ts[i := take (length t - n) t]) (at_index ts i)"
| "spec (TagOp i tid data) ts = map_option (\<lambda>t. ts[i := map (\<lambda>(x, g). (x, g @ [(tid, data)])) t]) (at_index ts i)"
| "spec (DropOp i) ts = map_option (\<lambda>_. take i ts @ drop (Suc i) ts) (at_index ts i)"

fun spec_all :: "pkt_op list \<Rightarrow> tagged list \<Rightarrow> tagged list option" where
  "spec_all [] ts = Some ts"
| "spec_all (oper # opers) ts = do { ts1 \<leftarrow> spec oper ts; spec_all opers ts1 }"

section \<open>The simulation\<close>

definition packets_of :: "pstate \<Rightarrow> tagged list" where
  "packets_of s = map (tagged (ps_heap s)) (ps_packets s)"

definition buffers_of :: "packet list \<Rightarrow> buffer multiset" where
  "buffers_of ps = mset (map p_buffer ps)"

definition pstate_ok :: "pstate \<Rightarrow> bool" where
  "pstate_ok s \<longleftrightarrow> heap_ok (ps_heap s) (buffers_of (ps_packets s)) \<and> (\<forall>p\<in>set (ps_packets s). tags_ok (p_tags p)) \<and>
     (\<forall>t\<in>set (packets_of s). int (length t) \<le> OFFSET_MAX)"

definition rest :: "packet list \<Rightarrow> nat \<Rightarrow> packet list" where
  "rest ps i = take i ps @ drop (Suc i) ps"

lemma buffers_of_index:
  assumes "i < length ps"
  shows "buffers_of ps = add_mset (p_buffer (ps ! i)) (buffers_of (rest ps i))"
    "buffers_of (ps[i := p]) = add_mset (p_buffer p) (buffers_of (rest ps i))"
  using assms by (simp_all add: buffers_of_def rest_def mset_remove_at upd_conv_take_nth_drop flip: map_append)
    (subst id_take_nth_drop [OF assms], simp)

lemma rest_members:
  assumes "j < length ps" "j \<noteq> i" "i < length ps"
  shows "ps ! j \<in> set (rest ps i)"
proof (cases "j < i")
  case True
  then have "ps ! j \<in> set (take i ps)" using assms by (auto simp: in_set_conv_nth intro!: exI [of _ j])
  then show ?thesis by (simp add: rest_def)
next
  case False
  then have "ps ! j \<in> set (drop (Suc i) ps)"
    using assms by (auto simp: in_set_conv_nth intro!: exI [of _ "j - Suc i"])
  then show ?thesis by (simp add: rest_def)
qed

lemma get_packet_ok:
  assumes "pstate_ok s" and "i < length (ps_packets s)"
  shows "packet_ok (ps_heap s) (ps_packets s ! i) (buffers_of (rest (ps_packets s) i))"
  using assms buffers_of_index(1) [OF assms(2)] by (simp add: pstate_ok_def packet_ok_def)

lemma packets_of_index: "at_index (packets_of s) i = map_option (tagged (ps_heap s)) (get_packet s i)"
  by (simp add: at_index_def packets_of_def get_packet_def)

lemma packet_size: "packet_ok h p B \<Longrightarrow> length (tagged h p) = Packet_GetSize p"
  using content_length [of h "p_buffer p" B] by (simp add: packet_ok_def Packet_GetSize_def)

lemma buffers_of_mem: "p \<in> set ps \<Longrightarrow> p_buffer p \<in># buffers_of ps"
  by (simp add: buffers_of_def)

lemma set_packet_ok:
  assumes S: "pstate_ok s" and i: "i < length (ps_packets s)"
    and P: "packet_ok h p (buffers_of (rest (ps_packets s) i))" and t: "tagged h p = t" and l: "int (length t) \<le> OFFSET_MAX"
    and f: "\<And>c. c \<in># buffers_of (rest (ps_packets s) i) \<Longrightarrow> content h c = content (ps_heap s) c"
  shows "pstate_ok (set_packet s i (p, h))" "packets_of (set_packet s i (p, h)) = (packets_of s)[i := t]"
proof -
  have same: "tagged h (ps_packets s ! j) = tagged (ps_heap s) (ps_packets s ! j)" if "j < length (ps_packets s)" "j \<noteq> i" for j
    by (rule tagged_cong, rule f, rule buffers_of_mem, rule rest_members) (use that i in auto)
  show e: "packets_of (set_packet s i (p, h)) = (packets_of s)[i := t]"
  proof (rule nth_equalityI)
    fix j assume "j < length (packets_of (set_packet s i (p, h)))"
    then have j: "j < length (ps_packets s)" by (simp add: packets_of_def set_packet_def)
    show "packets_of (set_packet s i (p, h)) ! j = (packets_of s)[i := t] ! j"
      by (cases "j = i") (use j t same [OF j] i in \<open>simp_all add: packets_of_def set_packet_def\<close>)
  qed (simp add: packets_of_def set_packet_def)
  have "\<forall>u\<in>set ((packets_of s)[i := t]). int (length u) \<le> OFFSET_MAX"
    using S l set_update_subset_insert [of "packets_of s" i t] unfolding pstate_ok_def by blast
  moreover have "\<forall>q\<in>set ((ps_packets s)[i := p]). tags_ok (p_tags q)"
    using S P set_update_subset_insert [of "ps_packets s" i p] unfolding pstate_ok_def packet_ok_def by blast
  moreover have "heap_ok h (buffers_of ((ps_packets s)[i := p]))"
    using P buffers_of_index(2) [OF i] by (simp add: packet_ok_def)
  ultimately show "pstate_ok (set_packet s i (p, h))"
    unfolding pstate_ok_def e by (simp add: set_packet_def)
qed

lemma add_packet_ok:
  assumes S: "pstate_ok s" and P: "packet_ok h p (buffers_of (ps_packets s))" and t: "tagged h p = t"
    and l: "int (length t) \<le> OFFSET_MAX"
    and f: "\<And>c. c \<in># buffers_of (ps_packets s) \<Longrightarrow> content h c = content (ps_heap s) c"
  shows "pstate_ok (add_packet s (p, h))" "packets_of (add_packet s (p, h)) = packets_of s @ [t]"
proof -
  have same: "tagged h q = tagged (ps_heap s) q" if "q \<in> set (ps_packets s)" for q
    by (rule tagged_cong, rule f, rule buffers_of_mem [OF that])
  show e: "packets_of (add_packet s (p, h)) = packets_of s @ [t]"
    using same t by (simp add: packets_of_def add_packet_def)
  show "pstate_ok (add_packet s (p, h))"
    unfolding pstate_ok_def e using S P l by (auto simp: pstate_ok_def packet_ok_def add_packet_def buffers_of_def)
qed

lemma drop_packet_ok:
  assumes S: "pstate_ok s" and i: "i < length (ps_packets s)"
  obtains h where "Packet_destroy (ps_packets s ! i) (ps_heap s) = Some h"
    "pstate_ok \<lparr>ps_heap = h, ps_packets = rest (ps_packets s) i\<rparr>"
    "packets_of \<lparr>ps_heap = h, ps_packets = rest (ps_packets s) i\<rparr> = take i (packets_of s) @ drop (Suc i) (packets_of s)"
proof -
  have H: "heap_ok (ps_heap s) (add_mset (p_buffer (ps_packets s ! i)) (buffers_of (rest (ps_packets s) i)))"
    using get_packet_ok [OF S i] by (simp add: packet_ok_def)
  obtain h where D: "Packet_destroy (ps_packets s ! i) (ps_heap s) = Some h" "heap_ok h (buffers_of (rest (ps_packets s) i))"
    "\<And>c. c \<in># buffers_of (rest (ps_packets s) i) \<Longrightarrow> content h c = content (ps_heap s) c"
    using Buffer_destroy_ok [OF H] by (metis Packet_destroy_def)
  let ?s = "\<lparr>ps_heap = h, ps_packets = rest (ps_packets s) i\<rparr>"
  have "tagged h q = tagged (ps_heap s) q" if "q \<in> set (rest (ps_packets s) i)" for q
    by (rule tagged_cong, rule D(3), rule buffers_of_mem [OF that])
  then have e: "packets_of ?s = map (tagged (ps_heap s)) (rest (ps_packets s) i)" by (simp add: packets_of_def)
  then have e2: "packets_of ?s = take i (packets_of s) @ drop (Suc i) (packets_of s)"
    by (simp add: packets_of_def rest_def take_map drop_map)
  have "set (rest (ps_packets s) i) \<subseteq> set (ps_packets s)" by (auto simp: rest_def dest: in_set_takeD in_set_dropD)
  then have "pstate_ok ?s" using S D(2) e unfolding pstate_ok_def packets_of_def by auto
  then show ?thesis using that D(1) e2 by blast
qed

lemma trailer_writer_eq: "trailer_writer vs = (\<lambda>i h. do { i1 \<leftarrow> It_Prev (length vs) i; It_Write vs i1 h })"
  by (intro ext) (simp add: trailer_writer_def)

lemma Packet_new_ok:
  assumes "heap_ok h B"
  obtains p h' where "Packet_new n h = Some (p, h')" "packet_ok h' p B" "tagged h' p = untagged (replicate n 0)"
    "\<And>c. c \<in># B \<Longrightarrow> content h' c = content h c"
proof -
  obtain b h' where I: "Buffer_Initialize n h = Some (b, h')" "heap_ok h' (add_mset b B)" "content h' b = replicate n 0"
    "\<And>c. c \<in># B \<Longrightarrow> content h' c = content h c"
    using Buffer_Initialize_ok [OF assms, where n = n] by metis
  have "tagged h' \<lparr>p_buffer = b, p_tags = tl_new\<rparr> = untagged (replicate n 0)"
    by (rule taggedI) (use I(3) in auto)
  then show ?thesis using that [of "\<lparr>p_buffer = b, p_tags = tl_new\<rparr>" h'] I by (simp add: Packet_new_def packet_ok_def)
qed

lemma Packet_of_bytes_ok:
  assumes "heap_ok h B"
  obtains p h' where "Packet_of_bytes bs h = Some (p, h')" "packet_ok h' p B" "tagged h' p = untagged bs"
    "\<And>c. c \<in># B \<Longrightarrow> content h' c = content h c"
proof -
  obtain b h0 where I: "Buffer_Initialize 0 h = Some (b, h0)" "heap_ok h0 (add_mset b B)" "content h0 b = []"
    "\<And>c. c \<in># B \<Longrightarrow> content h0 c = content h c"
    using Buffer_Initialize_ok [OF assms, where n = 0] by (metis replicate_0)
  obtain b1 h1 i h2 where S: "AddAtStart (length bs) b h0 = Some (b1, h1)" "It_Write bs (It_Begin b1) h1 = Some (i, h2)"
    "heap_ok h2 (add_mset b1 B)" "content h2 b1 = bs @ content h0 b" "\<And>c. c \<in># B \<Longrightarrow> content h2 c = content h0 c"
    by (rule prepend_ok [OF emits_Write [of bs] I(2)]) (rule that)
  have "tagged h2 \<lparr>p_buffer = b1, p_tags = tl_new\<rparr> = untagged bs"
    by (rule taggedI) (use I(3) S(4) in auto)
  then show ?thesis
    using that [of "\<lparr>p_buffer = b1, p_tags = tl_new\<rparr>" h2] I S by (simp add: Packet_of_bytes_def packet_ok_def)
qed

text \<open>One operation.\<close>

definition simulates :: "pstate \<Rightarrow> pstate option \<Rightarrow> tagged list option \<Rightarrow> bool" where
  "simulates s r ts \<longleftrightarrow> (\<forall>ts'. ts = Some ts' \<longrightarrow> (\<exists>s'. r = Some s' \<and> pstate_ok s' \<and> packets_of s' = ts'))"

lemma small_Some: "small t = Some u \<longleftrightarrow> u = t \<and> int (length t) \<le> OFFSET_MAX"
  by (auto simp: small_def)

lemma exec_simulates_new:
  assumes "pstate_ok s"
  shows "simulates s (exec (NewOp n) s) (spec (NewOp n) (packets_of s))"
    "simulates s (exec (BytesOp bs) s) (spec (BytesOp bs) (packets_of s))"
proof -
  have H: "heap_ok (ps_heap s) (buffers_of (ps_packets s))" using assms by (simp add: pstate_ok_def)
  obtain p h where N: "Packet_new n (ps_heap s) = Some (p, h)" "packet_ok h p (buffers_of (ps_packets s))"
    "tagged h p = untagged (replicate n 0)" "\<And>c. c \<in># buffers_of (ps_packets s) \<Longrightarrow> content h c = content (ps_heap s) c"
    using Packet_new_ok [OF H] by metis
  obtain q k where M: "Packet_of_bytes bs (ps_heap s) = Some (q, k)" "packet_ok k q (buffers_of (ps_packets s))"
    "tagged k q = untagged bs" "\<And>c. c \<in># buffers_of (ps_packets s) \<Longrightarrow> content k c = content (ps_heap s) c"
    using Packet_of_bytes_ok [OF H] by metis
  show "simulates s (exec (NewOp n) s) (spec (NewOp n) (packets_of s))"
    using add_packet_ok [OF assms N(2,3) _ N(4)] N(1) by (auto simp: simulates_def small_Some)
  show "simulates s (exec (BytesOp bs) s) (spec (BytesOp bs) (packets_of s))"
    using add_packet_ok [OF assms M(2,3) _ M(4)] M(1) by (auto simp: simulates_def small_Some)
qed

lemma exec_simulates_copy:
  assumes "pstate_ok s"
  shows "simulates s (exec (CopyOp i) s) (spec (CopyOp i) (packets_of s))"
    "simulates s (exec (FragmentOp i st len) s) (spec (FragmentOp i st len) (packets_of s))"
proof -
  consider "get_packet s i = None" | p where "get_packet s i = Some p" "i < length (ps_packets s)" "p = ps_packets s ! i"
    by (cases "i < length (ps_packets s)") (simp_all add: get_packet_def)
  then show "simulates s (exec (CopyOp i) s) (spec (CopyOp i) (packets_of s))"
    "simulates s (exec (FragmentOp i st len) s) (spec (FragmentOp i st len) (packets_of s))"
  proof (atomize (full), cases)
    case 1
    then show "simulates s (exec (CopyOp i) s) (spec (CopyOp i) (packets_of s)) \<and>
        simulates s (exec (FragmentOp i st len) s) (spec (FragmentOp i st len) (packets_of s))"
      by (simp add: simulates_def packets_of_index)
  next
    case 2
    have P: "packet_ok (ps_heap s) p (buffers_of (rest (ps_packets s) i))" using get_packet_ok [OF assms 2(2)] 2(3) by simp
    have B: "add_mset (p_buffer p) (buffers_of (rest (ps_packets s) i)) = buffers_of (ps_packets s)"
      using buffers_of_index(1) [OF 2(2)] 2(3) by simp
    have g: "int (length (tagged (ps_heap s) p)) \<le> OFFSET_MAX"
      using assms 2 unfolding pstate_ok_def packets_of_def by simp
    have sz: "length (tagged (ps_heap s) p) = Packet_GetSize p"
      by (rule packet_size [OF P])
    obtain q h where C: "Packet_Copy p (ps_heap s) = (q, h)" "packet_ok h q (buffers_of (ps_packets s))"
      "tagged h q = tagged (ps_heap s) p" "\<And>c. content h c = content (ps_heap s) c"
      using Packet_Copy_ok [OF P] B by metis
    have c: "simulates s (exec (CopyOp i) s) (spec (CopyOp i) (packets_of s))"
      using add_packet_ok [OF assms C(2,3) g C(4)] C(1) 2(1) by (simp add: simulates_def packets_of_index)
    have f: "simulates s (exec (FragmentOp i st len) s) (spec (FragmentOp i st len) (packets_of s))"
    proof (cases "st + len \<le> Packet_GetSize p")
      case True
      have "Packet_GetSize p < 2 ^ 32" using g sz by (simp add: OFFSET_MAX_def)
      then obtain q h where F: "Packet_CreateFragment st len p (ps_heap s) = Some (q, h)"
        "packet_ok h q (buffers_of (ps_packets s))" "tagged h q = take len (drop st (tagged (ps_heap s) p))"
        "\<And>c. content h c = content (ps_heap s) c"
        using Packet_CreateFragment_ok [OF P True] B by metis
      have l: "int (length (take len (drop st (tagged (ps_heap s) p)))) \<le> OFFSET_MAX" using g by simp
      show ?thesis
        using add_packet_ok [OF assms F(2,3) l F(4)] F(1) 2(1) True sz by (simp add: simulates_def packets_of_index)
    qed (use 2(1) sz in \<open>simp add: simulates_def packets_of_index\<close>)
    show "simulates s (exec (CopyOp i) s) (spec (CopyOp i) (packets_of s)) \<and>
        simulates s (exec (FragmentOp i st len) s) (spec (FragmentOp i st len) (packets_of s))"
      using c f by simp
  qed
qed

text \<open>The operations that change a packet in place.\<close>

lemma exec_simulates_change:
  assumes S: "pstate_ok s" and i: "get_packet s i = Some p"
    and op: "\<And>B. packet_ok (ps_heap s) p B \<Longrightarrow> small u = Some u \<Longrightarrow> \<exists>p' h'. r = Some (p', h') \<and> packet_ok h' p' B \<and> tagged h' p' = u \<and>
      (\<forall>c. c \<in># B \<longrightarrow> content h' c = content (ps_heap s) c)"
  shows "simulates s (map_option (set_packet s i) r) (map_option (\<lambda>t. (packets_of s)[i := t]) (small u))"
proof (cases "small u")
  case (Some u')
  then have u: "small u = Some u" by (simp add: small_Some)
  have l: "i < length (ps_packets s)" and p: "p = ps_packets s ! i" using i by (auto simp: get_packet_def split: if_splits)
  have P: "packet_ok (ps_heap s) p (buffers_of (rest (ps_packets s) i))" using get_packet_ok [OF S l] p by simp
  obtain p' h' where r: "r = Some (p', h')" "packet_ok h' p' (buffers_of (rest (ps_packets s) i))" "tagged h' p' = u"
    "\<And>c. c \<in># buffers_of (rest (ps_packets s) i) \<Longrightarrow> content h' c = content (ps_heap s) c"
    using op [OF P u] by blast
  have "int (length u) \<le> OFFSET_MAX" using u by (simp add: small_Some)
  from set_packet_ok [OF S l r(2,3) this r(4)] show ?thesis using r(1) u by (simp add: simulates_def)
qed (simp add: simulates_def)

lemma simulates_None: "simulates s r None"
  by (simp add: simulates_def)

lemma exec_simulates_in_place:
  assumes S: "pstate_ok s"
  shows "simulates s (exec (HeaderOp i fs) s) (spec (HeaderOp i fs) (packets_of s))" (is ?h)
    "simulates s (exec (TrailerOp i bs) s) (spec (TrailerOp i bs) (packets_of s))" (is ?t)
    "simulates s (exec (StripOp i n) s) (spec (StripOp i n) (packets_of s))" (is ?s)
    "simulates s (exec (CutOp i n) s) (spec (CutOp i n) (packets_of s))" (is ?c)
    "simulates s (exec (TagOp i tid data) s) (spec (TagOp i tid data) (packets_of s))" (is ?g)
proof -
  have "?h \<and> ?t \<and> ?s \<and> ?c \<and> ?g"
  proof (cases "get_packet s i")
    case None
    then show ?thesis by (simp add: simulates_def packets_of_index)
  next
    case (Some p)
    let ?u = "tagged (ps_heap s) p"
    have l: "i < length (ps_packets s)" and p: "p = ps_packets s ! i" using Some by (auto simp: get_packet_def split: if_splits)
    have P: "packet_ok (ps_heap s) p (buffers_of (rest (ps_packets s) i))" using get_packet_ok [OF S l] p by simp
    have sz: "length ?u = Packet_GetSize p" by (rule packet_size [OF P])
    have g: "int (length ?u) \<le> OFFSET_MAX" using S l p unfolding pstate_ok_def packets_of_def by simp
    have h: ?h
    proof -
      have "simulates s (map_option (set_packet s i) (Packet_AddHeader (length (fields_bytes fs)) (write_fields fs) p (ps_heap s)))
          (map_option (\<lambda>t. (packets_of s)[i := t]) (small (untagged (fields_bytes fs) @ ?u)))"
      proof (rule exec_simulates_change [OF S Some])
        fix B assume Q: "packet_ok (ps_heap s) p B" and s: "small (untagged (fields_bytes fs) @ ?u) = Some (untagged (fields_bytes fs) @ ?u)"
        have n: "int (length (fields_bytes fs) + Packet_GetSize p) \<le> OFFSET_MAX" using s sz by (simp add: small_Some)
        show "\<exists>p' h'. Packet_AddHeader (length (fields_bytes fs)) (write_fields fs) p (ps_heap s) = Some (p', h') \<and> packet_ok h' p' B \<and>
          tagged h' p' = untagged (fields_bytes fs) @ ?u \<and> (\<forall>c. c \<in># B \<longrightarrow> content h' c = content (ps_heap s) c)"
          by (rule Packet_AddHeader_ok [OF emits_fields Q n]) blast
      qed
      then show ?thesis using Some by (simp add: packets_of_index)
    qed
    have t: ?t
    proof -
      have "simulates s (map_option (set_packet s i) (Packet_AddTrailer (length bs) (trailer_writer bs) p (ps_heap s)))
          (map_option (\<lambda>t. (packets_of s)[i := t]) (small (?u @ untagged bs)))"
      proof (rule exec_simulates_change [OF S Some])
        fix B assume Q: "packet_ok (ps_heap s) p B" and s: "small (?u @ untagged bs) = Some (?u @ untagged bs)"
        have n: "int (Packet_GetSize p + length bs) \<le> OFFSET_MAX" using s sz by (simp add: small_Some)
        show "\<exists>p' h'. Packet_AddTrailer (length bs) (trailer_writer bs) p (ps_heap s) = Some (p', h') \<and> packet_ok h' p' B \<and>
          tagged h' p' = ?u @ untagged bs \<and> (\<forall>c. c \<in># B \<longrightarrow> content h' c = content (ps_heap s) c)"
          unfolding trailer_writer_eq by (rule Packet_AddTrailer_ok [OF emits_back_Write Q n]) blast
      qed
      then show ?thesis using Some by (simp add: packets_of_index)
    qed
    have same: "\<And>c. c \<in># buffers_of (rest (ps_packets s) i) \<Longrightarrow> content (ps_heap s) c = content (ps_heap s) c" by simp
    have s: ?s
      using set_packet_ok [OF S l Packet_RemoveAtStart_ok(1) [OF P] Packet_RemoveAtStart_ok(2) [OF P] _ same] g Some
      by (simp add: simulates_def packets_of_index)
    have c: ?c
      using set_packet_ok [OF S l Packet_RemoveAtEnd_ok(1) [OF P] Packet_RemoveAtEnd_ok(2) [OF P] _ same] g Some sz
      by (simp add: simulates_def packets_of_index)
    have t2: ?g
      using set_packet_ok [OF S l Packet_AddByteTag_ok(1) [OF P] Packet_AddByteTag_ok(2) [OF P] _ same] g Some
      by (simp add: simulates_def packets_of_index)
    show ?thesis using h t s c t2 by blast
  qed
  then show ?h ?t ?s ?c ?g by blast+
qed

lemma exec_simulates_drop:
  assumes S: "pstate_ok s"
  shows "simulates s (exec (DropOp i) s) (spec (DropOp i) (packets_of s))"
proof (cases "i < length (ps_packets s)")
  case True
  obtain h where "Packet_destroy (ps_packets s ! i) (ps_heap s) = Some h"
    "pstate_ok \<lparr>ps_heap = h, ps_packets = rest (ps_packets s) i\<rparr>"
    "packets_of \<lparr>ps_heap = h, ps_packets = rest (ps_packets s) i\<rparr> = take i (packets_of s) @ drop (Suc i) (packets_of s)"
    using drop_packet_ok [OF S True] .
  then show ?thesis using True by (simp add: simulates_def packets_of_index get_packet_def rest_def)
qed (simp add: simulates_def packets_of_index get_packet_def)

lemma exec_simulates:
  assumes "pstate_ok s"
  shows "simulates s (exec oper s) (spec oper (packets_of s))"
  by (cases oper) (simp_all only: exec_simulates_new [OF assms] exec_simulates_copy [OF assms]
      exec_simulates_in_place [OF assms] exec_simulates_drop [OF assms])

end
