(* ===== verification/Point_To_Point.thy ===== *)
theory Point_To_Point
  imports Net_Queue Packet_Programs
begin

unbundle bit_operations_syntax

text \<open>
  Point-to-point links: \<^verbatim>\<open>PointToPointNetDevice\<close> (\<^verbatim>\<open>point-to-point-net-device.cc\<close>),
  \<^verbatim>\<open>PointToPointChannel\<close> (\<^verbatim>\<open>point-to-point-channel.cc\<close>) and \<^verbatim>\<open>PppHeader\<close> (\<^verbatim>\<open>ppp-header.cc\<close>), all
  under \<^verbatim>\<open>src/point-to-point/model\<close>. The packets of the devices are objects in a store, with their bytes
  as lists (which is what packets are, by the refinement of the packet programs). The pending
  events are a list in the order in which the engine runs them: by time, and for equal times in the order of
  scheduling. \<^term>\<open>None\<close> is a failed assertion or a null pointer. Trace sources and
  callbacks append to a log. The transmission time of the data rate and the error
  model are functions the user configures.
\<close>

section \<open>The PPP header\<close>

definition PppHeader_GetSerializedSize :: nat where
  "PppHeader_GetSerializedSize = 2"

definition PppHeader_Serialize :: "u16 \<Rightarrow> serializer" where
  "PppHeader_Serialize m_protocol = It_WriteHtonU16 m_protocol"

definition PppHeader_Deserialize :: "u16 deserializer" where
  "PppHeader_Deserialize i h = do { (m_protocol, i1) \<leftarrow> It_ReadNtohU16 i h; Some (m_protocol, PppHeader_GetSerializedSize) }"

text \<open>The same on lists of bytes.\<close>

definition ppp_bytes :: "u16 \<Rightarrow> u8 list" where
  "ppp_bytes m_protocol = [ucast (drop_bit 8 m_protocol), ucast m_protocol]"

definition ppp_read :: "u8 list \<Rightarrow> (u16 \<times> u8 list) option" where
  "ppp_read bs = (case bs of x # y # r \<Rightarrow> Some (word_of_msb [x, y], r) | _ \<Rightarrow> None)"

definition PppToEther :: "u16 \<Rightarrow> u16 option" where
  "PppToEther proto = (if proto = 0x0021 then Some 0x0800 else if proto = 0x0057 then Some 0x86DD else None)"

definition EtherToPpp :: "u16 \<Rightarrow> u16 option" where
  "EtherToPpp proto = (if proto = 0x0800 then Some 0x0021 else if proto = 0x86DD then Some 0x0057 else None)"

section \<open>State\<close>

datatype tx_machine = READY | BUSY

datatype wire_state = INITIALIZING | IDLE | TRANSMITTING | PROPAGATING

type_synonym error_model = "nat \<Rightarrow> u8 list \<Rightarrow> bool" \<comment> \<open>the answer to the n-th question\<close>

record p2p_device =
  nd_txMachineState :: tx_machine
  nd_queue :: pqueue
  nd_currentPkt :: "ptr option"
  nd_linkUp :: bool
  nd_bps :: "nat \<Rightarrow> nat" \<comment> \<open>\<^verbatim>\<open>DataRate::CalculateBytesTxTime\<close>\<close>
  nd_tInterframeGap :: nat
  nd_receiveErrorModel :: "error_model option"
  nd_errorCalls :: nat
  nd_promiscCallback :: bool

record p2p_wire =
  lk_state :: wire_state
  lk_src :: "nat option"
  lk_dst :: "nat option"

record p2p_channel =
  pc_delay :: nat
  pc_nDevices :: nat
  pc_link :: "p2p_wire list"

datatype p2p_event = TransmitCompleteEv nat | ReceiveEv nat "u8 list"

datatype p2p_trace =
    LinkChange nat
  | MacTx nat "u8 list"
  | MacTxDrop nat "u8 list"
  | Sniffer nat "u8 list"
  | PhyTxBegin nat nat "u8 list"
  | PhyTxEnd nat "u8 list"
  | PhyTxDrop nat "u8 list"
  | PhyRxDrop nat nat "u8 list"
  | PhyRxEnd nat nat "u8 list"
  | PromiscCallback nat "u8 list" u16 nat
  | MacPromiscRx nat "u8 list"
  | MacRx nat "u8 list"
  | RxCallback nat "u8 list" u16 nat
  | QueueTrace nat "q_trace list"

record p2p_net =
  pn_now :: nat
  pn_events :: "(nat \<times> p2p_event) list"
  pn_store :: "ptr \<Rightarrow> u8 list"
  pn_next :: ptr
  pn_dev :: "nat \<Rightarrow> p2p_device"
  pn_channel :: p2p_channel
  pn_log :: "p2p_trace list"

definition PointToPointNetDevice :: "pqueue \<Rightarrow> (nat \<Rightarrow> nat) \<Rightarrow> nat \<Rightarrow> p2p_device" where
  "PointToPointNetDevice queue bps gap = \<lparr>nd_txMachineState = READY, nd_queue = queue, nd_currentPkt = None,
     nd_linkUp = False, nd_bps = bps, nd_tInterframeGap = gap, nd_receiveErrorModel = None, nd_errorCalls = 0,
     nd_promiscCallback = False\<rparr>"

definition Link :: p2p_wire where
  "Link = \<lparr>lk_state = INITIALIZING, lk_src = None, lk_dst = None\<rparr>"

definition PointToPointChannel :: "nat \<Rightarrow> p2p_channel" where
  "PointToPointChannel delay = \<lparr>pc_delay = delay, pc_nDevices = 0, pc_link = [Link, Link]\<rparr>"

definition upd_dev :: "nat \<Rightarrow> (p2p_device \<Rightarrow> p2p_device) \<Rightarrow> p2p_net \<Rightarrow> p2p_net" where
  "upd_dev d f s = s\<lparr>pn_dev := (pn_dev s)(d := f (pn_dev s d))\<rparr>"

definition trace :: "p2p_trace list \<Rightarrow> p2p_net \<Rightarrow> p2p_net" where
  "trace ts s = s\<lparr>pn_log := pn_log s @ ts\<rparr>"

definition insert_at :: "nat \<times> 'e \<Rightarrow> (nat \<times> 'e) list \<Rightarrow> (nat \<times> 'e) list" where
  "insert_at e es = takeWhile (\<lambda>x. fst x \<le> fst e) es @ e # dropWhile (\<lambda>x. fst x \<le> fst e) es"

definition net_Schedule :: "nat \<Rightarrow> p2p_event \<Rightarrow> p2p_net \<Rightarrow> p2p_net" where
  "net_Schedule delay ev s = s\<lparr>pn_events := insert_at (pn_now s + delay, ev) (pn_events s)\<rparr>"

section \<open>The channel\<close>

definition channel_Attach :: "nat \<Rightarrow> p2p_channel \<Rightarrow> p2p_channel option" where
  "channel_Attach d c =
     (if pc_nDevices c < 2 then
        let n = pc_nDevices c; link = (pc_link c)[n := (pc_link c ! n)\<lparr>lk_src := Some d\<rparr>]; n1 = n + 1 in
        Some (if n1 = 2 then
                c\<lparr>pc_nDevices := n1, pc_link := [(link ! 0)\<lparr>lk_dst := lk_src (link ! 1), lk_state := IDLE\<rparr>,
                    (link ! 1)\<lparr>lk_dst := lk_src (link ! 0), lk_state := IDLE\<rparr>]\<rparr>
              else c\<lparr>pc_nDevices := n1, pc_link := link\<rparr>)
      else None)"

definition channel_TransmitStart :: "ptr \<Rightarrow> nat \<Rightarrow> nat \<Rightarrow> p2p_net \<Rightarrow> (bool \<times> p2p_net) option" where
  "channel_TransmitStart p src txTime s = (let c = pn_channel s in
     if lk_state (pc_link c ! 0) \<noteq> INITIALIZING \<and> lk_state (pc_link c ! 1) \<noteq> INITIALIZING then
       let wire = (if lk_src (pc_link c ! 0) = Some src then 0 else 1) in
       map_option (\<lambda>dst. (True, net_Schedule (txTime + pc_delay c) (ReceiveEv dst (pn_store s p)) s)) (lk_dst (pc_link c ! wire))
     else None)"

definition channel_GetDevice :: "nat \<Rightarrow> p2p_channel \<Rightarrow> nat option" where
  "channel_GetDevice i c = (if i < 2 then lk_src (pc_link c ! i) else None)"

section \<open>The device\<close>

definition SetDataRate :: "nat \<Rightarrow> (nat \<Rightarrow> nat) \<Rightarrow> p2p_net \<Rightarrow> p2p_net" where
  "SetDataRate d bps = upd_dev d (\<lambda>x. x\<lparr>nd_bps := bps\<rparr>)"

definition SetInterframeGap :: "nat \<Rightarrow> nat \<Rightarrow> p2p_net \<Rightarrow> p2p_net" where
  "SetInterframeGap d t = upd_dev d (\<lambda>x. x\<lparr>nd_tInterframeGap := t\<rparr>)"

definition SetQueue :: "nat \<Rightarrow> pqueue \<Rightarrow> p2p_net \<Rightarrow> p2p_net" where
  "SetQueue d q = upd_dev d (\<lambda>x. x\<lparr>nd_queue := q\<rparr>)"

definition SetReceiveErrorModel :: "nat \<Rightarrow> error_model \<Rightarrow> p2p_net \<Rightarrow> p2p_net" where
  "SetReceiveErrorModel d em = upd_dev d (\<lambda>x. x\<lparr>nd_receiveErrorModel := Some em\<rparr>)"

definition SetPromiscReceiveCallback :: "nat \<Rightarrow> p2p_net \<Rightarrow> p2p_net" where
  "SetPromiscReceiveCallback d = upd_dev d (\<lambda>x. x\<lparr>nd_promiscCallback := True\<rparr>)"

definition NotifyLinkUp :: "nat \<Rightarrow> p2p_net \<Rightarrow> p2p_net" where
  "NotifyLinkUp d s = trace [LinkChange d] (upd_dev d (\<lambda>x. x\<lparr>nd_linkUp := True\<rparr>) s)"

definition device_Attach :: "nat \<Rightarrow> p2p_net \<Rightarrow> p2p_net option" where
  "device_Attach d s = do { c \<leftarrow> channel_Attach d (pn_channel s); Some (NotifyLinkUp d (s\<lparr>pn_channel := c\<rparr>)) }"

definition p2p_AddHeader :: "ptr \<Rightarrow> u16 \<Rightarrow> p2p_net \<Rightarrow> p2p_net option" where
  "p2p_AddHeader p protocolNumber s = do {
     ppp \<leftarrow> EtherToPpp protocolNumber;
     Some (s\<lparr>pn_store := (pn_store s)(p := ppp_bytes ppp @ pn_store s p)\<rparr>) }"

definition p2p_ProcessHeader :: "u8 list \<Rightarrow> (u16 \<times> u8 list) option" where
  "p2p_ProcessHeader bs = do { (ppp, r) \<leftarrow> ppp_read bs; proto \<leftarrow> PppToEther ppp; Some (proto, r) }"

definition device_TransmitStart :: "nat \<Rightarrow> ptr \<Rightarrow> p2p_net \<Rightarrow> (bool \<times> p2p_net) option" where
  "device_TransmitStart d p s =
     (if nd_txMachineState (pn_dev s d) = READY then
        let s1 = trace [PhyTxBegin d (pn_now s) (pn_store s p)]
              (upd_dev d (\<lambda>x. x\<lparr>nd_txMachineState := BUSY, nd_currentPkt := Some p\<rparr>) s);
            txTime = nd_bps (pn_dev s d) (length (pn_store s p));
            s2 = net_Schedule (txTime + nd_tInterframeGap (pn_dev s d)) (TransmitCompleteEv d) s1 in
        do { (result, s3) \<leftarrow> channel_TransmitStart p d txTime s2;
             Some (result, if result then s3 else trace [PhyTxDrop d (pn_store s p)] s3) }
      else None)"

definition device_TransmitComplete :: "nat \<Rightarrow> p2p_net \<Rightarrow> p2p_net option" where
  "device_TransmitComplete d s =
     (if nd_txMachineState (pn_dev s d) = BUSY then do {
        p \<leftarrow> nd_currentPkt (pn_dev s d);
        let s1 = trace [PhyTxEnd d (pn_store s p)] (upd_dev d (\<lambda>x. x\<lparr>nd_txMachineState := READY, nd_currentPkt := None\<rparr>) s);
        (item, tr, q) \<leftarrow> DropTail_Dequeue (nd_queue (pn_dev s1 d));
        let s2 = trace [QueueTrace d tr] (upd_dev d (\<lambda>x. x\<lparr>nd_queue := q\<rparr>) s1);
        (case item of None \<Rightarrow> Some s2
         | Some i \<Rightarrow> map_option snd (device_TransmitStart d (it_uid i) (trace [Sniffer d (pn_store s2 (it_uid i))] s2))) }
      else None)"

definition GetRemote :: "nat \<Rightarrow> p2p_net \<Rightarrow> nat option" where
  "GetRemote d s = (let c = pn_channel s in if pc_nDevices c = 2 then do {
       a \<leftarrow> channel_GetDevice 0 c;
       b \<leftarrow> channel_GetDevice 1 c;
       (if a \<noteq> d then Some a else if b \<noteq> d then Some b else None) }
     else None)"

definition device_Receive :: "nat \<Rightarrow> u8 list \<Rightarrow> p2p_net \<Rightarrow> p2p_net option" where
  "device_Receive d packet s = (let dev = pn_dev s d;
       (corrupt, s1) = (case nd_receiveErrorModel dev of None \<Rightarrow> (False, s)
         | Some em \<Rightarrow> (em (nd_errorCalls dev) packet, upd_dev d (\<lambda>x. x\<lparr>nd_errorCalls := nd_errorCalls x + 1\<rparr>) s)) in
     if corrupt then Some (trace [PhyRxDrop d (pn_now s) packet] s1)
     else do {
       let s2 = trace [Sniffer d packet, PhyRxEnd d (pn_now s) packet] s1;
       (protocol, r) \<leftarrow> p2p_ProcessHeader packet;
       s3 \<leftarrow> (if nd_promiscCallback dev then do {
              remote \<leftarrow> GetRemote d s2;
              Some (trace [MacPromiscRx d packet, PromiscCallback d r protocol remote] s2) }
            else Some s2);
       remote \<leftarrow> GetRemote d s3;
       Some (trace [MacRx d packet, RxCallback d r protocol remote] s3) })"

definition packet_item :: "ptr \<Rightarrow> u8 list \<Rightarrow> queue_item" where
  "packet_item p bs = \<lparr>it_uid = p, it_size = of_nat (length bs), it_priority = None, it_txq = 0, it_ecnCapable = False,
     it_marked = False, it_headerAdded = False, it_tstamp = 0\<rparr>"

definition device_Send :: "nat \<Rightarrow> ptr \<Rightarrow> u16 \<Rightarrow> p2p_net \<Rightarrow> (bool \<times> p2p_net) option" where
  "device_Send d p protocolNumber s =
     (if \<not> nd_linkUp (pn_dev s d) then Some (False, trace [MacTxDrop d (pn_store s p)] s)
      else do {
        s1 \<leftarrow> p2p_AddHeader p protocolNumber s;
        let bs = pn_store s1 p;
        (ok, tr, q) \<leftarrow> DropTail_Enqueue (packet_item p bs) (nd_queue (pn_dev s1 d));
        let s2 = trace [MacTx d bs, QueueTrace d tr] (upd_dev d (\<lambda>x. x\<lparr>nd_queue := q\<rparr>) s1);
        (if ok then
           if nd_txMachineState (pn_dev s2 d) = READY then do {
             (item, tr2, q2) \<leftarrow> DropTail_Dequeue (nd_queue (pn_dev s2 d));
             i \<leftarrow> item;
             device_TransmitStart d (it_uid i) (trace [QueueTrace d tr2, Sniffer d (pn_store s2 (it_uid i))]
               (upd_dev d (\<lambda>x. x\<lparr>nd_queue := q2\<rparr>) s2)) }
           else Some (True, s2)
         else Some (False, trace [MacTxDrop d bs] s2)) })"

section \<open>Running a link\<close>

text \<open>The client creates a packet and sends it, the engine runs the next pending event, or time passes up to the
  next event. The first component of the result lists what was accepted for sending.\<close>

definition fire_next :: "p2p_net \<Rightarrow> p2p_net option" where
  "fire_next s = (case pn_events s of [] \<Rightarrow> Some s
     | (t, ev) # es \<Rightarrow> (let s1 = s\<lparr>pn_now := t, pn_events := es\<rparr> in
         case ev of TransmitCompleteEv d \<Rightarrow> device_TransmitComplete d s1 | ReceiveEv d bs \<Rightarrow> device_Receive d bs s1))"

datatype p2p_action = Client nat "u8 list" u16 | Fire | Idle nat

type_synonym sending = "nat \<times> u8 list \<times> u16"

fun net_step :: "p2p_action \<Rightarrow> p2p_net \<Rightarrow> (sending list \<times> p2p_net) option" where
  "net_step (Client d bs proto) s = do {
     (ok, s1) \<leftarrow> device_Send d (pn_next s) proto (s\<lparr>pn_store := (pn_store s)(pn_next s := bs), pn_next := Suc (pn_next s)\<rparr>);
     Some (if ok then [(d, bs, proto)] else [], s1) }"
| "net_step Fire s = map_option (Pair []) (fire_next s)"
| "net_step (Idle k) s = Some ([], s\<lparr>pn_now := (case pn_events s of [] \<Rightarrow> pn_now s + k | (t, _) # _ \<Rightarrow> min t (pn_now s + k))\<rparr>)"

fun net_run :: "p2p_action list \<Rightarrow> p2p_net \<Rightarrow> (sending list \<times> p2p_net) option" where
  "net_run [] s = Some ([], s)"
| "net_run (a # as) s = do { (x, s1) \<leftarrow> net_step a s; (y, s2) \<leftarrow> net_run as s1; Some (x @ y, s2) }"

end
