(* ===== verification/Packet_Properties.thy ===== *)
theory Packet_Properties
  imports Packet_Programs
begin

unbundle bit_operations_syntax

text \<open>
  The properties of packets and buffers: programs over sharing packets refine list operations, headers and
  serialized buffers are read back, and the cases where \<^verbatim>\<open>AddAtEnd\<close> of another buffer goes wrong.
\<close>

section \<open>Programs\<close>

definition pstate_init :: "(nat \<Rightarrow> nat \<Rightarrow> u8) \<Rightarrow> pstate" where
  "pstate_init junk = \<lparr>ps_heap = \<lparr>bh_data = Map.empty, bh_free = [], bh_next = 0, bh_junk = junk, g_maxSize = 0,
     g_recommendedStart = 0\<rparr>, ps_packets = []\<rparr>"

lemma pstate_init_ok: "pstate_ok (pstate_init junk)" "packets_of (pstate_init junk) = []"
  by (simp_all add: pstate_ok_def pstate_init_def packets_of_def heap_ok_def refs_ok_def share_ok_def block_def buffers_of_def)

lemma exec_all_simulates:
  "pstate_ok s \<Longrightarrow> spec_all opers (packets_of s) = Some ts \<Longrightarrow>
   \<exists>s'. exec_all opers s = Some s' \<and> pstate_ok s' \<and> packets_of s' = ts"
proof (induction opers arbitrary: s)
  case (Cons oper opers)
  obtain ts1 where ts1: "spec oper (packets_of s) = Some ts1" "spec_all opers ts1 = Some ts"
    using Cons.prems(2) by (auto simp: bind_eq_Some_conv)
  obtain s1 where "exec oper s = Some s1" "pstate_ok s1" "packets_of s1 = ts1"
    using exec_simulates [OF Cons.prems(1), of oper] ts1(1) unfolding simulates_def by blast
  with Cons.IH [of s1] ts1(2) show ?case by simp
qed simp

lemma pstate_ok_no_leak:
  assumes "pstate_ok s"
  shows "dom (bh_data (ps_heap s)) = b_data ` p_buffer ` set (ps_packets s) \<union> set (bh_free (ps_heap s))"
proof -
  have "set_mset (image_mset b_data (buffers_of (ps_packets s))) = b_data ` p_buffer ` set (ps_packets s)"
    by (simp add: buffers_of_def)
  then show ?thesis using assms unfolding pstate_ok_def heap_ok_def refs_ok_def dom_def by auto
qed


definition demo_program :: "pkt_op list" where
  "demo_program = [NewOp 4, CopyOp 0, HeaderOp 0 [F8 7, F16 258], TagOp 1 5 [9], HeaderOp 1 [F32 1], FragmentOp 0 2 3,
     StripOp 0 1, TrailerOp 2 [8], DropOp 1]"

definition demo_result :: "tagged list" where
  "demo_result = [untagged [1, 2, 0, 0, 0, 0], untagged [2, 0, 0, 8]]"

lemma OFFSET_MAX_eq: "OFFSET_MAX = 2147483647"
  by (simp add: OFFSET_MAX_def)

lemma demo_fields: "fields_bytes [F8 7, F16 258] = [7, 1, 2]" "fields_bytes [F32 1] = [0, 0, 0, 1]"
  by (simp_all add: fields_bytes_def)

lemma numeral_4_eq_4: "4 = Suc (Suc (Suc (Suc 0)))"
  by simp

lemma demo_spec: "spec_all demo_program [] = Some demo_result"
  by (simp add: demo_program_def demo_result_def at_index_def small_def OFFSET_MAX_eq untagged_def demo_fields
      numeral_2_eq_2 numeral_3_eq_3 numeral_4_eq_4)


section \<open>Round trips\<close>

text \<open>C19: A header of 8, 16, 32 and 64 bit fields in network order and byte strings that is added to a packet in any
  state, with a zero area and with shared blocks, is read back by the reader of the same types: the fields are the ones written, the
  reader consumes exactly the bytes of the header, and removing it leaves the bytes of the packet and
  their tags as they were.\<close>

theorem header_roundtrip:
  assumes P: "packet_ok h p B" and n: "int (length (fields_bytes fs) + Packet_GetSize p) \<le> OFFSET_MAX"
  shows "\<exists>p1 h1 p2. Packet_AddHeader (length (fields_bytes fs)) (write_fields fs) p h = Some (p1, h1) \<and>
    Packet_RemoveHeader (header_reader (map type_of fs)) p1 h1 = Some (fs, length (fields_bytes fs), p2) \<and>
    packet_ok h1 p2 B \<and> tagged h1 p2 = tagged h p \<and> (\<forall>c\<in>#B. content h1 c = content h c)"
proof -
  obtain p1 h1 where A: "Packet_AddHeader (length (fields_bytes fs)) (write_fields fs) p h = Some (p1, h1)"
    "packet_ok h1 p1 B" "tagged h1 p1 = untagged (fields_bytes fs) @ tagged h p" "\<And>c. c \<in># B \<Longrightarrow> content h1 c = content h c"
    using Packet_AddHeader_ok [OF emits_fields P n] by metis
  have H1: "heap_ok h1 (add_mset (p_buffer p1) B)" using A(2) by (simp add: packet_ok_def)
  have "content h1 (p_buffer p1) = fields_bytes fs @ content h (p_buffer p)"
    using arg_cong [OF A(3), of "map fst"] by (simp add: tagged_bytes)
  then have R: "header_reader (map type_of fs) (It_Begin (p_buffer p1)) h1 = Some (fs, length (fields_bytes fs))"
    by (rule header_reader_ok [OF H1])
  let ?n = "length (fields_bytes fs)"
  have "tagged h1 (Packet_RemoveAtStart ?n p1) = tagged h p"
    using Packet_RemoveAtStart_ok(2) [OF A(2)] A(3) by simp
  then show ?thesis
    using A Packet_RemoveHeader_ok [where d = "header_reader (map type_of fs)", OF A(2) R]
      Packet_RemoveAtStart_ok(1) [OF A(2)] by blast
qed

definition demo_heap :: bheap where
  "demo_heap = ps_heap (pstate_init (\<lambda>_ _. 51))"

lemma demo_heap_ok: "heap_ok demo_heap {#}"
  using pstate_init_ok(1) [of "\<lambda>_ _. 51"] by (simp add: pstate_ok_def buffers_of_def demo_heap_def pstate_init_def)

theorem header_roundtrip_witness:
  "\<exists>p h p1 h1 p2. Packet_new 4 demo_heap = Some (p, h) \<and>
     Packet_AddHeader 3 (write_fields [F8 7, F16 258]) p h = Some (p1, h1) \<and>
     Packet_RemoveHeader (header_reader [T8, T16]) p1 h1 = Some ([F8 7, F16 258], 3, p2) \<and> tagged h1 p2 = untagged [0, 0, 0, 0]"
proof -
  obtain p h where N: "Packet_new 4 demo_heap = Some (p, h)" "packet_ok h p {#}" "tagged h p = untagged (replicate 4 0)"
    using Packet_new_ok [OF demo_heap_ok] by metis
  have "int (length (fields_bytes [F8 7, F16 258]) + Packet_GetSize p) \<le> OFFSET_MAX"
    using packet_size [OF N(2)] N(3) by (simp add: demo_fields OFFSET_MAX_eq)
  moreover have "length (fields_bytes [F8 7, F16 258]) = 3" "map type_of [F8 7, F16 258] = [T8, T16]"
    "replicate 4 (0::u8) = [0, 0, 0, 0]"
    by (simp_all add: demo_fields numeral_4_eq_4)
  ultimately show ?thesis using header_roundtrip [OF N(2), where fs = "[F8 7, F16 258]"] N(1,3) by metis
qed



section \<open>Appending a packet\<close>

lemma fresh_bytes:
  assumes "heap_ok h B"
  obtains b h' where "heap_ok h' (add_mset b B)" "content h' b = bs" "zlen b = 0" "\<forall>c\<in>#B. b_data c \<noteq> b_data b"
    "\<And>c. c \<in># B \<Longrightarrow> content h' c = content h c"
proof -
  obtain b h0 where I: "heap_ok h0 (add_mset b B)" "content h0 b = []" "\<And>c. c \<in># B \<Longrightarrow> content h0 c = content h c"
    "b_zeroAreaStart b = b_start b" "b_zeroAreaEnd b = b_end b" "\<forall>c\<in>#B. b_data c \<noteq> b_data b"
    using Buffer_Initialize_ok [OF assms, where n = 0] by (metis replicate_0)
  have "zlen b = 0" using content_length [OF I(1)] I(2,4,5) by (simp add: zlen_def GetSize_def)
  obtain b1 h1 i h2 where "AddAtStart (length bs) b h0 = Some (b1, h1)" "It_Write bs (It_Begin b1) h1 = Some (i, h2)"
    "heap_ok h2 (add_mset b1 B)" "content h2 b1 = bs @ content h0 b" "\<And>c. c \<in># B \<Longrightarrow> content h2 c = content h0 c"
    "zlen b1 = zlen b" "b_data b1 = b_data b \<or> (\<forall>c\<in>#B. b_data c \<noteq> b_data b1)"
    by (rule prepend_ok [OF emits_Write [of bs] I(1)]) (rule that)
  then show ?thesis using that [of h2 b1] I \<open>zlen b = 0\<close> by (metis append_Nil2)
qed



text \<open>A packet cannot be appended to a packet whose block it shares, for instance a copy of itself: when the
  block has room, the assertion that source and destination are different blocks fails, although the
  bytes do not overlap.\<close>

theorem AddAtEnd_of_sharer_asserts:
  assumes H: "heap_ok h (add_mset b (add_mset c B))" and e: "b_data c = b_data b" and z: "zlen b = 0"
    and d: "bh_data h (b_data b) = Some d" "b_end b = bd_dirtyEnd d" "b_end b + GetSize c \<le> bd_size d"
  shows "AddAtEnd_buffer c b h = None"
proof -
  have r: "refs_ok h (add_mset (b_data b) (image_mset b_data (add_mset c B)))" using heap_ok_focus [OF H] by metis
  obtain n where n: "bd_count d = Suc (Suc n)" using refs_okD(5) [OF r d(1)] e by simp
  have off: "b_start b \<le> b_zeroAreaStart b" "b_zeroAreaStart b = b_zeroAreaEnd b" "b_zeroAreaEnd b \<le> b_end b"
    using heap_read_parts(4-6) [OF H] z by (auto simp: zlen_def)
  let ?t = "b\<lparr>b_maxZeroAreaStart := b_zeroAreaStart b\<rparr>"
  have "\<exists>h'. TransformIntoRealBuffer b h = Some (?t, h') \<and> bh_data h' (b_data b) = Some d"
    using d n off
    by (auto simp: TransformIntoRealBuffer_def CreateFullCopy_def Buffer_copy_def Buffer_assign_def Buffer_destroy_def
        release_def Let_def)
  then obtain h' where T: "TransformIntoRealBuffer b h = Some (?t, h')" "bh_data h' (b_data b) = Some d" by blast
  let ?u = "upd_max (?t\<lparr>b_end := b_end b + GetSize c\<rparr>)"
  have A: "\<exists>h2. AddAtEnd (GetSize c) ?t h' = Some (?u, h2)"
    using T(2) d n off by (simp add: AddAtEnd_def GetInternalEnd_def Let_def)
  then obtain h2 where A: "AddAtEnd (GetSize c) ?t h' = Some (?u, h2)" by blast
  have P: "\<exists>i. It_Prev (GetSize c) (It_End ?u) = Some i \<and> i_data i = b_data b"
    by (simp add: It_Prev_def It_End_def It_Begin_def)
  then obtain i where P: "It_Prev (GetSize c) (It_End ?u) = Some i" "i_data i = b_data b" by blast
  have W: "It_Write_range (It_Begin c) (It_End c) i h2 = None"
    using P(2) e by (simp add: It_Write_range_def It_Begin_def It_End_def)
  show ?thesis
    unfolding AddAtEnd_buffer_def d(1) Option.bind.bind_lunit using n T(1) A P(1) W by simp
qed

definition shared_block :: bdata where
  "shared_block = \<lparr>bd_count = 2, bd_size = 4, bd_dirtyStart = 0, bd_dirtyEnd = 2, bd_bytes = [1, 2, 0, 0]\<rparr>"

definition shared_heap :: bheap where
  "shared_heap = \<lparr>bh_data = [0 \<mapsto> shared_block], bh_free = [], bh_next = 1, bh_junk = (\<lambda>_ _. 51), g_maxSize = 0, g_recommendedStart = 0\<rparr>"

definition shared_buffer :: buffer where
  "shared_buffer = \<lparr>b_data = 0, b_maxZeroAreaStart = 2, b_zeroAreaStart = 2, b_zeroAreaEnd = 2, b_start = 0, b_end = 2\<rparr>"

lemma shared_heap_ok: "heap_ok shared_heap {#shared_buffer, shared_buffer#}"
  by (auto simp: heap_ok_def refs_ok_def share_ok_def block_def offs_ok_def zlen_def shared_heap_def shared_buffer_def
      shared_block_def)

theorem AddAtEnd_of_sharer_asserts_witness:
  "content shared_heap shared_buffer = [1, 2] \<and> AddAtEnd_buffer shared_buffer shared_buffer shared_heap = None"
proof
  show "content shared_heap shared_buffer = [1, 2]"
    by (simp add: content_def block_def view_def zlen_def shared_heap_def shared_buffer_def shared_block_def)
  show "AddAtEnd_buffer shared_buffer shared_buffer shared_heap = None"
    by (rule AddAtEnd_of_sharer_asserts [OF shared_heap_ok, of shared_block])
      (simp_all add: zlen_def GetSize_def shared_heap_def shared_buffer_def shared_block_def)
qed

text \<open>C23: The optimisation that joins two adjacent zero areas writes the bytes after the zero area of the appended buffer at
  their virtual offset, without the joined zero area taken off as every other write does: when that offset is past
  the end of the memory block, which is the case as soon as the zero areas are larger than the room left in the
  block, the write goes out of the block although the block has room for the bytes.\<close>

theorem AddAtEnd_joining_overruns:
  assumes H: "heap_ok h (add_mset b (add_mset c B))" and j: "joins_zero_areas c b h"
    and d: "bh_data h (b_data b) = Some d"
    and room: "GetInternalEnd b + (b_end c - b_zeroAreaEnd c) \<le> bd_size d" and y: "b_zeroAreaEnd c < b_end c"
    and far: "bd_size d < b_end b + GetSize c"
  shows "AddAtEnd_buffer c b h = None"
proof -
  have Hc: "heap_ok h (add_mset c (add_mset b B))" using H by (simp add: add_mset_commute)
  obtain v w st x z y where s: "shape c st x z y" and cc: "content h c = v @ replicate z 0 @ w"
    and lv: "length v = x" and lw: "length w = y" using shape_of [OF Hc] .
  have ov: "b_start c = st" "b_zeroAreaStart c = st + x" "b_zeroAreaEnd c = st + x + z" "b_end c = st + x + z + y"
    using s by (auto simp: shape_def)
  have jd: "bd_count d = 1" "b_end b = b_zeroAreaEnd b \<or> b_zeroAreaStart b = b_zeroAreaEnd b" "b_end b = bd_dirtyEnd d"
    "x = 0" "0 < z" using j d ov by (auto simp: joins_zero_areas_def)
  have ob: "b_start b \<le> b_zeroAreaStart b" "b_zeroAreaStart b \<le> b_zeroAreaEnd b" "b_zeroAreaEnd b \<le> b_end b"
    using heap_read_parts(4-6) [OF H] .
  have lb: "length (bd_bytes d) = bd_size d" using heap_ok_focus [OF H] d by (metis option.inject)
  have y0: "0 < y" using y ov by simp
  define b2 where "b2 = (if b_zeroAreaStart b = b_zeroAreaEnd b then b\<lparr>b_zeroAreaStart := b_end b\<rparr> else b)
      \<lparr>b_zeroAreaEnd := b_end b + z, b_end := b_end b + z\<rparr>"
  define h2 where "h2 = upd_data (b_data b) (\<lambda>d. d\<lparr>bd_dirtyEnd := b_end b + z\<rparr>) h"
  define b3 where "b3 = upd_max (b2\<lparr>b_end := b_end b + z + y\<rparr>)"
  define h3 where "h3 = upd_data (b_data b) (\<lambda>d. d\<lparr>bd_dirtyEnd := b_end b + z + y\<rparr>) h2"
  have ie: "GetInternalEnd b2 = GetInternalEnd b" using jd(2) ob by (auto simp: b2_def GetInternalEnd_def)
  have A: "AddAtEnd y b2 h2 = Some (b3, h3)"
    using d jd(1) room ov ie unfolding AddAtEnd_def b3_def h3_def
    by (simp add: h2_def b2_def Let_def)
  have db: "b_data b3 = b_data b" "b_end b3 = b_end b + z + y" "b_zeroAreaEnd b3 = b_end b + z" by (simp_all add: b3_def b2_def)
  define dst where "dst = (It_End b3)\<lparr>i_current := b_end b + z\<rparr>"
  have P1: "It_Prev y (It_End b3) = Some dst"
    by (simp add: It_Prev_def It_End_def It_Begin_def db dst_def)
  define src where "src = (It_End c)\<lparr>i_current := st + x + z\<rparr>"
  have P2: "It_Prev y (It_End c) = Some src"
    by (simp add: It_Prev_def It_End_def It_Begin_def ov src_def)
  have W: "It_Write_range src (It_End c) dst h3 = None"
  proof (rule ccontr)
    assume ne: "It_Write_range src (It_End c) dst h3 \<noteq> None"
    obtain d3 where d3: "bh_data h3 (b_data b) = Some d3" "length (bd_bytes d3) = bd_size d"
      using d lb by (simp add: h3_def h2_def)
    have w0: "heap_write (b_data b) (b_end b + z) (replicate 0 0) h3 = Some h3"
      using d3 by (simp add: heap_write_def mem_write_def upd_data_def fun_upd_idem)
    have dd: "b_data c \<noteq> b_data b"
    proof
      assume "b_data c = b_data b"
      then have "It_Write_range src (It_End c) dst h3 = None"
        by (simp add: It_Write_range_def src_def dst_def It_End_def It_Begin_def db)
      then show False using ne by simp
    qed
    have "bh_data h3 (b_data c) = bh_data h (b_data c)" using dd by (simp add: h3_def h2_def)
    then have rd: "heap_read (b_data c) (st + x) y h3 = Some w"
      using heap_read_shape(2) [OF Hc cc s lv lw] by (simp add: heap_read_def)
    have wr: "heap_write (b_data b) (b_end b + z) w h3 = None"
      using d3 far y0 ov lw jd(4) by (auto simp: heap_write_def mem_write_def GetSize_def)
    show False
      using ne jd(4,5) w0 rd wr
      by (simp add: It_Write_range_def It_copy_part_def src_def dst_def It_End_def It_Begin_def ov db Let_def split: if_splits)
  qed
  have cond: "(bd_count d = 1 \<and> (b_end b = b_zeroAreaEnd b \<or> b_zeroAreaStart b = b_zeroAreaEnd b) \<and> b_end b = bd_dirtyEnd d \<and>
      b_start c = b_zeroAreaStart c \<and> b_zeroAreaEnd c - b_zeroAreaStart c > 0) = True"
    using jd ov by auto
  show ?thesis
    unfolding AddAtEnd_buffer_def d Option.bind.bind_lunit cond if_True Let_def
    using A P1 P2 W by (cases "b_zeroAreaStart b = b_zeroAreaEnd b") (simp_all add: ov b2_def h2_def)
qed

definition joining_block :: bdata where
  "joining_block = \<lparr>bd_count = 1, bd_size = 3, bd_dirtyStart = 0, bd_dirtyEnd = 2, bd_bytes = [0, 0, 0]\<rparr>"

definition joining_heap :: bheap where
  "joining_heap = \<lparr>bh_data = [0 \<mapsto> joining_block,
     1 \<mapsto> \<lparr>bd_count = 1, bd_size = 3, bd_dirtyStart = 0, bd_dirtyEnd = 3, bd_bytes = [7, 0, 0]\<rparr>],
     bh_free = [], bh_next = 2, bh_junk = (\<lambda>_ _. 51), g_maxSize = 0, g_recommendedStart = 0\<rparr>"

definition two_zeros :: buffer where
  "two_zeros = \<lparr>b_data = 0, b_maxZeroAreaStart = 0, b_zeroAreaStart = 0, b_zeroAreaEnd = 2, b_start = 0, b_end = 2\<rparr>"

definition zeros_and_byte :: buffer where
  "zeros_and_byte = \<lparr>b_data = 1, b_maxZeroAreaStart = 0, b_zeroAreaStart = 0, b_zeroAreaEnd = 2, b_start = 0, b_end = 3\<rparr>"

lemma joining_heap_ok: "heap_ok joining_heap {#two_zeros, zeros_and_byte#}"
  by (auto simp: heap_ok_def refs_ok_def share_ok_def block_def offs_ok_def zlen_def joining_heap_def two_zeros_def
      zeros_and_byte_def joining_block_def)

theorem AddAtEnd_joining_overruns_witness:
  "content joining_heap two_zeros = [0, 0] \<and> content joining_heap zeros_and_byte = [0, 0, 7] \<and>
   AddAtEnd_buffer zeros_and_byte two_zeros joining_heap = None"
proof (intro conjI)
  show "content joining_heap two_zeros = [0, 0]" "content joining_heap zeros_and_byte = [0, 0, 7]"
    by (simp_all add: content_def block_def view_def zlen_def joining_heap_def two_zeros_def zeros_and_byte_def
        joining_block_def numeral_2_eq_2)
  show "AddAtEnd_buffer zeros_and_byte two_zeros joining_heap = None"
    by (rule AddAtEnd_joining_overruns [OF joining_heap_ok, where d = joining_block])
      (simp_all add: joins_zero_areas_def GetSize_def GetInternalEnd_def joining_heap_def two_zeros_def zeros_and_byte_def
        joining_block_def)
qed

text \<open>The padding of \<^verbatim>\<open>AddPaddingAtEnd\<close> is what the memory block holds behind the packet, and not zeros: when
  bytes are cut off a packet that does not share its block, padding of the same length brings exactly those bytes back.\<close>

theorem padding_restores_removed_bytes:
  assumes P: "packet_ok h p B" and d: "bh_data h (b_data (p_buffer p)) = Some d" "bd_count d = 1"
    and n: "b_zeroAreaEnd (p_buffer p) + n \<le> b_end (p_buffer p)"
  shows "\<exists>p' h'. Packet_AddPaddingAtEnd n (Packet_RemoveAtEnd n p) h = Some (p', h') \<and>
    map fst (tagged h' p') = map fst (tagged h p)"
proof -
  let ?b = "p_buffer p"
  have H: "heap_ok h (add_mset ?b B)" using P by (simp add: packet_ok_def)
  obtain d' Z where d': "bh_data h (b_data ?b) = Some d'" and o: "offs_ok Z d' ?b" using heap_ok_focus [OF H] by metis
  have o: "offs_ok Z d ?b" using o d d' by simp
  let ?r = "RemoveAtEnd n ?b"
  have f: "b_start ?r = b_start ?b" "b_zeroAreaStart ?r = b_zeroAreaStart ?b" "b_zeroAreaEnd ?r = b_zeroAreaEnd ?b"
    "b_end ?r = b_end ?b - n" "b_data ?r = b_data ?b"
    using n o by (auto simp: RemoveAtEnd_def Let_def offs_ok_def zlen_def)
  let ?b' = "upd_max (?r\<lparr>b_end := b_end ?r + n\<rparr>)"
  let ?h' = "upd_data (b_data ?b) (\<lambda>d. d\<lparr>bd_dirtyEnd := b_end ?b\<rparr>) h"
  have "GetInternalEnd ?r + n \<le> bd_size d"
    using n o f by (auto simp: GetInternalEnd_def offs_ok_def zlen_def)
  then have "AddAtEnd n ?r h = Some (?b', ?h')"
    using d n o f by (simp add: AddAtEnd_def offs_ok_def)
  moreover have "content ?h' ?b' = content h ?b"
    using d n f o by (simp add: content_alt view_def zlen_def offs_ok_def)
  ultimately show ?thesis
    by (simp add: Packet_AddPaddingAtEnd_def Packet_RemoveAtEnd_def tagged_bytes Let_def)
qed

definition single_block :: bdata where
  "single_block = \<lparr>bd_count = 1, bd_size = 4, bd_dirtyStart = 0, bd_dirtyEnd = 3, bd_bytes = [1, 2, 9, 0]\<rparr>"

definition single_heap :: bheap where
  "single_heap = \<lparr>bh_data = [0 \<mapsto> single_block],
     bh_free = [], bh_next = 1, bh_junk = (\<lambda>_ _. 51), g_maxSize = 0, g_recommendedStart = 0\<rparr>"

definition single_packet :: packet where
  "single_packet = \<lparr>p_buffer = \<lparr>b_data = 0, b_maxZeroAreaStart = 0, b_zeroAreaStart = 0, b_zeroAreaEnd = 0, b_start = 0,
     b_end = 3\<rparr>, p_tags = tl_new\<rparr>"

lemma single_packet_ok: "packet_ok single_heap single_packet {#}"
  by (auto simp: packet_ok_def heap_ok_def refs_ok_def share_ok_def block_def offs_ok_def zlen_def single_heap_def
      single_packet_def single_block_def)

theorem padding_restores_removed_bytes_witness:
  "\<exists>p' h'. Packet_AddPaddingAtEnd 1 (Packet_RemoveAtEnd 1 single_packet) single_heap = Some (p', h') \<and>
     map fst (tagged h' p') = [1, 2, 9]"
proof -
  have "map fst (tagged single_heap single_packet) = [1, 2, 9]"
    by (simp add: tagged_bytes content_def block_def view_def zlen_def single_heap_def single_packet_def
      single_block_def numeral_3_eq_3)
  moreover have "\<exists>p' h'. Packet_AddPaddingAtEnd 1 (Packet_RemoveAtEnd 1 single_packet) single_heap = Some (p', h') \<and>
     map fst (tagged h' p') = map fst (tagged single_heap single_packet)"
    by (rule padding_restores_removed_bytes [OF single_packet_ok, where d = single_block])
      (simp_all add: single_heap_def single_packet_def single_block_def)
  ultimately show ?thesis by simp
qed

end
