(* ===== verification/Point_To_Point_Link.thy ===== *)
theory Point_To_Point_Link
  imports Point_To_Point Packet_Properties
begin

unbundle bit_operations_syntax

text \<open>
  What a point-to-point link promises: the PPP header round trip, and the invariant of two connected devices: which
  packets have begun transmission, are on the wire, have arrived, and when. The link delivers what it
  accepts, in order, and always drains.
\<close>

section \<open>The PPP header\<close>

lemma ppp_serialize_emits: "emits (PppHeader_Serialize m) (ppp_bytes m)"
  using emits_field [of "F16 m"] by (simp add: PppHeader_Serialize_def ppp_bytes_def)

lemma ppp_read_bytes: "ppp_read (ppp_bytes m @ bs) = Some (m, bs)"
  by (simp add: ppp_read_def ppp_bytes_def msb_bytes)

text \<open>On packets the header operations do what the operations on lists of bytes do.\<close>

lemma ppp_on_packets:
  assumes P: "packet_ok h p B" and n: "int (2 + Packet_GetSize p) \<le> OFFSET_MAX"
  shows "\<exists>p1 h1 p2. Packet_AddHeader PppHeader_GetSerializedSize (PppHeader_Serialize m) p h = Some (p1, h1) \<and>
    content h1 (p_buffer p1) = ppp_bytes m @ content h (p_buffer p) \<and>
    Packet_RemoveHeader PppHeader_Deserialize p1 h1 = Some (m, 2, p2) \<and> tagged h1 p2 = tagged h p"
proof -
  have l: "length (ppp_bytes m) = 2" by (simp add: ppp_bytes_def)
  obtain p1 h1 where A: "Packet_AddHeader 2 (PppHeader_Serialize m) p h = Some (p1, h1)"
    "packet_ok h1 p1 B" "tagged h1 p1 = untagged (ppp_bytes m) @ tagged h p"
    by (rule Packet_AddHeader_ok [OF ppp_serialize_emits [of m] P, unfolded l, OF n]) (rule that)
  have H1: "heap_ok h1 (add_mset (p_buffer p1) B)" using A(2) by (simp add: packet_ok_def)
  have c: "content h1 (p_buffer p1) = ppp_bytes m @ content h (p_buffer p)"
    using arg_cong [OF A(3), of "map fst"] by (simp add: tagged_bytes)
  have "read_field T16 (at (p_buffer p1) 0) h1 = Some (F16 m, at (p_buffer p1) 2)"
    using read_field_at [OF H1, of 0 "F16 m"] c by (simp add: ppp_bytes_def numeral_2_eq_2)
  then have "PppHeader_Deserialize (It_Begin (p_buffer p1)) h1 = Some (m, 2)"
    by (auto simp: PppHeader_Deserialize_def PppHeader_GetSerializedSize_def)
  then have R: "Packet_RemoveHeader PppHeader_Deserialize p1 h1 = Some (m, 2, Packet_RemoveAtStart 2 p1)"
    by (rule Packet_RemoveHeader_ok [where d = PppHeader_Deserialize, OF A(2)])
  have "tagged h1 (Packet_RemoveAtStart 2 p1) = tagged h p"
    using Packet_RemoveAtStart_ok(2) [OF A(2)] A(3) l by simp
  then show ?thesis using A(1) c R by (metis PppHeader_GetSerializedSize_def)
qed

section \<open>What the log and the pending events say\<close>

definition other :: "nat \<Rightarrow> nat" where
  "other d = 1 - d"

definition begins :: "nat \<Rightarrow> p2p_trace list \<Rightarrow> (nat \<times> u8 list) list" where
  "begins d log = concat (map (\<lambda>x. case x of PhyTxBegin d' t bs \<Rightarrow> if d' = d then [(t, bs)] else [] | _ \<Rightarrow> []) log)"

definition arrivals :: "nat \<Rightarrow> p2p_trace list \<Rightarrow> (nat \<times> u8 list) list" where
  "arrivals d log = concat (map (\<lambda>x. case x of PhyRxDrop d' t bs \<Rightarrow> if d' = d then [(t, bs)] else []
     | PhyRxEnd d' t bs \<Rightarrow> if d' = d then [(t, bs)] else [] | _ \<Rightarrow> []) log)"

definition delivered :: "nat \<Rightarrow> p2p_trace list \<Rightarrow> (u8 list \<times> u16) list" where
  "delivered d log = concat (map (\<lambda>x. case x of RxCallback d' bs proto r \<Rightarrow> if d' = d then [(bs, proto)] else [] | _ \<Rightarrow> []) log)"

definition wire :: "nat \<Rightarrow> (nat \<times> p2p_event) list \<Rightarrow> (nat \<times> u8 list) list" where
  "wire d es = concat (map (\<lambda>(t, ev). case ev of ReceiveEv d' bs \<Rightarrow> if d' = d then [(t, bs)] else [] | _ \<Rightarrow> []) es)"

definition completes :: "nat \<Rightarrow> (nat \<times> p2p_event) list \<Rightarrow> nat list" where
  "completes d es = concat (map (\<lambda>(t, ev). case ev of TransmitCompleteEv d' \<Rightarrow> if d' = d then [t] else [] | _ \<Rightarrow> []) es)"

definition sent_by :: "nat \<Rightarrow> sending list \<Rightarrow> (u8 list \<times> u16) list" where
  "sent_by d acc = map snd (filter (\<lambda>x. fst x = d) acc)"

definition frame :: "u8 list \<times> u16 \<Rightarrow> u8 list" where
  "frame x = ppp_bytes (the (EtherToPpp (snd x))) @ fst x"

text \<open>What an error model lets through.\<close>

definition survivors :: "error_model option \<Rightarrow> (u8 list \<times> u16) list \<Rightarrow> (u8 list \<times> u16) list" where
  "survivors em xs = (case em of None \<Rightarrow> xs
     | Some f \<Rightarrow> map snd (filter (\<lambda>(i, x). \<not> f i (frame x)) (enumerate 0 xs)))"

lemmas observations = begins_def arrivals_def delivered_def wire_def completes_def

lemma observe_append [simp]:
  "begins d (xs @ ys) = begins d xs @ begins d ys" "arrivals d (xs @ ys) = arrivals d xs @ arrivals d ys"
  "delivered d (xs @ ys) = delivered d xs @ delivered d ys" "wire d (es @ fs) = wire d es @ wire d fs"
  "completes d (es @ fs) = completes d es @ completes d fs" "sent_by d (as @ bs) = sent_by d as @ sent_by d bs"
  by (simp_all add: observations sent_by_def)

lemma observe_Cons:
  "begins d (x # xs) = begins d [x] @ begins d xs" "arrivals d (x # xs) = arrivals d [x] @ arrivals d xs"
  "delivered d (x # xs) = delivered d [x] @ delivered d xs" "wire d (e # es) = wire d [e] @ wire d es"
  "completes d (e # es) = completes d [e] @ completes d es"
  by (simp_all add: observations)

lemma observe_one [simp]:
  "begins d [x] = (case x of PhyTxBegin d' t bs \<Rightarrow> if d' = d then [(t, bs)] else [] | _ \<Rightarrow> [])"
  "arrivals d [x] = (case x of PhyRxDrop d' t bs \<Rightarrow> if d' = d then [(t, bs)] else []
     | PhyRxEnd d' t bs \<Rightarrow> if d' = d then [(t, bs)] else [] | _ \<Rightarrow> [])"
  "delivered d [x] = (case x of RxCallback d' bs proto r \<Rightarrow> if d' = d then [(bs, proto)] else [] | _ \<Rightarrow> [])"
  "wire d [(t, ev)] = (case ev of ReceiveEv d' bs \<Rightarrow> if d' = d then [(t, bs)] else [] | _ \<Rightarrow> [])"
  "completes d [(t, ev)] = (case ev of TransmitCompleteEv d' \<Rightarrow> if d' = d then [t] else [] | _ \<Rightarrow> [])"
  "sent_by d [(d', bs, p)] = (if d' = d then [(bs, p)] else [])"
  by (simp_all add: observations sent_by_def split: p2p_trace.splits p2p_event.splits)

lemma observe_Nil [simp]:
  "begins d [] = []" "arrivals d [] = []" "delivered d [] = []" "wire d [] = []" "completes d [] = []" "sent_by d [] = []"
  by (simp_all add: observations sent_by_def)

lemma other_simps [simp]:
  "other 0 = 1" "other (Suc 0) = 0" "d < 2 \<Longrightarrow> other d \<noteq> d" "d < 2 \<Longrightarrow> d \<noteq> other d" "d < 2 \<Longrightarrow> other (other d) = d" "other d < 2"
  by (auto simp: other_def; arith)+

lemma two_devices: "d < 2 \<Longrightarrow> d' < 2 \<Longrightarrow> d' = d \<or> d' = other d"
  by (auto simp: other_def)

lemma survivors_snoc:
  "survivors em (xs @ [x]) = survivors em xs @
     (case em of None \<Rightarrow> [x] | Some f \<Rightarrow> if f (length xs) (frame x) then [] else [x])"
  by (simp add: survivors_def enumerate_append_eq split: option.split)

lemma frame_decodes:
  assumes "EtherToPpp (snd x) \<noteq> None"
  shows "p2p_ProcessHeader (frame x) = Some (snd x, fst x)"
  using assms by (auto simp: p2p_ProcessHeader_def frame_def ppp_read_bytes EtherToPpp_def PppToEther_def split: if_splits)

section \<open>Insertion into the pending events\<close>

lemma insert_at_members: "set (insert_at e es) = insert e (set es)"
proof -
  have "set es = set (takeWhile (\<lambda>x. fst x \<le> fst e) es) \<union> set (dropWhile (\<lambda>x. fst x \<le> fst e) es)"
    by (metis set_append takeWhile_dropWhile_id)
  then show ?thesis by (auto simp: insert_at_def)
qed

lemma length_insert_at [simp]: "length (insert_at e es) = Suc (length es)"
  by (metis (no_types, lifting) insert_at_def length_Cons length_append takeWhile_dropWhile_id add_Suc_right)

lemma sorted_insert_at:
  "sorted (map fst es) \<Longrightarrow> sorted (map fst (insert_at e es))"
  by (induction es) (auto simp: insert_at_def dest: set_takeWhileD dest!: set_dropWhileD)

lemma observe_insert:
  assumes "f e = []"
  shows "concat (map f (insert_at e es)) = concat (map f es)"
proof -
  have "concat (map f es) = concat (map f (takeWhile (\<lambda>x. fst x \<le> fst e) es @ dropWhile (\<lambda>x. fst x \<le> fst e) es))" by simp
  then show ?thesis using assms by (simp add: insert_at_def del: takeWhile_dropWhile_id)
qed

lemma observe_insert_last:
  assumes "sorted (map fst es)" and "\<forall>x\<in>set es. f x \<noteq> [] \<longrightarrow> fst x \<le> fst e"
  shows "concat (map f (insert_at e es)) = concat (map f es) @ f e"
  using assms
proof (induction es)
  case (Cons a es)
  show ?case
  proof (cases "fst a \<le> fst e")
    case True
    then show ?thesis using Cons by (simp add: insert_at_def)
  next
    case False
    then have "\<forall>x\<in>set (a # es). f x = []" using Cons.prems by fastforce
    then have z: "f a = []" "concat (map f es) = []" by auto
    have i: "insert_at e (a # es) = e # a # es" using False by (simp add: insert_at_def)
    show ?thesis unfolding i by (simp only: z list.map concat.simps append_Nil append_Nil2)
  qed
qed (simp add: insert_at_def)

section \<open>The invariant\<close>

definition wired :: "p2p_net \<Rightarrow> bool" where
  "wired s \<longleftrightarrow> (\<exists>delay. pn_channel s = \<lparr>pc_delay = delay, pc_nDevices = 2,
     pc_link = [\<lparr>lk_state = IDLE, lk_src = Some 0, lk_dst = Some 1\<rparr>, \<lparr>lk_state = IDLE, lk_src = Some 1, lk_dst = Some 0\<rparr>]\<rparr>) \<and>
     sorted (map fst (pn_events s)) \<and>
     (\<forall>x\<in>set (pn_events s). pn_now s \<le> fst x \<and> (case snd x of TransmitCompleteEv d \<Rightarrow> d < 2 | ReceiveEv d bs \<Rightarrow> d < 2))"

text \<open>When the medium of device \<^term>\<open>d\<close> is free again after the transmission of some bytes at time \<^term>\<open>t\<close>.\<close>

definition free_at :: "p2p_device \<Rightarrow> nat \<times> u8 list \<Rightarrow> nat" where
  "free_at x = (\<lambda>(t, bs). t + nd_bps x (length bs) + nd_tInterframeGap x)"

definition arrives_at :: "p2p_device \<Rightarrow> nat \<Rightarrow> nat \<times> u8 list \<Rightarrow> nat \<times> u8 list" where
  "arrives_at x delay = (\<lambda>(t, bs). (t + nd_bps x (length bs) + delay, bs))"

text \<open>The bytes in the queue of a device are those of its packets.\<close>

definition queued :: "nat \<Rightarrow> p2p_net \<Rightarrow> u8 list list" where
  "queued d s = map (\<lambda>i. pn_store s (it_uid i)) (q_packets (nd_queue (pn_dev s d)))"

definition queue_ok :: "nat \<Rightarrow> p2p_net \<Rightarrow> bool" where
  "queue_ok d s \<longleftrightarrow> (let q = nd_queue (pn_dev s d) in queue_inv q \<and> queue_bounded q \<and>
     (\<forall>i\<in>set (q_packets q). it_uid i < pn_next s \<and> packet_item (it_uid i) (pn_store s (it_uid i)) = i))"

text \<open>The direction from device \<^term>\<open>d\<close> to the other one; \<^term>\<open>held\<close> is what is between the queue and the transmitter.\<close>

definition flow :: "sending list \<Rightarrow> u8 list list \<Rightarrow> nat \<Rightarrow> p2p_net \<Rightarrow> bool" where
  "flow acc held d s \<longleftrightarrow> nd_linkUp (pn_dev s d) \<and> queue_ok d s \<and>
     map frame (sent_by d acc) = map snd (begins d (pn_log s)) @ held @ queued d s \<and>
     map (arrives_at (pn_dev s d) (pc_delay (pn_channel s))) (begins d (pn_log s)) =
       arrivals (other d) (pn_log s) @ wire (other d) (pn_events s) \<and>
     sorted_wrt (\<lambda>x y. free_at (pn_dev s d) x \<le> fst y) (begins d (pn_log s)) \<and>
     (nd_receiveErrorModel (pn_dev s (other d)) \<noteq> None \<longrightarrow>
        nd_errorCalls (pn_dev s (other d)) = length (arrivals (other d) (pn_log s))) \<and>
     delivered (other d) (pn_log s) =
       survivors (nd_receiveErrorModel (pn_dev s (other d))) (take (length (arrivals (other d) (pn_log s))) (sent_by d acc))"

definition idle_tx :: "nat \<Rightarrow> p2p_net \<Rightarrow> bool" where
  "idle_tx d s \<longleftrightarrow> nd_txMachineState (pn_dev s d) = READY \<and> nd_currentPkt (pn_dev s d) = None \<and>
     completes d (pn_events s) = [] \<and> (\<forall>x\<in>set (begins d (pn_log s)). free_at (pn_dev s d) x \<le> pn_now s)"

definition busy_tx :: "nat \<Rightarrow> p2p_net \<Rightarrow> bool" where
  "busy_tx d s \<longleftrightarrow> nd_txMachineState (pn_dev s d) = BUSY \<and> nd_currentPkt (pn_dev s d) \<noteq> None \<and>
     (\<exists>t. completes d (pn_events s) = [t] \<and> (\<forall>x\<in>set (begins d (pn_log s)). free_at (pn_dev s d) x \<le> t))"

text \<open>A device is idle only with an empty queue.\<close>

definition tx_ok :: "nat \<Rightarrow> p2p_net \<Rightarrow> bool" where
  "tx_ok d s \<longleftrightarrow> idle_tx d s \<and> q_packets (nd_queue (pn_dev s d)) = [] \<or> busy_tx d s"

definition link_inv :: "sending list \<Rightarrow> p2p_net \<Rightarrow> bool" where
  "link_inv acc s \<longleftrightarrow> wired s \<and> (\<forall>x\<in>set acc. EtherToPpp (snd (snd x)) \<noteq> None) \<and>
     (\<forall>d<2. flow acc [] d s \<and> tx_ok d s)"

section \<open>Changes that a direction does not see\<close>

definition same_flow :: "nat \<Rightarrow> p2p_net \<Rightarrow> p2p_net \<Rightarrow> bool" where
  "same_flow d s s' \<longleftrightarrow> nd_linkUp (pn_dev s' d) = nd_linkUp (pn_dev s d) \<and> nd_queue (pn_dev s' d) = nd_queue (pn_dev s d) \<and>
     nd_bps (pn_dev s' d) = nd_bps (pn_dev s d) \<and> nd_tInterframeGap (pn_dev s' d) = nd_tInterframeGap (pn_dev s d) \<and>
     nd_receiveErrorModel (pn_dev s' (other d)) = nd_receiveErrorModel (pn_dev s (other d)) \<and>
     nd_errorCalls (pn_dev s' (other d)) = nd_errorCalls (pn_dev s (other d)) \<and>
     (\<forall>p<pn_next s. pn_store s' p = pn_store s p) \<and> pn_next s \<le> pn_next s' \<and> pn_channel s' = pn_channel s \<and>
     begins d (pn_log s') = begins d (pn_log s) \<and> arrivals (other d) (pn_log s') = arrivals (other d) (pn_log s) \<and>
     delivered (other d) (pn_log s') = delivered (other d) (pn_log s) \<and> wire (other d) (pn_events s') = wire (other d) (pn_events s)"

definition same_tx :: "nat \<Rightarrow> p2p_net \<Rightarrow> p2p_net \<Rightarrow> bool" where
  "same_tx d s s' \<longleftrightarrow> nd_txMachineState (pn_dev s' d) = nd_txMachineState (pn_dev s d) \<and>
     nd_currentPkt (pn_dev s' d) = nd_currentPkt (pn_dev s d) \<and> nd_queue (pn_dev s' d) = nd_queue (pn_dev s d) \<and>
     nd_bps (pn_dev s' d) = nd_bps (pn_dev s d) \<and> nd_tInterframeGap (pn_dev s' d) = nd_tInterframeGap (pn_dev s d) \<and>
     completes d (pn_events s') = completes d (pn_events s) \<and> begins d (pn_log s') = begins d (pn_log s) \<and> pn_now s \<le> pn_now s'"

lemma free_at_cong: "nd_bps x = nd_bps y \<Longrightarrow> nd_tInterframeGap x = nd_tInterframeGap y \<Longrightarrow> free_at x = free_at y"
  by (simp add: free_at_def)

lemma arrives_at_cong: "nd_bps x = nd_bps y \<Longrightarrow> arrives_at x = arrives_at y"
  by (simp add: arrives_at_def fun_eq_iff)

lemma same_flowD:
  assumes "same_flow d s s'" and f: "flow acc held d s" and a: "sent_by d acc' = sent_by d acc"
  shows "flow acc' held d s'"
proof -
  note s = assms(1) [unfolded same_flow_def]
  have F: "free_at (pn_dev s' d) = free_at (pn_dev s d)" using s by (intro free_at_cong) simp_all
  have A: "arrives_at (pn_dev s' d) = arrives_at (pn_dev s d)" using s by (intro arrives_at_cong) simp_all
  have q: "queue_ok d s" using f by (simp add: flow_def)
  then have u: "\<forall>i\<in>set (q_packets (nd_queue (pn_dev s d))). pn_store s' (it_uid i) = pn_store s (it_uid i)"
    using s by (simp add: queue_ok_def Let_def)
  have "queue_ok d s'" using q u s by (auto simp: queue_ok_def Let_def)
  moreover have "queued d s' = queued d s" using u s by (simp add: queued_def)
  ultimately show ?thesis using f s F A a by (simp add: flow_def)
qed

lemma same_txD:
  assumes "same_tx d s s'" and "tx_ok d s"
  shows "tx_ok d s'"
proof -
  note s = assms(1) [unfolded same_tx_def]
  have F: "free_at (pn_dev s' d) = free_at (pn_dev s d)" using s by (intro free_at_cong) simp_all
  show ?thesis using assms(2) s F by (fastforce simp: tx_ok_def idle_tx_def busy_tx_def)
qed

section \<open>Transmission\<close>

lemmas net_defs = net_Schedule_def trace_def upd_dev_def

lemma begins_before_arrivals:
  assumes "flow acc held d s" and "\<forall>x\<in>set (begins d (pn_log s)). free_at (pn_dev s d) x \<le> t"
  shows "\<forall>x\<in>set (wire (other d) (pn_events s)). fst x \<le> t + pc_delay (pn_channel s)"
proof
  fix x assume "x \<in> set (wire (other d) (pn_events s))"
  then have "x \<in> set (map (arrives_at (pn_dev s d) (pc_delay (pn_channel s))) (begins d (pn_log s)))"
    using assms(1) by (simp add: flow_def)
  then obtain y where "y \<in> set (begins d (pn_log s))" "x = arrives_at (pn_dev s d) (pc_delay (pn_channel s)) y" by auto
  then show "fst x \<le> t + pc_delay (pn_channel s)" using assms(2) by (fastforce simp: arrives_at_def free_at_def split: prod.splits)
qed

lemma wire_members: "(t, ReceiveEv d bs) \<in> set es \<Longrightarrow> (t, bs) \<in> set (wire d es)"
  by (force simp: wire_def)

lemma completes_insert:
  "completes d (insert_at (t, ReceiveEv e bs) es) = completes d es"
  "e \<noteq> d \<Longrightarrow> completes d (insert_at (t, TransmitCompleteEv e) es) = completes d es"
  "wire d (insert_at (t, TransmitCompleteEv e) es) = wire d es"
  "e \<noteq> d \<Longrightarrow> wire d (insert_at (t, ReceiveEv e bs) es) = wire d es"
  unfolding completes_def wire_def by (rule observe_insert, simp)+

lemma completes_insert_own:
  assumes "completes d es = []"
  shows "completes d (insert_at (t, TransmitCompleteEv d) es) = [t]"
proof -
  let ?f = "\<lambda>(t, ev). case ev of TransmitCompleteEv d' \<Rightarrow> if d' = d then [t] else [] | _ \<Rightarrow> []"
  have "completes d es = completes d (takeWhile (\<lambda>x. fst x \<le> t) es) @ completes d (dropWhile (\<lambda>x. fst x \<le> t) es)"
    by (metis observe_append(5) takeWhile_dropWhile_id)
  then show ?thesis using assms by (simp add: insert_at_def observe_Cons(5) [of d "(t, TransmitCompleteEv d)"])
qed

lemma wire_insert_own:
  assumes "sorted (map fst es)" and "\<forall>x\<in>set (wire d es). fst x \<le> t"
  shows "wire d (insert_at (t, ReceiveEv d bs) es) = wire d es @ [(t, bs)]"
proof -
  let ?f = "\<lambda>(t, ev). case ev of ReceiveEv d' bs \<Rightarrow> if d' = d then [(t, bs)] else [] | _ \<Rightarrow> []"
  have "\<forall>x\<in>set es. ?f x \<noteq> [] \<longrightarrow> fst x \<le> fst (t, ReceiveEv d bs)"
    using assms(2) by (fastforce dest: wire_members split: p2p_event.splits if_splits)
  then show ?thesis using observe_insert_last [OF assms(1), of ?f "(t, ReceiveEv d bs)"] by (simp add: wire_def)
qed

lemma TransmitStart_ok:
  assumes w: "wired s" and d: "d < 2" and f: "flow acc [pn_store s p] d s" and i: "idle_tx d s"
  obtains s' where "device_TransmitStart d p s = Some (True, s')" "wired s'" "flow acc [] d s'" "busy_tx d s'"
    "same_flow (other d) s s'" "same_tx (other d) s s'" "pn_now s' = pn_now s" "pn_next s' = pn_next s"
    "length (pn_events s') = length (pn_events s) + 2" "nd_queue (pn_dev s' d) = nd_queue (pn_dev s d)"
    "pn_store s' = pn_store s"
proof -
  let ?x = "pn_dev s d" and ?bs = "pn_store s p"
  let ?tx = "nd_bps ?x (length ?bs)" and ?D = "pc_delay (pn_channel s)"
  define es1 where "es1 = insert_at (pn_now s + (?tx + nd_tInterframeGap ?x), TransmitCompleteEv d) (pn_events s)"
  define es2 where "es2 = insert_at (pn_now s + (?tx + ?D), ReceiveEv (other d) ?bs) es1"
  define s' where "s' = s\<lparr>pn_dev := (pn_dev s)(d := ?x\<lparr>nd_txMachineState := BUSY, nd_currentPkt := Some p\<rparr>),
    pn_log := pn_log s @ [PhyTxBegin d (pn_now s) ?bs], pn_events := es2\<rparr>"
  have d01: "d = 0 \<or> d = 1" using d by auto
  have run: "device_TransmitStart d p s = Some (True, s')"
    using i w d01 by (auto simp: device_TransmitStart_def channel_TransmitStart_def idle_tx_def wired_def net_defs
        s'_def es1_def es2_def Let_def)
  have so: "sorted (map fst es1)" "sorted (map fst es2)"
    using w by (simp_all add: wired_def es1_def es2_def sorted_insert_at)
  have W: "wired s'" using w d so(2) by (auto simp: wired_def s'_def es1_def es2_def insert_at_members)
  have e: "\<forall>x\<in>set (begins d (pn_log s)). free_at ?x x \<le> pn_now s" using i by (simp add: idle_tx_def)
  have b: "begins d (pn_log s') = begins d (pn_log s) @ [(pn_now s, ?bs)]" by (simp add: s'_def)
  have wi: "wire (other d) es2 = wire (other d) (pn_events s) @ [(pn_now s + (?tx + ?D), ?bs)]"
  proof -
    have "\<forall>x\<in>set (wire (other d) es1). fst x \<le> pn_now s + (?tx + ?D)"
      using begins_before_arrivals [OF f e] by (fastforce simp: es1_def completes_insert)
    then show ?thesis unfolding es2_def using wire_insert_own [OF so(1)] by (simp add: es1_def completes_insert)
  qed
  have c: "completes d es2 = [pn_now s + (?tx + nd_tInterframeGap ?x)]"
    using i unfolding es2_def es1_def by (simp add: completes_insert completes_insert_own idle_tx_def)
  have F: "free_at (pn_dev s' d) = free_at ?x" by (simp add: free_at_def s'_def fun_eq_iff)
  have A: "arrives_at (pn_dev s' d) = arrives_at ?x" by (simp add: arrives_at_def s'_def fun_eq_iff)
  have B: "busy_tx d s'"
    using e c unfolding busy_tx_def F b by (auto simp: s'_def free_at_def)
  have "flow acc [] d s'"
    using f e wi d unfolding flow_def F A b
    by (auto simp: s'_def arrives_at_def queue_ok_def queued_def sorted_wrt_append Let_def)
  moreover have "same_flow (other d) s s'" "same_tx (other d) s s'"
    using d01 unfolding same_flow_def same_tx_def
    by (auto simp: s'_def es1_def es2_def completes_insert)
  ultimately show ?thesis using run W B by (intro that [of s']) (simp_all add: s'_def es1_def es2_def)
qed

lemma same_flow_trans: "same_flow d s s1 \<Longrightarrow> same_flow d s1 s2 \<Longrightarrow> same_flow d s s2"
  by (simp add: same_flow_def)

lemma same_tx_trans: "same_tx d s s1 \<Longrightarrow> same_tx d s1 s2 \<Longrightarrow> same_tx d s s2"
  by (simp add: same_tx_def)

text \<open>Trace entries that say nothing about the flow of packets.\<close>

definition silent :: "p2p_trace list \<Rightarrow> bool" where
  "silent ts \<longleftrightarrow> (\<forall>d. begins d ts = [] \<and> arrivals d ts = [] \<and> delivered d ts = [])"

lemma silent_simps [simp]:
  "silent []" "silent (QueueTrace d tr # ts) = silent ts" "silent (Sniffer d bs # ts) = silent ts"
  "silent (PhyTxEnd d bs # ts) = silent ts" "silent (MacTx d bs # ts) = silent ts" "silent (MacTxDrop d bs # ts) = silent ts"
  by (simp_all add: silent_def observations)

lemma dequeue_flow:
  assumes f: "flow acc [] d s" and q: "q_packets (nd_queue (pn_dev s d)) = i # is"
  obtains q' where "DropTail_Dequeue (nd_queue (pn_dev s d)) = Some (Some i, [TraceDequeue i], q')" "q_packets q' = is"
    "\<And>ts m c. silent ts \<Longrightarrow> flow acc [pn_store s (it_uid i)] d
       (trace ts (upd_dev d (\<lambda>x. x\<lparr>nd_txMachineState := m, nd_currentPkt := c, nd_queue := q'\<rparr>) s))"
proof -
  have q0: "queue_inv (nd_queue (pn_dev s d))" "queue_bounded (nd_queue (pn_dev s d))"
    using f by (simp_all add: flow_def queue_ok_def Let_def)
  obtain q' where q': "DropTail_Dequeue (nd_queue (pn_dev s d)) = Some (Some i, [TraceDequeue i], q')" "queue_inv q'"
    "q_packets q' = is" "queue_bounded q'"
    using DropTail_Dequeue_item [OF q0(1) q] q0(2) by blast
  have "flow acc [pn_store s (it_uid i)] d
       (trace ts (upd_dev d (\<lambda>x. x\<lparr>nd_txMachineState := m, nd_currentPkt := c, nd_queue := q'\<rparr>) s))" if "silent ts" for ts m c
  proof -
    let ?x = "(pn_dev s d)\<lparr>nd_txMachineState := m, nd_currentPkt := c, nd_queue := q'\<rparr>"
    have "free_at ?x = free_at (pn_dev s d)" "arrives_at ?x = arrives_at (pn_dev s d)"
      by (simp_all add: free_at_def arrives_at_def fun_eq_iff)
    then show ?thesis using f q q' that
      by (auto simp: flow_def net_defs queue_ok_def queued_def silent_def Let_def)
  qed
  then show ?thesis using q' that by blast
qed

definition work :: "p2p_net \<Rightarrow> nat" where
  "work s = length (pn_events s) + 2 * (length (q_packets (nd_queue (pn_dev s 0))) + length (q_packets (nd_queue (pn_dev s 1))))"

lemma work_eq: "d < 2 \<Longrightarrow> work s = length (pn_events s) +
   2 * (length (q_packets (nd_queue (pn_dev s d))) + length (q_packets (nd_queue (pn_dev s (other d)))))"
  by (cases "d = 0"; cases "d = 1") (auto simp: work_def other_def)

lemma TransmitComplete_ok:
  assumes w: "wired s" and d: "d < 2" and f: "flow acc [] d s"
    and i: "nd_txMachineState (pn_dev s d) = BUSY" "nd_currentPkt (pn_dev s d) \<noteq> None" "completes d (pn_events s) = []"
      "\<forall>x\<in>set (begins d (pn_log s)). free_at (pn_dev s d) x \<le> pn_now s"
  obtains s' where "device_TransmitComplete d s = Some s'" "wired s'" "flow acc [] d s'" "tx_ok d s'"
    "same_flow (other d) s s'" "same_tx (other d) s s'" "work s' = work s"
proof -
  obtain p where p: "nd_currentPkt (pn_dev s d) = Some p" using i(2) by auto
  let ?x = "pn_dev s d"
  have q0: "queue_inv (nd_queue ?x)" using f by (simp add: flow_def queue_ok_def Let_def)
  show ?thesis
  proof (cases "q_packets (nd_queue ?x)")
    case Nil
    let ?y = "?x\<lparr>nd_txMachineState := READY, nd_currentPkt := None\<rparr>"
    define s' where "s' = s\<lparr>pn_dev := (pn_dev s)(d := ?y), pn_log := pn_log s @ [PhyTxEnd d (pn_store s p), QueueTrace d []]\<rparr>"
    have c: "free_at ?y = free_at ?x" "arrives_at ?y = arrives_at ?x"
      by (simp_all add: free_at_def arrives_at_def fun_eq_iff)
    have "device_TransmitComplete d s = Some s'"
      using i p DropTail_Dequeue_empty [OF q0 Nil] by (simp add: device_TransmitComplete_def net_defs s'_def)
    moreover have "silent [PhyTxEnd d (pn_store s p), QueueTrace d []]" by simp
    then have "wired s'" "flow acc [] d s'" "tx_ok d s'" "same_flow (other d) s s'" "same_tx (other d) s s'"
      using w f i c d Nil
      by (auto simp: wired_def flow_def tx_ok_def idle_tx_def same_flow_def same_tx_def s'_def silent_def queue_ok_def
          queued_def Let_def)
    moreover have "work s' = work s" using d by (simp add: work_eq [OF d] s'_def)
    ultimately show ?thesis by (rule that)
  next
    case (Cons j js)
    obtain q' where q': "DropTail_Dequeue (nd_queue ?x) = Some (Some j, [TraceDequeue j], q')" "q_packets q' = js"
      and fl: "\<And>ts m c. silent ts \<Longrightarrow> flow acc [pn_store s (it_uid j)] d
       (trace ts (upd_dev d (\<lambda>x. x\<lparr>nd_txMachineState := m, nd_currentPkt := c, nd_queue := q'\<rparr>) s))"
      by (rule dequeue_flow [OF f Cons]) (rule that)
    let ?ts = "[PhyTxEnd d (pn_store s p), QueueTrace d [TraceDequeue j], Sniffer d (pn_store s (it_uid j))]"
    define s1 where "s1 = trace ?ts (upd_dev d (\<lambda>x. x\<lparr>nd_txMachineState := READY, nd_currentPkt := None, nd_queue := q'\<rparr>) s)"
    have f1: "flow acc [pn_store s1 (it_uid j)] d s1" using fl [where ts = ?ts and m = READY and c = None] by (simp add: s1_def net_defs)
    have c: "free_at (pn_dev s1 d) = free_at ?x" by (simp add: free_at_def s1_def net_defs fun_eq_iff)
    have si: "silent ?ts" by simp
    have i1: "idle_tx d s1" unfolding idle_tx_def c using i si by (simp add: s1_def net_defs silent_def)
    have w1: "wired s1" using w by (simp add: wired_def s1_def net_defs)
    obtain s' where s': "device_TransmitStart d (it_uid j) s1 = Some (True, s')" "wired s'" "flow acc [] d s'" "busy_tx d s'"
      "same_flow (other d) s1 s'" "same_tx (other d) s1 s'" "length (pn_events s') = length (pn_events s1) + 2"
      "nd_queue (pn_dev s' d) = nd_queue (pn_dev s1 d)"
      using TransmitStart_ok [OF w1 d f1 i1] by metis
    have o: "same_flow (other d) s s1" "same_tx (other d) s s1"
      using d si by (simp_all add: same_flow_def same_tx_def s1_def net_defs silent_def)
    have "nd_queue (pn_dev s' (other d)) = nd_queue (pn_dev s (other d))"
      using s'(6) o(2) by (simp add: same_tx_def)
    then have "work s' = work s" using s'(7,8) Cons q'(2) by (simp add: work_eq [OF d] s1_def net_defs)
    moreover have "device_TransmitComplete d s = Some s'"
      using i p q'(1) s'(1) by (simp add: device_TransmitComplete_def s1_def net_defs)
    moreover have "tx_ok d s'" using s'(4) by (simp add: tx_ok_def)
    ultimately show ?thesis using s' o by (intro that [of s']) (auto intro: same_flow_trans same_tx_trans)
  qed
qed

section \<open>Reception\<close>

lemma wired_pop:
  assumes "wired s" and "pn_events s = (t, ev) # es"
  shows "wired (s\<lparr>pn_now := t, pn_events := es\<rparr>)" "pn_now s \<le> t"
  using assms by (auto simp: wired_def)

lemma GetRemote_other: "wired s \<Longrightarrow> d < 2 \<Longrightarrow> GetRemote d s = Some (other d)"
  by (cases "d = 0") (auto simp: wired_def GetRemote_def channel_GetDevice_def Let_def other_def)

text \<open>The packet that arrives is the first one accepted that has not arrived yet.\<close>

lemma arriving_packet:
  assumes f: "flow acc [] d s" and e: "pn_events s = (t, ReceiveEv (other d) bs) # es"
  defines "n \<equiv> length (arrivals (other d) (pn_log s))"
  obtains x where "x \<in> set (sent_by d acc)" "bs = frame x" "take (Suc n) (sent_by d acc) = take n (sent_by d acc) @ [x]"
    "length (take n (sent_by d acc)) = n"
proof -
  let ?b = "begins d (pn_log s)" and ?a = "arrivals (other d) (pn_log s)"
  have m: "map (arrives_at (pn_dev s d) (pc_delay (pn_channel s))) ?b = ?a @ (t, bs) # wire (other d) es"
    using f e by (simp add: flow_def observe_Cons(4) [of _ _ es])
  have "length ?b = length ?a + Suc (length (wire (other d) es))" using arg_cong [OF m, of length] by simp
  then have n: "n < length ?b" by (simp add: n_def)
  have "map snd (map (arrives_at (pn_dev s d) (pc_delay (pn_channel s))) ?b) = map snd ?b"
    by (simp add: arrives_at_def split_def)
  then have "map snd ?b ! n = map snd (?a @ (t, bs) # wire (other d) es) ! n" unfolding m by simp
  then have bs: "map snd ?b ! n = bs" by (simp add: n_def nth_append)
  have g: "map frame (sent_by d acc) = map snd ?b @ queued d s" using f by (simp add: flow_def)
  have l: "n < length (sent_by d acc)" using arg_cong [OF g, of length] n by simp
  have "frame (sent_by d acc ! n) = map frame (sent_by d acc) ! n" using l by simp
  also have "\<dots> = bs" unfolding g using n bs by (simp add: nth_append)
  finally show ?thesis using that [of "sent_by d acc ! n"] l by (simp add: take_Suc_conv_app_nth)
qed

definition received :: "bool \<Rightarrow> bool \<Rightarrow> nat \<Rightarrow> nat \<Rightarrow> u8 list \<times> u16 \<Rightarrow> p2p_trace list" where
  "received corrupt promisc d t x = (if corrupt then [PhyRxDrop d t (frame x)]
     else [Sniffer d (frame x), PhyRxEnd d t (frame x)] @
       (if promisc then [MacPromiscRx d (frame x), PromiscCallback d (fst x) (snd x) (other d)] else []) @
       [MacRx d (frame x), RxCallback d (fst x) (snd x) (other d)])"

lemma received_observed:
  "begins e (received c p d t x) = []"
  "arrivals e (received c p d t x) = (if e = d then [(t, frame x)] else [])"
  "delivered e (received c p d t x) = (if e = d \<and> \<not> c then [x] else [])"
  by (cases c; cases p; simp add: received_def observations)+

lemma device_Receive_eq:
  assumes w: "wired s" and d: "d < 2" and x: "EtherToPpp (snd x) \<noteq> None"
  shows "device_Receive d (frame x) s = Some (case nd_receiveErrorModel (pn_dev s d) of
       None \<Rightarrow> trace (received False (nd_promiscCallback (pn_dev s d)) d (pn_now s) x) s
     | Some em \<Rightarrow> trace (received (em (nd_errorCalls (pn_dev s d)) (frame x)) (nd_promiscCallback (pn_dev s d)) d (pn_now s) x)
         (upd_dev d (\<lambda>y. y\<lparr>nd_errorCalls := nd_errorCalls y + 1\<rparr>) s))"
proof -
  have g: "GetRemote d s' = Some (other d)" if "pn_channel s' = pn_channel s" for s'
    using GetRemote_other [OF w d] that by (simp add: GetRemote_def)
  show ?thesis
    using frame_decodes [OF x] by (auto simp: device_Receive_def received_def Let_def net_defs g split: option.split)
qed

lemma Receive_ok:
  assumes L: "link_inv acc s" and e: "pn_events s = (t, ReceiveEv r bs) # es"
  obtains s' where "device_Receive r bs (s\<lparr>pn_now := t, pn_events := es\<rparr>) = Some s'" "link_inv acc s'" "Suc (work s') = work s"
proof -
  let ?s1 = "s\<lparr>pn_now := t, pn_events := es\<rparr>"
  have w: "wired s" using L by (simp add: link_inv_def)
  then have r: "r < 2" using e by (auto simp: wired_def)
  define d where "d = other r"
  have d: "d < 2" "r = other d" "other r = d" using r by (simp_all add: d_def)
  have f: "flow acc [] d s" "flow acc [] r s" and tx: "tx_ok d s" "tx_ok r s" using L d r by (simp_all add: link_inv_def)
  let ?n = "length (arrivals r (pn_log s))" and ?y = "pn_dev s r"
  obtain x where x: "x \<in> set (sent_by d acc)" "bs = frame x" "take (Suc ?n) (sent_by d acc) = take ?n (sent_by d acc) @ [x]"
    "length (take ?n (sent_by d acc)) = ?n"
    using arriving_packet [OF f(1), of t bs es] e d(2) by metis
  have xp: "EtherToPpp (snd x) \<noteq> None" using x(1) L by (auto simp: link_inv_def sent_by_def)
  define s' where "s' = (case nd_receiveErrorModel ?y of
       None \<Rightarrow> trace (received False (nd_promiscCallback ?y) r t x) ?s1
     | Some em \<Rightarrow> trace (received (em (nd_errorCalls ?y) (frame x)) (nd_promiscCallback ?y) r t x)
         (upd_dev r (\<lambda>y. y\<lparr>nd_errorCalls := nd_errorCalls y + 1\<rparr>) ?s1))"
  have w1: "wired ?s1" "pn_now s \<le> t" using wired_pop [OF w e] by simp_all
  have run: "device_Receive r bs ?s1 = Some s'"
    using device_Receive_eq [OF w1(1) r xp] by (simp add: x(2) s'_def split: option.split)
  have ev: "wire r (pn_events s) = (t, frame x) # wire r es" "wire d (pn_events s) = wire d es"
    "completes d' (pn_events s) = completes d' es" for d'
    using e d r x(2) by (simp_all add: observe_Cons(4,5) [of _ _ es])
  have W: "wired s'" using w1 by (simp add: s'_def wired_def net_defs split: option.split)
  have so: "same_flow r s s'" "same_tx r s s'" "same_tx d s s'"
    using r d ev w1(2) by (simp_all add: same_flow_def same_tx_def s'_def net_defs received_observed split: option.split)
  have c: "free_at (y\<lparr>nd_errorCalls := k\<rparr>) = free_at y" "arrives_at (y\<lparr>nd_errorCalls := k\<rparr>) = arrives_at y" for y k
    by (simp_all add: free_at_def arrives_at_def fun_eq_iff)
  have "flow acc [] d s'"
    using f(1) ev d r x(3,4)
    by (auto simp: flow_def s'_def net_defs received_observed queue_ok_def queued_def Let_def c survivors_snoc split: option.split)
  moreover have "flow acc [] r s'" by (rule same_flowD [OF so(1) f(2) refl])
  moreover have "tx_ok d s'" "tx_ok r s'" using same_txD so tx by blast+
  ultimately have "flow acc [] d' s' \<and> tx_ok d' s'" if "d' < 2" for d'
    using that r d two_devices [of d d'] by metis
  then have "link_inv acc s'" using W L by (simp add: link_inv_def)
  moreover have "Suc (work s') = work s" using e by (simp add: work_def s'_def net_defs split: option.split)
  ultimately show ?thesis using that run by blast
qed

section \<open>Sending\<close>

lemma sent_frame: "EtherToPpp proto \<noteq> None \<Longrightarrow> ppp_bytes (the (EtherToPpp proto)) @ bs = frame (bs, proto)"
  by (simp add: frame_def)

lemma items_bytes_le:
  assumes "\<forall>i\<in>set xs. packet_item (it_uid i) (st (it_uid i)) = i"
  shows "items_bytes xs \<le> sum_list (map length (map (\<lambda>i. st (it_uid i)) xs))"
  using assms
proof (induction xs)
  case (Cons i xs)
  have "it_size i = of_nat (length (st (it_uid i)))" using Cons.prems by (metis list.set_intros(1) packet_item_def queue_item.select_convs(2))
  then have "unat (it_size i) \<le> length (st (it_uid i))" by (simp add: unsigned_of_nat)
  then show ?case using Cons by simp
qed (simp add: items_bytes_def)

definition acc_bytes :: "sending list \<Rightarrow> nat" where
  "acc_bytes acc = sum_list (map (\<lambda>(d, bs, proto). length bs + 2) acc)"

lemma length_frame: "length (frame x) = length (fst x) + 2"
  by (simp add: frame_def ppp_bytes_def)

lemma sent_bytes: "sum_list (map length (map frame (sent_by d acc))) \<le> acc_bytes acc" "length (sent_by d acc) \<le> length acc"
  by (induction acc) (auto simp: sent_by_def acc_bytes_def length_frame intro: le_trans [OF length_filter_le])

lemma queue_counts:
  assumes f: "flow acc [] d s" and l: "length acc + 1 < 2 ^ 32" "acc_bytes acc + length bs < 2 ^ 32"
  shows "counts_fit (packet_item p bs) (q_packets (nd_queue (pn_dev s d)))"
proof -
  let ?q = "q_packets (nd_queue (pn_dev s d))"
  have m: "map frame (sent_by d acc) = map snd (begins d (pn_log s)) @ queued d s" using f by (simp add: flow_def)
  have "length ?q \<le> length acc"
    using arg_cong [OF m, of length] sent_bytes(2) [of d acc] by (simp add: queued_def)
  moreover have "items_bytes ?q \<le> sum_list (map length (queued d s))"
    unfolding queued_def using f by (intro items_bytes_le) (simp add: flow_def queue_ok_def Let_def)
  moreover have "sum_list (map length (queued d s)) \<le> acc_bytes acc"
    using sent_bytes(1) [of d acc] unfolding m by simp
  moreover have "unat (it_size (packet_item p bs)) \<le> length bs" by (simp add: packet_item_def unsigned_of_nat)
  ultimately show ?thesis using l by (simp add: counts_fit_def)
qed

text \<open>The state after the header is added and the packet is offered to the queue.\<close>

lemma offered_flow:
  assumes f: "flow acc [] d s" and a: "EtherToPpp proto \<noteq> None" and l: "length acc + 1 < 2 ^ 32" "acc_bytes acc + length bs + 2 < 2 ^ 32"
  defines "p \<equiv> pn_next s"
  defines "s0 \<equiv> s\<lparr>pn_store := (pn_store s)(p := frame (bs, proto)), pn_next := Suc p\<rparr>"
  obtains ok tr q where "DropTail_Enqueue (packet_item p (frame (bs, proto))) (nd_queue (pn_dev s d)) = Some (ok, tr, q)"
    "q_packets q = (if ok then q_packets (nd_queue (pn_dev s d)) @ [packet_item p (frame (bs, proto))] else q_packets (nd_queue (pn_dev s d)))"
    "\<And>ts. silent ts \<Longrightarrow> flow (acc @ (if ok then [(d, bs, proto)] else [])) [] d (trace ts (upd_dev d (\<lambda>x. x\<lparr>nd_queue := q\<rparr>) s0))"
proof -
  let ?q = "nd_queue (pn_dev s d)" and ?i = "packet_item p (frame (bs, proto))"
  have q0: "queue_inv ?q" "queue_bounded ?q" and u: "\<forall>i\<in>set (q_packets ?q). it_uid i < p"
    using f by (simp_all add: flow_def queue_ok_def Let_def p_def)
  have cf: "counts_fit ?i (q_packets ?q)" using l by (intro queue_counts [OF f]) (simp_all add: length_frame)
  define ok where "ok = queue_room ?i ?q"
  obtain tr q where q: "DropTail_Enqueue ?i ?q = Some (ok, tr, q)" "queue_inv q" "queue_bounded q"
    "q_packets q = (if ok then q_packets ?q @ [?i] else q_packets ?q)"
    using DropTail_Enqueue_cases [OF q0 cf] unfolding ok_def by blast
  have c: "free_at (y\<lparr>nd_queue := k\<rparr>) = free_at y" "arrives_at (y\<lparr>nd_queue := k\<rparr>) = arrives_at y" for y k
    by (simp_all add: free_at_def arrives_at_def fun_eq_iff)
  have m: "map frame (sent_by d acc) = map snd (begins d (pn_log s)) @ queued d s" using f by (simp add: flow_def)
  have b: "length (arrivals (other d) (pn_log s)) \<le> length (sent_by d acc)"
  proof -
    have "map (arrives_at (pn_dev s d) (pc_delay (pn_channel s))) (begins d (pn_log s)) =
       arrivals (other d) (pn_log s) @ wire (other d) (pn_events s)" using f by (simp add: flow_def)
    from arg_cong [OF this, of length] arg_cong [OF m, of length] show ?thesis by simp
  qed
  have "flow (acc @ (if ok then [(d, bs, proto)] else [])) [] d (trace ts (upd_dev d (\<lambda>x. x\<lparr>nd_queue := q\<rparr>) s0))" if si: "silent ts" for ts
  proof -
    define s2 where "s2 = trace ts (upd_dev d (\<lambda>x. x\<lparr>nd_queue := q\<rparr>) s0)"
    have n: "nd_queue (pn_dev s2 d) = q" "pn_next s2 = Suc p" "pn_store s2 p = frame (bs, proto)" "it_uid ?i = p"
      and old: "k < p \<Longrightarrow> pn_store s2 k = pn_store s k" for k
      by (simp_all add: s2_def net_defs s0_def packet_item_def)
    have "\<forall>j\<in>set (q_packets ?q). it_uid j < Suc p \<and> packet_item (it_uid j) (pn_store s2 (it_uid j)) = j"
      using f u old by (simp add: flow_def queue_ok_def Let_def less_SucI)
    then have "queue_ok d s2" using q n by (simp add: queue_ok_def Let_def)
    moreover have "queued d s2 = queued d s @ (if ok then [frame (bs, proto)] else [])"
      using q(4) u n old by (simp add: queued_def)
    moreover have "free_at (pn_dev s2 d) = free_at (pn_dev s d)" "arrives_at (pn_dev s2 d) = arrives_at (pn_dev s d)"
      by (simp_all add: s2_def net_defs s0_def c)
    moreover have "nd_linkUp (pn_dev s2 d) = nd_linkUp (pn_dev s d)" "pn_channel s2 = pn_channel s"
      "nd_receiveErrorModel (pn_dev s2 (other d)) = nd_receiveErrorModel (pn_dev s (other d))"
      "nd_errorCalls (pn_dev s2 (other d)) = nd_errorCalls (pn_dev s (other d))" "pn_events s2 = pn_events s"
      by (simp_all add: s2_def net_defs s0_def)
    moreover have "begins e (pn_log s2) = begins e (pn_log s)" "arrivals e (pn_log s2) = arrivals e (pn_log s)"
      "delivered e (pn_log s2) = delivered e (pn_log s)" for e
      using si by (simp_all add: s2_def net_defs s0_def silent_def)
    moreover have "sent_by d (acc @ (if ok then [(d, bs, proto)] else [])) = sent_by d acc @ (if ok then [(bs, proto)] else [])"
      by simp
    ultimately have "flow (acc @ (if ok then [(d, bs, proto)] else [])) [] d s2" using f b by (simp add: flow_def)
    then show ?thesis by (simp add: s2_def)
  qed
  then show ?thesis using q that by blast
qed

lemma link_invI:
  assumes "wired s" and "\<forall>x\<in>set acc. EtherToPpp (snd (snd x)) \<noteq> None" and "d < 2"
    and "flow acc [] d s" and "tx_ok d s" and "flow acc [] (other d) s" and "tx_ok (other d) s"
  shows "link_inv acc s"
  using assms two_devices [OF assms(3)] by (auto simp: link_inv_def)

lemma Client_ok:
  assumes L: "link_inv acc s" and d: "d < 2" and a: "EtherToPpp proto \<noteq> None"
    and l: "length acc + 1 < 2 ^ 32" "acc_bytes acc + length bs + 2 < 2 ^ 32"
  obtains x s' where "net_step (Client d bs proto) s = Some (x, s')" "x = [] \<or> x = [(d, bs, proto)]" "link_inv (acc @ x) s'"
proof -
  let ?p = "pn_next s" and ?bs = "frame (bs, proto)"
  define s0 where "s0 = s\<lparr>pn_store := (pn_store s)(?p := ?bs), pn_next := Suc ?p\<rparr>"
  have w: "wired s" and f: "flow acc [] d s" "flow acc [] (other d) s" and tx: "tx_ok d s" "tx_ok (other d) s"
    and as: "\<forall>x\<in>set acc. EtherToPpp (snd (snd x)) \<noteq> None"
    using L d by (simp_all add: link_inv_def)
  obtain ok tr q where E: "DropTail_Enqueue (packet_item ?p ?bs) (nd_queue (pn_dev s d)) = Some (ok, tr, q)"
    "q_packets q = (if ok then q_packets (nd_queue (pn_dev s d)) @ [packet_item ?p ?bs] else q_packets (nd_queue (pn_dev s d)))"
    and fl: "\<And>ts. silent ts \<Longrightarrow> flow (acc @ (if ok then [(d, bs, proto)] else [])) [] d (trace ts (upd_dev d (\<lambda>x. x\<lparr>nd_queue := q\<rparr>) s0))"
    by (rule offered_flow [OF f(1) a l, folded s0_def]) (rule that)
  let ?x = "if ok then [(d, bs, proto)] else []"
  obtain ppp where ppp: "EtherToPpp proto = Some ppp" using a by auto
  have h: "p2p_AddHeader ?p proto (s\<lparr>pn_store := (pn_store s)(?p := bs), pn_next := Suc ?p\<rparr>) = Some s0"
    using ppp by (simp add: p2p_AddHeader_def s0_def frame_def)
  have up: "nd_linkUp (pn_dev s d)" using f(1) by (simp add: flow_def)
  define ts where "ts = [MacTx d ?bs, QueueTrace d tr] @ (if ok then [] else [MacTxDrop d ?bs])"
  define s2 where "s2 = trace ts (upd_dev d (\<lambda>x. x\<lparr>nd_queue := q\<rparr>) s0)"
  have si: "silent ts" by (simp add: ts_def)
  have f2: "flow (acc @ ?x) [] d s2" unfolding s2_def by (rule fl [OF si])
  have w2: "wired s2" using w by (simp add: wired_def s2_def s0_def net_defs)
  have oth: "same_flow (other d) s s2" "same_tx (other d) s s2"
    using d si by (simp_all add: same_flow_def same_tx_def s2_def s0_def net_defs silent_def)
  have as2: "\<forall>x\<in>set (acc @ ?x). EtherToPpp (snd (snd x)) \<noteq> None" using as a by auto
  have so: "sent_by (other d) (acc @ ?x) = sent_by (other d) acc" using d by simp
  have fo: "flow (acc @ ?x) [] (other d) s2" and txo: "tx_ok (other d) s2"
    using same_flowD [OF oth(1) f(2) so] same_txD [OF oth(2) tx(2)] by simp_all
  have c: "free_at (pn_dev s2 d) = free_at (pn_dev s d)" by (simp add: free_at_def s2_def s0_def net_defs fun_eq_iff)
  have b2: "busy_tx d s \<Longrightarrow> busy_tx d s2" and i2: "idle_tx d s \<Longrightarrow> idle_tx d s2"
    unfolding busy_tx_def idle_tx_def c using si by (simp_all add: s2_def s0_def net_defs silent_def)
  have S: "device_Send d ?p proto (s\<lparr>pn_store := (pn_store s)(?p := bs), pn_next := Suc ?p\<rparr>) =
    (if ok \<and> nd_txMachineState (pn_dev s d) = READY then do {
       (item, tr2, q2) \<leftarrow> DropTail_Dequeue q;
       i \<leftarrow> item;
       device_TransmitStart d (it_uid i) (trace [QueueTrace d tr2, Sniffer d (pn_store s2 (it_uid i))]
         (upd_dev d (\<lambda>x. x\<lparr>nd_queue := q2\<rparr>) s2)) }
     else Some (ok, s2))"
    using up h E(1) by (cases ok; cases "nd_txMachineState (pn_dev s d) = READY")
      (simp_all add: device_Send_def s2_def s0_def net_defs ts_def Let_def split_def)
  show ?thesis
  proof (cases "ok \<and> nd_txMachineState (pn_dev s d) = READY")
    case False
    then have "net_step (Client d bs proto) s = Some (?x, s2)" using S [unfolded if_not_P [OF False]] by simp
    moreover have "tx_ok d s2"
      using tx(1) False b2 i2 E(2) by (auto simp: tx_ok_def busy_tx_def idle_tx_def s2_def net_defs)
    then have "link_inv (acc @ ?x) s2" using link_invI [OF w2 as2 d f2 _ fo txo] by simp
    ultimately show ?thesis by (intro that [of ?x s2]) simp_all
  next
    case True
    then have e: "q_packets (nd_queue (pn_dev s d)) = []" and i: "idle_tx d s" using tx(1) by (auto simp: tx_ok_def busy_tx_def)
    let ?i = "packet_item ?p ?bs"
    have q2: "nd_queue (pn_dev s2 d) = q" "q_packets (nd_queue (pn_dev s2 d)) = ?i # []"
      using E(2) True e by (simp_all add: s2_def net_defs)
    obtain q' where D: "DropTail_Dequeue (nd_queue (pn_dev s2 d)) = Some (Some ?i, [TraceDequeue ?i], q')"
      and fd: "\<And>ts m c. silent ts \<Longrightarrow> flow (acc @ ?x) [pn_store s2 (it_uid ?i)] d
       (trace ts (upd_dev d (\<lambda>x. x\<lparr>nd_txMachineState := m, nd_currentPkt := c, nd_queue := q'\<rparr>) s2))"
      by (rule dequeue_flow [OF f2 q2(2)]) (rule that)
    let ?ts = "[QueueTrace d [TraceDequeue ?i], Sniffer d (pn_store s2 (it_uid ?i))]"
    define s3 where "s3 = trace ?ts (upd_dev d (\<lambda>x. x\<lparr>nd_queue := q'\<rparr>) s2)"
    have r: "nd_txMachineState (pn_dev s2 d) = READY" "nd_currentPkt (pn_dev s2 d) = None"
      using i2 [OF i] by (simp_all add: idle_tx_def)
    have "(pn_dev s2 d)\<lparr>nd_txMachineState := READY, nd_currentPkt := None, nd_queue := q'\<rparr> = (pn_dev s2 d)\<lparr>nd_queue := q'\<rparr>"
      using r by (cases "pn_dev s2 d") simp
    then have f3: "flow (acc @ ?x) [pn_store s3 (it_uid ?i)] d s3"
      using fd [where ts = ?ts and m = READY and c = None] by (simp add: s3_def net_defs)
    have c3: "free_at (pn_dev s3 d) = free_at (pn_dev s2 d)" by (simp add: free_at_def s3_def net_defs fun_eq_iff)
    have si3: "silent ?ts" by simp
    have i3: "idle_tx d s3" unfolding idle_tx_def c3 using i2 [OF i] si3 by (simp add: s3_def net_defs silent_def idle_tx_def)
    have w3: "wired s3" using w2 by (simp add: wired_def s3_def net_defs)
    obtain s' where s': "device_TransmitStart d (it_uid ?i) s3 = Some (True, s')" "wired s'" "flow (acc @ ?x) [] d s'" "busy_tx d s'"
      "same_flow (other d) s3 s'" "same_tx (other d) s3 s'"
      using TransmitStart_ok [OF w3 d f3 i3] by metis
    have o3: "same_flow (other d) s2 s3" "same_tx (other d) s2 s3"
      using d si3 by (simp_all add: same_flow_def same_tx_def s3_def net_defs silent_def)
    have "flow (acc @ ?x) [] (other d) s'" "tx_ok (other d) s'"
      using same_flowD [OF same_flow_trans [OF o3(1) s'(5)] fo refl] same_txD [OF same_tx_trans [OF o3(2) s'(6)] txo] by simp_all
    moreover have "tx_ok d s'" using s'(4) by (simp add: tx_ok_def)
    ultimately have "link_inv (acc @ ?x) s'" using link_invI [OF s'(2) as2 d s'(3)] by simp
    moreover have "net_step (Client d bs proto) s = Some (?x, s')" using S [unfolded if_P [OF True]] True D q2(1) s'(1) by (simp add: s3_def)
    ultimately show ?thesis by (intro that [of ?x s']) simp_all
  qed
qed

section \<open>Runs\<close>

lemma link_invD:
  assumes "link_inv acc s" and "d < 2"
  shows "wired s" "flow acc [] d s" "tx_ok d s"
  using assms by (simp_all add: link_inv_def)

lemma quiet_link:
  assumes L: "link_inv acc s" and e: "pn_events s = []"
  shows "d < 2 \<Longrightarrow> idle_tx d s \<and> q_packets (nd_queue (pn_dev s d)) = []" "work s = 0"
proof -
  show q: "d < 2 \<Longrightarrow> idle_tx d s \<and> q_packets (nd_queue (pn_dev s d)) = []" for d
    using link_invD(3) [OF L, of d] e by (auto simp: tx_ok_def busy_tx_def)
  show "work s = 0" using q [of 0] q [of 1] e by (simp add: work_def)
qed

lemma Fire_ok:
  assumes L: "link_inv acc s"
  obtains s' where "net_step Fire s = Some ([], s')" "link_inv acc s'" "work s' = work s - 1"
proof (cases "pn_events s")
  case Nil
  then show ?thesis using L quiet_link(2) [OF L Nil] by (intro that [of s]) (simp_all add: fire_next_def)
next
  case (Cons e es)
  obtain t ev where e: "e = (t, ev)" by (cases e)
  note C = Cons [unfolded e]
  let ?s1 = "s\<lparr>pn_now := t, pn_events := es\<rparr>"
  have w: "wired s" using L by (simp add: link_inv_def)
  show ?thesis
  proof (cases ev)
    case (ReceiveEv r bs)
    obtain s' where "device_Receive r bs ?s1 = Some s'" "link_inv acc s'" "Suc (work s') = work s"
      by (rule Receive_ok [OF L C [unfolded ReceiveEv]]) (rule that)
    then show ?thesis using C ReceiveEv by (intro that [of s']) (simp_all add: fire_next_def)
  next
    case (TransmitCompleteEv d)
    have d: "d < 2" using w C TransmitCompleteEv by (auto simp: wired_def)
    have w1: "wired ?s1" "pn_now s \<le> t" using wired_pop [OF w C] by simp_all
    have ev: "wire k (pn_events s) = wire k es" "completes k (pn_events s) = (if k = d then [t] else []) @ completes k es" for k
      using C TransmitCompleteEv by (simp_all add: observe_Cons(4,5) [of _ _ es])
    have sf: "same_flow k s ?s1" for k using ev by (simp add: same_flow_def)
    have so: "same_tx (other d) s ?s1" using ev w1(2) d by (simp add: same_tx_def)
    have b: "nd_txMachineState (pn_dev ?s1 d) = BUSY" "nd_currentPkt (pn_dev ?s1 d) \<noteq> None" "completes d (pn_events ?s1) = []"
      "\<forall>x\<in>set (begins d (pn_log ?s1)). free_at (pn_dev ?s1 d) x \<le> pn_now ?s1"
      using link_invD(3) [OF L d] ev(2) [of d] by (auto simp: tx_ok_def idle_tx_def busy_tx_def)
    obtain s' where s': "device_TransmitComplete d ?s1 = Some s'" "wired s'" "flow acc [] d s'" "tx_ok d s'"
      "same_flow (other d) ?s1 s'" "same_tx (other d) ?s1 s'" "work s' = work ?s1"
      by (rule TransmitComplete_ok [OF w1(1) d same_flowD [OF sf link_invD(2) [OF L d] refl] b]) (rule that)
    have "flow acc [] (other d) s'" "tx_ok (other d) s'"
      using same_flowD [OF same_flow_trans [OF sf s'(5)] link_invD(2) [OF L] refl]
        same_txD [OF same_tx_trans [OF so s'(6)] link_invD(3) [OF L]] by simp_all
    then have "link_inv acc s'" using link_invI [OF s'(2) _ d s'(3,4)] L by (simp add: link_inv_def)
    moreover have "work ?s1 = work s - 1" using C by (simp add: work_def)
    ultimately show ?thesis using C TransmitCompleteEv s'(1,7) by (intro that [of s']) (simp_all add: fire_next_def)
  qed
qed

lemma Idle_ok:
  assumes L: "link_inv acc s"
  obtains s' where "net_step (Idle k) s = Some ([], s')" "link_inv acc s'"
proof -
  let ?t = "case pn_events s of [] \<Rightarrow> pn_now s + k | (t, _) # _ \<Rightarrow> min t (pn_now s + k)"
  let ?s = "s\<lparr>pn_now := ?t\<rparr>"
  have w: "wired s" using L by (simp add: link_inv_def)
  have t: "pn_now s \<le> ?t" "\<forall>x\<in>set (pn_events s). ?t \<le> fst x"
    using w by (cases "pn_events s"; fastforce simp: wired_def min_le_iff_disj)+
  have W: "wired ?s" using w t(2) unfolding wired_def by simp
  have "flow acc [] d ?s \<and> tx_ok d ?s" if "d < 2" for d
    using same_flowD [of d s ?s acc "[]" acc] same_txD [of d s ?s] link_invD(2,3) [OF L that] t(1)
    by (simp add: same_flow_def same_tx_def)
  then have "link_inv acc ?s" using W L by (simp add: link_inv_def)
  then show ?thesis using that by simp
qed

fun act_ok :: "p2p_action \<Rightarrow> bool" where
  "act_ok (Client d bs proto) \<longleftrightarrow> d < 2 \<and> (proto = 0x0800 \<or> proto = 0x86DD)"
| "act_ok Fire \<longleftrightarrow> True"
| "act_ok (Idle k) \<longleftrightarrow> True"

fun act_bytes :: "p2p_action \<Rightarrow> nat" where
  "act_bytes (Client d bs proto) = length bs + 2"
| "act_bytes Fire = 0"
| "act_bytes (Idle k) = 0"

text \<open>The 32-bit counters of the queues do not wrap.\<close>

definition acts_ok :: "p2p_action list \<Rightarrow> bool" where
  "acts_ok acts \<longleftrightarrow> (\<forall>a\<in>set acts. act_ok a) \<and> length acts < 2 ^ 32 \<and> sum_list (map act_bytes acts) < 2 ^ 32"

lemma step_ok:
  assumes L: "link_inv acc s" and a: "act_ok a" and l: "length acc + 1 < 2 ^ 32" "acc_bytes acc + act_bytes a < 2 ^ 32"
  obtains x s' where "net_step a s = Some (x, s')" "link_inv (acc @ x) s'" "length x \<le> 1" "acc_bytes x \<le> act_bytes a"
proof (cases a)
  case (Client d bs proto)
  then obtain x s' where s': "net_step a s = Some (x, s')" "x = [] \<or> x = [(d, bs, proto)]" "link_inv (acc @ x) s'"
    using a l by (auto simp: EtherToPpp_def intro: Client_ok [OF L, of d proto bs])
  show ?thesis by (rule that [OF s'(1,3)]) (use s'(2) Client in \<open>auto simp: acc_bytes_def\<close>)
next
  case Fire
  obtain s' where "net_step Fire s = Some ([], s')" "link_inv acc s'" by (rule Fire_ok [OF L]) (rule that)
  then show ?thesis using Fire by (intro that [of "[]" s']) (simp_all add: acc_bytes_def)
next
  case (Idle k)
  obtain s' where "net_step (Idle k) s = Some ([], s')" "link_inv acc s'" by (rule Idle_ok [OF L]) (rule that)
  then show ?thesis using Idle by (intro that [of "[]" s']) (simp_all add: acc_bytes_def)
qed

lemma link_run_ok:
  assumes "link_inv acc s" and "\<forall>a\<in>set acts. act_ok a"
    and "length acc + length acts < 2 ^ 32" and "acc_bytes acc + sum_list (map act_bytes acts) < 2 ^ 32"
  shows "\<exists>x s'. net_run acts s = Some (x, s') \<and> link_inv (acc @ x) s'"
  using assms
proof (induction acts arbitrary: acc s)
  case (Cons a acts)
  obtain x s1 where s1: "net_step a s = Some (x, s1)" "link_inv (acc @ x) s1" "length x \<le> 1" "acc_bytes x \<le> act_bytes a"
    by (rule step_ok [OF Cons.prems(1), of a]) (use Cons.prems that in simp_all)
  have "acc_bytes (acc @ x) = acc_bytes acc + acc_bytes x" by (simp add: acc_bytes_def)
  then have "\<exists>y s'. net_run acts s1 = Some (y, s') \<and> link_inv ((acc @ x) @ y) s'"
    using s1(3,4) Cons.prems by (intro Cons.IH [OF s1(2)]) simp_all
  then show ?case using s1(1) by auto
qed simp

lemma drain_ok:
  assumes "link_inv acc s"
  shows "\<exists>s'. net_run (replicate (work s) Fire) s = Some ([], s') \<and> link_inv acc s' \<and> work s' = 0"
  using assms
proof (induction "work s" arbitrary: s)
  case 0
  then show ?case by auto
next
  case (Suc n)
  obtain s1 where s1: "net_step Fire s = Some ([], s1)" "link_inv acc s1" "work s1 = work s - 1"
    by (rule Fire_ok [OF Suc.prems]) (rule that)
  then have "n = work s1" using Suc.hyps(2) by simp
  from Suc.hyps(1) [OF this s1(2)] obtain s' where s': "net_run (replicate (work s1) Fire) s1 = Some ([], s')" "link_inv acc s'"
    "work s' = 0" by blast
  have "work s = Suc (work s1)" using s1(3) Suc.hyps(2) by simp
  then show ?case using s1(1) s' by simp
qed

section \<open>Two connected devices\<close>

definition fresh_device :: "p2p_device \<Rightarrow> bool" where
  "fresh_device x \<longleftrightarrow> nd_txMachineState x = READY \<and> nd_currentPkt x = None \<and> (\<exists>m. nd_queue x = QueueBase m) \<and> nd_errorCalls x = 0"

definition cable :: "nat \<Rightarrow> (nat \<Rightarrow> p2p_device) \<Rightarrow> p2p_net" where
  "cable delay dev = \<lparr>pn_now = 0, pn_events = [], pn_store = (\<lambda>_. []), pn_next = 0, pn_dev = dev,
     pn_channel = PointToPointChannel delay, pn_log = []\<rparr>"

definition connect :: "p2p_net \<Rightarrow> p2p_net option" where
  "connect s = do { s1 \<leftarrow> device_Attach 0 s; device_Attach 1 s1 }"

lemma connect_ok:
  assumes "fresh_device (dev 0)" and "fresh_device (dev 1)"
  obtains s where "connect (cable delay dev) = Some s" "link_inv [] s" "pc_delay (pn_channel s) = delay"
    "\<And>d. nd_bps (pn_dev s d) = nd_bps (dev d)" "\<And>d. nd_tInterframeGap (pn_dev s d) = nd_tInterframeGap (dev d)"
    "\<And>d. nd_receiveErrorModel (pn_dev s d) = nd_receiveErrorModel (dev d)"
proof -
  define s where "s = \<lparr>pn_now = 0, pn_events = [], pn_store = (\<lambda>_. []), pn_next = 0,
     pn_dev = dev(0 := (dev 0)\<lparr>nd_linkUp := True\<rparr>, 1 := (dev 1)\<lparr>nd_linkUp := True\<rparr>),
     pn_channel = \<lparr>pc_delay = delay, pc_nDevices = 2, pc_link = [\<lparr>lk_state = IDLE, lk_src = Some 0, lk_dst = Some 1\<rparr>,
       \<lparr>lk_state = IDLE, lk_src = Some 1, lk_dst = Some 0\<rparr>]\<rparr>, pn_log = [LinkChange 0, LinkChange 1]\<rparr>"
  have "connect (cable delay dev) = Some s"
    by (simp add: connect_def cable_def device_Attach_def channel_Attach_def PointToPointChannel_def Link_def NotifyLinkUp_def
        net_defs s_def Let_def fun_upd_twist)
  moreover have o: "begins d (pn_log s) = []" "arrivals d (pn_log s) = []" "delivered d (pn_log s) = []" for d
    by (simp_all add: s_def observe_Cons(1,2,3) [of d "LinkChange 0"])
  have q: "q_packets (QueueBase m) = []" for m by (simp add: QueueBase_def)
  have "flow [] [] d s \<and> tx_ok d s" if "d < 2" for d
  proof -
    have "d = 0 \<or> d = 1" using that by auto
    then show ?thesis
      unfolding flow_def tx_ok_def idle_tx_def o using assms
      by (auto simp: s_def fresh_device_def queue_ok_def queued_def Let_def QueueBase_inv q survivors_def split: option.split)
  qed
  then have "link_inv [] s" by (simp add: link_inv_def) (simp add: wired_def s_def)
  ultimately show ?thesis by (rule that) (simp_all add: s_def)
qed

text \<open>Running the link does not change its configuration.\<close>

definition config :: "p2p_net \<Rightarrow> (nat \<Rightarrow> (nat \<Rightarrow> nat) \<times> nat \<times> error_model option) \<times> nat" where
  "config s = (\<lambda>d. (nd_bps (pn_dev s d), nd_tInterframeGap (pn_dev s d), nd_receiveErrorModel (pn_dev s d)), pc_delay (pn_channel s))"

lemma config_simps [simp]:
  "config (trace ts s) = config s" "config (net_Schedule t ev s) = config s"
  "config (s\<lparr>pn_store := st, pn_next := n\<rparr>) = config s" "config (s\<lparr>pn_now := t\<rparr>) = config s"
  "config (s\<lparr>pn_now := t, pn_events := es\<rparr>) = config s" "config (s\<lparr>pn_store := st\<rparr>) = config s"
  "config (upd_dev d (\<lambda>x. x\<lparr>nd_queue := q\<rparr>) s) = config s" "config (upd_dev d (\<lambda>x. x\<lparr>nd_errorCalls := k x\<rparr>) s) = config s"
  "config (upd_dev d (\<lambda>x. x\<lparr>nd_txMachineState := m, nd_currentPkt := c\<rparr>) s) = config s"
  by (simp_all add: config_def net_defs fun_eq_iff)

lemma TransmitStart_config: "device_TransmitStart d p s = Some (r, s') \<Longrightarrow> config s' = config s"
  by (auto simp: device_TransmitStart_def channel_TransmitStart_def Let_def split: if_splits bind_splits)

lemma TransmitComplete_config: "device_TransmitComplete d s = Some s' \<Longrightarrow> config s' = config s"
  by (auto simp: device_TransmitComplete_def Let_def dest!: TransmitStart_config split: if_splits bind_splits option.splits)

lemma Receive_config: "device_Receive d bs s = Some s' \<Longrightarrow> config s' = config s"
  by (auto simp: device_Receive_def Let_def split: if_splits bind_splits option.splits)

lemma AddHeader_config: "p2p_AddHeader p proto s = Some s' \<Longrightarrow> config s' = config s"
  by (auto simp: p2p_AddHeader_def split: bind_splits)

lemma Send_config: "device_Send d p proto s = Some (r, s') \<Longrightarrow> config s' = config s"
  by (auto simp: device_Send_def Let_def dest!: TransmitStart_config AddHeader_config split: if_splits bind_splits)

lemma step_config: "net_step a s = Some (x, s') \<Longrightarrow> config s' = config s"
  by (cases a) (auto simp: fire_next_def Let_def dest!: Send_config TransmitComplete_config Receive_config
      split: bind_splits list.splits p2p_event.splits)

lemma run_config: "net_run as s = Some (x, s') \<Longrightarrow> config s' = config s"
  by (induction as arbitrary: s x) (auto dest!: step_config split: bind_splits)

lemma link_run:
  assumes f: "fresh_device (dev 0)" "fresh_device (dev 1)" and a: "acts_ok acts"
  obtains s0 acc s where "connect (cable delay dev) = Some s0" "net_run acts s0 = Some (acc, s)" "link_inv acc s"
    "config s = (\<lambda>d. (nd_bps (dev d), nd_tInterframeGap (dev d), nd_receiveErrorModel (dev d)), delay)"
proof -
  obtain s0 where s0: "connect (cable delay dev) = Some s0" "link_inv [] s0" "pc_delay (pn_channel s0) = delay"
    "\<And>d. nd_bps (pn_dev s0 d) = nd_bps (dev d)" "\<And>d. nd_tInterframeGap (pn_dev s0 d) = nd_tInterframeGap (dev d)"
    "\<And>d. nd_receiveErrorModel (pn_dev s0 d) = nd_receiveErrorModel (dev d)"
    by (rule connect_ok [OF f]) (rule that)
  have "acc_bytes [] = 0" by (simp add: acc_bytes_def)
  then obtain acc s where s: "net_run acts s0 = Some (acc, s)" "link_inv acc s"
    using link_run_ok [OF s0(2), of acts] a by (auto simp: acts_ok_def)
  have "config s0 = (\<lambda>d. (nd_bps (dev d), nd_tInterframeGap (dev d), nd_receiveErrorModel (dev d)), delay)"
    using s0 by (simp add: config_def)
  then show ?thesis using s0(1) s run_config [OF s(1)] by (intro that [of s0 acc s]) simp_all
qed

lemma configD:
  assumes "config s = (\<lambda>d. (nd_bps (dev d), nd_tInterframeGap (dev d), nd_receiveErrorModel (dev d)), delay)"
  shows "nd_receiveErrorModel (pn_dev s d) = nd_receiveErrorModel (dev d)" "free_at (pn_dev s d) = free_at (dev d)"
    "arrives_at (pn_dev s d) (pc_delay (pn_channel s)) = arrives_at (dev d) delay"
  using assms by (auto simp: config_def fun_eq_iff free_at_def arrives_at_def)

text \<open>An example: two devices with queues for two packets; the receiver of device 1 rejects its second packet.\<close>

definition demo_dev :: "nat \<Rightarrow> p2p_device" where
  "demo_dev d = (PointToPointNetDevice (QueueBase \<lparr>qs_unit = PACKETS, qs_value = 2\<rparr>) (\<lambda>n. 8 * n) 1)
     \<lparr>nd_receiveErrorModel := (if d = 1 then Some (\<lambda>n bs. n = 1) else None)\<rparr>"

definition demo_acts :: "p2p_action list" where
  "demo_acts = [Client 0 [1, 2] 0x0800, Client 0 [3] 0x86DD, Client 1 [4] 0x0800, Client 0 [5] 0x0800, Client 0 [6] 0x0800,
     Idle 7, Fire, Fire, Fire, Fire]"

definition demo_run :: "(sending list \<times> p2p_net) option" where
  "demo_run = do { s0 \<leftarrow> connect (cable 20 demo_dev); net_run demo_acts s0 }"

lemma demo_run_result:
  "map_option (\<lambda>(acc, s). (acc, delivered 1 (pn_log s), delivered 0 (pn_log s), work s)) demo_run =
     Some ([(0, [1, 2], 0x0800), (0, [3], 0x86DD), (1, [4], 0x0800), (0, [5], 0x0800)], [([1, 2], 0x0800)], [([4], 0x0800)], 4)"
  by code_simp

lemma demo_fresh: "fresh_device (demo_dev d)"
  by (auto simp: fresh_device_def demo_dev_def PointToPointNetDevice_def)

lemma demo_acts_ok: "acts_ok demo_acts"
  by (simp add: acts_ok_def demo_acts_def)

lemma demo_run_parts:
  obtains s0 s where "connect (cable 20 demo_dev) = Some s0"
    "net_run demo_acts s0 = Some ([(0, [1, 2], 0x0800), (0, [3], 0x86DD), (1, [4], 0x0800), (0, [5], 0x0800)], s)" "work s = 4"
    "demo_run = Some ([(0, [1, 2], 0x0800), (0, [3], 0x86DD), (1, [4], 0x0800), (0, [5], 0x0800)], s)"
proof -
  obtain x s where r: "demo_run = Some (x, s)" using demo_run_result by (cases demo_run) auto
  have x: "x = [(0, [1, 2], 0x0800), (0, [3], 0x86DD), (1, [4], 0x0800), (0, [5], 0x0800)]" "work s = 4"
    using demo_run_result unfolding r by simp_all
  obtain s0 where "connect (cable 20 demo_dev) = Some s0" "net_run demo_acts s0 = Some (x, s)"
    using r by (auto simp: demo_run_def split: bind_splits)
  then show ?thesis using that x r by simp
qed

text \<open>C24: Whatever is sent in either direction and however the events interleave, no assertion of the devices,
  the channel or the queues fails, and what a device has delivered to its receive callback is the beginning of what the other
  device accepted for sending, in the same order, with the same bytes and protocol, less the packets the
  receiver's error model rejects.\<close>

theorem link_delivers_in_order:
  assumes "fresh_device (dev 0)" and "fresh_device (dev 1)" and "acts_ok acts"
  shows "\<exists>s0 acc s. connect (cable delay dev) = Some s0 \<and> net_run acts s0 = Some (acc, s) \<and>
    (\<forall>d<2. \<exists>k. delivered (other d) (pn_log s) = survivors (nd_receiveErrorModel (dev (other d))) (take k (sent_by d acc)))"
proof -
  obtain s0 acc s where s: "connect (cable delay dev) = Some s0" "net_run acts s0 = Some (acc, s)" "link_inv acc s"
    "config s = (\<lambda>d. (nd_bps (dev d), nd_tInterframeGap (dev d), nd_receiveErrorModel (dev d)), delay)"
    by (rule link_run [OF assms]) (rule that)
  have "\<exists>k. delivered (other d) (pn_log s) = survivors (nd_receiveErrorModel (dev (other d))) (take k (sent_by d acc))" if "d < 2" for d
    using link_invD(2) [OF s(3) that] configD(1) [OF s(4)] by (auto simp: flow_def)
  then show ?thesis using s(1,2) by blast
qed

theorem link_delivers_in_order_witness:
  "\<exists>acc s. demo_run = Some (acc, s) \<and>
    (\<forall>d<2. \<exists>k. delivered (other d) (pn_log s) = survivors (nd_receiveErrorModel (demo_dev (other d))) (take k (sent_by d acc)))"
  using link_delivers_in_order [where dev = demo_dev and delay = 20, OF demo_fresh demo_fresh demo_acts_ok]
  by (auto simp: demo_run_def)

text \<open>C25: From every state a connected link reaches, running the pending events empties the link after a number of events known in
  advance (one per pending event and two per queued packet): then nothing is pending, both queues are empty, both
  transmitters are ready, and every accepted packet has been delivered unless the error model rejected it.\<close>

theorem link_drains:
  assumes "fresh_device (dev 0)" and "fresh_device (dev 1)" and "acts_ok acts"
    and "connect (cable delay dev) = Some s0" and "net_run acts s0 = Some (acc, s)"
  shows "\<exists>s'. net_run (replicate (work s) Fire) s = Some ([], s') \<and> pn_events s' = [] \<and>
    (\<forall>d<2. nd_txMachineState (pn_dev s' d) = READY \<and> q_packets (nd_queue (pn_dev s' d)) = [] \<and>
       delivered (other d) (pn_log s') = survivors (nd_receiveErrorModel (dev (other d))) (sent_by d acc))"
proof -
  have s: "link_inv acc s" "config s = (\<lambda>d. (nd_bps (dev d), nd_tInterframeGap (dev d), nd_receiveErrorModel (dev d)), delay)"
    by (rule link_run [OF assms(1-3), where delay = delay], use assms(4,5) in simp)+
  obtain s' where s': "net_run (replicate (work s) Fire) s = Some ([], s')" "link_inv acc s'" "work s' = 0"
    using drain_ok [OF s(1)] by blast
  have e: "pn_events s' = []" using s'(3) by (simp add: work_def)
  have "nd_txMachineState (pn_dev s' d) = READY \<and> q_packets (nd_queue (pn_dev s' d)) = [] \<and>
       delivered (other d) (pn_log s') = survivors (nd_receiveErrorModel (dev (other d))) (sent_by d acc)" if d: "d < 2" for d
  proof -
    have q: "nd_txMachineState (pn_dev s' d) = READY" "q_packets (nd_queue (pn_dev s' d)) = []"
      using quiet_link(1) [OF s'(2) e d] by (simp_all add: idle_tx_def)
    note f = link_invD(2) [OF s'(2) d, unfolded flow_def]
    have "map frame (sent_by d acc) = map snd (begins d (pn_log s'))" using f q(2) by (simp add: queued_def)
    then have "length (sent_by d acc) = length (begins d (pn_log s'))" by (metis length_map)
    moreover have "map (arrives_at (pn_dev s' d) (pc_delay (pn_channel s'))) (begins d (pn_log s')) = arrivals (other d) (pn_log s')"
      using f e by simp
    then have "length (begins d (pn_log s')) = length (arrivals (other d) (pn_log s'))" by (metis length_map)
    ultimately show ?thesis using f q configD(1) [OF run_config [OF s'(1), unfolded s(2)]] by simp
  qed
  then show ?thesis using s'(1) e by blast
qed

theorem link_drains_witness:
  "\<exists>acc s s'. demo_run = Some (acc, s) \<and> net_run (replicate 4 Fire) s = Some ([], s') \<and> pn_events s' = [] \<and>
     delivered 1 (pn_log s') = [([1, 2], 0x0800), ([5], 0x0800)] \<and> delivered 0 (pn_log s') = [([4], 0x0800)]"
proof -
  obtain s0 s where s: "connect (cable 20 demo_dev) = Some s0"
    "net_run demo_acts s0 = Some ([(0, [1, 2], 0x0800), (0, [3], 0x86DD), (1, [4], 0x0800), (0, [5], 0x0800)], s)" "work s = 4"
    "demo_run = Some ([(0, [1, 2], 0x0800), (0, [3], 0x86DD), (1, [4], 0x0800), (0, [5], 0x0800)], s)"
    by (rule demo_run_parts) (rule that)
  obtain s' where s': "net_run (replicate 4 Fire) s = Some ([], s')" "pn_events s' = []"
    "\<forall>d<2. nd_txMachineState (pn_dev s' d) = READY \<and> q_packets (nd_queue (pn_dev s' d)) = [] \<and>
       delivered (other d) (pn_log s') = survivors (nd_receiveErrorModel (demo_dev (other d)))
         (sent_by d [(0, [1, 2], 0x0800), (0, [3], 0x86DD), (1, [4], 0x0800), (0, [5], 0x0800)])"
    using link_drains [OF demo_fresh demo_fresh demo_acts_ok s(1,2)] s(3) by auto
  have "delivered 1 (pn_log s') = [([1, 2], 0x0800), ([5], 0x0800)]" "delivered 0 (pn_log s') = [([4], 0x0800)]"
    using s'(3) [rule_format, of 0] s'(3) [rule_format, of 1]
    by (simp_all add: survivors_def sent_by_def demo_dev_def PointToPointNetDevice_def)
  then show ?thesis using s(4) s'(1,2) by blast
qed

text \<open>C26: Timing of the medium: a device never begins a transmission before the previous one and the interframe gap have passed, and
  every packet arrives exactly its transmission time plus the propagation delay after its transmission began:
  what has arrived followed by what is on the wire are the transmissions, in order, at these times.\<close>

theorem link_timing:
  assumes "fresh_device (dev 0)" and "fresh_device (dev 1)" and "acts_ok acts"
    and "connect (cable delay dev) = Some s0" and "net_run acts s0 = Some (acc, s)" and "d < 2"
  shows "sorted_wrt (\<lambda>x y. fst x + nd_bps (dev d) (length (snd x)) + nd_tInterframeGap (dev d) \<le> fst y) (begins d (pn_log s)) \<and>
    map (\<lambda>(t, bs). (t + nd_bps (dev d) (length bs) + delay, bs)) (begins d (pn_log s)) =
      arrivals (other d) (pn_log s) @ wire (other d) (pn_events s)"
proof -
  have s: "link_inv acc s" "config s = (\<lambda>d. (nd_bps (dev d), nd_tInterframeGap (dev d), nd_receiveErrorModel (dev d)), delay)"
    by (rule link_run [OF assms(1-3), where delay = delay], use assms(4,5) in simp)+
  show ?thesis
    using link_invD(2) [OF s(1) assms(6), unfolded flow_def configD(2,3) [OF s(2)]]
    by (simp add: free_at_def arrives_at_def split_def)
qed

theorem link_timing_witness:
  "\<exists>acc s. demo_run = Some (acc, s) \<and>
    map (\<lambda>(t, bs). (t + 8 * length bs + 20, bs)) (begins 0 (pn_log s)) = arrivals 1 (pn_log s) @ wire 1 (pn_events s)"
proof -
  obtain s0 s where s: "connect (cable 20 demo_dev) = Some s0"
    "net_run demo_acts s0 = Some ([(0, [1, 2], 0x0800), (0, [3], 0x86DD), (1, [4], 0x0800), (0, [5], 0x0800)], s)" "work s = 4"
    "demo_run = Some ([(0, [1, 2], 0x0800), (0, [3], 0x86DD), (1, [4], 0x0800), (0, [5], 0x0800)], s)"
    by (rule demo_run_parts) (rule that)
  have "nd_bps (demo_dev 0) = (\<lambda>n. 8 * n)" by (simp add: demo_dev_def PointToPointNetDevice_def)
  then have "map (\<lambda>(t, bs). (t + 8 * length bs + 20, bs)) (begins 0 (pn_log s)) = arrivals 1 (pn_log s) @ wire 1 (pn_events s)"
    using link_timing [OF demo_fresh demo_fresh demo_acts_ok s(1,2), of 0] by simp
  then show ?thesis using s(4) by blast
qed

end
