(* ===== verification/Sequence_Numbers.thy ===== *)
theory Sequence_Numbers
  imports Sim_Prelude
begin

text \<open>
  Sequence numbers that wrap around (\<^verbatim>\<open>src/network/utils/sequence-number.h\<close>, for the 32-bit numbers of TCP): the comparisons
  and the difference, and that they order the numbers of any window of less than half the range as their positions.
\<close>

definition halfMaxValue :: u32 where
  "halfMaxValue = - 1 div 2"

definition seq_greater :: "u32 \<Rightarrow> u32 \<Rightarrow> bool" where
  "seq_greater x y \<longleftrightarrow> (x > y \<and> x - y \<le> halfMaxValue) \<or> (y > x \<and> y - x > halfMaxValue)"

definition seq_le :: "u32 \<Rightarrow> u32 \<Rightarrow> bool" where
  "seq_le x y \<longleftrightarrow> \<not> seq_greater x y"

definition seq_ge :: "u32 \<Rightarrow> u32 \<Rightarrow> bool" where
  "seq_ge x y \<longleftrightarrow> seq_greater x y \<or> x = y"

definition seq_less :: "u32 \<Rightarrow> u32 \<Rightarrow> bool" where
  "seq_less x y \<longleftrightarrow> \<not> seq_greater x y \<and> x \<noteq> y"

text \<open>The difference, as the bits of the signed result.\<close>

definition seq_minus :: "u32 \<Rightarrow> u32 \<Rightarrow> u32" where
  "seq_minus x y =
     (if x > y then let diff = x - y in if diff < halfMaxValue then diff else - (- 1 - x + 1 + y)
      else let diff = y - x in if diff < halfMaxValue then - diff else - 1 - y + 1 + x)"

lemma seq_minus_eq: "seq_minus x y = x - y"
  by (simp add: seq_minus_def Let_def)

lemma unat_halfMaxValue: "unat halfMaxValue = 2 ^ 31 - 1"
  by (simp add: halfMaxValue_def unat_div unat_minus_one_word)

text \<open>A number is greater than another one when it is less than half the range ahead of it; the two numbers half the range apart
  are ordered by their values.\<close>

lemma seq_greater_iff:
  "seq_greater x y \<longleftrightarrow> x \<noteq> y \<and> (unat (x - y) < 2 ^ 31 \<or> unat (x - y) = 2 ^ 31 \<and> x < y)"
proof -
  have u: "unat x < 2 ^ 32" "unat y < 2 ^ 32" using unsigned_less [of x, where 'a = nat] unsigned_less [of y, where 'a = nat] by simp_all
  show ?thesis
  proof (cases "x > y")
    case True
    then have "unat (x - y) = unat x - unat y" "unat y < unat x" by (simp_all add: unat_sub word_less_nat_alt order_less_imp_le)
    then show ?thesis using True by (auto simp: seq_greater_def word_le_nat_alt unat_halfMaxValue)
  next
    case False
    show ?thesis
    proof (cases "x = y")
      case False
      with \<open>\<not> x > y\<close> have l: "x < y" by simp
      then have "unat (y - x) = unat y - unat x" "unat x < unat y" by (simp_all add: unat_sub word_less_nat_alt order_less_imp_le)
      moreover have "unat (x - y) = 2 ^ 32 + unat x - unat y" using calculation(2) by (simp add: unat_sub_if')
      ultimately show ?thesis using l u by (auto simp: seq_greater_def word_less_nat_alt unat_halfMaxValue)
    qed (simp add: seq_greater_def)
  qed
qed

lemma seq_trichotomy: "seq_less x y \<or> x = y \<or> seq_greater x y" "seq_less x y \<Longrightarrow> \<not> seq_greater x y"
  by (auto simp: seq_less_def)

lemma seq_converse: "seq_greater x y \<longleftrightarrow> seq_less y x"
  by (cases x y rule: linorder_cases) (auto simp: seq_greater_def seq_less_def)

section \<open>Positions\<close>

text \<open>The number of a position in a stream that starts at some number. Positions less than half the range apart are ordered by their
  numbers.\<close>

definition near :: "nat \<Rightarrow> nat \<Rightarrow> bool" where
  "near a b \<longleftrightarrow> a < b + 2 ^ 31 \<and> b < a + 2 ^ 31"

lemma unat_difference:
  assumes "near a b"
  shows "unat (s + of_nat a - (s + of_nat b) :: u32) = (if b \<le> a then a - b else 2 ^ 32 - (b - a))"
proof (cases "b \<le> a")
  case True
  then have "s + of_nat a - (s + of_nat b) = (of_nat (a - b) :: u32)" by (simp add: of_nat_diff)
  then show ?thesis using True assms by (simp only: unsigned_of_nat) (simp add: near_def take_bit_nat_eq_self)
next
  case False
  then have "s + of_nat a - (s + of_nat b) = 0 - (of_nat (b - a) :: u32)" by (simp add: of_nat_diff)
  moreover have "unat (of_nat (b - a) :: u32) = b - a"
    using False assms by (simp only: unsigned_of_nat) (simp add: near_def take_bit_nat_eq_self)
  ultimately show ?thesis using False
    by (simp only: unat_sub_if') simp
qed

lemma seq_positions:
  assumes "near a b"
  shows "seq_greater (s + of_nat a) (s + of_nat b) \<longleftrightarrow> b < a" "s + of_nat a = s + (of_nat b :: u32) \<longleftrightarrow> a = b"
    "seq_le (s + of_nat a) (s + of_nat b) \<longleftrightarrow> a \<le> b" "seq_ge (s + of_nat a) (s + of_nat b) \<longleftrightarrow> b \<le> a"
    "seq_less (s + of_nat a) (s + of_nat b) \<longleftrightarrow> a < b"
proof -
  have e: "s + of_nat a = s + (of_nat b :: u32) \<longleftrightarrow> unat (s + of_nat a - (s + of_nat b)) = 0" by (simp add: unsigned_eq_0_iff)
  also have "\<dots> \<longleftrightarrow> a = b" using assms unfolding unat_difference [OF assms] near_def by auto
  finally show eq: "s + of_nat a = s + (of_nat b :: u32) \<longleftrightarrow> a = b" .
  show g: "seq_greater (s + of_nat a) (s + of_nat b) \<longleftrightarrow> b < a"
    using assms unfolding seq_greater_iff eq unat_difference [OF assms] near_def by auto
  show "seq_le (s + of_nat a) (s + of_nat b) \<longleftrightarrow> a \<le> b" "seq_ge (s + of_nat a) (s + of_nat b) \<longleftrightarrow> b \<le> a"
    "seq_less (s + of_nat a) (s + of_nat b) \<longleftrightarrow> a < b"
    unfolding seq_le_def seq_ge_def seq_less_def g eq by auto
qed

lemma seq_minus_positions: "b \<le> a \<Longrightarrow> seq_minus (s + of_nat a) (s + of_nat b) = of_nat (a - b)"
  by (simp add: seq_minus_eq of_nat_diff)

end
