(* ===== verification/Packet_Lists.thy ===== *)
theory Packet_Lists
  imports Packet_Properties
begin

text \<open>
  Packets as the protocols see them: lists of bytes, which is what packets are by the refinement of the packet programs. The
  operation that needs care is \<^verbatim>\<open>CreateFragment\<close>, whose offsets are unsigned 32-bit numbers.
\<close>

definition list_fragment :: "u32 \<Rightarrow> u32 \<Rightarrow> u8 list \<Rightarrow> u8 list option" where
  "list_fragment start len p = (if start + len \<le> of_nat (length p)
     then let q = drop (unat start) p in Some (take (length q - unat (of_nat (length p) - (start + len))) q) else None)"

lemma u32_of_nat: "n < 2 ^ 32 \<Longrightarrow> unat (of_nat n :: u32) = n"
  by (simp add: unsigned_of_nat take_bit_nat_eq_self)

lemma list_fragment_ok:
  assumes "start + len \<le> length p" and "length p < 2 ^ 32"
  shows "list_fragment (of_nat start) (of_nat len) p = Some (take len (drop start p))"
proof -
  have u: "unat (of_nat n :: u32) = n" if "n \<le> length p" for n
    using that assms(2) by (simp add: unsigned_of_nat take_bit_nat_eq_self)
  have "of_nat (length p) - (of_nat start + of_nat len) = (of_nat (length p - (start + len)) :: u32)"
    using assms(1) by (simp add: of_nat_diff)
  moreover have "(of_nat start + of_nat len :: u32) \<le> of_nat (length p)"
    using assms u [of "start + len"] u [of "length p"] by (simp add: word_le_nat_alt flip: of_nat_add)
  ultimately show ?thesis
    using assms u [of start] u [of "length p - (start + len)"] by (simp add: list_fragment_def Let_def)
qed

text \<open>The unsigned arithmetic of \<^verbatim>\<open>GetPartialPacket\<close> wraps twice and still gives the empty fragment.\<close>

lemma list_fragment_past_end:
  assumes "length p \<le> start" and "start < 2 ^ 32"
  shows "list_fragment (of_nat start) (of_nat (length p) - of_nat start) p = Some []"
  using assms by (simp add: list_fragment_def unsigned_of_nat take_bit_nat_eq_self)

lemma list_fragment_of_packet:
  assumes P: "packet_ok h p B" and n: "start + len \<le> Packet_GetSize p" and g: "Packet_GetSize p < 2 ^ 32"
  shows "\<exists>q h'. Packet_CreateFragment start len p h = Some (q, h') \<and>
    list_fragment (of_nat start) (of_nat len) (map fst (tagged h p)) = Some (map fst (tagged h' q))"
proof -
  obtain q h' where "Packet_CreateFragment start len p h = Some (q, h')" "tagged h' q = take len (drop start (tagged h p))"
    by (rule Packet_CreateFragment_ok [OF P n g]) (rule that)
  then show ?thesis
    using list_fragment_ok [of start len "map fst (tagged h p)"] n g packet_size [OF P] by (simp add: take_map drop_map)
qed

lemma tail_fragment:
  assumes "k < length f" and "length f < 2 ^ 32"
  shows "list_fragment (of_nat k) (of_nat (length f) - of_nat k) f = Some (drop k f)"
proof -
  have "of_nat (length f) - of_nat k = (of_nat (length f - k) :: u32)" using assms(1) by (simp add: of_nat_diff)
  then show ?thesis using list_fragment_ok [of k "length f - k" f] assms by simp
qed

end
