(* ===== verification/Tcp_Rx_Buffer.thy ===== *)
theory Tcp_Rx_Buffer
  imports Sequence_Numbers Packet_Lists
begin

text \<open>
  The receive buffer of TCP (\<^verbatim>\<open>src/internet/model/tcp-rx-buffer.cc\<close>): segments arrive in any order, overlapping and repeated,
  and the application reads the stream in order; the blocks beyond the first gap are reported as SACK blocks. Packets are
  lists of bytes, the map from sequence numbers to packets a list in the order of the numbers.
\<close>

section \<open>State and operations\<close>

type_synonym sack_block = "u32 \<times> u32"

record tcp_rx =
  rx_nextRxSeq :: u32
  rx_finSeq :: u32
  rx_gotFin :: bool
  rx_size :: u32
  rx_maxBuffer :: u32
  rx_availBytes :: u32
  rx_data :: "(u32 \<times> u8 list) list"
  rx_sackList :: "sack_block list"

definition TcpRxBuffer :: "u32 \<Rightarrow> tcp_rx" where
  "TcpRxBuffer n = \<lparr>rx_nextRxSeq = n, rx_finSeq = 0, rx_gotFin = False, rx_size = 0, rx_maxBuffer = 32768, rx_availBytes = 0,
     rx_data = [], rx_sackList = []\<rparr>"

definition SetNextRxSequence :: "u32 \<Rightarrow> tcp_rx \<Rightarrow> tcp_rx" where
  "SetNextRxSequence s rx = rx\<lparr>rx_nextRxSeq := s\<rparr>"

definition SetMaxBufferSize :: "u32 \<Rightarrow> tcp_rx \<Rightarrow> tcp_rx" where
  "SetMaxBufferSize s rx = rx\<lparr>rx_maxBuffer := s\<rparr>"

definition IncNextRxSequence :: "tcp_rx \<Rightarrow> tcp_rx option" where
  "IncNextRxSequence rx = (if rx_size rx = 0 then Some (rx\<lparr>rx_nextRxSeq := rx_nextRxSeq rx + 1\<rparr>) else None)"

definition MaxRxSequence :: "tcp_rx \<Rightarrow> u32" where
  "MaxRxSequence rx = (if rx_gotFin rx then rx_finSeq rx
     else if rx_data rx \<noteq> [] \<and> seq_greater (rx_nextRxSeq rx) (fst (hd (rx_data rx)))
     then fst (hd (rx_data rx)) + rx_maxBuffer rx
     else rx_nextRxSeq rx + rx_maxBuffer rx)"

definition SetFinSequence :: "u32 \<Rightarrow> tcp_rx \<Rightarrow> tcp_rx" where
  "SetFinSequence s rx = (let rx1 = rx\<lparr>rx_gotFin := True, rx_finSeq := s\<rparr> in
     if rx_nextRxSeq rx1 = s then rx1\<lparr>rx_nextRxSeq := rx_nextRxSeq rx1 + 1\<rparr> else rx1)"

definition Finished :: "tcp_rx \<Rightarrow> bool" where
  "Finished rx \<longleftrightarrow> rx_gotFin rx \<and> seq_less (rx_finSeq rx) (rx_nextRxSeq rx)"

text \<open>The map: finding, storing and erasing a key.\<close>

fun map_has :: "u32 \<Rightarrow> (u32 \<times> 'a) list \<Rightarrow> bool" where
  "map_has k [] = False" |
  "map_has k ((f, q) # bs) = (if seq_less f k then map_has k bs else \<not> seq_less k f)"

fun map_put :: "u32 \<Rightarrow> 'a \<Rightarrow> (u32 \<times> 'a) list \<Rightarrow> (u32 \<times> 'a) list" where
  "map_put k v [] = [(k, v)]" |
  "map_put k v ((f, q) # bs) = (if seq_less f k then (f, q) # map_put k v bs
     else if seq_less k f then (k, v) # (f, q) # bs else (f, v) # bs)"

text \<open>The loop that removes the overlap of a segment with the stored packets, and drops packets inside the segment.\<close>

fun trim_overlap :: "u32 \<Rightarrow> u32 \<Rightarrow> u32 \<Rightarrow> (u32 \<times> u8 list) list \<Rightarrow> u32 \<times> u32 \<times> u32 \<times> (u32 \<times> u8 list) list" where
  "trim_overlap headSeq tailSeq sz [] = (headSeq, tailSeq, sz, [])" |
  "trim_overlap headSeq tailSeq sz ((first, q) # bs) =
     (if seq_le first tailSeq then
        let lastByteSeq = first + of_nat (length q) in
        if seq_greater lastByteSeq headSeq then
          if seq_greater first headSeq \<and> seq_less lastByteSeq tailSeq
          then trim_overlap headSeq tailSeq (sz - of_nat (length q)) bs
          else
            let head1 = (if seq_le first headSeq then lastByteSeq else headSeq);
              tail1 = (if seq_ge lastByteSeq tailSeq then first else tailSeq);
              (h, t, n, rest_bs) = trim_overlap head1 tail1 sz bs in (h, t, n, (first, q) # rest_bs)
        else let (h, t, n, rest_bs) = trim_overlap headSeq tailSeq sz bs in (h, t, n, (first, q) # rest_bs)
      else (headSeq, tailSeq, sz, (first, q) # bs))"

definition rx_ClearSackList :: "u32 \<Rightarrow> sack_block list \<Rightarrow> sack_block list option" where
  "rx_ClearSackList s sacks = (if \<forall>b\<in>set sacks. seq_less (fst b) (snd b)
     then Some (filter (\<lambda>b. \<not> seq_le (snd b) s) sacks) else None)"

text \<open>The loop of \<^verbatim>\<open>UpdateSackList\<close>: the first block, the blocks already passed, and the rest.\<close>

function sack_merge :: "sack_block \<Rightarrow> sack_block list \<Rightarrow> sack_block list \<Rightarrow> sack_block list option" where
  "sack_merge first passed [] = Some (first # passed)" |
  "sack_merge first passed (current # sacks) =
     (if fst first = snd current
      then if seq_less (fst current) (snd first) then sack_merge (fst current, snd first) [] (passed @ sacks) else None
      else if snd first = fst current
      then if seq_less (fst first) (snd current) then sack_merge (fst first, snd current) [] (passed @ sacks) else None
      else sack_merge first (passed @ [current]) sacks)"
  by pat_completeness auto
termination
  by (relation "inv_image (less_than <*lex*> less_than) (\<lambda>(f, p, s). (length p + length s, length s))") auto

definition rx_UpdateSackList :: "u32 \<Rightarrow> u32 \<Rightarrow> tcp_rx \<Rightarrow> tcp_rx option" where
  "rx_UpdateSackList head tail rx = (if seq_greater head (rx_nextRxSeq rx) then do {
     sacks \<leftarrow> sack_merge (head, tail) [] (rx_sackList rx);
     Some (rx\<lparr>rx_sackList := (if length sacks > 4 then butlast sacks else sacks)\<rparr>) } else None)"

text \<open>The loop that moves the next expected number over the stored packets.\<close>

fun advance_next :: "u32 \<Rightarrow> u32 \<Rightarrow> sack_block list \<Rightarrow> (u32 \<times> u8 list) list \<Rightarrow> (u32 \<times> u32 \<times> sack_block list) option" where
  "advance_next nxt avail sacks [] = Some (nxt, avail, sacks)" |
  "advance_next nxt avail sacks ((first, q) # bs) =
     (if seq_less first nxt then advance_next nxt avail sacks bs
      else if seq_greater first nxt then Some (nxt, avail, sacks)
      else do {
        let nxt1 = first + of_nat (length q);
        sacks1 \<leftarrow> rx_ClearSackList nxt1 sacks;
        advance_next nxt1 (avail + of_nat (length q)) sacks1 bs })"

definition rx_Add :: "u8 list \<Rightarrow> u32 \<Rightarrow> tcp_rx \<Rightarrow> (bool \<times> tcp_rx) option" where
  "rx_Add p seqno rx = (let
      tail0 = seqno + of_nat (length p);
      head1 = (if seq_less seqno (rx_nextRxSeq rx) then rx_nextRxSeq rx else seqno);
      maxSeq = fst (hd (rx_data rx)) + rx_maxBuffer rx;
      tail1 = (if rx_data rx \<noteq> [] \<and> seq_less maxSeq tail0 then maxSeq else tail0);
      head2 = (if rx_data rx \<noteq> [] \<and> seq_less tail1 head1 then tail1 else head1);
      (headSeq, tailSeq, sz, data) = trim_overlap head2 tail1 (rx_size rx) (rx_data rx);
      rx1 = rx\<lparr>rx_size := sz, rx_data := data\<rparr> in
    if seq_ge headSeq tailSeq then Some (False, rx1)
    else do {
      let start = seq_minus headSeq seqno;
      let len = seq_minus tailSeq headSeq;
      q \<leftarrow> list_fragment start len p;
      (if len = of_nat (length q) \<and> \<not> map_has headSeq data then do {
         let rx2 = rx1\<lparr>rx_data := map_put headSeq q data\<rparr>;
         rx3 \<leftarrow> (if seq_greater headSeq (rx_nextRxSeq rx2) then rx_UpdateSackList headSeq tailSeq rx2 else Some rx2);
         let rx4 = rx3\<lparr>rx_size := rx_size rx3 + of_nat (length q)\<rparr>;
         (nxt, avail, sacks) \<leftarrow> advance_next (rx_nextRxSeq rx4) (rx_availBytes rx4) (rx_sackList rx4) (rx_data rx4);
         Some (True, rx4\<lparr>rx_nextRxSeq := (if rx_gotFin rx4 \<and> nxt = rx_finSeq rx4 then nxt + 1 else nxt),
           rx_availBytes := avail, rx_sackList := sacks\<rparr>) }
       else None) })"

text \<open>Reading: the loop takes whole packets and the beginning of the last one.\<close>

fun extract_loop :: "u32 \<Rightarrow> u32 \<Rightarrow> u8 list \<Rightarrow> u32 \<Rightarrow> u32 \<Rightarrow> (u32 \<times> u8 list) list \<Rightarrow>
    (u8 list \<times> u32 \<times> u32 \<times> (u32 \<times> u8 list) list) option" where
  "extract_loop nxt extractSize outPkt sz avail [] = (if extractSize = 0 then Some (outPkt, sz, avail, []) else None)" |
  "extract_loop nxt extractSize outPkt sz avail ((first, q) # bs) =
     (if extractSize = 0 then Some (outPkt, sz, avail, (first, q) # bs)
      else if \<not> seq_le first nxt then None
      else if of_nat (length q) \<le> extractSize
      then extract_loop nxt (extractSize - of_nat (length q)) (outPkt @ q) (sz - of_nat (length q)) (avail - of_nat (length q)) bs
      else do {
        head_part \<leftarrow> list_fragment 0 extractSize q;
        tail_part \<leftarrow> list_fragment extractSize (of_nat (length q) - extractSize) q;
        Some (outPkt @ head_part, sz - extractSize, avail - extractSize,
          filter (\<lambda>b. fst b \<noteq> first) (map_put (first + extractSize) tail_part ((first, q) # bs))) })"

definition rx_Extract :: "u32 \<Rightarrow> tcp_rx \<Rightarrow> (u8 list option \<times> tcp_rx) option" where
  "rx_Extract maxSize rx = (let extractSize = min maxSize (rx_availBytes rx) in
     if extractSize = 0 then Some (None, rx)
     else if rx_data rx = [] then None
     else do {
       (outPkt, sz, avail, data) \<leftarrow> extract_loop (rx_nextRxSeq rx) extractSize [] (rx_size rx) (rx_availBytes rx) (rx_data rx);
       Some (if outPkt = [] then None else Some outPkt, rx\<lparr>rx_size := sz, rx_availBytes := avail, rx_data := data\<rparr>) })"

end
