(* ===== verification/Tcp_Rx_Stream.thy ===== *)
theory Tcp_Rx_Stream
  imports Tcp_Rx_Buffer
begin

text \<open>
  The receive buffer refines a stream: its blocks, as positions in the stream the sender sends, are a set of held bytes; a segment
  adds the bytes that lie between the next expected byte and the end of the window, and reading takes the bytes in order.
\<close>

section \<open>Blocks as positions\<close>

text \<open>Blocks in order and without overlap, none before a position.\<close>

fun chain :: "nat \<Rightarrow> (nat \<times> 'a list) list \<Rightarrow> bool" where
  "chain b [] \<longleftrightarrow> True" |
  "chain b ((a, q) # ps) \<longleftrightarrow> b \<le> a \<and> q \<noteq> [] \<and> chain (a + length q) ps"

fun covers_pos :: "(nat \<times> 'a list) list \<Rightarrow> nat \<Rightarrow> bool" where
  "covers_pos [] k \<longleftrightarrow> False" |
  "covers_pos ((a, q) # ps) k \<longleftrightarrow> a \<le> k \<and> k < a + length q \<or> covers_pos ps k"

definition total_bytes :: "(nat \<times> 'a list) list \<Rightarrow> nat" where
  "total_bytes ps = (\<Sum>(a, q)\<leftarrow>ps. length q)"

definition keyed :: "u32 \<Rightarrow> (nat \<times> 'a) list \<Rightarrow> (u32 \<times> 'a) list" where
  "keyed s ps = map (\<lambda>(a, q). (s + of_nat a, q)) ps"

text \<open>All positions of a window of half the range.\<close>

definition in_range :: "nat \<Rightarrow> nat \<Rightarrow> bool" where
  "in_range c a \<longleftrightarrow> c \<le> a \<and> a < c + 2 ^ 31"

fun blocks_in :: "nat \<Rightarrow> (nat \<times> 'a list) list \<Rightarrow> bool" where
  "blocks_in c [] \<longleftrightarrow> True" |
  "blocks_in c ((a, q) # ps) \<longleftrightarrow> in_range c a \<and> in_range c (a + length q) \<and> blocks_in c ps"

lemma keyed_simps [simp]:
  "keyed s [] = []" "keyed s ((a, q) # ps) = (s + of_nat a, q) # keyed s ps" "keyed s ps = [] \<longleftrightarrow> ps = []"
  "keyed s (ps @ qs) = keyed s ps @ keyed s qs"
  by (simp_all add: keyed_def)

lemma total_bytes_simps [simp]: "total_bytes [] = 0" "total_bytes ((a, q) # ps) = length q + total_bytes ps"
  by (simp_all add: total_bytes_def)

lemma in_range_near: "in_range c a \<Longrightarrow> in_range c b \<Longrightarrow> near a b"
  by (auto simp: in_range_def near_def)

lemmas range_simps = seq_positions [OF in_range_near]

lemma chain_mono: "chain b ps \<Longrightarrow> b' \<le> b \<Longrightarrow> chain b' ps"
  by (cases ps) auto

lemma chain_covers: "chain b ps \<Longrightarrow> covers_pos ps k \<Longrightarrow> b \<le> k"
  by (induction b ps rule: chain.induct) fastforce+

section \<open>Trimming a segment\<close>

fun ptrim :: "nat \<Rightarrow> nat \<Rightarrow> (nat \<times> 'a list) list \<Rightarrow> nat \<times> nat \<times> (nat \<times> 'a list) list" where
  "ptrim h t [] = (h, t, [])" |
  "ptrim h t ((f, q) # ps) =
     (if f \<le> t then
        let l = f + length q in
        if l > h then
          if f > h \<and> l < t then ptrim h t ps
          else let (h', t', ps') = ptrim (if f \<le> h then l else h) (if l \<ge> t then f else t) ps in (h', t', (f, q) # ps')
        else let (h', t', ps') = ptrim h t ps in (h', t', (f, q) # ps')
      else (h, t, (f, q) # ps))"

lemma trim_overlap_positions:
  assumes "blocks_in c ps" and "in_range c h" and "in_range c t"
  shows "trim_overlap (s + of_nat h) (s + of_nat t) sz (keyed s ps) =
    (case ptrim h t ps of (h', t', ps') \<Rightarrow>
       (s + of_nat h', s + of_nat t', sz + of_nat (total_bytes ps') - of_nat (total_bytes ps), keyed s ps'))"
  using assms
proof (induction h t ps arbitrary: sz rule: ptrim.induct)
  case (2 h t f q ps)
  let ?l = "f + length q"
  have r: "in_range c f" "in_range c ?l" "blocks_in c ps" using 2(4) by simp_all
  have k: "s + of_nat f + of_nat (length q) = s + of_nat ?l" by simp
  note cmp = range_simps [OF r(1) 2(6)] range_simps [OF r(2) 2(5)] range_simps [OF r(1) 2(5)] range_simps [OF r(2) 2(6)]
  show ?case
  proof (cases "f \<le> t")
    case False
    then show ?thesis by (simp add: cmp)
  next
    case T: True
    show ?thesis
    proof (cases "?l > h")
      case False
      then show ?thesis using T 2(3) [OF T refl] r 2(5,6)
        by (simp add: k cmp Let_def split: prod.splits del: of_nat_add) simp
    next
      case L: True
      show ?thesis
      proof (cases "f > h \<and> ?l < t")
        case True
        then show ?thesis using T L 2(1) [OF T refl L True] r 2(5,6)
          by (simp add: k cmp Let_def split: prod.splits del: of_nat_add) (simp add: algebra_simps)
      next
        case False
        define h1 t1 where d: "h1 = (if f \<le> h then ?l else h)" "t1 = (if ?l \<ge> t then f else t)"
        have "in_range c h1" "in_range c t1" using r 2(5,6) by (auto simp: d)
        then have IH: "trim_overlap (s + of_nat h1) (s + of_nat t1) sz (keyed s ps) = (case ptrim h1 t1 ps of (h', t', ps') \<Rightarrow>
            (s + of_nat h', s + of_nat t', sz + of_nat (total_bytes ps') - of_nat (total_bytes ps), keyed s ps'))"
          using 2(2) [OF T refl L False] r d by simp
        have i: "(if f \<le> h then s + of_nat ?l else s + of_nat h) = s + of_nat h1"
          "(if ?l \<ge> t then s + of_nat f else s + of_nat t) = s + of_nat t1" by (auto simp: d)
        obtain h' t' ps' where p: "ptrim h1 t1 ps = (h', t', ps')" by (metis prod_cases3)
        have F: "(h < f \<and> ?l < t) = False" using False by blast
        have "ptrim h t ((f, q) # ps) = (h', t', (f, q) # ps')" using T L p by (simp add: Let_def d F)
        moreover have "trim_overlap (s + of_nat h) (s + of_nat t) sz (keyed s ((f, q) # ps)) =
            (s + of_nat h', s + of_nat t', sz + of_nat (total_bytes ps') - of_nat (total_bytes ps), keyed s ((f, q) # ps'))"
          using T L IH p by (simp add: k cmp i F Let_def del: of_nat_add)
        ultimately show ?thesis by (simp del: trim_overlap.simps ptrim.simps keyed_simps)
      qed
    qed
  qed
qed simp

text \<open>Without room for the segment nothing changes.\<close>

lemma ptrim_empty: "t \<le> h \<Longrightarrow> \<exists>h' t'. ptrim h t ps = (h', t', ps) \<and> t' \<le> h'"
proof (induction ps arbitrary: h t)
  case (Cons p ps)
  obtain f q where p: "p = (f, q)" by force
  let ?l = "f + length q"
  consider "t < f" | "f \<le> t" "?l \<le> h" | "f \<le> t" "h < ?l" by linarith
  then show ?case
  proof cases
    case 2
    obtain h' t' where "ptrim h t ps = (h', t', ps)" "t' \<le> h'" using Cons.IH [OF Cons.prems] by blast
    then show ?thesis using 2 p by (simp add: Let_def)
  next
    case 3
    obtain h' t' where "ptrim ?l (if ?l \<ge> t then f else t) ps = (h', t', ps)" "t' \<le> h'"
      using Cons.IH [of "if ?l \<ge> t then f else t" ?l] Cons.prems 3 by auto
    moreover have "f \<le> h" "(h < f \<and> ?l < t) = False" using 3 Cons.prems by auto
    ultimately show ?thesis using 3 p by (simp add: Let_def)
  qed (use Cons.prems p in simp)
qed simp

text \<open>Blocks behind the end of the segment are left alone; with all blocks behind its beginning, only its end moves.\<close>

lemma ptrim_stop: "chain b ps \<Longrightarrow> t < b \<Longrightarrow> ptrim h t ps = (h, t, ps)"
  by (cases ps) auto

definition trimmed :: "nat \<Rightarrow> nat \<Rightarrow> (nat \<times> 'a list) list \<Rightarrow> nat \<Rightarrow> nat \<Rightarrow> nat \<Rightarrow> (nat \<times> 'a list) list \<Rightarrow> bool" where
  "trimmed h t ps b h' t' ps' \<longleftrightarrow> chain b ps' \<and> (\<forall>k. covers_pos ps' k \<longrightarrow> covers_pos ps k) \<and>
     (\<forall>k. covers_pos ps k \<longrightarrow> covers_pos ps' k \<or> h' \<le> k \<and> k < t') \<and> (\<forall>k. covers_pos ps' k \<longrightarrow> k < h' \<or> t' \<le> k) \<and>
     \<not> covers_pos ps h' \<and>
     (\<forall>k. h \<le> k \<and> k < t \<longrightarrow> covers_pos ps' k \<or> h' \<le> k \<and> k < t') \<and> set ps' \<subseteq> set ps"

lemma ptrim_tail:
  assumes "chain b ps" and "h < b" and "b \<le> t"
  shows "\<exists>t' ps'. ptrim h t ps = (h, t', ps') \<and> b \<le> t' \<and> t' \<le> t \<and> trimmed h t ps b h t' ps'"
  using assms
proof (induction ps arbitrary: b)
  case Nil
  then show ?case by (simp add: trimmed_def)
next
  case (Cons p ps)
  obtain f q where p: "p = (f, q)" by force
  let ?l = "f + length q"
  have c: "b \<le> f" "chain ?l ps" "f < ?l" using Cons.prems(1) p by auto
  have later: "covers_pos ps k \<Longrightarrow> ?l \<le> k" for k using chain_covers [OF c(2)] .
  consider "t < f" | "f \<le> t" "?l < t" | "f \<le> t" "t \<le> ?l" by linarith
  then show ?case
  proof cases
    case 1
    have "k \<ge> f" if "covers_pos (p # ps) k" for k using that later p c(3) by (auto dest: later)
    then show ?thesis using 1 p Cons.prems by (fastforce simp: trimmed_def)
  next
    case 2
    obtain t' ps' where IH: "ptrim h t ps = (h, t', ps')" "?l \<le> t'" "t' \<le> t" "trimmed h t ps ?l h t' ps'"
      using Cons.IH [OF c(2)] 2 Cons.prems(2) c by auto
    have "ptrim h t (p # ps) = (h, t', ps')" using IH(1) 2 p c Cons.prems(2) by (simp add: Let_def)
    moreover have "trimmed h t (p # ps) b h t' ps'"
      using IH(2,4) c(1) Cons.prems(2) chain_mono [of ?l ps' b] unfolding trimmed_def p by auto
    ultimately show ?thesis using IH(2,3) c(1) by auto
  next
    case 3
    have "ptrim h t (p # ps) = (h, f, p # ps)" using 3 p c Cons.prems(2) ptrim_stop [OF c(2,3)] by (simp add: Let_def)
    moreover have "trimmed h t (p # ps) b h f (p # ps)"
      using 3 Cons.prems later c unfolding trimmed_def p by (auto; fastforce)
    ultimately show ?thesis using 3(1) c(1) by blast
  qed
qed

lemma trimmed_Cons:
  assumes "trimmed l t ps (a + length q) h' t' ps'" and "b \<le> a" and "q \<noteq> []" and "a + length q \<le> h'" and "l = h \<and> a + length q \<le> h \<or> l = a + length q \<and> a \<le> h"
  shows "trimmed h t ((a, q) # ps) b h' t' ((a, q) # ps')"
  using assms unfolding trimmed_def by (auto simp: not_less)

lemma ptrim_spec:
  assumes "chain b ps" and "h < t"
  shows "\<exists>h' t' ps'. ptrim h t ps = (h', t', ps') \<and> h \<le> h' \<and> t' \<le> t \<and>
    (if h' < t' then trimmed h t ps b h' t' ps' else ps' = ps \<and> (\<forall>k. h \<le> k \<and> k < t \<longrightarrow> covers_pos ps k))"
  using assms
proof (induction ps arbitrary: b h)
  case Nil
  then show ?case by (simp add: trimmed_def)
next
  case (Cons p ps)
  obtain f q where p: "p = (f, q)" by force
  let ?l = "f + length q"
  have c: "b \<le> f" "q \<noteq> []" "chain ?l ps" "f < ?l" "chain f (p # ps)" using Cons.prems(1) p by auto
  consider "t < f" | "f \<le> t" "?l \<le> h" | "f \<le> t" "h < f" | "f \<le> h" "h < ?l" "t \<le> ?l" | "f \<le> h" "h < ?l" "?l < t" by linarith
  then show ?case
  proof cases
    case 1
    then show ?thesis using p chain_covers [OF c(5)] Cons.prems by (fastforce simp: trimmed_def)
  next
    case 2
    obtain h' t' ps' where IH: "ptrim h t ps = (h', t', ps')" "h \<le> h'" "t' \<le> t"
      "if h' < t' then trimmed h t ps ?l h' t' ps' else ps' = ps \<and> (\<forall>k. h \<le> k \<and> k < t \<longrightarrow> covers_pos ps k)"
      using Cons.IH [OF c(3) Cons.prems(2)] by auto
    have "ptrim h t (p # ps) = (h', t', p # ps')" using IH(1) 2 p by (simp add: Let_def)
    moreover have "trimmed h t (p # ps) b h' t' (p # ps')" if "h' < t'"
      using trimmed_Cons [of h t ps f q h' t' ps' b h] IH(2,4) that c(1,2) 2 Cons.prems(2) p by auto
    ultimately show ?thesis using IH p by auto
  next
    case 3
    obtain t' ps' where "ptrim h t (p # ps) = (h, t', ps')" "f \<le> t'" "t' \<le> t" "trimmed h t (p # ps) f h t' ps'"
      using ptrim_tail [OF c(5) 3(2,1)] by blast
    then show ?thesis using 3 c(1) by (auto simp: trimmed_def intro: chain_mono)
  next
    case 4
    then have "ptrim h t (p # ps) = (?l, f, p # ps)" using p c ptrim_stop [OF c(3,4)] Cons.prems(2) by (simp add: Let_def)
    then show ?thesis using 4 c p Cons.prems(2) by auto
  next
    case 5
    obtain h' t' ps' where IH: "ptrim ?l t ps = (h', t', ps')" "?l \<le> h'" "t' \<le> t"
      "if h' < t' then trimmed ?l t ps ?l h' t' ps' else ps' = ps \<and> (\<forall>k. ?l \<le> k \<and> k < t \<longrightarrow> covers_pos ps k)"
      using Cons.IH [OF c(3) 5(3)] by auto
    have "ptrim h t (p # ps) = (h', t', p # ps')" using IH(1) 5 p by (simp add: Let_def)
    moreover have "trimmed h t (p # ps) b h' t' (p # ps')" if "h' < t'"
      using trimmed_Cons [of ?l t ps f q h' t' ps' b h] IH(2,4) that c(1,2) 5 Cons.prems(2) p by auto
    moreover have "covers_pos (p # ps) k" if "\<forall>k. ?l \<le> k \<and> k < t \<longrightarrow> covers_pos ps k" "h \<le> k" "k < t" for k
      using that 5(1) p by (cases "k < ?l") auto
    ultimately show ?thesis using IH 5(1,2) by auto
  qed
qed

section \<open>Storing a block and advancing\<close>

fun pput :: "nat \<Rightarrow> 'a list \<Rightarrow> (nat \<times> 'a list) list \<Rightarrow> (nat \<times> 'a list) list" where
  "pput h v [] = [(h, v)]" |
  "pput h v ((a, q) # ps) = (if a < h then (a, q) # pput h v ps else (h, v) # (a, q) # ps)"

lemma pput_simps [simp]:
  "covers_pos (pput h v ps) k \<longleftrightarrow> h \<le> k \<and> k < h + length v \<or> covers_pos ps k"
  "total_bytes (pput h v ps) = length v + total_bytes ps" "set (pput h v ps) = insert (h, v) (set ps)"
  by (induction h v ps rule: pput.induct) auto

lemma pput_chain:
  assumes "chain b ps" and "b \<le> h" and "v \<noteq> []" and "\<forall>k. covers_pos ps k \<longrightarrow> k < h \<or> h + length v \<le> k"
  shows "chain b (pput h v ps)"
  using assms
proof (induction h v ps arbitrary: b rule: pput.induct)
  case (2 h v a q ps)
  have c: "b \<le> a" "q \<noteq> []" "chain (a + length q) ps" using 2(2) by auto
  have "0 < length v" using 2(4) by simp
  show ?case
  proof (cases "a < h")
    case True
    have "a + length q \<le> h"
    proof (rule ccontr)
      assume "\<not> a + length q \<le> h"
      then have "covers_pos ((a, q) # ps) h" using True by simp
      then show False using 2(5) \<open>0 < length v\<close> by fastforce
    qed
    then show ?thesis using True c 2(1) [OF True c(3) _ 2(4)] 2(5) by auto
  next
    case False
    have "covers_pos ((a, q) # ps) a" using c(2) by simp
    then have "h + length v \<le> a" using 2(5) False by blast
    then show ?thesis using False c 2(3,4) by auto
  qed
qed auto

lemma map_put_positions:
  assumes "blocks_in c ps" and "in_range c h" and "\<forall>(a, q)\<in>set ps. a \<noteq> h"
  shows "map_put (s + of_nat h) v (keyed s ps) = keyed s (pput h v ps)" "\<not> map_has (s + of_nat h) (keyed s ps)"
  using assms by (induction h v ps rule: pput.induct) (auto simp: range_simps)

fun padvance :: "nat \<Rightarrow> (nat \<times> 'a list) list \<Rightarrow> nat" where
  "padvance n [] = n" |
  "padvance n ((a, q) # ps) = (if a < n then padvance n ps else if a > n then n else padvance (a + length q) ps)"

lemma padvance_ge: "n \<le> padvance n ps"
proof (induction n ps rule: padvance.induct)
  case (2 n a q ps)
  then show ?case by (cases a n rule: linorder_cases) auto
qed simp

lemma chain_from: "chain b ps \<Longrightarrow> (a, q) \<in> set ps \<Longrightarrow> b \<le> a \<and> q \<noteq> []"
  by (induction b ps rule: chain.induct) (force dest: order_trans)+

lemma padvance_spec:
  assumes "chain b ps" and "\<forall>(a, q)\<in>set ps. a < n \<longrightarrow> a + length q \<le> n"
  shows "(\<forall>k. n \<le> k \<and> k < padvance n ps \<longrightarrow> covers_pos ps k) \<and> \<not> covers_pos ps (padvance n ps)"
  using assms
proof (induction n ps arbitrary: b rule: padvance.induct)
  case (2 n a q ps)
  have c: "chain (a + length q) ps" "chain a ((a, q) # ps)" using 2(3) by auto
  consider "a < n" | "a > n" | "a = n" by linarith
  then show ?case
  proof cases
    case 1
    then have "(\<forall>k. n \<le> k \<and> k < padvance n ps \<longrightarrow> covers_pos ps k) \<and> \<not> covers_pos ps (padvance n ps)"
      using "2.IH"(1) [OF 1 c(1)] 2(4) by auto
    moreover have "a + length q \<le> padvance n ps" using 2(4) 1 padvance_ge [of n ps] by fastforce
    ultimately show ?thesis using 1 by auto
  next
    case 2
    then show ?thesis using chain_covers [OF c(2), of n] by auto
  next
    case 3
    let ?m = "a + length q"
    have m: "(\<forall>k. ?m \<le> k \<and> k < padvance ?m ps \<longrightarrow> covers_pos ps k) \<and> \<not> covers_pos ps (padvance ?m ps)"
      using "2.IH"(2) [OF _ _ c(1)] 3 chain_from [OF c(1)] by fastforce
    then show ?thesis using 3 padvance_ge [of ?m ps] by (auto simp: not_less)
  qed
qed simp

text \<open>The reported blocks as positions.\<close>

definition pblock :: "u32 \<Rightarrow> nat \<times> nat \<Rightarrow> sack_block" where
  "pblock s b = (s + of_nat (fst b), s + of_nat (snd b))"

definition good_block :: "nat \<Rightarrow> (nat \<Rightarrow> bool) \<Rightarrow> nat \<times> nat \<Rightarrow> bool" where
  "good_block c H b \<longleftrightarrow> in_range c (fst b) \<and> in_range c (snd b) \<and> fst b < snd b \<and> (\<forall>k. fst b \<le> k \<and> k < snd b \<longrightarrow> H k)"

lemma ClearSackList_positions:
  assumes "\<forall>b\<in>set bs. good_block c H b" and "in_range c n"
  shows "rx_ClearSackList (s + of_nat n) (map (pblock s) bs) = Some (map (pblock s) (filter (\<lambda>b. n < snd b) bs))"
  using assms by (induction bs) (auto simp: rx_ClearSackList_def pblock_def good_block_def range_simps not_le)

lemma advance_positions:
  assumes "blocks_in c ps" and "chain b ps" and "in_range c n" and "\<forall>b\<in>set bs. good_block c H b"
  shows "advance_next (s + of_nat n) av (map (pblock s) bs) (keyed s ps) =
    Some (s + of_nat (padvance n ps), av + of_nat (padvance n ps - n),
      map (pblock s) (if padvance n ps = n then bs else filter (\<lambda>b. padvance n ps < snd b) bs))"
  using assms
proof (induction n ps arbitrary: b av bs rule: padvance.induct)
  case (2 n a q ps)
  have c: "in_range c a" "in_range c (a + length q)" "blocks_in c ps" "chain (a + length q) ps" "q \<noteq> []" using 2(3,4) by auto
  consider "a < n" | "a > n" | "a = n" by linarith
  then show ?case
  proof cases
    case 1
    then show ?thesis using "2.IH"(1) [OF 1 c(3,4) 2(5,6)] c 2(5) by (simp add: range_simps del: of_nat_add)
  next
    case 2
    then show ?thesis using c \<open>in_range c n\<close> by (simp add: range_simps)
  next
    case 3
    let ?m = "a + length q" and ?bs = "filter (\<lambda>b. a + length q < snd b) bs"
    let ?N = "padvance ?m ps"
    have N: "?m \<le> ?N" by (rule padvance_ge)
    have IH: "advance_next (s + of_nat ?m) (av + of_nat (length q)) (map (pblock s) ?bs) (keyed s ps) =
      Some (s + of_nat ?N, av + of_nat (length q) + of_nat (?N - ?m),
        map (pblock s) (if ?N = ?m then ?bs else filter (\<lambda>b. ?N < snd b) ?bs))"
      using "2.IH"(2) [OF _ _ c(3,4) c(2), of ?bs "av + of_nat (length q)"] 3 2(6) by simp
    have "of_nat (length q) + of_nat (?N - ?m) = (of_nat (?N - n) :: u32)"
      unfolding of_nat_add [symmetric] using N 3 by (intro arg_cong [of _ _ of_nat]) simp
    moreover have "(if ?N = ?m then ?bs else filter (\<lambda>b. ?N < snd b) ?bs) = filter (\<lambda>b. ?N < snd b) bs"
      using N by (auto simp: filter_filter intro: filter_cong)
    moreover have "?N \<noteq> n" using N 3 c(5) length_greater_0_conv [of q] by linarith
    ultimately show ?thesis using 3 IH ClearSackList_positions [OF 2(6) c(2), of s] c(1) 2(5)
      by (simp add: range_simps add.assoc del: of_nat_add) (simp add: add.assoc)
  qed
qed (simp add: pblock_def)

text \<open>Updating the list of blocks: the first block grows, every block stays within the held bytes.\<close>

lemma sack_merge_positions:
  assumes "good_block c H f" and "\<forall>b\<in>set ps. good_block c H b" and "\<forall>b\<in>set bs. good_block c H b"
  shows "\<exists>f' bs'. sack_merge (pblock s f) (map (pblock s) ps) (map (pblock s) bs) = Some (map (pblock s) (f' # bs')) \<and>
    fst f' \<le> fst f \<and> snd f \<le> snd f' \<and> (\<forall>b\<in>set (f' # bs'). good_block c H b) \<and> length bs' \<le> length ps + length bs"
  using assms
proof (induction "pblock s f" "map (pblock s) ps" "map (pblock s) bs" arbitrary: f ps bs rule: sack_merge.induct)
  case (1 f ps bs)
  then show ?case by (intro exI [of _ f] exI [of _ ps]) simp
next
  case (2 cur sacks f ps bs)
  obtain b bs1 where b: "bs = b # bs1" "cur = pblock s b" "sacks = map (pblock s) bs1" using 2(4) by (cases bs) auto
  have g: "good_block c H b" "good_block c H f" using 2(5,7) b by auto
  have k: "in_range c (fst b)" "in_range c (snd b)" "in_range c (fst f)" "in_range c (snd f)" using g by (simp_all add: good_block_def)
  have all: "\<forall>x\<in>set (ps @ bs1). good_block c H x" using 2(6,7) b by auto
  consider "fst f = snd b" | "fst f \<noteq> snd b" "snd f = fst b" | "fst f \<noteq> snd b" "snd f \<noteq> fst b" by blast
  then show ?case
  proof cases
    case 1
    let ?f = "(fst b, snd f)"
    have g': "good_block c H ?f"
      unfolding good_block_def
    proof (intro conjI allI impI)
      fix k assume "fst ?f \<le> k \<and> k < snd ?f"
      then show "H k" using g 1 by (cases "k < snd b") (auto simp: good_block_def)
    qed (use g k 1 in \<open>auto simp: good_block_def\<close>)
    have e: "fst (pblock s f) = snd cur" "seq_less (fst cur) (snd (pblock s f))"
      using 1 b k g' by (simp_all add: pblock_def range_simps good_block_def)
    have p: "pblock s ?f = (fst cur, snd (pblock s f))" using b by (simp add: pblock_def)
    obtain f' bs' where R: "sack_merge (pblock s ?f) [] (map (pblock s) (ps @ bs1)) = Some (map (pblock s) (f' # bs'))"
      "fst f' \<le> fst ?f" "snd ?f \<le> snd f'" "\<forall>x\<in>set (f' # bs'). good_block c H x" "length bs' \<le> length ps + length bs1"
    proof -
      have "\<exists>f' bs'. sack_merge (pblock s ?f) [] (map (pblock s) (ps @ bs1)) = Some (map (pblock s) (f' # bs')) \<and>
        fst f' \<le> fst ?f \<and> snd ?f \<le> snd f' \<and> (\<forall>x\<in>set (f' # bs'). good_block c H x) \<and> length bs' \<le> length ps + length bs1"
        using "2.hyps"(1) [OF e, of ?f "[]" "ps @ bs1"] g' all b p by simp
      then show thesis using that by blast
    qed
    have "sack_merge (pblock s f) (map (pblock s) ps) (map (pblock s) bs) = Some (map (pblock s) (f' # bs'))"
      using R(1) e b p by simp
    moreover have "fst f' \<le> fst f" "snd f \<le> snd f'" "length bs' \<le> length ps + length bs"
      using R(2,3,5) g b 1 by (auto simp: good_block_def)
    ultimately show ?thesis using R(4) by blast
  next
    case 2
    let ?f = "(fst f, snd b)"
    have g': "good_block c H ?f"
      unfolding good_block_def
    proof (intro conjI allI impI)
      fix k assume "fst ?f \<le> k \<and> k < snd ?f"
      then show "H k" using g 2 by (cases "k < snd f") (auto simp: good_block_def)
    qed (use g k 2 in \<open>auto simp: good_block_def\<close>)
    have e: "fst (pblock s f) \<noteq> snd cur" "snd (pblock s f) = fst cur" "seq_less (fst (pblock s f)) (snd cur)"
      using 2 b k g' range_simps(2) [OF k(3,2), of 0] by (simp_all add: pblock_def range_simps good_block_def)
    have p: "pblock s ?f = (fst (pblock s f), snd cur)" using b by (simp add: pblock_def)
    obtain f' bs' where R: "sack_merge (pblock s ?f) [] (map (pblock s) (ps @ bs1)) = Some (map (pblock s) (f' # bs'))"
      "fst f' \<le> fst ?f" "snd ?f \<le> snd f'" "\<forall>x\<in>set (f' # bs'). good_block c H x" "length bs' \<le> length ps + length bs1"
    proof -
      have "\<exists>f' bs'. sack_merge (pblock s ?f) [] (map (pblock s) (ps @ bs1)) = Some (map (pblock s) (f' # bs')) \<and>
        fst f' \<le> fst ?f \<and> snd ?f \<le> snd f' \<and> (\<forall>x\<in>set (f' # bs'). good_block c H x) \<and> length bs' \<le> length ps + length bs1"
        using "2.hyps"(2) [OF e, of ?f "[]" "ps @ bs1"] g' all b p by simp
      then show thesis using that by blast
    qed
    have "sack_merge (pblock s f) (map (pblock s) ps) (map (pblock s) bs) = Some (map (pblock s) (f' # bs'))"
      using R(1) e b p by simp
    moreover have "fst f' \<le> fst f" "snd f \<le> snd f'" "length bs' \<le> length ps + length bs"
      using R(2,3,5) g b 2 by (auto simp: good_block_def)
    ultimately show ?thesis using R(4) by blast
  next
    case 3
    have e: "fst (pblock s f) \<noteq> snd cur" "snd (pblock s f) \<noteq> fst cur"
      using 3 b range_simps(2) [OF k(3,2), of 0] range_simps(2) [OF k(4,1), of 0] by (simp_all add: pblock_def)
    show ?thesis using "2.hyps"(3) [OF e, of f "ps @ [b]" bs1] g 2(6,7) b e by auto
  qed
qed

section \<open>Reading\<close>

definition stream_blocks :: "'a list \<Rightarrow> (nat \<times> 'a list) list \<Rightarrow> bool" where
  "stream_blocks S ps \<longleftrightarrow> (\<forall>(a, q)\<in>set ps. a + length q \<le> length S \<and> take (length q) (drop a S) = q)"

lemma stream_blocks_simps [simp]:
  "stream_blocks S []"
  "stream_blocks S ((a, q) # ps) \<longleftrightarrow> a + length q \<le> length S \<and> take (length q) (drop a S) = q \<and> stream_blocks S ps"
  by (auto simp: stream_blocks_def)

lemma blocks_in_member: "blocks_in c ps \<longleftrightarrow> (\<forall>(a, q)\<in>set ps. in_range c a \<and> in_range c (a + length q))"
  by (induction c ps rule: blocks_in.induct) auto

lemma take_split: "i \<le> k \<Longrightarrow> take k (drop e S) = take i (drop e S) @ take (k - i) (drop (e + i) S)"
  by (metis add.commute drop_drop le_add_diff_inverse take_add)

lemma extract_positions:
  assumes "chain e ps" and "blocks_in c ps" and "stream_blocks S ps" and "\<forall>j. e \<le> j \<and> j < n \<longrightarrow> covers_pos ps j"
    and "e + k \<le> n" and "in_range c m \<and> n \<le> m" and "k < 2 ^ 31"
  shows "\<exists>ps'. extract_loop (s + of_nat m) (of_nat k) acc sz av (keyed s ps) =
      Some (acc @ take k (drop e S), sz - of_nat k, av - of_nat k, keyed s ps') \<and>
    chain (e + k) ps' \<and> blocks_in c ps' \<and> stream_blocks S ps' \<and> (\<forall>j. covers_pos ps' j \<longleftrightarrow> covers_pos ps j \<and> e + k \<le> j) \<and>
    total_bytes ps' + k = total_bytes ps"
  using assms
proof (induction ps arbitrary: e k acc sz av)
  case Nil
  then have "k = 0" by (cases k) auto
  then show ?case by (intro exI [of _ "[]"]) simp
next
  case (Cons p ps)
  obtain a q where p: "p = (a, q)" by force
  have c: "e \<le> a" "q \<noteq> []" "chain (a + length q) ps" "in_range c a" "in_range c (a + length q)" "blocks_in c ps"
    "a + length q \<le> length S" "take (length q) (drop a S) = q" "stream_blocks S ps" using Cons.prems p by auto
  have later: "a + length q \<le> j" if "covers_pos ps j" for j using chain_covers [OF c(3) that] .
  have lq: "0 < length q" "length q < 2 ^ 31 + 1" using c(2,4,5) by (auto simp: in_range_def)
  have u: "unat (of_nat (length q) :: u32) = length q" "unat (of_nat k :: u32) = k" using lq Cons.prems(7) by (simp_all add: u32_of_nat)
  show ?case
  proof (cases "k = 0")
    case True
    have "\<forall>j. covers_pos (p # ps) j \<longrightarrow> e \<le> j" using chain_covers [OF Cons.prems(1)] by blast
    then show ?thesis using True p Cons.prems(1-3) by (intro exI [of _ "p # ps"]) auto
  next
    case False
    then have k0: "(of_nat k :: u32) \<noteq> 0" using u(2) by (metis unsigned_0)
    have "covers_pos (p # ps) e" using Cons.prems(4,5) False by auto
    then have a: "a = e" using c(1) later lq(1) p by fastforce
    have first: "seq_le (s + of_nat a) (s + of_nat m)" using Cons.prems(5,6) c(4) a by (simp add: range_simps)
    show ?thesis
    proof (cases "length q \<le> k")
      case True
      have cov: "\<forall>j. a + length q \<le> j \<and> j < n \<longrightarrow> covers_pos ps j"
      proof (intro allI impI)
        fix j assume "a + length q \<le> j \<and> j < n"
        then show "covers_pos ps j" using Cons.prems(4) [rule_format, of j] p a by simp
      qed
      then obtain ps' where IH: "extract_loop (s + of_nat m) (of_nat (k - length q)) (acc @ q) (sz - of_nat (length q)) (av - of_nat (length q)) (keyed s ps) =
          Some ((acc @ q) @ take (k - length q) (drop (a + length q) S), sz - of_nat (length q) - of_nat (k - length q),
            av - of_nat (length q) - of_nat (k - length q), keyed s ps')"
        "chain (a + length q + (k - length q)) ps'" "blocks_in c ps'" "stream_blocks S ps'"
        "\<forall>j. covers_pos ps' j \<longleftrightarrow> covers_pos ps j \<and> a + length q + (k - length q) \<le> j" "total_bytes ps' + (k - length q) = total_bytes ps"
      proof -
        have "a + length q + (k - length q) \<le> n" "k - length q < 2 ^ 31" using Cons.prems(5,7) True a by linarith+
        then show thesis using Cons.IH [OF c(3,6,9) _ _ Cons.prems(6), of "k - length q"] cov that by blast
      qed
      have "(of_nat (length q) :: u32) \<le> of_nat k" using True u by (simp add: word_le_nat_alt)
      then have "extract_loop (s + of_nat m) (of_nat k) acc sz av (keyed s (p # ps)) =
          Some (acc @ take k (drop e S), sz - of_nat k, av - of_nat k, keyed s ps')"
        using IH(1) k0 first p a True c(8) take_split [OF True, of e S] by (simp add: of_nat_diff)
      moreover have "covers_pos ps' j \<longleftrightarrow> covers_pos (p # ps) j \<and> e + k \<le> j" for j using IH(5) True a p by auto
      ultimately show ?thesis using IH(2-4,6) True a p by (intro exI [of _ ps']) auto
    next
      case False
      let ?q = "drop k q" and ?ps = "(a + k, drop k q) # ps"
      have l: "\<not> (of_nat (length q) :: u32) \<le> of_nat k" using False u by (simp add: word_le_nat_alt)
      have f: "list_fragment 0 (of_nat k) q = Some (take k q)" "list_fragment (of_nat k) (of_nat (length q) - of_nat k) q = Some ?q"
        using list_fragment_ok [of 0 k q] tail_fragment [of k q] False lq(2) by simp_all
      have r: "in_range c (a + k)" using c(4,5) False by (auto simp: in_range_def)
      have "seq_less (s + of_nat a) (s + of_nat (a + k))" using \<open>k \<noteq> 0\<close> c(4) r by (simp add: range_simps del: of_nat_add)
      moreover have "map_put (s + of_nat (a + k)) ?q (keyed s ps) = keyed s ((a + k, ?q) # ps)"
      proof -
        have "\<forall>(x, v)\<in>set ps. x \<noteq> a + k" using chain_from [OF c(3)] False by fastforce
        moreover have "pput (a + k) ?q ps = (a + k, ?q) # ps" using c(3) False by (cases ps) auto
        ultimately show ?thesis using map_put_positions(1) [OF c(6) r, of s ?q] by simp
      qed
      moreover have "filter (\<lambda>b. fst b \<noteq> s + of_nat a) (keyed s ?ps) = keyed s ?ps"
      proof -
        have "\<forall>(x, v)\<in>set ?ps. x \<noteq> a \<and> in_range c x" using chain_from [OF c(3)] lq(1) \<open>k \<noteq> 0\<close> c(6) r by (fastforce simp: blocks_in_member)
        then show ?thesis unfolding keyed_def using range_simps(2) [OF _ c(4), of _ 0] by (intro filter_True) force
      qed
      moreover have "take k q = take k (drop e S)" using c(8) False a by (metis min.absorb1 nat_le_linear take_take)
      ultimately have "extract_loop (s + of_nat m) (of_nat k) acc sz av (keyed s (p # ps)) =
          Some (acc @ take k (drop e S), sz - of_nat k, av - of_nat k, keyed s ?ps)"
        using k0 first l f p by (simp add: add.assoc)
      moreover have "stream_blocks S ?ps"
      proof -
        have "drop k q = take (length q - k) (drop (a + k) S)" using c(8) by (metis add.commute drop_drop drop_take)
        then show ?thesis using c(7,9) False by simp
      qed
      moreover have "covers_pos ?ps j \<longleftrightarrow> covers_pos (p # ps) j \<and> e + k \<le> j" for j using False later [of j] p a by auto
      moreover have "a + k + (length q - k) = a + length q" using False by simp
      then have "chain (e + k) ?ps \<and> blocks_in c ?ps \<and> total_bytes ?ps + k = total_bytes (p # ps)"
        using False c(3,5,6) r a p by simp_all
      ultimately show ?thesis by blast
    qed
  qed
qed

end
