(* ===== verification/Tcp_Rx_Refinement.thy ===== *)
theory Tcp_Rx_Refinement
  imports Tcp_Rx_Stream
begin

text \<open>
  What the receive buffer stands for: how far the application has read, which positions of the stream are held, and whether the end
  of the stream is known. Every operation is an operation on these, as long as the segments lie in a window of less than half the range of the
  sequence numbers.
\<close>

section \<open>The abstract buffer\<close>

record rx_spec =
  sp_read :: nat
  sp_held :: "nat set"
  sp_fin :: bool

text \<open>The first missing position.\<close>

fun gap :: "nat set \<Rightarrow> nat \<Rightarrow> nat \<Rightarrow> nat" where
  "gap H n 0 = n" |
  "gap H n (Suc fuel) = (if n \<in> H then gap H (Suc n) fuel else n)"

definition sp_gap :: "'a list \<Rightarrow> rx_spec \<Rightarrow> nat" where
  "sp_gap S sp = gap (sp_held sp) (sp_read sp) (length S - sp_read sp)"

definition sp_next :: "'a list \<Rightarrow> rx_spec \<Rightarrow> nat" where
  "sp_next S sp = (if sp_fin sp \<and> sp_gap S sp = length S then length S + 1 else sp_gap S sp)"

definition sp_limit :: "nat \<Rightarrow> rx_spec \<Rightarrow> nat \<Rightarrow> nat" where
  "sp_limit W sp b = (if sp_held sp = {} then b else min b (Min (sp_held sp) + W))"

definition sp_fresh :: "'a list \<Rightarrow> nat \<Rightarrow> nat \<Rightarrow> nat \<Rightarrow> rx_spec \<Rightarrow> nat set" where
  "sp_fresh S W a len sp = {max a (sp_gap S sp)..<sp_limit W sp (a + len)} - sp_held sp"

definition sp_add :: "'a list \<Rightarrow> nat \<Rightarrow> nat \<Rightarrow> nat \<Rightarrow> rx_spec \<Rightarrow> rx_spec" where
  "sp_add S W a len sp = sp\<lparr>sp_held := sp_held sp \<union> sp_fresh S W a len sp\<rparr>"

definition sp_take :: "'a list \<Rightarrow> nat \<Rightarrow> rx_spec \<Rightarrow> rx_spec" where
  "sp_take S k sp = (let m = min k (sp_gap S sp - sp_read sp) in
     sp\<lparr>sp_read := sp_read sp + m, sp_held := sp_held sp - {sp_read sp..<sp_read sp + m}\<rparr>)"

text \<open>The buffer that stands for an abstract one.\<close>

definition rx_blocks :: "u8 list \<Rightarrow> u32 \<Rightarrow> nat \<Rightarrow> rx_spec \<Rightarrow> (nat \<times> u8 list) list \<Rightarrow> (nat \<times> nat) list \<Rightarrow> tcp_rx \<Rightarrow> bool" where
  "rx_blocks S s W sp ps bs rx \<longleftrightarrow>
     chain (sp_read sp) ps \<and> stream_blocks S ps \<and> sp_held sp = {k. covers_pos ps k} \<and>
     (\<forall>k. covers_pos ps k \<longrightarrow> k < sp_read sp + W) \<and> sp_read sp \<le> length S \<and>
     rx_data rx = keyed s ps \<and> rx_nextRxSeq rx = s + of_nat (sp_next S sp) \<and> rx_gotFin rx = sp_fin sp \<and>
     (sp_fin sp \<longrightarrow> rx_finSeq rx = s + of_nat (length S) \<and> length S \<le> sp_gap S sp + W) \<and> rx_size rx = of_nat (total_bytes ps) \<and>
     rx_availBytes rx = of_nat (sp_gap S sp - sp_read sp) \<and> rx_maxBuffer rx = of_nat W \<and> rx_sackList rx = map (pblock s) bs \<and>
     (\<forall>b\<in>set bs. fst b < snd b \<and> (\<forall>k. fst b \<le> k \<and> k < snd b \<longrightarrow> sp_gap S sp < k \<and> covers_pos ps k)) \<and> length bs \<le> 4"

definition represents :: "u8 list \<Rightarrow> u32 \<Rightarrow> nat \<Rightarrow> rx_spec \<Rightarrow> tcp_rx \<Rightarrow> bool" where
  "represents S s W sp rx \<longleftrightarrow> (\<exists>ps bs. rx_blocks S s W sp ps bs rx)"

section \<open>Facts about the abstract buffer\<close>

lemma rx_blocksD:
  assumes "rx_blocks S s W sp ps bs rx"
  shows "chain (sp_read sp) ps" "stream_blocks S ps" "sp_held sp = {k. covers_pos ps k}"
    "covers_pos ps k \<Longrightarrow> k < sp_read sp + W" "sp_read sp \<le> length S"
    "rx_data rx = keyed s ps" "rx_nextRxSeq rx = s + of_nat (sp_next S sp)" "rx_gotFin rx = sp_fin sp"
    "sp_fin sp \<Longrightarrow> rx_finSeq rx = s + of_nat (length S)" "rx_size rx = of_nat (total_bytes ps)"
    "rx_availBytes rx = of_nat (sp_gap S sp - sp_read sp)" "rx_maxBuffer rx = of_nat W" "rx_sackList rx = map (pblock s) bs"
    "b \<in> set bs \<Longrightarrow> fst b < snd b" "b \<in> set bs \<Longrightarrow> fst b \<le> k \<Longrightarrow> k < snd b \<Longrightarrow> sp_gap S sp < k \<and> covers_pos ps k" "length bs \<le> 4"
    "sp_fin sp \<Longrightarrow> length S \<le> sp_gap S sp + W"
  using assms by (simp_all only: rx_blocks_def)

lemma gap_spec:
  "n \<le> gap H n f" "gap H n f \<le> n + f" "n \<le> k \<Longrightarrow> k < gap H n f \<Longrightarrow> k \<in> H" "gap H n f \<in> H \<Longrightarrow> gap H n f = n + f"
proof -
  show "n \<le> gap H n f" by (induction H n f rule: gap.induct) auto
  show "gap H n f \<le> n + f" by (induction H n f rule: gap.induct) auto
  show "n \<le> k \<Longrightarrow> k < gap H n f \<Longrightarrow> k \<in> H"
  proof (induction H n f rule: gap.induct)
    case (2 H n fuel)
    then show ?case by (cases "n = k") (auto split: if_splits simp: Suc_le_eq)
  qed simp
  show "gap H n f \<in> H \<Longrightarrow> gap H n f = n + f" by (induction H n f rule: gap.induct) (auto split: if_splits)
qed

lemma gap_unique:
  assumes "n \<le> g" and "\<forall>k. n \<le> k \<and> k < g \<longrightarrow> k \<in> H" and "g \<notin> H" and "\<forall>k\<in>H. k < n + f" 
  shows "gap H n f = g"
proof (rule linorder_cases)
  assume "gap H n f < g"
  moreover from this have "gap H n f \<in> H" using assms(2) gap_spec(1) by blast
  ultimately show ?thesis using gap_spec(4) assms(4) by fastforce
next
  assume "g < gap H n f"
  then show ?thesis using gap_spec(3) [OF assms(1)] assms(3) by blast
qed

lemma stream_covers: "stream_blocks S ps \<Longrightarrow> covers_pos ps k \<Longrightarrow> k < length S"
  by (induction ps k rule: covers_pos.induct) auto

lemma finite_covers: "finite {k. covers_pos ps k}"
proof (induction ps)
  case (Cons p ps)
  obtain a q where "p = (a, q)" by force
  then have "{k. covers_pos (p # ps) k} = {a..<a + length q} \<union> {k. covers_pos ps k}" by auto
  then show ?case using Cons by simp
qed simp

lemma Min_chain:
  assumes "chain b ps" and "ps \<noteq> []"
  shows "Min {k. covers_pos ps k} = fst (hd ps)" "covers_pos ps (fst (hd ps))"
proof -
  obtain a q qs where p: "ps = (a, q) # qs" using assms(2) by (cases ps) auto
  show c: "covers_pos ps (fst (hd ps))" using assms(1) p by simp
  show "Min {k. covers_pos ps k} = fst (hd ps)"
  proof (rule Min_eqI [OF finite_covers])
    fix k assume "k \<in> {k. covers_pos ps k}"
    then show "fst (hd ps) \<le> k" using assms(1) chain_covers [of a ps k] chain_covers [of "a + length q" qs k] p by auto
  qed (use c in simp)
qed

lemma covers_empty: "chain b ps \<Longrightarrow> {k. covers_pos ps k} = {} \<longleftrightarrow> ps = []"
  using Min_chain(2) by (cases "ps = []") auto

lemma total_bytes_card: "chain b ps \<Longrightarrow> card {k. covers_pos ps k} = total_bytes ps"
proof (induction b ps rule: chain.induct)
  case (1 b)
  have "{k. covers_pos ([] :: (nat \<times> 'a list) list) k} = {}" by auto
  then show ?case by (metis card.empty total_bytes_simps(1))
next
  case (2 b a q ps)
  have "{k. covers_pos ((a, q) # ps) k} = {a..<a + length q} \<union> {k. covers_pos ps k}" by auto
  moreover have "{a..<a + length q} \<inter> {k. covers_pos ps k} = {}" using chain_covers [of "a + length q" ps] 2(2) by fastforce
  ultimately show ?case using 2 finite_covers [of ps] by (simp add: card_Un_disjoint)
qed

lemma in_window: "e - W \<le> x \<Longrightarrow> x \<le> e + 2 * W + 1 \<Longrightarrow> W \<le> 2 ^ 29 \<Longrightarrow> in_range (e - W) x"
  by (auto simp: in_range_def)

lemma sp_next_cases: "sp_next S sp = sp_gap S sp \<or> sp_gap S sp = length S \<and> sp_next S sp = length S + 1"
  by (simp add: sp_next_def)

text \<open>The first missing position of a buffer, and the window its blocks lie in.\<close>

lemma blocks_gap:
  assumes B: "rx_blocks S s W sp ps bs rx"
  shows "sp_read sp \<le> sp_gap S sp" "sp_gap S sp \<le> sp_read sp + W" "sp_gap S sp \<le> length S"
    "\<And>k. sp_read sp \<le> k \<Longrightarrow> k < sp_gap S sp \<Longrightarrow> covers_pos ps k" "\<not> covers_pos ps (sp_gap S sp)"
proof -
  note H = rx_blocksD(3) [OF B] and b = rx_blocksD(4) [OF B] and l = rx_blocksD(5) [OF B] and c = stream_covers [OF rx_blocksD(2) [OF B]]
  show g: "sp_read sp \<le> sp_gap S sp" by (simp add: sp_gap_def gap_spec(1))
  show "sp_gap S sp \<le> length S" using gap_spec(2) [of "sp_held sp" "sp_read sp" "length S - sp_read sp"] l by (simp add: sp_gap_def)
  show k: "covers_pos ps k" if "sp_read sp \<le> k" "k < sp_gap S sp" for k
    using gap_spec(3) [of "sp_read sp" k "sp_held sp" "length S - sp_read sp"] that H by (simp add: sp_gap_def)
  show "\<not> covers_pos ps (sp_gap S sp)"
    using gap_spec(4) [of "sp_held sp" "sp_read sp" "length S - sp_read sp"] c [of "sp_gap S sp"] H l by (auto simp: sp_gap_def)
  show "sp_gap S sp \<le> sp_read sp + W"
  proof (cases "sp_gap S sp = sp_read sp")
    case False
    then have "covers_pos ps (sp_gap S sp - 1)" using k [of "sp_gap S sp - 1"] g by simp
    then show ?thesis using b by fastforce
  qed simp
qed

lemma blocks_window:
  assumes B: "rx_blocks S s W sp ps bs rx" and "W \<le> 2 ^ 29"
  shows "blocks_in (sp_read sp - W) ps"
  unfolding blocks_in_member
proof safe
  fix a q assume m: "(a, q) \<in> set ps"
  note c = rx_blocksD(1) [OF B] and b = rx_blocksD(4) [OF B]
  have a: "sp_read sp \<le> a" "q \<noteq> []" using chain_from [OF c m] by auto
  have "covers_pos ps k" if "a \<le> k" "k < a + length q" for k using m that by (induction ps) auto
  from b [OF this, of "a + length q - 1"] a have "a + length q \<le> sp_read sp + W" by (cases q) auto
  then show "in_range (sp_read sp - W) a" "in_range (sp_read sp - W) (a + length q)" using a assms(2) by (auto intro!: in_window)
qed

end
