(* ===== verification/Tcp_Rx_Add.thy ===== *)
theory Tcp_Rx_Add
  imports Tcp_Rx_Refinement
begin

text \<open>Adding a segment to the receive buffer adds its bytes inside the window to the abstract buffer.\<close>

definition segment_ok :: "'a list \<Rightarrow> nat \<Rightarrow> nat \<Rightarrow> nat \<Rightarrow> rx_spec \<Rightarrow> bool" where
  "segment_ok S W a len sp \<longleftrightarrow> a + len \<le> length S \<and> sp_gap S sp \<le> a + W \<and> a + len \<le> sp_gap S sp + W"

definition segment :: "'a list \<Rightarrow> nat \<Rightarrow> nat \<Rightarrow> 'a list" where
  "segment S a len = take len (drop a S)"

section \<open>Trimming\<close>

text \<open>The end and the beginning of the segment after trimming it to the window.\<close>

definition trim_end :: "nat \<Rightarrow> (nat \<times> 'a list) list \<Rightarrow> nat \<Rightarrow> nat" where
  "trim_end W ps b = (if ps \<noteq> [] \<and> fst (hd ps) + W < b then fst (hd ps) + W else b)"

definition trim_begin :: "'a list \<Rightarrow> rx_spec \<Rightarrow> nat \<Rightarrow> (nat \<times> 'a list) list \<Rightarrow> nat \<Rightarrow> nat" where
  "trim_begin S sp a ps l = (let h = max a (sp_next S sp) in if ps \<noteq> [] \<and> l < h then l else h)"

lemma sp_limit_blocks:
  assumes "chain b ps" and "sp_held sp = {k. covers_pos ps k}"
  shows "sp_limit W sp x = trim_end W ps x"
  using Min_chain(1) [OF assms(1)] covers_empty [OF assms(1)] assms(2) by (auto simp: sp_limit_def trim_end_def)

lemma fresh_blocks:
  assumes B: "rx_blocks S s W sp ps bs rx" and ok: "segment_ok S W a len sp"
  defines "l \<equiv> trim_end W ps (a + len)"
  shows "sp_fresh S W a len sp = {k. trim_begin S sp a ps l \<le> k \<and> k < l \<and> \<not> covers_pos ps k}"
proof -
  have "l \<le> length S" using ok by (simp add: l_def trim_end_def segment_ok_def)
  then have e: "trim_begin S sp a ps l \<le> k \<and> k < l \<longleftrightarrow> max a (sp_gap S sp) \<le> k \<and> k < l" for k
    using sp_next_cases [of S sp] unfolding trim_begin_def Let_def by (elim disjE) auto
  have m: "sp_limit W sp (a + len) = l" using sp_limit_blocks [OF rx_blocksD(1,3) [OF B]] by (simp add: l_def)
  show ?thesis unfolding sp_fresh_def m rx_blocksD(3) [OF B]
    by (rule set_eqI) (simp only: Diff_iff atLeastLessThan_iff mem_Collect_eq e [symmetric] conj_assoc)
qed

text \<open>All the positions compared lie in a window of half the range.\<close>

lemma segment_window:
  assumes B: "rx_blocks S s W sp ps bs rx" and W: "0 < W" "W \<le> 2 ^ 29" and ok: "segment_ok S W a len sp"
  defines "c \<equiv> sp_read sp - W" and "l \<equiv> trim_end W ps (a + len)"
  shows "in_range c a" "in_range c (a + len)" "in_range c (sp_next S sp)" "ps \<noteq> [] \<Longrightarrow> in_range c (fst (hd ps) + W)"
    "in_range c l" "in_range c (max a (sp_next S sp))" "in_range c (trim_begin S sp a ps l)"
proof -
  have f: "sp_read sp \<le> fst (hd ps)" "fst (hd ps) < sp_read sp + W" if "ps \<noteq> []"
    using Min_chain(2) [OF rx_blocksD(1) [OF B] that] chain_covers [OF rx_blocksD(1) [OF B]] rx_blocksD(4) [OF B] by auto
  have N: "sp_gap S sp \<le> sp_next S sp" "sp_next S sp \<le> sp_gap S sp + 1" using sp_next_cases [of S sp] by auto
  show a: "in_range c a" "in_range c (a + len)" "in_range c (sp_next S sp)"
    using ok blocks_gap(1-3) [OF B] N W unfolding segment_ok_def c_def by (auto intro!: in_window)
  show f': "ps \<noteq> [] \<Longrightarrow> in_range c (fst (hd ps) + W)" using f W unfolding c_def by (auto intro!: in_window)
  show l: "in_range c l" "in_range c (max a (sp_next S sp))" using a f' by (auto simp: l_def trim_end_def max_def)
  then show "in_range c (trim_begin S sp a ps l)" by (auto simp: trim_begin_def Let_def)
qed

text \<open>The part of \<^verbatim>\<open>Add\<close> before the packet is stored, on positions.\<close>

lemma Add_trims:
  assumes B: "rx_blocks S s W sp ps bs rx" and W: "0 < W" "W \<le> 2 ^ 29" and ok: "segment_ok S W a len sp"
  defines "l \<equiv> trim_end W ps (a + len)"
  assumes T: "ptrim (trim_begin S sp a ps l) l ps = (h, t, ps')"
  shows "rx_Add (segment S a len) (s + of_nat a) rx = (let
      rx1 = rx\<lparr>rx_size := of_nat (total_bytes ps'), rx_data := keyed s ps'\<rparr> in
    if seq_ge (s + of_nat h) (s + of_nat t) then Some (False, rx1)
    else do {
      q \<leftarrow> list_fragment (seq_minus (s + of_nat h) (s + of_nat a)) (seq_minus (s + of_nat t) (s + of_nat h)) (segment S a len);
      (if seq_minus (s + of_nat t) (s + of_nat h) = of_nat (length q) \<and> \<not> map_has (s + of_nat h) (keyed s ps') then do {
         let rx2 = rx1\<lparr>rx_data := map_put (s + of_nat h) q (keyed s ps')\<rparr>;
         rx3 \<leftarrow> (if seq_greater (s + of_nat h) (rx_nextRxSeq rx2) then rx_UpdateSackList (s + of_nat h) (s + of_nat t) rx2 else Some rx2);
         let rx4 = rx3\<lparr>rx_size := rx_size rx3 + of_nat (length q)\<rparr>;
         (nxt, avail, sacks) \<leftarrow> advance_next (rx_nextRxSeq rx4) (rx_availBytes rx4) (rx_sackList rx4) (rx_data rx4);
         Some (True, rx4\<lparr>rx_nextRxSeq := (if rx_gotFin rx4 \<and> nxt = rx_finSeq rx4 then nxt + 1 else nxt),
           rx_availBytes := avail, rx_sackList := sacks\<rparr>) }
       else None) })"
proof -
  let ?N = "sp_next S sp" and ?c = "sp_read sp - W"
  note D = rx_blocksD [OF B] and w = blocks_window [OF B W(2)]
  note in_c = segment_window [OF B W ok, folded l_def]
  have "len \<le> length S - a" using ok unfolding segment_ok_def by linarith
  then have len: "length (segment S a len) = len" by (simp add: segment_def)
  have head1: "(if seq_less (s + of_nat a) (rx_nextRxSeq rx) then rx_nextRxSeq rx else s + of_nat a) = s + of_nat (max a ?N)"
    using range_simps(5) [OF in_c(1,3), of s] D(7) by (auto simp: max_def)
  have maxSeq: "fst (hd (rx_data rx)) + rx_maxBuffer rx = s + of_nat (fst (hd ps) + W)" if "ps \<noteq> []"
    using that D(6,12) by (cases ps) auto
  have tail1: "(if rx_data rx \<noteq> [] \<and> seq_less (fst (hd (rx_data rx)) + rx_maxBuffer rx) (s + of_nat (a + len))
      then fst (hd (rx_data rx)) + rx_maxBuffer rx else s + of_nat (a + len)) = s + of_nat l"
    using maxSeq range_simps(5) [OF in_c(4,2), of s] D(6) by (auto simp: l_def trim_end_def simp del: of_nat_add)
  have head2: "(if rx_data rx \<noteq> [] \<and> seq_less (s + of_nat l) (s + of_nat (max a ?N)) then s + of_nat l else s + of_nat (max a ?N)) =
      s + of_nat (trim_begin S sp a ps l)"
    using range_simps(5) [OF in_c(5,6), of s] D(6) by (auto simp: trim_begin_def Let_def)
  have trim: "trim_overlap (s + of_nat (trim_begin S sp a ps l)) (s + of_nat l) (rx_size rx) (rx_data rx) =
      (s + of_nat h, s + of_nat t, of_nat (total_bytes ps'), keyed s ps')"
    using trim_overlap_positions [OF w in_c(7,5)] T D(6,10) by simp
  have tail0: "s + of_nat a + of_nat (length (segment S a len)) = s + of_nat (a + len)" using len by (simp add: add.assoc)
  show ?thesis unfolding rx_Add_def tail0 Let_def head1 tail1 head2 trim by simp
qed

lemma ptrim_range:
  assumes "blocks_in c ps" and "in_range c h" and "in_range c t" and "ptrim h t ps = (h', t', ps')"
  shows "in_range c h' \<and> in_range c t'"
  using assms
proof (induction ps arbitrary: h t h' t' ps')
  case (Cons p ps)
  obtain f q where p: "p = (f, q)" by force
  have r: "in_range c f" "in_range c (f + length q)" "blocks_in c ps" using Cons.prems(1) p by simp_all
  let ?h = "if f \<le> h then f + length q else h" and ?t = "if f + length q \<ge> t then f else t"
  have in_c: "in_range c ?h" "in_range c ?t" using r Cons.prems(2,3) by auto
  obtain h1 t1 ps1 where p1: "ptrim ?h ?t ps = (h1, t1, ps1)" by (metis prod_cases3)
  obtain h2 t2 ps2 where p2: "ptrim h t ps = (h2, t2, ps2)" by (metis prod_cases3)
  have "(h', t') = (h, t) \<or> (h', t') = (h1, t1) \<or> (h', t') = (h2, t2)"
    using Cons.prems(4) p p1 p2 by (simp add: Let_def split: if_split_asm)
  then show ?case using Cons.IH [OF r(3) in_c p1] Cons.IH [OF r(3) Cons.prems(2,3) p2] Cons.prems(2,3) by auto
qed simp

section \<open>Storing\<close>

text \<open>The update of the SACK list: the first block contains the bytes just stored.\<close>

lemma UpdateSackList_positions:
  assumes "good_block c H (h, t)" and "\<forall>b\<in>set bs. good_block c H b" and "length bs \<le> 4" and "rx_sackList rx = map (pblock s) bs"
    and "rx_nextRxSeq rx = s + of_nat n" and "in_range c n" and "n < h"
  shows "\<exists>bs'. rx_UpdateSackList (s + of_nat h) (s + of_nat t) rx = Some (rx\<lparr>rx_sackList := map (pblock s) bs'\<rparr>) \<and>
    (\<forall>b\<in>set bs'. good_block c H b) \<and> length bs' \<le> 4 \<and> bs' \<noteq> [] \<and> fst (hd bs') \<le> h \<and> t \<le> snd (hd bs')"
proof -
  obtain f cs where m: "sack_merge (pblock s (h, t)) [] (map (pblock s) bs) = Some (map (pblock s) (f # cs))"
    "fst f \<le> h" "t \<le> snd f" "\<forall>b\<in>set (f # cs). good_block c H b" "length cs \<le> length bs"
    using sack_merge_positions [OF assms(1), of "[]" bs s] assms(2) by auto
  have g: "seq_greater (s + of_nat h) (rx_nextRxSeq rx)"
    using assms(1,5-7) range_simps(1) [of c h n s] by (simp add: good_block_def)
  define gs where "gs = (if length (f # cs) > 4 then butlast (f # cs) else f # cs)"
  have "rx_UpdateSackList (s + of_nat h) (s + of_nat t) rx = Some (rx\<lparr>rx_sackList := map (pblock s) gs\<rparr>)"
    using g m(1) assms(4) by (simp add: rx_UpdateSackList_def pblock_def map_butlast gs_def)
  moreover have "set gs \<subseteq> set (f # cs)" by (auto simp: gs_def dest: in_set_butlastD split: if_splits)
  moreover have "length gs \<le> 4" using m(5) assms(3) by (auto simp: gs_def)
  moreover have "gs \<noteq> [] \<and> hd gs = f" by (cases cs) (auto simp: gs_def)
  ultimately show ?thesis using m(2-4) by (intro exI [of _ gs]) auto
qed

lemma chain_hd:
  assumes "chain b ps" and "covers_pos ps b"
  shows "fst (hd ps) = b"
proof -
  obtain a q qs where p: "ps = (a, q) # qs" using assms(2) by (cases ps) auto
  have "b \<le> a" "q \<noteq> []" "chain (a + length q) qs" using assms(1) p by auto
  then show ?thesis using assms(2) p chain_covers [of "a + length q" qs b] by (cases q) auto
qed

text \<open>No block goes beyond the window.\<close>

lemma trim_end_window:
  assumes B: "rx_blocks S s W sp ps bs rx" and ok: "segment_ok S W a len sp"
  shows "trim_end W ps (a + len) \<le> sp_read sp + W" "trim_end W ps (a + len) \<le> a + len"
proof -
  show "trim_end W ps (a + len) \<le> sp_read sp + W"
  proof (cases "sp_gap S sp = sp_read sp")
    case True
    then show ?thesis using ok by (auto simp: trim_end_def segment_ok_def)
  next
    case False
    then have "covers_pos ps (sp_read sp)" using blocks_gap(1,4) [OF B] by simp
    then have "ps \<noteq> []" "fst (hd ps) = sp_read sp" using chain_hd [OF rx_blocksD(1) [OF B]] by auto
    then show ?thesis by (simp add: trim_end_def)
  qed
qed (simp add: trim_end_def)

section \<open>The operation\<close>

text \<open>Nothing new: the buffer stays as it is.\<close>

lemma Add_nothing:
  assumes B: "rx_blocks S s W sp ps bs rx" and W: "0 < W" "W \<le> 2 ^ 29" and ok: "segment_ok S W a len sp"
  defines "l \<equiv> trim_end W ps (a + len)"
  assumes T: "ptrim (trim_begin S sp a ps l) l ps = (h, t, ps)" and "t \<le> h" and r: "in_range (sp_read sp - W) h" "in_range (sp_read sp - W) t"
  shows "rx_Add (segment S a len) (s + of_nat a) rx = Some (False, rx)"
proof -
  have "rx\<lparr>rx_size := of_nat (total_bytes ps), rx_data := keyed s ps\<rparr> = rx" using rx_blocksD(6,10) [OF B] by (cases rx) simp
  moreover have "seq_ge (s + of_nat h) (s + of_nat t)" using range_simps(4) [OF r] \<open>t \<le> h\<close> by simp
  ultimately show ?thesis using Add_trims [OF B W ok T [unfolded l_def]] by (simp add: Let_def)
qed

text \<open>Something new: the blocks after storing it.\<close>

lemma Add_stores:
  assumes B: "rx_blocks S s W sp ps bs rx" and W: "0 < W" "W \<le> 2 ^ 29" and ok: "segment_ok S W a len sp"
  defines "l \<equiv> trim_end W ps (a + len)"
  assumes T: "ptrim h0 l ps = (h, t, ps')" and h0: "h0 = trim_begin S sp a ps l" "h0 < l" "h0 \<le> h" "t \<le> l" "h < t"
    and tr: "trimmed h0 l ps (sp_read sp) h t ps'"
  defines "q \<equiv> take (t - h) (drop h S)"
  defines "ps2 \<equiv> pput h q ps'"
  shows "a \<le> h" "sp_gap S sp \<le> h" "sp_next S sp = sp_gap S sp" "length q = t - h" "chain (sp_read sp) ps2" "stream_blocks S ps2"
    "covers_pos ps2 k \<longleftrightarrow> k \<in> sp_held sp \<union> sp_fresh S W a len sp" "covers_pos ps2 k \<Longrightarrow> k < sp_read sp + W"
    "list_fragment (seq_minus (s + of_nat h) (s + of_nat a)) (seq_minus (s + of_nat t) (s + of_nat h)) (segment S a len) = Some q"
    "blocks_in (sp_read sp - W) ps'" "h \<notin> sp_held sp" "\<forall>x\<in>sp_fresh S W a len sp. h \<le> x \<and> x < t" "\<forall>(x, v)\<in>set ps'. x \<noteq> h \<and> (x < sp_gap S sp \<longrightarrow> x + length v \<le> sp_gap S sp)"
proof -
  note D = rx_blocksD [OF B] and g = blocks_gap [OF B]
  have l: "l \<le> a + len" "l \<le> sp_read sp + W" "l \<le> length S"
    using trim_end_window [OF B ok] ok by (auto simp: l_def segment_ok_def)
  have "h0 = max a (sp_next S sp)" using h0(1,2) unfolding trim_begin_def Let_def by (simp split: if_split_asm)
  then have m: "a \<le> h0" "sp_next S sp \<le> h0" by simp_all
  show "a \<le> h" using m h0(3) by simp
  show N: "sp_next S sp = sp_gap S sp" using sp_next_cases [of S sp] m h0(2) l(3) by auto
  show "sp_gap S sp \<le> h" using m N h0(3) by simp
  show lq: "length q = t - h" using h0(4) l(3) by (simp add: q_def)
  have C: "chain (sp_read sp) ps'" "\<And>k. covers_pos ps' k \<Longrightarrow> covers_pos ps k"
    "\<And>k. covers_pos ps k \<Longrightarrow> covers_pos ps' k \<or> h \<le> k \<and> k < t" "\<And>k. covers_pos ps' k \<Longrightarrow> k < h \<or> t \<le> k"
    "\<not> covers_pos ps h" "\<And>k. h0 \<le> k \<Longrightarrow> k < l \<Longrightarrow> covers_pos ps' k \<or> h \<le> k \<and> k < t" "set ps' \<subseteq> set ps"
    using tr unfolding trimmed_def by blast+
  have "q \<noteq> []" using lq h0(5) by auto
  then show "chain (sp_read sp) ps2"
    unfolding ps2_def using C(1,4) g(1) m(2) N h0(3,5) lq by (intro pput_chain) auto
  show "stream_blocks S ps2"
    unfolding stream_blocks_def
  proof safe
    fix x v assume "(x, v) \<in> set ps2"
    then have "(x, v) = (h, q) \<or> (x, v) \<in> set ps" using C(7) by (auto simp: ps2_def)
    then show "x + length v \<le> length S" "take (length v) (drop x S) = v"
      using D(2) lq h0(4,5) l(3) by (auto simp: stream_blocks_def q_def)
  qed
  have F: "sp_fresh S W a len sp = {k. h0 \<le> k \<and> k < l \<and> \<not> covers_pos ps k}"
    using fresh_blocks [OF B ok] by (simp add: l_def [symmetric] h0(1))
  have cov: "covers_pos ps2 k \<longleftrightarrow> covers_pos ps k \<or> h0 \<le> k \<and> k < l" for k
    using C(2,3,6) [of k] h0(3,4,5) lq by (auto simp: ps2_def)
  then show "covers_pos ps2 k \<longleftrightarrow> k \<in> sp_held sp \<union> sp_fresh S W a len sp" using F D(3) by auto
  show "covers_pos ps2 k \<Longrightarrow> k < sp_read sp + W" using cov D(4) [of k] l(2) by auto
  show "h \<notin> sp_held sp" using C(5) D(3) by simp
  show "\<forall>x\<in>sp_fresh S W a len sp. h \<le> x \<and> x < t" using F C(2,6) by auto
  show "blocks_in (sp_read sp - W) ps'" using blocks_window [OF B W(2)] C(7) unfolding blocks_in_member by blast
  show "\<forall>(x, v)\<in>set ps'. x \<noteq> h \<and> (x < sp_gap S sp \<longrightarrow> x + length v \<le> sp_gap S sp)"
  proof -
    have "x \<noteq> h \<and> (x < sp_gap S sp \<longrightarrow> x + length v \<le> sp_gap S sp)" if mem: "(x, v) \<in> set ps'" for x v
    proof -
      have cv: "covers_pos ps' k" if "x \<le> k" "k < x + length v" for k using mem that by (induction ps') auto
      have "x \<noteq> h" using cv [THEN C(4), of h] chain_from [OF C(1) mem] h0(5) by (cases v) auto
      moreover have "x + length v \<le> sp_gap S sp" if "x < sp_gap S sp"
        using cv [THEN C(2), of "sp_gap S sp"] g(5) that by linarith
      ultimately show ?thesis by blast
    qed
    then show ?thesis by blast
  qed
  have "t - h \<le> len" "len < 2 ^ 32" "length (segment S a len) = len"
    using m h0 l ok g W(2) by (auto simp: segment_ok_def segment_def)
  moreover have "take (t - h) (drop (h - a) (segment S a len)) = q"
  proof -
    have "h - a + (t - h) \<le> len" using m h0 l(1) by simp
    then have "take (t - h) (drop (h - a) (segment S a len)) = take (t - h) (drop (h - a) (drop a S))"
      by (simp add: segment_def drop_take)
    then show ?thesis using m h0(3) by (simp add: q_def)
  qed
  moreover have "seq_minus (s + of_nat h) (s + of_nat a) = of_nat (h - a)" "seq_minus (s + of_nat t) (s + of_nat h) = of_nat (t - h)"
    using seq_minus_positions [of a h s] seq_minus_positions [of h t s] m h0 by simp_all
  ultimately show "list_fragment (seq_minus (s + of_nat h) (s + of_nat a)) (seq_minus (s + of_nat t) (s + of_nat h)) (segment S a len) = Some q"
    using list_fragment_ok [of "h - a" "t - h" "segment S a len"] m h0 l(1) by simp
qed

text \<open>Advancing over the stored blocks reaches the first missing position of the new abstract buffer.\<close>

lemma gap_after:
  assumes B: "rx_blocks S s W sp ps bs rx"
    and c: "chain (sp_read sp) ps2" and st: "stream_blocks S ps2" and H: "\<And>k. covers_pos ps2 k \<longleftrightarrow> k \<in> sp_held sp'"
    and sp': "sp_read sp' = sp_read sp" "sp_held sp \<subseteq> sp_held sp'"
    and straddle: "\<forall>(x, v)\<in>set ps2. x < sp_gap S sp \<longrightarrow> x + length v \<le> sp_gap S sp"
  shows "sp_gap S sp' = padvance (sp_gap S sp) ps2"
proof -
  let ?g = "padvance (sp_gap S sp) ps2"
  have p: "\<And>k. sp_gap S sp \<le> k \<Longrightarrow> k < ?g \<Longrightarrow> covers_pos ps2 k" "\<not> covers_pos ps2 ?g"
    using padvance_spec [OF c straddle] by blast+
  have "k \<in> sp_held sp'" if "sp_read sp \<le> k" "k < ?g" for k
    using that blocks_gap(4) [OF B, of k] rx_blocksD(3) [OF B] sp'(2) p(1) [of k] H by (cases "k < sp_gap S sp") auto
  moreover have "sp_read sp \<le> ?g" using blocks_gap(1) [OF B] padvance_ge [of "sp_gap S sp" ps2] by simp
  moreover have "\<forall>k\<in>sp_held sp'. k < sp_read sp + (length S - sp_read sp)"
    using stream_covers [OF st] H rx_blocksD(5) [OF B] by auto
  ultimately show ?thesis unfolding sp_gap_def [of S sp'] sp'(1) using p(2) H by (intro gap_unique) auto
qed

text \<open>The blocks reported after advancing.\<close>

lemma sacks_after:
  assumes "\<forall>b\<in>set bs. good_block c (\<lambda>k. n < k \<and> covers_pos ps k) b" and "n \<le> g" and "\<not> covers_pos ps g"
  shows "\<forall>b\<in>set (if g = n then bs else filter (\<lambda>b. g < snd b) bs).
    fst b < snd b \<and> (\<forall>k. fst b \<le> k \<and> k < snd b \<longrightarrow> g < k \<and> covers_pos ps k)"
proof
  fix b assume b: "b \<in> set (if g = n then bs else filter (\<lambda>b. g < snd b) bs)"
  then have G: "fst b < snd b" "\<And>k. fst b \<le> k \<Longrightarrow> k < snd b \<Longrightarrow> n < k \<and> covers_pos ps k"
    using assms(1) by (auto simp: good_block_def split: if_splits)
  have "g < fst b"
  proof (cases "g = n")
    case False
    then have "g < snd b" using b by simp
    then show ?thesis using G(2) [of g] assms(3) by (meson not_le)
  qed (use G(1) G(2) [of "fst b"] in simp)
  then show "fst b < snd b \<and> (\<forall>k. fst b \<le> k \<and> k < snd b \<longrightarrow> g < k \<and> covers_pos ps k)" using G by auto
qed

lemma Add_positions:
  assumes B: "rx_blocks S s W sp ps bs rx" and W: "0 < W" "W \<le> 2 ^ 29" and ok: "segment_ok S W a len sp"
  shows "\<exists>rx' ps' bs'. rx_Add (segment S a len) (s + of_nat a) rx = Some (sp_fresh S W a len sp \<noteq> {}, rx') \<and>
    rx_blocks S s W (sp_add S W a len sp) ps' bs' rx' \<and>
    (sp_fresh S W a len sp \<noteq> {} \<and> sp_gap S (sp_add S W a len sp) = sp_gap S sp \<longrightarrow>
      bs' \<noteq> [] \<and> sp_fresh S W a len sp \<subseteq> {fst (hd bs')..<snd (hd bs')})"
proof -
  let ?c = "sp_read sp - W" and ?n = "sp_gap S sp" and ?F = "sp_fresh S W a len sp" and ?sp = "sp_add S W a len sp"
  define l where "l = trim_end W ps (a + len)"
  define h0 where "h0 = trim_begin S sp a ps l"
  note D = rx_blocksD [OF B] and g = blocks_gap [OF B] and w = blocks_window [OF B W(2)]
  have l: "l \<le> a + len" "l \<le> sp_read sp + W" using trim_end_window [OF B ok] by (auto simp: l_def)
  have r0: "in_range ?c h0" "in_range ?c l" using segment_window(7,5) [OF B W ok] by (simp_all add: l_def h0_def)
  have F: "?F = {k. h0 \<le> k \<and> k < l \<and> \<not> covers_pos ps k}" using fresh_blocks [OF B ok] by (simp add: l_def h0_def)
  obtain h t ps' where T: "ptrim h0 l ps = (h, t, ps')" by (metis prod_cases3)
  have r: "in_range ?c h" "in_range ?c t" using ptrim_range [OF w r0 T] by auto
  show ?thesis
  proof (cases "h0 < l \<and> h < t")
    case False
    have e0: "ps' = ps \<and> t \<le> h \<and> (\<forall>k. h0 \<le> k \<and> k < l \<longrightarrow> covers_pos ps k)"
    proof (cases "h0 < l")
      case True
      then show ?thesis using ptrim_spec [OF D(1) True] T False by (simp split: if_split_asm)
    next
      case False
      then show ?thesis using ptrim_empty [of l h0 ps] T by auto
    qed
    then have e: "ps' = ps" "t \<le> h" "?F = {}" unfolding F by blast+
    have "?sp = sp" using e(3) by (cases sp) (simp add: sp_add_def)
    moreover have "rx_Add (segment S a len) (s + of_nat a) rx = Some (False, rx)"
      using Add_nothing [OF B W ok, of h t] T e(1,2) r by (simp add: l_def h0_def)
    ultimately show ?thesis using B e(3) by auto
  next
    case True
    then have st: "h0 \<le> h" "t \<le> l" "h0 < l" "h < t" "trimmed h0 l ps (sp_read sp) h t ps'" 
      using ptrim_spec [OF D(1), of h0 l] T by (simp_all split: if_split_asm)
    define q where "q = take (t - h) (drop h S)"
    define ps2 where "ps2 = pput h q ps'"
    note R = Add_stores [OF B W ok T [unfolded l_def] h0_def [unfolded l_def] st(3) [unfolded l_def] st(1) st(2) [unfolded l_def] st(4) st(5) [unfolded l_def],
        folded q_def, folded ps2_def]
    have rh: "in_range ?c ?n" using segment_window(3) [OF B W ok] R(3) by simp
    have ps': "\<forall>(x, v)\<in>set ps'. x \<noteq> h" using R(13) by blast
    have w2: "blocks_in ?c ps2" using R(4,10) r by (auto simp: blocks_in_member ps2_def) (use st(4) in simp)
    let ?G = "good_block ?c (\<lambda>k. ?n < k \<and> covers_pos ps2 k)"
    have new: "?G (h, t)" if "?n < h"
      using that r st(4) R(4) by (auto simp: good_block_def ps2_def)
    have old: "\<forall>b\<in>set bs. ?G b"
    proof
      fix b assume b: "b \<in> set bs"
      have m: "fst b < snd b" "\<And>k. fst b \<le> k \<Longrightarrow> k < snd b \<Longrightarrow> ?n < k \<and> covers_pos ps k" using D(14,15) [OF b] by blast+
      have "?n < fst b" "covers_pos ps (fst b)" "covers_pos ps (snd b - 1)" using m(1) m(2) [of "fst b"] m(2) [of "snd b - 1"] by auto
      then have "in_range ?c (fst b)" "in_range ?c (snd b)" using D(4) [of "fst b"] D(4) [of "snd b - 1"] g(1) m(1) W(2)
        by (auto intro!: in_window)
      then show "?G b" using m R(7) D(3) by (auto simp: good_block_def)
    qed
    define rx2 where "rx2 = rx\<lparr>rx_size := of_nat (total_bytes ps'), rx_data := keyed s ps2\<rparr>"
    obtain bs2 where U: "(if seq_greater (s + of_nat h) (rx_nextRxSeq rx2) then rx_UpdateSackList (s + of_nat h) (s + of_nat t) rx2
        else Some rx2) = Some (rx2\<lparr>rx_sackList := map (pblock s) bs2\<rparr>)" "\<forall>b\<in>set bs2. ?G b" "length bs2 \<le> 4"
      "?n < h \<longrightarrow> bs2 \<noteq> [] \<and> fst (hd bs2) \<le> h \<and> t \<le> snd (hd bs2)"
    proof (cases "?n < h")
      case True
      have "rx_sackList rx2 = map (pblock s) bs" "rx_nextRxSeq rx2 = s + of_nat ?n" using D(7,13) R(3) by (simp_all add: rx2_def)
      then show thesis using UpdateSackList_positions [OF new [OF True] old D(16), of rx2 s ?n] rh True range_simps(1) [OF r(1) rh, of s] that
        by auto
    next
      case False
      have "rx2\<lparr>rx_sackList := map (pblock s) bs\<rparr> = rx2" using D(13) by (simp add: rx2_def)
      moreover have "\<not> seq_greater (s + of_nat h) (rx_nextRxSeq rx2)"
        using False D(7) R(3) range_simps(1) [OF r(1) rh, of s] by (simp add: rx2_def)
      ultimately show thesis using that [of bs] old D(16) False by simp
    qed
    let ?g = "padvance ?n ps2"
    have sp: "sp_held ?sp = sp_held sp \<union> ?F" "sp_read ?sp = sp_read sp" "sp_fin ?sp = sp_fin sp" by (simp_all add: sp_add_def)
    have straddle: "\<forall>(x, v)\<in>set ps2. x < ?n \<longrightarrow> x + length v \<le> ?n" using R(2,13) by (auto simp: ps2_def)
    have G: "sp_gap S ?sp = ?g" using gap_after [OF B R(5,6) _ _ _ straddle, of ?sp] R(7) sp by auto
    have gg: "?n \<le> ?g" "\<not> covers_pos ps2 ?g" using padvance_ge padvance_spec [OF R(5) straddle] by auto
    define bs3 where "bs3 = (if ?g = ?n then bs2 else filter (\<lambda>b. ?g < snd b) bs2)"
    define rx' where "rx' = rx\<lparr>rx_size := of_nat (total_bytes ps2), rx_data := keyed s ps2, rx_sackList := map (pblock s) bs3,
      rx_nextRxSeq := s + of_nat (sp_next S ?sp), rx_availBytes := of_nat (?g - sp_read sp)\<rparr>"
    have av: "rx_availBytes rx + of_nat (?g - ?n) = of_nat (?g - sp_read sp)"
      unfolding D(11) of_nat_add [symmetric] using g(1) gg(1) by (intro arg_cong [of _ _ of_nat]) simp
    have gL: "?g \<le> length S"
      using gap_spec(2) [of "sp_held ?sp" "sp_read ?sp" "length S - sp_read ?sp"] G sp(2) D(5) by (simp add: sp_gap_def)
    have nx: "(if rx_gotFin rx \<and> s + of_nat ?g = rx_finSeq rx then s + of_nat ?g + 1 else s + of_nat ?g) = s + of_nat (sp_next S ?sp)"
    proof (cases "sp_fin sp")
      case True
      have "in_range ?c ?g" "in_range ?c (length S)" using D(17) [OF True] g(1,2) gg(1) gL W(2) by (auto intro!: in_window)
      then have "s + of_nat ?g = s + of_nat (length S) \<longleftrightarrow> ?g = length S" using range_simps(2) by blast
      then show ?thesis using True D(8,9) G sp(3) by (simp add: sp_next_def)
    qed (use D(8) G sp(3) in \<open>simp add: sp_next_def\<close>)
    have adv: "advance_next (s + of_nat ?n) (rx_availBytes rx) (map (pblock s) bs2) (keyed s ps2) =
        Some (s + of_nat ?g, of_nat (?g - sp_read sp), map (pblock s) bs3)"
      using advance_positions [OF w2 R(5) rh U(2)] av by (simp add: bs3_def)
    have "rx_Add (segment S a len) (s + of_nat a) rx = Some (True, rx')"
    proof -
      have "\<not> seq_ge (s + of_nat h) (s + of_nat t)" using range_simps(4) [OF r] st(4) by simp
      moreover have "seq_minus (s + of_nat t) (s + of_nat h) = of_nat (length q)" using seq_minus_positions [of h t s] st(4) R(4) by simp
      moreover have "map_put (s + of_nat h) q (keyed s ps') = keyed s ps2" "\<not> map_has (s + of_nat h) (keyed s ps')"
        using map_put_positions [OF R(10) r(1) ps'] by (simp_all add: ps2_def)
      moreover have "of_nat (total_bytes ps') + of_nat (length q) = (of_nat (total_bytes ps2) :: u32)"
        by (simp add: ps2_def add.commute)
      moreover have n: "rx_nextRxSeq rx = s + of_nat ?n" using D(7) R(3) by simp
      moreover have "(if seq_greater (s + of_nat h) (s + of_nat ?n)
          then rx_UpdateSackList (s + of_nat h) (s + of_nat t) (rx\<lparr>rx_size := of_nat (total_bytes ps'), rx_data := keyed s ps2\<rparr>)
          else Some (rx\<lparr>rx_size := of_nat (total_bytes ps'), rx_data := keyed s ps2\<rparr>)) =
        Some (rx\<lparr>rx_size := of_nat (total_bytes ps'), rx_data := keyed s ps2, rx_sackList := map (pblock s) bs2\<rparr>)"
        using U(1) n unfolding rx2_def by simp
      ultimately show ?thesis
        using Add_trims [OF B W ok T [unfolded l_def h0_def]] R(9) adv nx
        by (simp add: l_def h0_def Let_def rx'_def del: of_nat_add)
    qed
    moreover have "rx_blocks S s W ?sp ps2 bs3 rx'"
    proof -
      have "sp_held ?sp = {k. covers_pos ps2 k}" using R(7) sp(1) by blast
      moreover have "\<forall>k. covers_pos ps2 k \<longrightarrow> k < sp_read sp + W" using R(8) by blast
      moreover have "length bs3 \<le> 4" using U(3) order_trans [OF length_filter_le U(3)] by (simp add: bs3_def)
      moreover note sacks_after [OF U(2) gg, folded bs3_def]
      moreover have "sp_fin sp \<longrightarrow> rx_finSeq rx = s + of_nat (length S) \<and> length S \<le> ?g + W" using D(9,17) gg(1) by auto
      ultimately show ?thesis unfolding rx_blocks_def sp(2,3) G using R(5,6) D(5,8,12) by (simp add: rx'_def)
    qed
    moreover have "?F \<noteq> {}" using F R(11) D(3) st by auto
    moreover have "bs3 \<noteq> [] \<and> ?F \<subseteq> {fst (hd bs3)..<snd (hd bs3)}" if e: "?g = ?n"
    proof -
      have "covers_pos ps2 h" using st(4) R(4) by (simp add: ps2_def)
      then have "?n \<noteq> h" using e gg(2) by auto
      then have "?n < h" using R(2) by simp
      then have "bs3 \<noteq> []" "fst (hd bs3) \<le> h" "t \<le> snd (hd bs3)" using U(4) e by (auto simp: bs3_def)
      then show ?thesis using R(12) by fastforce
    qed
    ultimately show ?thesis using G by auto
  qed
qed

end
