(* ===== verification/Tcp_Rx_Runs.thy ===== *)
theory Tcp_Rx_Runs
  imports Tcp_Rx_Add
begin

text \<open>
  Whole runs of a receive buffer: segments of a stream, its end, and reads of the application. The buffer follows the abstract one, and
  what the application reads is the stream.
\<close>

section \<open>Reading and the end of the stream\<close>

lemma Extract_positions:
  assumes B: "rx_blocks S s W sp ps bs rx" and W: "W \<le> 2 ^ 29" and k: "k < 2 ^ 32"
  defines "m \<equiv> min k (sp_gap S sp - sp_read sp)"
  shows "\<exists>rx' ps'. rx_Extract (of_nat k) rx = Some (if m = 0 then None else Some (take m (drop (sp_read sp) S)), rx') \<and>
    rx_blocks S s W (sp_take S k sp) ps' bs rx' \<and> sp_gap S (sp_take S k sp) = sp_gap S sp"
proof -
  let ?e = "sp_read sp" and ?n = "sp_gap S sp" and ?c = "sp_read sp - W"
  note D = rx_blocksD [OF B] and g = blocks_gap [OF B] and w = blocks_window [OF B W]
  have small: "?n - ?e < 2 ^ 32" using g(2) W by auto
  have u: "unat (of_nat k :: u32) = k" "unat (of_nat (?n - ?e) :: u32) = ?n - ?e"
    using u32_of_nat [OF k] u32_of_nat [OF small] by auto
  have size: "min (of_nat k) (rx_availBytes rx) = of_nat m"
    using u D(11) by (auto simp: m_def min_def word_le_nat_alt)
  have m: "?e + m \<le> ?n" "m < 2 ^ 31" "m < 2 ^ 32" using g(1,2) W by (auto simp: m_def)
  have sp: "sp_take S k sp = sp\<lparr>sp_read := ?e + m, sp_held := sp_held sp - {?e..<?e + m}\<rparr>" by (simp add: sp_take_def m_def Let_def)
  show ?thesis
  proof (cases "m = 0")
    case True
    then have "sp_take S k sp = sp" using sp by simp
    then show ?thesis using True B size by (intro exI [of _ rx] exI [of _ ps]) (simp add: rx_Extract_def)
  next
    case False
    have nx: "in_range ?c (sp_next S sp) \<and> ?n \<le> sp_next S sp"
      using sp_next_cases [of S sp] g(1,2) W by (auto intro!: in_window)
    obtain ps' where X: "extract_loop (rx_nextRxSeq rx) (of_nat m) [] (rx_size rx) (rx_availBytes rx) (rx_data rx) =
        Some (take m (drop ?e S), rx_size rx - of_nat m, rx_availBytes rx - of_nat m, keyed s ps')"
      "chain (?e + m) ps'" "blocks_in ?c ps'" "stream_blocks S ps'" "\<forall>j. covers_pos ps' j \<longleftrightarrow> covers_pos ps j \<and> ?e + m \<le> j"
      "total_bytes ps' + m = total_bytes ps"
      using extract_positions [OF D(1) w D(2) _ m(1) nx m(2), of s "[]" "rx_size rx" "rx_availBytes rx"] g(4) D(6,7) by auto
    let ?rx = "rx\<lparr>rx_size := rx_size rx - of_nat m, rx_availBytes := rx_availBytes rx - of_nat m, rx_data := keyed s ps'\<rparr>"
    have "(of_nat m :: u32) \<noteq> 0" using False u32_of_nat [OF m(3)] by (metis unsigned_0)
    moreover have "covers_pos ps ?e" using g(4) [of ?e] m(1) False by simp
    then have "rx_data rx \<noteq> []" using D(6) by (cases ps) auto
    moreover have "take m (drop ?e S) \<noteq> []" using False m(1) g(3) by auto
    ultimately have R: "rx_Extract (of_nat k) rx = Some (Some (take m (drop ?e S)), ?rx)"
      using X(1) size by (simp add: rx_Extract_def Let_def)
    have H: "sp_held (sp_take S k sp) = {j. covers_pos ps' j}"
      using X(5) D(3) chain_covers [OF D(1)] unfolding sp by fastforce
    have G: "sp_gap S (sp_take S k sp) = ?n"
      unfolding sp_gap_def [of S "sp_take S k sp"] H
      using X(5) g(3-5) m(1) stream_covers [OF X(4)] by (intro gap_unique) (auto simp: sp)
    have "rx_blocks S s W (sp_take S k sp) ps' bs ?rx"
    proof -
      have "sp_next S (sp_take S k sp) = sp_next S sp" using G by (simp add: sp_next_def sp)
      moreover have "\<forall>j. covers_pos ps' j \<longrightarrow> j < ?e + m + W" using X(5) D(4) by fastforce
      moreover have "of_nat (total_bytes ps) - of_nat m = (of_nat (total_bytes ps') :: u32)" using X(6) by (metis add_diff_cancel_right' of_nat_add)
      moreover have "of_nat (?n - ?e) - of_nat m = (of_nat (?n - (?e + m)) :: u32)"
        using m(1) of_nat_diff [of m "?n - ?e", where 'a = u32] by (simp del: of_nat_diff)
      moreover have "\<forall>b\<in>set bs. fst b < snd b \<and> (\<forall>j. fst b \<le> j \<and> j < snd b \<longrightarrow> ?n < j \<and> covers_pos ps' j)"
      proof (intro ballI conjI allI impI)
        fix b j assume b: "b \<in> set bs" and j: "fst b \<le> j \<and> j < snd b"
        then show "?n < j" "covers_pos ps' j" using D(15) [OF b, of j] X(5) m(1) by auto
      qed (use D(14) in blast)
      ultimately show ?thesis
        unfolding rx_blocks_def G H using X(2,4) D(7-13,16,17) m(1) g(3) by (simp add: sp)
    qed
    then show ?thesis using R G False by auto
  qed
qed

lemma SetFinSequence_positions:
  assumes B: "rx_blocks S s W sp ps bs rx" and W: "W \<le> 2 ^ 29" and fin: "length S \<le> sp_gap S sp + W"
  shows "rx_blocks S s W (sp\<lparr>sp_fin := True\<rparr>) ps bs (SetFinSequence (s + of_nat (length S)) rx)"
proof -
  note D = rx_blocksD [OF B] and g = blocks_gap [OF B]
  have G: "sp_gap S (sp\<lparr>sp_fin := True\<rparr>) = sp_gap S sp" by (simp add: sp_gap_def)
  have "in_range (sp_read sp - W) (sp_next S sp)" "in_range (sp_read sp - W) (length S)"
    using sp_next_cases [of S sp] g(1-3) fin W by (auto intro!: in_window)
  then have "s + of_nat (sp_next S sp) = s + of_nat (length S) \<longleftrightarrow> sp_next S sp = length S" using range_simps(2) by blast
  then have "rx_nextRxSeq (SetFinSequence (s + of_nat (length S)) rx) = s + of_nat (sp_next S (sp\<lparr>sp_fin := True\<rparr>))"
    using D(7) G by (auto simp: SetFinSequence_def Let_def sp_next_def)
  then show ?thesis using B fin unfolding rx_blocks_def G by (simp add: SetFinSequence_def Let_def)
qed

section \<open>Runs\<close>

datatype rx_event = Segment nat nat | EndOfStream | Read nat

text \<open>What a run does to the buffer, and the bytes the application reads.\<close>

fun rx_step :: "u8 list \<Rightarrow> u32 \<Rightarrow> rx_event \<Rightarrow> tcp_rx \<Rightarrow> (u8 list \<times> tcp_rx) option" where
  "rx_step S s (Segment a len) rx = do { (stored, rx') \<leftarrow> rx_Add (segment S a len) (s + of_nat a) rx; Some ([], rx') }" |
  "rx_step S s EndOfStream rx = Some ([], SetFinSequence (s + of_nat (length S)) rx)" |
  "rx_step S s (Read k) rx = do {
     (p, rx') \<leftarrow> rx_Extract (of_nat k) rx;
     Some (case p of None \<Rightarrow> [] | Some bytes \<Rightarrow> bytes, rx') }"

fun rx_run :: "u8 list \<Rightarrow> u32 \<Rightarrow> rx_event list \<Rightarrow> tcp_rx \<Rightarrow> (u8 list \<times> tcp_rx) option" where
  "rx_run S s [] rx = Some ([], rx)" |
  "rx_run S s (e # es) rx = do {
     (out, rx') \<leftarrow> rx_step S s e rx;
     (out', rx'') \<leftarrow> rx_run S s es rx';
     Some (out @ out', rx'') }"

text \<open>The abstract run, and the events the sender and the application may produce in a state.\<close>

fun sp_step :: "u8 list \<Rightarrow> nat \<Rightarrow> rx_event \<Rightarrow> rx_spec \<Rightarrow> rx_spec" where
  "sp_step S W (Segment a len) sp = sp_add S W a len sp" |
  "sp_step S W EndOfStream sp = sp\<lparr>sp_fin := True\<rparr>" |
  "sp_step S W (Read k) sp = sp_take S k sp"

fun event_ok :: "u8 list \<Rightarrow> nat \<Rightarrow> rx_event \<Rightarrow> rx_spec \<Rightarrow> bool" where
  "event_ok S W (Segment a len) sp = segment_ok S W a len sp" |
  "event_ok S W EndOfStream sp = (length S \<le> sp_gap S sp + W)" |
  "event_ok S W (Read k) sp = (k < 2 ^ 32)"

fun events_ok :: "u8 list \<Rightarrow> nat \<Rightarrow> rx_event list \<Rightarrow> rx_spec \<Rightarrow> bool" where
  "events_ok S W [] sp = True" |
  "events_ok S W (e # es) sp = (event_ok S W e sp \<and> events_ok S W es (sp_step S W e sp))"

definition sp_run :: "u8 list \<Rightarrow> nat \<Rightarrow> rx_event list \<Rightarrow> rx_spec \<Rightarrow> rx_spec" where
  "sp_run S W es sp = fold (sp_step S W) es sp"

definition sp_empty :: rx_spec where
  "sp_empty = \<lparr>sp_read = 0, sp_held = {}, sp_fin = False\<rparr>"

definition rx_start :: "u32 \<Rightarrow> nat \<Rightarrow> tcp_rx" where
  "rx_start s W = SetMaxBufferSize (of_nat W) (TcpRxBuffer s)"

lemma sp_run_simps [simp]: "sp_run S W [] sp = sp" "sp_run S W (e # es) sp = sp_run S W es (sp_step S W e sp)"
  by (simp_all add: sp_run_def)

lemma gap_empty: "gap {} n f = n"
  by (cases f) auto

lemma start_represented: "rx_blocks S s W sp_empty [] [] (rx_start s W)"
  by (auto simp: rx_blocks_def rx_start_def SetMaxBufferSize_def TcpRxBuffer_def sp_empty_def sp_next_def sp_gap_def gap_empty)

lemma step_represented:
  assumes R: "represents S s W sp rx" and W: "0 < W" "W \<le> 2 ^ 29" and ok: "event_ok S W e sp"
  shows "\<exists>rx'. rx_step S s e rx = Some (drop (sp_read sp) (take (sp_read (sp_step S W e sp)) S), rx') \<and>
    represents S s W (sp_step S W e sp) rx' \<and> sp_read sp \<le> sp_read (sp_step S W e sp)"
proof -
  obtain ps bs where B: "rx_blocks S s W sp ps bs rx" using R unfolding represents_def by blast
  show ?thesis
  proof (cases e)
    case (Segment a len)
    then have "segment_ok S W a len sp" using ok by simp
    from Add_positions [OF B W this] obtain b rx' ps' bs' where
      "rx_Add (segment S a len) (s + of_nat a) rx = Some (b, rx')" "rx_blocks S s W (sp_add S W a len sp) ps' bs' rx'" by blast
    moreover have "sp_read (sp_add S W a len sp) = sp_read sp" by (simp add: sp_add_def)
    ultimately show ?thesis unfolding Segment represents_def by auto
  next
    case EndOfStream
    then have "length S \<le> sp_gap S sp + W" using ok by simp
    from SetFinSequence_positions [OF B W(2) this] show ?thesis unfolding EndOfStream represents_def by auto
  next
    case (Read k)
    let ?m = "min k (sp_gap S sp - sp_read sp)"
    have "k < 2 ^ 32" using Read ok by simp
    from Extract_positions [OF B W(2) this] obtain rx' ps' where
      X: "rx_Extract (of_nat k) rx = Some (if ?m = 0 then None else Some (take ?m (drop (sp_read sp) S)), rx')"
      "rx_blocks S s W (sp_take S k sp) ps' bs rx'" by blast
    have "sp_read (sp_take S k sp) = sp_read sp + ?m" by (simp add: sp_take_def Let_def)
    then show ?thesis unfolding Read represents_def using X by (auto simp: drop_take)
  qed
qed

lemma reads_in_order:
  assumes "i \<le> j" and "j \<le> k"
  shows "drop i (take j S) @ drop j (take k S) = drop i (take k S)"
proof (cases "j \<le> length S")
  case True
  have "take k S = take j S @ drop j (take k S)" using append_take_drop_id [of j "take k S"] assms(2) by (simp add: min_absorb1)
  then have "drop i (take k S) = drop i (take j S @ drop j (take k S))" by simp
  then show ?thesis using assms(1) True by simp
qed (use assms in simp)

lemma run_represented:
  assumes "represents S s W sp rx" and "0 < W" and "W \<le> 2 ^ 29" and "events_ok S W es sp"
  shows "\<exists>rx'. rx_run S s es rx = Some (drop (sp_read sp) (take (sp_read (sp_run S W es sp)) S), rx') \<and>
    represents S s W (sp_run S W es sp) rx' \<and> sp_read sp \<le> sp_read (sp_run S W es sp)"
  using assms
proof (induction es arbitrary: sp rx)
  case (Cons e es)
  let ?sp = "sp_step S W e sp"
  obtain rx1 where s: "rx_step S s e rx = Some (drop (sp_read sp) (take (sp_read ?sp) S), rx1)" "represents S s W ?sp rx1"
    "sp_read sp \<le> sp_read ?sp" using step_represented [OF Cons.prems(1-3)] Cons.prems(4) by auto
  obtain rx2 where r: "rx_run S s es rx1 = Some (drop (sp_read ?sp) (take (sp_read (sp_run S W es ?sp)) S), rx2)"
    "represents S s W (sp_run S W es ?sp) rx2" "sp_read ?sp \<le> sp_read (sp_run S W es ?sp)"
    using Cons.IH [OF s(2) Cons.prems(2,3)] Cons.prems(4) by auto
  show ?case using s r reads_in_order [OF s(3) r(3), of S] by simp
qed simp

lemma represented_observations:
  assumes "represents S s W sp rx" and "W \<le> 2 ^ 29"
  shows "rx_nextRxSeq rx = s + of_nat (sp_next S sp)" "rx_availBytes rx = of_nat (sp_gap S sp - sp_read sp)"
    "rx_size rx = of_nat (card (sp_held sp))" "Finished rx \<longleftrightarrow> sp_fin sp \<and> sp_gap S sp = length S"
proof -
  obtain ps bs where B: "rx_blocks S s W sp ps bs rx" using assms(1) unfolding represents_def by blast
  note D = rx_blocksD [OF B] and g = blocks_gap [OF B]
  show "rx_nextRxSeq rx = s + of_nat (sp_next S sp)" "rx_availBytes rx = of_nat (sp_gap S sp - sp_read sp)" by (rule D(7) D(11))+
  show "rx_size rx = of_nat (card (sp_held sp))" using D(3,10) total_bytes_card [OF D(1)] by simp
  show "Finished rx \<longleftrightarrow> sp_fin sp \<and> sp_gap S sp = length S"
  proof (cases "sp_fin sp")
    case True
    have "in_range (sp_read sp - W) (sp_next S sp)" "in_range (sp_read sp - W) (length S)"
      using sp_next_cases [of S sp] g(1-3) D(17) [OF True] assms(2) by (auto intro!: in_window)
    then have "seq_less (s + of_nat (length S)) (s + of_nat (sp_next S sp)) \<longleftrightarrow> length S < sp_next S sp" using range_simps(5) by blast
    then show ?thesis using True D(7-9) g(3) by (auto simp: Finished_def sp_next_def)
  qed (use D(8) in \<open>simp add: Finished_def\<close>)
qed

lemma events_ok_append: "events_ok S W (es @ es') sp \<longleftrightarrow> events_ok S W es sp \<and> events_ok S W es' (sp_run S W es sp)"
  by (induction es arbitrary: sp) auto

lemma rx_run_append:
  "rx_run S s es rx = Some (out, rx1) \<Longrightarrow> rx_run S s es' rx1 = Some (out', rx2) \<Longrightarrow> rx_run S s (es @ es') rx = Some (out @ out', rx2)"
  by (induction es arbitrary: rx out) (auto split: bind_splits)

lemma sp_run_append: "sp_run S W (es @ es') sp = sp_run S W es' (sp_run S W es sp)"
  by (simp add: sp_run_def)

text \<open>Evaluating abstract runs.\<close>

lemma gap_numeral: "gap H n (numeral k) = (if n \<in> H then gap H (Suc n) (pred_numeral k) else n)"
  by (simp add: numeral_eq_Suc)

lemmas sp_eval = sp_gap_def sp_add_def sp_fresh_def sp_limit_def sp_take_def segment_ok_def gap_numeral gap_empty insert_Diff_if
  atLeastLessThan_nat_numeral Let_def

section \<open>The properties\<close>



text \<open>C33: The SACK blocks the receiver reports after any run are at most four, not empty, and made of stored bytes beyond the next expected
  one; when the last segment arrived out of order and brought new bytes, the first block contains all of them.
\<close>

theorem tcp_sack_blocks:
  assumes "0 < W" and "W \<le> 2 ^ 29" and "events_ok S W (es @ [Segment a len]) sp_empty"
  defines "sp \<equiv> sp_run S W es sp_empty"
  shows "\<exists>out rx bs. rx_run S s (es @ [Segment a len]) (rx_start s W) = Some (out, rx) \<and> rx_sackList rx = map (pblock s) bs \<and>
    length bs \<le> 4 \<and>
    (\<forall>b\<in>set bs. sp_gap S (sp_add S W a len sp) < fst b \<and> fst b < snd b \<and> {fst b..<snd b} \<subseteq> sp_held (sp_add S W a len sp)) \<and>
    (sp_fresh S W a len sp \<noteq> {} \<and> sp_gap S (sp_add S W a len sp) = sp_gap S sp \<longrightarrow>
      bs \<noteq> [] \<and> sp_fresh S W a len sp \<subseteq> {fst (hd bs)..<snd (hd bs)})"
proof -
  have ok: "events_ok S W es sp_empty" "segment_ok S W a len sp" using assms(3) by (simp_all add: events_ok_append sp_def)
  have "represents S s W sp_empty (rx_start s W)" using start_represented unfolding represents_def by blast
  from run_represented [OF this assms(1,2) ok(1)] obtain rx1 out ps bs1 where
    r: "rx_run S s es (rx_start s W) = Some (out, rx1)" "rx_blocks S s W sp ps bs1 rx1"
    unfolding represents_def sp_def by blast
  from Add_positions [OF r(2) assms(1,2) ok(2)] obtain rx ps' bs b where
    a: "rx_Add (segment S a len) (s + of_nat a) rx1 = Some (b, rx)" "rx_blocks S s W (sp_add S W a len sp) ps' bs rx"
    "sp_fresh S W a len sp \<noteq> {} \<and> sp_gap S (sp_add S W a len sp) = sp_gap S sp \<longrightarrow>
      bs \<noteq> [] \<and> sp_fresh S W a len sp \<subseteq> {fst (hd bs)..<snd (hd bs)}" by blast
  have "rx_run S s (es @ [Segment a len]) (rx_start s W) = Some (out, rx)"
    using rx_run_append [OF r(1), of "[Segment a len]" "[]" rx] a(1) by simp
  moreover have "sp_gap S (sp_add S W a len sp) < fst b" "fst b < snd b" "{fst b..<snd b} \<subseteq> sp_held (sp_add S W a len sp)" if "b \<in> set bs" for b
    using rx_blocksD(14) [OF a(2) that] rx_blocksD(15) [OF a(2) that] rx_blocksD(3) [OF a(2)] by auto
  ultimately show ?thesis using rx_blocksD(13,16) [OF a(2)] a(3) by blast
qed

theorem tcp_sack_blocks_witness:
  "\<exists>out rx bs. rx_run [10, 11, 12, 13, 14, 15] 7 ([Segment 4 1] @ [Segment 2 2]) (rx_start 7 8) = Some (out, rx) \<and>
     rx_sackList rx = map (pblock 7) bs \<and> fst (hd bs) \<le> 2 \<and> 4 \<le> snd (hd bs)"
proof -
  let ?S = "[10, 11, 12, 13, 14, 15] :: u8 list"
  let ?s0 = "\<lparr>sp_read = 0, sp_held = {}, sp_fin = False\<rparr>"
  let ?s1 = "\<lparr>sp_read = 0, sp_held = {4}, sp_fin = False\<rparr>"
  have e: "sp_step ?S 8 (Segment 4 1) ?s0 = ?s1" "event_ok ?S 8 (Segment 4 1) ?s0" "event_ok ?S 8 (Segment 2 2) ?s1"
    by (auto simp: sp_eval)
  have "events_ok ?S 8 ([Segment 4 1] @ [Segment 2 2]) sp_empty"
    unfolding sp_empty_def by (simp only: append.simps events_ok.simps e simp_thms)
  moreover have "sp_run ?S 8 [Segment 4 1] sp_empty = ?s1" unfolding sp_empty_def by (simp only: sp_run_simps e)
  moreover have "sp_fresh ?S 8 2 2 ?s1 = {2, 3}" "sp_gap ?S (sp_add ?S 8 2 2 ?s1) = sp_gap ?S ?s1" by (auto simp: sp_eval)
  ultimately obtain out rx bs where
    "rx_run ?S 7 ([Segment 4 1] @ [Segment 2 2]) (rx_start 7 8) = Some (out, rx)" "rx_sackList rx = map (pblock 7) bs"
    "{2, 3} \<subseteq> {fst (hd bs)..<snd (hd bs)}"
    using tcp_sack_blocks [of 8 ?S "[Segment 4 1]" 2 2 7] by (auto simp del: rx_run.simps events_ok.simps append.simps)
  then show ?thesis by (intro exI [of _ out] exI [of _ rx] exI [of _ bs]) auto
qed

text \<open>The window is not the one \<^verbatim>\<open>MaxRxSequence\<close> announces: an empty buffer stores a segment of any length, and
  with a gap in front the window starts at the first stored packet, so that bytes at and after \<^verbatim>\<open>MaxRxSequence\<close> are
  stored.
\<close>

theorem Add_stores_beyond_MaxRxSequence:
  "map_option (\<lambda>(stored, rx). (stored, rx_size rx)) (rx_Add [1, 2, 3, 4, 5, 6] 0 (rx_start 0 4)) = Some (True, 6) \<and>
   map_option (\<lambda>(_, rx1). (MaxRxSequence rx1, map_option (\<lambda>(stored, rx2). (stored, map fst (rx_data rx2))) (rx_Add [5, 6] 4 rx1)))
    (rx_Add [3] 2 (rx_start 0 4)) = Some (4, Some (True, [2, 4]))"
  by (intro conjI; code_simp)

text \<open>A packet that contains a stored one replaces it, but the block of the old one stays in the list beside the block that contains it.\<close>

lemma sack_list_keeps_embedded_block:
  "map_option (\<lambda>(_, rx). (map fst (rx_data rx), rx_sackList rx))
    (Option.bind (rx_Add [5] 4 (rx_start 0 16)) (\<lambda>(_, rx1). rx_Add [4, 5, 6] 3 rx1)) = Some ([3], [(3, 6), (4, 5)])"
  by code_simp

end
