(* ===== verification/Ipv4_Interfaces.thy ===== *)
theory Ipv4_Interfaces
  imports Sim_Prelude
begin

unbundle bit_operations_syntax

text \<open>
  IPv4 addresses and masks (\<^verbatim>\<open>src/network/utils/ipv4-address.cc\<close>), the addresses of interfaces
  (\<^verbatim>\<open>src/internet/model/ipv4-interface-address.cc\<close>, \<^verbatim>\<open>ipv4-interface.cc\<close>) and the list of interfaces of a
  node (\<^verbatim>\<open>ipv4-l3-protocol.cc\<close>). An address is its 32-bit value, which is what \<^verbatim>\<open>operator==\<close> compares.
\<close>

section \<open>Addresses and masks\<close>

type_synonym ipv4_address = u32
type_synonym ipv4_mask = u32

definition UNINITIALIZED :: u32 where
  "UNINITIALIZED = 0x66666666"

definition mask_of_plen :: "u32 \<Rightarrow> ipv4_mask option" where
  "mask_of_plen plen = (if plen \<le> 32 then Some (if plen > 0 then push_bit (unat (32 - plen)) 0xffffffff else 0) else None)"

definition IsMatch :: "ipv4_mask \<Rightarrow> ipv4_address \<Rightarrow> ipv4_address \<Rightarrow> bool" where
  "IsMatch m a b \<longleftrightarrow> (a AND m) = (b AND m)"

text \<open>The mask is shifted out after at most 32 steps.\<close>

fun prefix_loop :: "nat \<Rightarrow> u32 \<Rightarrow> u16 \<Rightarrow> u16 option" where
  "prefix_loop 0 msk tmp = (if msk = 0 then Some tmp else None)" |
  "prefix_loop (Suc fuel) msk tmp = (if msk \<noteq> 0 then prefix_loop fuel (push_bit 1 msk) (tmp + 1) else Some tmp)"

definition GetPrefixLength :: "ipv4_mask \<Rightarrow> u16" where
  "GetPrefixLength m = the (prefix_loop 32 m 0)"

definition GetInverse :: "ipv4_mask \<Rightarrow> u32" where
  "GetInverse m = NOT m"

definition CombineMask :: "ipv4_address \<Rightarrow> ipv4_mask \<Rightarrow> ipv4_address" where
  "CombineMask a m = a AND m"

definition IsBroadcast :: "ipv4_address \<Rightarrow> bool" where
  "IsBroadcast a \<longleftrightarrow> a = 0xffffffff"

definition IsMulticast :: "ipv4_address \<Rightarrow> bool" where
  "IsMulticast a \<longleftrightarrow> a \<ge> 0xe0000000 \<and> a \<le> 0xefffffff"

definition IsLocalMulticast :: "ipv4_address \<Rightarrow> bool" where
  "IsLocalMulticast a \<longleftrightarrow> (a AND 0xffffff00) = 0xe0000000"

definition IsSubnetDirectedBroadcast :: "ipv4_address \<Rightarrow> ipv4_mask \<Rightarrow> bool" where
  "IsSubnetDirectedBroadcast a m \<longleftrightarrow> (if m = 0xffffffff then False else (a OR m) = 0xffffffff)"

definition GetSubnetDirectedBroadcast :: "ipv4_address \<Rightarrow> ipv4_mask \<Rightarrow> ipv4_address option" where
  "GetSubnetDirectedBroadcast a m = (if m = 0xffffffff then None else Some (a OR GetInverse m))"

section \<open>Interfaces\<close>

datatype address_scope = HOST | LINK | GLOBAL

text \<open>The scopes are ordered as the enumeration lists them.\<close>

primrec scope_value :: "address_scope \<Rightarrow> nat" where
  "scope_value HOST = 0" |
  "scope_value LINK = 1" |
  "scope_value GLOBAL = 2"

lemma scope_value_inject: "scope_value a = scope_value b \<Longrightarrow> a = b"
  by (cases a; cases b) simp_all

instantiation address_scope :: linorder
begin

definition less_eq_address_scope :: "address_scope \<Rightarrow> address_scope \<Rightarrow> bool" where
  "less_eq_address_scope a b \<longleftrightarrow> scope_value a \<le> scope_value b"

definition less_address_scope :: "address_scope \<Rightarrow> address_scope \<Rightarrow> bool" where
  "less_address_scope a b \<longleftrightarrow> scope_value a < scope_value b"

instance
  by standard (auto simp: less_eq_address_scope_def less_address_scope_def intro: scope_value_inject)

end

record interface_address =
  ia_local :: ipv4_address
  ia_mask :: ipv4_mask
  ia_broadcast :: ipv4_address
  ia_scope :: address_scope
  ia_secondary :: bool

definition Ipv4InterfaceAddress :: "ipv4_address \<Rightarrow> ipv4_mask \<Rightarrow> interface_address" where
  "Ipv4InterfaceAddress loc msk = \<lparr>ia_local = loc, ia_mask = msk, ia_broadcast = loc OR NOT msk,
     ia_scope = (if loc = 0x7f000001 then HOST else GLOBAL), ia_secondary = False\<rparr>"

definition no_interface_address :: interface_address where
  "no_interface_address = \<lparr>ia_local = UNINITIALIZED, ia_mask = UNINITIALIZED, ia_broadcast = UNINITIALIZED, ia_scope = GLOBAL,
     ia_secondary = False\<rparr>"

record ipv4_interface =
  if_device :: ptr
  if_up :: bool
  if_forwarding :: bool
  if_addrs :: "interface_address list"

definition Ipv4Interface :: "ptr \<Rightarrow> ipv4_interface" where
  "Ipv4Interface device = \<lparr>if_device = device, if_up = False, if_forwarding = True, if_addrs = []\<rparr>"

text \<open>The removal of an address by its value: the address found, or the default one.\<close>

fun remove_local :: "ipv4_address \<Rightarrow> interface_address list \<Rightarrow> (interface_address \<times> interface_address list) option" where
  "remove_local address [] = None" |
  "remove_local address (it # addrs) = (if ia_local it = address then Some (it, addrs)
     else map_option (\<lambda>(x, rest_addrs). (x, it # rest_addrs)) (remove_local address addrs))"

definition if_RemoveAddress :: "ipv4_address \<Rightarrow> ipv4_interface \<Rightarrow> interface_address \<times> ipv4_interface" where
  "if_RemoveAddress address iface = (if address = 0x7f000001 then (no_interface_address, iface)
     else case remove_local address (if_addrs iface) of
       None \<Rightarrow> (no_interface_address, iface)
     | Some (x, addrs) \<Rightarrow> (x, iface\<lparr>if_addrs := addrs\<rparr>))"

definition if_RemoveAddress_at :: "nat \<Rightarrow> ipv4_interface \<Rightarrow> (interface_address \<times> ipv4_interface) option" where
  "if_RemoveAddress_at index iface = (if index < length (if_addrs iface)
     then Some (if_addrs iface ! index, iface\<lparr>if_addrs := take index (if_addrs iface) @ drop (Suc index) (if_addrs iface)\<rparr>) else None)"

section \<open>The interfaces of a node\<close>

text \<open>The use of a null pointer, and an index that is out of bounds, are \<^term>\<open>None\<close>.\<close>

record ipv4_node =
  nd_interfaces :: "ipv4_interface list"
  nd_reverse :: "(ptr \<times> nat) list"
  nd_weakEs :: bool
  nd_ipForward :: bool

definition nd_AddIpv4Interface :: "ipv4_interface \<Rightarrow> ipv4_node \<Rightarrow> nat \<times> ipv4_node" where
  "nd_AddIpv4Interface iface nd = (let index = length (nd_interfaces nd) in
     (index, nd\<lparr>nd_interfaces := nd_interfaces nd @ [iface],
       nd_reverse := (if_device iface, index) # filter (\<lambda>p. fst p \<noteq> if_device iface) (nd_reverse nd)\<rparr>))"

definition nd_GetInterface :: "nat \<Rightarrow> ipv4_node \<Rightarrow> ipv4_interface option" where
  "nd_GetInterface i nd = (if i < length (nd_interfaces nd) then Some (nd_interfaces nd ! i) else None)"

definition nd_GetInterfaceForDevice :: "ptr \<Rightarrow> ipv4_node \<Rightarrow> int" where
  "nd_GetInterfaceForDevice device nd = (case map_of (nd_reverse nd) device of Some i \<Rightarrow> int i | None \<Rightarrow> - 1)"

definition nd_GetNetDevice :: "nat \<Rightarrow> ipv4_node \<Rightarrow> ptr option" where
  "nd_GetNetDevice i nd = map_option if_device (nd_GetInterface i nd)"

fun interface_search :: "(interface_address \<Rightarrow> bool) \<Rightarrow> nat \<Rightarrow> ipv4_interface list \<Rightarrow> int" where
  "interface_search P i [] = - 1" |
  "interface_search P i (iface # ifaces) = (if list_ex P (if_addrs iface) then int i else interface_search P (Suc i) ifaces)"

definition nd_GetInterfaceForAddress :: "ipv4_address \<Rightarrow> ipv4_node \<Rightarrow> int" where
  "nd_GetInterfaceForAddress address nd = interface_search (\<lambda>a. ia_local a = address) 0 (nd_interfaces nd)"

definition nd_GetInterfaceForPrefix :: "ipv4_address \<Rightarrow> ipv4_mask \<Rightarrow> ipv4_node \<Rightarrow> int" where
  "nd_GetInterfaceForPrefix address msk nd =
     interface_search (\<lambda>a. CombineMask (ia_local a) msk = CombineMask address msk) 0 (nd_interfaces nd)"

definition nd_GetAddress :: "nat \<Rightarrow> nat \<Rightarrow> ipv4_node \<Rightarrow> interface_address option" where
  "nd_GetAddress i j nd = do { iface \<leftarrow> nd_GetInterface i nd; (if j < length (if_addrs iface) then Some (if_addrs iface ! j) else None) }"

definition nd_update :: "nat \<Rightarrow> ipv4_interface \<Rightarrow> ipv4_node \<Rightarrow> ipv4_node" where
  "nd_update i iface nd = nd\<lparr>nd_interfaces := (nd_interfaces nd)[i := iface]\<rparr>"

definition matches_address :: "ipv4_address \<Rightarrow> interface_address \<Rightarrow> bool" where
  "matches_address address iaddr \<longleftrightarrow> address = ia_local iaddr \<or> address = ia_broadcast iaddr"

definition nd_IsDestinationAddress :: "ipv4_address \<Rightarrow> nat \<Rightarrow> ipv4_node \<Rightarrow> bool option" where
  "nd_IsDestinationAddress address iif nd = do {
     iface \<leftarrow> nd_GetInterface iif nd;
     Some (if list_ex (matches_address address) (if_addrs iface) then True
       else if IsMulticast address then True
       else if IsBroadcast address then True
       else if nd_weakEs nd
       then list_ex (\<lambda>j. j \<noteq> iif \<and> list_ex (matches_address address) (if_addrs (nd_interfaces nd ! j))) [0..<length (nd_interfaces nd)]
       else False) }"

fun source_loop :: "ipv4_address \<Rightarrow> ipv4_address \<Rightarrow> interface_address list \<Rightarrow> ipv4_address" where
  "source_loop dest candidate [] = candidate" |
  "source_loop dest candidate (test # addrs) =
     (if CombineMask (ia_local test) (ia_mask test) = CombineMask dest (ia_mask test) \<and> \<not> ia_secondary test then ia_local test
      else source_loop dest candidate addrs)"

definition nd_SourceAddressSelection :: "nat \<Rightarrow> ipv4_address \<Rightarrow> ipv4_node \<Rightarrow> ipv4_address option" where
  "nd_SourceAddressSelection i dest nd = do {
     iface \<leftarrow> nd_GetInterface i nd;
     (if length (if_addrs iface) = 1 then map_option ia_local (nd_GetAddress i 0 nd)
      else do { first \<leftarrow> nd_GetAddress i 0 nd; Some (source_loop dest (ia_local first) (if_addrs iface)) }) }"

text \<open>The addresses of the device: the one of the subnet of the destination is returned at once (\<^term>\<open>Inl\<close>), otherwise the first one
  found so far is kept (\<^term>\<open>Inr\<close>).\<close>

fun select_on_device :: "ipv4_address \<Rightarrow> address_scope \<Rightarrow> ipv4_address option \<Rightarrow> interface_address list \<Rightarrow>
    ipv4_address + ipv4_address option" where
  "select_on_device dst scope found [] = Inr found" |
  "select_on_device dst scope found (iaddr # addrs) =
     (if ia_secondary iaddr then select_on_device dst scope found addrs
      else if ia_scope iaddr > scope then select_on_device dst scope found addrs
      else if CombineMask dst (ia_mask iaddr) = CombineMask (ia_local iaddr) (ia_mask iaddr) then Inl (ia_local iaddr)
      else select_on_device dst scope (if found = None then Some (ia_local iaddr) else found) addrs)"

fun select_anywhere :: "address_scope \<Rightarrow> interface_address list \<Rightarrow> ipv4_address" where
  "select_anywhere scope [] = 0" |
  "select_anywhere scope (iaddr # addrs) =
     (if ia_secondary iaddr then select_anywhere scope addrs
      else if ia_scope iaddr \<noteq> LINK \<and> ia_scope iaddr \<le> scope then ia_local iaddr
      else select_anywhere scope addrs)"

definition nd_SelectSourceAddress :: "ptr \<Rightarrow> ipv4_address \<Rightarrow> address_scope \<Rightarrow> ipv4_node \<Rightarrow> ipv4_address option" where
  "nd_SelectSourceAddress device dst scope nd = do {
     found \<leftarrow> (if device \<noteq> nullptr then (let i = nd_GetInterfaceForDevice device nd in
         if i \<ge> 0 then map_option (\<lambda>iface. select_on_device dst scope None (if_addrs iface)) (nd_GetInterface (nat i) nd) else None)
       else Some (Inr None));
     Some (case found of Inl a \<Rightarrow> a | Inr (Some a) \<Rightarrow> a
       | Inr None \<Rightarrow> select_anywhere scope (concat (map if_addrs (nd_interfaces nd)))) }"

section \<open>Prefixes\<close>

lemma push_bit_twice: "push_bit 1 (push_bit k (m :: u32)) = push_bit (Suc k) m"
  by (simp add: push_bit_push_bit)

lemma prefix_loop_fuel: "\<exists>k \<le> fuel. push_bit k m = 0 \<Longrightarrow> \<exists>k \<le> fuel. prefix_loop fuel m tmp = Some (tmp + of_nat k)"
proof (induction fuel arbitrary: m tmp)
  case (Suc fuel)
  show ?case
  proof (cases "m = 0")
    case True
    then show ?thesis by (intro exI [of _ 0]) simp
  next
    case False
    obtain k where k: "k \<le> Suc fuel" "push_bit k m = 0" using Suc.prems by blast
    then have "push_bit (k - 1) (push_bit 1 m) = 0" using False by (cases k) (simp_all add: push_bit_push_bit)
    then obtain j where "j \<le> fuel" "prefix_loop fuel (push_bit 1 m) (tmp + 1) = Some (tmp + 1 + of_nat j)"
      using Suc.IH [of "push_bit 1 m" "tmp + 1"] k(1) by (metis diff_le_mono diff_Suc_1)
    then show ?thesis using False by (intro exI [of _ "Suc j"]) (simp add: add.assoc)
  qed
qed (auto)

lemma push_bit_out: "push_bit 32 (m :: u32) = 0"
  by (rule bit_word_eqI) (simp add: bit_simps)

lemma GetPrefixLength_le: "GetPrefixLength m \<le> 32"
proof -
  obtain k where "k \<le> 32" "prefix_loop 32 m 0 = Some (0 + of_nat k)" using prefix_loop_fuel [of 32 m 0] push_bit_out [of m] by blast
  then show ?thesis by (simp add: GetPrefixLength_def word_le_nat_alt unsigned_of_nat take_bit_nat_eq_self)
qed

lemma prefix_mask_length: "n \<le> 32 \<Longrightarrow> GetPrefixLength (if n > 0 then push_bit (32 - n) 0xffffffff else 0) = of_nat n"
proof -
  have "list_all (\<lambda>n. GetPrefixLength (if n > 0 then push_bit (32 - n) 0xffffffff else 0) = of_nat n) [0..<33]" by code_simp
  then show "n \<le> 32 \<Longrightarrow> ?thesis" by (simp add: list_all_iff)
qed

lemma prefix_mask_match:
  assumes "n \<le> 32"
  shows "IsMatch (if n > 0 then push_bit (32 - n) 0xffffffff else 0) a b \<longleftrightarrow> drop_bit (32 - n) a = drop_bit (32 - n) b"
proof -
  let ?k = "32 - n"
  let ?m = "(if n > 0 then push_bit ?k 0xffffffff else 0) :: u32"
  have ones: "(0xffffffff :: u32) = - 1" by simp
  have m: "bit ?m i \<longleftrightarrow> ?k \<le> i \<and> i < 32" for i
    unfolding ones using assms by (auto simp: bit_simps)
  show ?thesis
  proof
    assume M: "IsMatch ?m a b"
    have "bit a i = bit b i" if "?k \<le> i" for i
    proof (cases "i < 32")
      case True
      then show ?thesis using M that m [of i] unfolding IsMatch_def by (metis bit_and_iff)
    next
      case False
      then show ?thesis using bit_imp_le_length [of a i] bit_imp_le_length [of b i] by auto
    qed
    then show "drop_bit ?k a = drop_bit ?k b" by (intro bit_word_eqI) (auto simp: bit_simps)
  next
    assume D: "drop_bit ?k a = drop_bit ?k b"
    have "bit a i = bit b i" if "?k \<le> i" for i
      using arg_cong [OF D, of "\<lambda>x. bit x (i - ?k)"] that by (simp add: bit_drop_bit_eq)
    then show "IsMatch ?m a b" unfolding IsMatch_def by (intro bit_word_eqI) (auto simp: bit_and_iff m)
  qed
qed

text \<open>The masks the constructor makes from a prefix length up to 32 have that length, and two addresses match under such a
  mask exactly when they lie in the same block of addresses of that size.\<close>

theorem prefix_masks:
  assumes "n \<le> 32"
  shows "\<exists>m. mask_of_plen (of_nat n) = Some m \<and> GetPrefixLength m = of_nat n \<and>
    (\<forall>a b. IsMatch m a b \<longleftrightarrow> unat a div 2 ^ (32 - n) = unat b div 2 ^ (32 - n))"
proof -
  have u: "unat (of_nat n :: u32) = n" using assms by (simp add: unsigned_of_nat take_bit_nat_eq_self)
  have "unat (32 - of_nat n :: u32) = 32 - n" using u assms by (simp add: unat_sub word_le_nat_alt)
  moreover have "(of_nat n :: u32) \<le> 32" "(of_nat n > (0 :: u32)) \<longleftrightarrow> n > 0" using u assms by (simp_all add: word_le_nat_alt word_less_nat_alt)
  ultimately have "mask_of_plen (of_nat n) = Some (if n > 0 then push_bit (32 - n) 0xffffffff else 0)" by (simp add: mask_of_plen_def)
  moreover have "drop_bit (32 - n) a = drop_bit (32 - n) b \<longleftrightarrow> unat a div 2 ^ (32 - n) = unat b div 2 ^ (32 - n)" for a b :: u32
  proof -
    have "take_bit 32 (unat x) = unat x" for x :: u32 using unsigned_less [of x, where 'a = nat] by (simp add: take_bit_nat_eq_self)
    then show ?thesis unfolding word_unat_eq_iff unsigned_drop_bit_eq by (simp add: drop_bit_eq_div)
  qed
  ultimately show ?thesis using prefix_mask_length [OF assms] prefix_mask_match [OF assms] by blast
qed

theorem prefix_masks_witness: "\<exists>m. mask_of_plen 24 = Some m \<and> GetPrefixLength m = 24 \<and> IsMatch m 0x0a000001 0x0a0000fe"
  using prefix_masks [of 24] by auto

end
