(* ===== verification/Static_Routing.thy ===== *)
theory Static_Routing
  imports Ipv4_Interfaces
begin

text \<open>
  \<^verbatim>\<open>Ipv4StaticRouting\<close> (\<^verbatim>\<open>src/internet/model/ipv4-static-routing.cc\<close>) on the interfaces of a node, with the
  operations of \<^verbatim>\<open>Ipv4L3Protocol\<close> that notify it of interfaces and addresses.
\<close>

section \<open>Routes\<close>

record table_entry =
  te_dest :: ipv4_address
  te_mask :: ipv4_mask
  te_gateway :: ipv4_address
  te_interface :: nat

definition CreateNetworkRouteTo :: "ipv4_address \<Rightarrow> ipv4_mask \<Rightarrow> ipv4_address \<Rightarrow> nat \<Rightarrow> table_entry" where
  "CreateNetworkRouteTo network networkMask nextHop i = \<lparr>te_dest = network, te_mask = networkMask, te_gateway = nextHop, te_interface = i\<rparr>"

definition IsHost :: "table_entry \<Rightarrow> bool" where
  "IsHost r \<longleftrightarrow> te_mask r = 0xffffffff"

definition IsNetwork :: "table_entry \<Rightarrow> bool" where
  "IsNetwork r \<longleftrightarrow> \<not> IsHost r"

record mcast_entry =
  me_origin :: ipv4_address
  me_group :: ipv4_address
  me_input :: nat
  me_outputs :: "nat list"

record ipv4_route =
  rt_dest :: ipv4_address
  rt_source :: ipv4_address
  rt_gateway :: ipv4_address
  rt_device :: ptr

record mcast_route =
  mr_group :: ipv4_address
  mr_origin :: ipv4_address
  mr_parent :: nat
  mr_ttls :: "(nat \<times> nat) list"

text \<open>The node together with the routing protocol attached to it.\<close>

record ip_stack =
  st_node :: ipv4_node
  st_networkRoutes :: "(table_entry \<times> u32) list"
  st_multicastRoutes :: "mcast_entry list"

section \<open>The table\<close>

definition LookupRoute :: "table_entry \<Rightarrow> u32 \<Rightarrow> ip_stack \<Rightarrow> bool" where
  "LookupRoute route metric st \<longleftrightarrow> list_ex (\<lambda>(r, m). te_dest r = te_dest route \<and> te_mask r = te_mask route \<and>
     te_gateway r = te_gateway route \<and> te_interface r = te_interface route \<and> m = metric) (st_networkRoutes st)"

definition AddNetworkRouteTo :: "ipv4_address \<Rightarrow> ipv4_mask \<Rightarrow> ipv4_address \<Rightarrow> nat \<Rightarrow> u32 \<Rightarrow> ip_stack \<Rightarrow> ip_stack" where
  "AddNetworkRouteTo network networkMask nextHop i metric st = (let route = CreateNetworkRouteTo network networkMask nextHop i in
     if \<not> LookupRoute route metric st then st\<lparr>st_networkRoutes := st_networkRoutes st @ [(route, metric)]\<rparr> else st)"

definition AddHostRouteTo :: "ipv4_address \<Rightarrow> ipv4_address \<Rightarrow> nat \<Rightarrow> u32 \<Rightarrow> ip_stack \<Rightarrow> ip_stack" where
  "AddHostRouteTo dest nextHop i metric st = AddNetworkRouteTo dest 0xffffffff nextHop i metric st"

definition SetDefaultRoute :: "ipv4_address \<Rightarrow> nat \<Rightarrow> u32 \<Rightarrow> ip_stack \<Rightarrow> ip_stack" where
  "SetDefaultRoute nextHop i metric st = AddNetworkRouteTo 0 0 nextHop i metric st"

definition SetDefaultMulticastRoute :: "nat \<Rightarrow> ip_stack \<Rightarrow> ip_stack" where
  "SetDefaultMulticastRoute outputInterface st =
     st\<lparr>st_networkRoutes := st_networkRoutes st @ [(CreateNetworkRouteTo 0xe0000000 0xf0000000 0 outputInterface, 0)]\<rparr>"

definition AddMulticastRoute :: "ipv4_address \<Rightarrow> ipv4_address \<Rightarrow> nat \<Rightarrow> nat list \<Rightarrow> ip_stack \<Rightarrow> ip_stack" where
  "AddMulticastRoute origin grp inputInterface outputInterfaces st = st\<lparr>st_multicastRoutes := st_multicastRoutes st @
     [\<lparr>me_origin = origin, me_group = grp, me_input = inputInterface, me_outputs = outputInterfaces\<rparr>]\<rparr>"

fun remove_mcast :: "ipv4_address \<Rightarrow> ipv4_address \<Rightarrow> nat \<Rightarrow> mcast_entry list \<Rightarrow> mcast_entry list option" where
  "remove_mcast origin grp i [] = None" |
  "remove_mcast origin grp i (route # routes) =
     (if origin = me_origin route \<and> grp = me_group route \<and> i = me_input route then Some routes
      else map_option ((#) route) (remove_mcast origin grp i routes))"

definition RemoveMulticastRoute :: "ipv4_address \<Rightarrow> ipv4_address \<Rightarrow> nat \<Rightarrow> ip_stack \<Rightarrow> bool \<times> ip_stack" where
  "RemoveMulticastRoute origin grp i st = (case remove_mcast origin grp i (st_multicastRoutes st) of
     Some routes \<Rightarrow> (True, st\<lparr>st_multicastRoutes := routes\<rparr>) | None \<Rightarrow> (False, st))"

definition RemoveMulticastRoute_at :: "nat \<Rightarrow> ip_stack \<Rightarrow> ip_stack" where
  "RemoveMulticastRoute_at index st =
     st\<lparr>st_multicastRoutes := take index (st_multicastRoutes st) @ drop (Suc index) (st_multicastRoutes st)\<rparr>"

definition GetMulticastRoute :: "nat \<Rightarrow> ip_stack \<Rightarrow> mcast_entry option" where
  "GetMulticastRoute index st = (if index < length (st_multicastRoutes st) then Some (st_multicastRoutes st ! index) else None)"

definition GetRoute :: "nat \<Rightarrow> ip_stack \<Rightarrow> table_entry option" where
  "GetRoute index st = (if index < length (st_networkRoutes st) then Some (fst (st_networkRoutes st ! index)) else None)"

definition GetMetric :: "nat \<Rightarrow> ip_stack \<Rightarrow> u32 option" where
  "GetMetric index st = (if index < length (st_networkRoutes st) then Some (snd (st_networkRoutes st ! index)) else None)"

definition RemoveRoute :: "nat \<Rightarrow> ip_stack \<Rightarrow> ip_stack option" where
  "RemoveRoute index st = (if index < length (st_networkRoutes st)
     then Some (st\<lparr>st_networkRoutes := take index (st_networkRoutes st) @ drop (Suc index) (st_networkRoutes st)\<rparr>) else None)"

fun default_loop :: "u32 \<Rightarrow> table_entry option \<Rightarrow> (table_entry \<times> u32) list \<Rightarrow> table_entry option" where
  "default_loop shortest_metric result [] = result" |
  "default_loop shortest_metric result ((j, metric) # routes) =
     (if GetPrefixLength (te_mask j) \<noteq> 0 then default_loop shortest_metric result routes
      else if metric > shortest_metric then default_loop shortest_metric result routes
      else default_loop metric (Some j) routes)"

definition GetDefaultRoute :: "ip_stack \<Rightarrow> table_entry option" where
  "GetDefaultRoute st = default_loop 0xffffffff None (st_networkRoutes st)"

section \<open>Looking up a route\<close>

text \<open>A null pointer to a device is the device \<^term>\<open>0\<close>.\<close>

fun lookup_loop :: "ipv4_address \<Rightarrow> ptr \<Rightarrow> ipv4_node \<Rightarrow> ipv4_route option \<Rightarrow> u16 \<Rightarrow> u32 \<Rightarrow> (table_entry \<times> u32) list \<Rightarrow>
    ipv4_route option option" where
  "lookup_loop dest oif nd rtentry longest_mask shortest_metric [] = Some rtentry" |
  "lookup_loop dest oif nd rtentry longest_mask shortest_metric ((j, metric) # routes) =
     (let masklen = GetPrefixLength (te_mask j) in
      if IsMatch (te_mask j) dest (te_dest j) then do {
        skip \<leftarrow> (if oif \<noteq> nullptr then map_option (\<lambda>d. oif \<noteq> d) (nd_GetNetDevice (te_interface j) nd) else Some False);
        (if skip then lookup_loop dest oif nd rtentry longest_mask shortest_metric routes
         else if masklen < longest_mask then lookup_loop dest oif nd rtentry longest_mask shortest_metric routes
         else let shortest1 = (if masklen > longest_mask then 0xffffffff else shortest_metric) in
           if metric > shortest1 then lookup_loop dest oif nd rtentry masklen shortest1 routes
           else do {
             source \<leftarrow> nd_SourceAddressSelection (te_interface j) (te_dest j) nd;
             device \<leftarrow> nd_GetNetDevice (te_interface j) nd;
             let rt = \<lparr>rt_dest = te_dest j, rt_source = source, rt_gateway = te_gateway j, rt_device = device\<rparr>;
             (if masklen = 32 then Some (Some rt) else lookup_loop dest oif nd (Some rt) masklen metric routes) }) }
      else lookup_loop dest oif nd rtentry longest_mask shortest_metric routes)"

definition LookupStatic :: "ipv4_address \<Rightarrow> ptr \<Rightarrow> ip_stack \<Rightarrow> ipv4_route option option" where
  "LookupStatic dest oif st = (if IsLocalMulticast dest
     then (if oif = nullptr then None else do {
       let i = nd_GetInterfaceForDevice oif (st_node st);
       first \<leftarrow> (if i \<ge> 0 then nd_GetAddress (nat i) 0 (st_node st) else None);
       Some (Some \<lparr>rt_dest = dest, rt_source = ia_local first, rt_gateway = 0, rt_device = oif\<rparr>) })
     else lookup_loop dest oif (st_node st) None 0 0xffffffff (st_networkRoutes st))"

definition MAX_TTL :: nat where
  "MAX_TTL = 255"

fun LookupStatic_multicast :: "ipv4_address \<Rightarrow> ipv4_address \<Rightarrow> nat \<Rightarrow> mcast_entry list \<Rightarrow> mcast_route option" where
  "LookupStatic_multicast origin grp i [] = None" |
  "LookupStatic_multicast origin grp i (route # routes) =
     (if grp = me_group route \<and> (i = 2 ^ 32 - 1 \<or> i = me_input route)
      then Some \<lparr>mr_group = me_group route, mr_origin = me_origin route, mr_parent = me_input route,
        mr_ttls = map (\<lambda>j. (j, MAX_TTL - 1)) (sort (remdups (filter (\<lambda>j. j \<noteq> 0) (me_outputs route))))\<rparr>
      else LookupStatic_multicast origin grp i routes)"

section \<open>Routing packets\<close>

datatype sockerr = ERROR_NOTERROR | ERROR_NOROUTETOHOST

definition RouteOutput :: "ipv4_address \<Rightarrow> ptr \<Rightarrow> ip_stack \<Rightarrow> (ipv4_route option \<times> sockerr) option" where
  "RouteOutput destination oif st = do {
     rtentry \<leftarrow> LookupStatic destination oif st;
     Some (rtentry, if rtentry \<noteq> None then ERROR_NOTERROR else ERROR_NOROUTETOHOST) }"

text \<open>What \<^verbatim>\<open>RouteInput\<close> does with a packet: which callback it calls, if any, and what it returns.\<close>

datatype verdict = Forward ipv4_route | Forward_Multicast mcast_route | Deliver nat | Error_Callback sockerr | Not_Handled

definition RouteInput :: "ipv4_address \<Rightarrow> ipv4_address \<Rightarrow> ptr \<Rightarrow> bool \<Rightarrow> ip_stack \<Rightarrow> verdict option" where
  "RouteInput source destination idev lcb st = (let i = nd_GetInterfaceForDevice idev (st_node st) in
     if i < 0 then None
     else if IsMulticast destination
     then Some (case LookupStatic_multicast source destination (nat i) (st_multicastRoutes st) of
       Some r \<Rightarrow> Forward_Multicast r | None \<Rightarrow> Not_Handled)
     else do {
       here \<leftarrow> nd_IsDestinationAddress destination (nat i) (st_node st);
       iface \<leftarrow> nd_GetInterface (nat i) (st_node st);
       (if here then Some (if lcb then Deliver (nat i) else Not_Handled)
        else if \<not> if_forwarding iface then Some (Error_Callback ERROR_NOROUTETOHOST)
        else do {
          rtentry \<leftarrow> LookupStatic destination nullptr st;
          Some (case rtentry of Some r \<Rightarrow> Forward r | None \<Rightarrow> Not_Handled) }) })"

section \<open>Notifications\<close>

fun interface_routes :: "nat \<Rightarrow> interface_address list \<Rightarrow> ip_stack \<Rightarrow> ip_stack" where
  "interface_routes i [] st = st" |
  "interface_routes i (a # addrs) st = interface_routes i addrs
     (if ia_local a \<noteq> UNINITIALIZED \<and> ia_mask a \<noteq> UNINITIALIZED \<and> ia_mask a \<noteq> 0xffffffff
      then AddNetworkRouteTo (CombineMask (ia_local a) (ia_mask a)) (ia_mask a) 0 i 0 st else st)"

definition NotifyInterfaceUp :: "nat \<Rightarrow> ip_stack \<Rightarrow> ip_stack option" where
  "NotifyInterfaceUp i st = do { iface \<leftarrow> nd_GetInterface i (st_node st); Some (interface_routes i (if_addrs iface) st) }"

definition NotifyInterfaceDown :: "nat \<Rightarrow> ip_stack \<Rightarrow> ip_stack" where
  "NotifyInterfaceDown i st = st\<lparr>st_networkRoutes := filter (\<lambda>(r, m). te_interface r \<noteq> i) (st_networkRoutes st)\<rparr>"

definition NotifyAddAddress :: "nat \<Rightarrow> interface_address \<Rightarrow> ip_stack \<Rightarrow> ip_stack option" where
  "NotifyAddAddress i a st = do {
     iface \<leftarrow> nd_GetInterface i (st_node st);
     Some (if \<not> if_up iface then st
       else if ia_local a \<noteq> UNINITIALIZED \<and> ia_mask a \<noteq> UNINITIALIZED
       then AddNetworkRouteTo (CombineMask (ia_local a) (ia_mask a)) (ia_mask a) 0 i 0 st else st) }"

definition NotifyRemoveAddress :: "nat \<Rightarrow> interface_address \<Rightarrow> ip_stack \<Rightarrow> ip_stack option" where
  "NotifyRemoveAddress i a st = do {
     iface \<leftarrow> nd_GetInterface i (st_node st);
     Some (if \<not> if_up iface then st
       else st\<lparr>st_networkRoutes := filter (\<lambda>(r, m). \<not> (te_interface r = i \<and> IsNetwork r \<and>
         te_dest r = CombineMask (ia_local a) (ia_mask a) \<and> te_mask r = ia_mask a)) (st_networkRoutes st)\<rparr>) }"

section \<open>The node's operations\<close>

definition st_AddInterface :: "ptr \<Rightarrow> ip_stack \<Rightarrow> nat \<times> ip_stack" where
  "st_AddInterface device st = (let iface = (Ipv4Interface device)\<lparr>if_forwarding := nd_ipForward (st_node st)\<rparr>;
       (i, nd) = nd_AddIpv4Interface iface (st_node st) in
     (i, st\<lparr>st_node := nd\<rparr>))"

definition st_update :: "nat \<Rightarrow> ipv4_interface \<Rightarrow> ip_stack \<Rightarrow> ip_stack" where
  "st_update i iface st = st\<lparr>st_node := nd_update i iface (st_node st)\<rparr>"

definition st_AddAddress :: "nat \<Rightarrow> interface_address \<Rightarrow> ip_stack \<Rightarrow> ip_stack option" where
  "st_AddAddress i a st = do {
     iface \<leftarrow> nd_GetInterface i (st_node st);
     NotifyAddAddress i a (st_update i (iface\<lparr>if_addrs := if_addrs iface @ [a]\<rparr>) st) }"

definition st_RemoveAddress :: "nat \<Rightarrow> ipv4_address \<Rightarrow> ip_stack \<Rightarrow> (bool \<times> ip_stack) option" where
  "st_RemoveAddress i address st = (if address = 0x7f000001 then Some (False, st) else do {
     iface \<leftarrow> nd_GetInterface i (st_node st);
     let (a, iface1) = if_RemoveAddress address iface;
     let st1 = st_update i iface1 st;
     (if a \<noteq> no_interface_address then map_option (\<lambda>st2. (True, st2)) (NotifyRemoveAddress i a st1) else Some (False, st1)) })"

definition st_RemoveAddress_at :: "nat \<Rightarrow> nat \<Rightarrow> ip_stack \<Rightarrow> (bool \<times> ip_stack) option" where
  "st_RemoveAddress_at i index st = do {
     iface \<leftarrow> nd_GetInterface i (st_node st);
     (a, iface1) \<leftarrow> if_RemoveAddress_at index iface;
     let st1 = st_update i iface1 st;
     (if a \<noteq> no_interface_address then map_option (\<lambda>st2. (True, st2)) (NotifyRemoveAddress i a st1) else Some (False, st1)) }"

text \<open>The MTU of a device is a function of the device.\<close>

definition st_SetUp :: "(ptr \<Rightarrow> u16) \<Rightarrow> nat \<Rightarrow> ip_stack \<Rightarrow> ip_stack option" where
  "st_SetUp mtu i st = do {
     iface \<leftarrow> nd_GetInterface i (st_node st);
     (if mtu (if_device iface) \<ge> 68 then NotifyInterfaceUp i (st_update i (iface\<lparr>if_up := True\<rparr>) st) else Some st) }"

definition st_SetDown :: "nat \<Rightarrow> ip_stack \<Rightarrow> ip_stack option" where
  "st_SetDown i st = do {
     iface \<leftarrow> nd_GetInterface i (st_node st);
     Some (NotifyInterfaceDown i (st_update i (iface\<lparr>if_up := False\<rparr>) st)) }"

definition st_SetForwarding :: "nat \<Rightarrow> bool \<Rightarrow> ip_stack \<Rightarrow> ip_stack option" where
  "st_SetForwarding i val st = do {
     iface \<leftarrow> nd_GetInterface i (st_node st);
     Some (st_update i (iface\<lparr>if_forwarding := val\<rparr>) st) }"

definition st_SetIpForward :: "bool \<Rightarrow> ip_stack \<Rightarrow> ip_stack" where
  "st_SetIpForward forward st = st\<lparr>st_node := (st_node st)\<lparr>nd_ipForward := forward,
     nd_interfaces := map (\<lambda>iface. iface\<lparr>if_forwarding := forward\<rparr>) (nd_interfaces (st_node st))\<rparr>\<rparr>"

definition empty_stack :: "bool \<Rightarrow> ip_stack" where
  "empty_stack weakEs = \<lparr>st_node = \<lparr>nd_interfaces = [], nd_reverse = [], nd_weakEs = weakEs, nd_ipForward = True\<rparr>, st_networkRoutes = [], st_multicastRoutes = []\<rparr>"

text \<open>Attaching the protocol to a node that has interfaces.\<close>

fun notify_all :: "nat list \<Rightarrow> ip_stack \<Rightarrow> ip_stack option" where
  "notify_all [] st = Some st" |
  "notify_all (i # js) st = do {
     iface \<leftarrow> nd_GetInterface i (st_node st);
     st1 \<leftarrow> (if if_up iface then NotifyInterfaceUp i st else Some (NotifyInterfaceDown i st));
     notify_all js st1 }"

definition SetIpv4 :: "ip_stack \<Rightarrow> ip_stack option" where
  "SetIpv4 st = notify_all [0..<length (nd_interfaces (st_node st))] st"

end
