(* ===== verification/Ip_Checksum.thy ===== *)
theory Ip_Checksum
  imports Packet_Properties
begin

unbundle bit_operations_syntax

text \<open>
  The Internet checksum of \<^verbatim>\<open>Buffer::Iterator::CalculateIpChecksum\<close>: the loop that folds the carries ends, the
  result is the complement of the sum modulo 65535, and a block of bytes that carries its checksum
  has checksum zero.
\<close>

section \<open>Folding the carries\<close>

lemma unat_fold_step:
  fixes w :: u32
  shows "unat ((w AND 0xffff) + drop_bit 16 w) = unat w mod 65536 + unat w div 65536"
proof -
  have m: "(0xffff :: u32) = mask 16" by (simp add: mask_eq_exp_minus_1)
  have a: "unat (w AND 0xffff) = unat w mod 65536"
    unfolding m take_bit_eq_mask [symmetric] by (simp add: take_bit_eq_mod unat_mod)
  have d: "unat (drop_bit 16 w) = unat w div 65536"
    by (simp add: drop_bit_eq_div unat_div)
  have "unat w < 4294967296" using unsigned_less [of w] by simp
  then have "unat w mod 65536 + unat w div 65536 < 2 ^ 32" by simp
  then show ?thesis by (simp add: unat_word_ariths a d)
qed

lemma fold_arith:
  fixes n q r :: nat
  assumes "n = q * 65536 + r" and "0 < q"
  shows "r + q < n" "n mod 65535 = (r + q) mod 65535"
proof -
  have "n = (r + q) + 65535 * q" using assms by simp
  then show "n mod 65535 = (r + q) mod 65535" by (metis mod_mult_self2)
qed (use assms in simp)

lemma fold_carries_ok:
  "\<exists>r. fold_carries w = Some r \<and> unat r < 65536 \<and> unat r mod 65535 = unat w mod 65535 \<and> (unat r = 0 \<longleftrightarrow> unat w = 0)"
proof (induction "unat w" arbitrary: w rule: less_induct)
  case less
  have d: "drop_bit 16 w = 0 \<longleftrightarrow> unat w div 65536 = 0"
  proof -
    have "unat (drop_bit 16 w) = unat w div 65536" by (simp add: drop_bit_eq_div unat_div)
    then show ?thesis by (metis unsigned_eq_0_iff)
  qed
  show ?case
  proof (cases "drop_bit 16 w = 0")
    case True
    then have "unat w < 65536" using d by (simp add: div_eq_0_iff)
    then show ?thesis using True by (subst fold_carries.simps) simp
  next
    case False
    let ?w = "(w AND 0xffff) + drop_bit 16 w"
    have q: "0 < unat w div 65536" using False d by simp
    have s: "unat ?w = unat w mod 65536 + unat w div 65536" by (rule unat_fold_step)
    have e: "unat w = unat w div 65536 * 65536 + unat w mod 65536" by simp
    note arith = fold_arith [OF e q, folded s]
    note lt = arith(1)
    obtain r where r: "fold_carries ?w = Some r \<and> unat r < 65536 \<and> unat r mod 65535 = unat ?w mod 65535 \<and>
      (unat r = 0 \<longleftrightarrow> unat ?w = 0)" using less [OF lt] ..
    have "unat w mod 65535 = unat ?w mod 65535" by (rule arith(2))
    moreover have "unat w \<noteq> 0" using q by (metis div_0 less_numeral_extra(3))
    moreover have "unat ?w \<noteq> 0" unfolding s using q by simp
    moreover have "fold_carries w = Some r" using False conjunct1 [OF r] by (subst fold_carries.simps) simp
    ultimately show ?thesis using r by metis
  qed
qed

lemma fold_carries_SomeD:
  assumes "fold_carries w = Some r"
  shows "unat r < 65536" "unat r mod 65535 = unat w mod 65535" "unat r = 0 \<longleftrightarrow> unat w = 0"
proof -
  obtain q where q: "fold_carries w = Some q \<and> unat q < 65536 \<and> unat q mod 65535 = unat w mod 65535 \<and>
    (unat q = 0 \<longleftrightarrow> unat w = 0)" using fold_carries_ok [of w] ..
  have "q = r" using assms conjunct1 [OF q] by (simp only: option.inject)
  then show "unat r < 65536" "unat r mod 65535 = unat w mod 65535" "unat r = 0 \<longleftrightarrow> unat w = 0"
    using q by blast+
qed

section \<open>The sum\<close>

text \<open>The 16-bit words \<^verbatim>\<open>ReadU16\<close> reads, the first byte the low one.\<close>

fun words16 :: "u8 list \<Rightarrow> u16 list" where
  "words16 (x # y # bs) = word_of_msb [y, x] # words16 bs"
| "words16 [x] = [ucast x]"
| "words16 [] = []"

definition word_total :: "u8 list \<Rightarrow> nat" where
  "word_total bs = sum_list (map unat (words16 bs))"

lemma unat_ucast_byte [simp]: "unat (ucast (x :: u8) :: u16) = unat x" "unat (ucast (x :: u8) :: u32) = unat x"
  using unsigned_less [of x, where 'a = nat] by (simp_all add: unsigned_ucast_eq take_bit_nat_eq_self)

lemma unat_bounds: "unat (w :: u16) \<le> 65535" "unat (x :: u8) \<le> 255"
  using unsigned_less [of w, where 'a = nat] unsigned_less [of x, where 'a = nat] by simp_all

lemma word_total_simps [simp]:
  "word_total [] = 0" "word_total [x] = unat x" "word_total (x # y # bs) = unat (word_of_msb [y, x] :: u16) + word_total bs"
  by (simp_all add: word_total_def)

lemma word_total_append: "even (length xs) \<Longrightarrow> word_total (xs @ ys) = word_total xs + word_total ys"
  by (induction xs rule: words16.induct) simp_all

lemma word_total_bound: "word_total bs \<le> 65535 * ((length bs + 1) div 2)"
proof (induction bs rule: words16.induct)
  case (1 x y bs)
  show ?case using 1 unat_bounds(1) [of "word_of_msb [y, x]"] by simp
next
  case (2 x)
  show ?case using unat_bounds(2) [of x] by simp
qed simp

lemma sum_words_ok:
  assumes H: "heap_ok h (add_mset b B)"
  shows "k + 2 * n \<le> GetSize b \<Longrightarrow>
    sum_words n acc (at b k) h = Some (acc + of_nat (word_total (take (2 * n) (drop k (content h b)))), at b (k + 2 * n))"
proof (induction n arbitrary: acc k)
  case (Suc n)
  have l: "length (content h b) = GetSize b" by (rule content_length [OF H])
  then obtain x y r where d: "drop k (content h b) = x # y # r"
    using Suc.prems by (cases "drop k (content h b)"; cases "tl (drop k (content h b))") (auto dest: arg_cong [where f = length])
  have r: "drop (k + 2) (content h b) = r" using arg_cong [OF d, of "drop 2"] by (simp add: add.commute)
  have "It_ReadU16 (at b k) h = Some (word_of_msb [y, x], at b (k + 2))"
    using It_ReadNtoh_at(4) [OF H, of k] Suc.prems d by (simp add: numeral_2_eq_2)
  moreover have "(ucast (w :: u16) :: u32) = of_nat (unat w)" for w by (simp add: unsigned_of_nat unsigned_word_eqI)
  ultimately show ?case using Suc.IH [of "k + 2"] Suc.prems d r by (simp add: algebra_simps)
qed simp

section \<open>The checksum\<close>

lemma CalculateIpChecksum_sum:
  assumes H: "heap_ok h (add_mset b B)" and n: "k + unat sz \<le> GetSize b"
    and s: "unat acc + word_total (take (unat sz) (drop k (content h b))) < 2 ^ 32"
  obtains c s3 where "CalculateIpChecksum sz acc (at b k) h = Some (NOT (ucast s3), at b (k + unat sz))"
    "fold_carries (of_nat (unat acc + word_total (take (unat sz) (drop k (content h b))))) = Some s3"
proof -
  let ?n = "unat sz" and ?c = "drop k (content h b)"
  let ?m = "?n div 2"
  have m: "sum_words ?m acc (at b k) h = Some (acc + of_nat (word_total (take (2 * ?m) ?c)), at b (k + 2 * ?m))"
    by (rule sum_words_ok [OF H]) (use n in linarith)
  let ?s2 = "of_nat (unat acc + word_total (take ?n ?c)) :: u32"
  have st: "(if odd ?n then map_option (\<lambda>(x, i2). (acc + of_nat (word_total (take (2 * ?m) ?c)) + ucast x, i2)) (It_ReadU8 (at b (k + 2 * ?m)) h)
      else Some (acc + of_nat (word_total (take (2 * ?m) ?c)), at b (k + 2 * ?m))) = Some (?s2, at b (k + ?n))"
  proof (cases "odd ?n")
    case False
    then show ?thesis by (simp add: unsigned_of_nat)
  next
    case True
    then have e: "?n = Suc (2 * ?m)" by simp
    have l: "2 * ?m < length ?c" using content_length [OF H] n e by simp
    have "take ?n ?c = take (2 * ?m) ?c @ [?c ! (2 * ?m)]"
      by (subst e) (rule take_Suc_conv_app_nth [OF l])
    then have "word_total (take ?n ?c) = word_total (take (2 * ?m) ?c) + unat (?c ! (2 * ?m))"
      using l by (simp add: word_total_append min_def)
    moreover have "(ucast (x :: u8) :: u32) = of_nat (unat x)" for x by (rule unsigned_word_eqI [where 'a = nat]) (simp add: unsigned_of_nat take_bit_nat_eq_self)
    moreover have "It_ReadU8 (at b (k + 2 * ?m)) h = Some (?c ! (2 * ?m), at b (k + ?n))"
    proof -
      have "k + 2 * ?m < GetSize b" "Suc (k + 2 * ?m) = k + ?n" using n e by linarith+
      moreover have "content h b ! (k + 2 * ?m) = ?c ! (2 * ?m)" using l by (simp add: nth_drop)
      ultimately show ?thesis by (simp add: It_ReadU8_at [OF H])
    qed
    ultimately show ?thesis using True by simp
  qed
  obtain s3 where f: "fold_carries ?s2 = Some s3" using fold_carries_ok by metis
  have "CalculateIpChecksum sz acc (at b k) h = Some (NOT (ucast s3), at b (k + ?n))"
    unfolding CalculateIpChecksum_def using m st f by simp
  then show ?thesis using that f by blast
qed

lemma NOT_u16: "unat (NOT (x :: u16)) = 65535 - unat x"
proof -
  have "NOT x = - 1 - x" by (simp add: not_eq_complement)
  moreover have "unat (- 1 - x :: u16) = unat (- 1 :: u16) - unat x"
    by (rule unat_sub) simp
  ultimately show ?thesis by (simp add: unat_minus_one_word)
qed

lemma complement_arith:
  fixes r S c :: nat
  assumes "r < 65536" and "r mod 65535 = S mod 65535" and "c = 65535 - r"
  shows "(S + c) mod 65535 = 0"
proof -
  have "(S + c) mod 65535 = (r + c) mod 65535" using assms(2) by (metis mod_add_left_eq)
  moreover have "r + c = 65535" using assms by simp
  ultimately show ?thesis by simp
qed

lemma checksum_value:
  assumes H: "heap_ok h (add_mset b B)" and n: "k + unat sz \<le> GetSize b"
    and s: "S = unat acc + word_total (take (unat sz) (drop k (content h b)))" "S < 2 ^ 32"
  obtains c where "CalculateIpChecksum sz acc (at b k) h = Some (c, at b (k + unat sz))" "(S + unat c) mod 65535 = 0"
    "unat c = 65535 \<longleftrightarrow> S = 0"
proof -
  obtain s3 where c: "CalculateIpChecksum sz acc (at b k) h = Some (NOT (ucast s3), at b (k + unat sz))"
    "fold_carries (of_nat S) = Some s3"
    using CalculateIpChecksum_sum [OF H n] s by metis
  have S: "unat (of_nat S :: u32) = S" using s(2) by (simp add: unsigned_of_nat take_bit_nat_eq_self)
  note f = fold_carries_SomeD [OF c(2), unfolded S]
  have u: "unat (ucast s3 :: u16) = unat s3" using f(1) by (simp add: unsigned_ucast_eq take_bit_nat_eq_self)
  let ?c = "NOT (ucast s3 :: u16)"
  have v: "unat ?c = 65535 - unat s3" using NOT_u16 u by simp
  have "unat ?c = 65535 \<longleftrightarrow> S = 0" using v f(1,3) by auto
  then show ?thesis by (rule that [OF c(1) complement_arith [OF f(1,2) v]])
qed


lemma dvd_sums:
  fixes a f :: nat
  assumes "a mod 65535 = 0" and "(a + f) mod 65535 = 0" and "f \<le> 65535" and "f \<noteq> 65535"
  shows "f = 0"
proof -
  have "f mod 65535 = 0" using assms(1,2) by (metis add_0 mod_add_left_eq)
  moreover have "f < 65535" using assms(3,4) by simp
  ultimately show ?thesis by simp
qed


text \<open>Verification: when the checksum computed over bytes with a zero 16-bit field at an even offset is stored in that field, as
  \<^verbatim>\<open>WriteU16\<close> does, the checksum over the result is zero, in the same or any other buffer.\<close>

theorem stored_checksum_verifies:
  assumes H: "heap_ok h (add_mset b B)" and c: "content h b = xs @ [0, 0] @ ys" and e: "even (length xs)"
    and n: "unat sz = length xs + 2 + length ys" and r: "CalculateIpChecksum sz 0 (It_Begin b) h = Some (chk, i)"
    and H': "heap_ok h' (add_mset b' B')" and c': "content h' b' = xs @ [ucast chk, ucast (drop_bit 8 chk)] @ ys"
  shows "CalculateIpChecksum sz 0 (It_Begin b') h' = Some (0, at b' (unat sz))"
proof -
  have sz: "unat sz \<le> GetSize b" "unat sz \<le> GetSize b'"
    using content_length [OF H] content_length [OF H'] c c' n by simp_all
  have t: "take (unat sz) (drop 0 (content h b)) = xs @ [0, 0] @ ys"
    "take (unat sz) (drop 0 (content h' b')) = xs @ [ucast chk, ucast (drop_bit 8 chk)] @ ys"
    using c c' n by simp_all
  define S where "S = word_total (xs @ [0, 0] @ ys)"
  have w: "word_total ([0, 0] @ ys) = word_total ys"
    "word_total ([ucast chk, ucast (drop_bit 8 chk)] @ ys) = unat chk + word_total ys"
    by (simp_all add: msb_bytes(1)) (simp add: word_of_msb_def)
  have S': "word_total (xs @ [ucast chk, ucast (drop_bit 8 chk)] @ ys) = S + unat chk"
    using word_total_append [OF e] w by (simp add: S_def)
  have l: "length (xs @ [0 :: u8, 0] @ ys) \<le> 65535" using n unat_bounds(1) [of sz] by simp
  have "S \<le> 65535 * ((length (xs @ [0 :: u8, 0] @ ys) + 1) div 2)" unfolding S_def by (rule word_total_bound)
  also have "\<dots> \<le> 65535 * 32768" using l by (intro mult_le_mono2) linarith
  finally have b: "S \<le> 2147450880" by simp
  have b1: "S < 2 ^ 32" "S + unat chk < 2 ^ 32" using b unat_bounds(1) [of chk] by simp_all
  have z: "0 + unat sz \<le> GetSize b" "0 + unat sz \<le> GetSize b'" using sz by simp_all
  obtain d where d: "CalculateIpChecksum sz 0 (at b 0) h = Some (d, at b (0 + unat sz))" "(S + unat d) mod 65535 = 0"
    "unat d = 65535 \<longleftrightarrow> S = 0"
    by (rule checksum_value [where acc = 0, OF H z(1) _ b1(1)]) (use t(1) S_def that in simp_all)
  have dc: "d = chk" using d(1) r by simp
  obtain f where f: "CalculateIpChecksum sz 0 (at b' 0) h' = Some (f, at b' (0 + unat sz))"
    "(S + unat chk + unat f) mod 65535 = 0" "unat f = 65535 \<longleftrightarrow> S + unat chk = 0"
    by (rule checksum_value [where acc = 0, OF H' z(2) _ b1(2)]) (use t(2) S' that in simp_all)
  have nz: "S + unat chk \<noteq> 0" using d(3) dc by auto
  have "unat f = 0"
    using dvd_sums [of "S + unat chk" "unat f"] d(2) f(2,3) nz unat_bounds(1) [of f] dc by simp
  then have "f = 0" by (simp add: unsigned_eq_0_iff)
  then show ?thesis using f(1) by simp
qed

text \<open>A buffer of four bytes: a 16-bit word and the field of the checksum, before and after the checksum is stored.\<close>

definition word_heap :: "u8 list \<Rightarrow> bheap" where
  "word_heap bs = \<lparr>bh_data = [0 \<mapsto> \<lparr>bd_count = 1, bd_size = 4, bd_dirtyStart = 0, bd_dirtyEnd = 4, bd_bytes = bs\<rparr>],
     bh_free = [], bh_next = 1, bh_junk = (\<lambda>_ _. 0), g_maxSize = 0, g_recommendedStart = 0\<rparr>"

definition word_buffer :: buffer where
  "word_buffer = \<lparr>b_data = 0, b_maxZeroAreaStart = 0, b_zeroAreaStart = 0, b_zeroAreaEnd = 0, b_start = 0, b_end = 4\<rparr>"

lemma word_heap_ok: "length bs = 4 \<Longrightarrow> heap_ok (word_heap bs) (add_mset word_buffer {#})"
  by (auto simp: heap_ok_def refs_ok_def share_ok_def block_def offs_ok_def zlen_def word_heap_def word_buffer_def)

lemma word_heap_content: "length bs = 4 \<Longrightarrow> content (word_heap bs) word_buffer = bs"
  by (simp add: content_def block_def view_def zlen_def word_heap_def word_buffer_def)

lemma word_heap_checksum:
  "CalculateIpChecksum 4 0 (It_Begin word_buffer) (word_heap [1, 2, 0, 0]) = Some (0xFDFE, at word_buffer 4)"
proof -
  have c: "content (word_heap [1, 2, 0, 0]) word_buffer = [1, 2, 0, 0]" by (simp add: word_heap_content)
  have g: "GetSize word_buffer = 4" by (simp add: GetSize_def word_buffer_def)
  have t: "unat (0 :: u32) + word_total (take (unat (4 :: u16)) (drop 0 (content (word_heap [1, 2, 0, 0]) word_buffer))) = 513"
    by (simp add: c word_of_msb_def)
  obtain s3 where s3: "CalculateIpChecksum 4 0 (at word_buffer 0) (word_heap [1, 2, 0, 0]) =
      Some (NOT (ucast s3), at word_buffer (0 + unat (4 :: u16)))" "fold_carries (of_nat 513) = Some s3"
    by (rule CalculateIpChecksum_sum [where acc = 0 and sz = 4, OF word_heap_ok, of "[1, 2, 0, 0]" 0])
      (use t g that in simp_all)
  have "s3 = 513" using s3(2) by (simp add: fold_carries.simps [of 513] drop_bit_eq_div)
  then show ?thesis using s3(1) by simp
qed

theorem stored_checksum_verifies_witness:
  "CalculateIpChecksum 4 0 (It_Begin word_buffer) (word_heap [1, 2, 254, 253]) = Some (0, at word_buffer 4)"
  using stored_checksum_verifies [OF word_heap_ok, of "[1, 2, 0, 0]" "[1, 2]" "[]" 4, OF _ _ _ _ word_heap_checksum,
      OF _ _ _ _ word_heap_ok, of "[1, 2, 254, 253]"]
  by (simp add: word_heap_content)

end
