(* ===== verification/Ip_Header.thy ===== *)
theory Ip_Header
  imports Ip_Checksum
begin

unbundle bit_operations_syntax

text \<open>
  The IPv4 header (\<^verbatim>\<open>src/internet/model/ipv4-header.cc\<close>): its fields, the accessors with their bit fields,
  serialization into a packet with the header checksum, and deserialization, on the buffers and iterators of the
  packet model. A header that is written is read back, and a corrupted byte is noticed.
\<close>

section \<open>Fields and accessors\<close>

record ipv4_header =
  ih_calcChecksum :: bool
  ih_payloadSize :: u16
  ih_identification :: u16
  ih_tos :: u8
  ih_ttl :: u8
  ih_protocol :: u8
  ih_flags :: "3 word"
  ih_fragmentOffset :: u16
  ih_source :: u32
  ih_destination :: u32
  ih_checksum :: u16
  ih_goodChecksum :: bool
  ih_headerSize :: u16

abbreviation DONT_FRAGMENT :: "3 word" where "DONT_FRAGMENT \<equiv> 1"
abbreviation MORE_FRAGMENTS :: "3 word" where "MORE_FRAGMENTS \<equiv> 2"

definition Ipv4Header :: ipv4_header where
  "Ipv4Header = \<lparr>ih_calcChecksum = False, ih_payloadSize = 0, ih_identification = 0, ih_tos = 0, ih_ttl = 0, ih_protocol = 0,
     ih_flags = 0, ih_fragmentOffset = 0, ih_source = 0x66666666, ih_destination = 0x66666666, ih_checksum = 0,
     ih_goodChecksum = True, ih_headerSize = 20\<rparr>"

definition EnableChecksum :: "ipv4_header \<Rightarrow> ipv4_header" where
  "EnableChecksum hdr = hdr\<lparr>ih_calcChecksum := True\<rparr>"

definition SetPayloadSize :: "u16 \<Rightarrow> ipv4_header \<Rightarrow> ipv4_header" where
  "SetPayloadSize sz hdr = hdr\<lparr>ih_payloadSize := sz\<rparr>"

definition SetDscp :: "u8 \<Rightarrow> ipv4_header \<Rightarrow> ipv4_header" where
  "SetDscp dscp hdr = hdr\<lparr>ih_tos := (ih_tos hdr AND 0x3) OR push_bit 2 dscp\<rparr>"

definition SetEcn :: "u8 \<Rightarrow> ipv4_header \<Rightarrow> ipv4_header" where
  "SetEcn ecn hdr = hdr\<lparr>ih_tos := (ih_tos hdr AND 0xFC) OR ecn\<rparr>"

definition GetDscp :: "ipv4_header \<Rightarrow> u8" where
  "GetDscp hdr = drop_bit 2 (ih_tos hdr AND 0xFC)"

definition GetEcn :: "ipv4_header \<Rightarrow> u8" where
  "GetEcn hdr = ih_tos hdr AND 0x3"

definition SetMoreFragments :: "ipv4_header \<Rightarrow> ipv4_header" where
  "SetMoreFragments hdr = hdr\<lparr>ih_flags := ih_flags hdr OR MORE_FRAGMENTS\<rparr>"

definition SetLastFragment :: "ipv4_header \<Rightarrow> ipv4_header" where
  "SetLastFragment hdr = hdr\<lparr>ih_flags := ih_flags hdr AND NOT MORE_FRAGMENTS\<rparr>"

definition IsLastFragment :: "ipv4_header \<Rightarrow> bool" where
  "IsLastFragment hdr \<longleftrightarrow> \<not> (ih_flags hdr AND MORE_FRAGMENTS \<noteq> 0)"

definition SetDontFragment :: "ipv4_header \<Rightarrow> ipv4_header" where
  "SetDontFragment hdr = hdr\<lparr>ih_flags := ih_flags hdr OR DONT_FRAGMENT\<rparr>"

definition SetMayFragment :: "ipv4_header \<Rightarrow> ipv4_header" where
  "SetMayFragment hdr = hdr\<lparr>ih_flags := ih_flags hdr AND NOT DONT_FRAGMENT\<rparr>"

definition IsDontFragment :: "ipv4_header \<Rightarrow> bool" where
  "IsDontFragment hdr \<longleftrightarrow> ih_flags hdr AND DONT_FRAGMENT \<noteq> 0"

definition SetFragmentOffset :: "u16 \<Rightarrow> ipv4_header \<Rightarrow> ipv4_header option" where
  "SetFragmentOffset offsetBytes hdr = (if offsetBytes AND 0x7 \<noteq> 0 then None else Some (hdr\<lparr>ih_fragmentOffset := offsetBytes\<rparr>))"

definition Ipv4_GetSerializedSize :: "ipv4_header \<Rightarrow> nat" where
  "Ipv4_GetSerializedSize hdr = unat (ih_headerSize hdr)"

section \<open>Serialization\<close>

definition flags_byte :: "ipv4_header \<Rightarrow> u8" where
  "flags_byte hdr = (let fragmentOffset = drop_bit 3 (ih_fragmentOffset hdr);
     flagsFrag = ucast (drop_bit 8 fragmentOffset) AND 0x1f;
     f1 = (if ih_flags hdr AND DONT_FRAGMENT \<noteq> 0 then flagsFrag OR push_bit 6 1 else flagsFrag) in
     if ih_flags hdr AND MORE_FRAGMENTS \<noteq> 0 then f1 OR push_bit 5 1 else f1)"

definition Ipv4_Serialize :: "ipv4_header \<Rightarrow> serializer" where
  "Ipv4_Serialize hdr start h0 = do {
     (i1, h1) \<leftarrow> It_WriteU8 (push_bit 4 4 OR 5) start h0;
     (i2, h2) \<leftarrow> It_WriteU8 (ih_tos hdr) i1 h1;
     (i3, h3) \<leftarrow> It_WriteHtonU16 (ih_payloadSize hdr + 5 * 4) i2 h2;
     (i4, h4) \<leftarrow> It_WriteHtonU16 (ih_identification hdr) i3 h3;
     (i5, h5) \<leftarrow> It_WriteU8 (flags_byte hdr) i4 h4;
     (i6, h6) \<leftarrow> It_WriteU8 (ucast (drop_bit 3 (ih_fragmentOffset hdr))) i5 h5;
     (i7, h7) \<leftarrow> It_WriteU8 (ih_ttl hdr) i6 h6;
     (i8, h8) \<leftarrow> It_WriteU8 (ih_protocol hdr) i7 h7;
     (i9, h9) \<leftarrow> It_WriteHtonU16 0 i8 h8;
     (i10, h10) \<leftarrow> It_WriteHtonU32 (ih_source hdr) i9 h9;
     (i11, h11) \<leftarrow> It_WriteHtonU32 (ih_destination hdr) i10 h10;
     (if ih_calcChecksum hdr then do {
        (checksum, _) \<leftarrow> CalculateIpChecksum 20 0 start h11;
        i \<leftarrow> It_Next 10 start;
        It_WriteU16 checksum i h11 }
      else Some (i11, h11)) }"

definition Ipv4_Deserialize :: "ipv4_header \<Rightarrow> ipv4_header deserializer" where
  "Ipv4_Deserialize hdr start h = do {
     (verIhl, i1) \<leftarrow> It_ReadU8 start h;
     let headerSize = (ucast (verIhl AND 0x0f) * 4 :: u16);
     (if drop_bit 4 verIhl \<noteq> 4 then Some (hdr, 0) else do {
        (tos, i2) \<leftarrow> It_ReadU8 i1 h;
        (sz, i3) \<leftarrow> It_ReadNtohU16 i2 h;
        (identification, i4) \<leftarrow> It_ReadNtohU16 i3 h;
        (flags, i5) \<leftarrow> It_ReadU8 i4 h;
        let fl1 = (if flags AND push_bit 6 1 \<noteq> 0 then DONT_FRAGMENT else 0);
        let fl2 = (if flags AND push_bit 5 1 \<noteq> 0 then fl1 OR MORE_FRAGMENTS else fl1);
        i6 \<leftarrow> It_Prev 1 i5;
        (hi, i7) \<leftarrow> It_ReadU8 i6 h;
        (lo, i8) \<leftarrow> It_ReadU8 i7 h;
        let offset = push_bit 3 (push_bit 8 (ucast (hi AND 0x1f)) OR ucast lo);
        (ttl, i9) \<leftarrow> It_ReadU8 i8 h;
        (protocol, i10) \<leftarrow> It_ReadU8 i9 h;
        (checksum, i11) \<leftarrow> It_ReadU16 i10 h;
        (source, i12) \<leftarrow> It_ReadNtohU32 i11 h;
        (destination, i13) \<leftarrow> It_ReadNtohU32 i12 h;
        good \<leftarrow> (if ih_calcChecksum hdr
                 then map_option (\<lambda>(c, _). c = 0) (CalculateIpChecksum headerSize 0 start h)
                 else Some (ih_goodChecksum hdr));
        Some (\<lparr>ih_calcChecksum = ih_calcChecksum hdr, ih_payloadSize = sz - headerSize, ih_identification = identification,
               ih_tos = tos, ih_ttl = ttl, ih_protocol = protocol, ih_flags = fl2, ih_fragmentOffset = offset, ih_source = source,
               ih_destination = destination, ih_checksum = checksum, ih_goodChecksum = good, ih_headerSize = headerSize\<rparr>,
              unat headerSize) }) }"

section \<open>Bit fields\<close>

text \<open>DSCP and ECN share a byte without disturbing each other.\<close>

lemma tos_fields:
  assumes "unat dscp < 64" and "unat ecn < 4"
  shows "GetDscp (SetDscp dscp hdr) = dscp" "GetEcn (SetDscp dscp hdr) = GetEcn hdr"
    "GetEcn (SetEcn ecn hdr) = ecn" "GetDscp (SetEcn ecn hdr) = GetDscp hdr"
proof -
  have d: "dscp = take_bit 6 dscp" and e: "ecn = take_bit 2 ecn"
    by (rule unsigned_word_eqI [where 'a = nat], use assms in \<open>simp add: unsigned_take_bit_eq take_bit_nat_eq_self\<close>)+
  have m: "(0x3 :: u8) = mask 2" "(0xFC :: u8) = push_bit 2 (mask 6)" "(63 :: u8) = mask 6" by (simp_all add: mask_eq_exp_minus_1 push_bit_eq_mult)
  have b: "bit (0xFC :: u8) n \<longleftrightarrow> 2 \<le> n \<and> n < 8" "bit (0x3 :: u8) n \<longleftrightarrow> n < 2" "bit (63 :: u8) n \<longleftrightarrow> n < 6" for n
    unfolding m bit_push_bit_iff bit_mask_iff by auto
  have nd: "bit dscp n \<Longrightarrow> n < 6" and ne: "bit ecn n \<Longrightarrow> n < 2" for n
    by (subst (asm) d, simp add: bit_simps) (subst (asm) e, simp add: bit_simps)
  note defs = GetDscp_def GetEcn_def SetDscp_def SetEcn_def
  show "GetDscp (SetDscp dscp hdr) = dscp"
    by (rule bit_word_eqI) (use nd in \<open>auto simp: defs bit_simps b simp del: bit_numeral_word_iff\<close>)
  show "GetEcn (SetDscp dscp hdr) = GetEcn hdr"
    by (rule bit_word_eqI) (auto simp: defs bit_simps b simp del: bit_numeral_word_iff)
  show "GetEcn (SetEcn ecn hdr) = ecn"
    by (rule bit_word_eqI) (use ne in \<open>auto simp: defs bit_simps b simp del: bit_numeral_word_iff\<close>)
  show "GetDscp (SetEcn ecn hdr) = GetDscp hdr"
    by (rule bit_word_eqI) (use ne in \<open>force simp: defs bit_simps b simp del: bit_numeral_word_iff\<close>)
qed

lemma three_bits: "ih_flags hdr AND 1 \<noteq> 0 \<longleftrightarrow> bit (ih_flags hdr) 0" "ih_flags hdr AND 2 \<noteq> 0 \<longleftrightarrow> bit (ih_flags hdr) 1"
proof -
  have "(2 :: 3 word) = push_bit 1 1" "(1 :: 3 word) = push_bit 0 1" by simp_all
  then show "ih_flags hdr AND 1 \<noteq> 0 \<longleftrightarrow> bit (ih_flags hdr) 0" "ih_flags hdr AND 2 \<noteq> 0 \<longleftrightarrow> bit (ih_flags hdr) 1"
    by (metis and_exp_eq_0_iff_not_bit push_bit_of_1)+
qed

text \<open>The flags and the fragment offset share two bytes: the offset loses nothing when it is a multiple of 8.\<close>

lemma mask_31: "(0x1f :: u8) = mask 5"
  by (simp add: mask_eq_exp_minus_1)

lemma flags_byte_bits:
  "bit (flags_byte hdr) n \<longleftrightarrow> n = 6 \<and> bit (ih_flags hdr) 0 \<or> n = 5 \<and> bit (ih_flags hdr) 1 \<or> n < 5 \<and> bit (ih_fragmentOffset hdr) (n + 11)"
proof -
  have f: "bit (ucast (drop_bit 8 (drop_bit 3 (ih_fragmentOffset hdr))) AND 0x1f :: u8) n \<longleftrightarrow> n < 5 \<and> bit (ih_fragmentOffset hdr) (n + 11)"
    unfolding mask_31 by (auto simp: bit_simps ac_simps simp del: mask_numeral)
  have p: "bit (push_bit m (1 :: u8)) n \<longleftrightarrow> n = m \<and> m < 8" for m by (auto simp: bit_simps)
  show ?thesis unfolding flags_byte_def Let_def three_bits
    by (simp only: if_distrib [of "\<lambda>w. bit w n"] bit_or_iff f p) auto
qed

lemma flags_and_exp: "flags AND push_bit n 1 \<noteq> 0 \<longleftrightarrow> bit (flags :: u8) n"
  by (metis and_exp_eq_0_iff_not_bit push_bit_of_1)

lemma fragment_field:
  assumes "ih_fragmentOffset hdr AND 7 = 0"
  shows "push_bit 3 (push_bit 8 (ucast (flags_byte hdr AND 0x1f)) OR ucast (ucast (drop_bit 3 (ih_fragmentOffset hdr)) :: u8)) =
    ih_fragmentOffset hdr" (is "?l = _")
proof (rule bit_word_eqI)
  fix n assume n: "n < LENGTH(16)"
  have m: "(7 :: u16) = mask 3" by (simp add: mask_eq_exp_minus_1)
  have low: "\<not> bit (ih_fragmentOffset hdr) n" if "n < 3"
  proof
    assume b: "bit (ih_fragmentOffset hdr) n"
    then have "bit (ih_fragmentOffset hdr AND 7) n" unfolding m using that n by (simp add: bit_simps)
    then show False using assms by simp
  qed
  show "bit ?l n = bit (ih_fragmentOffset hdr) n"
  proof (cases "n < 3")
    case True
    then show ?thesis using low by (simp add: bit_simps)
  next
    case False
    then show ?thesis using n unfolding mask_31
      by (cases "n < 11") (auto simp: bit_simps flags_byte_bits simp del: mask_numeral)
  qed
qed

lemma flags_field:
  assumes "\<not> bit (ih_flags hdr) 2"
  shows "(if bit (flags_byte hdr) 5 then (if bit (flags_byte hdr) 6 then DONT_FRAGMENT else 0) OR MORE_FRAGMENTS
      else if bit (flags_byte hdr) 6 then DONT_FRAGMENT else 0) = ih_flags hdr" (is "?l = _")
proof (rule bit_word_eqI)
  fix n assume "n < LENGTH(3)"
  then have n: "n = 0 \<or> n = 1 \<or> n = 2" by auto
  have e: "(2 :: 3 word) = push_bit 1 1" by simp
  show "bit ?l n = bit (ih_flags hdr) n"
    using n assms by (auto simp: flags_byte_bits bit_simps)
qed

section \<open>What is written\<close>

definition ipv4_fields :: "ipv4_header \<Rightarrow> field list" where
  "ipv4_fields hdr = [F8 0x45, F8 (ih_tos hdr), F16 (ih_payloadSize hdr + 20), F16 (ih_identification hdr), F8 (flags_byte hdr),
     F8 (ucast (drop_bit 3 (ih_fragmentOffset hdr))), F8 (ih_ttl hdr), F8 (ih_protocol hdr), F16 0, F32 (ih_source hdr),
     F32 (ih_destination hdr)]"

definition ip_checksum :: "u8 list \<Rightarrow> u16" where
  "ip_checksum bs = NOT (ucast (the (fold_carries (of_nat (word_total bs)))))"

definition ipv4_bytes :: "ipv4_header \<Rightarrow> u8 list" where
  "ipv4_bytes hdr = (let bs = fields_bytes (ipv4_fields hdr); c = ip_checksum bs in
     if ih_calcChecksum hdr then overwrite 10 [ucast c, ucast (drop_bit 8 c)] bs else bs)"

lemma Ipv4_Serialize_alt:
  "Ipv4_Serialize hdr start h0 = do {
     (i, h) \<leftarrow> write_fields (ipv4_fields hdr) start h0;
     (if ih_calcChecksum hdr then do {
        (checksum, _) \<leftarrow> CalculateIpChecksum 20 0 start h;
        i \<leftarrow> It_Next 10 start;
        It_WriteU16 checksum i h }
      else Some (i, h)) }"
proof -
  have "push_bit 4 4 OR 5 = (0x45 :: u8)" by (simp add: push_bit_eq_mult)
  then show ?thesis by (simp add: Ipv4_Serialize_def ipv4_fields_def seq_writes_def split_def)
qed

lemma length_ipv4_fields: "length (fields_bytes (ipv4_fields hdr)) = 20"
  by (simp add: fields_bytes_def ipv4_fields_def)

lemma overwrite_length: "k + length vs \<le> length bs \<Longrightarrow> length (overwrite k vs bs) = length bs"
  by (simp add: overwrite_def)

lemma length_ipv4_bytes: "length (ipv4_bytes hdr) = 20"
  by (simp add: ipv4_bytes_def Let_def overwrite_length length_ipv4_fields)

lemma Ipv4_emits: "emits_start (Ipv4_Serialize hdr) (ipv4_bytes hdr)"
  unfolding emits_start_def length_ipv4_bytes
proof (intro allI impI)
  fix h b B
  assume H: "heap_ok h (add_mset b B)" and e: "exclusive (b_start b) 20 b B" and n: "b_start b + 20 \<le> b_zeroAreaStart b"
  let ?bs = "fields_bytes (ipv4_fields hdr)"
  obtain i1 h1 where W: "write_fields (ipv4_fields hdr) (It_Begin b) h = Some (i1, h1)" "heap_ok h1 (add_mset b B)"
    "content h1 b = overwrite 0 ?bs (content h b)" "\<And>c. c \<in># B \<Longrightarrow> content h1 c = content h c"
    by (rule emits_at_start [OF emits_fields [of "ipv4_fields hdr"] H, unfolded length_ipv4_fields, OF e n]) (rule that)
  obtain Z d where o: "offs_ok Z d b" using heap_ok_focus [OF H] by metis
  have g: "20 \<le> GetSize b" using o n by (auto simp: offs_ok_def GetSize_def)
  have l: "length (content h b) = GetSize b" by (rule content_length [OF H])
  have c1: "content h1 b = ?bs @ drop 20 (content h b)"
    using W(3) g l by (simp add: overwrite_def length_ipv4_fields)
  show "\<exists>i' h'. Ipv4_Serialize hdr (It_Begin b) h = Some (i', h') \<and> heap_ok h' (add_mset b B) \<and>
       content h' b = overwrite 0 (ipv4_bytes hdr) (content h b) \<and> (\<forall>c\<in>#B. content h' c = content h c)"
  proof (cases "ih_calcChecksum hdr")
    case False
    then show ?thesis using W by (simp add: Ipv4_Serialize_alt ipv4_bytes_def)
  next
    case True
    have t: "take (unat (20 :: u16)) (drop 0 (content h1 b)) = ?bs" using c1 by (simp add: length_ipv4_fields)
    have small: "unat (0 :: u32) + word_total (take (unat (20 :: u16)) (drop 0 (content h1 b))) < 2 ^ 32"
      unfolding t using word_total_bound [of ?bs] by (simp add: length_ipv4_fields)
    obtain s3 where C: "CalculateIpChecksum 20 0 (at b 0) h1 = Some (NOT (ucast s3), at b (0 + unat (20 :: u16)))"
      "fold_carries (of_nat (unat (0 :: u32) + word_total (take (unat (20 :: u16)) (drop 0 (content h1 b))))) = Some s3"
      by (rule CalculateIpChecksum_sum [OF W(2) _ small]) (use g that in simp_all)
    define c where "c = ip_checksum ?bs"
    have cc: "CalculateIpChecksum 20 0 (It_Begin b) h1 = Some (c, at b 20)"
      using C unfolding t by (simp add: c_def ip_checksum_def)
    have nx: "It_Next 10 (It_Begin b) = Some (at b 10)"
      using g o at_plus [of b 0 10] by (simp add: It_Next_def It_Begin_def at_def GetSize_def offs_ok_def)
    let ?cs = "[ucast c, ucast (drop_bit 8 c)] :: u8 list"
    obtain h2 where h2: "heap_write (b_data b) (b_start b + 10) ?cs h1 = Some h2" "heap_ok h2 (add_mset b B)"
      "content h2 b = overwrite 10 ?cs (content h1 b)" "\<And>c. c \<in># B \<Longrightarrow> content h2 c = content h1 c"
      by (rule heap_write_head [OF W(2) e n, where k = 10 and vs = ?cs]) (use that in simp_all)
    have "It_WriteU16 c (at b 10) h1 = Some ((at b 10)\<lparr>i_current := i_current (at b 10) + length ?cs\<rparr>, h2)"
      using emits_WriteU8s [of ?cs] h2(1) n o unfolding emits_def It_WriteU16_def
      by (simp add: offs_ok_def at_def It_Begin_def)
    then have S: "\<exists>i. Ipv4_Serialize hdr (It_Begin b) h = Some (i, h2)"
      using W(1) True cc nx by (simp add: Ipv4_Serialize_alt)
    have "content h2 b = overwrite 0 (ipv4_bytes hdr) (content h b)"
      using True g l by (simp add: h2(3) c1 ipv4_bytes_def Let_def overwrite_def length_ipv4_fields c_def)
    then show ?thesis using S h2(2,4) W(4) by auto
  qed
qed

section \<open>What is read\<close>

lemma checksum_at:
  assumes H: "heap_ok h (add_mset b B)" and c: "content h b = bs @ rs" and l: "length bs = 20"
  shows "CalculateIpChecksum 20 0 (at b 0) h = Some (ip_checksum bs, at b 20)"
proof -
  have g: "20 \<le> GetSize b" using content_length [OF H] c l by simp
  have t: "take (unat (20 :: u16)) (drop 0 (content h b)) = bs" using c l by simp
  have small: "unat (0 :: u32) + word_total (take (unat (20 :: u16)) (drop 0 (content h b))) < 2 ^ 32"
    unfolding t using word_total_bound [of bs] l by simp
  obtain s3 where C: "CalculateIpChecksum 20 0 (at b 0) h = Some (NOT (ucast s3), at b (0 + unat (20 :: u16)))"
    "fold_carries (of_nat (unat (0 :: u32) + word_total (take (unat (20 :: u16)) (drop 0 (content h b))))) = Some s3"
    by (rule CalculateIpChecksum_sum [OF H _ small]) (use g that in simp_all)
  then show ?thesis unfolding t by (simp add: ip_checksum_def)
qed

lemma It_Prev_at: "n \<le> k \<Longrightarrow> It_Prev n (at b k) = Some (at b (k - n))"
  by (simp add: It_Prev_def at_def It_Begin_def)

definition parsed_header :: "ipv4_header \<Rightarrow> u8 list \<Rightarrow> ipv4_header" where
  "parsed_header r bs = (let f = bs ! 6; fl1 = (if bit f 6 then DONT_FRAGMENT else 0) in
     \<lparr>ih_calcChecksum = ih_calcChecksum r, ih_payloadSize = word_of_msb (take 2 (drop 2 bs)) - 20,
      ih_identification = word_of_msb (take 2 (drop 4 bs)), ih_tos = bs ! 1, ih_ttl = bs ! 8, ih_protocol = bs ! 9,
      ih_flags = (if bit f 5 then fl1 OR MORE_FRAGMENTS else fl1),
      ih_fragmentOffset = push_bit 3 (push_bit 8 (ucast (f AND 0x1f)) OR ucast (bs ! 7)),
      ih_source = word_of_msb (take 4 (drop 12 bs)), ih_destination = word_of_msb (take 4 (drop 16 bs)),
      ih_checksum = word_of_msb (rev (take 2 (drop 10 bs))),
      ih_goodChecksum = (if ih_calcChecksum r then ip_checksum bs = 0 else ih_goodChecksum r), ih_headerSize = 20\<rparr>)"

lemma Ipv4_Deserialize_at:
  assumes H: "heap_ok h (add_mset b B)" and c: "content h b = bs @ rs" and l: "length bs = 20" and v: "bs ! 0 = 0x45"
  shows "Ipv4_Deserialize r (It_Begin b) h = Some (parsed_header r bs, 20)"
proof -
  have g: "20 \<le> GetSize b" using content_length [OF H] c l by simp
  have v4: "drop_bit 4 (0x45 :: u8) = 4" "(0x45 :: u8) AND 0x0f = 5" by (simp_all add: drop_bit_eq_div)
  have r: "It_ReadU8 (It_Begin b) h = Some (bs ! 0, at b 1)" "It_ReadU8 (at b 1) h = Some (bs ! 1, at b 2)"
    "It_ReadNtohU16 (at b 2) h = Some (word_of_msb (take 2 (drop 2 bs)), at b 4)"
    "It_ReadNtohU16 (at b 4) h = Some (word_of_msb (take 2 (drop 4 bs)), at b 6)"
    "It_ReadU8 (at b 6) h = Some (bs ! 6, at b 7)" "It_Prev 1 (at b 7) = Some (at b 6)"
    "It_ReadU8 (at b 7) h = Some (bs ! 7, at b 8)" "It_ReadU8 (at b 8) h = Some (bs ! 8, at b 9)"
    "It_ReadU8 (at b 9) h = Some (bs ! 9, at b 10)"
    "It_ReadU16 (at b 10) h = Some (word_of_msb (rev (take 2 (drop 10 bs))), at b 12)"
    "It_ReadNtohU32 (at b 12) h = Some (word_of_msb (take 4 (drop 12 bs)), at b 16)"
    "It_ReadNtohU32 (at b 16) h = Some (word_of_msb (take 4 (drop 16 bs)), at b 20)"
    using g l It_ReadU8_at [OF H, of 0] by (simp_all add: It_ReadU8_at [OF H] It_ReadNtoh_at [OF H] c nth_append It_Prev_at)
  have fl: "f AND 64 \<noteq> 0 \<longleftrightarrow> bit f 6" "f AND 32 \<noteq> 0 \<longleftrightarrow> bit f 5" "f AND push_bit 6 1 \<noteq> 0 \<longleftrightarrow> bit f 6"
    "f AND push_bit 5 1 \<noteq> 0 \<longleftrightarrow> bit f 5" for f :: u8
    using flags_and_exp [of f 6] flags_and_exp [of f 5] by (simp_all add: push_bit_eq_mult)
  show ?thesis
    unfolding Ipv4_Deserialize_def using g l v v4 checksum_at [OF H c l]
    by (cases "ih_calcChecksum r") (simp_all add: r r [unfolded One_nat_def] fl parsed_header_def Let_def)
qed

lemma parsed_fields:
  assumes "ih_fragmentOffset hdr AND 7 = 0" and "\<not> bit (ih_flags hdr) 2" and "length cs = 2"
  shows "parsed_header r (overwrite 10 cs (fields_bytes (ipv4_fields hdr))) =
    hdr\<lparr>ih_calcChecksum := ih_calcChecksum r, ih_checksum := word_of_msb (rev cs),
      ih_goodChecksum := (if ih_calcChecksum r then ip_checksum (overwrite 10 cs (fields_bytes (ipv4_fields hdr))) = 0
        else ih_goodChecksum r), ih_headerSize := 20\<rparr>"
proof -
  obtain c d where cs: "cs = [c, d]" using assms(3) by (auto simp: numeral_2_eq_2 length_Suc_conv)
  show ?thesis
    using fragment_field [OF assms(1)] flags_field [OF assms(2)]
    by (simp add: parsed_header_def Let_def cs overwrite_def fields_bytes_def ipv4_fields_def msb_bytes)
qed

section \<open>The header checksum\<close>

lemma ip_checksum_value:
  assumes "word_total bs < 2 ^ 32"
  shows "(word_total bs + unat (ip_checksum bs)) mod 65535 = 0" "unat (ip_checksum bs) = 65535 \<longleftrightarrow> word_total bs = 0"
proof -
  obtain s where s: "fold_carries (of_nat (word_total bs)) = Some s" using fold_carries_ok by metis
  have S: "unat (of_nat (word_total bs) :: u32) = word_total bs" using assms by (simp add: unsigned_of_nat take_bit_nat_eq_self)
  note f = fold_carries_SomeD [OF s, unfolded S]
  have u: "unat (ucast s :: u16) = unat s" using f(1) by (simp add: unsigned_ucast_eq take_bit_nat_eq_self)
  have v: "unat (ip_checksum bs) = 65535 - unat s" using NOT_u16 u s by (simp add: ip_checksum_def)
  show "(word_total bs + unat (ip_checksum bs)) mod 65535 = 0" by (rule complement_arith [OF f(1,2) v])
  show "unat (ip_checksum bs) = 65535 \<longleftrightarrow> word_total bs = 0" using v f(1,3) by auto
qed

lemma ip_checksum_zero:
  assumes "word_total bs < 2 ^ 32"
  shows "ip_checksum bs = 0 \<longleftrightarrow> word_total bs mod 65535 = 0 \<and> word_total bs \<noteq> 0"
proof -
  note v = ip_checksum_value [OF assms]
  have "unat (ip_checksum bs) = 0 \<longleftrightarrow> word_total bs mod 65535 = 0 \<and> word_total bs \<noteq> 0"
  proof
    assume "unat (ip_checksum bs) = 0"
    then show "word_total bs mod 65535 = 0 \<and> word_total bs \<noteq> 0" using v by auto
  next
    assume "word_total bs mod 65535 = 0 \<and> word_total bs \<noteq> 0"
    then show "unat (ip_checksum bs) = 0" using v dvd_sums [OF _ v(1)] unat_bounds(1) [of "ip_checksum bs"] by simp
  qed
  then show ?thesis by (simp add: unsigned_eq_0_iff)
qed

lemma word_total_20: "length bs = 20 \<Longrightarrow> word_total bs < 2 ^ 32"
  using word_total_bound [of bs] by simp

lemma ipv4_bytes_checksum:
  assumes "ih_calcChecksum hdr"
  shows "ip_checksum (ipv4_bytes hdr) = 0"
proof -
  let ?bs = "fields_bytes (ipv4_fields hdr)"
  let ?c = "ip_checksum ?bs"
  define xs ys where "xs = take 10 ?bs" and "ys = drop 12 ?bs"
  have l: "even (length xs)" by (simp add: xs_def length_ipv4_fields)
  have bs: "?bs = xs @ [0, 0] @ ys" by (simp add: xs_def ys_def fields_bytes_def ipv4_fields_def)
  have b: "ipv4_bytes hdr = xs @ [ucast ?c, ucast (drop_bit 8 ?c)] @ ys"
    using assms by (simp add: ipv4_bytes_def Let_def overwrite_def xs_def ys_def)
  have "word_total ([0, 0] @ ys) = word_total ys" "word_total ([ucast ?c, ucast (drop_bit 8 ?c)] @ ys) = unat ?c + word_total ys"
    by (simp_all add: msb_bytes(1)) (simp add: word_of_msb_def)
  then have S: "word_total (ipv4_bytes hdr) = word_total ?bs + unat ?c"
    unfolding b using word_total_append [OF l] by (subst bs) simp
  note v = ip_checksum_value [OF word_total_20 [OF length_ipv4_fields]]
  have "word_total (ipv4_bytes hdr) \<noteq> 0" using S v(2) [of hdr] by auto
  then show ?thesis
    using ip_checksum_zero [OF word_total_20 [OF length_ipv4_bytes]] v(1) [of hdr] S by simp
qed

lemma unat_word2: "unat (word_of_msb [y, x] :: u16) = 256 * unat y + unat (x :: u8)"
proof -
  have "word_of_msb [y, x] = (push_bit 8 (ucast y) OR ucast x :: u16)" by (simp add: word_of_msb_def)
  also have "\<dots> = push_bit 8 (ucast y) + ucast x"
    by (rule disjunctive_add [symmetric]) (auto simp: bit_simps dest: bit_imp_le_length)
  also have "unat \<dots> = 256 * unat y + unat x"
    using unat_bounds(2) [of x] unat_bounds(2) [of y]
    by (simp add: unat_word_ariths push_bit_eq_mult)
  finally show ?thesis .
qed

lemma word_total_update:
  "k < length bs \<Longrightarrow> int (word_total (bs[k := v])) = int (word_total bs) + (if even k then 1 else 256) * (int (unat v) - int (unat (bs ! k)))"
proof (induction bs arbitrary: k rule: words16.induct)
  case (1 x y bs)
  show ?case
  proof (cases k)
    case (Suc m)
    show ?thesis
    proof (cases m)
      case (Suc n)
      then show ?thesis using 1 \<open>k = Suc m\<close> by simp
    qed (use \<open>k = Suc m\<close> in \<open>simp add: unat_word2\<close>)
  qed (simp add: unat_word2)
qed simp_all

lemma corrupted_arith:
  fixes S T d :: int
  assumes "S mod 65535 = 0" and "T = S + (if even k then 1 else 256) * d" and "d \<noteq> 0" and "\<bar>d\<bar> \<le> 255"
  shows "T mod 65535 \<noteq> 0"
proof
  let ?e = "(if even k then 1 else 256) * d"
  assume "T mod 65535 = 0"
  then have "65535 dvd ?e" using assms(1,2) by (simp add: dvd_eq_mod_eq_0 [symmetric] dvd_add_right_iff)
  moreover have "\<bar>?e\<bar> \<le> 65280" "?e \<noteq> 0" using assms(3,4) by (auto simp: abs_mult)
  ultimately show False using zdvd_not_zless [of "\<bar>?e\<bar>" 65535] by simp
qed

section \<open>Round trip and detection\<close>

definition ipv4_ok :: "ipv4_header \<Rightarrow> bool" where
  "ipv4_ok hdr \<longleftrightarrow> ih_fragmentOffset hdr AND 7 = 0 \<and> \<not> bit (ih_flags hdr) 2 \<and> ih_headerSize hdr = 20"

lemma ipv4_bytes_0: "ipv4_bytes hdr ! 0 = 0x45"
  by (simp add: ipv4_bytes_def Let_def overwrite_def fields_bytes_def ipv4_fields_def)

lemma parsed_ipv4:
  assumes "ipv4_ok hdr" and "ih_calcChecksum r \<Longrightarrow> ih_calcChecksum hdr"
  shows "parsed_header r (ipv4_bytes hdr) = hdr\<lparr>ih_calcChecksum := ih_calcChecksum r,
      ih_checksum := (if ih_calcChecksum hdr then ip_checksum (fields_bytes (ipv4_fields hdr)) else 0),
      ih_goodChecksum := ih_calcChecksum r \<or> ih_goodChecksum r, ih_headerSize := 20\<rparr>"
proof -
  let ?bs = "fields_bytes (ipv4_fields hdr)"
  let ?c = "if ih_calcChecksum hdr then ip_checksum ?bs else 0"
  have "overwrite 10 [0, 0] ?bs = ?bs" by (simp add: overwrite_def fields_bytes_def ipv4_fields_def)
  then have b: "ipv4_bytes hdr = overwrite 10 [ucast ?c, ucast (drop_bit 8 ?c)] ?bs" by (simp add: ipv4_bytes_def Let_def)
  have "word_of_msb (rev [ucast ?c, ucast (drop_bit 8 ?c)]) = ?c" by (simp only: rev.simps append.simps msb_bytes)
  then show ?thesis
    using parsed_fields [of hdr "[ucast ?c, ucast (drop_bit 8 ?c)]" r, folded b] assms ipv4_bytes_checksum [of hdr]
    by (simp add: ipv4_ok_def)
qed

text \<open>C27: An IPv4 header added to a packet is read back: every field survives, bit fields included, the payload is
  restored, other packets are untouched, and the checksum verifies when sender and receiver compute it.\<close>

theorem Ipv4Header_roundtrip:
  assumes P: "packet_ok h p B" and n: "int (20 + Packet_GetSize p) \<le> OFFSET_MAX" and k: "ipv4_ok hdr"
    and c: "ih_calcChecksum r \<Longrightarrow> ih_calcChecksum hdr"
  shows "\<exists>p1 h1 p2 hdr'. Packet_AddHeader (Ipv4_GetSerializedSize hdr) (Ipv4_Serialize hdr) p h = Some (p1, h1) \<and>
    Packet_RemoveHeader (Ipv4_Deserialize r) p1 h1 = Some (hdr', 20, p2) \<and>
    hdr' = hdr\<lparr>ih_calcChecksum := ih_calcChecksum r, ih_checksum := ih_checksum hdr',
      ih_goodChecksum := ih_calcChecksum r \<or> ih_goodChecksum r\<rparr> \<and>
    packet_ok h1 p2 B \<and> tagged h1 p2 = tagged h p \<and> (\<forall>c\<in>#B. content h1 c = content h c)"
proof -
  let ?bs = "ipv4_bytes hdr"
  obtain p1 h1 where A: "Packet_AddHeader 20 (Ipv4_Serialize hdr) p h = Some (p1, h1)"
    "packet_ok h1 p1 B" "tagged h1 p1 = untagged ?bs @ tagged h p" "\<And>c. c \<in># B \<Longrightarrow> content h1 c = content h c"
    by (rule Packet_AddHeader_start_ok [OF Ipv4_emits P, unfolded length_ipv4_bytes, OF n]) (rule that)
  have H1: "heap_ok h1 (add_mset (p_buffer p1) B)" using A(2) by (simp add: packet_ok_def)
  have "content h1 (p_buffer p1) = ?bs @ content h (p_buffer p)"
    using arg_cong [OF A(3), of "map fst"] by (simp add: tagged_bytes)
  note D = Ipv4_Deserialize_at [OF H1 this length_ipv4_bytes ipv4_bytes_0, of r]
  note R = Packet_RemoveHeader_ok [where d = "Ipv4_Deserialize r", OF A(2) D]
  have "tagged h1 (Packet_RemoveAtStart 20 p1) = tagged h p"
    using Packet_RemoveAtStart_ok(2) [OF A(2)] A(3) by (simp add: length_ipv4_bytes)
  moreover have "Ipv4_GetSerializedSize hdr = 20" using k by (simp add: ipv4_ok_def Ipv4_GetSerializedSize_def)
  ultimately show ?thesis
    using A R parsed_ipv4 [OF k c] Packet_RemoveAtStart_ok(1) [OF A(2)] k by (auto simp: ipv4_ok_def)
qed

text \<open>C28: A receiver that checks the header checksum notices any corruption of a single byte of the header (other than the first,
  which holds the version and the length): whatever the new value, \<^verbatim>\<open>IsChecksumOk\<close> is false.\<close>

theorem corrupted_byte_detected:
  assumes H: "heap_ok h (add_mset b B)" and c: "content h b = (ipv4_bytes hdr)[k := v] @ payload"
    and k: "0 < k" "k < 20" "v \<noteq> ipv4_bytes hdr ! k" and s: "ih_calcChecksum hdr" "ih_calcChecksum r"
  shows "\<exists>hdr'. Ipv4_Deserialize r (It_Begin b) h = Some (hdr', 20) \<and> \<not> ih_goodChecksum hdr'"
proof -
  let ?bs = "ipv4_bytes hdr"
  let ?ds = "?bs[k := v]"
  have l: "length ?ds = 20" by (simp add: length_ipv4_bytes)
  have "?ds ! 0 = 0x45" using k ipv4_bytes_0 [of hdr] by simp
  then have D: "Ipv4_Deserialize r (It_Begin b) h = Some (parsed_header r ?ds, 20)" by (rule Ipv4_Deserialize_at [OF H c l])
  have S: "word_total ?bs mod 65535 = 0"
    using ipv4_bytes_checksum [OF s(1)] ip_checksum_zero [OF word_total_20 [OF length_ipv4_bytes]] by simp
  have d: "int (unat v) - int (unat (?bs ! k)) \<noteq> 0" "\<bar>int (unat v) - int (unat (?bs ! k))\<bar> \<le> 255"
  proof -
    have "unat v \<noteq> unat (?bs ! k)" using k(3) by (metis word_unat_eq_iff)
    then show "int (unat v) - int (unat (?bs ! k)) \<noteq> 0" by (metis eq_iff_diff_eq_0 of_nat_eq_iff)
    have a: "\<bar>int a - int b\<bar> \<le> 255" if "a \<le> 255" "b \<le> 255" for a b using that by arith
    show "\<bar>int (unat v) - int (unat (?bs ! k))\<bar> \<le> 255" by (rule a [OF unat_bounds(2) unat_bounds(2)])
  qed
  have "int (word_total ?bs) mod 65535 = 0" using arg_cong [OF S, of int] by (simp only: of_nat_mod of_nat_numeral of_nat_0)
  moreover have "int (word_total ?ds) = int (word_total ?bs) + (if even k then 1 else 256) * (int (unat v) - int (unat (?bs ! k)))"
    by (rule word_total_update) (use k(2) in \<open>simp add: length_ipv4_bytes\<close>)
  ultimately have "int (word_total ?ds) mod 65535 \<noteq> 0" by (rule corrupted_arith [OF _ _ d])
  then have "int (word_total ?ds mod 65535) \<noteq> 0" by (simp only: of_nat_mod of_nat_numeral not_False_eq_True)
  then have "word_total ?ds mod 65535 \<noteq> 0" by (rule contrapos_nn) (simp only: of_nat_0)
  then have "ip_checksum ?ds \<noteq> 0" using ip_checksum_zero [OF word_total_20 [OF l]] by simp
  then show ?thesis using D s(2) by (simp add: parsed_header_def Let_def)
qed

text \<open>Examples: a header with both flag bits and an offset, in front of a payload of zeros and in a buffer of its own.\<close>

definition demo_header :: ipv4_header where
  "demo_header = \<lparr>ih_calcChecksum = True, ih_payloadSize = 4, ih_identification = 7, ih_tos = 0xB9, ih_ttl = 64, ih_protocol = 17,
     ih_flags = MORE_FRAGMENTS, ih_fragmentOffset = 1480, ih_source = 0x0A000001, ih_destination = 0x0A000002, ih_checksum = 0,
     ih_goodChecksum = True, ih_headerSize = 20\<rparr>"

lemma demo_header_ok: "ipv4_ok demo_header"
proof -
  have "(1480 :: u16) AND 7 = 0" by simp
  moreover have "\<not> bit (2 :: 3 word) 2" by simp
  ultimately show ?thesis by (simp add: ipv4_ok_def demo_header_def)
qed

theorem Ipv4Header_roundtrip_witness:
  "\<exists>p h p1 h1 p2 hdr'. Packet_new 4 demo_heap = Some (p, h) \<and> Packet_AddHeader 20 (Ipv4_Serialize demo_header) p h = Some (p1, h1) \<and>
     Packet_RemoveHeader (Ipv4_Deserialize (EnableChecksum Ipv4Header)) p1 h1 = Some (hdr', 20, p2) \<and>
     hdr' = demo_header\<lparr>ih_checksum := ih_checksum hdr'\<rparr> \<and> tagged h1 p2 = untagged [0, 0, 0, 0]"
proof -
  obtain p h where N: "Packet_new 4 demo_heap = Some (p, h)" "packet_ok h p {#}" "tagged h p = untagged (replicate 4 0)"
    using Packet_new_ok [OF demo_heap_ok] by metis
  have n: "int (20 + Packet_GetSize p) \<le> OFFSET_MAX" using packet_size [OF N(2)] N(3) by (simp add: OFFSET_MAX_eq)
  have c: "ih_calcChecksum (EnableChecksum Ipv4Header)" "ih_calcChecksum demo_header" "Ipv4_GetSerializedSize demo_header = 20"
    "ih_goodChecksum demo_header"
    by (simp_all add: EnableChecksum_def Ipv4Header_def demo_header_def Ipv4_GetSerializedSize_def)
  obtain p1 h1 p2 hdr' where R: "Packet_AddHeader 20 (Ipv4_Serialize demo_header) p h = Some (p1, h1)"
    "Packet_RemoveHeader (Ipv4_Deserialize (EnableChecksum Ipv4Header)) p1 h1 = Some (hdr', 20, p2)"
    "hdr' = demo_header\<lparr>ih_calcChecksum := True, ih_checksum := ih_checksum hdr', ih_goodChecksum := True\<rparr>"
    "tagged h1 p2 = tagged h p"
    using Ipv4Header_roundtrip [OF N(2) n demo_header_ok, of "EnableChecksum Ipv4Header"] c by auto
  have e: "demo_header\<lparr>ih_calcChecksum := True, ih_checksum := x, ih_goodChecksum := True\<rparr> = demo_header\<lparr>ih_checksum := x\<rparr>" for x
    by (simp add: demo_header_def)
  have "hdr' = demo_header\<lparr>ih_checksum := ih_checksum hdr'\<rparr>" by (rule trans [OF R(3) e])
  moreover have "tagged h1 p2 = untagged [0, 0, 0, 0]" using R(4) N(3) by (simp add: numeral_4_eq_4)
  ultimately show ?thesis using N(1) R(1,2) by blast
qed

theorem corrupted_byte_detected_witness:
  "\<exists>h b hdr'. content h b = (ipv4_bytes demo_header)[8 := 63] \<and>
     Ipv4_Deserialize (EnableChecksum Ipv4Header) (It_Begin b) h = Some (hdr', 20) \<and> \<not> ih_goodChecksum hdr'"
proof -
  obtain b h where B: "heap_ok h (add_mset b {#})" "content h b = (ipv4_bytes demo_header)[8 := 63]"
    by (rule fresh_bytes [OF demo_heap_ok, of "(ipv4_bytes demo_header)[8 := 63]"]) (rule that)
  have v: "(63 :: u8) \<noteq> ipv4_bytes demo_header ! 8"
    by (simp add: ipv4_bytes_def Let_def overwrite_def fields_bytes_def ipv4_fields_def demo_header_def)
  have "\<exists>hdr'. Ipv4_Deserialize (EnableChecksum Ipv4Header) (It_Begin b) h = Some (hdr', 20) \<and> \<not> ih_goodChecksum hdr'"
    by (rule corrupted_byte_detected [OF B(1), of demo_header 8 63 "[]"])
      (use B(2) v in \<open>simp_all add: demo_header_def EnableChecksum_def\<close>)
  then show ?thesis using B(2) by blast
qed

end
