(* ===== verification/Ip_Fragments.thy ===== *)
theory Ip_Fragments
  imports Ip_Header Packet_Lists Net_Queue
begin

unbundle bit_operations_syntax

text \<open>
  Fragmentation and reassembly of IPv4 packets (\<^verbatim>\<open>src/internet/model/ipv4-l3-protocol.cc\<close>). Packets are lists of
  bytes. The nodes of the list of timeouts carry an identity, which is what its iterators hold. The
  pending \<^verbatim>\<open>HandleTimeout\<close> events of the simulator are the sorted list of their times. \<^term>\<open>None\<close> is a failed
  assertion, an abort or an access through an invalid pointer or iterator.
\<close>

section \<open>Fragmentation\<close>

type_synonym ip_packet = "u8 list \<times> ipv4_header"

partial_function (option) fragment_loop ::
  "bool \<Rightarrow> u8 list \<Rightarrow> ipv4_header \<Rightarrow> u32 \<Rightarrow> u16 \<Rightarrow> ip_packet list \<Rightarrow> ip_packet list option" where
  "fragment_loop checksumEnabled p ipv4Header fragmentSize offset listFragments =
     (let moreFragment = (of_nat (length p) > ucast offset + fragmentSize);
        currentFragmentablePartSize = (if moreFragment then fragmentSize else of_nat (length p) - ucast offset);
        hdr1 = (if moreFragment \<or> \<not> IsLastFragment ipv4Header then SetMoreFragments ipv4Header else SetLastFragment ipv4Header) in
      do {
        fragment \<leftarrow> list_fragment (ucast offset) currentFragmentablePartSize p;
        hdr2 \<leftarrow> SetFragmentOffset (offset + ih_fragmentOffset ipv4Header) hdr1;
        let hdr3 = SetPayloadSize (ucast currentFragmentablePartSize) hdr2;
        let hdr4 = (if checksumEnabled then EnableChecksum hdr3 else hdr3);
        if moreFragment
        then fragment_loop checksumEnabled p ipv4Header fragmentSize (offset + ucast currentFragmentablePartSize)
               (listFragments @ [(fragment, hdr4)])
        else Some (listFragments @ [(fragment, hdr4)]) })"

definition DoFragmentation :: "bool \<Rightarrow> u8 list \<Rightarrow> ipv4_header \<Rightarrow> u32 \<Rightarrow> ip_packet list option" where
  "DoFragmentation checksumEnabled packet ipv4Header outIfaceMtu = (if Ipv4_GetSerializedSize ipv4Header = 5 * 4
     then fragment_loop checksumEnabled packet ipv4Header ((outIfaceMtu - of_nat (Ipv4_GetSerializedSize ipv4Header)) AND NOT 7) 0 []
     else None)"

text \<open>What \<^verbatim>\<open>SendRealOut\<close> hands to an interface that is up.\<close>

definition SendRealOut_packets :: "bool \<Rightarrow> u8 list \<Rightarrow> ipv4_header \<Rightarrow> u16 \<Rightarrow> ip_packet list option" where
  "SendRealOut_packets checksumEnabled packet ipHeader mtu =
     (if of_nat (length packet) + of_nat (Ipv4_GetSerializedSize ipHeader) > (ucast mtu :: u32)
      then DoFragmentation checksumEnabled packet ipHeader (ucast mtu) else Some [(packet, ipHeader)])"

section \<open>The fragments of a packet\<close>

record fragments =
  fr_moreFragment :: bool
  fr_fragments :: "(u8 list \<times> u16) list"
  fr_timeoutIter :: nat

definition Fragments :: fragments where
  "Fragments = \<lparr>fr_moreFragment = False, fr_fragments = [], fr_timeoutIter = 0\<rparr>"

definition AddFragment :: "u8 list \<Rightarrow> u16 \<Rightarrow> bool \<Rightarrow> fragments \<Rightarrow> fragments" where
  "AddFragment fragment fragmentOffset moreFragment frs = (let before = takeWhile (\<lambda>x. \<not> snd x > fragmentOffset) (fr_fragments frs);
     from_it = dropWhile (\<lambda>x. \<not> snd x > fragmentOffset) (fr_fragments frs) in
     frs\<lparr>fr_moreFragment := (if from_it = [] then moreFragment else fr_moreFragment frs),
         fr_fragments := before @ (fragment, fragmentOffset) # from_it\<rparr>)"

fun no_gap :: "u16 \<Rightarrow> (u8 list \<times> u16) list \<Rightarrow> bool" where
  "no_gap lastEndOffset [] = True" |
  "no_gap lastEndOffset ((p, off) # fs) = (if lastEndOffset < off then False
     else no_gap (max lastEndOffset (of_nat (length p) + off)) fs)"

definition IsEntire :: "fragments \<Rightarrow> bool" where
  "IsEntire frs \<longleftrightarrow> \<not> fr_moreFragment frs \<and> fr_fragments frs \<noteq> [] \<and> no_gap 0 (fr_fragments frs)"

fun join_fragments :: "u8 list \<Rightarrow> u16 \<Rightarrow> (u8 list \<times> u16) list \<Rightarrow> u8 list option" where
  "join_fragments p lastEndOffset [] = Some p" |
  "join_fragments p lastEndOffset ((f, off) # fs) = do {
     p1 \<leftarrow> (if lastEndOffset > off then
              let newStart = ucast lastEndOffset - ucast off :: u32 in
              if of_nat (length f) > newStart
              then map_option (\<lambda>t. p @ t) (list_fragment newStart (of_nat (length f) - newStart) f)
              else Some p
            else Some (p @ f));
     join_fragments p1 (of_nat (length p1)) fs }"

definition GetPacket :: "fragments \<Rightarrow> u8 list option" where
  "GetPacket frs = (case fr_fragments frs of [] \<Rightarrow> None | (f, off) # fs \<Rightarrow> join_fragments f (of_nat (length f)) fs)"

fun join_partial :: "u8 list \<Rightarrow> u16 \<Rightarrow> (u8 list \<times> u16) list \<Rightarrow> u8 list option" where
  "join_partial p lastEndOffset [] = Some p" |
  "join_partial p lastEndOffset ((f, off) # fs) = do {
     p1 \<leftarrow> (if lastEndOffset > off then
              let newStart = ucast lastEndOffset - ucast off :: u32; newSize = of_nat (length f) - newStart in
              map_option (\<lambda>t. p @ t) (list_fragment newStart newSize f)
            else if lastEndOffset = off then Some (p @ f)
            else Some p);
     join_partial p1 (of_nat (length p1)) fs }"

definition GetPartialPacket :: "fragments \<Rightarrow> u8 list option" where
  "GetPartialPacket frs = (case fr_fragments frs of [] \<Rightarrow> None
     | (f, off) # fs \<Rightarrow> if off > 0 then Some [] else join_partial [] 0 (fr_fragments frs))"

section \<open>Reassembly and its timeouts\<close>

type_synonym frag_key = "u64 \<times> u32"
type_synonym frag_timeout = "time \<times> frag_key \<times> ipv4_header \<times> u32"

datatype l3_trace = TimeExceeded ipv4_header "u8 list" | DropFragmentTimeout ipv4_header "u8 list" u32

record l3 =
  l3_now :: time
  l3_timers :: "time list"
  l3_fragments :: "frag_key \<Rightarrow> fragments option"
  l3_timeoutEventList :: "(nat \<times> frag_timeout) list"
  l3_nodes :: nat
  l3_fragmentExpirationTimeout :: time
  l3_log :: "l3_trace list"

definition l3_init :: "time \<Rightarrow> l3" where
  "l3_init timeout = \<lparr>l3_now = 0, l3_timers = [], l3_fragments = Map.empty, l3_timeoutEventList = [], l3_nodes = 0,
     l3_fragmentExpirationTimeout = timeout, l3_log = []\<rparr>"

definition fragment_key :: "ipv4_header \<Rightarrow> frag_key" where
  "fragment_key ipHeader = (push_bit 32 (ucast (ih_source ipHeader)) OR ucast (ih_destination ipHeader),
     push_bit 16 (ucast (ih_identification ipHeader)) OR ucast (ih_protocol ipHeader))"

definition l3_Schedule :: "time \<Rightarrow> l3 \<Rightarrow> l3 option" where
  "l3_Schedule delay s = (if delay < 0 then None else Some (s\<lparr>l3_timers := insort (l3_now s + delay) (l3_timers s)\<rparr>))"

definition SetTimeout :: "frag_key \<Rightarrow> ipv4_header \<Rightarrow> u32 \<Rightarrow> l3 \<Rightarrow> (nat \<times> l3) option" where
  "SetTimeout key ipHeader iif s = do {
     s1 \<leftarrow> (if l3_timeoutEventList s = [] then l3_Schedule (l3_fragmentExpirationTimeout s) s else Some s);
     Some (l3_nodes s1, s1\<lparr>l3_timeoutEventList := l3_timeoutEventList s1 @
         [(l3_nodes s1, l3_now s + l3_fragmentExpirationTimeout s, key, ipHeader, iif)], l3_nodes := Suc (l3_nodes s1)\<rparr>) }"

definition erase_node :: "nat \<Rightarrow> (nat \<times> 'a) list \<Rightarrow> (nat \<times> 'a) list option" where
  "erase_node n es = (if n \<in> fst ` set es then Some (filter (\<lambda>e. fst e \<noteq> n) es) else None)"

definition ProcessFragment :: "u8 list \<Rightarrow> ipv4_header \<Rightarrow> u32 \<Rightarrow> l3 \<Rightarrow> (bool \<times> u8 list \<times> l3) option" where
  "ProcessFragment packet ipHeader iif s = (let key = fragment_key ipHeader in do {
     (frs, s1) \<leftarrow> (case l3_fragments s key of
         None \<Rightarrow> map_option (\<lambda>(iter, s1). (Fragments\<lparr>fr_timeoutIter := iter\<rparr>, s1)) (SetTimeout key ipHeader iif s)
       | Some frs \<Rightarrow> Some (frs, s));
     let frs1 = AddFragment packet (ih_fragmentOffset ipHeader) (\<not> IsLastFragment ipHeader) frs;
     if IsEntire frs1
     then do {
       p \<leftarrow> GetPacket frs1;
       es \<leftarrow> erase_node (fr_timeoutIter frs1) (l3_timeoutEventList s1);
       Some (True, p, s1\<lparr>l3_timeoutEventList := es, l3_fragments := (l3_fragments s1)(key := None)\<rparr>) }
     else Some (False, packet, s1\<lparr>l3_fragments := (l3_fragments s1)(key := Some frs1)\<rparr>) })"

text \<open>What \<^verbatim>\<open>LocalDeliver\<close> passes to the transport protocol, if anything.\<close>

definition LocalDeliver :: "u8 list \<Rightarrow> ipv4_header \<Rightarrow> u32 \<Rightarrow> l3 \<Rightarrow> (ip_packet option \<times> l3) option" where
  "LocalDeliver packet ip iif s =
     (if \<not> IsLastFragment ip \<or> ih_fragmentOffset ip \<noteq> 0 then do {
        (isPacketComplete, p, s1) \<leftarrow> ProcessFragment packet ip iif s;
        if \<not> isPacketComplete then Some (None, s1)
        else do { hdr \<leftarrow> SetFragmentOffset 0 ip; Some (Some (p, SetPayloadSize (of_nat (length p)) hdr), s1) } }
      else Some (Some (packet, ip), s))"

definition HandleFragmentsTimeout :: "frag_key \<Rightarrow> ipv4_header \<Rightarrow> u32 \<Rightarrow> l3 \<Rightarrow> l3 option" where
  "HandleFragmentsTimeout key ipHeader iif s = do {
     frs \<leftarrow> l3_fragments s key;
     packet \<leftarrow> GetPartialPacket frs;
     Some (s\<lparr>l3_fragments := (l3_fragments s)(key := None),
            l3_log := l3_log s @ (if length packet > 8 then [TimeExceeded ipHeader packet] else []) @
              [DropFragmentTimeout ipHeader packet iif]\<rparr>) }"

fun handle_expired :: "(nat \<times> frag_timeout) list \<Rightarrow> l3 \<Rightarrow> l3 option" where
  "handle_expired [] s = Some s" |
  "handle_expired ((n, t, key, ipHeader, iif) # es) s =
     (if t = l3_now s then do {
        s1 \<leftarrow> HandleFragmentsTimeout key ipHeader iif s;
        handle_expired es (s1\<lparr>l3_timeoutEventList := es\<rparr>) }
      else Some s)"

definition HandleTimeout :: "l3 \<Rightarrow> l3 option" where
  "HandleTimeout s = do {
     s1 \<leftarrow> handle_expired (l3_timeoutEventList s) s;
     (case l3_timeoutEventList s1 of [] \<Rightarrow> Some s1 | (n, t, _) # _ \<Rightarrow> l3_Schedule (t - l3_now s1) s1) }"

section \<open>Runs\<close>

text \<open>A packet for this node arrives, or the simulator executes the next pending event of the protocol. Time does not pass a
  pending event.\<close>

datatype l3_action = Deliver time "u8 list" ipv4_header u32 | Timer

fun possible :: "l3_action \<Rightarrow> l3 \<Rightarrow> bool" where
  "possible (Deliver t p hdr iif) s \<longleftrightarrow> l3_now s \<le> t \<and> (\<forall>e\<in>set (l3_timers s). t \<le> e)" |
  "possible Timer s \<longleftrightarrow> l3_timers s \<noteq> []"

fun l3_step :: "l3_action \<Rightarrow> l3 \<Rightarrow> (ip_packet option \<times> l3) option" where
  "l3_step (Deliver t p hdr iif) s = LocalDeliver p hdr iif (s\<lparr>l3_now := t\<rparr>)" |
  "l3_step Timer s = map_option (Pair None) (HandleTimeout (s\<lparr>l3_now := hd (l3_timers s), l3_timers := tl (l3_timers s)\<rparr>))"

inductive runs :: "l3 \<Rightarrow> (l3_action \<times> ip_packet option) list \<Rightarrow> l3 \<Rightarrow> bool" where
  stop: "runs s [] s" |
  act: "runs s tr s1 \<Longrightarrow> possible a s1 \<Longrightarrow> l3_step a s1 = Some (r, s2) \<Longrightarrow> runs s (tr @ [(a, r)]) s2"

section \<open>Fragmentation covers the packet\<close>

text \<open>The header of the fragment at an offset, and what it means that packets are the fragments of a packet: consecutive, and
  all but the last of the last one are followed by others.\<close>

definition fragment_header :: "bool \<Rightarrow> ipv4_header \<Rightarrow> nat \<Rightarrow> nat \<Rightarrow> bool \<Rightarrow> ipv4_header" where
  "fragment_header ck hdr off len lst = hdr\<lparr>
     ih_flags := (if lst \<and> IsLastFragment hdr then ih_flags hdr AND NOT MORE_FRAGMENTS else ih_flags hdr OR MORE_FRAGMENTS),
     ih_fragmentOffset := of_nat off + ih_fragmentOffset hdr, ih_payloadSize := of_nat len,
     ih_calcChecksum := ck \<or> ih_calcChecksum hdr\<rparr>"

fun fragments_from :: "bool \<Rightarrow> ipv4_header \<Rightarrow> nat \<Rightarrow> ip_packet list \<Rightarrow> bool" where
  "fragments_from ck hdr off [] \<longleftrightarrow> True" |
  "fragments_from ck hdr off ((q, h) # frs) \<longleftrightarrow> h = fragment_header ck hdr off (length q) (frs = []) \<and>
     fragments_from ck hdr (off + length q) frs"

lemma unat_ucast_u16: "unat (ucast (x :: u16) :: u32) = unat x"
proof -
  have "unat x < 2 ^ 32" using unsigned_less [of x, where 'a = nat] by simp
  then show ?thesis by (simp add: unsigned_ucast_eq take_bit_nat_eq_self)
qed

lemma unat_and_seven: "unat (w AND 7) = unat (w :: 'a::len word) mod 8" if "3 \<le> LENGTH('a)"
proof -
  have "(7 :: 'a word) = mask 3" by (simp add: mask_eq_exp_minus_1)
  then have "w AND 7 = take_bit 3 w" by (simp only: take_bit_eq_mask)
  then have "unat (w AND 7) = take_bit 3 (unat w)" by (simp only: unsigned_take_bit_eq)
  then show ?thesis by (simp add: take_bit_eq_mod)
qed

lemma aligned_16: "w AND 7 = 0 \<longleftrightarrow> 8 dvd unat (w :: u16)"
proof -
  have "unat (w AND 7) = unat w mod 8" by (rule unat_and_seven) simp
  then show ?thesis by (metis dvd_eq_mod_eq_0 unsigned_eq_0_iff)
qed

lemma align_down: "unat (w AND NOT 7 :: u32) = unat w div 8 * 8"
proof -
  have m: "(7 :: u32) = mask 3" by (simp add: mask_eq_exp_minus_1)
  have "w AND NOT 7 = push_bit 3 (drop_bit 3 w)"
    by (rule bit_word_eqI) (auto simp: bit_simps m simp del: mask_numeral)
  moreover have "w AND 7 = take_bit 3 w" by (simp only: m take_bit_eq_mask)
  ultimately have "w AND NOT 7 = w - (w AND 7)" by (metis bits_ident add_diff_cancel_right')
  moreover have "unat (w AND 7) = unat w mod 8" by (rule unat_and_seven) simp
  ultimately show ?thesis by (simp add: unat_sub word_le_nat_alt minus_mod_eq_div_mult)
qed

lemma offset_sum: "off + unat base < 2 ^ 16 \<Longrightarrow> unat (of_nat off + base :: u16) = off + unat base"
proof -
  assume "off + unat base < 2 ^ 16"
  moreover have "of_nat off + base = of_nat (off + unat base)" by simp
  ultimately show ?thesis by (simp only: unsigned_of_nat) (simp add: take_bit_nat_eq_self)
qed

lemma offset_aligned:
  assumes "8 dvd unat base" and "8 dvd off" and "off + unat base < 2 ^ 16"
  shows "(of_nat off + base :: u16) AND 7 = 0"
  using assms by (simp add: aligned_16 offset_sum)

lemma fragment_loop_step:
  assumes l: "length p < 2 ^ 16" "unat fs < 2 ^ 16" and p: "off \<le> length p"
    and b: "unat (ih_fragmentOffset hdr) + length p < 2 ^ 16" "8 dvd unat (ih_fragmentOffset hdr)" "8 dvd off"
  shows "fragment_loop ck p hdr fs (of_nat off) acc =
    (let more = off + unat fs < length p; n = (if more then unat fs else length p - off);
         frs = acc @ [(take n (drop off p), fragment_header ck hdr off n (\<not> more))] in
     if more then fragment_loop ck p hdr fs (of_nat (off + unat fs)) frs else Some frs)"
proof -
  have u: "unat (of_nat n :: u32) = n" if "n < 2 ^ 32" for n
    using that by (simp add: unsigned_of_nat take_bit_nat_eq_self)
  have o: "ucast (of_nat off :: u16) = (of_nat off :: u32)"
    by (rule word_unat_eq_iff [THEN iffD2]) (use l p in \<open>simp add: unsigned_ucast_eq unsigned_of_nat take_bit_nat_eq_self\<close>)
  have m: "of_nat off + fs < of_nat (length p) \<longleftrightarrow> off + unat fs < length p"
  proof -
    have "of_nat off + fs = of_nat (off + unat fs)" by simp
    then show ?thesis using u [of "off + unat fs"] u [of "length p"] l p by (simp add: word_less_nat_alt)
  qed
  have d: "of_nat (length p) - of_nat off = (of_nat (length p - off) :: u32)"
    using p by (simp add: of_nat_diff)
  have f: "SetFragmentOffset (of_nat off + ih_fragmentOffset hdr) h = Some (h\<lparr>ih_fragmentOffset := of_nat off + ih_fragmentOffset hdr\<rparr>)" for h
    using offset_aligned [OF b(2,3)] b(1) p by (simp add: SetFragmentOffset_def)
  have g: "list_fragment (of_nat off) (of_nat n) p = Some (take n (drop off p))" if "off + n \<le> length p" for n
    by (rule list_fragment_ok [OF that]) (use l in simp)
  have w: "ucast (of_nat n :: u32) = (of_nat n :: u16)" for n by (rule word_unat_eq_iff [THEN iffD2]) (simp add: unsigned_ucast_eq unsigned_of_nat)
  show ?thesis
  proof (cases "off + unat fs < length p")
    case True
    have "fs = of_nat (unat fs)" by simp
    then show ?thesis
      using g [of "unat fs"] True
      by (subst fragment_loop.simps, unfold o m d) (simp add: Let_def f fragment_header_def SetMoreFragments_def SetPayloadSize_def EnableChecksum_def)
  next
    case False
    then show ?thesis
      using g [of "length p - off"] p w [of "length p - off"]
      by (subst fragment_loop.simps, unfold o m d) (simp add: Let_def f fragment_header_def SetMoreFragments_def SetLastFragment_def SetPayloadSize_def EnableChecksum_def)
  qed
qed

lemma fragment_loop_splits:
  assumes l: "length p < 2 ^ 16" "unat fs < 2 ^ 16" "8 \<le> unat fs" "8 dvd unat fs" and p: "off < length p \<or> off = 0" "8 dvd off"
    and b: "unat (ih_fragmentOffset hdr) + length p < 2 ^ 16" "8 dvd unat (ih_fragmentOffset hdr)"
  shows "\<exists>frs. fragment_loop ck p hdr fs (of_nat off) acc = Some (acc @ frs) \<and> frs \<noteq> [] \<and> concat (map fst frs) = drop off p \<and>
    fragments_from ck hdr off frs \<and> (\<forall>(q, h)\<in>set frs. length q \<le> unat fs \<and> (p \<noteq> [] \<longrightarrow> q \<noteq> []) \<and> ih_fragmentOffset h AND 7 = 0)"
  using p
proof (induction "length p - off" arbitrary: off acc rule: less_induct)
  case less
  have o: "off \<le> length p" using less.prems by auto
  have al: "ih_fragmentOffset (fragment_header ck hdr off n m) AND 7 = 0" for n m
    using offset_aligned [OF b(2) less.prems(2)] b(1) o by (simp add: fragment_header_def)
  note step = fragment_loop_step [OF l(1,2) o b less.prems(2), of ck acc]
  show ?case
  proof (cases "off + unat fs < length p")
    case True
    let ?f = "(take (unat fs) (drop off p), fragment_header ck hdr off (unat fs) False)"
    have "length p - (off + unat fs) < length p - off" using l(3) True by simp
    then obtain frs where frs: "fragment_loop ck p hdr fs (of_nat (off + unat fs)) (acc @ [?f]) = Some ((acc @ [?f]) @ frs)"
      "frs \<noteq> []" "concat (map fst frs) = drop (off + unat fs) p" "fragments_from ck hdr (off + unat fs) frs"
      "\<forall>(q, h)\<in>set frs. length q \<le> unat fs \<and> (p \<noteq> [] \<longrightarrow> q \<noteq> []) \<and> ih_fragmentOffset h AND 7 = 0"
      using less.hyps [of "off + unat fs" "acc @ [?f]"] True l(4) less.prems(2) by auto
    have n: "length (fst ?f) = unat fs" using True by simp
    have "concat (map fst (?f # frs)) = drop off p"
      using frs(3) by (simp add: add.commute [of off] append_take_drop_id flip: drop_drop)
    moreover have "fst ?f \<noteq> []" using n l(3) by force
    ultimately show ?thesis
      using step frs True n al by (intro exI [of _ "?f # frs"]) (simp add: Let_def)
  next
    case False
    have "drop off p \<noteq> []" if "p \<noteq> []" using that less.prems(1) by auto
    then show ?thesis
      using step False al by (intro exI [of _ "[(drop off p, fragment_header ck hdr off (length p - off) True)]"]) (auto simp: Let_def)
  qed
qed

text \<open>C29: Fragmentation terminates for every MTU a fragment with 8 bytes fits in, and gives fragments that fit the MTU, join to
  the packet, stand at consecutive multiples of 8, and keep the header but for its flags, offset and size; all but the last say
  that more follow, and the last one says what the packet said.\<close>

theorem DoFragmentation_splits:
  assumes "28 \<le> unat mtu" and "ih_headerSize hdr = 20" and "ih_fragmentOffset hdr AND 7 = 0"
    and "unat (ih_fragmentOffset hdr) + length p < 2 ^ 16"
  shows "\<exists>frs. DoFragmentation ck p hdr (ucast (mtu :: u16)) = Some frs \<and> concat (map fst frs) = p \<and> frs \<noteq> [] \<and>
    fragments_from ck hdr 0 frs \<and> (\<forall>(q, h)\<in>set frs. length q + 20 \<le> unat mtu \<and> (p \<noteq> [] \<longrightarrow> q \<noteq> []) \<and> ih_fragmentOffset h AND 7 = 0)"
proof -
  let ?fs = "(ucast mtu - 20) AND NOT 7 :: u32"
  have "unat (ucast mtu - 20 :: u32) = unat mtu - 20" using assms(1) by (simp add: unat_sub word_le_nat_alt unat_ucast_u16)
  then have fs: "unat ?fs = (unat mtu - 20) div 8 * 8" by (simp only: align_down)
  have "8 \<le> unat ?fs" using assms(1) div_le_mono [of 8 "unat mtu - 20" 8] unfolding fs by simp
  moreover have "unat ?fs < 2 ^ 16" using unsigned_less [of mtu, where 'a = nat] unfolding fs by simp
  moreover have "unat ?fs + 20 \<le> unat mtu" using assms(1) div_times_less_eq_dividend [of "unat mtu - 20" 8] unfolding fs by linarith
  moreover have "8 dvd unat ?fs" unfolding fs by simp
  ultimately show ?thesis
    using fragment_loop_splits [of p ?fs 0 hdr ck "[]"] assms aligned_16 [of "ih_fragmentOffset hdr"]
    by (force simp: DoFragmentation_def Ipv4_GetSerializedSize_def)
qed

theorem DoFragmentation_splits_witness:
  "\<exists>frs. DoFragmentation True (replicate 100 7) (Ipv4Header\<lparr>ih_flags := DONT_FRAGMENT\<rparr>) (ucast (68 :: u16)) = Some frs \<and>
     concat (map fst frs) = replicate 100 7 \<and> (\<forall>(q, h)\<in>set frs. length q + 20 \<le> 68)"
proof -
  have "28 \<le> unat (68 :: u16)" by simp
  moreover have "ih_headerSize (Ipv4Header\<lparr>ih_flags := DONT_FRAGMENT\<rparr>) = 20"
    "ih_fragmentOffset (Ipv4Header\<lparr>ih_flags := DONT_FRAGMENT\<rparr>) AND 7 = 0"
    "unat (ih_fragmentOffset (Ipv4Header\<lparr>ih_flags := DONT_FRAGMENT\<rparr>)) + length (replicate 100 (7 :: u8)) < 2 ^ 16"
    by (simp_all add: Ipv4Header_def)
  ultimately show ?thesis using DoFragmentation_splits [of 68 "Ipv4Header\<lparr>ih_flags := DONT_FRAGMENT\<rparr>" "replicate 100 7" True] by fastforce
qed

section \<open>The bytes a list of fragments holds\<close>

definition byte_in :: "(u8 list \<times> u16) list \<Rightarrow> nat \<Rightarrow> bool" where
  "byte_in fs k \<longleftrightarrow> (\<exists>(q, off)\<in>set fs. unat off \<le> k \<and> k < unat off + length q)"

definition piece :: "u8 list \<Rightarrow> u8 list \<Rightarrow> u16 \<Rightarrow> bool" where
  "piece D q off \<longleftrightarrow> unat off + length q \<le> length D \<and> q = take (length q) (drop (unat off) D)"

lemma byte_in_simps [simp]:
  "\<not> byte_in [] k"
  "byte_in ((q, off) # fs) k \<longleftrightarrow> unat off \<le> k \<and> k < unat off + length q \<or> byte_in fs k"
  by (auto simp: byte_in_def)

lemma byte_in_set: "set fs = set gs \<Longrightarrow> byte_in fs k \<longleftrightarrow> byte_in gs k"
  by (simp add: byte_in_def)

lemma byte_in_from: "byte_in fs k \<Longrightarrow> \<forall>x\<in>set fs. n \<le> unat (snd x) \<Longrightarrow> n \<le> k"
  by (auto simp: byte_in_def)

lemma u16_of_nat: "n < 2 ^ 16 \<Longrightarrow> unat (of_nat n :: u16) = n"
  by (simp add: unsigned_of_nat take_bit_nat_eq_self)

lemma piece_end:
  assumes "piece D q off" and "length D < 2 ^ 16" and "n < 2 ^ 16"
  shows "max (of_nat n) (of_nat (length q) + off) = (of_nat (max n (unat off + length q)) :: u16)"
proof -
  have "of_nat (length q) + off = of_nat (unat off + length q)" by simp
  moreover have "unat off + length q < 2 ^ 16" using assms by (simp add: piece_def)
  ultimately show ?thesis using assms(3) u16_of_nat [of n] u16_of_nat [of "unat off + length q"]
    by (simp only: max_def word_le_nat_alt if_distrib [of of_nat] u16_of_nat)
qed

text \<open>In a list sorted by offset, a gap is a byte nobody holds below an offset.\<close>

lemma no_gap_iff:
  assumes "length D < 2 ^ 16" and "\<forall>(q, off)\<in>set fs. piece D q off" and "sorted (map snd fs)" and "n < 2 ^ 16"
  shows "no_gap (of_nat n) fs \<longleftrightarrow> (\<forall>(q, off)\<in>set fs. \<forall>k. n \<le> k \<and> k < unat off \<longrightarrow> byte_in fs k)"
  using assms(2-4)
proof (induction fs arbitrary: n)
  case (Cons x fs)
  obtain q off where x: "x = (q, off)" by force
  have le: "\<forall>y\<in>set fs. unat off \<le> unat (snd y)" using Cons.prems(2) x by (simp add: word_le_nat_alt)
  have p: "piece D q off" using Cons.prems(1) x by simp
  show ?case
  proof (cases "n < unat off")
    case True
    then have "\<not> byte_in (x # fs) n" using byte_in_from [OF _ le, of n] x by auto
    then show ?thesis using True Cons.prems(3) x by (auto simp: word_less_nat_alt u16_of_nat)
  next
    case False
    let ?n = "max n (unat off + length q)"
    have n: "?n < 2 ^ 16" using p assms(1) Cons.prems(3) by (simp add: piece_def)
    have "no_gap (of_nat n) (x # fs) \<longleftrightarrow> no_gap (of_nat ?n) fs"
      using False Cons.prems(3) x piece_end [OF p assms(1) Cons.prems(3)] by (simp add: word_less_nat_alt u16_of_nat)
    also have "\<dots> \<longleftrightarrow> (\<forall>(q, o1)\<in>set fs. \<forall>k. ?n \<le> k \<and> k < unat o1 \<longrightarrow> byte_in fs k)"
      using Cons n by simp
    also have "\<dots> \<longleftrightarrow> (\<forall>(q, o1)\<in>set (x # fs). \<forall>k. n \<le> k \<and> k < unat o1 \<longrightarrow> byte_in (x # fs) k)"
      using False x by (fastforce simp: not_le)
    finally show ?thesis .
  qed
qed simp

text \<open>Joining fragments extends a prefix of the packet.\<close>

fun reach :: "nat \<Rightarrow> (u8 list \<times> u16) list \<Rightarrow> nat" where
  "reach n [] = n" |
  "reach n ((q, off) # fs) = reach (if unat off \<le> n then max n (unat off + length q) else n) fs"

lemma reach_bounds:
  "n \<le> reach n fs" "\<forall>(q, off)\<in>set fs. piece D q off \<Longrightarrow> n \<le> length D \<Longrightarrow> reach n fs \<le> length D"
  by (induction n fs rule: reach.induct) (auto simp: piece_def)

lemma extend_prefix:
  assumes "piece D q off" and "unat off \<le> n" and "n \<le> length D" and "n < unat off + length q"
  shows "take n D @ drop (n - unat off) q = take (unat off + length q) D"
proof -
  have q: "q = take (length q) (drop (unat off) D)" and l: "unat off + length q \<le> length D" using assms(1) by (auto simp: piece_def)
  have "drop (n - unat off) q = drop n (take (unat off + length q) D)"
    using assms(2) by (subst q) (simp add: drop_take add.commute)
  moreover have "take n D = take n (take (unat off + length q) D)" using assms(4) by simp
  ultimately show ?thesis by (metis append_take_drop_id)
qed

lemma new_start:
  fixes off :: u16
  assumes "unat off < n" and "n < 2 ^ 16"
  shows "ucast (of_nat n :: u16) - ucast off = (of_nat (n - unat off) :: u32)"
proof -
  have "unat (ucast (of_nat n :: u16) :: u32) = n" "unat (ucast off :: u32) = unat off"
    using assms(2) by (simp_all add: unat_ucast_u16 u16_of_nat)
  then have "unat (ucast (of_nat n :: u16) - ucast off :: u32) = n - unat off"
    using assms(1) by (simp add: unat_sub word_le_nat_alt)
  moreover have "unat (of_nat (n - unat off) :: u32) = n - unat off" by (rule u32_of_nat) (use assms in simp)
  ultimately show ?thesis by (metis word_unat_eq_iff)
qed

lemma appended_fragment:
  assumes "piece D q off" and "unat off \<le> n" and "n \<le> length D" and "length D < 2 ^ 16"
  shows "(if of_nat n > off then
            let newStart = ucast (of_nat n :: u16) - ucast off :: u32 in
            if of_nat (length q) > newStart
            then map_option (\<lambda>t. take n D @ t) (list_fragment newStart (of_nat (length q) - newStart) q) else Some (take n D)
          else Some (take n D @ q)) = Some (take (max n (unat off + length q)) D)"
    and "(if of_nat n > off then
            let newStart = ucast (of_nat n :: u16) - ucast off :: u32; newSize = of_nat (length q) - newStart in
            map_option (\<lambda>t. take n D @ t) (list_fragment newStart newSize q)
          else if of_nat n = off then Some (take n D @ q) else Some (take n D)) = Some (take (max n (unat off + length q)) D)"
proof -
  let ?k = "n - unat off"
  have l: "length q < 2 ^ 32" "n < 2 ^ 16" "?k < 2 ^ 32" "length q \<le> 2 ^ 16" using assms by (auto simp: piece_def)
  have c: "of_nat n > off \<longleftrightarrow> unat off < n" "of_nat n = off \<longleftrightarrow> n = unat off"
    using l(2) by (auto simp: word_less_nat_alt u16_of_nat)
  have s: "of_nat (length q) > (of_nat ?k :: u32) \<longleftrightarrow> ?k < length q"
    using l by (simp add: word_less_nat_alt u32_of_nat)
  have e: "take n D @ drop ?k q = take (max n (unat off + length q)) D" if "?k < length q"
    using extend_prefix [OF assms(1-3)] that assms(2) by (simp add: max_def)
  have m: "max n (unat off + length q) = n" if "\<not> ?k < length q" using that assms(2) by simp
  have past: "list_fragment (of_nat ?k) (of_nat (length q) - of_nat ?k) q = Some []" if "\<not> ?k < length q"
    using list_fragment_past_end [OF _ l(3)] that by simp
  have q: "take n D @ q = take (max n (unat off + length q)) D" if "n = unat off"
    using e m that by (cases q) auto
  show "(if of_nat n > off then
            let newStart = ucast (of_nat n :: u16) - ucast off :: u32 in
            if of_nat (length q) > newStart
            then map_option (\<lambda>t. take n D @ t) (list_fragment newStart (of_nat (length q) - newStart) q) else Some (take n D)
          else Some (take n D @ q)) = Some (take (max n (unat off + length q)) D)"
    unfolding c Let_def using new_start [of off n] l(2) s e m q assms(2) tail_fragment [OF _ l(1), of ?k] by (cases "?k < length q") auto
  show "(if of_nat n > off then
            let newStart = ucast (of_nat n :: u16) - ucast off :: u32; newSize = of_nat (length q) - newStart in
            map_option (\<lambda>t. take n D @ t) (list_fragment newStart newSize q)
          else if of_nat n = off then Some (take n D @ q) else Some (take n D)) = Some (take (max n (unat off + length q)) D)"
    unfolding c Let_def using new_start [of off n] l(2) e m q past assms(2) tail_fragment [OF _ l(1), of ?k] by (cases "?k < length q") auto
qed

lemma join_fragments_ok:
  assumes "length D < 2 ^ 16" and "\<forall>(q, off)\<in>set fs. piece D q off" and "n \<le> length D" and "no_gap (of_nat n) fs"
  shows "join_fragments (take n D) (of_nat n) fs = Some (take (reach n fs) D)"
  using assms(2-4)
proof (induction fs arbitrary: n)
  case (Cons x fs)
  obtain q off where x: "x = (q, off)" by force
  have p: "piece D q off" using Cons.prems(1) x by simp
  have n: "n < 2 ^ 16" using Cons.prems(2) assms(1) by simp
  have o: "unat off \<le> n" using Cons.prems(3) x n by (auto simp: word_less_nat_alt u16_of_nat split: if_splits)
  let ?n = "max n (unat off + length q)"
  have l: "?n \<le> length D" using p Cons.prems(2) by (simp add: piece_def)
  have "no_gap (of_nat ?n) fs" using Cons.prems(3) x piece_end [OF p assms(1) n] by (simp split: if_splits)
  then have "join_fragments (take ?n D) (of_nat ?n) fs = Some (take (reach ?n fs) D)"
    using Cons.IH [OF _ l] Cons.prems(1) by simp
  then show ?case
    using appended_fragment(1) [OF p o Cons.prems(2) assms(1)] l o x by (simp only: join_fragments.simps reach.simps if_True bind.bind_lunit length_take min.absorb2)
qed simp

lemma join_partial_ok:
  assumes "length D < 2 ^ 16" and "\<forall>(q, off)\<in>set fs. piece D q off" and "n \<le> length D"
  shows "join_partial (take n D) (of_nat n) fs = Some (take (reach n fs) D)"
  using assms(2,3)
proof (induction fs arbitrary: n)
  case (Cons x fs)
  obtain q off where x: "x = (q, off)" by force
  have p: "piece D q off" using Cons.prems(1) x by simp
  have n: "n < 2 ^ 16" using Cons.prems(2) assms(1) by simp
  let ?n = "if unat off \<le> n then max n (unat off + length q) else n"
  have l: "?n \<le> length D" using p Cons.prems(2) by (simp add: piece_def)
  have IH: "join_partial (take ?n D) (of_nat ?n) fs = Some (take (reach ?n fs) D)"
    using Cons.IH [OF _ l] Cons.prems(1) by simp
  show ?case
  proof (cases "unat off \<le> n")
    case True
    then show ?thesis
      using appended_fragment(2) [OF p True Cons.prems(2) assms(1)] IH l x by (simp only: join_partial.simps reach.simps if_True bind.bind_lunit length_take min.absorb2)
  next
    case False
    then have "\<not> of_nat n > off" "of_nat n \<noteq> off" using n by (auto simp: word_less_nat_alt u16_of_nat)
    then show ?thesis using IH False x Cons.prems(2) by (simp del: of_nat_max)
  qed
qed simp

lemma reach_iff:
  assumes "sorted (map snd fs)"
  shows "k < reach n fs \<longleftrightarrow> (\<forall>j. n \<le> j \<and> j \<le> k \<longrightarrow> byte_in fs j)"
  using assms
proof (induction fs arbitrary: n)
  case Nil
  then show ?case by auto
next
  case (Cons x fs)
  obtain q off where x: "x = (q, off)" by force
  have le: "\<forall>y\<in>set fs. unat off \<le> unat (snd y)" using Cons.prems(1) x by (simp add: word_le_nat_alt)
  show ?case
  proof (cases "unat off \<le> n")
    case True
    have "k < reach n (x # fs) \<longleftrightarrow> (\<forall>j. max n (unat off + length q) \<le> j \<and> j \<le> k \<longrightarrow> byte_in fs j)"
      using Cons True x by simp
    also have "\<dots> \<longleftrightarrow> (\<forall>j. n \<le> j \<and> j \<le> k \<longrightarrow> byte_in (x # fs) j)"
      using True x by (fastforce simp: not_le)
    finally show ?thesis .
  next
    case False
    have "\<not> byte_in (x # fs) n" "\<not> byte_in fs n" using byte_in_from [OF _ le, of n] False x by auto
    then have "(\<forall>j. n \<le> j \<and> j \<le> k \<longrightarrow> byte_in fs j) \<longleftrightarrow> (\<forall>j. n \<le> j \<and> j \<le> k \<longrightarrow> byte_in (x # fs) j)"
      by (cases "n \<le> k") auto
    then show ?thesis using Cons False x by simp
  qed
qed

section \<open>Reassembly of one packet\<close>

definition holds_pieces :: "u8 list \<Rightarrow> fragments \<Rightarrow> bool" where
  "holds_pieces D frs \<longleftrightarrow> fr_fragments frs \<noteq> [] \<and> sorted (map snd (fr_fragments frs)) \<and>
     (\<forall>(q, off)\<in>set (fr_fragments frs). piece D q off) \<and>
     (fr_moreFragment frs \<longleftrightarrow> (case last (fr_fragments frs) of (q, off) \<Rightarrow> unat off + length q < length D))"

lemma sorted_insert_fragment:
  assumes "sorted (map snd fs)"
  shows "sorted (map snd (takeWhile (\<lambda>x. \<not> snd x > off) fs @ (q, off) # dropWhile (\<lambda>x. \<not> snd x > off) fs))"
  using assms
proof (induction fs)
  case (Cons x fs)
  then show ?case by (auto dest: set_takeWhileD set_dropWhileD)
qed simp

lemma AddFragment_ok:
  assumes "fr_fragments frs = [] \<or> holds_pieces D frs" and "piece D q off" and "mf \<longleftrightarrow> unat off + length q < length D"
  shows "holds_pieces D (AddFragment q off mf frs)" (is ?h)
    and "set (fr_fragments (AddFragment q off mf frs)) = insert (q, off) (set (fr_fragments frs))" (is ?s)
    and "fr_timeoutIter (AddFragment q off mf frs) = fr_timeoutIter frs"
proof -
  let ?P = "\<lambda>x. \<not> snd x > off"
  show s: ?s
    by (simp add: AddFragment_def Let_def) (metis set_append takeWhile_dropWhile_id)
  have "sorted (map snd (fr_fragments frs))" using assms(1) by (auto simp: holds_pieces_def)
  then have "sorted (map snd (fr_fragments (AddFragment q off mf frs)))"
    using sorted_insert_fragment [of "fr_fragments frs" off q] by (simp add: AddFragment_def Let_def)
  moreover have "\<forall>(q, off)\<in>set (fr_fragments (AddFragment q off mf frs)). piece D q off"
    unfolding s using assms(1,2) by (auto simp: holds_pieces_def)
  moreover have "last (dropWhile ?P (fr_fragments frs)) = last (fr_fragments frs)" if "dropWhile ?P (fr_fragments frs) \<noteq> []"
    by (metis last_appendR takeWhile_dropWhile_id that)
  ultimately show ?h
    using assms(1,3) unfolding holds_pieces_def
    by (cases "dropWhile ?P (fr_fragments frs) = []") (auto simp: AddFragment_def Let_def simp del: dropWhile_eq_Nil_conv)
qed (simp add: AddFragment_def Let_def)

lemma holds_piecesD:
  assumes "holds_pieces D frs"
  shows "\<forall>(q, off)\<in>set (fr_fragments frs). piece D q off" "sorted (map snd (fr_fragments frs))" "fr_fragments frs \<noteq> []"
    "\<not> fr_moreFragment frs \<Longrightarrow> \<exists>(q, off)\<in>set (fr_fragments frs). unat off + length q = length D"
proof -
  show "\<exists>(q, off)\<in>set (fr_fragments frs). unat off + length q = length D" if "\<not> fr_moreFragment frs"
    using assms that last_in_set [of "fr_fragments frs"] unfolding holds_pieces_def piece_def
    by (intro bexI [of _ "last (fr_fragments frs)"]) (fastforce split: prod.splits)+
qed (use assms in \<open>simp_all add: holds_pieces_def\<close>)

lemma IsEntire_iff:
  assumes "holds_pieces D frs" and "length D < 2 ^ 16"
  shows "IsEntire frs \<longleftrightarrow> \<not> fr_moreFragment frs \<and> (\<forall>k < length D. byte_in (fr_fragments frs) k)"
proof -
  let ?fs = "fr_fragments frs"
  note h = holds_piecesD [OF assms(1)]
  have g: "no_gap 0 ?fs \<longleftrightarrow> (\<forall>(q, off)\<in>set ?fs. \<forall>k < unat off. byte_in ?fs k)"
    using no_gap_iff [OF assms(2) h(1,2), of 0] by simp
  have "no_gap 0 ?fs \<longleftrightarrow> (\<forall>k < length D. byte_in ?fs k)" if m: "\<not> fr_moreFragment frs"
  proof
    obtain q off where l: "(q, off) \<in> set ?fs" "unat off + length q = length D" using h(4) [OF m] by auto
    assume "no_gap 0 ?fs"
    then have "\<forall>k < unat off. byte_in ?fs k" using l(1) g by auto
    moreover have "byte_in ?fs k" if "unat off \<le> k" "k < length D" for k
      using l that unfolding byte_in_def by (intro bexI [of _ "(q, off)"]) auto
    ultimately show "\<forall>k < length D. byte_in ?fs k" by (meson not_le)
  next
    assume "\<forall>k < length D. byte_in ?fs k"
    then show "no_gap 0 ?fs" using g h(1) by (fastforce simp: piece_def)
  qed
  then show ?thesis using h(3) by (auto simp: IsEntire_def)
qed

lemma GetPacket_ok:
  assumes "holds_pieces D frs" and "length D < 2 ^ 16" and "IsEntire frs"
  shows "GetPacket frs = Some D"
proof -
  let ?fs = "fr_fragments frs"
  note h = holds_piecesD [OF assms(1)]
  have e: "\<forall>k < length D. byte_in ?fs k" using IsEntire_iff [OF assms(1,2)] assms(3) by simp
  obtain q off fs where fs: "?fs = (q, off) # fs" using h(3) by (metis list.exhaust surj_pair)
  have g: "off = 0" "no_gap (of_nat (length q)) fs"
    using assms(3) unfolding IsEntire_def fs by (auto simp: word_gt_0 split: if_splits)
  have p: "piece D q 0" "\<forall>(q, off)\<in>set fs. piece D q off" using h(1) g fs by auto
  then have q: "length q \<le> length D" "q = take (length q) D" by (auto simp: piece_def)
  have "join_fragments q (of_nat (length q)) fs = Some (take (reach (length q) fs) D)"
    using join_fragments_ok [OF assms(2) p(2) q(1) g(2), folded q(2)] .
  moreover have "length D \<le> reach (length q) fs"
  proof (rule ccontr)
    assume n: "\<not> length D \<le> reach (length q) fs"
    let ?k = "reach (length q) fs"
    have "\<not> (\<forall>j. length q \<le> j \<and> j \<le> ?k \<longrightarrow> byte_in fs j)"
      using reach_iff [of fs ?k "length q"] h(2) fs by simp
    then obtain j where j: "length q \<le> j" "j \<le> ?k" "\<not> byte_in fs j" by blast
    then have "byte_in ?fs j" using e n by (meson le_less_trans not_le)
    then show False using j fs g(1) by simp
  qed
  ultimately show ?thesis by (simp add: GetPacket_def fs)
qed

lemma GetPartialPacket_ok:
  assumes "holds_pieces D frs" and "length D < 2 ^ 16"
  obtains n where "GetPartialPacket frs = Some (take n D)" "n \<le> length D" "\<forall>k < n. byte_in (fr_fragments frs) k"
    "\<not> byte_in (fr_fragments frs) n"
proof -
  let ?fs = "fr_fragments frs"
  note h = holds_piecesD [OF assms(1)]
  obtain q off fs where fs: "?fs = (q, off) # fs" using h(3) by (metis list.exhaust surj_pair)
  show ?thesis
  proof (cases "off > 0")
    case True
    then have "\<forall>x\<in>set ?fs. unat off \<le> unat (snd x)" "unat off > 0"
      using h(2) fs by (auto simp: word_le_nat_alt word_less_nat_alt)
    then have "\<not> byte_in ?fs 0" using byte_in_from [of ?fs 0 "unat off"] by auto
    then show ?thesis using that [of 0] True by (simp add: GetPartialPacket_def fs)
  next
    case False
    let ?n = "reach 0 ?fs"
    have r: "k < ?n \<longleftrightarrow> (\<forall>j \<le> k. byte_in ?fs j)" for k using reach_iff [OF h(2), of k 0] by simp
    have "GetPartialPacket frs = Some (take ?n D)"
      using False join_partial_ok [OF assms(2) h(1), of 0] by (simp add: GetPartialPacket_def fs)
    moreover have "?n \<le> length D" by (rule reach_bounds(2) [OF h(1)]) simp
    moreover have "\<forall>k < ?n. byte_in ?fs k" using r by blast
    moreover have "\<not> byte_in ?fs ?n" using r [of ?n] calculation(3) by (metis le_neq_implies_less less_irrefl)
    ultimately show ?thesis by (rule that)
  qed
qed

text \<open>The more-fragments flag follows the highest offset, not the end of the data: a middle fragment inside the last one hides that
  the datagram is there, until a fragment with an offset as high arrives.\<close>

lemma contained_fragment_blocks:
  fixes D :: "u8 list"
  assumes "length D = 48"
  defines "frs \<equiv> AddFragment (drop 24 D) 24 False (AddFragment (take 8 (drop 32 D)) 32 True (AddFragment (take 24 D) 0 True Fragments))"
  shows "\<forall>k < length D. byte_in (fr_fragments frs) k" and "\<not> IsEntire frs"
  using assms(1) by (auto simp: frs_def AddFragment_def Let_def Fragments_def IsEntire_def)

end
