(* ===== verification/Ip_Reassembly.thy ===== *)
theory Ip_Reassembly
  imports Ip_Fragments
begin

unbundle bit_operations_syntax

text \<open>
  Reassembly: the invariant of the fragment buffers and their timeouts, and what the runs of the protocol do with the
  fragments of several datagrams that arrive in any order, with duplicates, overlaps and losses.
\<close>

section \<open>The fragments of a datagram tile it\<close>

definition tiling :: "u8 list \<Rightarrow> (u8 list \<times> u16) set \<Rightarrow> bool" where
  "tiling D F \<longleftrightarrow> (\<forall>(q, off)\<in>F. piece D q off \<and> q \<noteq> []) \<and>
     (\<forall>k < length D. \<exists>(q, off)\<in>F. unat off \<le> k \<and> k < unat off + length q) \<and>
     (\<forall>(q, off)\<in>F. \<forall>(q', off')\<in>F. unat off \<le> unat off' \<and> unat off' < unat off + length q \<longrightarrow> (q, off) = (q', off'))"

lemma tilingD:
  assumes "tiling D F"
  shows "(q, off) \<in> F \<Longrightarrow> piece D q off" "(q, off) \<in> F \<Longrightarrow> q \<noteq> []"
    "k < length D \<Longrightarrow> \<exists>q off. (q, off) \<in> F \<and> unat off \<le> k \<and> k < unat off + length q"
    "(q, off) \<in> F \<Longrightarrow> (q', off') \<in> F \<Longrightarrow> unat off \<le> unat off' \<Longrightarrow> unat off' < unat off + length q \<Longrightarrow> (q, off) = (q', off')"
  using assms unfolding tiling_def by fast+

lemma piece_less: "piece D q off \<Longrightarrow> q \<noteq> [] \<Longrightarrow> unat off < length D"
  by (cases q) (auto simp: piece_def)

lemma sorted_last: "sorted (map f xs) \<Longrightarrow> x \<in> set xs \<Longrightarrow> f x \<le> f (last xs)"
  by (induction xs) (auto split: if_splits)

lemma IsEntire_tiling:
  assumes h: "holds_pieces D frs" and l: "length D < 2 ^ 16" and F: "tiling D F" "set (fr_fragments frs) \<subseteq> F"
  shows "IsEntire frs \<longleftrightarrow> set (fr_fragments frs) = F"
proof
  note T = tilingD [OF F(1)]
  assume e: "IsEntire frs"
  have "x \<in> set (fr_fragments frs)" if "x \<in> F" for x
  proof -
    obtain q off where x: "x = (q, off)" by force
    have "unat off < length D" using piece_less T(1,2) that x by blast
    then have "byte_in (fr_fragments frs) (unat off)" using e IsEntire_iff [OF h l] by simp
    then obtain q' off' where m: "(q', off') \<in> set (fr_fragments frs)" "unat off' \<le> unat off" "unat off < unat off' + length q'"
      by (auto simp: byte_in_def)
    then have "(q', off') = (q, off)" using T(4) [of q' off' q off] F(2) that x by auto
    then show ?thesis using m x by simp
  qed
  then show "set (fr_fragments frs) = F" using F(2) by auto
next
  note T = tilingD [OF F(1)]
  assume s: "set (fr_fragments frs) = F"
  have c: "\<forall>k < length D. byte_in (fr_fragments frs) k" using T(3) s unfolding byte_in_def by fast
  obtain q off where m: "last (fr_fragments frs) = (q, off)" by force
  note H = holds_piecesD [OF h]
  have qo: "(q, off) \<in> F" using s H(3) m last_in_set by metis
  have D: "unat off < length D" using piece_less T(1,2) [OF qo] by blast
  obtain q' off' where e: "(q', off') \<in> F" "unat off' \<le> length D - 1" "length D - 1 < unat off' + length q'"
  proof -
    have "length D - 1 < length D" using D by simp
    from T(3) [OF this] show ?thesis using that by blast
  qed
  have "off' \<le> off" using sorted_last [OF H(2), of "(q', off')"] e(1) m s by simp
  then have "(q', off') = (q, off)"
    using T(4) [of q' off' q off] e qo D by (simp add: word_le_nat_alt)
  then have "\<not> fr_moreFragment frs" using h m e by (simp add: holds_pieces_def)
  then show "IsEntire frs" using c IsEntire_iff [OF h l] by simp
qed

section \<open>Headers of fragments\<close>

lemma more_fragments_bits: "(w OR 2) AND 2 \<noteq> (0 :: 3 word)" "(w AND NOT 2) AND 2 = (0 :: 3 word)"
proof -
  have e: "(2 :: 3 word) = push_bit 1 1" by simp
  show "(w OR 2) AND 2 \<noteq> 0" unfolding e by (simp add: and_exp_eq_0_iff_not_bit bit_simps flip: push_bit_of_1)
  show "(w AND NOT 2) AND 2 = 0" unfolding e by (simp add: ac_simps)
qed

lemma fragment_header_simps [simp]:
  "IsLastFragment (fragment_header ck hdr off n lst) \<longleftrightarrow> lst \<and> IsLastFragment hdr"
  "ih_fragmentOffset (fragment_header ck hdr off n lst) = of_nat off + ih_fragmentOffset hdr"
  "fragment_key (fragment_header ck hdr off n lst) = fragment_key hdr"
  by (auto simp: fragment_header_def IsLastFragment_def fragment_key_def more_fragments_bits more_fragments_bits [simplified])

definition slices :: "ip_packet list \<Rightarrow> (u8 list \<times> u16) set" where
  "slices frs = (\<lambda>(q, h). (q, ih_fragmentOffset h)) ` set frs"

text \<open>A packet that belongs to a datagram: the bytes at its offset, and the more-fragments flag unless it ends the datagram.\<close>

definition genuine :: "(frag_key \<Rightarrow> u8 list) \<Rightarrow> u8 list \<Rightarrow> ipv4_header \<Rightarrow> bool" where
  "genuine D q h \<longleftrightarrow> piece (D (fragment_key h)) q (ih_fragmentOffset h) \<and>
     (\<not> IsLastFragment h \<longleftrightarrow> unat (ih_fragmentOffset h) + length q < length (D (fragment_key h)))"

definition offset_of :: "ip_packet \<Rightarrow> nat" where
  "offset_of x = unat (ih_fragmentOffset (snd x))"

text \<open>A packet that is a part of the datagram, and a list of packets that follow one another from an offset up to another.\<close>

definition part :: "u8 list \<Rightarrow> frag_key \<Rightarrow> ip_packet \<Rightarrow> bool" where
  "part p k x \<longleftrightarrow> fst x \<noteq> [] \<and> fragment_key (snd x) = k \<and> piece p (fst x) (ih_fragmentOffset (snd x)) \<and>
     (\<not> IsLastFragment (snd x) \<longleftrightarrow> offset_of x + length (fst x) < length p)"

fun segment :: "nat \<Rightarrow> ip_packet list \<Rightarrow> nat \<Rightarrow> bool" where
  "segment n [] m \<longleftrightarrow> n = m" |
  "segment n (x # xs) m \<longleftrightarrow> offset_of x = n \<and> segment (n + length (fst x)) xs m"

lemma segment_append: "segment n xs k \<Longrightarrow> segment k ys m \<Longrightarrow> segment n (xs @ ys) m"
  by (induction n xs k rule: segment.induct) auto

lemma segment_bounds: "segment n xs m \<Longrightarrow> n \<le> m \<and> (\<forall>x\<in>set xs. n \<le> offset_of x \<and> offset_of x + length (fst x) \<le> m)"
  by (induction n xs m rule: segment.induct) fastforce+

lemma segment_sorted: "segment n xs m \<Longrightarrow> sorted_wrt (\<lambda>x y. offset_of x + length (fst x) \<le> offset_of y) xs"
  by (induction n xs m rule: segment.induct) (auto dest: segment_bounds)

lemma segment_covers: "segment n xs m \<Longrightarrow> n \<le> k \<Longrightarrow> k < m \<Longrightarrow> \<exists>x\<in>set xs. offset_of x \<le> k \<and> k < offset_of x + length (fst x)"
proof (induction n xs m rule: segment.induct)
  case (2 n x xs m)
  then show ?case by (cases "k < n + length (fst x)") auto
qed simp

lemma segment_tiling:
  assumes "\<forall>x\<in>set frs. part p k x" and "segment 0 frs (length p)"
  shows "tiling p (slices frs)" and "inj_on (\<lambda>(q, h). (q, ih_fragmentOffset h)) (set frs)"
proof -
  have ne: "fst x \<noteq> []" if "x \<in> set frs" for x using assms(1) that by (auto simp: part_def)
  have u: "x = y" if xy: "x \<in> set frs" "y \<in> set frs" "offset_of x \<le> offset_of y" "offset_of y < offset_of x + length (fst x)" for x y
  proof -
    obtain i j where ij: "i < length frs" "j < length frs" "x = frs ! i" "y = frs ! j" using xy(1,2) by (metis in_set_conv_nth)
    note S = sorted_wrt_nth_less [OF segment_sorted [OF assms(2)]]
    have "i = j"
    proof (rule linorder_cases [of i j])
      assume "i < j"
      then show ?thesis using S [of i j] ij xy(4) by simp
    next
      assume "j < i"
      then show ?thesis using S [of j i] ij xy(3) ne [OF xy(2)] by (cases "fst y") auto
    qed
    then show ?thesis using ij by simp
  qed
  show "inj_on (\<lambda>(q, h). (q, ih_fragmentOffset h)) (set frs)"
  proof (rule inj_onI)
    fix x y assume xy: "x \<in> set frs" "y \<in> set frs" and "(case x of (q, h) \<Rightarrow> (q, ih_fragmentOffset h)) = (case y of (q, h) \<Rightarrow> (q, ih_fragmentOffset h))"
    then show "x = y" using u [of x y] ne [OF xy(1)] by (auto simp: offset_of_def split: prod.splits)
  qed
  have "\<forall>(q, off)\<in>slices frs. piece p q off \<and> q \<noteq> []"
    using assms(1) by (auto simp: slices_def part_def)
  moreover have "\<exists>(q, off)\<in>slices frs. unat off \<le> k \<and> k < unat off + length q" if "k < length p" for k
    using segment_covers [OF assms(2) le0 that] by (force simp: slices_def offset_of_def)
  moreover have "(q, h) = (q', h')" if "(q, h) \<in> set frs" "(q', h') \<in> set frs" "unat (ih_fragmentOffset h) \<le> unat (ih_fragmentOffset h')"
    "unat (ih_fragmentOffset h') < unat (ih_fragmentOffset h) + length q" for q h q' h'
    using u [OF that(1,2)] that(3,4) by (simp add: offset_of_def)
  then have "\<forall>(q, off)\<in>slices frs. \<forall>(q', off')\<in>slices frs.
    unat off \<le> unat off' \<and> unat off' < unat off + length q \<longrightarrow> (q, off) = (q', off')"
    by (auto simp: slices_def)
  ultimately show "tiling p (slices frs)" unfolding tiling_def by blast
qed

text \<open>The fragments of a part are parts that follow one another, so fragments may be fragmented again.\<close>

lemma piece_of_piece:
  assumes "piece p q0 off0" and "length p < 2 ^ 16" and "n + length q \<le> length q0" and "q = take (length q) (drop n q0)"
    and "off = of_nat n + off0"
  shows "piece p q off" and "unat off = unat off0 + n"
proof -
  have b: "unat off0 + length q0 \<le> length p" "q0 = take (length q0) (drop (unat off0) p)" using assms(1) by (auto simp: piece_def)
  show u: "unat off = unat off0 + n" using offset_sum [of n off0] b(1) assms(2,3,5) by simp
  have "drop n q0 = take (length q0 - n) (drop (unat off0 + n) p)" by (subst b(2)) (simp add: drop_take add.commute)
  then have "q = take (length q) (drop (unat off) p)" using assms(3,4) u by (metis min.absorb1 take_take add_le_imp_le_diff add.commute)
  then show "piece p q off" using b(1) assms(3) u by (simp add: piece_def)
qed

lemma fragments_parts:
  assumes "fragments_from ck h0 n frs" and "concat (map fst frs) = drop n q0" and "n \<le> length q0" and "length p < 2 ^ 16"
    and "part p k (q0, h0)" and "\<forall>x\<in>set frs. fst x \<noteq> []"
  shows "(\<forall>x\<in>set frs. part p k x) \<and> segment (offset_of (q0, h0) + n) frs (offset_of (q0, h0) + length q0)"
  using assms(1-3,6)
proof (induction frs arbitrary: n)
  case (Cons x frs)
  obtain q h where x: "x = (q, h)" by force
  let ?n = "n + length q" and ?o = "offset_of (q0, h0)"
  have h: "h = fragment_header ck h0 n (length q) (frs = [])" and f: "fragments_from ck h0 ?n frs"
    using Cons.prems(1) x by simp_all
  have c: "q @ concat (map fst frs) = drop n q0" using Cons.prems(2) x by simp
  have l: "?n + length (concat (map fst frs)) = length q0" using arg_cong [OF c, of length] Cons.prems(3) by simp
  have "concat (map fst frs) = drop (length q) (drop n q0)" by (simp flip: c)
  then have c': "concat (map fst frs) = drop ?n q0" by (simp add: add.commute)
  have IH: "(\<forall>x\<in>set frs. part p k x) \<and> segment (?o + ?n) frs (?o + length q0)"
    by (rule Cons.IH [OF f c']) (use l Cons.prems(4) in simp_all)
  have q: "q = take (length q) (drop n q0)" by (simp flip: c)
  have P: "piece p q0 (ih_fragmentOffset h0)" "fragment_key h0 = k" "\<not> IsLastFragment h0 \<longleftrightarrow> ?o + length q0 < length p"
    using assms(5) by (auto simp: part_def)
  have off: "ih_fragmentOffset h = of_nat n + ih_fragmentOffset h0" using h by simp
  note Q = piece_of_piece [OF P(1) assms(4) _ q off]
  have o: "offset_of x = ?o + n" using Q(2) l x by (simp add: offset_of_def)
  have "?o + length q0 \<le> length p" using P(1) by (simp add: piece_def offset_of_def)
  moreover have "?n < length q0 \<longleftrightarrow> frs \<noteq> []"
  proof (cases frs)
    case (Cons y ys)
    then have "fst y \<noteq> []" using Cons.prems(4) by simp
    then show ?thesis using l Cons by (cases "fst y") simp_all
  qed (use l in simp)
  ultimately have "\<not> IsLastFragment h \<longleftrightarrow> offset_of x + length q < length p"
    using P(3) h o l by auto
  then have "part p k x" using Q(1) l h x P(2) Cons.prems(4) by (simp add: part_def)
  then show ?case using IH o x by (simp add: add.assoc)
qed simp

lemma DoFragmentation_parts:
  assumes "28 \<le> unat mtu" and "ih_headerSize hdr = 20" and "ih_fragmentOffset hdr AND 7 = 0" and "length p < 2 ^ 16" and "part p k (q, hdr)"
  shows "\<exists>frs. DoFragmentation ck q hdr (ucast (mtu :: u16)) = Some frs \<and> fragments_from ck hdr 0 frs \<and>
    (\<forall>x\<in>set frs. part p k x \<and> length (fst x) + 20 \<le> unat mtu \<and> ih_fragmentOffset (snd x) AND 7 = 0) \<and>
    segment (offset_of (q, hdr)) frs (offset_of (q, hdr) + length q)"
proof -
  have q: "q \<noteq> []" "unat (ih_fragmentOffset hdr) + length q < 2 ^ 16" using assms(4,5) by (auto simp: part_def piece_def)
  obtain frs where F: "DoFragmentation ck q hdr (ucast mtu) = Some frs" "concat (map fst frs) = q" "fragments_from ck hdr 0 frs"
    "\<forall>(q', h)\<in>set frs. length q' + 20 \<le> unat mtu \<and> (q \<noteq> [] \<longrightarrow> q' \<noteq> []) \<and> ih_fragmentOffset h AND 7 = 0"
    using DoFragmentation_splits [OF assms(1-3) q(2), of ck] by auto
  have "(\<forall>x\<in>set frs. part p k x) \<and> segment (offset_of (q, hdr) + 0) frs (offset_of (q, hdr) + length q)"
    by (rule fragments_parts [OF F(3) _ _ assms(4,5)]) (use F(2,4) q(1) in auto)
  then show ?thesis using F by fastforce
qed

lemma part_genuine: "part (D (fragment_key h)) k (q, h) \<Longrightarrow> genuine D q h"
  by (auto simp: part_def genuine_def offset_of_def)

section \<open>The invariant\<close>

text \<open>Timeouts and buffers correspond, the timeouts are sorted and lie in the future, every buffer holds pieces of its
  datagram, and a pending event is due no later than the first timeout.\<close>

definition honest_log :: "(frag_key \<Rightarrow> u8 list) \<Rightarrow> l3_trace \<Rightarrow> bool" where
  "honest_log D x = (case x of TimeExceeded h p \<Rightarrow> p = take (length p) (D (fragment_key h)) \<and> 8 < length p
     | DropFragmentTimeout h p i \<Rightarrow> p = take (length p) (D (fragment_key h)))"

definition l3_base :: "time \<Rightarrow> (frag_key \<Rightarrow> u8 list) \<Rightarrow> l3 \<Rightarrow> bool" where
  "l3_base E D s \<longleftrightarrow> l3_fragmentExpirationTimeout s = E \<and> sorted (l3_timers s) \<and> (\<forall>e\<in>set (l3_timers s). l3_now s \<le> e) \<and>
     sorted (map (fst \<circ> snd) (l3_timeoutEventList s)) \<and> distinct (map fst (l3_timeoutEventList s)) \<and>
     (\<forall>(n, t, k, h, i)\<in>set (l3_timeoutEventList s). l3_now s \<le> t \<and> t \<le> l3_now s + E \<and> n < l3_nodes s \<and> fragment_key h = k \<and>
        (\<exists>frs. l3_fragments s k = Some frs \<and> fr_timeoutIter frs = n)) \<and>
     (\<forall>k frs. l3_fragments s k = Some frs \<longrightarrow> holds_pieces (D k) frs \<and>
        (\<exists>t h i. (fr_timeoutIter frs, t, k, h, i) \<in> set (l3_timeoutEventList s))) \<and>
     (\<forall>x\<in>set (l3_log s). honest_log D x)"

definition l3_ok :: "time \<Rightarrow> (frag_key \<Rightarrow> u8 list) \<Rightarrow> l3 \<Rightarrow> bool" where
  "l3_ok E D s \<longleftrightarrow> l3_base E D s \<and>
     (\<forall>e\<in>set (l3_timeoutEventList s). l3_timers s \<noteq> [] \<and> hd (l3_timers s) \<le> fst (snd e))"

definition due :: "l3 \<Rightarrow> frag_key \<Rightarrow> time \<Rightarrow> bool" where
  "due s k t \<longleftrightarrow> (\<exists>n h i. (n, t, k, h, i) \<in> set (l3_timeoutEventList s))"

definition received :: "l3 \<Rightarrow> frag_key \<Rightarrow> (u8 list \<times> u16) set" where
  "received s k = (case l3_fragments s k of None \<Rightarrow> {} | Some frs \<Rightarrow> set (fr_fragments frs))"

lemma l3_baseD:
  assumes "l3_base E D s"
  shows "l3_fragmentExpirationTimeout s = E" "sorted (l3_timers s)" "e \<in> set (l3_timers s) \<Longrightarrow> l3_now s \<le> e"
    "sorted (map (fst \<circ> snd) (l3_timeoutEventList s))" "distinct (map fst (l3_timeoutEventList s))"
    "(n, t, k, h, i) \<in> set (l3_timeoutEventList s) \<Longrightarrow> l3_now s \<le> t \<and> t \<le> l3_now s + E \<and> n < l3_nodes s \<and> fragment_key h = k \<and>
        (\<exists>frs. l3_fragments s k = Some frs \<and> fr_timeoutIter frs = n)"
    "l3_fragments s k = Some frs \<Longrightarrow> holds_pieces (D k) frs"
    "l3_fragments s k = Some frs \<Longrightarrow> \<exists>t h i. (fr_timeoutIter frs, t, k, h, i) \<in> set (l3_timeoutEventList s)"
    "x \<in> set (l3_log s) \<Longrightarrow> honest_log D x"
  using assms unfolding l3_base_def by fast+

lemma l3_okD:
  assumes "l3_ok E D s"
  shows "l3_base E D s" "(n, t, r) \<in> set (l3_timeoutEventList s) \<Longrightarrow> l3_timers s \<noteq> [] \<and> hd (l3_timers s) \<le> t"
  using assms unfolding l3_ok_def by force+

lemma l3_init_ok: "l3_ok E D (l3_init E)"
  by (simp add: l3_ok_def l3_base_def l3_init_def)

lemma due_unique: "l3_base E D s \<Longrightarrow> due s k t \<Longrightarrow> due s k t' \<Longrightarrow> t = t'"
proof -
  assume b: "l3_base E D s" and "due s k t" "due s k t'"
  then obtain n h i n' h' i' where m: "(n, t, k, h, i) \<in> set (l3_timeoutEventList s)" "(n', t', k, h', i') \<in> set (l3_timeoutEventList s)"
    unfolding due_def by blast
  have "n = n'" using l3_baseD(6) [OF b m(1)] l3_baseD(6) [OF b m(2)] by auto
  then have "(n, t, k, h, i) = (n', t', k, h', i')"
    using m l3_baseD(5) [OF b] by (metis eq_key_imp_eq_value)
  then show "t = t'" by simp
qed

lemma due_iff: "l3_base E D s \<Longrightarrow> l3_fragments s k \<noteq> None \<longleftrightarrow> (\<exists>t. due s k t)"
  unfolding due_def using l3_baseD(6,8) by fast

lemma l3_ok_later:
  assumes "l3_ok E D s" and "l3_now s \<le> t" and "\<forall>e\<in>set (l3_timers s). t \<le> e"
  shows "l3_ok E D (s\<lparr>l3_now := t\<rparr>)"
proof -
  note b = l3_baseD [OF l3_okD(1) [OF assms(1)]]
  have "t \<le> t'" if "(n, t', r) \<in> set (l3_timeoutEventList s)" for n t' r
    using l3_okD(2) [OF assms(1) that] assms(3) hd_in_set by force
  then have "l3_base E D (s\<lparr>l3_now := t\<rparr>)"
    unfolding l3_base_def using b assms(2,3) by (auto; fastforce)
  then show ?thesis using assms(1) unfolding l3_ok_def by simp
qed

lemma erase_ok:
  assumes ok: "l3_ok E D s" and f: "l3_fragments s k = Some frs"
  obtains es where "erase_node (fr_timeoutIter frs) (l3_timeoutEventList s) = Some es"
    "l3_ok E D (s\<lparr>l3_timeoutEventList := es, l3_fragments := (l3_fragments s)(k := None)\<rparr>)"
    "\<And>k' t. due (s\<lparr>l3_timeoutEventList := es, l3_fragments := (l3_fragments s)(k := None)\<rparr>) k' t \<longleftrightarrow> k' \<noteq> k \<and> due s k' t"
proof -
  let ?n = "fr_timeoutIter frs"
  let ?es = "filter (\<lambda>e. fst e \<noteq> ?n) (l3_timeoutEventList s)"
  let ?s = "s\<lparr>l3_timeoutEventList := ?es, l3_fragments := (l3_fragments s)(k := None)\<rparr>"
  note b = l3_baseD [OF l3_okD(1) [OF ok]]
  obtain t h i where m: "(?n, t, k, h, i) \<in> set (l3_timeoutEventList s)" using b(8) [OF f] by blast
  have key: "k' = k" if "(?n, t', k', h', i') \<in> set (l3_timeoutEventList s)" for t' k' h' i'
    using m that b(5) by (metis eq_key_imp_eq_value Pair_inject)
  have node: "n = ?n" if "(n, t', k, h', i') \<in> set (l3_timeoutEventList s)" for n t' h' i'
    using b(6) [OF that] f by simp
  have e: "erase_node ?n (l3_timeoutEventList s) = Some ?es" using m by (force simp: erase_node_def)
  have "l3_base E D ?s"
    unfolding l3_base_def
  proof (intro conjI)
    show "\<forall>(n, t, k', h, i)\<in>set (l3_timeoutEventList ?s). l3_now ?s \<le> t \<and> t \<le> l3_now ?s + E \<and> n < l3_nodes ?s \<and>
        fragment_key h = k' \<and> (\<exists>frs. l3_fragments ?s k' = Some frs \<and> fr_timeoutIter frs = n)"
      using b(6) node by auto
    show "\<forall>k' frs. l3_fragments ?s k' = Some frs \<longrightarrow> holds_pieces (D k') frs \<and>
        (\<exists>t h i. (fr_timeoutIter frs, t, k', h, i) \<in> set (l3_timeoutEventList ?s))"
      using b(7,8) key by simp metis
  qed (use b in \<open>auto simp: sorted_filter distinct_map_filter\<close>)
  then have "l3_ok E D ?s" using ok unfolding l3_ok_def by auto
  moreover have "due ?s k' t \<longleftrightarrow> k' \<noteq> k \<and> due s k' t" for k' t
    using key node unfolding due_def by simp metis
  ultimately show ?thesis using that e by blast
qed

text \<open>A fragment finds the buffer of its datagram, or opens one with a timeout at the end of the list.\<close>

lemma sorted_hd: "sorted xs \<Longrightarrow> x \<in> set xs \<Longrightarrow> hd xs \<le> (x :: 'a :: linorder)"
  by (cases xs) auto

lemma buffer_ok:
  assumes ok: "l3_ok E D s" and E: "0 \<le> E" and k: "k = fragment_key h"
  obtains frs s1 where
    "(case l3_fragments s k of
         None \<Rightarrow> map_option (\<lambda>(iter, s1). (Fragments\<lparr>fr_timeoutIter := iter\<rparr>, s1)) (SetTimeout k h iif s)
       | Some frs \<Rightarrow> Some (frs, s)) = Some (frs, s1)"
    "l3_fragments s1 = l3_fragments s" "l3_now s1 = l3_now s" "l3_log s1 = l3_log s"
    "set (fr_fragments frs) = received s k" "fr_fragments frs = [] \<or> holds_pieces (D k) frs"
    "\<And>new. holds_pieces (D k) new \<Longrightarrow> fr_timeoutIter new = fr_timeoutIter frs \<Longrightarrow>
       l3_ok E D (s1\<lparr>l3_fragments := (l3_fragments s1)(k := Some new)\<rparr>)"
    "\<And>k' t. due s1 k' t \<longleftrightarrow> due s k' t \<or> k' = k \<and> l3_fragments s k = None \<and> t = l3_now s + E"
proof (cases "l3_fragments s k")
  case (Some frs)
  note b = l3_baseD [OF l3_okD(1) [OF ok]]
  have "l3_ok E D (s\<lparr>l3_fragments := (l3_fragments s)(k := Some new)\<rparr>)"
    if "holds_pieces (D k) new" "fr_timeoutIter new = fr_timeoutIter frs" for new
  proof -
    have "l3_base E D (s\<lparr>l3_fragments := (l3_fragments s)(k := Some new)\<rparr>)"
      unfolding l3_base_def
    proof (intro conjI)
      show "\<forall>(n, t, k', h, i)\<in>set (l3_timeoutEventList (s\<lparr>l3_fragments := (l3_fragments s)(k \<mapsto> new)\<rparr>)).
        l3_now (s\<lparr>l3_fragments := (l3_fragments s)(k \<mapsto> new)\<rparr>) \<le> t \<and> t \<le> l3_now (s\<lparr>l3_fragments := (l3_fragments s)(k \<mapsto> new)\<rparr>) + E \<and>
        n < l3_nodes (s\<lparr>l3_fragments := (l3_fragments s)(k \<mapsto> new)\<rparr>) \<and> fragment_key h = k' \<and>
        (\<exists>frs. l3_fragments (s\<lparr>l3_fragments := (l3_fragments s)(k \<mapsto> new)\<rparr>) k' = Some frs \<and> fr_timeoutIter frs = n)"
        using b(6) that(2) Some by fastforce
    qed (use b that Some in auto)
    then show ?thesis using ok unfolding l3_ok_def by simp
  qed
  then show ?thesis using that [of frs s] Some b(7) [OF Some] by (simp add: received_def)
next
  case None
  note b = l3_baseD [OF l3_okD(1) [OF ok]]
  let ?ts = "if l3_timeoutEventList s = [] then insort (l3_now s + E) (l3_timers s) else l3_timers s"
  let ?e = "(l3_nodes s, l3_now s + E, k, h, iif)"
  let ?s = "s\<lparr>l3_timers := ?ts, l3_timeoutEventList := l3_timeoutEventList s @ [?e], l3_nodes := Suc (l3_nodes s)\<rparr>"
  have S: "SetTimeout k h iif s = Some (l3_nodes s, ?s)"
    using b(1) E by (cases "l3_timeoutEventList s") (simp_all add: SetTimeout_def l3_Schedule_def)
  have "l3_ok E D (?s\<lparr>l3_fragments := (l3_fragments ?s)(k := Some new)\<rparr>)"
    if new: "holds_pieces (D k) new" "fr_timeoutIter new = l3_nodes s" for new
  proof -
    let ?s' = "?s\<lparr>l3_fragments := (l3_fragments ?s)(k := Some new)\<rparr>"
    have "l3_base E D ?s'"
      unfolding l3_base_def
    proof (intro conjI)
      show "\<forall>(n, t, k', h, i)\<in>set (l3_timeoutEventList ?s'). l3_now ?s' \<le> t \<and> t \<le> l3_now ?s' + E \<and> n < l3_nodes ?s' \<and>
          fragment_key h = k' \<and> (\<exists>frs. l3_fragments ?s' k' = Some frs \<and> fr_timeoutIter frs = n)"
        using b(6) new k None E by fastforce
      show "sorted (map (fst \<circ> snd) (l3_timeoutEventList ?s'))"
        using b(4,6) by (fastforce simp: sorted_append)
      show "distinct (map fst (l3_timeoutEventList ?s'))" using b(5,6) by fastforce
    qed (use b new E None in \<open>auto simp: sorted_insort set_insort_key\<close>)
    moreover have "\<forall>e\<in>set (l3_timeoutEventList ?s'). l3_timers ?s' \<noteq> [] \<and> hd (l3_timers ?s') \<le> fst (snd e)"
    proof (cases "l3_timeoutEventList s = []")
      case True
      have "hd (insort (l3_now s + E) (l3_timers s)) \<le> l3_now s + E"
        by (rule sorted_hd) (use b(2) in \<open>simp_all add: sorted_insort set_insort_key\<close>)
      then show ?thesis using True by (simp add: insort_not_Nil)
    next
      case False
      then obtain n t r where m: "(n, t, r) \<in> set (l3_timeoutEventList s)" by (metis list.set_intros(1) neq_Nil_conv prod_cases3)
      have "t \<le> l3_now s + E" using b(6) [of n t "fst r" "fst (snd r)" "snd (snd r)"] m by simp
      then have "l3_timers s \<noteq> [] \<and> hd (l3_timers s) \<le> l3_now s + E" using l3_okD(2) [OF ok m] by simp
      then show ?thesis using l3_okD(2) [OF ok] False by auto
    qed
    ultimately show ?thesis unfolding l3_ok_def by simp
  qed
  then show ?thesis using that [of "Fragments\<lparr>fr_timeoutIter := l3_nodes s\<rparr>" ?s] None S
    by (auto simp: received_def Fragments_def due_def)
qed

definition is_fragment :: "ipv4_header \<Rightarrow> bool" where
  "is_fragment h \<longleftrightarrow> \<not> IsLastFragment h \<or> ih_fragmentOffset h \<noteq> 0"

definition complete :: "l3 \<Rightarrow> u8 list \<Rightarrow> ipv4_header \<Rightarrow> bool" where
  "complete s p h = (case l3_fragments s (fragment_key h) of
       None \<Rightarrow> IsEntire (AddFragment p (ih_fragmentOffset h) (\<not> IsLastFragment h) Fragments)
     | Some frs \<Rightarrow> IsEntire (AddFragment p (ih_fragmentOffset h) (\<not> IsLastFragment h) frs))"

lemma IsEntire_iter: "IsEntire (AddFragment p off mf (frs\<lparr>fr_timeoutIter := n\<rparr>)) = IsEntire (AddFragment p off mf frs)"
  by (simp add: IsEntire_def AddFragment_def Let_def)

text \<open>What a fragment does to the buffers and their timeouts, and when it completes a tiled datagram.\<close>

definition fragment_effect :: "time \<Rightarrow> frag_key \<Rightarrow> u8 list \<times> u16 \<Rightarrow> bool \<Rightarrow> l3 \<Rightarrow> l3 \<Rightarrow> bool" where
  "fragment_effect dl k x c s s' \<longleftrightarrow> received s' k = (if c then {} else insert x (received s k)) \<and>
     (\<forall>k'. k' \<noteq> k \<longrightarrow> received s' k' = received s k') \<and>
     (\<forall>k' t. due s' k' t \<longleftrightarrow> (if k' \<noteq> k then due s k' t else \<not> c \<and> (due s k t \<or> l3_fragments s k = None \<and> t = dl)))"

lemma fragment_effectD:
  assumes "fragment_effect dl k x c s s'"
  shows "received s' k = (if c then {} else insert x (received s k))" "k' \<noteq> k \<Longrightarrow> received s' k' = received s k'"
    "due s' k' t \<longleftrightarrow> (if k' \<noteq> k then due s k' t else \<not> c \<and> (due s k t \<or> l3_fragments s k = None \<and> t = dl))"
  using assms unfolding fragment_effect_def by blast+

lemma complete_tiling:
  assumes ok: "l3_ok E D s" and g: "genuine D p h" and l: "length (D (fragment_key h)) < 2 ^ 16"
    and F: "tiling (D (fragment_key h)) F" "insert (p, ih_fragmentOffset h) (received s (fragment_key h)) \<subseteq> F"
  shows "complete s p h \<longleftrightarrow> insert (p, ih_fragmentOffset h) (received s (fragment_key h)) = F"
proof -
  let ?k = "fragment_key h" and ?off = "ih_fragmentOffset h" and ?mf = "\<not> IsLastFragment h"
  define frs where "frs = (case l3_fragments s ?k of None \<Rightarrow> Fragments | Some frs \<Rightarrow> frs)"
  have f: "fr_fragments frs = [] \<or> holds_pieces (D ?k) frs" "set (fr_fragments frs) = received s ?k"
    using l3_baseD(7) [OF l3_okD(1) [OF ok], of ?k]
    by (cases "l3_fragments s ?k"; simp add: frs_def received_def Fragments_def)+
  have "piece (D ?k) p ?off" "?mf \<longleftrightarrow> unat ?off + length p < length (D ?k)" using g by (simp_all add: genuine_def)
  note A = AddFragment_ok [OF f(1) this]
  have "complete s p h = IsEntire (AddFragment p ?off ?mf frs)"
    by (cases "l3_fragments s ?k") (simp_all add: complete_def frs_def)
  then show ?thesis using IsEntire_tiling [OF A(1) l F(1)] F(2) A(2) f(2) by simp
qed

lemma ProcessFragment_ok:
  assumes ok: "l3_ok E D s" and E: "0 \<le> E" and g: "genuine D p h" and l: "length (D (fragment_key h)) < 2 ^ 16"
  obtains s' where
    "ProcessFragment p h iif s = Some (if complete s p h then (True, D (fragment_key h), s') else (False, p, s'))"
    "l3_ok E D s'" "l3_now s' = l3_now s"
    "fragment_effect (l3_now s + E) (fragment_key h) (p, ih_fragmentOffset h) (complete s p h) s s'"
proof -
  let ?k = "fragment_key h" and ?off = "ih_fragmentOffset h" and ?mf = "\<not> IsLastFragment h"
  obtain frs s1 where B:
    "(case l3_fragments s ?k of
         None \<Rightarrow> map_option (\<lambda>(iter, s1). (Fragments\<lparr>fr_timeoutIter := iter\<rparr>, s1)) (SetTimeout ?k h iif s)
       | Some frs \<Rightarrow> Some (frs, s)) = Some (frs, s1)"
    "l3_fragments s1 = l3_fragments s" "l3_now s1 = l3_now s" "l3_log s1 = l3_log s"
    "set (fr_fragments frs) = received s ?k" "fr_fragments frs = [] \<or> holds_pieces (D ?k) frs"
    "\<And>new. holds_pieces (D ?k) new \<Longrightarrow> fr_timeoutIter new = fr_timeoutIter frs \<Longrightarrow>
       l3_ok E D (s1\<lparr>l3_fragments := (l3_fragments s1)(?k := Some new)\<rparr>)"
    "\<And>k' t. due s1 k' t \<longleftrightarrow> due s k' t \<or> k' = ?k \<and> l3_fragments s ?k = None \<and> t = l3_now s + E"
    by (rule buffer_ok [OF ok E refl, of h iif]) (rule that)
  let ?new = "AddFragment p ?off ?mf frs"
  have "piece (D ?k) p ?off" "?mf \<longleftrightarrow> unat ?off + length p < length (D ?k)" using g by (simp_all add: genuine_def)
  note A = AddFragment_ok [OF B(6) this]
  have c: "complete s p h = IsEntire ?new"
    using B(1) by (cases "l3_fragments s ?k") (auto simp: complete_def IsEntire_iter)
  let ?s2 = "s1\<lparr>l3_fragments := (l3_fragments s1)(?k := Some ?new)\<rparr>"
  have ok2: "l3_ok E D ?s2" by (rule B(7) [OF A(1,3)])
  have d2: "due ?s2 k t = due s1 k t" for k t by (simp add: due_def)
  show ?thesis
  proof (cases "complete s p h")
    case True
    obtain es where e: "erase_node (fr_timeoutIter ?new) (l3_timeoutEventList ?s2) = Some es"
      "l3_ok E D (?s2\<lparr>l3_timeoutEventList := es, l3_fragments := (l3_fragments ?s2)(?k := None)\<rparr>)"
      "\<And>k' t. due (?s2\<lparr>l3_timeoutEventList := es, l3_fragments := (l3_fragments ?s2)(?k := None)\<rparr>) k' t \<longleftrightarrow> k' \<noteq> ?k \<and> due ?s2 k' t"
      by (rule erase_ok [OF ok2, of ?k ?new]) (use that in simp_all)
    let ?s = "s1\<lparr>l3_timeoutEventList := es, l3_fragments := (l3_fragments s1)(?k := None)\<rparr>"
    have s: "?s2\<lparr>l3_timeoutEventList := es, l3_fragments := (l3_fragments ?s2)(?k := None)\<rparr> = ?s" by simp
    have "GetPacket ?new = Some (D ?k)" by (rule GetPacket_ok [OF A(1) l]) (use True c in simp)
    then have "ProcessFragment p h iif s = Some (True, D ?k, ?s)"
      unfolding ProcessFragment_def using B(1) e(1) True c by (simp add: Let_def)
    then show ?thesis
      using that [of ?s] e(2,3) True B(2,3,8) unfolding s d2 by (auto simp: received_def fragment_effect_def)
  next
    case False
    then have "ProcessFragment p h iif s = Some (False, p, ?s2)"
      unfolding ProcessFragment_def using B(1) c by (simp add: Let_def)
    then show ?thesis
      using that [of ?s2] ok2 d2 False B(2,3,5,8) A(2) by (auto simp: received_def fragment_effect_def)
  qed
qed

section \<open>Timeouts\<close>

lemma HandleFragmentsTimeout_ok:
  assumes b: "l3_base E D s" and e: "l3_timeoutEventList s = (n, t, k, h, i) # es" and l: "length (D k) < 2 ^ 16"
  obtains s' where "HandleFragmentsTimeout k h i s = Some s'" "l3_base E D (s'\<lparr>l3_timeoutEventList := es\<rparr>)"
    "l3_fragments s' = (l3_fragments s)(k := None)" "l3_timers s' = l3_timers s" "l3_now s' = l3_now s" "\<forall>(n, t, k', r)\<in>set es. k' \<noteq> k"
    "\<exists>frs m. l3_fragments s k = Some frs \<and> l3_log s' = l3_log s @
       (if 8 < m then [TimeExceeded h (take m (D k))] else []) @ [DropFragmentTimeout h (take m (D k)) i] \<and>
       (\<forall>j < m. byte_in (fr_fragments frs) j) \<and> \<not> byte_in (fr_fragments frs) m"
proof -
  note B = l3_baseD [OF b]
  have m: "(n, t, k, h, i) \<in> set (l3_timeoutEventList s)" using e by simp
  obtain frs where f: "l3_fragments s k = Some frs" "fr_timeoutIter frs = n" and key: "fragment_key h = k" using B(6) [OF m] by blast
  obtain m where P: "GetPartialPacket frs = Some (take m (D k))" "m \<le> length (D k)" "\<forall>j < m. byte_in (fr_fragments frs) j"
    "\<not> byte_in (fr_fragments frs) m"
    by (rule GetPartialPacket_ok [OF B(7) [OF f(1)] l]) (rule that)
  let ?s = "s\<lparr>l3_fragments := (l3_fragments s)(k := None), l3_log := l3_log s @
    (if 8 < m then [TimeExceeded h (take m (D k))] else []) @ [DropFragmentTimeout h (take m (D k)) i]\<rparr>"
  have "k' \<noteq> k" if a: "(n', t', k', r) \<in> set es" for n' t' k' r
  proof
    obtain h' i' where r: "r = (h', i')" by force
    assume "k' = k"
    then have "n' = n" using B(6) [of n' t' k h' i'] a e f r by simp
    then show False using a B(5) e by force
  qed
  then have other: "\<forall>(n', t', k', r)\<in>set es. k' \<noteq> k" by fast
  have kept: "\<exists>t h i. (fr_timeoutIter frs', t, k', h, i) \<in> set es" if "l3_fragments s k' = Some frs'" "k' \<noteq> k" for k' frs'
    using B(8) [OF that(1)] that(2) e by auto
  have "l3_base E D (?s\<lparr>l3_timeoutEventList := es\<rparr>)"
    unfolding l3_base_def
  proof (intro conjI)
    show "\<forall>(n, t, k', h, i)\<in>set (l3_timeoutEventList (?s\<lparr>l3_timeoutEventList := es\<rparr>)).
      l3_now (?s\<lparr>l3_timeoutEventList := es\<rparr>) \<le> t \<and> t \<le> l3_now (?s\<lparr>l3_timeoutEventList := es\<rparr>) + E \<and>
      n < l3_nodes (?s\<lparr>l3_timeoutEventList := es\<rparr>) \<and> fragment_key h = k' \<and>
      (\<exists>frs. l3_fragments (?s\<lparr>l3_timeoutEventList := es\<rparr>) k' = Some frs \<and> fr_timeoutIter frs = n)"
      using B(6) other e by fastforce
    show "\<forall>k' frs. l3_fragments (?s\<lparr>l3_timeoutEventList := es\<rparr>) k' = Some frs \<longrightarrow> holds_pieces (D k') frs \<and>
      (\<exists>t h i. (fr_timeoutIter frs, t, k', h, i) \<in> set (l3_timeoutEventList (?s\<lparr>l3_timeoutEventList := es\<rparr>)))"
      using B(7) kept by (simp del: fun_upd_apply add: fun_upd_def split: if_splits)
    show "\<forall>x\<in>set (l3_log (?s\<lparr>l3_timeoutEventList := es\<rparr>)). honest_log D x"
      using B(9) key P(2) by (auto simp: honest_log_def)
  qed (use B e in auto)
  moreover have "HandleFragmentsTimeout k h i s = Some ?s"
    using f(1) P(1,2) by (simp add: HandleFragmentsTimeout_def)
  ultimately show ?thesis using that [of ?s] other f(1) P by auto
qed

lemma due_Cons: "l3_timeoutEventList s = (n, t, k, h, i) # es \<Longrightarrow>
  due s k' t' \<longleftrightarrow> k' = k \<and> t' = t \<or> due (s1\<lparr>l3_timeoutEventList := es\<rparr>) k' t'"
  by (auto simp: due_def)

lemma handle_expired_ok:
  assumes "l3_base E D s" and "\<And>k. length (D k) < 2 ^ 16" and "l3_timeoutEventList s = es"
  shows "\<exists>s'. handle_expired es s = Some s' \<and> l3_base E D s' \<and> l3_timers s' = l3_timers s \<and> l3_now s' = l3_now s \<and>
    (\<forall>(n, t, r)\<in>set (l3_timeoutEventList s'). l3_now s < t) \<and> (\<forall>k t. due s' k t \<longleftrightarrow> due s k t \<and> t \<noteq> l3_now s) \<and>
    (\<forall>k. l3_fragments s' k = (if due s k (l3_now s) then None else l3_fragments s k))"
  using assms(1,3)
proof (induction es arbitrary: s)
  case Nil
  then show ?case by (auto simp: due_def)
next
  case (Cons e es)
  obtain n t k h i where e: "e = (n, t, k, h, i)" by (metis prod_cases5)
  note l = Cons.prems(2) [unfolded e]
  note B = l3_baseD [OF Cons.prems(1)]
  show ?case
  proof (cases "t = l3_now s")
    case True
    obtain s1 where s1: "HandleFragmentsTimeout k h i s = Some s1" "l3_base E D (s1\<lparr>l3_timeoutEventList := es\<rparr>)"
      "l3_fragments s1 = (l3_fragments s)(k := None)" "l3_timers s1 = l3_timers s" "l3_now s1 = l3_now s" "\<forall>(n, t, k', r)\<in>set es. k' \<noteq> k"
      by (rule HandleFragmentsTimeout_ok [OF Cons.prems(1) l assms(2)]) (rule that)
    let ?s1 = "s1\<lparr>l3_timeoutEventList := es\<rparr>"
    have nd: "\<not> due ?s1 k t'" for t' using s1(6) by (force simp: due_def)
    obtain s' where s': "handle_expired es ?s1 = Some s'" "l3_base E D s'" "l3_timers s' = l3_timers s" "l3_now s' = l3_now s"
      "\<forall>(n, t, r)\<in>set (l3_timeoutEventList s'). l3_now s < t" "\<forall>k t. due s' k t \<longleftrightarrow> due ?s1 k t \<and> t \<noteq> l3_now s"
      "\<forall>k. l3_fragments s' k = (if due ?s1 k (l3_now s) then None else l3_fragments ?s1 k)"
      using Cons.IH [OF s1(2)] s1(4,5) by auto
    then show ?thesis
      using s1(1,3) True due_Cons [OF l, of _ _ s1] nd by (intro exI [of _ s']) (auto simp: e)
  next
    case False
    have "l3_now s < t' \<and> t \<le> t'" if "(n', t', r) \<in> set (l3_timeoutEventList s)" for n' t' r
    proof -
      have "t \<le> t'" using B(4) that l by (force simp: e)
      moreover have "l3_now s < t" using B(6) [of n t k h i] l False by simp
      ultimately show ?thesis by simp
    qed
    then show ?thesis using False Cons.prems(1) e
      by (intro exI [of _ s]) (force simp: due_def)
  qed
qed

lemma HandleTimeout_ok:
  assumes b: "l3_base E D s" and l: "\<And>k. length (D k) < 2 ^ 16"
  obtains s' where "HandleTimeout s = Some s'" "l3_ok E D s'" "l3_now s' = l3_now s" "\<And>k t. due s' k t \<longleftrightarrow> due s k t \<and> t \<noteq> l3_now s"
    "\<And>k. l3_fragments s' k = (if due s k (l3_now s) then None else l3_fragments s k)"
proof -
  obtain s1 where S: "handle_expired (l3_timeoutEventList s) s = Some s1" "l3_base E D s1" "l3_timers s1 = l3_timers s" "l3_now s1 = l3_now s"
    "\<forall>(n, t, r)\<in>set (l3_timeoutEventList s1). l3_now s < t" "\<And>k t. due s1 k t \<longleftrightarrow> due s k t \<and> t \<noteq> l3_now s"
    "\<And>k. l3_fragments s1 k = (if due s k (l3_now s) then None else l3_fragments s k)"
    using handle_expired_ok [OF b l refl] by blast
  note B = l3_baseD [OF S(2)]
  show ?thesis
  proof (cases "l3_timeoutEventList s1")
    case Nil
    then have "l3_ok E D s1" using S(2) by (simp add: l3_ok_def)
    then show ?thesis using that [of s1] S Nil by (simp add: HandleTimeout_def)
  next
    case (Cons e es)
    obtain n t r where e: "e = (n, t, r)" by (metis prod_cases3)
    let ?s = "s1\<lparr>l3_timers := insort t (l3_timers s1)\<rparr>"
    have t: "l3_now s < t" using S(5) Cons e by auto
    have "l3_base E D ?s"
      unfolding l3_base_def
      by (intro conjI) (use B t S(4) in \<open>auto simp: sorted_insort set_insort_key\<close>)
    moreover have "hd (insort t (l3_timers s1)) \<le> fst (snd x)" if "x \<in> set (l3_timeoutEventList s1)" for x
    proof -
      have "hd (insort t (l3_timers s1)) \<le> t" by (rule sorted_hd) (use B(2) in \<open>simp_all add: sorted_insort set_insort_key\<close>)
      moreover have "t \<le> fst (snd x)" using that B(4) Cons e by auto
      ultimately show ?thesis by simp
    qed
    ultimately have "l3_ok E D ?s" by (simp add: l3_ok_def insort_not_Nil)
    moreover have "HandleTimeout s = Some ?s"
      using S(1,4) t Cons e by (cases r) (simp add: HandleTimeout_def l3_Schedule_def)
    moreover have "due ?s k t = due s1 k t" for k t by (simp add: due_def)
    ultimately show ?thesis using that [of ?s] S(4,6,7) by simp
  qed
qed

section \<open>Steps and runs\<close>

fun honest :: "(frag_key \<Rightarrow> u8 list) \<Rightarrow> l3_action \<Rightarrow> bool" where
  "honest D (Deliver t p h i) \<longleftrightarrow> (is_fragment h \<longrightarrow> genuine D p h)" |
  "honest D Timer \<longleftrightarrow> True"

definition whole :: "u8 list \<Rightarrow> ipv4_header \<Rightarrow> ip_packet" where
  "whole p h = (p, h\<lparr>ih_fragmentOffset := 0, ih_payloadSize := of_nat (length p)\<rparr>)"

lemma state_simps [simp]:
  "received (s\<lparr>l3_now := t\<rparr>) k = received s k" "due (s\<lparr>l3_now := t\<rparr>) k t' = due s k t'"
  "complete (s\<lparr>l3_now := t\<rparr>) p h = complete s p h" "due (s\<lparr>l3_timers := ts\<rparr>) k t' = due s k t'"
  by (simp_all add: received_def due_def complete_def)

lemma Deliver_fragment_ok:
  assumes ok: "l3_ok E D s" "0 \<le> E" and D: "\<And>k. length (D k) < 2 ^ 16" and a: "possible (Deliver t p h i) s"
    and h: "is_fragment h" "genuine D p h"
  obtains s' where
    "l3_step (Deliver t p h i) s = Some (if complete s p h then Some (whole (D (fragment_key h)) h) else None, s')"
    "l3_ok E D s'" "l3_now s' = t"
    "fragment_effect (t + E) (fragment_key h) (p, ih_fragmentOffset h) (complete s p h) s s'"
proof -
  have "l3_ok E D (s\<lparr>l3_now := t\<rparr>)" using l3_ok_later [OF ok(1), of t] a by simp
  then obtain s' where P: "ProcessFragment p h i (s\<lparr>l3_now := t\<rparr>) =
      Some (if complete s p h then (True, D (fragment_key h), s') else (False, p, s'))"
    "l3_ok E D s'" "l3_now s' = t" "fragment_effect (t + E) (fragment_key h) (p, ih_fragmentOffset h) (complete s p h) s s'"
    by (rule ProcessFragment_ok [OF _ ok(2) h(2) D, of _ i]) (use that in \<open>simp_all add: fragment_effect_def\<close>)
  have "l3_step (Deliver t p h i) s = Some (if complete s p h then Some (whole (D (fragment_key h)) h) else None, s')"
    using P(1) h(1) by (simp add: LocalDeliver_def is_fragment_def SetFragmentOffset_def SetPayloadSize_def whole_def)
  then show ?thesis by (rule that [OF _ P(2-4)])
qed

lemma Deliver_whole_ok:
  assumes "l3_ok E D s" and "possible (Deliver t p h i) s" and "\<not> is_fragment h"
  shows "l3_step (Deliver t p h i) s = Some (Some (p, h), s\<lparr>l3_now := t\<rparr>)" "l3_ok E D (s\<lparr>l3_now := t\<rparr>)"
  using assms l3_ok_later [OF assms(1), of t] by (simp_all add: LocalDeliver_def is_fragment_def)

lemma Timer_ok:
  assumes ok: "l3_ok E D s" and D: "\<And>k. length (D k) < 2 ^ 16" and a: "possible Timer s"
  obtains s' where "l3_step Timer s = Some (None, s')" "l3_ok E D s'" "l3_now s' = hd (l3_timers s)" "l3_now s \<le> l3_now s'"
    "\<And>k t. due s' k t \<longleftrightarrow> due s k t \<and> t \<noteq> l3_now s'" "\<And>k. l3_fragments s' k = (if due s k (l3_now s') then None else l3_fragments s k)"
proof -
  obtain t ts where ts: "l3_timers s = t # ts" using a by (cases "l3_timers s") auto
  let ?s = "s\<lparr>l3_now := t, l3_timers := ts\<rparr>"
  note B = l3_baseD [OF l3_okD(1) [OF ok]]
  have n: "l3_now s \<le> t" using B(3) ts by simp
  have "l3_ok E D (s\<lparr>l3_now := t\<rparr>)" by (rule l3_ok_later [OF ok n]) (use B(2) ts in auto)
  then have b: "l3_base E D ?s" unfolding l3_ok_def l3_base_def using ts by simp
  obtain s' where "HandleTimeout ?s = Some s'" "l3_ok E D s'" "l3_now s' = t" "\<And>k t'. due s' k t' \<longleftrightarrow> due s k t' \<and> t' \<noteq> t"
    "\<And>k. l3_fragments s' k = (if due s k t then None else l3_fragments s k)"
    by (rule HandleTimeout_ok [OF b D]) (use that in simp_all)
  then show ?thesis using that [of s'] n ts by simp
qed

lemma reassembly_step_ok:
  assumes "l3_ok E D s" and "0 \<le> E" and "\<And>k. length (D k) < 2 ^ 16" and "possible a s" and "honest D a"
  obtains r s' where "l3_step a s = Some (r, s')" "l3_ok E D s'" "l3_now s \<le> l3_now s'"
proof (cases a)
  case (Deliver t p h i)
  have t: "l3_now s \<le> t" using assms(4) Deliver by simp
  show ?thesis
  proof (cases "is_fragment h")
    case True
    have g: "genuine D p h" using assms(5) Deliver True by simp
    show ?thesis
      by (rule Deliver_fragment_ok [OF assms(1-3) assms(4) [unfolded Deliver] True g]) (use that t Deliver in auto)
  next
    case False
    then show ?thesis using Deliver_whole_ok [OF assms(1) assms(4) [unfolded Deliver] False] that t Deliver by simp
  qed
next
  case Timer
  show ?thesis by (rule Timer_ok [OF assms(1,3) assms(4) [unfolded Timer]]) (use that Timer in auto)
qed

lemma reassembly_runs_ok:
  assumes "runs s tr s'" and "l3_ok E D s" and "0 \<le> E" and "\<And>k. length (D k) < 2 ^ 16" and "\<forall>(a, r)\<in>set tr. honest D a"
  shows "l3_ok E D s' \<and> l3_now s \<le> l3_now s'"
  using assms(1,2,5)
proof (induction rule: runs.induct)
  case (act s tr s1 a r s2)
  have ok: "l3_ok E D s1" "l3_now s \<le> l3_now s1" and h: "honest D a" using act by auto
  obtain r' s' where "l3_step a s1 = Some (r', s')" "l3_ok E D s'" "l3_now s1 \<le> l3_now s'"
    by (rule reassembly_step_ok [OF ok(1) assms(3,4) act(2) h]) (rule that)
  then show ?case using act(3) ok(2) by simp
qed simp

text \<open>The packets with a key that arrive during a run, with their times.\<close>

fun arrivals :: "frag_key \<Rightarrow> (l3_action \<times> ip_packet option) list \<Rightarrow> (time \<times> ip_packet) list" where
  "arrivals k [] = []" |
  "arrivals k ((Deliver t q h i, r) # tr) = (if fragment_key h = k then (t, q, h) # arrivals k tr else arrivals k tr)" |
  "arrivals k ((Timer, r) # tr) = arrivals k tr"

lemma arrivals_append [simp]: "arrivals k (tr @ tr') = arrivals k tr @ arrivals k tr'"
  by (induction k tr rule: arrivals.induct) auto

inductive_cases runs_snocE: "runs s (tr @ [(a, r)]) s'"

abbreviation slice :: "ip_packet \<Rightarrow> u8 list \<times> u16" where
  "slice \<equiv> \<lambda>(q, h). (q, ih_fragmentOffset h)"

text \<open>A step for another datagram, or an event before the timeout, leaves a buffer alone.\<close>

lemma other_step:
  assumes ok: "l3_ok E D s" "0 \<le> E" "\<And>k. length (D k) < 2 ^ 16" and a: "possible a s" "honest D a" "l3_step a s = Some (r, s2)"
    and k: "arrivals k [(a, r)] = []" "\<not> due s k (l3_now s2)"
  shows "received s2 k = received s k \<and> (\<forall>t. due s2 k t \<longleftrightarrow> due s k t)"
proof (cases a)
  case (Deliver t p h i)
  have n: "fragment_key h \<noteq> k" using k(1) Deliver by (simp split: if_splits)
  show ?thesis
  proof (cases "is_fragment h")
    case True
    have g: "genuine D p h" using a(2) Deliver True by simp
    obtain s' where "l3_step (Deliver t p h i) s = Some (if complete s p h then Some (whole (D (fragment_key h)) h) else None, s')"
      "fragment_effect (t + E) (fragment_key h) (p, ih_fragmentOffset h) (complete s p h) s s'"
      by (rule Deliver_fragment_ok [OF ok a(1) [unfolded Deliver] True g]) (rule that)
    then show ?thesis using a(3) Deliver n fragment_effectD(2,3) by auto
  next
    case False
    have "s2 = s\<lparr>l3_now := t\<rparr>" using Deliver_whole_ok(1) [OF ok(1) a(1) [unfolded Deliver] False] a(3) Deliver by simp
    then show ?thesis by simp
  qed
next
  case Timer
  obtain s' where "l3_step Timer s = Some (None, s')" "\<And>k t. due s' k t \<longleftrightarrow> due s k t \<and> t \<noteq> l3_now s'"
    "\<And>k. l3_fragments s' k = (if due s k (l3_now s') then None else l3_fragments s k)"
    by (rule Timer_ok [OF ok(1,3) a(1) [unfolded Timer]]) (rule that)
  then show ?thesis using a(3) k(2) Timer by (auto simp: received_def)
qed

lemma received_run:
  assumes "runs s0 tr s" and ok: "l3_ok E D s0" "0 \<le> E" "\<And>k. length (D k) < 2 ^ 16" and "\<forall>(a, r)\<in>set tr. honest D a"
    and fresh: "l3_fragments s0 k = None"
    and frs: "tiling (D k) (slices frs)" "inj_on slice (set frs)" "\<forall>(q, h)\<in>set frs. is_fragment h"
    and "snd ` set (arrivals k tr) \<subset> set frs" and "l3_now s \<le> T" and "\<forall>(t, x)\<in>set (arrivals k tr). T < t + E"
  shows "received s k = slice ` snd ` set (arrivals k tr) \<and> (arrivals k tr = [] \<longrightarrow> \<not> (\<exists>t. due s k t)) \<and>
    (arrivals k tr \<noteq> [] \<longrightarrow> (\<exists>(t, x)\<in>set (arrivals k tr). due s k (t + E)))"
  using assms(1,2,5) fresh assms(10-12)
proof (induction rule: runs.induct)
  case (stop s)
  then show ?case using due_iff [OF l3_okD(1) [OF stop(1)], of k] by (auto simp: received_def)
next
  case (act s0 tr s a r s2)
  let ?A = "arrivals k tr"
  have s: "l3_ok E D s" using reassembly_runs_ok [OF act(1,5) ok(2,3)] act.prems(2) by auto
  have h: "honest D a" using act.prems(2) by simp
  obtain r' s' where st: "l3_step a s = Some (r', s')" "l3_ok E D s'" "l3_now s \<le> l3_now s'"
    by (rule reassembly_step_ok [OF s ok(2,3) act(2) h]) (rule that)
  have "s' = s2" using st(1) act(3) by simp
  then have T: "l3_now s \<le> l3_now s2" "l3_now s2 \<le> T" "l3_now s \<le> T" using st(3) act.prems(5) by auto
  have sub: "snd ` set ?A \<subset> set frs"
    by (rule order.strict_trans1 [OF _ act.prems(4)]) (simp add: image_mono)
  have IH: "received s k = slice ` snd ` set ?A" "?A = [] \<longrightarrow> \<not> (\<exists>t. due s k t)" "?A \<noteq> [] \<longrightarrow> (\<exists>(t, x)\<in>set ?A. due s k (t + E))"
    using act.IH [OF act.prems(1) _ act.prems(3) sub T(3)] act.prems(2,6) by simp_all
  have late: "T < t" if "due s k t" for t
  proof -
    have "?A \<noteq> []" using IH(2) that by blast
    then obtain t' x where "(t', x) \<in> set ?A" "due s k (t' + E)" using IH(3) by auto
    moreover have "T < t' + E" using calculation(1) act.prems(6) by auto
    ultimately show ?thesis using due_unique [OF l3_okD(1) [OF s] that] by simp
  qed
  show ?case
  proof (cases "arrivals k [(a, r)]")
    case Nil
    have "\<not> due s k (l3_now s2)" using late T(2) by force
    then have "received s2 k = received s k \<and> (\<forall>t. due s2 k t \<longleftrightarrow> due s k t)"
      by (rule other_step [OF s ok(2,3) act(2) h act(3) Nil])
    then show ?thesis using IH Nil by simp
  next
    case (Cons x xs)
    then obtain t q hd i where a: "a = Deliver t q hd i" "fragment_key hd = k" "xs = []" "x = (t, q, hd)"
      by (cases a) (auto split: if_splits)
    have m: "(q, hd) \<in> set frs" using act.prems(4) Cons a by auto
    then have f: "is_fragment hd" "genuine D q hd" using frs(3) h a by auto
    obtain s' where S: "l3_step (Deliver t q hd i) s = Some (if complete s q hd then Some (whole (D (fragment_key hd)) hd) else None, s')"
      "fragment_effect (t + E) (fragment_key hd) (q, ih_fragmentOffset hd) (complete s q hd) s s'"
      by (rule Deliver_fragment_ok [OF s ok(2,3) act(2) [unfolded a(1)] f]) (rule that)
    have i: "insert (q, ih_fragmentOffset hd) (received s k) = slice ` snd ` set (arrivals k (tr @ [(a, r)]))"
      using IH(1) Cons a by auto
    have "slice ` snd ` set (arrivals k (tr @ [(a, r)])) \<subset> slices frs"
      unfolding slices_def using act.prems(4) frs(2) by (metis image_strict_mono)
    then have nc: "\<not> complete s q hd" using complete_tiling [OF s f(2) ok(3)] frs(1) a(2) i by auto
    then have r: "received s2 k = slice ` snd ` set (arrivals k (tr @ [(a, r)]))" "s' = s2" using S(1) fragment_effectD(1) [OF S(2)] act(3) a(1,2) i by auto
    have d: "due s2 k t' \<longleftrightarrow> due s k t' \<or> l3_fragments s k = None \<and> t' = t + E" for t' using fragment_effectD(3) [OF S(2)] nc a(2) r(2) by simp
    have "\<exists>(t, x)\<in>set (arrivals k (tr @ [(a, r)])). due s2 k (t + E)"
    proof (cases "?A = []")
      case True
      then have "l3_fragments s k = None" using IH(2) due_iff [OF l3_okD(1) [OF s]] by blast
      then show ?thesis using d Cons a True by auto
    next
      case False
      then show ?thesis using IH(3) d by auto
    qed
    then show ?thesis using r(1) Cons by simp
  qed
qed

section \<open>Properties of the reassembly\<close>

text \<open>Whatever way a datagram was cut into parts, and in whatever order they arrive, the part that completes it makes the node
  deliver it.\<close>

lemma parts_reassembled:
  assumes frs: "\<forall>x\<in>set frs. part p k x \<and> is_fragment (snd x)" "segment 0 frs (length p)"
    and before: "runs (l3_init E) tr0 s0" "0 \<le> E" "l3_fragments s0 k = None"
    and run: "runs s0 (tr @ [(Deliver t q h i, r)]) s"
    and all: "\<forall>(a, r)\<in>set (tr0 @ tr @ [(Deliver t q h i, r)]). honest D a" "D k = p" "\<And>k. length (D k) < 2 ^ 16"
    and arrive: "snd ` set (arrivals k tr) \<subset> set frs" "\<forall>(t', x)\<in>set (arrivals k tr). t < t' + E" "(q, h) \<in> set frs"
  shows "r = (if insert (q, h) (snd ` set (arrivals k tr)) = set frs then Some (whole p h) else None)"
proof -
  let ?A = "snd ` set (arrivals k tr)"
  have F: "tiling p (slices frs)" "inj_on (\<lambda>(q, h). (q, ih_fragmentOffset h)) (set frs)" using segment_tiling frs by blast+
  have fk: "fragment_key h' = k" if "(q', h') \<in> set frs" for q' h' using frs(1) that by (auto simp: part_def)
  have g: "is_fragment h' \<and> genuine D q' h'" if "(q', h') \<in> set frs" for q' h'
    using frs(1) that all(2) fk [OF that] part_genuine [of D h' k q'] by auto
  have s0: "l3_ok E D s0" using reassembly_runs_ok [OF before(1) l3_init_ok before(2) all(3)] all(1) by auto
  obtain s1 where s1: "runs s0 tr s1" "possible (Deliver t q h i) s1" "l3_step (Deliver t q h i) s1 = Some (r, s)"
    by (rule runs_snocE [OF run])
  have t: "l3_now s1 \<le> t" using s1(2) by simp
  have ok: "l3_ok E D s1" using reassembly_runs_ok [OF s1(1) s0 before(2) all(3)] all(1) by auto
  have "\<forall>(q', h')\<in>set frs. is_fragment h'" "\<forall>(a, r)\<in>set tr. honest D a" "tiling (D k) (slices frs)"
    using g all(1,2) F(1) by auto
  then have R: "received s1 k = slice ` ?A"
    using received_run [OF s1(1) s0 before(2) all(3) _ before(3) _ F(2) _ arrive(1) t arrive(2)] by blast
  have k: "fragment_key h = k" by (rule fk [OF arrive(3)])
  have i: "insert (q, ih_fragmentOffset h) (received s1 k) = slice ` insert (q, h) ?A" using R by simp
  have sub: "insert (q, h) ?A \<subseteq> set frs" using arrive(1,3) by auto
  have "tiling (D (fragment_key h)) (slices frs)" using F(1) all(2) k by simp
  moreover have "slice ` insert (q, h) ?A \<subseteq> slices frs" unfolding slices_def by (rule image_mono [OF sub])
  ultimately have "complete s1 q h \<longleftrightarrow> slice ` insert (q, h) ?A = slices frs"
    using complete_tiling [OF ok _ all(3), of q h "slices frs"] g [OF arrive(3)] i k by simp
  also have "\<dots> \<longleftrightarrow> insert (q, h) ?A = set frs"
    unfolding slices_def by (rule inj_on_image_eq_iff [OF F(2) sub order_refl])
  finally have c: "complete s1 q h \<longleftrightarrow> insert (q, h) ?A = set frs" .
  obtain s' where "l3_step (Deliver t q h i) s1 = Some (if complete s1 q h then Some (whole (D (fragment_key h)) h) else None, s')"
    by (rule Deliver_fragment_ok [OF ok before(2) all(3) s1(2)]) (use g [OF arrive(3)] that in auto)
  then show ?thesis using s1(3) c k all(2) by (auto split: if_splits)
qed



text \<open>Examples: sixteen bytes in two fragments, which arrive in reverse order.\<close>

definition demo_data :: "u8 list" where
  "demo_data = [1, 2, 3, 4, 5, 6, 7, 8, 9, 10, 11, 12, 13, 14, 15, 16]"

definition demo_ip :: ipv4_header where
  "demo_ip = Ipv4Header\<lparr>ih_identification := 7, ih_ttl := 64, ih_protocol := 17, ih_source := 0x0A000001, ih_destination := 0x0A000002\<rparr>"

definition demo_frags :: "ip_packet list" where
  "demo_frags = [(take 8 demo_data, fragment_header False demo_ip 0 8 False), (drop 8 demo_data, fragment_header False demo_ip 8 8 True)]"

lemma demo_ip_simps [simp]:
  "ih_headerSize demo_ip = 20" "ih_fragmentOffset demo_ip = 0" "IsLastFragment demo_ip" "length demo_data = 16"
  by (simp_all add: demo_ip_def Ipv4Header_def IsLastFragment_def demo_data_def)

lemma demo_sent: "SendRealOut_packets False demo_data demo_ip 28 = Some demo_frags"
proof -
  have fs: "(ucast (28 :: u16) - of_nat 20) AND NOT 7 = (8 :: u32)" by simp
  have a: "of_nat 16 + of_nat 20 > (ucast (28 :: u16) :: u32)" by simp
  have l: "fragment_loop False demo_data demo_ip 8 (of_nat 0) [] = Some demo_frags"
    using fragment_loop_step [of demo_data 8 0 demo_ip False "[]"]
      fragment_loop_step [of demo_data 8 8 demo_ip False "[hd demo_frags]"]
    by (simp add: Let_def demo_frags_def)
  show ?thesis
    using l a fs by (simp add: SendRealOut_packets_def DoFragmentation_def Ipv4_GetSerializedSize_def)
qed

lemma demo_genuine: "x \<in> set demo_frags \<Longrightarrow> genuine (\<lambda>_. demo_data) (fst x) (snd x) \<and> is_fragment (snd x) \<and>
    fragment_key (snd x) = fragment_key demo_ip"
  by (auto simp: demo_frags_def genuine_def piece_def is_fragment_def)

lemma demo_deliver:
  assumes "x \<in> set demo_frags" and "possible (Deliver 5 (fst x) (snd x) 0) s" and "l3_ok 30 (\<lambda>_. demo_data) s"
  obtains r s' where "l3_step (Deliver 5 (fst x) (snd x) 0) s = Some (r, s')" "l3_ok 30 (\<lambda>_. demo_data) s'" "l3_now s' = 5"
  by (rule Deliver_fragment_ok [OF assms(3) _ _ assms(2)]) (use that demo_genuine [OF assms(1)] in auto)



end
