(* ===== verification/Ip_Node.thy ===== *)
theory Ip_Node
  imports Static_Routing Ip_Reassembly "HOL-Library.AList"
begin

unbundle bit_operations_syntax

text \<open>
  The IPv4 layer of a node (\<^verbatim>\<open>src/internet/model/ipv4-l3-protocol.cc\<close>): sending, receiving, forwarding and local
  delivery, on the interfaces and the static routes of the node and with fragmentation and reassembly. What an operation hands
  to devices, to the traffic control layer, to address resolution and to the protocols above is the list of its outputs, in order.
\<close>

section \<open>State and outputs\<close>

type_synonym dup_key = "u64 \<times> u8 \<times> ipv4_address \<times> ipv4_address"

record ip_node =
  in_stack :: ip_stack
  in_l3 :: l3
  in_identification :: "u64 \<times> u8 \<Rightarrow> u16"
  in_defaultTtl :: u8
  in_checksum :: bool
  in_protocols :: "u8 \<times> int \<Rightarrow> nat option"
  in_sockets :: nat
  in_enableDpd :: bool
  in_expire :: time
  in_purge :: time
  in_dups :: "(dup_key \<times> time) list"
  in_cleanDpd :: "time option"

text \<open>What the code asks of a device.\<close>

record device_info =
  dv_mtu :: u16
  dv_loopback :: bool
  dv_needsArp :: bool
  dv_isMulticast :: bool

datatype hw_address = Hw_Broadcast | Hw_Multicast ipv4_address

datatype drop_reason = DROP_TTL_EXPIRED | DROP_NO_ROUTE | DROP_BAD_CHECKSUM | DROP_INTERFACE_DOWN | DROP_ROUTE_ERROR
  | DROP_FRAGMENT_TIMEOUT | DROP_DUPLICATE

text \<open>A packet carries the priority tag it has, if any.\<close>

type_synonym prio_tag = "u8 option"

datatype ip_output = Drop drop_reason ip_packet int
  | Traffic_Control ptr hw_address prio_tag ip_packet
  | Arp_Lookup ptr ipv4_address prio_tag ip_packet
  | Loopback ptr prio_tag ip_packet
  | Receive_Back ptr prio_tag ip_packet
  | Raw_Socket nat ip_packet
  | Receive_Up nat nat ip_packet
  | Icmp_Time_Exceeded ip_packet
  | Icmp_Port_Unreachable ip_packet

datatype rx_status = RX_OK | RX_CSUM_FAILED | RX_ENDPOINT_CLOSED | RX_ENDPOINT_UNREACH

section \<open>Transport protocols\<close>

definition Insert_protocol :: "u8 \<Rightarrow> nat \<Rightarrow> ip_node \<Rightarrow> ip_node" where
  "Insert_protocol n protocol nd = nd\<lparr>in_protocols := (in_protocols nd)((n, - 1) := Some protocol)\<rparr>"

definition Insert_protocol_on :: "u8 \<Rightarrow> nat \<Rightarrow> nat \<Rightarrow> ip_node \<Rightarrow> ip_node" where
  "Insert_protocol_on n protocol i nd = nd\<lparr>in_protocols := (in_protocols nd)((n, int i) := Some protocol)\<rparr>"

definition Remove_protocol :: "u8 \<Rightarrow> ip_node \<Rightarrow> ip_node" where
  "Remove_protocol n nd = nd\<lparr>in_protocols := (in_protocols nd)((n, - 1) := None)\<rparr>"

definition Remove_protocol_on :: "u8 \<Rightarrow> nat \<Rightarrow> ip_node \<Rightarrow> ip_node" where
  "Remove_protocol_on n i nd = nd\<lparr>in_protocols := (in_protocols nd)((n, int i) := None)\<rparr>"

definition GetProtocol :: "u8 \<Rightarrow> int \<Rightarrow> ip_node \<Rightarrow> nat option" where
  "GetProtocol n i nd = (case (if i \<ge> 0 then in_protocols nd (n, i) else None) of
     Some p \<Rightarrow> Some p | None \<Rightarrow> in_protocols nd (n, - 1))"

text \<open>The ICMP protocol is used without a check that it is there.\<close>

definition GetIcmp :: "ip_node \<Rightarrow> nat option" where
  "GetIcmp nd = GetProtocol 1 (- 1) nd"

section \<open>Duplicate packet detection\<close>

definition dpd_bytes :: "u8 list \<Rightarrow> ipv4_header \<Rightarrow> u8 list" where
  "dpd_bytes p header = fold (\<lambda>i bs. bs[i := 0]) [1, 6, 7, 8, 10, 11] (ipv4_bytes header @ p)"

definition dpd_hash :: "(u8 list \<Rightarrow> u32) \<Rightarrow> u8 list \<Rightarrow> ipv4_header \<Rightarrow> u64" where
  "dpd_hash hash32 p header = (let hash = push_bit 32 (ucast (ih_identification header)) in
     if ih_fragmentOffset header \<noteq> 0 \<or> \<not> IsLastFragment header then hash OR ucast (ih_fragmentOffset header)
     else hash OR ucast (hash32 (dpd_bytes p header)))"

definition UpdateDuplicate :: "(u8 list \<Rightarrow> u32) \<Rightarrow> u8 list \<Rightarrow> ipv4_header \<Rightarrow> ip_node \<Rightarrow> bool \<times> ip_node" where
  "UpdateDuplicate hash32 p header nd = (let now = l3_now (in_l3 nd);
     nd1 = (if in_cleanDpd nd = None \<and> in_purge nd > 0 then nd\<lparr>in_cleanDpd := Some (now + in_expire nd)\<rparr> else nd);
     key = (dpd_hash hash32 p header, ih_protocol header, ih_source header, ih_destination header);
     isDup = (case map_of (in_dups nd1) key of None \<Rightarrow> False | Some t \<Rightarrow> t > now) in
     (isDup, nd1\<lparr>in_dups := AList.update key (now + in_expire nd1) (in_dups nd1)\<rparr>))"

definition RemoveDuplicates :: "ip_node \<Rightarrow> ip_node" where
  "RemoveDuplicates nd = (let now = l3_now (in_l3 nd); dups = filter (\<lambda>x. \<not> snd x < now) (in_dups nd) in
     nd\<lparr>in_dups := dups, in_cleanDpd := (if dups \<noteq> [] \<and> in_purge nd > 0 then Some (now + in_purge nd) else None)\<rparr>)"

section \<open>Sending through an interface\<close>

definition if_Send :: "(ptr \<Rightarrow> device_info) \<Rightarrow> prio_tag \<Rightarrow> ipv4_address \<Rightarrow> ipv4_interface \<Rightarrow> ip_packet \<Rightarrow> ip_output list option" where
  "if_Send dev prio dest iface pkt = (let d = if_device iface in
     if \<not> if_up iface then Some []
     else if dv_loopback (dev d) then Some [Loopback d prio pkt]
     else if list_ex (\<lambda>a. dest = ia_local a) (if_addrs iface) then Some [Receive_Back d prio pkt]
     else if dv_needsArp (dev d) then
       (if IsBroadcast dest then Some [Traffic_Control d Hw_Broadcast prio pkt]
        else if IsMulticast dest
        then (if dv_isMulticast (dev d) then Some [Traffic_Control d (Hw_Multicast dest) prio pkt] else None)
        else if list_ex (\<lambda>a. IsSubnetDirectedBroadcast dest (ia_mask a)) (if_addrs iface)
        then Some [Traffic_Control d Hw_Broadcast prio pkt]
        else Some [Arp_Lookup d dest prio pkt])
     else Some [Traffic_Control d Hw_Broadcast prio pkt])"

fun send_all :: "(ip_packet \<Rightarrow> ip_output list option) \<Rightarrow> ip_packet list \<Rightarrow> ip_output list option" where
  "send_all f [] = Some []" |
  "send_all f (x # xs) = do { outs \<leftarrow> f x; rest_outs \<leftarrow> send_all f xs; Some (outs @ rest_outs) }"

definition SendRealOut :: "(ptr \<Rightarrow> device_info) \<Rightarrow> prio_tag \<Rightarrow> ipv4_route option \<Rightarrow> ip_packet \<Rightarrow> ip_node \<Rightarrow> ip_output list option" where
  "SendRealOut dev prio route pkt nd = (case route of
     None \<Rightarrow> Some [Drop DROP_NO_ROUTE pkt 0]
   | Some r \<Rightarrow> (let nodes = st_node (in_stack nd); i = nd_GetInterfaceForDevice (rt_device r) nodes in
       if i < 0 then None else do {
         outInterface \<leftarrow> nd_GetInterface (nat i) nodes;
         let target = (if rt_gateway r = 0 then ih_destination (snd pkt) else rt_gateway r);
         (if if_up outInterface then do {
            pkts \<leftarrow> SendRealOut_packets (in_checksum nd) (fst pkt) (snd pkt) (dv_mtu (dev (if_device outInterface)));
            send_all (if_Send dev prio target outInterface) pkts }
          else Some []) }))"

definition SendWithHeader :: "(ptr \<Rightarrow> device_info) \<Rightarrow> prio_tag \<Rightarrow> ipv4_route option \<Rightarrow> ip_packet \<Rightarrow> ip_node \<Rightarrow> ip_output list option" where
  "SendWithHeader dev prio route pkt nd =
     SendRealOut dev prio route (fst pkt, if in_checksum nd then EnableChecksum (snd pkt) else snd pkt) nd"

section \<open>Forwarding\<close>

definition SetTtl :: "u8 \<Rightarrow> ipv4_header \<Rightarrow> ipv4_header" where
  "SetTtl ttl hdr = hdr\<lparr>ih_ttl := ttl\<rparr>"

definition IpTos2Priority :: "u8 \<Rightarrow> u8" where
  "IpTos2Priority ipTos = (let k = drop_bit 1 (ipTos AND 0x1e) in
     if k \<le> 3 then 0 else if k \<le> 7 then 2 else if k \<le> 11 then 6 else if k \<le> 15 then 4 else 0)"

definition IpForward :: "(ptr \<Rightarrow> device_info) \<Rightarrow> ipv4_route \<Rightarrow> ip_packet \<Rightarrow> ip_node \<Rightarrow> ip_output list option" where
  "IpForward dev rtentry pkt nd = (let (p, header) = pkt; ipHeader = SetTtl (ih_ttl header - 1) header in
     if ih_ttl ipHeader = 0 then do {
       icmp \<leftarrow> (if \<not> IsBroadcast (ih_destination ipHeader) \<and> \<not> IsMulticast (ih_destination ipHeader)
         then map_option (\<lambda>_. [Icmp_Time_Exceeded (p, ipHeader)]) (GetIcmp nd) else Some []);
       Some (icmp @ [Drop DROP_TTL_EXPIRED pkt (nd_GetInterfaceForDevice (rt_device rtentry) (st_node (in_stack nd)))]) }
     else (let priority = IpTos2Priority (ih_tos ipHeader) in
       SendRealOut dev (if priority \<noteq> 0 then Some priority else None) (Some rtentry) (p, ipHeader) nd))"

fun multicast_loop :: "(ptr \<Rightarrow> device_info) \<Rightarrow> prio_tag \<Rightarrow> nat list \<Rightarrow> ip_packet \<Rightarrow> ip_node \<Rightarrow> ip_output list option" where
  "multicast_loop dev prio [] pkt nd = Some []" |
  "multicast_loop dev prio (i # js) pkt nd = (let (p, header) = pkt; ipHeader = SetTtl (ih_ttl header - 1) header in
     if ih_ttl ipHeader = 0 then Some [Drop DROP_TTL_EXPIRED pkt (int i)]
     else do {
       device \<leftarrow> nd_GetNetDevice i (st_node (in_stack nd));
       let rtentry = \<lparr>rt_dest = ih_destination ipHeader, rt_source = ih_source ipHeader, rt_gateway = 0, rt_device = device\<rparr>;
       outs \<leftarrow> SendRealOut dev prio (Some rtentry) (p, ipHeader) nd;
       rest_outs \<leftarrow> multicast_loop dev prio js pkt nd;
       Some (outs @ rest_outs) })"

definition IpMulticastForward :: "(ptr \<Rightarrow> device_info) \<Rightarrow> prio_tag \<Rightarrow> mcast_route \<Rightarrow> ip_packet \<Rightarrow> ip_node \<Rightarrow> ip_output list option" where
  "IpMulticastForward dev prio mrtentry pkt nd = multicast_loop dev prio (map fst (mr_ttls mrtentry)) pkt nd"

section \<open>Local delivery\<close>

text \<open>The status the transport protocol returns is a parameter.\<close>

definition LocalDeliver_up :: "(nat \<Rightarrow> ip_packet \<Rightarrow> rx_status) \<Rightarrow> nat \<Rightarrow> ip_packet \<Rightarrow> ip_node \<Rightarrow> (ip_output list \<times> ip_node) option" where
  "LocalDeliver_up rx iif pkt nd = do {
     (delivered, l3) \<leftarrow> LocalDeliver (fst pkt) (snd pkt) (of_nat iif) (in_l3 nd);
     let nd1 = nd\<lparr>in_l3 := l3\<rparr>;
     (case delivered of None \<Rightarrow> Some ([], nd1)
      | Some (p, ipHeader) \<Rightarrow> (case GetProtocol (ih_protocol ipHeader) (int iif) nd1 of
          None \<Rightarrow> Some ([], nd1)
        | Some protocol \<Rightarrow> do {
            iface \<leftarrow> nd_GetInterface iif (st_node (in_stack nd1));
            let dest = ih_destination ipHeader;
            let subnetDirected = list_ex (\<lambda>a. CombineMask (ia_local a) (ia_mask a) = CombineMask dest (ia_mask a) \<and>
              IsSubnetDirectedBroadcast dest (ia_mask a)) (if_addrs iface);
            icmp \<leftarrow> (if rx protocol (p, ipHeader) = RX_ENDPOINT_UNREACH \<and> \<not> IsBroadcast dest \<and> \<not> IsMulticast dest \<and> \<not> subnetDirected
              then map_option (\<lambda>_. [Icmp_Port_Unreachable (p, ipHeader)]) (GetIcmp nd1) else Some []);
            Some (Receive_Up protocol iif (p, ipHeader) # icmp, nd1) })) }"

definition RouteInputError :: "ip_packet \<Rightarrow> ip_output list" where
  "RouteInputError pkt = [Drop DROP_ROUTE_ERROR pkt 0]"

section \<open>Receiving\<close>

text \<open>The packet and its header as \<^verbatim>\<open>RemoveHeader\<close> gives them.\<close>

definition trim_padding :: "ip_packet \<Rightarrow> ip_packet" where
  "trim_padding pkt = (if unat (ih_payloadSize (snd pkt)) < length (fst pkt)
     then (take (unat (ih_payloadSize (snd pkt))) (fst pkt), snd pkt) else pkt)"

definition route_input :: "(ptr \<Rightarrow> device_info) \<Rightarrow> (nat \<Rightarrow> ip_packet \<Rightarrow> rx_status) \<Rightarrow> ptr \<Rightarrow> int \<Rightarrow> prio_tag \<Rightarrow> ip_packet \<Rightarrow> ip_node \<Rightarrow>
    (ip_output list \<times> ip_node) option" where
  "route_input dev rx device i prio pkt nd = do {
     v \<leftarrow> RouteInput (ih_source (snd pkt)) (ih_destination (snd pkt)) device True (in_stack nd);
     (case v of
        Forward rtentry \<Rightarrow> map_option (\<lambda>outs. (outs, nd)) (IpForward dev rtentry pkt nd)
      | Forward_Multicast mrtentry \<Rightarrow> map_option (\<lambda>outs. (outs, nd)) (IpMulticastForward dev prio mrtentry pkt nd)
      | verdict.Deliver iif \<Rightarrow> LocalDeliver_up rx iif pkt nd
      | Error_Callback _ \<Rightarrow> Some (RouteInputError pkt, nd)
      | Not_Handled \<Rightarrow> Some ([Drop DROP_NO_ROUTE pkt i], nd)) }"

definition Ip_Receive :: "(ptr \<Rightarrow> device_info) \<Rightarrow> (nat \<Rightarrow> ip_packet \<Rightarrow> rx_status) \<Rightarrow> (u8 list \<Rightarrow> u32) \<Rightarrow> ptr \<Rightarrow> prio_tag \<Rightarrow> ip_packet \<Rightarrow>
    ip_node \<Rightarrow> (ip_output list \<times> ip_node) option" where
  "Ip_Receive dev rx hash32 device prio pkt0 nd = (let i = nd_GetInterfaceForDevice device (st_node (in_stack nd)) in
     if i = - 1 then None else do {
       iface \<leftarrow> nd_GetInterface (nat i) (st_node (in_stack nd));
       (if \<not> if_up iface then Some ([Drop DROP_INTERFACE_DOWN pkt0 i], nd)
        else (let pkt = trim_padding pkt0 in
          if \<not> ih_goodChecksum (snd pkt) then Some ([Drop DROP_BAD_CHECKSUM pkt i], nd)
          else (let raw = map (\<lambda>k. Raw_Socket k pkt) [0..<in_sockets nd];
              (dup, nd1) = (if in_enableDpd nd \<and> IsMulticast (ih_destination (snd pkt))
                then UpdateDuplicate hash32 (fst pkt) (snd pkt) nd else (False, nd)) in
            if dup then Some (raw @ [Drop DROP_DUPLICATE pkt i], nd1)
            else map_option (\<lambda>(outs, nd2). (raw @ outs, nd2)) (route_input dev rx device i prio pkt nd1)))) })"

section \<open>Sending from above\<close>

definition IsUnicast :: "ipv4_address \<Rightarrow> ip_node \<Rightarrow> bool" where
  "IsUnicast ad nd \<longleftrightarrow> (if IsBroadcast ad \<or> IsMulticast ad then False
     else \<not> list_ex (\<lambda>iface. list_ex (\<lambda>a. ad = ia_broadcast a) (if_addrs iface)) (nd_interfaces (st_node (in_stack nd))))"

definition IsUnicast_mask :: "ipv4_address \<Rightarrow> ipv4_mask \<Rightarrow> bool" where
  "IsUnicast_mask ad interfaceMask \<longleftrightarrow> \<not> IsMulticast ad \<and> \<not> IsSubnetDirectedBroadcast ad interfaceMask"

definition identification_key :: "ipv4_address \<Rightarrow> ipv4_address \<Rightarrow> u8 \<Rightarrow> u64 \<times> u8" where
  "identification_key source destination protocol = (ucast destination OR push_bit 32 (ucast source), protocol)"

definition DecreaseIdentification :: "ipv4_address \<Rightarrow> ipv4_address \<Rightarrow> u8 \<Rightarrow> ip_node \<Rightarrow> ip_node" where
  "DecreaseIdentification source destination protocol nd = (let key = identification_key source destination protocol in
     nd\<lparr>in_identification := (in_identification nd)(key := in_identification nd key - 1)\<rparr>)"

definition BuildHeader :: "ipv4_address \<Rightarrow> ipv4_address \<Rightarrow> u8 \<Rightarrow> u16 \<Rightarrow> u8 \<Rightarrow> u8 \<Rightarrow> bool \<Rightarrow> ip_node \<Rightarrow> ipv4_header \<times> ip_node" where
  "BuildHeader source destination protocol payloadSize ttl tos mayFragment nd = (let key = identification_key source destination protocol;
     h0 = Ipv4Header\<lparr>ih_source := source, ih_destination := destination, ih_protocol := protocol, ih_payloadSize := payloadSize,
       ih_ttl := ttl, ih_tos := tos\<rparr>;
     h1 = (if mayFragment then SetMayFragment h0 else SetDontFragment h0)\<lparr>ih_identification := in_identification nd key\<rparr> in
     (if in_checksum nd then EnableChecksum h1 else h1, nd\<lparr>in_identification := (in_identification nd)(key := in_identification nd key + 1)\<rparr>))"

text \<open>The tags of a packet passed down: time to live, type of service and priority. A call of \<^verbatim>\<open>Send\<close> removes the first two from
  the packet it is given.\<close>

record send_tags =
  tg_ttl :: "u8 option"
  tg_tos :: "u8 option"
  tg_prio :: prio_tag

definition consumed :: "send_tags \<Rightarrow> send_tags" where
  "consumed tags = tags\<lparr>tg_ttl := None, tg_tos := None\<rparr>"

definition new_header :: "u8 list \<Rightarrow> ipv4_address \<Rightarrow> ipv4_address \<Rightarrow> u8 \<Rightarrow> send_tags \<Rightarrow> ip_node \<Rightarrow> ipv4_header \<times> ip_node" where
  "new_header packet source destination protocol tags nd = BuildHeader source destination protocol (of_nat (length packet))
     (case tg_ttl tags of Some t \<Rightarrow> t | None \<Rightarrow> in_defaultTtl nd) (case tg_tos tags of Some t \<Rightarrow> t | None \<Rightarrow> 0) True nd"

definition Send_on_route :: "(ptr \<Rightarrow> device_info) \<Rightarrow> (u8 list \<Rightarrow> u32) \<Rightarrow> u8 list \<Rightarrow> ipv4_address \<Rightarrow> ipv4_address \<Rightarrow> u8 \<Rightarrow> ipv4_route \<Rightarrow>
    send_tags \<Rightarrow> ip_node \<Rightarrow> (ip_output list \<times> ip_node) option" where
  "Send_on_route dev hash32 packet source destination protocol route tags nd = (let
     (ipHeader, nd1) = new_header packet source destination protocol tags nd in
     if rt_gateway route = UNINITIALIZED then None
     else (let nd2 = (if in_enableDpd nd1 \<and> IsMulticast (ih_destination ipHeader) then snd (UpdateDuplicate hash32 packet ipHeader nd1) else nd1) in
       map_option (\<lambda>outs. (outs, nd2)) (SendRealOut dev (tg_prio tags) (Some route) (packet, ipHeader) nd2)))"

definition proxy_route :: "ipv4_address \<Rightarrow> ipv4_address \<Rightarrow> ipv4_interface \<Rightarrow> ipv4_route" where
  "proxy_route source destination iface = \<lparr>rt_dest = destination, rt_source = source, rt_gateway = 0, rt_device = if_device iface\<rparr>"

fun broadcast_loop :: "(ptr \<Rightarrow> device_info) \<Rightarrow> (u8 list \<Rightarrow> u32) \<Rightarrow> u8 list \<Rightarrow> ipv4_address \<Rightarrow> ipv4_address \<Rightarrow> u8 \<Rightarrow> ipv4_interface list \<Rightarrow>
    send_tags \<Rightarrow> ip_node \<Rightarrow> (ip_output list \<times> ip_node) option" where
  "broadcast_loop dev hash32 packet source destination protocol [] tags nd = Some ([], nd)" |
  "broadcast_loop dev hash32 packet source destination protocol (iface # ifaces) tags nd =
     (if source = 0 \<or> list_ex (\<lambda>a. ia_local a = source) (if_addrs iface) then do {
        (outs, nd1) \<leftarrow> Send_on_route dev hash32 packet source destination protocol (proxy_route source destination iface) tags
          (DecreaseIdentification source destination protocol nd);
        (rest_outs, nd2) \<leftarrow> broadcast_loop dev hash32 packet source destination protocol ifaces (consumed tags) nd1;
        Some (outs @ rest_outs, nd2) }
      else broadcast_loop dev hash32 packet source destination protocol ifaces tags nd)"

text \<open>The device of every interface of the list has an interface index.\<close>

definition on_subnet_broadcast :: "ipv4_address \<Rightarrow> ipv4_node \<Rightarrow> ipv4_interface \<Rightarrow> bool" where
  "on_subnet_broadcast destination nodes outInterface \<longleftrightarrow>
     (case nd_GetInterface (nat (nd_GetInterfaceForDevice (if_device outInterface) nodes)) nodes of None \<Rightarrow> False
      | Some iface \<Rightarrow> list_ex (\<lambda>a. IsSubnetDirectedBroadcast destination (ia_mask a) \<and>
          CombineMask destination (ia_mask a) = CombineMask (ia_local a) (ia_mask a)) (if_addrs iface))"

definition Ip_Send :: "(ptr \<Rightarrow> device_info) \<Rightarrow> (u8 list \<Rightarrow> u32) \<Rightarrow> u8 list \<Rightarrow> ipv4_address \<Rightarrow> ipv4_address \<Rightarrow> u8 \<Rightarrow> ipv4_route option \<Rightarrow>
    send_tags \<Rightarrow> ip_node \<Rightarrow> (ip_output list \<times> ip_node) option" where
  "Ip_Send dev hash32 packet source destination protocol route tags nd = (case route of
     Some r \<Rightarrow> Send_on_route dev hash32 packet source destination protocol r tags nd
   | None \<Rightarrow> (let (ipHeader, nd1) = new_header packet source destination protocol tags nd; st = in_stack nd1;
       ifaces = nd_interfaces (st_node st); nd2 = DecreaseIdentification source destination protocol nd1 in
       if IsBroadcast destination \<or> IsLocalMulticast destination
       then broadcast_loop dev hash32 packet source destination protocol ifaces tags nd1
       else (case find (on_subnet_broadcast destination (st_node st)) ifaces of
         Some iface \<Rightarrow> Send_on_route dev hash32 packet source destination protocol (proxy_route source destination iface) tags nd2
       | None \<Rightarrow> do {
           (newRoute, _) \<leftarrow> RouteOutput destination nullptr st;
           (case newRoute of
              Some r \<Rightarrow> Send_on_route dev hash32 packet source destination protocol r tags nd2
            | None \<Rightarrow> Some ([Drop DROP_NO_ROUTE (packet, ipHeader) 0], nd2)) })))"

end
