(* ===== verification/Ip_Network.thy ===== *)
theory Ip_Network
  imports Ip_Node "HOL-Library.Multiset_Order"
begin

text \<open>
  Packets that travel through nodes. Forwarding ends, whatever the routes: every node that passes a packet on lowers its time to
  live.
\<close>

section \<open>What a node passes on\<close>

fun carried :: "ip_output \<Rightarrow> (prio_tag \<times> ip_packet) option" where
  "carried (Traffic_Control d hw prio pkt) = Some (prio, pkt)" |
  "carried (Arp_Lookup d dest prio pkt) = Some (prio, pkt)" |
  "carried (Loopback d prio pkt) = Some (prio, pkt)" |
  "carried (Receive_Back d prio pkt) = Some (prio, pkt)" |
  "carried _ = None"

text \<open>Every packet in the outputs satisfies the predicate.\<close>

definition all_carried :: "(ipv4_header \<Rightarrow> bool) \<Rightarrow> ip_output list \<Rightarrow> bool" where
  "all_carried P outs \<longleftrightarrow> (\<forall>out\<in>set outs. \<forall>prio q h. carried out = Some (prio, (q, h)) \<longrightarrow> P h)"

lemma all_carried_simps [simp]:
  "all_carried P []"
  "all_carried P (out # outs) \<longleftrightarrow> (\<forall>prio q h. carried out = Some (prio, (q, h)) \<longrightarrow> P h) \<and> all_carried P outs"
  "all_carried P (outs @ outs') \<longleftrightarrow> all_carried P outs \<and> all_carried P outs'"
  "all_carried P (map (\<lambda>k. Raw_Socket k pkt) ks)"
  by (auto simp: all_carried_def)

lemma fragment_loop_ttl:
  assumes "fragment_loop ck p hdr fs off acc = Some frs" and "\<forall>x\<in>set acc. ih_ttl (snd x) = ih_ttl hdr"
  shows "\<forall>x\<in>set frs. ih_ttl (snd x) = ih_ttl hdr"
proof -
  let ?P = "\<lambda>ck p hdr fs off acc frs. (\<forall>x\<in>set acc. ih_ttl (snd x) = ih_ttl hdr) \<longrightarrow> (\<forall>x\<in>set frs. ih_ttl (snd x) = ih_ttl hdr)"
  have ttl: "ih_ttl h = ih_ttl g" if "SetFragmentOffset n g = Some h" for n g h
    using that by (auto simp: SetFragmentOffset_def split: if_splits)
  have set_ttl: "ih_ttl (SetMoreFragments h) = ih_ttl h" "ih_ttl (SetLastFragment h) = ih_ttl h" "ih_ttl (SetPayloadSize n h) = ih_ttl h"
    "ih_ttl (EnableChecksum h) = ih_ttl h" for h n
    by (simp_all add: SetMoreFragments_def SetLastFragment_def SetPayloadSize_def EnableChecksum_def)
  have "?P ck p hdr fs off acc frs"
  proof (rule fragment_loop.raw_induct [where P = ?P, OF _ assms(1)], goal_cases)
    case (1 loop ck p hdr fs off acc frs)
    let ?m = "of_nat (length p) > ucast off + fs"
    let ?n = "if ?m then fs else of_nat (length p) - ucast off"
    let ?h1 = "if ?m \<or> \<not> IsLastFragment hdr then SetMoreFragments hdr else SetLastFragment hdr"
    let ?h = "\<lambda>h2. if ck then EnableChecksum (SetPayloadSize (ucast ?n) h2) else SetPayloadSize (ucast ?n) h2"
    obtain f h2 where o: "SetFragmentOffset (off + ih_fragmentOffset hdr) ?h1 = Some h2"
      "(if ?m then loop ck p hdr fs (off + ucast ?n) (acc @ [(f, ?h h2)]) else Some (acc @ [(f, ?h h2)])) = Some frs"
      using 1(2) unfolding Let_def bind_eq_Some_conv by blast
    have "ih_ttl (?h h2) = ih_ttl hdr" using ttl [OF o(1)] by (simp add: set_ttl)
    then have "(\<forall>x\<in>set acc. ih_ttl (snd x) = ih_ttl hdr) \<longrightarrow> (\<forall>x\<in>set (acc @ [(f, ?h h2)]). ih_ttl (snd x) = ih_ttl hdr)" by simp
    moreover have "frs = acc @ [(f, ?h h2)] \<or> loop ck p hdr fs (off + ucast ?n) (acc @ [(f, ?h h2)]) = Some frs"
      using o(2) by (cases ?m) simp_all
    ultimately show ?case using 1(1) by blast
  qed
  then show ?thesis using assms(2) by blast
qed

lemma SendRealOut_packets_ttl:
  "SendRealOut_packets ck p hdr mtu = Some frs \<Longrightarrow> x \<in> set frs \<Longrightarrow> ih_ttl (snd x) = ih_ttl hdr"
  using fragment_loop_ttl [of ck p hdr _ 0 "[]" frs] by (auto simp: SendRealOut_packets_def DoFragmentation_def split: if_splits)

lemma if_Send_carried: "if_Send dev prio dest iface (q, h) = Some outs \<Longrightarrow> P h \<Longrightarrow> all_carried P outs"
  by (auto simp: if_Send_def Let_def split: if_splits)

lemma send_all_carried:
  assumes "send_all f pkts = Some outs" and "\<And>x outs. x \<in> set pkts \<Longrightarrow> f x = Some outs \<Longrightarrow> all_carried P outs"
  shows "all_carried P outs"
  using assms
proof (induction pkts arbitrary: outs)
  case (Cons x pkts)
  then obtain o1 o2 where o: "f x = Some o1" "send_all f pkts = Some o2" "outs = o1 @ o2" by (auto simp: bind_eq_Some_conv)
  have "all_carried P o1" using Cons.prems(2) [of x o1] o(1) by simp
  moreover have "all_carried P o2" by (rule Cons.IH [OF o(2)]) (use Cons.prems(2) in auto)
  ultimately show ?case using o(3) by simp
qed simp

lemma SendRealOut_carried:
  assumes "SendRealOut dev prio route (p, hdr) nd = Some outs"
  shows "all_carried (\<lambda>h. ih_ttl h = ih_ttl hdr) outs"
proof (cases route)
  case (Some r)
  have f: "all_carried (\<lambda>h. ih_ttl h = ih_ttl hdr) outs'"
    if "SendRealOut_packets ck p hdr mtu = Some pkts" "send_all (if_Send dev prio target iface) pkts = Some outs'" for ck mtu pkts target iface outs'
    by (rule send_all_carried [OF that(2)]) (use SendRealOut_packets_ttl [OF that(1)] if_Send_carried in \<open>fastforce\<close>)
  show ?thesis using assms Some by (auto simp: SendRealOut_def Let_def bind_eq_Some_conv intro: f split: if_splits)
qed (use assms in \<open>auto simp: SendRealOut_def\<close>)

section \<open>The time to live\<close>

text \<open>A packet with time to live 0 is passed on with 255.\<close>

definition hops_left :: "ipv4_header \<Rightarrow> nat" where
  "hops_left h = (if ih_ttl h = 0 then 256 else unat (ih_ttl h))"

lemma hops_left_step: "ih_ttl h - 1 \<noteq> 0 \<Longrightarrow> ih_ttl h' = ih_ttl h - 1 \<Longrightarrow> hops_left h' < hops_left h"
  using unsigned_less [of "ih_ttl h'", where 'a = nat] by (cases "ih_ttl h = 0") (auto simp: hops_left_def unat_minus_one unat_gt_0)

lemma IpForward_carried:
  assumes "IpForward dev rtentry (p, header) nd = Some outs"
  shows "all_carried (\<lambda>h. hops_left h < hops_left header) outs"
proof (cases "ih_ttl header - 1 = 0")
  case True
  then show ?thesis using assms by (auto simp: IpForward_def SetTtl_def bind_eq_Some_conv split: if_splits)
next
  case False
  then have "all_carried (\<lambda>h. ih_ttl h = ih_ttl header - 1) outs"
    using assms SendRealOut_carried [of dev _ "Some rtentry" p "SetTtl (ih_ttl header - 1) header" nd outs]
    by (auto simp: IpForward_def SetTtl_def Let_def)
  then show ?thesis using hops_left_step [OF False] by (auto simp: all_carried_def)
qed

lemma multicast_loop_carried:
  "multicast_loop dev prio js (p, header) nd = Some outs \<Longrightarrow> all_carried (\<lambda>h. hops_left h < hops_left header) outs"
proof (induction js arbitrary: outs)
  case (Cons i js)
  show ?case
  proof (cases "ih_ttl header - 1 = 0")
    case True
    then show ?thesis using Cons.prems by (auto simp: SetTtl_def)
  next
    case False
    then obtain rt outs1 outs2 where o: "SendRealOut dev prio (Some rt) (p, SetTtl (ih_ttl header - 1) header) nd = Some outs1"
      "multicast_loop dev prio js (p, header) nd = Some outs2" "outs = outs1 @ outs2"
      using Cons.prems by (auto simp: SetTtl_def Let_def bind_eq_Some_conv)
    have "all_carried (\<lambda>h. ih_ttl h = ih_ttl header - 1) outs1" using SendRealOut_carried [OF o(1)] by (simp add: SetTtl_def)
    then have "all_carried (\<lambda>h. hops_left h < hops_left header) outs1" using hops_left_step [OF False] by (auto simp: all_carried_def)
    then show ?thesis using Cons.IH [OF o(2)] o(3) by simp
  qed
qed simp

lemma LocalDeliver_up_carried: "LocalDeliver_up rx iif pkt nd = Some (outs, nd') \<Longrightarrow> all_carried P outs"
proof -
  assume a: "LocalDeliver_up rx iif pkt nd = Some (outs, nd')"
  then obtain delivered l3 where d: "LocalDeliver (fst pkt) (snd pkt) (of_nat iif) (in_l3 nd) = Some (delivered, l3)"
    by (auto simp: LocalDeliver_up_def bind_eq_Some_conv)
  show ?thesis
  proof (cases delivered)
    case (Some x)
    then show ?thesis using a d
      by (cases x; cases "GetProtocol (ih_protocol (snd x)) (int iif) (nd\<lparr>in_l3 := l3\<rparr>)")
        (auto simp: LocalDeliver_up_def Let_def bind_eq_Some_conv split: if_split_asm)
  qed (use a d in \<open>auto simp: LocalDeliver_up_def\<close>)
qed

lemma route_input_carried:
  assumes "route_input dev rx device i prio (q, header) nd = Some (outs, nd')"
  shows "all_carried (\<lambda>h. hops_left h < hops_left header) outs"
proof -
  obtain v where v: "RouteInput (ih_source header) (ih_destination header) device True (in_stack nd) = Some v"
    using assms by (auto simp: route_input_def bind_eq_Some_conv)
  then show ?thesis
    using assms IpForward_carried multicast_loop_carried LocalDeliver_up_carried
    by (cases v) (auto simp: route_input_def IpMulticastForward_def RouteInputError_def)
qed

lemma Ip_Receive_carried:
  assumes "Ip_Receive dev rx hash32 device prio (p, header) nd = Some (outs, nd')"
  shows "all_carried (\<lambda>h. hops_left h < hops_left header) outs"
proof -
  have "\<exists>q. trim_padding (p, header) = (q, header)" by (simp add: trim_padding_def)
  then obtain q where t: "trim_padding (p, header) = (q, header)" by blast
  show ?thesis using assms route_input_carried
    by (auto simp: Ip_Receive_def Let_def bind_eq_Some_conv t split: if_split_asm prod.split_asm)
qed

section \<open>Packets in flight\<close>

text \<open>The header as \<^verbatim>\<open>RemoveHeader\<close> reads it from the bytes \<^verbatim>\<open>AddHeader\<close> wrote.\<close>

definition arrived :: "bool \<Rightarrow> ipv4_header \<Rightarrow> ipv4_header" where
  "arrived ck h = parsed_header (if ck then EnableChecksum Ipv4Header else Ipv4Header) (ipv4_bytes h)"

text \<open>A packet on its way to a device of a node. A step of the network processes one of them at its node, in whatever state the node
  is, and sends what the node passes on to any number of devices of any nodes.\<close>

type_synonym flight = "nat \<times> ptr \<times> prio_tag \<times> ip_packet"

definition arrivals_of :: "(ip_output \<Rightarrow> (bool \<times> nat \<times> ptr) list) \<Rightarrow> ip_output \<Rightarrow> flight list" where
  "arrivals_of receivers out = (case carried out of None \<Rightarrow> []
     | Some (prio, (q, h)) \<Rightarrow> map (\<lambda>(ck, n, d). (n, d, prio, (q, arrived ck h))) (receivers out))"

inductive flight_step :: "flight multiset \<Rightarrow> flight multiset \<Rightarrow> bool" where
  "Ip_Receive dev rx hash32 d prio pkt nd = Some (outs, nd') \<Longrightarrow>
    flight_step (add_mset (n, d, prio, pkt) M) (M + mset (concat (map (arrivals_of receivers) outs)))"

lemma parsed_ttl: "ih_ttl (arrived ck h) = ih_ttl h"
  by (simp add: arrived_def parsed_header_def ipv4_bytes_def Let_def overwrite_def fields_bytes_def ipv4_fields_def)

lemma arrivals_of_carried:
  assumes "all_carried (\<lambda>h. hops_left h < k) outs" and "x \<in> set (concat (map (arrivals_of receivers) outs))"
  shows "hops_left (snd (snd (snd (snd x)))) < k"
proof -
  obtain out where out: "out \<in> set outs" "x \<in> set (arrivals_of receivers out)" using assms(2) by auto
  then obtain prio q h where h: "carried out = Some (prio, (q, h))" by (cases "carried out") (auto simp: arrivals_of_def)
  then have "hops_left h < k" using assms(1) out(1) by (auto simp: all_carried_def)
  moreover have "hops_left (snd (snd (snd (snd x)))) = hops_left h"
    using out(2) h by (auto simp: arrivals_of_def hops_left_def parsed_ttl)
  ultimately show ?thesis by simp
qed

definition weight :: "flight multiset \<Rightarrow> nat multiset" where
  "weight M = image_mset (\<lambda>x. hops_left (snd (snd (snd (snd x))))) M"

lemma flight_step_decreases: "flight_step M M' \<Longrightarrow> weight M' < weight M"
proof (induction rule: flight_step.induct)
  case (1 dev rx hash32 d prio pkt nd outs nd' n M receivers)
  let ?f = "\<lambda>x :: flight. hops_left (snd (snd (snd (snd x))))"
  obtain p header where pkt: "pkt = (p, header)" by force
  have "all_carried (\<lambda>h. hops_left h < hops_left header) outs" using Ip_Receive_carried 1 pkt by blast
  then have "image_mset ?f (mset (concat (map (arrivals_of receivers) outs))) < {#hops_left header#}"
    using arrivals_of_carried by (simp only: mset_lt_single_right_iff) auto
  then have "image_mset ?f M + image_mset ?f (mset (concat (map (arrivals_of receivers) outs))) < image_mset ?f M + {#hops_left header#}"
    by (rule add_strict_left_mono)
  then show ?case by (simp add: weight_def pkt)
qed


end
