(* ===== verification/Routing_Properties.thy ===== *)
theory Routing_Properties
  imports Static_Routing
begin

text \<open>
  The lookup takes the longest matching prefix, and connected destinations stay reachable as long as addresses are only added.
\<close>

section \<open>Looking up\<close>

definition prefix_of :: "table_entry \<times> u32 \<Rightarrow> u16" where
  "prefix_of c = GetPrefixLength (te_mask (fst c))"

text \<open>Every route leads to an interface that has an address.\<close>

definition usable :: "ip_stack \<Rightarrow> bool" where
  "usable st \<longleftrightarrow> (\<forall>(r, m)\<in>set (st_networkRoutes st). te_interface r < length (nd_interfaces (st_node st)) \<and>
     if_addrs (nd_interfaces (st_node st) ! te_interface r) \<noteq> [])"

definition candidate :: "ipv4_address \<Rightarrow> ptr \<Rightarrow> ip_stack \<Rightarrow> table_entry \<times> u32 \<Rightarrow> bool" where
  "candidate dest oif st c \<longleftrightarrow> IsMatch (te_mask (fst c)) dest (te_dest (fst c)) \<and>
     (oif = nullptr \<or> oif = if_device (nd_interfaces (st_node st) ! te_interface (fst c)))"

definition made_route :: "ip_stack \<Rightarrow> table_entry \<Rightarrow> ipv4_route" where
  "made_route st r = \<lparr>rt_dest = te_dest r, rt_source = the (nd_SourceAddressSelection (te_interface r) (te_dest r) (st_node st)),
     rt_gateway = te_gateway r, rt_device = if_device (nd_interfaces (st_node st) ! te_interface r)\<rparr>"

text \<open>The best of some candidates: a host route is taken at once, otherwise the longest prefix wins, then the smallest metric, then the
  last in the table.\<close>

definition best_candidate :: "(table_entry \<times> u32) list \<Rightarrow> table_entry \<times> u32 \<Rightarrow> bool" where
  "best_candidate cs c \<longleftrightarrow> (\<exists>pre post. cs = pre @ c # post \<and>
     (if prefix_of c = 32 then \<forall>x\<in>set pre. prefix_of x < 32
      else (\<forall>x\<in>set cs. prefix_of x \<le> prefix_of c \<and> (prefix_of x = prefix_of c \<longrightarrow> snd c \<le> snd x)) \<and>
        (\<forall>x\<in>set post. prefix_of x = prefix_of c \<longrightarrow> snd c < snd x)))"

lemma source_ok:
  assumes "i < length (nd_interfaces nd)" and "if_addrs (nd_interfaces nd ! i) \<noteq> []"
  shows "\<exists>a. nd_SourceAddressSelection i dest nd = Some a"
  using assms by (simp add: nd_SourceAddressSelection_def nd_GetInterface_def nd_GetAddress_def)

definition searched :: "ip_stack \<Rightarrow> (table_entry \<times> u32) list \<Rightarrow> ipv4_route option \<Rightarrow> u16 \<Rightarrow> u32 \<Rightarrow> bool" where
  "searched st cs rt l m \<longleftrightarrow> (case rt of None \<Rightarrow> cs = [] \<and> l = 0 \<and> m = 0xffffffff
     | Some r \<Rightarrow> \<exists>c. best_candidate cs c \<and> prefix_of c \<noteq> 32 \<and> r = made_route st (fst c) \<and> l = prefix_of c \<and> m = snd c)"

lemma best_append:
  assumes "best_candidate cs c" and "prefix_of c \<noteq> 32"
  shows "prefix_of x < prefix_of c \<Longrightarrow> best_candidate (cs @ [x]) c"
    "prefix_of x = prefix_of c \<Longrightarrow> snd c < snd x \<Longrightarrow> best_candidate (cs @ [x]) c"
    "prefix_of x > prefix_of c \<or> prefix_of x = prefix_of c \<and> snd x \<le> snd c \<Longrightarrow> best_candidate (cs @ [x]) x"
proof -
  obtain pre post where c: "cs = pre @ c # post" "\<forall>y\<in>set cs. prefix_of y \<le> prefix_of c \<and> (prefix_of y = prefix_of c \<longrightarrow> snd c \<le> snd y)"
    "\<forall>y\<in>set post. prefix_of y = prefix_of c \<longrightarrow> snd c < snd y"
    using assms unfolding best_candidate_def by auto
  have app: "cs @ [x] = pre @ c # (post @ [x])" using c(1) by simp
  show "best_candidate (cs @ [x]) c" if "prefix_of x < prefix_of c"
    unfolding best_candidate_def using app assms(2) that c(2,3) by (intro exI [of _ pre] exI [of _ "post @ [x]"]) auto
  show "best_candidate (cs @ [x]) c" if "prefix_of x = prefix_of c" "snd c < snd x"
    unfolding best_candidate_def using app assms(2) that c(2,3) by (intro exI [of _ pre] exI [of _ "post @ [x]"]) auto
  show "best_candidate (cs @ [x]) x" if x: "prefix_of x > prefix_of c \<or> prefix_of x = prefix_of c \<and> snd x \<le> snd c"
  proof -
    have "prefix_of c < 32" using assms(2) GetPrefixLength_le [of "te_mask (fst c)"] by (simp add: prefix_of_def less_le)
    then have "\<forall>y\<in>set cs. prefix_of y < 32" using c(2) by (meson le_less_trans)
    moreover have "\<forall>y\<in>set (cs @ [x]). prefix_of y \<le> prefix_of x \<and> (prefix_of y = prefix_of x \<longrightarrow> snd x \<le> snd y)"
    proof
      fix y assume "y \<in> set (cs @ [x])"
      then consider "y = x" | "y \<in> set cs" by auto
      then show "prefix_of y \<le> prefix_of x \<and> (prefix_of y = prefix_of x \<longrightarrow> snd x \<le> snd y)"
      proof cases
        case 2
        then have y: "prefix_of y \<le> prefix_of c" "prefix_of y = prefix_of c \<Longrightarrow> snd c \<le> snd y" using c(2) by auto
        from x show ?thesis
        proof
          assume "prefix_of c < prefix_of x"
          then have "prefix_of y < prefix_of x" using y(1) by (rule le_less_trans [rotated])
          then show ?thesis by auto
        next
          assume "prefix_of x = prefix_of c \<and> snd x \<le> snd c"
          then show ?thesis using y order_trans [of "snd x" "snd c" "snd y"] by auto
        qed
      qed simp
    qed
    ultimately show ?thesis unfolding best_candidate_def by (intro exI [of _ cs] exI [of _ "[]"]) auto
  qed
qed

lemma best_first: "best_candidate [x] x"
  unfolding best_candidate_def by (intro exI [of _ "[]"]) auto

lemma best_prefix: "best_candidate cs c \<Longrightarrow> prefix_of c = 32 \<Longrightarrow> best_candidate (cs @ ds) c"
  unfolding best_candidate_def by (metis (no_types, lifting) append_Cons append_assoc)

lemma lookup_loop_ok:
  assumes "searched st cs rt l m" and "\<forall>(r, k)\<in>set routes. te_interface r < length (nd_interfaces (st_node st)) \<and>
     if_addrs (nd_interfaces (st_node st) ! te_interface r) \<noteq> []"
  shows "\<exists>res. lookup_loop dest oif (st_node st) rt l m routes = Some res \<and>
    (case res of None \<Rightarrow> cs @ filter (candidate dest oif st) routes = []
     | Some r \<Rightarrow> \<exists>c. best_candidate (cs @ filter (candidate dest oif st) routes) c \<and> r = made_route st (fst c))"
  using assms
proof (induction routes arbitrary: cs rt l m)
  case Nil
  then show ?case by (auto simp: searched_def split: option.splits)
next
  case (Cons c routes)
  obtain j metric where c: "c = (j, metric)" by force
  let ?nd = "st_node st"
  have i: "te_interface j < length (nd_interfaces ?nd)" "if_addrs (nd_interfaces ?nd ! te_interface j) \<noteq> []" using Cons.prems(2) c by auto
  have dev: "nd_GetNetDevice (te_interface j) ?nd = Some (if_device (nd_interfaces ?nd ! te_interface j))"
    using i(1) by (simp add: nd_GetNetDevice_def nd_GetInterface_def)
  obtain src where src: "nd_SourceAddressSelection (te_interface j) (te_dest j) ?nd = Some src" using source_ok [OF i] by blast
  have le: "GetPrefixLength (te_mask j) = prefix_of c" by (simp add: prefix_of_def c)
  have mr: "\<lparr>rt_dest = te_dest j, rt_source = src, rt_gateway = te_gateway j, rt_device = if_device (nd_interfaces ?nd ! te_interface j)\<rparr> =
      made_route st j" by (simp add: made_route_def src)
  note pr = Cons.prems(1)
  have rest: "\<forall>(r, k)\<in>set routes. te_interface r < length (nd_interfaces ?nd) \<and> if_addrs (nd_interfaces ?nd ! te_interface r) \<noteq> []"
    using Cons.prems(2) by auto
  show ?case
  proof (cases "candidate dest oif st c")
    case False
    then have "lookup_loop dest oif ?nd rt l m (c # routes) = lookup_loop dest oif ?nd rt l m routes"
      using c dev by (auto simp: candidate_def Let_def)
    moreover have "filter (candidate dest oif st) (c # routes) = filter (candidate dest oif st) routes" using False by simp
    ultimately show ?thesis using Cons.IH [OF pr rest] by (simp only:)
  next
    case True
    then have step: "lookup_loop dest oif ?nd rt l m (c # routes) =
      (if prefix_of c < l then lookup_loop dest oif ?nd rt l m routes
       else let m1 = (if prefix_of c > l then 0xffffffff else m) in
         if metric > m1 then lookup_loop dest oif ?nd rt (prefix_of c) m1 routes
         else if prefix_of c = 32 then Some (Some (made_route st j))
         else lookup_loop dest oif ?nd (Some (made_route st j)) (prefix_of c) metric routes)"
      using c dev src le mr by (auto simp: candidate_def Let_def)
    have ones: "(0xffffffff :: u32) = - 1" by simp
    have max: "\<not> metric > 0xffffffff" unfolding ones not_less by (rule word_n1_ge)
    have ds: "cs @ filter (candidate dest oif st) (c # routes) = (cs @ [c]) @ filter (candidate dest oif st) routes" using True by simp
    have skip: ?thesis if "searched st (cs @ [c]) rt l m" "lookup_loop dest oif ?nd rt l m (c # routes) = lookup_loop dest oif ?nd rt l m routes"
      using Cons.IH [OF that(1) rest] that(2) unfolding ds by simp
    have take_it: ?thesis if b: "best_candidate (cs @ [c]) c"
      and e: "lookup_loop dest oif ?nd rt l m (c # routes) = (if prefix_of c = 32 then Some (Some (made_route st j))
        else lookup_loop dest oif ?nd (Some (made_route st j)) (prefix_of c) metric routes)"
    proof (cases "prefix_of c = 32")
      case True
      then show ?thesis using best_prefix [OF b True] e c unfolding ds by auto
    next
      case False
      then have "searched st (cs @ [c]) (Some (made_route st j)) (prefix_of c) metric" using b c by (auto simp: searched_def)
      from Cons.IH [OF this rest] show ?thesis using e False unfolding ds by simp
    qed
    show ?thesis
    proof (cases rt)
      case None
      then have "cs = []" "l = 0" "m = 0xffffffff" using pr by (auto simp: searched_def)
      then show ?thesis using take_it [of] best_first step max by (simp add: Let_def)
    next
      case (Some r)
      then obtain b where b: "best_candidate cs b" "prefix_of b \<noteq> 32" "r = made_route st (fst b)" "l = prefix_of b" "m = snd b"
        using pr by (auto simp: searched_def)
      have keep: "searched st (cs @ [c]) rt l m" if "best_candidate (cs @ [c]) b" unfolding searched_def Some option.case using that b(2-5) by blast
      consider "prefix_of c < l" | "prefix_of c = l" "metric > m" | "prefix_of c > l \<or> prefix_of c = l \<and> metric \<le> m" by fastforce
      then show ?thesis
      proof cases
        case 1
        then show ?thesis using skip keep best_append(1) [OF b(1,2)] b(4) step by simp
      next
        case 2
        then show ?thesis using skip keep best_append(2) [OF b(1,2)] b(4,5) c step by (simp add: Let_def)
      next
        case 3
        then have "best_candidate (cs @ [c]) c" using best_append(3) [OF b(1,2)] b(4,5) c by auto
        then show ?thesis using take_it 3 step max by (auto simp: Let_def)
      qed
    qed
  qed
qed

lemma lookup_best:
  assumes "usable st" and "\<not> IsLocalMulticast dest"
  shows "\<exists>res. LookupStatic dest oif st = Some res \<and> (let cs = filter (candidate dest oif st) (st_networkRoutes st) in
    case res of None \<Rightarrow> cs = [] | Some r \<Rightarrow> \<exists>c. best_candidate cs c \<and> r = made_route st (fst c))"
proof -
  have s: "searched st [] None 0 0xffffffff" by (simp add: searched_def)
  have u: "\<forall>(r, m)\<in>set (st_networkRoutes st). te_interface r < length (nd_interfaces (st_node st)) \<and>
     if_addrs (nd_interfaces (st_node st) ! te_interface r) \<noteq> []" using assms(1) unfolding usable_def .
  show ?thesis using lookup_loop_ok [OF s u, of dest oif] unfolding LookupStatic_def Let_def append_Nil if_not_P [OF assms(2)] .
qed

text \<open>C35: When every route of the table leads to an interface that has an address, the lookup returns a route made from the best of the
  matching routes: the longest prefix, among equal prefixes the smallest metric, among these the last one of the table; but the first route
  to the host itself, whatever its metric, ends the search. It returns none exactly when no route matches.\<close>

theorem LookupStatic_best:
  assumes "usable st" and "\<not> IsLocalMulticast dest"
  shows "\<exists>res. LookupStatic dest oif st = Some res \<and> (let cs = filter (candidate dest oif st) (st_networkRoutes st) in
    case res of None \<Rightarrow> cs = [] | Some r \<Rightarrow> \<exists>c. best_candidate cs c \<and> r = made_route st (fst c))"
  by (rule lookup_best [OF assms])

definition example_stack :: ip_stack where
  "example_stack = (empty_stack True)\<lparr>st_node := \<lparr>nd_interfaces =
       [\<lparr>if_device = 1, if_up = True, if_forwarding = True, if_addrs = [Ipv4InterfaceAddress 0x0a000001 0xffffff00]\<rparr>,
        \<lparr>if_device = 2, if_up = True, if_forwarding = True, if_addrs = [Ipv4InterfaceAddress 0x0a010001 0xffffff00]\<rparr>],
       nd_reverse = [(2, 1), (1, 0)], nd_weakEs = True, nd_ipForward = True\<rparr>,
     st_networkRoutes := [(CreateNetworkRouteTo 0x0a000000 0xffffff00 0 0, 0), (CreateNetworkRouteTo 0x0a010000 0xffffff00 0 1, 0),
       (CreateNetworkRouteTo 0 0 0x0a000002 0, 5), (CreateNetworkRouteTo 0 0 0x0a010002 1, 3)]\<rparr>"

theorem LookupStatic_best_witness:
  "\<exists>r. LookupStatic 0x08080808 nullptr example_stack = Some (Some r) \<and>
    (\<exists>c. best_candidate (filter (candidate 0x08080808 nullptr example_stack) (st_networkRoutes example_stack)) c \<and>
      r = made_route example_stack (fst c)) \<and> rt_gateway r = 0x0a010002"
proof -
  have h: "usable example_stack" "\<not> IsLocalMulticast 0x08080808" by code_simp+
  have "LookupStatic 0x08080808 nullptr example_stack =
    Some (Some \<lparr>rt_dest = 0, rt_source = 0x0a010001, rt_gateway = 0x0a010002, rt_device = 2\<rparr>)" by code_simp
  then show ?thesis using LookupStatic_best [OF h, of nullptr] by (auto simp: Let_def)
qed

end
