(* ===== verification/Connected_Routes.thy ===== *)
theory Connected_Routes
  imports Routing_Properties
begin

text \<open>
  The routes to the subnets of a node's own addresses: they are there as long as addresses are only added, and what happens to them
  when addresses are removed.
\<close>

section \<open>The connected routes\<close>

definition connected_route :: "nat \<Rightarrow> interface_address \<Rightarrow> table_entry \<times> u32" where
  "connected_route i a = (CreateNetworkRouteTo (CombineMask (ia_local a) (ia_mask a)) (ia_mask a) 0 i, 0)"

definition proper :: "interface_address \<Rightarrow> bool" where
  "proper a \<longleftrightarrow> ia_local a \<noteq> UNINITIALIZED \<and> ia_mask a \<noteq> UNINITIALIZED \<and> ia_mask a \<noteq> 0xffffffff"

definition connected :: "ip_stack \<Rightarrow> bool" where
  "connected st \<longleftrightarrow> (\<forall>i<length (nd_interfaces (st_node st)). if_up (nd_interfaces (st_node st) ! i) \<longrightarrow>
     (\<forall>a\<in>set (if_addrs (nd_interfaces (st_node st) ! i)). proper a \<longrightarrow> connected_route i a \<in> set (st_networkRoutes st)))"

definition routed :: "ip_stack \<Rightarrow> bool" where
  "routed st \<longleftrightarrow> usable st \<and> connected st"

lemma AddNetworkRouteTo_node [simp]: "st_node (AddNetworkRouteTo d m g i k st) = st_node st"
  by (simp add: AddNetworkRouteTo_def Let_def)

lemma AddNetworkRouteTo_routes [simp]:
  "set (st_networkRoutes (AddNetworkRouteTo d m g i k st)) = insert (CreateNetworkRouteTo d m g i, k) (set (st_networkRoutes st))"
proof (cases "LookupRoute (CreateNetworkRouteTo d m g i) k st")
  case True
  then obtain r where r: "(r, k) \<in> set (st_networkRoutes st)" "te_dest r = d" "te_mask r = m" "te_gateway r = g" "te_interface r = i"
    by (auto simp: LookupRoute_def list_ex_iff CreateNetworkRouteTo_def)
  then have "r = CreateNetworkRouteTo d m g i" by (cases r) (simp add: CreateNetworkRouteTo_def)
  then have "(CreateNetworkRouteTo d m g i, k) \<in> set (st_networkRoutes st)" using r(1) by simp
  then show ?thesis using True by (auto simp: AddNetworkRouteTo_def Let_def)
qed (auto simp: AddNetworkRouteTo_def Let_def)

lemma interface_routes_node [simp]: "st_node (interface_routes i addrs st) = st_node st"
  by (induction i addrs st rule: interface_routes.induct) auto

lemma interface_routes_routes [simp]:
  "set (st_networkRoutes (interface_routes i addrs st)) = set (st_networkRoutes st) \<union> connected_route i ` {a \<in> set addrs. proper a}"
proof (induction i addrs st rule: interface_routes.induct)
  case (2 i a addrs st)
  then show ?case by (cases "proper a") (auto simp: proper_def connected_route_def)
qed simp

lemma GetInterface_iff [simp]: "nd_GetInterface i nd = Some iface \<longleftrightarrow> i < length (nd_interfaces nd) \<and> iface = nd_interfaces nd ! i"
  by (auto simp: nd_GetInterface_def)

lemma st_update_simps [simp]:
  "nd_interfaces (st_node (st_update i iface st)) = (nd_interfaces (st_node st))[i := iface]"
  "st_networkRoutes (st_update i iface st) = st_networkRoutes st"
  by (simp_all add: st_update_def nd_update_def)

lemma connected_route_interface [simp]: "te_interface (fst (connected_route i a)) = i"
  by (simp add: connected_route_def CreateNetworkRouteTo_def)

section \<open>Configuring a node\<close>

text \<open>The operations that add to the configuration of a node, or take down an interface, or remove a route through a gateway. A route is
  added through an interface that has an address.\<close>

inductive stack_step :: "(ptr \<Rightarrow> u16) \<Rightarrow> ip_stack \<Rightarrow> ip_stack \<Rightarrow> bool" for mtu where
  add_interface: "stack_step mtu st (snd (st_AddInterface device st))" |
  add_address: "st_AddAddress i a st = Some st' \<Longrightarrow> stack_step mtu st st'" |
  set_up: "st_SetUp mtu i st = Some st' \<Longrightarrow> stack_step mtu st st'" |
  set_down: "st_SetDown i st = Some st' \<Longrightarrow> stack_step mtu st st'" |
  set_ip_forward: "stack_step mtu st (st_SetIpForward forward st)" |
  set_forwarding: "st_SetForwarding i val st = Some st' \<Longrightarrow> stack_step mtu st st'" |
  add_route: "nd_GetAddress i 0 (st_node st) = Some a \<Longrightarrow> stack_step mtu st (AddNetworkRouteTo network msk nextHop i metric st)" |
  remove_route: "GetRoute k st = Some r \<Longrightarrow> te_gateway r \<noteq> 0 \<Longrightarrow> RemoveRoute k st = Some st' \<Longrightarrow> stack_step mtu st st'"

lemma usable_iff: "usable st \<longleftrightarrow> (\<forall>c\<in>set (st_networkRoutes st). te_interface (fst c) < length (nd_interfaces (st_node st)) \<and>
    if_addrs (nd_interfaces (st_node st) ! te_interface (fst c)) \<noteq> [])"
  by (auto simp: usable_def)

lemma routed_add_interface: "routed st \<Longrightarrow> routed (snd (st_AddInterface device st))"
  by (auto simp: routed_def usable_iff connected_def st_AddInterface_def nd_AddIpv4Interface_def Ipv4Interface_def Let_def nth_append
    less_Suc_eq)

text \<open>The change of one interface, with the routes that lead to it.\<close>

lemma routed_change:
  assumes "routed st" and "nd_interfaces (st_node st') = (nd_interfaces (st_node st))[i := iface]"
    and "if_addrs (nd_interfaces (st_node st) ! i) \<noteq> [] \<Longrightarrow> if_addrs iface \<noteq> []"
    and "\<And>c. c \<in> set (st_networkRoutes st') \<Longrightarrow> c \<in> set (st_networkRoutes st) \<or>
      te_interface (fst c) = i \<and> i < length (nd_interfaces (st_node st)) \<and> if_addrs iface \<noteq> []"
    and "\<And>c. c \<in> set (st_networkRoutes st) \<Longrightarrow> te_interface (fst c) \<noteq> i \<Longrightarrow> c \<in> set (st_networkRoutes st')"
    and "\<And>a. if_up iface \<Longrightarrow> a \<in> set (if_addrs iface) \<Longrightarrow> proper a \<Longrightarrow> connected_route i a \<in> set (st_networkRoutes st')"
  shows "routed st'"
proof -
  have u: "usable st" "connected st" using assms(1) by (simp_all add: routed_def)
  have "usable st'" unfolding usable_iff assms(2)
  proof
    fix c assume "c \<in> set (st_networkRoutes st')"
    from assms(4) [OF this] u(1) assms(3)
    show "te_interface (fst c) < length ((nd_interfaces (st_node st))[i := iface]) \<and>
        if_addrs ((nd_interfaces (st_node st))[i := iface] ! te_interface (fst c)) \<noteq> []"
      unfolding usable_iff by (cases "te_interface (fst c) = i") (auto simp: nth_list_update)
  qed
  moreover have "connected st'" unfolding connected_def assms(2)
  proof (intro allI impI ballI)
    fix j a
    assume j: "j < length ((nd_interfaces (st_node st))[i := iface])" "if_up ((nd_interfaces (st_node st))[i := iface] ! j)"
      and a: "a \<in> set (if_addrs ((nd_interfaces (st_node st))[i := iface] ! j))" "proper a"
    show "connected_route j a \<in> set (st_networkRoutes st')"
    proof (cases "j = i")
      case True
      then show ?thesis using assms(6) j a by simp
    next
      case False
      then have "connected_route j a \<in> set (st_networkRoutes st)" using u(2) j a by (simp add: connected_def)
      then show ?thesis using assms(5) False by simp
    qed
  qed
  ultimately show ?thesis by (simp add: routed_def)
qed

lemma routed_connected: "routed st \<Longrightarrow> i < length (nd_interfaces (st_node st)) \<Longrightarrow> if_up (nd_interfaces (st_node st) ! i) \<Longrightarrow>
    a \<in> set (if_addrs (nd_interfaces (st_node st) ! i)) \<Longrightarrow> proper a \<Longrightarrow> connected_route i a \<in> set (st_networkRoutes st)"
  by (simp add: routed_def connected_def)

lemma routed_add_address:
  assumes "routed st" and "st_AddAddress i a st = Some st'"
  shows "routed st'"
proof -
  let ?iface = "nd_interfaces (st_node st) ! i"
  have i: "i < length (nd_interfaces (st_node st))" using assms(2) by (auto simp: st_AddAddress_def bind_eq_Some_conv)
  then have st': "st' = (let st1 = st_update i (?iface\<lparr>if_addrs := if_addrs ?iface @ [a]\<rparr>) st in
      if if_up ?iface \<and> ia_local a \<noteq> UNINITIALIZED \<and> ia_mask a \<noteq> UNINITIALIZED
      then AddNetworkRouteTo (CombineMask (ia_local a) (ia_mask a)) (ia_mask a) 0 i 0 st1 else st1)"
    using assms(2) by (auto simp: st_AddAddress_def NotifyAddAddress_def bind_eq_Some_conv)
  show ?thesis
    by (rule routed_change [OF assms(1), where i = i and iface = "?iface\<lparr>if_addrs := if_addrs ?iface @ [a]\<rparr>"])
      (use i routed_connected [OF assms(1) i] in \<open>auto simp: st' Let_def connected_route_def CreateNetworkRouteTo_def proper_def split: if_splits\<close>)
qed

lemma routed_set_up:
  assumes "routed st" and "st_SetUp mtu i st = Some st'"
  shows "routed st'"
proof (cases "mtu (if_device (nd_interfaces (st_node st) ! i)) \<ge> 68")
  case True
  let ?iface = "nd_interfaces (st_node st) ! i"
  have i: "i < length (nd_interfaces (st_node st))" using assms(2) by (auto simp: st_SetUp_def bind_eq_Some_conv)
  then have st': "st' = interface_routes i (if_addrs ?iface) (st_update i (?iface\<lparr>if_up := True\<rparr>) st)"
    using assms(2) True by (auto simp: st_SetUp_def NotifyInterfaceUp_def bind_eq_Some_conv)
  show ?thesis
    by (rule routed_change [OF assms(1), where i = i and iface = "?iface\<lparr>if_up := True\<rparr>"]) (use i in \<open>auto simp: st'\<close>)
next
  case False
  then show ?thesis using assms by (auto simp: st_SetUp_def bind_eq_Some_conv)
qed

lemma routed_set_down:
  assumes "routed st" and "st_SetDown i st = Some st'"
  shows "routed st'"
proof -
  let ?iface = "nd_interfaces (st_node st) ! i"
  have st': "st' = NotifyInterfaceDown i (st_update i (?iface\<lparr>if_up := False\<rparr>) st)"
    using assms(2) by (auto simp: st_SetDown_def bind_eq_Some_conv)
  show ?thesis
    by (rule routed_change [OF assms(1), where i = i and iface = "?iface\<lparr>if_up := False\<rparr>"]) (auto simp: st' NotifyInterfaceDown_def)
qed

lemma routed_set_forwarding:
  assumes "routed st" and "st_SetForwarding i val st = Some st'"
  shows "routed st'"
proof -
  let ?iface = "nd_interfaces (st_node st) ! i"
  have i: "i < length (nd_interfaces (st_node st))" and st': "st' = st_update i (?iface\<lparr>if_forwarding := val\<rparr>) st"
    using assms(2) by (auto simp: st_SetForwarding_def bind_eq_Some_conv)
  show ?thesis
    by (rule routed_change [OF assms(1), where i = i and iface = "?iface\<lparr>if_forwarding := val\<rparr>"])
      (use routed_connected [OF assms(1) i] in \<open>auto simp: st'\<close>)
qed

lemma routed_set_ip_forward: "routed st \<Longrightarrow> routed (st_SetIpForward forward st)"
  by (auto simp: routed_def usable_iff connected_def st_SetIpForward_def)

lemma routed_add_route: "routed st \<Longrightarrow> nd_GetAddress i 0 (st_node st) = Some a \<Longrightarrow> routed (AddNetworkRouteTo network msk nextHop i metric st)"
  by (auto simp: routed_def usable_iff connected_def nd_GetAddress_def bind_eq_Some_conv CreateNetworkRouteTo_def split: if_splits)

lemma routed_remove_route:
  assumes "routed st" and "GetRoute k st = Some r" and "te_gateway r \<noteq> 0" and "RemoveRoute k st = Some st'"
  shows "routed st'"
proof -
  let ?rs = "st_networkRoutes st"
  have k: "k < length ?rs" "r = fst (?rs ! k)" "st' = st\<lparr>st_networkRoutes := take k ?rs @ drop (Suc k) ?rs\<rparr>"
    using assms(2,4) by (auto simp: GetRoute_def RemoveRoute_def split: if_splits)
  have rs: "?rs = take k ?rs @ ?rs ! k # drop (Suc k) ?rs" using k(1) by (rule id_take_nth_drop)
  then have split_rs: "set ?rs = insert (?rs ! k) (set (take k ?rs @ drop (Suc k) ?rs))"
    by (metis Un_insert_right list.simps(15) set_append)
  have "te_gateway (fst (connected_route i a)) = 0" for i a by (simp add: connected_route_def CreateNetworkRouteTo_def)
  then have "connected_route i a \<noteq> ?rs ! k" for i a using assms(3) k(2) by metis
  then have "connected_route i a \<in> set (take k ?rs @ drop (Suc k) ?rs)" if "connected_route i a \<in> set ?rs" for i a
    using that split_rs by (simp only: insert_iff) blast
  moreover have "set (take k ?rs @ drop (Suc k) ?rs) \<subseteq> set ?rs" using split_rs by blast
  ultimately show ?thesis using assms(1) unfolding routed_def usable_iff connected_def k(3) by (simp del: set_append) blast
qed

lemma stack_step_routed: "stack_step mtu st st' \<Longrightarrow> routed st \<Longrightarrow> routed st'"
  by (induction rule: stack_step.induct)
    (blast intro: routed_add_interface routed_add_address routed_set_up routed_set_down routed_set_ip_forward routed_set_forwarding routed_add_route
      routed_remove_route)+

lemma empty_stack_routed: "routed (empty_stack weakEs)"
  by (simp add: routed_def usable_def connected_def empty_stack_def)

lemma reachable_routed: "(stack_step mtu)\<^sup>*\<^sup>* (empty_stack weakEs) st \<Longrightarrow> routed st"
  by (induction rule: rtranclp_induct) (auto intro: empty_stack_routed stack_step_routed)

lemma best_candidate_longest: "best_candidate cs c \<Longrightarrow> x \<in> set cs \<Longrightarrow> prefix_of x \<le> prefix_of c"
  using GetPrefixLength_le [of "te_mask (fst x)"] by (auto simp: best_candidate_def prefix_of_def split: if_splits)

lemma best_candidate_mem: "best_candidate cs c \<Longrightarrow> c \<in> set cs"
  by (auto simp: best_candidate_def)

text \<open>A packet that arrives on this device for this destination is not for the node, and the interface forwards.\<close>

definition forwards_from :: "ptr \<Rightarrow> ipv4_address \<Rightarrow> ip_stack \<Rightarrow> bool" where
  "forwards_from idev dest st \<longleftrightarrow> (let i = nd_GetInterfaceForDevice idev (st_node st) in i \<ge> 0 \<and>
     nd_IsDestinationAddress dest (nat i) (st_node st) = Some False \<and>
     (case nd_GetInterface (nat i) (st_node st) of Some iface \<Rightarrow> if_forwarding iface | None \<Rightarrow> False))"

text \<open>C36: Whatever the order in which interfaces and addresses are added, interfaces go up and down and routes are added and routes
  through gateways removed, a packet for an address in the subnet of an address of an interface that is up finds a route, whose prefix is
  at least as long as that of the subnet, and a router forwards it along this route.\<close>

theorem connected_subnet_has_route:
  assumes "(stack_step mtu)\<^sup>*\<^sup>* (empty_stack weakEs) st"
    and "i < length (nd_interfaces (st_node st))" and "if_up (nd_interfaces (st_node st) ! i)"
    and "a \<in> set (if_addrs (nd_interfaces (st_node st) ! i))" and "proper a"
    and "IsMatch (ia_mask a) dest (ia_local a)" and "\<not> IsLocalMulticast dest"
  shows "\<exists>c. RouteOutput dest nullptr st = Some (Some (made_route st (fst c)), ERROR_NOTERROR) \<and> c \<in> set (st_networkRoutes st) \<and>
    IsMatch (te_mask (fst c)) dest (te_dest (fst c)) \<and> GetPrefixLength (ia_mask a) \<le> GetPrefixLength (te_mask (fst c)) \<and>
    (\<forall>src idev lcb. \<not> IsMulticast dest \<and> forwards_from idev dest st \<longrightarrow>
      RouteInput src dest idev lcb st = Some (Forward (made_route st (fst c))))"
proof -
  let ?cs = "filter (candidate dest nullptr st) (st_networkRoutes st)"
  have r: "usable st" "connected_route i a \<in> set (st_networkRoutes st)"
    using reachable_routed [OF assms(1)] assms(2-5) by (auto simp: routed_def connected_def)
  have "candidate dest nullptr st (connected_route i a)"
    using assms(6) by (simp add: candidate_def connected_route_def CreateNetworkRouteTo_def IsMatch_def CombineMask_def and.assoc)
  then have mem: "connected_route i a \<in> set ?cs" using r(2) by simp
  obtain res where res: "LookupStatic dest nullptr st = Some res"
    "case res of None \<Rightarrow> ?cs = [] | Some r \<Rightarrow> \<exists>c. best_candidate ?cs c \<and> r = made_route st (fst c)"
    using lookup_best [OF r(1) assms(7), of nullptr] unfolding Let_def by blast
  moreover have "?cs \<noteq> []" using mem by (metis list.distinct(1) list.set_cases)
  ultimately obtain c where c: "LookupStatic dest nullptr st = Some (Some (made_route st (fst c)))" "best_candidate ?cs c"
    using that by (cases res) auto
  have "RouteInput src dest idev lcb st = Some (Forward (made_route st (fst c)))" if "\<not> IsMulticast dest" "forwards_from idev dest st"
    for src idev lcb using that c(1) by (auto simp: RouteInput_def forwards_from_def Let_def simp del: GetInterface_iff split: option.splits)
  then show ?thesis using c(1) best_candidate_mem [OF c(2)] best_candidate_longest [OF c(2) mem]
    by (intro exI [of _ c]) (auto simp: RouteOutput_def candidate_def prefix_of_def connected_route_def CreateNetworkRouteTo_def)
qed

definition example_address :: interface_address where
  "example_address = Ipv4InterfaceAddress 0x0a000001 0xffffff00"

definition example_node :: "interface_address list \<Rightarrow> (table_entry \<times> u32) list \<Rightarrow> bool \<Rightarrow> ip_stack" where
  "example_node addrs routes up = \<lparr>st_node = \<lparr>nd_interfaces = [\<lparr>if_device = 7, if_up = up, if_forwarding = True, if_addrs = addrs\<rparr>],
     nd_reverse = [(7, 0)], nd_weakEs = True, nd_ipForward = True\<rparr>, st_networkRoutes = routes, st_multicastRoutes = []\<rparr>"

theorem connected_subnet_has_route_witness:
  "\<exists>st r. st_SetUp (\<lambda>_. 1500) 0 (example_node [example_address] [] False) = Some st \<and>
    RouteOutput 0x0a000009 nullptr st = Some (Some (made_route st r), ERROR_NOTERROR)"
proof -
  let ?mtu = "\<lambda>_. 1500 :: u16"
  let ?st = "example_node [example_address] [connected_route 0 example_address] True"
  have "snd (st_AddInterface 7 (empty_stack True)) = example_node [] [] False" by code_simp
  then have 1: "stack_step ?mtu (empty_stack True) (example_node [] [] False)" using add_interface [of ?mtu "empty_stack True" 7] by simp
  have "st_AddAddress 0 example_address (example_node [] [] False) = Some (example_node [example_address] [] False)" by code_simp
  then have 2: "stack_step ?mtu (example_node [] [] False) (example_node [example_address] [] False)" by (rule add_address)
  have up: "st_SetUp ?mtu 0 (example_node [example_address] [] False) = Some ?st" by code_simp
  then have 3: "stack_step ?mtu (example_node [example_address] [] False) ?st" by (rule set_up)
  have "(stack_step ?mtu)\<^sup>*\<^sup>* (empty_stack True) (example_node [] [] False)" using 1 by (rule r_into_rtranclp)
  then have "(stack_step ?mtu)\<^sup>*\<^sup>* (empty_stack True) (example_node [example_address] [] False)"
    using 2 by (rule rtranclp.rtrancl_into_rtrancl)
  then have reach: "(stack_step ?mtu)\<^sup>*\<^sup>* (empty_stack True) ?st" using 3 by (rule rtranclp.rtrancl_into_rtrancl)
  have pre: "0 < length (nd_interfaces (st_node ?st))" "if_up (nd_interfaces (st_node ?st) ! 0)"
    "example_address \<in> set (if_addrs (nd_interfaces (st_node ?st) ! 0))" by (simp_all add: example_node_def)
  have ok: "proper example_address" "IsMatch (ia_mask example_address) 0x0a000009 (ia_local example_address)"
    "\<not> IsLocalMulticast 0x0a000009" by code_simp+
  show ?thesis using connected_subnet_has_route [OF reach pre ok] up by blast
qed

section \<open>Removing addresses\<close>

lemma remove_local_found:
  assumes "a \<in> set addrs"
  shows "\<exists>x addrs1. remove_local (ia_local a) addrs = Some (x, addrs1) \<and> ia_local x = ia_local a \<and> x \<in> set addrs \<and>
    (\<forall>b\<in>set addrs. ia_local b \<noteq> ia_local a \<longrightarrow> b \<in> set addrs1)"
  using assms by (induction addrs) auto

text \<open>C37: When an interface that is up has two addresses of one subnet and one of them is removed, the interface keeps the other, but
  the table keeps no connected route to their subnet through the interface.\<close>

theorem RemoveAddress_loses_subnet:
  assumes "i < length (nd_interfaces (st_node st))" and "if_up (nd_interfaces (st_node st) ! i)"
    and "distinct (map ia_local (if_addrs (nd_interfaces (st_node st) ! i)))"
    and "{a, b} \<subseteq> set (if_addrs (nd_interfaces (st_node st) ! i))" and "ia_local a \<noteq> ia_local b"
    and "ia_mask a = ia_mask b" and "IsMatch (ia_mask a) (ia_local a) (ia_local b)"
    and "proper a" and "ia_local a \<noteq> 0x7f000001"
  shows "\<exists>st'. st_RemoveAddress i (ia_local a) st = Some (True, st') \<and> b \<in> set (if_addrs (nd_interfaces (st_node st') ! i)) \<and>
    connected_route i b \<notin> set (st_networkRoutes st')"
proof -
  let ?iface = "nd_interfaces (st_node st) ! i"
  have mem: "a \<in> set (if_addrs ?iface)" "b \<in> set (if_addrs ?iface)" using assms(4) by auto
  obtain x addrs1 where x: "remove_local (ia_local a) (if_addrs ?iface) = Some (x, addrs1)" "ia_local x = ia_local a" "x \<in> set (if_addrs ?iface)"
    "b \<in> set addrs1" using remove_local_found [OF mem(1)] assms(5) mem(2) by (metis (no_types, lifting))
  have xa: "x = a" using assms(3) x(2,3) mem(1) by (auto simp: distinct_map dest: inj_onD)
  have a: "a \<noteq> no_interface_address" using assms(8) by (auto simp: proper_def no_interface_address_def)
  let ?st = "st_update i (?iface\<lparr>if_addrs := addrs1\<rparr>) st"
  let ?st' = "?st\<lparr>st_networkRoutes := filter (\<lambda>(r, m). \<not> (te_interface r = i \<and> IsNetwork r \<and>
         te_dest r = CombineMask (ia_local a) (ia_mask a) \<and> te_mask r = ia_mask a)) (st_networkRoutes ?st)\<rparr>"
  have "if_RemoveAddress (ia_local a) ?iface = (a, ?iface\<lparr>if_addrs := addrs1\<rparr>)" using x(1) xa assms(9) by (simp add: if_RemoveAddress_def)
  moreover have "nd_GetInterface i (st_node st) = Some ?iface" "nd_GetInterface i (st_node ?st) = Some (?iface\<lparr>if_addrs := addrs1\<rparr>)"
    using assms(1) by simp_all
  ultimately have "st_RemoveAddress i (ia_local a) st = Some (True, ?st')"
    using assms(2,9) a by (simp add: st_RemoveAddress_def NotifyRemoveAddress_def del: GetInterface_iff)
  moreover have "b \<in> set (if_addrs (nd_interfaces (st_node ?st') ! i))" using assms(1) x(4) by simp
  moreover have "connected_route i b \<notin> set (st_networkRoutes ?st')"
    using assms(6,7,8) by (auto simp: connected_route_def CreateNetworkRouteTo_def IsNetwork_def IsHost_def IsMatch_def CombineMask_def
      proper_def)
  ultimately show ?thesis by blast
qed

definition second_address :: interface_address where
  "second_address = Ipv4InterfaceAddress 0x0a000002 0xffffff00"

theorem RemoveAddress_loses_subnet_witness:
  "let st = example_node [example_address, second_address] [connected_route 0 example_address] True in
    fst (the (RouteOutput 0x0a000009 nullptr st)) \<noteq> None \<and>
    (\<exists>st'. st_RemoveAddress 0 0x0a000002 st = Some (True, st') \<and> example_address \<in> set (if_addrs (nd_interfaces (st_node st') ! 0)) \<and>
      RouteOutput 0x0a000009 nullptr st' = Some (None, ERROR_NOROUTETOHOST))"
proof -
  let ?st = "example_node [example_address, second_address] [connected_route 0 example_address] True"
  have pre: "0 < length (nd_interfaces (st_node ?st))" "if_up (nd_interfaces (st_node ?st) ! 0)"
    "distinct (map ia_local (if_addrs (nd_interfaces (st_node ?st) ! 0)))"
    "{second_address, example_address} \<subseteq> set (if_addrs (nd_interfaces (st_node ?st) ! 0))"
    by (simp_all add: example_node_def example_address_def second_address_def Ipv4InterfaceAddress_def)
  have ok: "ia_local second_address \<noteq> ia_local example_address" "ia_mask second_address = ia_mask example_address"
    "IsMatch (ia_mask second_address) (ia_local second_address) (ia_local example_address)" "proper second_address"
    "ia_local second_address \<noteq> 0x7f000001" by code_simp+
  have "st_RemoveAddress 0 (ia_local second_address) ?st = Some (True, example_node [example_address] [] True)" by code_simp
  moreover have "fst (the (RouteOutput 0x0a000009 nullptr ?st)) \<noteq> None" by code_simp
  moreover have "RouteOutput 0x0a000009 nullptr (example_node [example_address] [] True) = Some (None, ERROR_NOROUTETOHOST)" by code_simp
  moreover have "ia_local second_address = 0x0a000002" by code_simp
  ultimately show ?thesis using RemoveAddress_loses_subnet [OF pre ok] by (auto simp: Let_def)
qed

end
