(* ===== verification/Ip_Delivery.thy ===== *)
theory Ip_Delivery
  imports Ip_Network Connected_Routes
begin

unbundle bit_operations_syntax

text \<open>
  Delivery along a path: a datagram that is sent, fragmented, forwarded and fragmented again arrives as parts that the destination
  reassembles.
\<close>

section \<open>Parts on the wire\<close>

text \<open>A part of the datagram with the fields the path relies on.\<close>

definition travelling :: "bool \<Rightarrow> u8 list \<Rightarrow> frag_key \<Rightarrow> ipv4_address \<Rightarrow> u8 \<Rightarrow> ip_packet \<Rightarrow> bool" where
  "travelling ck p k dest ttl x \<longleftrightarrow> part p k x \<and> ipv4_ok (snd x) \<and> ih_destination (snd x) = dest \<and> ih_ttl (snd x) = ttl \<and>
     ih_payloadSize (snd x) = of_nat (length (fst x)) \<and> (ck \<longrightarrow> ih_calcChecksum (snd x)) \<and> ih_goodChecksum (snd x)"

lemma arrived_header:
  assumes "ipv4_ok h" and "ck \<Longrightarrow> ih_calcChecksum h"
  shows "\<exists>c. arrived ck h = h\<lparr>ih_calcChecksum := ck, ih_checksum := c, ih_goodChecksum := True, ih_headerSize := 20\<rparr>"
proof -
  have "ih_calcChecksum (if ck then EnableChecksum Ipv4Header else Ipv4Header) = ck"
    "ih_goodChecksum (if ck then EnableChecksum Ipv4Header else Ipv4Header)"
    by (simp_all add: EnableChecksum_def Ipv4Header_def)
  then show ?thesis unfolding arrived_def using parsed_ipv4 [OF assms(1), of "if ck then EnableChecksum Ipv4Header else Ipv4Header"] assms(2) by auto
qed

lemma travelling_arrives:
  assumes "travelling ck p k dest ttl (q, h)"
  shows "travelling ck p k dest ttl (q, arrived ck h)" and "offset_of (q, arrived ck h) = offset_of (q, h)"
proof -
  have h: "ipv4_ok h" "ck \<Longrightarrow> ih_calcChecksum h" using assms by (auto simp: travelling_def)
  obtain c where c: "arrived ck h = h\<lparr>ih_calcChecksum := ck, ih_checksum := c, ih_goodChecksum := True, ih_headerSize := 20\<rparr>"
    using arrived_header [OF h] by blast
  then show "offset_of (q, arrived ck h) = offset_of (q, h)" by (simp add: offset_of_def)
  show "travelling ck p k dest ttl (q, arrived ck h)"
    using assms c by (auto simp: travelling_def part_def offset_of_def fragment_key_def IsLastFragment_def ipv4_ok_def)
qed

text \<open>Sending a part through an interface keeps it, or cuts it into parts.\<close>

lemma two_bits: "\<not> bit (w :: 3 word) 2 \<Longrightarrow> \<not> bit (w OR 2) 2" "\<not> bit w 2 \<Longrightarrow> \<not> bit (w AND NOT 2) 2"
proof -
  have e: "(2 :: 3 word) = push_bit 1 1" by simp
  show "\<not> bit w 2 \<Longrightarrow> \<not> bit (w OR 2) 2" "\<not> bit w 2 \<Longrightarrow> \<not> bit (w AND NOT 2) 2"
    unfolding e by (auto simp: bit_simps)
qed

lemma fragment_header_travels:
  assumes "travelling ck p k dest ttl (q, hdr)" and "part p k (q', fragment_header ck hdr off (length q') lst)"
    and "ih_fragmentOffset (fragment_header ck hdr off (length q') lst) AND 7 = 0"
  shows "travelling ck p k dest ttl (q', fragment_header ck hdr off (length q') lst)"
  using assms two_bits by (auto simp: travelling_def ipv4_ok_def fragment_header_def)

lemma fragments_travel:
  assumes "travelling ck p k dest ttl (q, hdr)" and "fragments_from ck hdr n frs"
    and "\<forall>x\<in>set frs. part p k x \<and> ih_fragmentOffset (snd x) AND 7 = 0"
  shows "\<forall>x\<in>set frs. travelling ck p k dest ttl x"
  using assms(2,3)
proof (induction frs arbitrary: n)
  case (Cons x frs)
  then show ?case using fragment_header_travels [OF assms(1)] by (cases x) auto
qed simp

lemma SendRealOut_packets_travel:
  assumes "travelling ck p k dest ttl (q, hdr)" and "28 \<le> unat mtu" and "length p < 2 ^ 16"
  shows "\<exists>frs. SendRealOut_packets ck q hdr mtu = Some frs \<and> (\<forall>x\<in>set frs. travelling ck p k dest ttl x) \<and>
    segment (offset_of (q, hdr)) frs (offset_of (q, hdr) + length q)"
proof -
  have h: "part p k (q, hdr)" "ih_headerSize hdr = 20" "ih_fragmentOffset hdr AND 7 = 0"
    using assms(1) by (auto simp: travelling_def ipv4_ok_def)
  obtain frs where "DoFragmentation ck q hdr (ucast mtu) = Some frs" "fragments_from ck hdr 0 frs"
    "\<forall>x\<in>set frs. part p k x \<and> length (fst x) + 20 \<le> unat mtu \<and> ih_fragmentOffset (snd x) AND 7 = 0"
    "segment (offset_of (q, hdr)) frs (offset_of (q, hdr) + length q)"
    using DoFragmentation_parts [OF assms(2) h(2,3) assms(3) h(1), of ck] by auto
  then show ?thesis using fragments_travel [OF assms(1), of 0 frs] assms(1) by (auto simp: SendRealOut_packets_def)
qed

section \<open>Sources and routers\<close>

text \<open>The route of a node for a destination leads to an interface that is up, on a device without address resolution that is not
  the loopback, with an MTU of at least 28 bytes, and the next hop is not an address of that interface.\<close>

definition leads :: "(ptr \<Rightarrow> device_info) \<Rightarrow> ipv4_address \<Rightarrow> ptr \<Rightarrow> ip_node \<Rightarrow> bool" where
  "leads dev dest dout nd \<longleftrightarrow> (\<exists>r i iface. LookupStatic dest nullptr (in_stack nd) = Some (Some r) \<and> rt_gateway r \<noteq> UNINITIALIZED \<and>
     nd_GetInterfaceForDevice (rt_device r) (st_node (in_stack nd)) = int i \<and> nd_GetInterface i (st_node (in_stack nd)) = Some iface \<and>
     if_up iface \<and> if_device iface = dout \<and> \<not> dv_loopback (dev dout) \<and> \<not> dv_needsArp (dev dout) \<and> 28 \<le> unat (dv_mtu (dev dout)) \<and>
     (let target = (if rt_gateway r = 0 then dest else rt_gateway r) in \<not> list_ex (\<lambda>a. target = ia_local a) (if_addrs iface)))"

text \<open>What is sent on a device.\<close>

fun sent_on :: "ptr \<Rightarrow> ip_output list \<Rightarrow> ip_packet list" where
  "sent_on dout [] = []" |
  "sent_on dout (Traffic_Control d hw prio pkt # outs) = (if d = dout then pkt # sent_on dout outs else sent_on dout outs)" |
  "sent_on dout (_ # outs) = sent_on dout outs"

lemma sent_on_append [simp]: "sent_on dout (outs @ outs') = sent_on dout outs @ sent_on dout outs'"
  by (induction dout outs rule: sent_on.induct) auto

lemma sent_on_raw [simp]: "sent_on dout (map (\<lambda>k. Raw_Socket k pkt) ks) = []"
  by (induction ks) auto

lemma send_all_p2p:
  assumes "if_up iface" and "if_device iface = dout" and "\<not> dv_loopback (dev dout)" and "\<not> dv_needsArp (dev dout)"
    and "\<not> list_ex (\<lambda>a. target = ia_local a) (if_addrs iface)"
  shows "\<exists>outs. send_all (if_Send dev prio target iface) pkts = Some outs \<and> sent_on dout outs = pkts"
proof (induction pkts)
  case (Cons x pkts)
  have "if_Send dev prio target iface x = Some [Traffic_Control dout Hw_Broadcast prio x]" using assms by (simp add: if_Send_def)
  then show ?case using Cons by auto
qed simp

lemma SendRealOut_leads:
  assumes "leads dev dest dout nd" and "LookupStatic dest nullptr (in_stack nd) = Some (Some r)" and "in_checksum nd = ck"
    and "travelling ck p k dest ttl (q, hdr)" and "length p < 2 ^ 16"
  shows "\<exists>outs. SendRealOut dev prio (Some r) (q, hdr) nd = Some outs \<and> (\<forall>x\<in>set (sent_on dout outs). travelling ck p k dest ttl x) \<and>
    segment (offset_of (q, hdr)) (sent_on dout outs) (offset_of (q, hdr) + length q)"
proof -
  let ?nodes = "st_node (in_stack nd)" and ?target = "if rt_gateway r = 0 then dest else rt_gateway r"
  obtain i iface where i: "nd_GetInterfaceForDevice (rt_device r) ?nodes = int i" "nd_GetInterface i ?nodes = Some iface"
    "if_up iface" "if_device iface = dout" "\<not> dv_loopback (dev dout)" "\<not> dv_needsArp (dev dout)" "28 \<le> unat (dv_mtu (dev dout))"
    "\<not> list_ex (\<lambda>a. ?target = ia_local a) (if_addrs iface)"
    using assms(1,2) by (auto simp: leads_def Let_def)
  obtain frs where frs: "SendRealOut_packets ck q hdr (dv_mtu (dev dout)) = Some frs" "\<forall>x\<in>set frs. travelling ck p k dest ttl x"
    "segment (offset_of (q, hdr)) frs (offset_of (q, hdr) + length q)"
    using SendRealOut_packets_travel [OF assms(4) i(7) assms(5)] by blast
  obtain outs where outs: "send_all (if_Send dev prio ?target iface) frs = Some outs" "sent_on dout outs = frs"
    using send_all_p2p [where dev = dev and target = ?target, OF i(3-6,8)] by blast
  have "ih_destination hdr = dest" using assms(4) by (simp add: travelling_def)
  then have "SendRealOut dev prio (Some r) (q, hdr) nd = Some outs"
    using i(1,2,3) frs(1) outs(1) i(4) assms(3)
    by (cases "rt_gateway r = 0") (simp_all add: SendRealOut_def Let_def del: GetInterface_iff)
  then show ?thesis using outs(2) frs by auto
qed

definition relays :: "(ptr \<Rightarrow> device_info) \<Rightarrow> ipv4_address \<Rightarrow> ptr \<Rightarrow> ptr \<Rightarrow> ip_node \<Rightarrow> bool" where
  "relays dev dest d_in dout nd \<longleftrightarrow> leads dev dest dout nd \<and> forwards_from d_in dest (in_stack nd) \<and> \<not> IsMulticast dest \<and>
     (case nd_GetInterface (nat (nd_GetInterfaceForDevice d_in (st_node (in_stack nd)))) (st_node (in_stack nd)) of
        Some iface \<Rightarrow> if_up iface | None \<Rightarrow> False)"

lemma Ip_Receive_relays:
  assumes R: "relays dev dest d_in dout nd" and ck: "in_checksum nd = ck" and l: "length p < 2 ^ 16"
    and x: "travelling ck p k dest ttl (q, h)" and ttl: "ttl - 1 \<noteq> 0"
  shows "\<exists>outs. Ip_Receive dev rx hash32 d_in prio (q, h) nd = Some (outs, nd) \<and>
    (\<forall>x\<in>set (sent_on dout outs). travelling ck p k dest (ttl - 1) x) \<and>
    segment (offset_of (q, h)) (sent_on dout outs) (offset_of (q, h) + length q)"
proof -
  let ?nodes = "st_node (in_stack nd)"
  let ?i = "nd_GetInterfaceForDevice d_in ?nodes"
  have L: "leads dev dest dout nd" and m: "\<not> IsMulticast dest" and f: "forwards_from d_in dest (in_stack nd)" using R by (auto simp: relays_def)
  obtain r where r: "LookupStatic dest nullptr (in_stack nd) = Some (Some r)" using L by (auto simp: leads_def)
  have i: "?i \<ge> 0" using f by (simp add: forwards_from_def Let_def)
  obtain iface where iface: "nd_GetInterface (nat ?i) ?nodes = Some iface" "if_up iface" using R by (auto simp: relays_def split: option.splits)
  have d: "ih_destination h = dest" "ih_ttl h = ttl" "ih_goodChecksum h" "ih_payloadSize h = of_nat (length q)"
    using x by (auto simp: travelling_def)
  have "length q < 2 ^ 16" using x l by (auto simp: travelling_def part_def piece_def)
  then have t: "trim_padding (q, h) = (q, h)" using d(4) by (simp add: trim_padding_def u16_of_nat)
  have v: "RouteInput (ih_source h) dest d_in True (in_stack nd) = Some (Forward r)"
    using f r m by (auto simp: RouteInput_def forwards_from_def Let_def simp del: GetInterface_iff split: option.splits)
  let ?h = "SetTtl (ttl - 1) h" and ?prio = "if IpTos2Priority (ih_tos h) \<noteq> 0 then Some (IpTos2Priority (ih_tos h)) else None"
  have x': "travelling ck p k dest (ttl - 1) (q, ?h)" and o: "offset_of (q, ?h) = offset_of (q, h)"
    using x by (auto simp: travelling_def part_def offset_of_def SetTtl_def fragment_key_def IsLastFragment_def ipv4_ok_def)
  obtain outs where outs: "SendRealOut dev ?prio (Some r) (q, ?h) nd = Some outs" "\<forall>x\<in>set (sent_on dout outs). travelling ck p k dest (ttl - 1) x"
    "segment (offset_of (q, ?h)) (sent_on dout outs) (offset_of (q, ?h) + length q)"
    using SendRealOut_leads [OF L r ck x' l] by blast
  have "IpForward dev r (q, h) nd = Some outs" using outs(1) ttl d(2) by (simp add: IpForward_def SetTtl_def Let_def)
  then have "Ip_Receive dev rx hash32 d_in prio (q, h) nd = Some (map (\<lambda>k. Raw_Socket k (q, h)) [0..<in_sockets nd] @ outs, nd)"
    using i iface t v d(1,3) m by (simp add: Ip_Receive_def route_input_def Let_def del: GetInterface_iff)
  then show ?thesis using outs o by auto
qed

section \<open>The path\<close>

text \<open>A node receives packets in their order, as the link delivers them.\<close>

fun receive_all :: "(ptr \<Rightarrow> device_info) \<Rightarrow> (nat \<Rightarrow> ip_packet \<Rightarrow> rx_status) \<Rightarrow> (u8 list \<Rightarrow> u32) \<Rightarrow> ptr \<Rightarrow> ip_packet list \<Rightarrow> ip_node \<Rightarrow>
    (ip_output list \<times> ip_node) option" where
  "receive_all dev rx hash32 d [] nd = Some ([], nd)" |
  "receive_all dev rx hash32 d (pkt # pkts) nd = do {
     (outs1, nd1) \<leftarrow> Ip_Receive dev rx hash32 d None pkt nd;
     (outs2, nd2) \<leftarrow> receive_all dev rx hash32 d pkts nd1;
     Some (outs1 @ outs2, nd2) }"

definition arrive_all :: "bool \<Rightarrow> ip_packet list \<Rightarrow> ip_packet list" where
  "arrive_all ck pkts = map (\<lambda>(q, h). (q, arrived ck h)) pkts"

record hop =
  hp_dev :: "ptr \<Rightarrow> device_info"
  hp_in :: ptr
  hp_node :: ip_node
  hp_out :: ptr

fun travel :: "bool \<Rightarrow> (nat \<Rightarrow> ip_packet \<Rightarrow> rx_status) \<Rightarrow> (u8 list \<Rightarrow> u32) \<Rightarrow> hop list \<Rightarrow> ip_packet list \<Rightarrow> ip_packet list option" where
  "travel ck rx hash32 [] pkts = Some (arrive_all ck pkts)" |
  "travel ck rx hash32 (hp # hops) pkts = do {
     (outs, _) \<leftarrow> receive_all (hp_dev hp) rx hash32 (hp_in hp) (arrive_all ck pkts) (hp_node hp);
     travel ck rx hash32 hops (sent_on (hp_out hp) outs) }"

lemma arrive_all_travelling:
  "\<forall>x\<in>set pkts. travelling ck p k dest ttl x \<Longrightarrow> segment n pkts m \<Longrightarrow>
    (\<forall>x\<in>set (arrive_all ck pkts). travelling ck p k dest ttl x) \<and> segment n (arrive_all ck pkts) m"
proof (induction n pkts m rule: segment.induct)
  case (2 n x xs m)
  then show ?case using travelling_arrives [of ck p k dest ttl "fst x" "snd x"] by (cases x) (auto simp: arrive_all_def)
qed (simp add: arrive_all_def)

lemma receive_all_relays:
  assumes "relays dev dest d_in dout nd" and "in_checksum nd = ck" and "length p < 2 ^ 16" and "ttl - 1 \<noteq> 0"
    and "\<forall>x\<in>set pkts. travelling ck p k dest ttl x" and "segment n pkts m"
  shows "\<exists>outs. receive_all dev rx hash32 d_in pkts nd = Some (outs, nd) \<and>
    (\<forall>x\<in>set (sent_on dout outs). travelling ck p k dest (ttl - 1) x) \<and> segment n (sent_on dout outs) m"
  using assms(5,6)
proof (induction n pkts m rule: segment.induct)
  case (2 n x xs m)
  obtain q h where x: "x = (q, h)" by force
  obtain outs1 where o1: "Ip_Receive dev rx hash32 d_in None (q, h) nd = Some (outs1, nd)"
    "\<forall>x\<in>set (sent_on dout outs1). travelling ck p k dest (ttl - 1) x" "segment n (sent_on dout outs1) (n + length q)"
    using Ip_Receive_relays [OF assms(1-3) _ assms(4), of k q h rx hash32 None] 2(2,3) x by auto
  obtain outs2 where o2: "receive_all dev rx hash32 d_in xs nd = Some (outs2, nd)"
    "\<forall>x\<in>set (sent_on dout outs2). travelling ck p k dest (ttl - 1) x" "segment (n + length q) (sent_on dout outs2) m"
    using 2 x by auto
  show ?case using o1 o2 x segment_append [OF o1(3) o2(3)] by auto
qed simp

lemma travel_ok:
  assumes "\<forall>hp\<in>set hops. relays (hp_dev hp) dest (hp_in hp) (hp_out hp) (hp_node hp) \<and> in_checksum (hp_node hp) = ck"
    and "length p < 2 ^ 16" and "length hops < unat ttl"
    and "\<forall>x\<in>set pkts. travelling ck p k dest ttl x" and "segment n pkts m"
  shows "\<exists>frs. travel ck rx hash32 hops pkts = Some frs \<and> (\<forall>x\<in>set frs. travelling ck p k dest (ttl - of_nat (length hops)) x) \<and>
    segment n frs m"
  using assms(1,3-5)
proof (induction hops arbitrary: pkts ttl)
  case Nil
  then show ?case using arrive_all_travelling by auto
next
  case (Cons hp hops)
  have "ttl \<noteq> 0" using Cons.prems(2) by auto
  then have u: "unat (ttl - 1) = unat ttl - 1" by (rule unat_minus_one)
  have t: "ttl - 1 \<noteq> 0" using u Cons.prems(2) by (auto simp: unat_eq_0)
  have lt: "length hops < unat (ttl - 1)" using u Cons.prems(2) by simp
  note A = arrive_all_travelling [OF Cons.prems(3,4)]
  obtain outs where outs: "receive_all (hp_dev hp) rx hash32 (hp_in hp) (arrive_all ck pkts) (hp_node hp) = Some (outs, hp_node hp)"
    "\<forall>x\<in>set (sent_on (hp_out hp) outs). travelling ck p k dest (ttl - 1) x" "segment n (sent_on (hp_out hp) outs) m"
    using receive_all_relays [OF _ _ assms(2) t conjunct1 [OF A] conjunct2 [OF A]] Cons.prems(1) by fastforce
  obtain frs where "travel ck rx hash32 hops (sent_on (hp_out hp) outs) = Some frs"
    "\<forall>x\<in>set frs. travelling ck p k dest (ttl - 1 - of_nat (length hops)) x" "segment n frs m"
    using Cons.IH [OF _ lt outs(2,3)] Cons.prems(1) by auto
  then show ?case using outs(1) by (simp add: diff_diff_eq)
qed

section \<open>Delivery\<close>

text \<open>Whatever order these packets arrive in, however often, and with whatever parts of other datagrams in between, the one that
  completes the set within the timeout makes the node deliver the datagram.\<close>

definition reassembled :: "time \<Rightarrow> u8 list \<Rightarrow> frag_key \<Rightarrow> ip_packet list \<Rightarrow> bool" where
  "reassembled E p k frs \<longleftrightarrow> (\<forall>D tr t q h i r s. D k = p \<and> (\<forall>k. length (D k) < 2 ^ 16) \<and>
     runs (l3_init E) (tr @ [(l3_action.Deliver t q h i, r)]) s \<and> (\<forall>(a, r)\<in>set (tr @ [(l3_action.Deliver t q h i, r)]). honest D a) \<and>
     snd ` set (arrivals k tr) \<subset> set frs \<and> (\<forall>(t', x)\<in>set (arrivals k tr). t < t' + E) \<and> (q, h) \<in> set frs \<and>
     insert (q, h) (snd ` set (arrivals k tr)) = set frs \<longrightarrow> r = Some (whole p h))"

lemma whole_alone:
  assumes "\<forall>x\<in>set frs. part p k x" and "segment 0 frs (length p)" and "x \<in> set frs" and "\<not> is_fragment (snd x)"
  shows "frs = [x] \<and> fst x = p"
proof -
  have x: "offset_of x = 0" "length (fst x) = length p" "fst x = p"
  proof -
    have P: "part p k x" and o: "ih_fragmentOffset (snd x) = 0" "IsLastFragment (snd x)" using assms(1,3,4) by (auto simp: is_fragment_def)
    show "offset_of x = 0" using o(1) by (simp add: offset_of_def)
    have b: "length (fst x) \<le> length p" "fst x = take (length (fst x)) p" using P o(1) by (simp_all add: part_def piece_def)
    show l: "length (fst x) = length p" using P o b(1) by (simp add: part_def offset_of_def)
    show "fst x = p" using b(2) unfolding l by simp
  qed
  obtain y ys where frs: "frs = y # ys" using assms(3) by (cases frs) auto
  have y: "offset_of y = 0" "fst y \<noteq> []" and ys: "segment (length (fst y)) ys (length p)" using assms(1,2) frs by (auto simp: part_def)
  have "x \<notin> set ys"
  proof
    assume "x \<in> set ys"
    then have "length (fst y) \<le> offset_of x" using segment_bounds [OF ys] by blast
    then show False using x(1) y(2) by simp
  qed
  then have "x = y" using assms(3) frs by simp
  moreover have "ys = []"
  proof (cases ys)
    case (Cons z zs)
    then have "fst z \<noteq> []" using assms(1) frs by (auto simp: part_def)
    moreover have "length (fst y) \<le> offset_of z \<and> offset_of z + length (fst z) \<le> length p" using segment_bounds [OF ys] Cons by auto
    ultimately show ?thesis using x(2) \<open>x = y\<close> by (cases "fst z") auto
  qed
  ultimately show ?thesis using frs x(3) by simp
qed

lemma travelling_reassembled:
  assumes "\<forall>x\<in>set frs. travelling ck p k dest ttl x" and "segment 0 frs (length p)" and "0 \<le> E"
  shows "reassembled E p k frs"
  unfolding reassembled_def
proof (intro allI impI, elim conjE)
  fix D tr t q h i r s
  assume D: "D k = p" "\<forall>k. length (D k) < 2 ^ 16" and run: "runs (l3_init E) (tr @ [(l3_action.Deliver t q h i, r)]) s"
    and hon: "\<forall>(a, r)\<in>set (tr @ [(l3_action.Deliver t q h i, r)]). honest D a"
    and arr: "snd ` set (arrivals k tr) \<subset> set frs" "\<forall>(t', x)\<in>set (arrivals k tr). t < t' + E" "(q, h) \<in> set frs"
    and full: "insert (q, h) (snd ` set (arrivals k tr)) = set frs"
  have P: "\<forall>x\<in>set frs. part p k x" using assms(1) by (auto simp: travelling_def)
  show "r = Some (whole p h)"
  proof (cases "\<forall>x\<in>set frs. is_fragment (snd x)")
    case True
    then have F: "\<forall>x\<in>set frs. part p k x \<and> is_fragment (snd x)" using P by blast
    have h0: "l3_fragments (l3_init E) k = None" by (simp add: l3_init_def)
    have hon0: "\<forall>(a, r)\<in>set ([] @ tr @ [(l3_action.Deliver t q h i, r)]). honest D a" using hon by simp
    have l: "length (D k) < 2 ^ 16" for k using D(2) by blast
    show ?thesis using parts_reassembled [OF F assms(2) runs.stop assms(3) h0 run hon0 D(1) l arr] full by simp
  next
    case False
    then obtain x where x: "x \<in> set frs" "\<not> is_fragment (snd x)" by blast
    have w: "frs = [x]" "fst x = p" using whole_alone [OF P assms(2) x] by auto
    then have e: "x = (q, h)" using arr(3) by simp
    obtain s1 where s1: "runs (l3_init E) tr s1" "possible (l3_action.Deliver t q h i) s1" "l3_step (l3_action.Deliver t q h i) s1 = Some (r, s)"
      by (rule runs_snocE [OF run])
    have ok: "l3_ok E D s1" using reassembly_runs_ok [OF s1(1) l3_init_ok assms(3)] D(2) hon by auto
    have "r = Some (q, h)" using Deliver_whole_ok(1) [OF ok s1(2)] s1(3) x(2) e by simp
    moreover have "travelling ck p k dest ttl (q, h)" using assms(1) arr(3) by blast
    ultimately show ?thesis using w e x(2) by (auto simp: whole_def travelling_def is_fragment_def)
  qed
qed

lemma local_multicast: "IsLocalMulticast a \<Longrightarrow> IsMulticast a"
proof -
  assume "IsLocalMulticast a"
  then have a: "a AND 0xffffff00 = 0xe0000000" by (simp add: IsLocalMulticast_def)
  have m: "(0xffffff00 :: u32) = NOT (mask 8)" by (simp add: mask_eq_exp_minus_1)
  have "push_bit 8 (drop_bit 8 a) = a AND 0xffffff00" unfolding m
    by (rule bit_word_eqI) (auto simp: bit_simps simp del: mask_numeral)
  then have e: "a = 0xe0000000 + take_bit 8 a" using bits_ident [of 8 a] a by simp
  have "unat (take_bit 8 a) < 256" using take_bit_nat_less_exp [of 8 "unat a"] by (simp add: unsigned_take_bit_eq)
  moreover from this have "unat (0xe0000000 + take_bit 8 a) = 0xe0000000 + unat (take_bit 8 a)" by (simp add: unat_word_ariths)
  ultimately show ?thesis using e by (simp add: IsMulticast_def word_le_nat_alt)
qed


text \<open>C40: A packet that arrives at a router with time to live 0 is not discarded: the decrement wraps, and the router sends it on
  with a time to live of 255.\<close>

theorem zero_ttl_is_forwarded:
  assumes "relays dev dest d_in dout nd" and "in_checksum nd = ck" and "length p < 2 ^ 16" and "travelling ck p k dest 0 (q, h)"
  shows "\<exists>outs. Ip_Receive dev rx hash32 d_in prio (q, h) nd = Some (outs, nd) \<and> sent_on dout outs \<noteq> [] \<and>
    (\<forall>x\<in>set (sent_on dout outs). ih_ttl (snd x) = 255)"
proof -
  have "(0 - 1 :: u8) \<noteq> 0" by simp
  then obtain outs where outs: "Ip_Receive dev rx hash32 d_in prio (q, h) nd = Some (outs, nd)"
    "\<forall>x\<in>set (sent_on dout outs). travelling ck p k dest (0 - 1) x" "segment (offset_of (q, h)) (sent_on dout outs) (offset_of (q, h) + length q)"
    using Ip_Receive_relays [OF assms] by blast
  have "q \<noteq> []" using assms(4) by (simp add: travelling_def part_def)
  then have "sent_on dout outs \<noteq> []" using outs(3) by auto
  then show ?thesis using outs(1,2) by (auto simp: travelling_def)
qed

section \<open>An example\<close>

text \<open>A source on the network 10.0.0.0, a router between it and the network 10.0.1.0, where packets have at most 68 bytes.\<close>

definition example_dev :: "ptr \<Rightarrow> device_info" where
  "example_dev d = \<lparr>dv_mtu = (if d = 3 then 68 else 1500), dv_loopback = False, dv_needsArp = False, dv_isMulticast = True\<rparr>"

definition example_interface :: "ptr \<Rightarrow> ipv4_address \<Rightarrow> ipv4_interface" where
  "example_interface d a = \<lparr>if_device = d, if_up = True, if_forwarding = True, if_addrs = [Ipv4InterfaceAddress a 0xffffff00]\<rparr>"

definition plain_node :: "ipv4_interface list \<Rightarrow> (table_entry \<times> u32) list \<Rightarrow> ip_node" where
  "plain_node ifaces routes = \<lparr>in_stack = \<lparr>st_node = \<lparr>nd_interfaces = ifaces, nd_reverse = zip (map if_device ifaces) [0..<length ifaces],
       nd_weakEs = True, nd_ipForward = True\<rparr>, st_networkRoutes = routes, st_multicastRoutes = []\<rparr>, in_l3 = l3_init 30,
     in_identification = (\<lambda>_. 0), in_defaultTtl = 64, in_checksum = True, in_protocols = (\<lambda>_. None), in_sockets = 0, in_enableDpd = False,
     in_expire = 1, in_purge = 1, in_dups = [], in_cleanDpd = None\<rparr>"

definition example_source :: ip_node where
  "example_source = plain_node [example_interface 1 0x0a000001] [(CreateNetworkRouteTo 0 0 0x0a000002 0, 0)]"

definition example_router :: ip_node where
  "example_router = plain_node [example_interface 2 0x0a000002, example_interface 3 0x0a000101]
     [(CreateNetworkRouteTo 0x0a000000 0xffffff00 0 0, 0), (CreateNetworkRouteTo 0x0a000100 0xffffff00 0 1, 0)]"

lemma example_leads: "leads example_dev 0x0a000102 1 example_source" "leads example_dev 0x0a000102 3 example_router"
proof -
  have s: "LookupStatic 0x0a000102 nullptr (in_stack example_source) =
      Some (Some \<lparr>rt_dest = 0, rt_source = 0x0a000001, rt_gateway = 0x0a000002, rt_device = 1\<rparr>)"
    "nd_GetInterfaceForDevice 1 (st_node (in_stack example_source)) = int 0"
    "nd_GetInterface 0 (st_node (in_stack example_source)) = Some (example_interface 1 0x0a000001)" by code_simp+
  show "leads example_dev 0x0a000102 1 example_source" unfolding leads_def
    by (intro exI conjI, rule s(1), simp add: UNINITIALIZED_def, simp only: ipv4_route.simps s(2), rule s(3))
      (simp_all add: example_interface_def example_dev_def Ipv4InterfaceAddress_def)
  have r: "LookupStatic 0x0a000102 nullptr (in_stack example_router) =
      Some (Some \<lparr>rt_dest = 0x0a000100, rt_source = 0x0a000101, rt_gateway = 0, rt_device = 3\<rparr>)"
    "nd_GetInterfaceForDevice 3 (st_node (in_stack example_router)) = int 1"
    "nd_GetInterface 1 (st_node (in_stack example_router)) = Some (example_interface 3 0x0a000101)" by code_simp+
  show "leads example_dev 0x0a000102 3 example_router" unfolding leads_def
    by (intro exI conjI, rule r(1), simp add: UNINITIALIZED_def, simp only: ipv4_route.simps r(2), rule r(3))
      (simp_all add: example_interface_def example_dev_def Ipv4InterfaceAddress_def)
qed

lemma example_relays: "relays example_dev 0x0a000102 2 3 example_router"
proof -
  have "forwards_from 2 0x0a000102 (in_stack example_router)" "\<not> IsMulticast 0x0a000102" by code_simp+
  moreover have "nd_GetInterface (nat (nd_GetInterfaceForDevice 2 (st_node (in_stack example_router)))) (st_node (in_stack example_router)) =
    Some (example_interface 2 0x0a000002)" by code_simp
  ultimately show ?thesis using example_leads(2) by (simp add: relays_def example_interface_def del: GetInterface_iff)
qed

lemma example_checksum: "in_checksum example_source" "in_checksum example_router"
  by (simp_all add: example_source_def example_router_def plain_node_def)


theorem zero_ttl_is_forwarded_witness:
  "\<exists>h outs. ih_ttl h = 0 \<and> Ip_Receive example_dev (\<lambda>_ _. RX_OK) (\<lambda>_. 0) 2 None ([1, 2, 3], h) example_router = Some (outs, example_router) \<and>
    sent_on 3 outs \<noteq> []"
proof -
  let ?h = "EnableChecksum (Ipv4Header\<lparr>ih_destination := 0x0a000102, ih_payloadSize := 3\<rparr>)"
  have h: "travelling True [1, 2, 3] (fragment_key ?h) 0x0a000102 0 ([1, 2, 3], ?h)"
    by (simp add: travelling_def part_def piece_def offset_of_def ipv4_ok_def EnableChecksum_def Ipv4Header_def IsLastFragment_def)
  have "ih_ttl ?h = 0" by (simp add: EnableChecksum_def Ipv4Header_def)
  then show ?thesis using zero_ttl_is_forwarded [OF example_relays _ _ h, of "\<lambda>_ _. RX_OK" "\<lambda>_. 0" None] example_checksum(2) by fastforce
qed

text \<open>A packet with tags for the time to live that is broadcast on two interfaces: the call for the first interface takes the tags off
  the packet that is passed to the call for the second one, which is sent with the default time to live.\<close>

lemma broadcast_loses_tags:
  "map_option (\<lambda>(outs, nd). map (\<lambda>x. ih_ttl (snd x)) (sent_on 2 outs @ sent_on 3 outs))
    (Ip_Send example_dev (\<lambda>_. 0) [1, 2, 3] 0 0xffffffff 17 None \<lparr>tg_ttl = Some 1, tg_tos = None, tg_prio = None\<rparr> example_router) = Some [1, 64]"
  by code_simp

end
