(* ===== verification/Spec2Isabelle.thy ===== *)
theory Spec2Isabelle
  imports Simulator_Properties Heap_Scheduler Calendar_Contract Queue_Disc_Properties Tsn_Properties Point_To_Point_Link Tcp_Rx_Runs Ip_Delivery
begin

text \<open>
  A model of the core of the ns-3 network simulator and of the time-sensitive networking module that this
  repository adds to it.

  \<^bold>\<open>The program.\<close> A simulation is a set of nodes whose protocol entities schedule callbacks in simulated time. The engine
  (\<^verbatim>\<open>src/core\<close>) keeps the pending events in a scheduler and runs them one by one. Packets (\<^verbatim>\<open>src/network\<close>) are
  byte buffers shared copy-on-write. They go down through IP (\<^verbatim>\<open>src/internet\<close>), the queueing disciplines
  (\<^verbatim>\<open>src/traffic-control\<close>, \<^verbatim>\<open>contrib/tsn\<close>) and the queue of a net device (\<^verbatim>\<open>src/point-to-point\<close>), which
  hands them to a channel that schedules their reception on the other side.

  \<^bold>\<open>Simulation core.\<close>
  \<^item> \<open>Event_Scheduler\<close>: event keys and their comparisons (\<^verbatim>\<open>scheduler.h\<close>); the virtual interface is a record of
    operations, its contract the locale \<open>event_queue\<close>, with removal the locale \<open>event_scheduler\<close>.
  \<^item> \<open>List_Scheduler\<close>, \<open>Heap_Scheduler\<close>: \<^verbatim>\<open>ListScheduler\<close>, \<^verbatim>\<open>MapScheduler\<close> and
    \<^verbatim>\<open>HeapScheduler\<close>, each an interpretation of the contract. The heap keeps the vector with its dummy slot, and its
    sift loops are proved to restore the order; \<^verbatim>\<open>Remove\<close> of the heap is not, and a concrete run shows why.
  \<^item> \<open>Timed_Scheduler\<close>: the weaker contract \<open>timed_event_queue\<close> of a scheduler whose client does not go back in
    time, which every scheduler meets; \<open>Calendar_Scheduler\<close>: \<^verbatim>\<open>CalendarScheduler\<close>. \<open>Calendar_Search\<close> shows that the
    search over a year finds the least event even where times wrap around, \<open>Calendar_Contract\<close> that the calendar meets
    the contract and answers as the list does. The number of buckets is the fuel of the search, which visits each once.
  \<^item> \<open>Simulator_Engine\<close>: \<^verbatim>\<open>DefaultSimulatorImpl\<close>, \<^verbatim>\<open>EventId\<close>, \<^verbatim>\<open>EventImpl\<close>. Client callbacks are a function
    from what a callback can observe to the calls it makes. \<open>Simulator_Runs\<close> has the invariant of reachable states and the
    simulation relation between engines with different schedulers, \<open>Simulator_Properties\<close> the theorems: events run in
    order, identifiers tell the truth, \<^verbatim>\<open>Run\<close> never fails and ends when handlers are passive. \<^verbatim>\<open>Run\<close> is a partial
    function, so that not returning is a value.

  \<^bold>\<open>Queues and queue discs.\<close>
  \<^item> \<open>Net_Queue\<close>: \<^verbatim>\<open>QueueBase\<close>, \<^verbatim>\<open>Queue\<close>, \<^verbatim>\<open>QueueSize\<close> and \<^verbatim>\<open>DropTailQueue\<close> with their counters, traces and
    limits; the locales \<open>packet_queue\<close> and \<open>counted_queue\<close> say what a bounded FIFO promises.
  \<^item> \<open>Queue_Disc\<close>: the base class \<^verbatim>\<open>QueueDisc\<close> with its statistics, requeueing and transmission loop. Virtual functions are
    a record of operations; \<open>Queue_Disc_Contract\<close> states what they owe the base class as the locale
    \<open>queue_disc_class\<close> and proves the bookkeeping once.
  \<^item> \<open>Queue_Disciplines\<close>, \<open>Priority_Disciplines\<close>: \<^verbatim>\<open>FifoQueueDisc\<close>, \<^verbatim>\<open>PfifoFastQueueDisc\<close> and
    \<^verbatim>\<open>PrioQueueDisc\<close>, with their interpretations; \<open>Queue_Disc_Properties\<close> has the theorems.

  \<^bold>\<open>Time-sensitive networking.\<close>
  \<^item> \<open>Tsn_Schedule\<close>: gate control lists and their compilation (\<^verbatim>\<open>net-device-list-config\<close>), with the schedule they
    stand for as a function of time. \<open>Tsn_Gate\<close>: \<^verbatim>\<open>TransmissonGateQdisc\<close>, an interpretation of \<open>queue_disc_class\<close>.
  \<^item> \<open>Tsn_Shaper\<close>, \<open>Tsn_Gate_Control\<close>, \<open>Tsn_Properties\<close>: \<^verbatim>\<open>TasQueueDisc\<close>, its timers, and the theorem
    that packets leave inside the windows of their gates.

  \<^bold>\<open>Packets.\<close>
  \<^item> \<open>Buffer_Model\<close>: \<^verbatim>\<open>Buffer\<close> and \<^verbatim>\<open>Buffer::Iterator\<close> on a heap of blocks with reference counts, dirty areas, a
    free list and the virtual zero area. \<open>Buffer_Sharing\<close> has the ownership invariant, \<open>Buffer_Operations\<close>,
    \<open>Buffer_Iterators\<close>, \<open>Buffer_Copies\<close> and \<open>Buffer_Serialization\<close> what each operation does to the bytes.
  \<^item> \<open>Packet_Model\<close>: \<^verbatim>\<open>Packet\<close> and \<^verbatim>\<open>ByteTagList\<close>. \<open>Packet_Contents\<close> shows that each operation is the
    list operation one expects, \<open>Packet_Programs\<close> that whole programs over sharing packets refine lists,
    \<open>Packet_Properties\<close> has the theorems.
  \<^item> \<open>Ip_Checksum\<close>: \<^verbatim>\<open>CalculateIpChecksum\<close>.

  \<^bold>\<open>Protocols.\<close>
  \<^item> \<open>Ip_Header\<close>: \<^verbatim>\<open>Ipv4Header\<close> on the packet model. \<open>Ip_Fragments\<close>, \<open>Ip_Reassembly\<close>: fragmentation,
    the fragment buffers and their timeouts in \<^verbatim>\<open>Ipv4L3Protocol\<close>.
  \<^item> \<open>Point_To_Point\<close>, \<open>Point_To_Point_Link\<close>: \<^verbatim>\<open>PointToPointNetDevice\<close>, \<^verbatim>\<open>PointToPointChannel\<close> and
    \<^verbatim>\<open>PppHeader\<close>, and the link two connected devices make.
  \<^item> \<open>Packet_Lists\<close>: fragments of packets as byte lists, tied to \<^verbatim>\<open>Packet::CreateFragment\<close>.
  \<^item> \<open>Sequence_Numbers\<close>: \<^verbatim>\<open>SequenceNumber32\<close>, and that in a window of less than half the range its comparisons are those
    of positions. \<open>Tcp_Rx_Buffer\<close>: \<^verbatim>\<open>TcpRxBuffer\<close>. \<open>Tcp_Rx_Stream\<close> has its loops on positions, \<open>Tcp_Rx_Refinement\<close>
    the abstract buffer (bytes read, bytes held, end known), \<open>Tcp_Rx_Add\<close> and \<open>Tcp_Rx_Runs\<close> the refinement of each
    operation and of whole runs: what is read is the stream.
  \<^item> \<open>Ipv4_Interfaces\<close>: \<^verbatim>\<open>Ipv4Address\<close>, \<^verbatim>\<open>Ipv4Mask\<close>, \<^verbatim>\<open>Ipv4InterfaceAddress\<close>, \<^verbatim>\<open>Ipv4Interface\<close> and the interfaces
    of \<^verbatim>\<open>Ipv4L3Protocol\<close>; masks and prefixes. \<open>Static_Routing\<close>: \<^verbatim>\<open>Ipv4StaticRouting\<close> and the operations of the node
    that notify it. \<open>Routing_Properties\<close>: the longest prefix and the smallest metric win. \<open>Connected_Routes\<close>: a configured node
    reaches its subnets in whatever order it is configured, until an address is removed.
  \<^item> \<open>Ip_Node\<close>: \<^verbatim>\<open>Ipv4L3Protocol\<close> as a whole, from \<^verbatim>\<open>Send\<close> and \<^verbatim>\<open>Receive\<close> to \<^verbatim>\<open>SendRealOut\<close> and
    \<^verbatim>\<open>Ipv4Interface::Send\<close>, on the routing, fragmentation and reassembly above. \<open>Ip_Network\<close>: forwarding ends in every network.
    \<open>Ip_Delivery\<close>: a datagram travels along a path of routers and is delivered.

  \<^bold>\<open>Conventions.\<close> A failed assertion, an abort or the use of an invalid pointer or iterator is \<open>None\<close> (an error value in the
  engine), so a theorem that an operation gives \<open>Some\<close> says that no assertion fails. Fixed-width integers are words wherever they
  can wrap; times are integers in the unit of the code. Callbacks, traces and error models are parameters or logs. Theories from
  the IP protocol and the devices upwards take packets as lists of bytes, which is what packets are by the refinement of
  \<open>Packet_Properties\<close>. The bounds in hypotheses are those of the integer types: byte and packet counters below
  \<open>2 ^ 32\<close>, offsets of a buffer below \<open>OFFSET_MAX\<close>, datagrams below \<open>2 ^ 16\<close> bytes, at least 28 bytes of MTU. The loops
  that may not end are partial functions into \<open>option\<close>, and the theorems prove that they return.

  \<^bold>\<open>Not modelled.\<close> The run-time type system, attributes, logging, smart pointers and the random number generators
  (infrastructure of the language); the multithreaded and distributed engines; packet metadata, packet tags and printing;
  the floating-point radio models and everything above them (\<^verbatim>\<open>wifi\<close>, \<^verbatim>\<open>lte\<close>, \<^verbatim>\<open>wimax\<close>, \<^verbatim>\<open>spectrum\<close>,
  \<^verbatim>\<open>lr-wpan\<close>, \<^verbatim>\<open>uan\<close>, \<^verbatim>\<open>propagation\<close>, \<^verbatim>\<open>mobility\<close>); the dynamic routing protocols, the sockets of TCP and UDP,
  ARP, ICMP and the IPv6 stack; the random early detection and PIE families of queue discs; and \<^verbatim>\<open>contrib/embeddedrtps\<close>, a
  vendored RTPS implementation with lwIP, with its adapter \<^verbatim>\<open>contrib/myudpdriver\<close>.
\<close>

end
